(* ===== verification/Prelude.thy ===== *)
theory Prelude
  imports Main "HOL-Library.Word" "HOL-Library.Monad_Syntax"
begin

text \<open>
  Shared vocabulary of the development: the machine integer types of the C++ sources, the two
  processors, the theorem collections the component theories feed, and generic facts about
  words, masks and byte lists.

  C++ conventions used everywhere: \<open>uintN_t\<close> is \<open>N word\<close> (so \<open>+\<close>, \<open>-\<close> and \<open>*\<close> wrap),
  \<open>x >> n\<close> is \<open>drop_bit n x\<close>, \<open>x << n\<close> is \<open>push_bit n x\<close>, a C truth test \<open>x & m\<close> is
  \<open>x AND m \<noteq> 0\<close>, a widening or narrowing cast is \<open>ucast\<close>.  A per-processor array
  \<open>T g[2]\<close> is a function from \<open>nds_cpu\<close>.
\<close>

unbundle bit_operations_syntax

type_synonym u8 = "8 word"
type_synonym u16 = "16 word"
type_synonym u32 = "32 word"
type_synonym u64 = "64 word"

text \<open>The two cores: index 0 and 1 of every per-CPU array (\<open>NdsCpu\<close> in \<open>runtime_arm.h\<close>).\<close>

datatype nds_cpu = ARM9 | ARM7

text \<open>\<open>cpu ^ 1\<close>\<close>

fun other_cpu :: "nds_cpu \<Rightarrow> nds_cpu" where
  "other_cpu ARM9 = ARM7"
| "other_cpu ARM7 = ARM9"

lemma other_cpu_neq [simp]: "other_cpu c \<noteq> c" "c \<noteq> other_cpu c"
  by (cases c; simp)+

lemma other_cpu_invol [simp]: "other_cpu (other_cpu c) = c"
  by (cases c) simp_all

lemma nds_cpu_cases_other: "d = c \<or> d = other_cpu c"
  by (cases c; cases d) simp_all

named_theorems mem_safe \<open>an access stays inside its array\<close>
named_theorems frame \<open>what an operation leaves unchanged\<close>
named_theorems inv_pres \<open>an operation keeps its component's invariant\<close>

section \<open>Single-bit masks\<close>

text \<open>
  The sources test and set flags with literal masks.  For every single-bit mask below
  \<open>2 ^ 32\<close>, one fact reads the test as a bit, one gives the bits of the literal.
\<close>

lemma and_pow2_0: "x AND (2 ^ n :: 'a::len word) = 0 \<longleftrightarrow> \<not> bit x n"
  by (fact and_exp_eq_0_iff_not_bit)

lemma tst0: "(x :: 'a::len word) AND 1 = 0 \<longleftrightarrow> \<not> bit x 0"
  using and_pow2_0 [of x 0] by simp

lemma bitlit0: "bit (1 :: 'a::len word) m \<longleftrightarrow> m = 0 \<and> 0 < LENGTH('a)"
  using bit_exp_iff [where ?'a="'a word", of 0 m] by auto

lemma tst1: "(x :: 'a::len word) AND 0x2 = 0 \<longleftrightarrow> \<not> bit x 1"
  using and_pow2_0 [of x 1] by simp

lemma bitlit1: "bit (0x2 :: 'a::len word) m \<longleftrightarrow> m = 1 \<and> 1 < LENGTH('a)"
  using bit_exp_iff [where ?'a="'a word", of 1 m] by auto

lemma tst2: "(x :: 'a::len word) AND 0x4 = 0 \<longleftrightarrow> \<not> bit x 2"
  using and_pow2_0 [of x 2] by simp

lemma bitlit2: "bit (0x4 :: 'a::len word) m \<longleftrightarrow> m = 2 \<and> 2 < LENGTH('a)"
  using bit_exp_iff [where ?'a="'a word", of 2 m] by auto

lemma tst3: "(x :: 'a::len word) AND 0x8 = 0 \<longleftrightarrow> \<not> bit x 3"
  using and_pow2_0 [of x 3] by simp

lemma bitlit3: "bit (0x8 :: 'a::len word) m \<longleftrightarrow> m = 3 \<and> 3 < LENGTH('a)"
  using bit_exp_iff [where ?'a="'a word", of 3 m] by auto

lemma tst4: "(x :: 'a::len word) AND 0x10 = 0 \<longleftrightarrow> \<not> bit x 4"
  using and_pow2_0 [of x 4] by simp

lemma bitlit4: "bit (0x10 :: 'a::len word) m \<longleftrightarrow> m = 4 \<and> 4 < LENGTH('a)"
  using bit_exp_iff [where ?'a="'a word", of 4 m] by auto

lemma tst5: "(x :: 'a::len word) AND 0x20 = 0 \<longleftrightarrow> \<not> bit x 5"
  using and_pow2_0 [of x 5] by simp

lemma bitlit5: "bit (0x20 :: 'a::len word) m \<longleftrightarrow> m = 5 \<and> 5 < LENGTH('a)"
  using bit_exp_iff [where ?'a="'a word", of 5 m] by auto

lemma tst6: "(x :: 'a::len word) AND 0x40 = 0 \<longleftrightarrow> \<not> bit x 6"
  using and_pow2_0 [of x 6] by simp

lemma bitlit6: "bit (0x40 :: 'a::len word) m \<longleftrightarrow> m = 6 \<and> 6 < LENGTH('a)"
  using bit_exp_iff [where ?'a="'a word", of 6 m] by auto

lemma tst7: "(x :: 'a::len word) AND 0x80 = 0 \<longleftrightarrow> \<not> bit x 7"
  using and_pow2_0 [of x 7] by simp

lemma bitlit7: "bit (0x80 :: 'a::len word) m \<longleftrightarrow> m = 7 \<and> 7 < LENGTH('a)"
  using bit_exp_iff [where ?'a="'a word", of 7 m] by auto

lemma tst8: "(x :: 'a::len word) AND 0x100 = 0 \<longleftrightarrow> \<not> bit x 8"
  using and_pow2_0 [of x 8] by simp

lemma bitlit8: "bit (0x100 :: 'a::len word) m \<longleftrightarrow> m = 8 \<and> 8 < LENGTH('a)"
  using bit_exp_iff [where ?'a="'a word", of 8 m] by auto

lemma tst9: "(x :: 'a::len word) AND 0x200 = 0 \<longleftrightarrow> \<not> bit x 9"
  using and_pow2_0 [of x 9] by simp

lemma bitlit9: "bit (0x200 :: 'a::len word) m \<longleftrightarrow> m = 9 \<and> 9 < LENGTH('a)"
  using bit_exp_iff [where ?'a="'a word", of 9 m] by auto

lemma tst10: "(x :: 'a::len word) AND 0x400 = 0 \<longleftrightarrow> \<not> bit x 10"
  using and_pow2_0 [of x 10] by simp

lemma bitlit10: "bit (0x400 :: 'a::len word) m \<longleftrightarrow> m = 10 \<and> 10 < LENGTH('a)"
  using bit_exp_iff [where ?'a="'a word", of 10 m] by auto

lemma tst11: "(x :: 'a::len word) AND 0x800 = 0 \<longleftrightarrow> \<not> bit x 11"
  using and_pow2_0 [of x 11] by simp

lemma bitlit11: "bit (0x800 :: 'a::len word) m \<longleftrightarrow> m = 11 \<and> 11 < LENGTH('a)"
  using bit_exp_iff [where ?'a="'a word", of 11 m] by auto

lemma tst12: "(x :: 'a::len word) AND 0x1000 = 0 \<longleftrightarrow> \<not> bit x 12"
  using and_pow2_0 [of x 12] by simp

lemma bitlit12: "bit (0x1000 :: 'a::len word) m \<longleftrightarrow> m = 12 \<and> 12 < LENGTH('a)"
  using bit_exp_iff [where ?'a="'a word", of 12 m] by auto

lemma tst13: "(x :: 'a::len word) AND 0x2000 = 0 \<longleftrightarrow> \<not> bit x 13"
  using and_pow2_0 [of x 13] by simp

lemma bitlit13: "bit (0x2000 :: 'a::len word) m \<longleftrightarrow> m = 13 \<and> 13 < LENGTH('a)"
  using bit_exp_iff [where ?'a="'a word", of 13 m] by auto

lemma tst14: "(x :: 'a::len word) AND 0x4000 = 0 \<longleftrightarrow> \<not> bit x 14"
  using and_pow2_0 [of x 14] by simp

lemma bitlit14: "bit (0x4000 :: 'a::len word) m \<longleftrightarrow> m = 14 \<and> 14 < LENGTH('a)"
  using bit_exp_iff [where ?'a="'a word", of 14 m] by auto

lemma tst15: "(x :: 'a::len word) AND 0x8000 = 0 \<longleftrightarrow> \<not> bit x 15"
  using and_pow2_0 [of x 15] by simp

lemma bitlit15: "bit (0x8000 :: 'a::len word) m \<longleftrightarrow> m = 15 \<and> 15 < LENGTH('a)"
  using bit_exp_iff [where ?'a="'a word", of 15 m] by auto

lemma tst16: "(x :: 'a::len word) AND 0x10000 = 0 \<longleftrightarrow> \<not> bit x 16"
  using and_pow2_0 [of x 16] by simp

lemma bitlit16: "bit (0x10000 :: 'a::len word) m \<longleftrightarrow> m = 16 \<and> 16 < LENGTH('a)"
  using bit_exp_iff [where ?'a="'a word", of 16 m] by auto

lemma tst17: "(x :: 'a::len word) AND 0x20000 = 0 \<longleftrightarrow> \<not> bit x 17"
  using and_pow2_0 [of x 17] by simp

lemma bitlit17: "bit (0x20000 :: 'a::len word) m \<longleftrightarrow> m = 17 \<and> 17 < LENGTH('a)"
  using bit_exp_iff [where ?'a="'a word", of 17 m] by auto

lemma tst18: "(x :: 'a::len word) AND 0x40000 = 0 \<longleftrightarrow> \<not> bit x 18"
  using and_pow2_0 [of x 18] by simp

lemma bitlit18: "bit (0x40000 :: 'a::len word) m \<longleftrightarrow> m = 18 \<and> 18 < LENGTH('a)"
  using bit_exp_iff [where ?'a="'a word", of 18 m] by auto

lemma tst19: "(x :: 'a::len word) AND 0x80000 = 0 \<longleftrightarrow> \<not> bit x 19"
  using and_pow2_0 [of x 19] by simp

lemma bitlit19: "bit (0x80000 :: 'a::len word) m \<longleftrightarrow> m = 19 \<and> 19 < LENGTH('a)"
  using bit_exp_iff [where ?'a="'a word", of 19 m] by auto

lemma tst20: "(x :: 'a::len word) AND 0x100000 = 0 \<longleftrightarrow> \<not> bit x 20"
  using and_pow2_0 [of x 20] by simp

lemma bitlit20: "bit (0x100000 :: 'a::len word) m \<longleftrightarrow> m = 20 \<and> 20 < LENGTH('a)"
  using bit_exp_iff [where ?'a="'a word", of 20 m] by auto

lemma tst21: "(x :: 'a::len word) AND 0x200000 = 0 \<longleftrightarrow> \<not> bit x 21"
  using and_pow2_0 [of x 21] by simp

lemma bitlit21: "bit (0x200000 :: 'a::len word) m \<longleftrightarrow> m = 21 \<and> 21 < LENGTH('a)"
  using bit_exp_iff [where ?'a="'a word", of 21 m] by auto

lemma tst22: "(x :: 'a::len word) AND 0x400000 = 0 \<longleftrightarrow> \<not> bit x 22"
  using and_pow2_0 [of x 22] by simp

lemma bitlit22: "bit (0x400000 :: 'a::len word) m \<longleftrightarrow> m = 22 \<and> 22 < LENGTH('a)"
  using bit_exp_iff [where ?'a="'a word", of 22 m] by auto

lemma tst23: "(x :: 'a::len word) AND 0x800000 = 0 \<longleftrightarrow> \<not> bit x 23"
  using and_pow2_0 [of x 23] by simp

lemma bitlit23: "bit (0x800000 :: 'a::len word) m \<longleftrightarrow> m = 23 \<and> 23 < LENGTH('a)"
  using bit_exp_iff [where ?'a="'a word", of 23 m] by auto

lemma tst24: "(x :: 'a::len word) AND 0x1000000 = 0 \<longleftrightarrow> \<not> bit x 24"
  using and_pow2_0 [of x 24] by simp

lemma bitlit24: "bit (0x1000000 :: 'a::len word) m \<longleftrightarrow> m = 24 \<and> 24 < LENGTH('a)"
  using bit_exp_iff [where ?'a="'a word", of 24 m] by auto

lemma tst25: "(x :: 'a::len word) AND 0x2000000 = 0 \<longleftrightarrow> \<not> bit x 25"
  using and_pow2_0 [of x 25] by simp

lemma bitlit25: "bit (0x2000000 :: 'a::len word) m \<longleftrightarrow> m = 25 \<and> 25 < LENGTH('a)"
  using bit_exp_iff [where ?'a="'a word", of 25 m] by auto

lemma tst26: "(x :: 'a::len word) AND 0x4000000 = 0 \<longleftrightarrow> \<not> bit x 26"
  using and_pow2_0 [of x 26] by simp

lemma bitlit26: "bit (0x4000000 :: 'a::len word) m \<longleftrightarrow> m = 26 \<and> 26 < LENGTH('a)"
  using bit_exp_iff [where ?'a="'a word", of 26 m] by auto

lemma tst27: "(x :: 'a::len word) AND 0x8000000 = 0 \<longleftrightarrow> \<not> bit x 27"
  using and_pow2_0 [of x 27] by simp

lemma bitlit27: "bit (0x8000000 :: 'a::len word) m \<longleftrightarrow> m = 27 \<and> 27 < LENGTH('a)"
  using bit_exp_iff [where ?'a="'a word", of 27 m] by auto

lemma tst28: "(x :: 'a::len word) AND 0x10000000 = 0 \<longleftrightarrow> \<not> bit x 28"
  using and_pow2_0 [of x 28] by simp

lemma bitlit28: "bit (0x10000000 :: 'a::len word) m \<longleftrightarrow> m = 28 \<and> 28 < LENGTH('a)"
  using bit_exp_iff [where ?'a="'a word", of 28 m] by auto

lemma tst29: "(x :: 'a::len word) AND 0x20000000 = 0 \<longleftrightarrow> \<not> bit x 29"
  using and_pow2_0 [of x 29] by simp

lemma bitlit29: "bit (0x20000000 :: 'a::len word) m \<longleftrightarrow> m = 29 \<and> 29 < LENGTH('a)"
  using bit_exp_iff [where ?'a="'a word", of 29 m] by auto

lemma tst30: "(x :: 'a::len word) AND 0x40000000 = 0 \<longleftrightarrow> \<not> bit x 30"
  using and_pow2_0 [of x 30] by simp

lemma bitlit30: "bit (0x40000000 :: 'a::len word) m \<longleftrightarrow> m = 30 \<and> 30 < LENGTH('a)"
  using bit_exp_iff [where ?'a="'a word", of 30 m] by auto

lemma tst31: "(x :: 'a::len word) AND 0x80000000 = 0 \<longleftrightarrow> \<not> bit x 31"
  using and_pow2_0 [of x 31] by simp

lemma bitlit31: "bit (0x80000000 :: 'a::len word) m \<longleftrightarrow> m = 31 \<and> 31 < LENGTH('a)"
  using bit_exp_iff [where ?'a="'a word", of 31 m] by auto

lemmas tsts = tst0 tst1 tst2 tst3 tst4 tst5 tst6 tst7 tst8 tst9 tst10 tst11 tst12 tst13 tst14 tst15 tst16 tst17 tst18 tst19 tst20 tst21 tst22 tst23 tst24 tst25 tst26 tst27 tst28 tst29 tst30 tst31

text \<open>The simplifier reads a bit of a word literal off the integer literal.\<close>

lemma bitint0: "bit (1 :: int) m \<longleftrightarrow> m = 0"
  using bit_exp_iff [where ?'a=int, of 0 m] by auto

lemma bitint1: "bit (0x2 :: int) m \<longleftrightarrow> m = 1"
  using bit_exp_iff [where ?'a=int, of 1 m] by auto

lemma bitint2: "bit (0x4 :: int) m \<longleftrightarrow> m = 2"
  using bit_exp_iff [where ?'a=int, of 2 m] by auto

lemma bitint3: "bit (0x8 :: int) m \<longleftrightarrow> m = 3"
  using bit_exp_iff [where ?'a=int, of 3 m] by auto

lemma bitint4: "bit (0x10 :: int) m \<longleftrightarrow> m = 4"
  using bit_exp_iff [where ?'a=int, of 4 m] by auto

lemma bitint5: "bit (0x20 :: int) m \<longleftrightarrow> m = 5"
  using bit_exp_iff [where ?'a=int, of 5 m] by auto

lemma bitint6: "bit (0x40 :: int) m \<longleftrightarrow> m = 6"
  using bit_exp_iff [where ?'a=int, of 6 m] by auto

lemma bitint7: "bit (0x80 :: int) m \<longleftrightarrow> m = 7"
  using bit_exp_iff [where ?'a=int, of 7 m] by auto

lemma bitint8: "bit (0x100 :: int) m \<longleftrightarrow> m = 8"
  using bit_exp_iff [where ?'a=int, of 8 m] by auto

lemma bitint9: "bit (0x200 :: int) m \<longleftrightarrow> m = 9"
  using bit_exp_iff [where ?'a=int, of 9 m] by auto

lemma bitint10: "bit (0x400 :: int) m \<longleftrightarrow> m = 10"
  using bit_exp_iff [where ?'a=int, of 10 m] by auto

lemma bitint11: "bit (0x800 :: int) m \<longleftrightarrow> m = 11"
  using bit_exp_iff [where ?'a=int, of 11 m] by auto

lemma bitint12: "bit (0x1000 :: int) m \<longleftrightarrow> m = 12"
  using bit_exp_iff [where ?'a=int, of 12 m] by auto

lemma bitint13: "bit (0x2000 :: int) m \<longleftrightarrow> m = 13"
  using bit_exp_iff [where ?'a=int, of 13 m] by auto

lemma bitint14: "bit (0x4000 :: int) m \<longleftrightarrow> m = 14"
  using bit_exp_iff [where ?'a=int, of 14 m] by auto

lemma bitint15: "bit (0x8000 :: int) m \<longleftrightarrow> m = 15"
  using bit_exp_iff [where ?'a=int, of 15 m] by auto

lemma bitint16: "bit (0x10000 :: int) m \<longleftrightarrow> m = 16"
  using bit_exp_iff [where ?'a=int, of 16 m] by auto

lemma bitint17: "bit (0x20000 :: int) m \<longleftrightarrow> m = 17"
  using bit_exp_iff [where ?'a=int, of 17 m] by auto

lemma bitint18: "bit (0x40000 :: int) m \<longleftrightarrow> m = 18"
  using bit_exp_iff [where ?'a=int, of 18 m] by auto

lemma bitint19: "bit (0x80000 :: int) m \<longleftrightarrow> m = 19"
  using bit_exp_iff [where ?'a=int, of 19 m] by auto

lemma bitint20: "bit (0x100000 :: int) m \<longleftrightarrow> m = 20"
  using bit_exp_iff [where ?'a=int, of 20 m] by auto

lemma bitint21: "bit (0x200000 :: int) m \<longleftrightarrow> m = 21"
  using bit_exp_iff [where ?'a=int, of 21 m] by auto

lemma bitint22: "bit (0x400000 :: int) m \<longleftrightarrow> m = 22"
  using bit_exp_iff [where ?'a=int, of 22 m] by auto

lemma bitint23: "bit (0x800000 :: int) m \<longleftrightarrow> m = 23"
  using bit_exp_iff [where ?'a=int, of 23 m] by auto

lemma bitint24: "bit (0x1000000 :: int) m \<longleftrightarrow> m = 24"
  using bit_exp_iff [where ?'a=int, of 24 m] by auto

lemma bitint25: "bit (0x2000000 :: int) m \<longleftrightarrow> m = 25"
  using bit_exp_iff [where ?'a=int, of 25 m] by auto

lemma bitint26: "bit (0x4000000 :: int) m \<longleftrightarrow> m = 26"
  using bit_exp_iff [where ?'a=int, of 26 m] by auto

lemma bitint27: "bit (0x8000000 :: int) m \<longleftrightarrow> m = 27"
  using bit_exp_iff [where ?'a=int, of 27 m] by auto

lemma bitint28: "bit (0x10000000 :: int) m \<longleftrightarrow> m = 28"
  using bit_exp_iff [where ?'a=int, of 28 m] by auto

lemma bitint29: "bit (0x20000000 :: int) m \<longleftrightarrow> m = 29"
  using bit_exp_iff [where ?'a=int, of 29 m] by auto

lemma bitint30: "bit (0x40000000 :: int) m \<longleftrightarrow> m = 30"
  using bit_exp_iff [where ?'a=int, of 30 m] by auto

lemma bitint31: "bit (0x80000000 :: int) m \<longleftrightarrow> m = 31"
  using bit_exp_iff [where ?'a=int, of 31 m] by auto

lemmas bitlits = bitlit0 bitlit1 bitlit2 bitlit3 bitlit4 bitlit5 bitlit6 bitlit7 bitlit8 bitlit9 bitlit10 bitlit11 bitlit12 bitlit13 bitlit14 bitlit15 bitlit16 bitlit17 bitlit18 bitlit19 bitlit20 bitlit21 bitlit22 bitlit23 bitlit24 bitlit25 bitlit26 bitlit27 bitlit28 bitlit29 bitlit30 bitlit31

lemmas bitints = bitint0 bitint1 bitint2 bitint3 bitint4 bitint5 bitint6 bitint7 bitint8 bitint9 bitint10 bitint11 bitint12 bitint13 bitint14 bitint15 bitint16 bitint17 bitint18 bitint19 bitint20 bitint21 bitint22 bitint23 bitint24 bitint25 bitint26 bitint27 bitint28 bitint29 bitint30 bitint31

section \<open>Masked indices\<close>

text \<open>
  \<open>array[addr & (size - 1)]\<close> is in range for every non-empty array, power of two or not.
\<close>

lemma unat_size_minus_1:
  assumes "0 < n" and "n \<le> 2 ^ 32"
  shows "unat (word_of_nat n - 1 :: u32) = n - 1"
proof (cases n)
  case 0
  with assms show ?thesis by simp
next
  case (Suc m)
  with assms show ?thesis by (simp add: unat_of_nat)
qed

lemma masked_index_in_range:
  assumes "0 < n" and "n \<le> 2 ^ 32"
  shows "unat (x AND (word_of_nat n - 1 :: u32)) < n"
proof -
  have "x AND (word_of_nat n - 1 :: u32) \<le> word_of_nat n - 1" by (rule word_and_le1)
  then have "unat (x AND (word_of_nat n - 1 :: u32)) \<le> unat (word_of_nat n - 1 :: u32)"
    by (simp add: word_le_nat_alt)
  with assms show ?thesis by (simp add: unat_size_minus_1)
qed

lemma unat_and_le: "unat (x AND m) \<le> unat (m :: 'a::len word)"
  using word_and_le1 [of x m] by (simp add: word_le_nat_alt)

lemma unat_and_less: "unat m < n \<Longrightarrow> unat (x AND m :: 'a::len word) < n"
  using unat_and_le [of x m] by simp

lemma unat_and_mask: "unat (x AND mask k :: u32) = unat x mod 2 ^ k"
  by (metis take_bit_eq_mask take_bit_eq_mod unsigned_take_bit_eq)

section \<open>Checked array access\<close>

text \<open>
  An out-of-range \<open>v[i]\<close> is undefined behaviour in C++: \<open>None\<close> here, so that a theorem
  that an operation returns \<open>Some\<close> is a memory-safety theorem.
\<close>

definition rd :: "'a list \<Rightarrow> nat \<Rightarrow> 'a option" where
  "rd xs i = (if i < length xs then Some (xs ! i) else None)"

definition wr :: "'a list \<Rightarrow> nat \<Rightarrow> 'a \<Rightarrow> 'a list option" where
  "wr xs i v = (if i < length xs then Some (xs[i := v]) else None)"

lemma rd_Some [simp]: "i < length xs \<Longrightarrow> rd xs i = Some (xs ! i)"
  by (simp add: rd_def)

lemma wr_Some [simp]: "i < length xs \<Longrightarrow> wr xs i v = Some (xs[i := v])"
  by (simp add: wr_def)

lemma rd_eq_Some_iff: "rd xs i = Some v \<longleftrightarrow> i < length xs \<and> v = xs ! i"
  by (auto simp: rd_def)

lemma wr_eq_Some_iff: "wr xs i v = Some ys \<longleftrightarrow> i < length xs \<and> ys = xs[i := v]"
  by (auto simp: wr_def)

end
