(* ===== verification/SpiTransfer.thy ===== *)
theory SpiTransfer
  imports Prelude
begin

text \<open>
  Serial devices behind a chip select.  Every SPI-style device of the runner is a function of
  (state, byte, position in the transfer, last byte of the transfer); a transfer feeds it the
  bytes of one chip-select window in order.  The locale is the contract the front ends rely
  on: a step never leaves the device's arrays, keeps its invariant and relates the old state
  to the new one.
\<close>

type_synonym ('s, 'r) spi_step = "'s \<Rightarrow> u8 \<Rightarrow> u32 \<Rightarrow> bool \<Rightarrow> ('s \<times> 'r) option"

fun feed :: "('s, 'r) spi_step \<Rightarrow> 's \<Rightarrow> u32 \<Rightarrow> u8 list \<Rightarrow> ('s \<times> 'r list) option" where
  "feed step s pos [] = Some (s, [])"
| "feed step s pos (b # bs) = do {
     (s1, r) \<leftarrow> step s b pos (bs = []);
     (s2, rs) \<leftarrow> feed step s1 (pos + 1) bs;
     Some (s2, r # rs) }"

text \<open>A whole transfer starts at position 0; a session is a list of transfers.\<close>

definition transfer :: "('s, 'r) spi_step \<Rightarrow> 's \<Rightarrow> u8 list \<Rightarrow> ('s \<times> 'r list) option" where
  "transfer step s bs = feed step s 0 bs"

fun session :: "('s, 'r) spi_step \<Rightarrow> 's \<Rightarrow> u8 list list \<Rightarrow> ('s \<times> 'r list list) option" where
  "session step s [] = Some (s, [])"
| "session step s (t # ts) = do {
     (s1, r) \<leftarrow> transfer step s t;
     (s2, rs) \<leftarrow> session step s1 ts;
     Some (s2, r # rs) }"

lemma session_append:
  "session step s (xs @ ys) = do {
     (s1, r) \<leftarrow> session step s xs;
     (s2, rs) \<leftarrow> session step s1 ys;
     Some (s2, r @ rs) }"
  by (induction xs arbitrary: s) (auto split: bind_splits simp: bind_assoc)

lemma feed_length: "feed step s pos bs = Some (s', rs) \<Longrightarrow> length rs = length bs"
  by (induction bs arbitrary: s pos rs) (auto split: bind_splits)

locale spi_device =
  fixes step :: "('s, 'r) spi_step"
    and inv :: "'s \<Rightarrow> bool"
    and rel :: "'s \<Rightarrow> 's \<Rightarrow> bool"
  assumes step_total: "inv s \<Longrightarrow> \<exists>s' r. step s v pos l = Some (s', r)"
    and step_inv: "inv s \<Longrightarrow> step s v pos l = Some (s', r) \<Longrightarrow> inv s'"
    and step_rel: "inv s \<Longrightarrow> step s v pos l = Some (s', r) \<Longrightarrow> rel s s'"
    and rel_refl: "rel s s"
    and rel_trans: "rel s t \<Longrightarrow> rel t u \<Longrightarrow> rel s u"
begin

lemma feed_ok:
  assumes "inv s"
  shows "\<exists>s' rs. feed step s pos bs = Some (s', rs) \<and> inv s' \<and> rel s s'"
  using assms
proof (induction bs arbitrary: s pos)
  case Nil
  then show ?case by (simp add: rel_refl)
next
  case (Cons b bs)
  from step_total [OF Cons.prems] obtain s1 r where s1: "step s b pos (bs = []) = Some (s1, r)"
    by blast
  with Cons.prems have "inv s1" and r1: "rel s s1" by (auto intro: step_inv step_rel)
  from Cons.IH [OF this(1)] obtain s2 rs
    where "feed step s1 (pos + 1) bs = Some (s2, rs)" "inv s2" "rel s1 s2" by blast
  with s1 r1 show ?case by (auto intro: rel_trans)
qed

lemma session_ok:
  assumes "inv s"
  shows "\<exists>s' rs. session step s ts = Some (s', rs) \<and> inv s' \<and> rel s s'"
  using assms
proof (induction ts arbitrary: s)
  case Nil
  then show ?case by (simp add: rel_refl)
next
  case (Cons t ts)
  from feed_ok [OF Cons.prems] obtain s1 r
    where s1: "transfer step s t = Some (s1, r)" "inv s1" "rel s s1"
    unfolding transfer_def by blast
  from Cons.IH [OF s1(2)] obtain s2 rs
    where "session step s1 ts = Some (s2, rs)" "inv s2" "rel s1 s2" by blast
  with s1 show ?case by (auto intro: rel_trans)
qed

end

section \<open>Bursts\<close>

text \<open>
  A byte-addressed memory behind a serial port, in the data phase of a write or read command:
  after \<open>hdr\<close> header bytes each further byte of the transfer stores or fetches at the latched
  address, which then advances; addresses wrap at the memory's power-of-two size.
\<close>

text \<open>Storing a list of bytes from address \<open>a\<close> upwards, wrapping at \<open>2 ^ k\<close>.\<close>

fun burn :: "nat \<Rightarrow> u32 \<Rightarrow> u8 list \<Rightarrow> u8 list \<Rightarrow> u8 list" where
  "burn k a [] xs = xs"
| "burn k a (d # ds) xs = burn k (a + 1) ds (xs[unat (a AND mask k) := d])"

lemma length_burn [simp]: "length (burn k a ds xs) = length xs"
  by (induction ds arbitrary: a xs) auto

lemma wrap_index: "k \<le> 31 \<Longrightarrow> unat ((a + word_of_nat i) AND mask k :: u32) = (unat a + i) mod 2 ^ k"
proof -
  assume k: "k \<le> 31"
  have "(2::nat) ^ k dvd 2 ^ 32" using k by (intro le_imp_power_dvd) simp
  then show ?thesis
    by (simp add: unat_and_mask unat_word_ariths unat_of_nat mod_mod_cancel mod_add_right_eq)
qed

lemma burn_other:
  assumes "k \<le> 31" "j < 2 ^ k" "length xs = 2 ^ k"
    and "\<forall>i < length ds. (unat a + i) mod 2 ^ k \<noteq> j"
  shows "burn k a ds xs ! j = xs ! j"
  using assms(3,4)
proof (induction ds arbitrary: a xs)
  case Nil
  then show ?case by simp
next
  case (Cons d ds)
  have step: "unat (a + 1) mod 2 ^ k = (unat a + 1) mod 2 ^ k"
    using wrap_index [OF assms(1), of a 1] by (simp add: unat_and_mask)
  have "\<forall>i < length ds. (unat (a + 1) + i) mod 2 ^ k \<noteq> j"
  proof (intro allI impI)
    fix i assume "i < length ds"
    with Cons.prems(2) have "(unat a + Suc i) mod 2 ^ k \<noteq> j" by (simp del: add_Suc_right)
    moreover have "(unat (a + 1) + i) mod 2 ^ k = (unat a + Suc i) mod 2 ^ k"
      by (metis step add.assoc mod_add_left_eq plus_1_eq_Suc)
    ultimately show "(unat (a + 1) + i) mod 2 ^ k \<noteq> j" by simp
  qed
  with Cons.IH Cons.prems show ?case by (force simp: unat_and_mask)
qed

lemma burn_same:
  assumes "k \<le> 31" "length xs = 2 ^ k" "length ds \<le> 2 ^ k" "i < length ds"
  shows "burn k a ds xs ! ((unat a + i) mod 2 ^ k) = ds ! i"
  using assms(2-4)
proof (induction ds arbitrary: a xs i)
  case Nil
  then show ?case by simp
next
  case (Cons d ds)
  have step: "unat (a + 1) mod 2 ^ k = (unat a + 1) mod 2 ^ k"
    using wrap_index [OF assms(1), of a 1] by (simp add: unat_and_mask)
  have sh: "(unat (a + 1) + j) mod 2 ^ k = (unat a + Suc j) mod 2 ^ k" for j
    by (metis step add.assoc mod_add_left_eq plus_1_eq_Suc)
  show ?case
  proof (cases i)
    case 0
    have "(unat (a + 1) + j) mod 2 ^ k \<noteq> unat a mod 2 ^ k" if "j < length ds" for j
    proof
      assume "(unat (a + 1) + j) mod 2 ^ k = unat a mod 2 ^ k"
      with sh have "(unat a + Suc j) mod 2 ^ k = (unat a + 0) mod 2 ^ k" by simp
      then have "2 ^ k dvd Suc j"
        using mod_eq_dvd_iff_nat [of "unat a" "unat a + Suc j" "2 ^ k"] by simp
      moreover have "Suc j < 2 ^ k" using that Cons.prems(2) by simp
      ultimately show False using nat_dvd_not_less by blast
    qed
    with burn_other [OF assms(1), of "unat a mod 2 ^ k"] Cons.prems 0 show ?thesis
      by (simp add: unat_and_mask)
  next
    case (Suc j)
    with Cons.IH [of "xs[unat (a AND mask k) := d]" j "a + 1"] Cons.prems sh [of j]
    show ?thesis by simp
  qed
qed

locale burst_port =
  fixes step :: "('s, u8) spi_step"
    and k :: nat
    and hdr :: u32
    and wphase :: "'s \<Rightarrow> bool"
    and rphase :: "'s \<Rightarrow> bool"
    and mem :: "'s \<Rightarrow> u8 list"
    and addr :: "'s \<Rightarrow> u32"
  assumes phase_size: "wphase s \<or> rphase s \<Longrightarrow> k \<le> 31 \<and> length (mem s) = 2 ^ k"
    and write_step: "wphase s \<Longrightarrow> hdr < pos \<Longrightarrow>
      \<exists>s' r. step s v pos l = Some (s', r) \<and> mem s' = (mem s)[unat (addr s AND mask k) := v]
         \<and> addr s' = addr s + 1 \<and> (\<not> l \<longrightarrow> wphase s')"
    and read_step: "rphase s \<Longrightarrow> hdr < pos \<Longrightarrow>
      \<exists>s'. step s v pos l = Some (s', mem s ! unat (addr s AND mask k)) \<and> mem s' = mem s
         \<and> addr s' = addr s + 1 \<and> rphase s'"
begin

lemma pos_succ:
  assumes "hdr < pos" "unat pos + Suc n < 2 ^ 32"
  shows "hdr < pos + 1" and "unat (pos + 1) + n < 2 ^ 32"
proof -
  from assms(2) have p: "unat (pos + 1) = unat pos + 1" by (simp add: unat_word_ariths)
  with assms show "hdr < pos + 1" "unat (pos + 1) + n < 2 ^ 32"
    by (simp_all add: word_less_nat_alt)
qed

lemma burst_write:
  assumes "wphase s" "hdr < pos" "unat pos + length ds < 2 ^ 32"
  shows "\<exists>s' rs. feed step s pos ds = Some (s', rs) \<and> mem s' = burn k (addr s) ds (mem s)"
  using assms
proof (induction ds arbitrary: s pos)
  case Nil
  then show ?case by simp
next
  case (Cons d ds)
  from write_step [OF Cons.prems(1,2)] obtain s1 r
    where s1: "step s d pos (ds = []) = Some (s1, r)"
      "mem s1 = (mem s)[unat (addr s AND mask k) := d]" "addr s1 = addr s + 1"
      "ds \<noteq> [] \<longrightarrow> wphase s1" by blast
  show ?case
  proof (cases "ds = []")
    case True
    with s1 show ?thesis by simp
  next
    case False
    with s1 pos_succ [OF Cons.prems(2)] Cons.prems(3) Cons.IH [of s1 "pos + 1"]
    show ?thesis by (auto simp: s1)
  qed
qed

lemma burst_read:
  assumes "rphase s" "hdr < pos" "unat pos + length xs < 2 ^ 32"
  shows "\<exists>s'. feed step s pos xs = Some (s', map (\<lambda>i. mem s ! ((unat (addr s) + i) mod 2 ^ k)) [0..<length xs])
     \<and> mem s' = mem s"
  using assms
proof (induction xs arbitrary: s pos)
  case Nil
  then show ?case by simp
next
  case (Cons x xs)
  from phase_size [of s] Cons.prems(1) have k: "k \<le> 31" by blast
  from read_step [OF Cons.prems(1,2)] obtain s1
    where s1: "step s x pos (xs = []) = Some (s1, mem s ! unat (addr s AND mask k))"
      "mem s1 = mem s" "addr s1 = addr s + 1" "rphase s1" by blast
  have "(unat (addr s + 1) + i) mod 2 ^ k = (unat (addr s) + Suc i) mod 2 ^ k" for i
    using wrap_index [OF k, of "addr s" 1] by (simp add: unat_and_mask)
      (metis add.assoc mod_add_left_eq plus_1_eq_Suc)
  with s1 pos_succ [OF Cons.prems(2)] Cons.prems(3) Cons.IH [of s1 "pos + 1"]
  show ?case by (auto simp: s1 unat_and_mask map_upt_Suc simp del: upt_Suc)
qed

text \<open>What a write burst stores, a read burst from the same address returns.\<close>

lemma burst_round_trip:
  assumes "wphase s" "hdr < pos" "unat pos + length ds < 2 ^ 32" "length ds \<le> 2 ^ k"
    and w: "feed step s pos ds = Some (s', rs)"
    and r: "rphase t" "mem t = mem s'" "addr t = addr s" "length xs = length ds"
  shows "\<exists>t'. feed step t pos xs = Some (t', ds)"
proof -
  from phase_size [of s] assms(1) have k: "k \<le> 31" "length (mem s) = 2 ^ k" by blast+
  from burst_write [OF assms(1-3)] w have "mem s' = burn k (addr s) ds (mem s)" by auto
  then have "map (\<lambda>i. mem t ! ((unat (addr t) + i) mod 2 ^ k)) [0..<length xs] = ds"
    using r(2-4) burn_same [OF k assms(4), of _ "addr s"] by (intro nth_equalityI) simp_all
  with burst_read [OF r(1) assms(2), of xs] assms(3) r(4) show ?thesis by auto
qed

end

end
