(* ===== verification/CartBackup.thy ===== *)
theory CartBackup
  imports SpiTransfer
begin

text \<open>
  The AUXSPI backup chip of a cartridge, \<open>runner/src/cart_backup.{h,cpp}\<close>: the three chip
  protocols (small EEPROM, EEPROM, flash) and the entry point that latches a command on the
  first byte of a chip-select transfer.  Shown here: the protocol never leaves its array, the
  array never changes size, a byte changes only under the write-enable latch, \<open>dirty\<close> is set
  exactly when some byte changed, the latch survives status polling, and a page written in one
  transfer is read back by another.
\<close>

datatype save_type = SaveNone | EepromTiny | Eeprom | Flash

record cart_backup =
  cb_type :: save_type
  sram :: "u8 list"
  cmd :: u8
  status :: u8
  cb_addr :: u32
  dirty :: bool

text \<open>\<open>uint8_t& destination = sram[i]; if (destination != v) { destination = v; dirty = true; }\<close>\<close>

definition put_byte :: "cart_backup \<Rightarrow> u32 \<Rightarrow> u8 \<Rightarrow> cart_backup option" where
  "put_byte chip i v = do {
     old \<leftarrow> rd (sram chip) (unat i);
     if old \<noteq> v then do {
       s \<leftarrow> wr (sram chip) (unat i) v;
       Some (chip\<lparr>sram := s, dirty := True\<rparr>) }
     else Some chip }"

definition get_byte :: "cart_backup \<Rightarrow> u32 \<Rightarrow> u8 option" where
  "get_byte chip i = rd (sram chip) (unat i)"

definition size_mask :: "cart_backup \<Rightarrow> u32" where
  "size_mask chip = word_of_nat (length (sram chip)) - 1"

definition write_enabled :: "cart_backup \<Rightarrow> bool" where
  "write_enabled chip \<longleftrightarrow> status chip AND 0x02 \<noteq> 0"

definition clear_wel_if :: "bool \<Rightarrow> cart_backup \<Rightarrow> cart_backup" where
  "clear_wel_if fin chip = (if fin then chip\<lparr>status := status chip AND NOT 0x02\<rparr> else chip)"

definition shift_addr :: "cart_backup \<Rightarrow> u8 \<Rightarrow> cart_backup" where
  "shift_addr chip v = chip\<lparr>cb_addr := push_bit 8 (cb_addr chip) OR ucast v\<rparr>"

definition bump_addr :: "cart_backup \<Rightarrow> cart_backup" where
  "bump_addr chip = chip\<lparr>cb_addr := cb_addr chip + 1\<rparr>"

definition write_status :: "cart_backup \<Rightarrow> u8 \<Rightarrow> u32 \<Rightarrow> cart_backup" where
  "write_status chip v pos =
     (if pos = 1 then chip\<lparr>status := (status chip AND 0x01) OR (v AND 0x0C)\<rparr> else chip)"

text \<open>Program one byte at index \<open>i\<close> when the latch is set, then advance the address.\<close>

definition program_byte :: "cart_backup \<Rightarrow> u32 \<Rightarrow> u8 \<Rightarrow> cart_backup option" where
  "program_byte chip i v = do {
     c \<leftarrow> (if write_enabled chip then put_byte chip i v else Some chip);
     Some (bump_addr c) }"

definition eeprom_spi_write ::
  "cart_backup \<Rightarrow> u8 \<Rightarrow> u32 \<Rightarrow> bool \<Rightarrow> (cart_backup \<times> u8) option" where
  "eeprom_spi_write chip v pos fin =
    (let mask = size_mask chip;
         addrsize = (if length (sram chip) > 65536 then 3 else 2 :: u32) in
     if cmd chip = 0x01 then Some (write_status chip v pos, 0)
     else if cmd chip = 0x05 then Some (chip, status chip)
     else if cmd chip = 0x02 then do {
       c \<leftarrow> (if pos \<le> addrsize then Some (shift_addr chip v)
            else program_byte chip (cb_addr chip AND mask) v);
       Some (clear_wel_if fin c, 0) }
     else if cmd chip = 0x03 then
       (if pos \<le> addrsize then Some (shift_addr chip v, 0)
        else do {
          r \<leftarrow> get_byte chip (cb_addr chip AND mask);
          Some (bump_addr chip, r) })
     else Some (chip, 0xFF))"

definition eeprom_tiny_spi_write ::
  "cart_backup \<Rightarrow> u8 \<Rightarrow> u32 \<Rightarrow> bool \<Rightarrow> (cart_backup \<times> u8) option" where
  "eeprom_tiny_spi_write chip v pos fin =
    (let high = (if cmd chip = 0x0A \<or> cmd chip = 0x0B then 0x100 else 0 :: u32) in
     if cmd chip = 0x01 then Some (write_status chip v pos, 0)
     else if cmd chip = 0x05 then Some (chip, status chip OR 0xF0)
     else if cmd chip = 0x02 \<or> cmd chip = 0x0A then do {
       c \<leftarrow> (if pos < 2 then Some (chip\<lparr>cb_addr := ucast v\<rparr>)
            else program_byte chip ((cb_addr chip + high) AND 0x1FF) v);
       Some (clear_wel_if fin c, 0) }
     else if cmd chip = 0x03 \<or> cmd chip = 0x0B then
       (if pos < 2 then Some (chip\<lparr>cb_addr := ucast v\<rparr>, 0)
        else do {
          r \<leftarrow> get_byte chip ((cb_addr chip + high) AND 0x1FF);
          Some (bump_addr chip, r) })
     else Some (chip, 0xFF))"

text \<open>The erase loop of commands \<open>0xD8\<close> and \<open>0xDB\<close>: \<open>n\<close> bytes from the latched address.\<close>

fun erase_from :: "nat \<Rightarrow> nat \<Rightarrow> cart_backup \<Rightarrow> cart_backup option" where
  "erase_from i 0 chip = Some chip"
| "erase_from i (Suc n) chip = do {
     c \<leftarrow> put_byte chip ((cb_addr chip + word_of_nat i) AND size_mask chip) 0;
     erase_from (Suc i) n c }"

definition flash_spi_write ::
  "cart_backup \<Rightarrow> u8 \<Rightarrow> u32 \<Rightarrow> bool \<Rightarrow> (cart_backup \<times> u8) option" where
  "flash_spi_write chip v pos fin =
    (let mask = size_mask chip in
     if cmd chip = 0x05 then Some (chip, status chip)
     else if cmd chip = 0x02 \<or> cmd chip = 0x0A then do {
       c \<leftarrow> (if pos \<le> 3 then Some (shift_addr chip v)
            else program_byte chip (cb_addr chip AND mask) (if cmd chip = 0x02 then 0 else v));
       Some (clear_wel_if fin c, 0) }
     else if cmd chip = 0x03 \<or> cmd chip = 0x0B then
       (if pos \<le> 3 then Some (shift_addr chip v, 0)
        else if cmd chip = 0x0B \<and> pos = 4 then Some (chip, 0)
        else do {
          r \<leftarrow> get_byte chip (cb_addr chip AND mask);
          Some (bump_addr chip, r) })
     else if cmd chip = 0x9F then Some (chip, 0xFF)
     else if cmd chip = 0xD8 \<or> cmd chip = 0xDB then do {
       let c = (if pos \<le> 3 then shift_addr chip v else chip);
       c' \<leftarrow> (if pos = 3 \<and> write_enabled c
             then erase_from 0 (if cmd c = 0xD8 then 0x10000 else 0x100) c
             else Some c);
       Some (clear_wel_if fin c', 0) }
     else Some (chip, 0xFF))"

definition nds_cart_backup_reset_command :: "cart_backup \<Rightarrow> cart_backup" where
  "nds_cart_backup_reset_command chip = chip\<lparr>cmd := 0, status := 0, cb_addr := 0\<rparr>"

definition nds_cart_backup_spi_write ::
  "cart_backup \<Rightarrow> u8 \<Rightarrow> u32 \<Rightarrow> bool \<Rightarrow> (cart_backup \<times> u8) option" where
  "nds_cart_backup_spi_write chip v pos fin =
    (if sram chip = [] then Some (chip, 0)
     else if pos = 0 then
       (if v = 0x04 then Some (chip\<lparr>status := status chip AND NOT 0x02\<rparr>, 0)
        else if v = 0x06 then Some (chip\<lparr>status := status chip OR 0x02\<rparr>, 0)
        else Some (chip\<lparr>cmd := v, cb_addr := 0\<rparr>, 0xFF))
     else (case cb_type chip of
         EepromTiny \<Rightarrow> eeprom_tiny_spi_write chip v pos fin
       | Eeprom \<Rightarrow> eeprom_spi_write chip v pos fin
       | Flash \<Rightarrow> flash_spi_write chip v pos fin
       | SaveNone \<Rightarrow> Some (chip, 0)))"

section \<open>Memory safety and shape\<close>

text \<open>
  The invariant every configured cartridge has: an image no larger than 4 GiB, and 512 bytes
  behind the small EEPROM, whose address is masked by a constant.
\<close>

definition chip_ok :: "cart_backup \<Rightarrow> bool" where
  "chip_ok chip \<longleftrightarrow> length (sram chip) \<le> 2 ^ 32
     \<and> (cb_type chip = EepromTiny \<longrightarrow> sram chip \<noteq> [] \<longrightarrow> 512 \<le> length (sram chip))"

text \<open>
  What one SPI byte may do to the image: keep type and size, set \<open>dirty\<close> exactly when a byte
  changed.
\<close>

definition chip_evolves :: "cart_backup \<Rightarrow> cart_backup \<Rightarrow> bool" where
  "chip_evolves c d \<longleftrightarrow> cb_type d = cb_type c \<and> length (sram d) = length (sram c)
     \<and> (dirty c \<longrightarrow> dirty d) \<and> (sram d \<noteq> sram c \<longrightarrow> dirty d)"

text \<open>A store into the image touches nothing but the image and \<open>dirty\<close>.\<close>

definition image_write :: "cart_backup \<Rightarrow> cart_backup \<Rightarrow> bool" where
  "image_write c d \<longleftrightarrow> d = c\<lparr>sram := sram d, dirty := dirty d\<rparr>
     \<and> length (sram d) = length (sram c) \<and> (dirty d \<longleftrightarrow> dirty c \<or> sram d \<noteq> sram c)"

lemma put_byte_cases:
  assumes "put_byte c i v = Some d"
  shows "unat i < length (sram c)"
    and "d = (if sram c ! unat i = v then c else c\<lparr>sram := (sram c)[unat i := v], dirty := True\<rparr>)"
  using assms by (auto simp: put_byte_def rd_eq_Some_iff wr_eq_Some_iff split: if_splits bind_splits)

lemma put_byte_Some:
  "unat i < length (sram c) \<Longrightarrow>
    put_byte c i v = Some (if sram c ! unat i = v then c
      else c\<lparr>sram := (sram c)[unat i := v], dirty := True\<rparr>)"
  by (simp add: put_byte_def)

lemma put_byte_sram: "put_byte c i v = Some d \<Longrightarrow> sram d = (sram c)[unat i := v]"
  using put_byte_cases [of c i v d] by (auto simp: list_update_same_conv)

lemma put_byte_image: "put_byte c i v = Some d \<Longrightarrow> image_write c d"
  using put_byte_cases [of c i v d] by (auto simp: image_write_def list_update_same_conv)

lemma image_write_frame [frame]:
  assumes "image_write c d"
  shows "cb_type d = cb_type c" "cmd d = cmd c" "status d = status c" "cb_addr d = cb_addr c"
    "length (sram d) = length (sram c)" "dirty d \<longleftrightarrow> dirty c \<or> sram d \<noteq> sram c"
proof -
  from assms have d: "d = c\<lparr>sram := sram d, dirty := dirty d\<rparr>"
    and rest: "length (sram d) = length (sram c)" "dirty d \<longleftrightarrow> dirty c \<or> sram d \<noteq> sram c"
    unfolding image_write_def by blast+
  from rest show "length (sram d) = length (sram c)" "dirty d \<longleftrightarrow> dirty c \<or> sram d \<noteq> sram c" .
  show "cb_type d = cb_type c" by (subst d) simp
  show "cmd d = cmd c" by (subst d) simp
  show "status d = status c" by (subst d) simp
  show "cb_addr d = cb_addr c" by (subst d) simp
qed

lemma image_write_step:
  assumes "image_write c e" "image_write e d" "sram e \<noteq> sram c \<longrightarrow> sram d \<noteq> sram c"
  shows "image_write c d"
  using assms by (cases c; cases d; cases e) (auto simp: image_write_def)

lemma image_write_chip_ok: "image_write c d \<Longrightarrow> chip_ok d \<longleftrightarrow> chip_ok c"
  using image_write_frame [of c d] by (auto simp: chip_ok_def simp flip: length_greater_0_conv)

lemma masked_safe [mem_safe]:
  "chip_ok c \<Longrightarrow> sram c \<noteq> [] \<Longrightarrow> unat (x AND size_mask c) < length (sram c)"
  unfolding size_mask_def chip_ok_def by (rule masked_index_in_range) auto

lemma tiny_safe [mem_safe]:
  assumes "chip_ok c" "cb_type c = EepromTiny" "sram c \<noteq> []"
  shows "unat (x AND 0x1FF :: u32) < length (sram c)"
  using assms unat_and_le [of x "0x1FF :: u32"] by (simp add: chip_ok_def)

text \<open>The small state helpers, as one simplification bundle.\<close>

lemmas chip_helpers = clear_wel_if_def shift_addr_def bump_addr_def write_status_def

lemma chip_helpers_evolve [simp]:
  "chip_evolves c (clear_wel_if l d) = chip_evolves c d"
  "chip_evolves c (shift_addr d v) = chip_evolves c d"
  "chip_evolves c (bump_addr d) = chip_evolves c d"
  "chip_evolves c (write_status d v pos) = chip_evolves c d"
  "chip_evolves c (d\<lparr>cb_addr := a\<rparr>) = chip_evolves c d"
  "chip_evolves c (d\<lparr>status := st\<rparr>) = chip_evolves c d"
  "chip_evolves c (d\<lparr>cmd := x\<rparr>) = chip_evolves c d"
  by (simp_all add: chip_evolves_def chip_helpers)

lemma chip_evolves_refl [simp]: "chip_evolves c c"
  by (simp add: chip_evolves_def)

lemma chip_evolves_trans: "chip_evolves c d \<Longrightarrow> chip_evolves d e \<Longrightarrow> chip_evolves c e"
  unfolding chip_evolves_def by metis

lemma chip_evolves_ok: "chip_evolves c d \<Longrightarrow> chip_ok c \<Longrightarrow> chip_ok d"
  by (auto simp: chip_evolves_def chip_ok_def simp flip: length_greater_0_conv)

lemma image_write_evolves: "image_write c d \<Longrightarrow> chip_evolves c d"
  using image_write_frame [of c d] by (auto simp: chip_evolves_def)

lemma program_byte_evolves: "program_byte c i v = Some d \<Longrightarrow> chip_evolves c d"
  by (auto simp: program_byte_def split: bind_splits if_splits
      dest: image_write_evolves [OF put_byte_image])

lemma erase_from_Some:
  assumes "chip_ok c" "sram c \<noteq> []"
  shows "\<exists>d. erase_from i n c = Some d"
  using assms
proof (induction n arbitrary: i c)
  case 0
  then show ?case by simp
next
  case (Suc n)
  let ?k = "(cb_addr c + word_of_nat i) AND size_mask c"
  from Suc.prems obtain d where d: "put_byte c ?k 0 = Some d"
    by (simp add: put_byte_Some masked_safe)
  from put_byte_image [OF d] Suc.prems have "chip_ok d" "sram d \<noteq> []"
    by (auto simp: image_write_chip_ok dest: image_write_frame simp flip: length_greater_0_conv)
  from Suc.IH [OF this] d show ?case by simp
qed

text \<open>An erase writes zeroes only, so a byte that changed stays changed.\<close>

lemma erase_from_image:
  "erase_from i n c = Some d \<Longrightarrow>
    image_write c d \<and> (\<forall>k < length (sram c). sram d ! k = sram c ! k \<or> sram d ! k = 0)"
proof (induction n arbitrary: i c)
  case 0
  then show ?case by (simp add: image_write_def)
next
  case (Suc n)
  let ?k = "(cb_addr c + word_of_nat i) AND size_mask c"
  from Suc.prems obtain e where e: "put_byte c ?k 0 = Some e"
    and d: "erase_from (Suc i) n e = Some d" by (auto split: bind_splits)
  note ce = put_byte_image [OF e] and ed = Suc.IH [OF d]
  have z: "\<forall>k < length (sram c). sram e ! k = sram c ! k \<or> sram e ! k = 0"
    using put_byte_cases(1) [OF e] by (auto simp: put_byte_sram [OF e] nth_list_update)
  with ed image_write_frame(5) [OF ce]
  have zd: "\<forall>k < length (sram c). sram d ! k = sram c ! k \<or> sram d ! k = 0" by metis
  have "sram d \<noteq> sram c" if ne: "sram e \<noteq> sram c"
  proof -
    from ne image_write_frame(5) [OF ce] obtain k
      where k: "k < length (sram c)" "sram e ! k \<noteq> sram c ! k"
      by (auto simp: list_eq_iff_nth_eq)
    with z have "sram e ! k = 0" "sram c ! k \<noteq> 0" by auto
    with ed k image_write_frame(5) [OF ce] have "sram d ! k = 0" by auto
    with \<open>sram c ! k \<noteq> 0\<close> show ?thesis by auto
  qed
  then have "image_write c d"
    using image_write_step [OF ce] ed by blast
  with zd show ?case by simp
qed

lemma spi_write_evolves:
  assumes "nds_cart_backup_spi_write c v pos l = Some (d, r)"
  shows "chip_evolves c d"
proof -
  have E: "eeprom_spi_write c v pos l = Some (d, r) \<Longrightarrow> chip_evolves c d"
    by (auto simp: eeprom_spi_write_def Let_def split: if_splits bind_splits
        dest: program_byte_evolves)
  have T: "eeprom_tiny_spi_write c v pos l = Some (d, r) \<Longrightarrow> chip_evolves c d"
    by (auto simp: eeprom_tiny_spi_write_def Let_def split: if_splits bind_splits
        dest: program_byte_evolves)
  have er: "erase_from 0 n (shift_addr c w) = Some e \<Longrightarrow> chip_evolves c e" for n w e
    using erase_from_image [of 0 n "shift_addr c w" e] image_write_evolves [of "shift_addr c w" e]
    by (auto simp: chip_evolves_def shift_addr_def)
  have F: "flash_spi_write c v pos l = Some (d, r) \<Longrightarrow> chip_evolves c d"
    by (auto simp: flash_spi_write_def Let_def split: if_splits bind_splits
        dest: program_byte_evolves er)
  from assms show ?thesis
    by (auto simp: nds_cart_backup_spi_write_def split: if_splits save_type.splits dest: E T F)
qed

lemma spi_write_total:
  assumes "chip_ok c"
  shows "\<exists>d r. nds_cart_backup_spi_write c v pos l = Some (d, r)"
proof (cases "sram c = [] \<or> pos = 0")
  case True
  then show ?thesis by (auto simp: nds_cart_backup_spi_write_def)
next
  case False
  then have ne: "sram c \<noteq> []" by simp
  have put: "\<exists>d. program_byte c (x AND size_mask c) w = Some d" for x w
    using assms ne by (simp add: program_byte_def put_byte_Some masked_safe)
  have tiny: "cb_type c = EepromTiny \<Longrightarrow> \<exists>d. program_byte c (x AND 0x1FF) w = Some d" for x w
    using assms ne by (simp add: program_byte_def put_byte_Some tiny_safe)
  have rdm: "\<exists>r. get_byte c (x AND size_mask c) = Some r" for x
    using assms ne by (simp add: get_byte_def masked_safe)
  have rdt: "cb_type c = EepromTiny \<Longrightarrow> \<exists>r. get_byte c (x AND 0x1FF) = Some r" for x
    using assms ne by (simp add: get_byte_def tiny_safe)
  have erase: "\<exists>d. erase_from 0 n (shift_addr c w) = Some d" for n w
    by (rule erase_from_Some) (use assms ne in \<open>auto simp: shift_addr_def chip_ok_def\<close>)
  have "cb_type c = EepromTiny \<Longrightarrow> \<exists>d r. eeprom_tiny_spi_write c v pos l = Some (d, r)"
    using tiny [of "cb_addr c + 0x100" v] tiny [of "cb_addr c" v]
      rdt [of "cb_addr c + 0x100"] rdt [of "cb_addr c"]
    by (auto simp: eeprom_tiny_spi_write_def Let_def)
  moreover have "\<exists>d r. eeprom_spi_write c v pos l = Some (d, r)"
    using put [of "cb_addr c" v] rdm [of "cb_addr c"] by (auto simp: eeprom_spi_write_def Let_def)
  moreover have "\<exists>d r. flash_spi_write c v pos l = Some (d, r)"
    using put [of "cb_addr c" v] put [of "cb_addr c" 0] rdm [of "cb_addr c"]
      erase [of "0x10000" v] erase [of "0x100" v]
    by (auto simp: flash_spi_write_def Let_def)
  ultimately show ?thesis using False
    by (cases "cb_type c") (auto simp: nds_cart_backup_spi_write_def)
qed

text \<open>The chip meets the contract of a serial device.\<close>

interpretation backup_chip: spi_device nds_cart_backup_spi_write chip_ok chip_evolves
  by unfold_locales
    (auto intro: spi_write_total spi_write_evolves chip_evolves_trans
      chip_evolves_ok [OF spi_write_evolves])

section \<open>The write-enable latch\<close>

lemma helpers_fields [simp]:
  "sram (clear_wel_if l c) = sram c" "sram (shift_addr c v) = sram c"
  "sram (bump_addr c) = sram c" "sram (write_status c v pos) = sram c"
  "cmd (shift_addr c v) = cmd c" "cmd (bump_addr c) = cmd c"
  "cmd (clear_wel_if l c) = cmd c" "cb_type (clear_wel_if l c) = cb_type c"
  "cb_type (shift_addr c v) = cb_type c" "cb_type (bump_addr c) = cb_type c"
  "status (shift_addr c v) = status c" "status (bump_addr c) = status c"
  "cb_addr (bump_addr c) = cb_addr c + 1" "cb_addr (clear_wel_if l c) = cb_addr c"
  "cb_addr (shift_addr c v) = push_bit 8 (cb_addr c) OR ucast v"
  by (simp_all add: chip_helpers)

lemma write_enabled_helpers [simp]:
  "write_enabled (shift_addr c v) = write_enabled c"
  "write_enabled (bump_addr c) = write_enabled c"
  by (simp_all add: write_enabled_def)

lemma program_byte_protected:
  "\<not> write_enabled c \<Longrightarrow> program_byte c i v = Some (bump_addr c)"
  by (simp add: program_byte_def)

lemmas spi_defs = eeprom_spi_write_def eeprom_tiny_spi_write_def flash_spi_write_def

lemma protected_step:
  assumes "\<not> write_enabled c" "nds_cart_backup_spi_write c v pos l = Some (d, r)"
  shows "sram d = sram c"
  using assms
  by (auto simp: nds_cart_backup_spi_write_def spi_defs Let_def program_byte_protected get_byte_def
      split: if_splits save_type.splits bind_splits)

text \<open>The commands that may consume the latch, by the byte that opens the transfer.\<close>

definition latch_safe :: "u8 \<Rightarrow> bool" where
  "latch_safe b \<longleftrightarrow> b = 0x05 \<or> b = 0x03 \<or> b = 0x0B \<or> b = 0x9F"

lemma latch_safe_step:
  assumes "latch_safe (cmd c)" "pos \<noteq> 0" "nds_cart_backup_spi_write c v pos l = Some (d, r)"
  shows "cmd d = cmd c \<and> status d = status c \<and> sram d = sram c"
proof -
  note c = assms(1) [unfolded latch_safe_def]
  have E: "eeprom_spi_write c v pos l = Some (d, r) \<Longrightarrow> ?thesis"
    using c by (auto simp: eeprom_spi_write_def Let_def split: if_splits bind_splits)
  have T: "eeprom_tiny_spi_write c v pos l = Some (d, r) \<Longrightarrow> ?thesis"
    using c by (auto simp: eeprom_tiny_spi_write_def Let_def split: if_splits bind_splits)
  have F: "flash_spi_write c v pos l = Some (d, r) \<Longrightarrow> ?thesis"
    using c by (auto simp: flash_spi_write_def Let_def split: if_splits bind_splits)
  from assms(2,3) show ?thesis
    by (auto simp: nds_cart_backup_spi_write_def split: if_splits save_type.splits dest: E T F)
qed

lemma latch_safe_feed:
  assumes "latch_safe (cmd c)" "feed nds_cart_backup_spi_write c pos bs = Some (d, rs)"
    "unat pos + length bs < 2 ^ 32" "pos \<noteq> 0"
  shows "status d = status c \<and> sram d = sram c"
  using assms
proof (induction bs arbitrary: c pos rs)
  case Nil
  then show ?case by simp
next
  case (Cons b bs)
  then obtain e r rs' where e: "nds_cart_backup_spi_write c b pos (bs = []) = Some (e, r)"
    and d: "feed nds_cart_backup_spi_write e (pos + 1) bs = Some (d, rs')"
    by (auto split: bind_splits)
  from Cons.prems(3) have p: "unat (pos + 1) = unat pos + 1"
    by (simp add: unat_word_ariths)
  then have "pos + 1 \<noteq> 0" by (metis One_nat_def add_is_0 nat.distinct(1) unat_0)
  with latch_safe_step [OF Cons.prems(1,4) e] Cons.IH [OF _ d] Cons.prems(1,3) p
  show ?case by simp
qed

lemma latch_safe_transfer:
  assumes "transfer nds_cart_backup_spi_write c (b # bs) = Some (d, rs)" "latch_safe b"
    "length bs < 2 ^ 32 - 1"
  shows "status d = status c \<and> sram d = sram c"
proof (cases "sram c = []")
  case True
  have "feed nds_cart_backup_spi_write c pos xs = Some (e, ys) \<Longrightarrow> e = c" for pos xs e ys
    using True by (induction xs arbitrary: pos ys)
      (auto simp: nds_cart_backup_spi_write_def split: bind_splits)
  with assms(1) True show ?thesis unfolding transfer_def by blast
next
  case False
  with assms obtain rs' where
    "feed nds_cart_backup_spi_write (c\<lparr>cmd := b, cb_addr := 0\<rparr>) 1 bs = Some (d, rs')"
    by (auto simp: transfer_def nds_cart_backup_spi_write_def latch_safe_def split: bind_splits)
  from latch_safe_feed [OF _ this] assms(2,3) show ?thesis by simp
qed

lemma latch_safe_session:
  assumes "session nds_cart_backup_spi_write c ps = Some (d, rs)" "chip_ok c"
    "\<forall>p \<in> set ps. p \<noteq> [] \<and> latch_safe (hd p) \<and> length p < 2 ^ 32"
  shows "status d = status c \<and> sram d = sram c \<and> cb_type d = cb_type c"
  using assms
proof (induction ps arbitrary: c rs)
  case Nil
  then show ?case by simp
next
  case (Cons p ps)
  then obtain e r rs' where e: "transfer nds_cart_backup_spi_write c p = Some (e, r)"
    and d: "session nds_cart_backup_spi_write e ps = Some (d, rs')"
    by (auto split: bind_splits)
  from backup_chip.feed_ok [OF Cons.prems(2), of 0 p] e
  have ev: "chip_ok e" "chip_evolves c e" by (auto simp: transfer_def)
  from Cons.prems(3) obtain b bs where p: "p = b # bs" "latch_safe b" "length bs < 2 ^ 32 - 1"
    by (cases p) auto
  with latch_safe_transfer [OF e [unfolded p(1)]] Cons.IH [OF d ev(1)] Cons.prems(3) ev(2)
  show ?case by (simp add: chip_evolves_def)
qed

section \<open>Page programming\<close>

lemma size_mask_pow2:
  assumes "length (sram c) = 2 ^ k" "k \<le> 31"
  shows "size_mask c = mask k"
  using assms by (simp add: size_mask_def mask_eq_exp_minus_1)

definition chip_pow2 :: "save_type \<Rightarrow> nat \<Rightarrow> cart_backup \<Rightarrow> bool" where
  "chip_pow2 t k c \<longleftrightarrow> cb_type c = t \<and> k \<le> 31 \<and> length (sram c) = 2 ^ k"

definition addr_bytes :: "nat \<Rightarrow> u32" where
  "addr_bytes k = (if k > 16 then 3 else 2)"

lemma addr_bytes_size [simp]: "(65536 < (2 :: nat) ^ k) = (16 < k)"
  using power_strict_increasing_iff [of "2 :: nat" 16 k] by simp

lemma program_byte_enabled:
  assumes "write_enabled c" "unat i < length (sram c)"
  shows "\<exists>d. program_byte c i v = Some d \<and> sram d = (sram c)[unat i := v]
    \<and> cb_addr d = cb_addr c + 1 \<and> cb_type d = cb_type c \<and> cmd d = cmd c \<and> status d = status c"
  using assms by (auto simp: program_byte_def put_byte_Some bump_addr_def list_update_same_conv)

lemma pow2_index: "k \<le> 31 \<Longrightarrow> unat (x AND mask k :: u32) < 2 ^ k"
  by (simp add: unat_and_mask)

interpretation eeprom_port: burst_port nds_cart_backup_spi_write k "addr_bytes k"
    "\<lambda>c. chip_pow2 Eeprom k c \<and> cmd c = 0x02 \<and> write_enabled c"
    "\<lambda>c. chip_pow2 Eeprom k c \<and> cmd c = 0x03" sram cb_addr for k
proof
  fix c pos v l
  assume c: "chip_pow2 Eeprom k c \<and> cmd c = 0x02 \<and> write_enabled c" and pos: "addr_bytes k < pos"
  then have m: "size_mask c = mask k" and k: "k \<le> 31" and ne: "sram c \<noteq> []"
    by (auto simp: chip_pow2_def size_mask_pow2)
  from c k obtain d where d: "program_byte c (cb_addr c AND mask k) v = Some d"
      "sram d = (sram c)[unat (cb_addr c AND mask k) := v]" "cb_addr d = cb_addr c + 1"
      "cb_type d = cb_type c" "cmd d = cmd c" "status d = status c"
    using program_byte_enabled [of c "cb_addr c AND mask k" v] pow2_index
    by (auto simp: chip_pow2_def)
  have "eeprom_spi_write c v pos l = Some (clear_wel_if l d, 0)"
    using c pos by (auto simp: eeprom_spi_write_def Let_def d m addr_bytes_def chip_pow2_def
        word_less_nat_alt word_le_nat_alt split: if_splits)
  with c pos ne show "\<exists>s' r. nds_cart_backup_spi_write c v pos l = Some (s', r)
      \<and> sram s' = (sram c)[unat (cb_addr c AND mask k) := v] \<and> cb_addr s' = cb_addr c + 1
      \<and> (\<not> l \<longrightarrow> chip_pow2 Eeprom k s' \<and> cmd s' = 0x02 \<and> write_enabled s')"
    by (auto simp: nds_cart_backup_spi_write_def chip_pow2_def d clear_wel_if_def write_enabled_def)
next
  fix c pos v l
  assume c: "chip_pow2 Eeprom k c \<and> cmd c = 0x03" and pos: "addr_bytes k < pos"
  then have m: "size_mask c = mask k" and k: "k \<le> 31" and ne: "sram c \<noteq> []"
    by (auto simp: chip_pow2_def size_mask_pow2)
  with c pos pow2_index [OF k, of "cb_addr c"]
  show "\<exists>s'. nds_cart_backup_spi_write c v pos l = Some (s', sram c ! unat (cb_addr c AND mask k))
      \<and> sram s' = sram c \<and> cb_addr s' = cb_addr c + 1 \<and> chip_pow2 Eeprom k s' \<and> cmd s' = 0x03"
    by (auto simp: nds_cart_backup_spi_write_def eeprom_spi_write_def chip_pow2_def Let_def
        get_byte_def addr_bytes_def word_less_nat_alt word_le_nat_alt)
qed (auto simp: chip_pow2_def)

interpretation flash_port: burst_port nds_cart_backup_spi_write k 3
    "\<lambda>c. chip_pow2 Flash k c \<and> cmd c = 0x0A \<and> write_enabled c"
    "\<lambda>c. chip_pow2 Flash k c \<and> cmd c = 0x03" sram cb_addr for k
proof
  fix c v l and pos :: u32
  assume c: "chip_pow2 Flash k c \<and> cmd c = 0x0A \<and> write_enabled c" and pos: "3 < pos"
  then have m: "size_mask c = mask k" and k: "k \<le> 31" and ne: "sram c \<noteq> []"
    by (auto simp: chip_pow2_def size_mask_pow2)
  from c k obtain d where d: "program_byte c (cb_addr c AND mask k) v = Some d"
      "sram d = (sram c)[unat (cb_addr c AND mask k) := v]" "cb_addr d = cb_addr c + 1"
      "cb_type d = cb_type c" "cmd d = cmd c" "status d = status c"
    using program_byte_enabled [of c "cb_addr c AND mask k" v] pow2_index
    by (auto simp: chip_pow2_def)
  have "flash_spi_write c v pos l = Some (clear_wel_if l d, 0)"
    using c pos by (auto simp: flash_spi_write_def Let_def d m word_less_nat_alt word_le_nat_alt)
  with c pos ne show "\<exists>s' r. nds_cart_backup_spi_write c v pos l = Some (s', r)
      \<and> sram s' = (sram c)[unat (cb_addr c AND mask k) := v] \<and> cb_addr s' = cb_addr c + 1
      \<and> (\<not> l \<longrightarrow> chip_pow2 Flash k s' \<and> cmd s' = 0x0A \<and> write_enabled s')"
    by (auto simp: nds_cart_backup_spi_write_def chip_pow2_def d clear_wel_if_def write_enabled_def)
next
  fix c v l and pos :: u32
  assume c: "chip_pow2 Flash k c \<and> cmd c = 0x03" and pos: "3 < pos"
  then have m: "size_mask c = mask k" and k: "k \<le> 31" and ne: "sram c \<noteq> []"
    by (auto simp: chip_pow2_def size_mask_pow2)
  with c pos pow2_index [OF k, of "cb_addr c"]
  show "\<exists>s'. nds_cart_backup_spi_write c v pos l = Some (s', sram c ! unat (cb_addr c AND mask k))
      \<and> sram s' = sram c \<and> cb_addr s' = cb_addr c + 1 \<and> chip_pow2 Flash k s' \<and> cmd s' = 0x03"
    by (auto simp: nds_cart_backup_spi_write_def flash_spi_write_def chip_pow2_def Let_def
        get_byte_def word_less_nat_alt word_le_nat_alt)
qed (auto simp: chip_pow2_def)

text \<open>The small EEPROM keeps its ninth address bit in the command.\<close>

definition tiny_addr :: "cart_backup \<Rightarrow> u32" where
  "tiny_addr c = cb_addr c + (if cmd c = 0x0A \<or> cmd c = 0x0B then 0x100 else 0)"

interpretation tiny_port: burst_port nds_cart_backup_spi_write 9 1
    "\<lambda>c. chip_pow2 EepromTiny 9 c \<and> (cmd c = 0x02 \<or> cmd c = 0x0A) \<and> write_enabled c"
    "\<lambda>c. chip_pow2 EepromTiny 9 c \<and> (cmd c = 0x03 \<or> cmd c = 0x0B)" sram tiny_addr
proof
  have m9: "(0x1FF :: u32) = mask 9" by (simp add: mask_eq_exp_minus_1)
  fix c v l and pos :: u32
  assume pos: "1 < pos"
  then have p2: "pos \<noteq> 0" "\<not> pos < 2" by (auto simp: word_less_nat_alt)
  {
    assume c: "chip_pow2 EepromTiny 9 c \<and> (cmd c = 0x02 \<or> cmd c = 0x0A) \<and> write_enabled c"
    then have ne: "sram c \<noteq> []" by (auto simp: chip_pow2_def)
    from c obtain d where d: "program_byte c (tiny_addr c AND mask 9) v = Some d"
      "sram d = (sram c)[unat (tiny_addr c AND mask 9) := v]" "cb_addr d = cb_addr c + 1"
      "cb_type d = cb_type c" "cmd d = cmd c" "status d = status c"
      using program_byte_enabled [of c "tiny_addr c AND mask 9" v] pow2_index [of 9]
      by (auto simp: chip_pow2_def)
    have "eeprom_tiny_spi_write c v pos l = Some (clear_wel_if l d, 0)"
      using c p2 d(1) by (auto simp: eeprom_tiny_spi_write_def Let_def m9 tiny_addr_def)
    with c p2 ne show "\<exists>s' r. nds_cart_backup_spi_write c v pos l = Some (s', r)
      \<and> sram s' = (sram c)[unat (tiny_addr c AND mask 9) := v] \<and> tiny_addr s' = tiny_addr c + 1
      \<and> (\<not> l \<longrightarrow> chip_pow2 EepromTiny 9 s' \<and> (cmd s' = 0x02 \<or> cmd s' = 0x0A) \<and> write_enabled s')"
      by (auto simp: nds_cart_backup_spi_write_def chip_pow2_def d clear_wel_if_def
          write_enabled_def tiny_addr_def)
  next
    assume c: "chip_pow2 EepromTiny 9 c \<and> (cmd c = 0x03 \<or> cmd c = 0x0B)"
    then have ne: "sram c \<noteq> []" by (auto simp: chip_pow2_def)
    have "get_byte c (tiny_addr c AND mask 9) = Some (sram c ! unat (tiny_addr c AND mask 9))"
      using c pow2_index [of 9 "tiny_addr c"] by (simp add: get_byte_def chip_pow2_def)
    then have "eeprom_tiny_spi_write c v pos l
        = Some (bump_addr c, sram c ! unat (tiny_addr c AND mask 9))"
      using c p2 by (auto simp: eeprom_tiny_spi_write_def Let_def m9 tiny_addr_def)
    with c p2 ne show "\<exists>s'. nds_cart_backup_spi_write c v pos l
        = Some (s', sram c ! unat (tiny_addr c AND mask 9))
      \<and> sram s' = sram c \<and> tiny_addr s' = tiny_addr c + 1
      \<and> chip_pow2 EepromTiny 9 s' \<and> (cmd s' = 0x03 \<or> cmd s' = 0x0B)"
      by (auto simp: nds_cart_backup_spi_write_def chip_pow2_def tiny_addr_def)
  }
qed (auto simp: chip_pow2_def)

section \<open>Whole transfers\<close>

lemma wren_transfer:
  "sram c \<noteq> [] \<Longrightarrow>
    transfer nds_cart_backup_spi_write c [0x06] = Some (c\<lparr>status := status c OR 0x02\<rparr>, [0])"
  by (simp add: transfer_def nds_cart_backup_spi_write_def)

lemma wren_enables: "write_enabled (c\<lparr>status := status c OR 0x02\<rparr>)"
  by (simp add: write_enabled_def tsts bit_simps bitlits)

definition be_addr :: "u8 list \<Rightarrow> u32" where
  "be_addr bs = fold (\<lambda>b a. push_bit 8 a OR ucast b) bs 0"

lemma eeprom_header:
  assumes "chip_pow2 Eeprom k c" "k \<le> 16" "op = 0x02 \<or> op = 0x03" "bs \<noteq> []"
  shows "transfer nds_cart_backup_spi_write c ([op, a1, a0] @ bs) = do {
     (s, rs) \<leftarrow> feed nds_cart_backup_spi_write (c\<lparr>cmd := op, cb_addr := be_addr [a1, a0]\<rparr>) 3 bs;
     Some (s, [0xFF, 0, 0] @ rs) }"
proof -
  have ne: "sram c \<noteq> []" using assms(1) by (auto simp: chip_pow2_def)
  let ?c0 = "c\<lparr>cmd := op, cb_addr := 0\<rparr>"
  have 0: "nds_cart_backup_spi_write c op 0 False = Some (?c0, 0xFF)"
    using assms(3) ne by (auto simp: nds_cart_backup_spi_write_def)
  have hdr: "nds_cart_backup_spi_write d v pos False = Some (shift_addr d v, 0)"
    if "cmd d = op" "chip_pow2 Eeprom k d" "pos = 1 \<or> pos = 2" for d v pos
  proof -
    from that(2) assms(2) have d: "cb_type d = Eeprom" "sram d \<noteq> []" "\<not> 65536 < length (sram d)"
      by (auto simp: chip_pow2_def)
    from that(3) have "pos \<noteq> 0" "pos \<le> 2" by auto
    with d that(1) have "nds_cart_backup_spi_write d v pos False = eeprom_spi_write d v pos False"
      by (simp add: nds_cart_backup_spi_write_def)
    also from assms(3) that(1) d(3) \<open>pos \<le> 2\<close> have "\<dots> = Some (shift_addr d v, 0)"
      by (elim disjE) (simp_all add: eeprom_spi_write_def clear_wel_if_def)
    finally show ?thesis .
  qed
  have 1: "nds_cart_backup_spi_write ?c0 a1 1 False = Some (shift_addr ?c0 a1, 0)"
    using assms(1) by (intro hdr) (auto simp: chip_pow2_def)
  have 2: "nds_cart_backup_spi_write (shift_addr ?c0 a1) a0 2 False
      = Some (shift_addr (shift_addr ?c0 a1) a0, 0)"
    using assms(1) by (intro hdr) (auto simp: chip_pow2_def)
  have 3: "shift_addr (shift_addr ?c0 a1) a0 = c\<lparr>cmd := op, cb_addr := be_addr [a1, a0]\<rparr>"
    by (simp add: shift_addr_def be_addr_def)
  have p: "(1 :: u32) + 1 = 2" "(2 :: u32) + 1 = 3" by simp_all
  show ?thesis
    unfolding transfer_def append_Cons append_Nil feed.simps add_0 p
    by (cases "feed nds_cart_backup_spi_write (c\<lparr>cmd := op, cb_addr := be_addr [a1, a0]\<rparr>) 3 bs")
      (simp_all add: 0 1 2 3 assms(4) split: prod.split)
qed

text \<open>
  C12. Program then read back on an EEPROM.  After WREN, any number of status polls (or other
  reads), a program transfer of \<open>ds\<close> at a two-byte address, more polls, and a read transfer of
  as many bytes from the same address, the read answers exactly \<open>ds\<close>: no poll in between
  consumes the write-enable latch, and the program transfer clears it.
\<close>

theorem eeprom_program_read_back:
  assumes "chip_pow2 Eeprom k c" "k \<le> 16"
    and "ds \<noteq> []" "length ds \<le> 2 ^ k" "length xs = length ds"
    and "\<forall>p \<in> set (ps @ qs). p \<noteq> [] \<and> latch_safe (hd p) \<and> length p < 2 ^ 32"
  shows "\<exists>c' rs. session nds_cart_backup_spi_write c
       ([[0x06]] @ ps @ [[0x02, a1, a0] @ ds] @ qs @ [[0x03, a1, a0] @ xs])
       = Some (c', rs @ [[0xFF, 0, 0] @ ds])"
proof -
  let ?st = nds_cart_backup_spi_write and ?a = "be_addr [a1, a0]"
  have len: "length ds \<le> 65536"
    using assms(2,4) power_increasing [of k 16 "2 :: nat"] by simp
  have ne: "sram c \<noteq> []" and ok: "chip_ok c"
    using assms(1,2) len power_increasing [of k 32 "2 :: nat"] by (auto simp: chip_pow2_def chip_ok_def)
  let ?c1 = "c\<lparr>status := status c OR 0x02\<rparr>"
  have ok1: "chip_ok ?c1" using ok by (simp add: chip_ok_def)
  from backup_chip.session_ok [OF ok1] obtain c2 r2
    where c2: "session ?st ?c1 ps = Some (c2, r2)" "chip_ok c2" by blast
  from latch_safe_session [OF c2(1) ok1] assms(6)
  have c2': "status c2 = status ?c1" "sram c2 = sram c" "cb_type c2 = cb_type c" by auto
  let ?w = "c2\<lparr>cmd := 0x02, cb_addr := ?a\<rparr>"
  have p2: "chip_pow2 Eeprom k c2" using assms(1) c2' by (simp add: chip_pow2_def)
  have W: "chip_pow2 Eeprom k ?w \<and> cmd ?w = 0x02 \<and> write_enabled ?w"
    using p2 c2' wren_enables [of c] by (simp add: chip_pow2_def write_enabled_def)
  have h: "addr_bytes k < 3" "unat (3 :: u32) + length ds < 2 ^ 32"
    using assms(2) len by (auto simp: addr_bytes_def)
  from eeprom_port.burst_write [OF W h] obtain c3 r3
    where c3: "feed ?st ?w 3 ds = Some (c3, r3)" by blast
  have okw: "chip_ok ?w" using c2(2) by (simp add: chip_ok_def)
  from backup_chip.feed_ok [OF okw, of 3 ds] c3 have c3ok: "chip_ok c3" "chip_evolves ?w c3" by auto
  from backup_chip.session_ok [OF c3ok(1)] obtain c4 r4
    where c4: "session ?st c3 qs = Some (c4, r4)" by blast
  from latch_safe_session [OF c4 c3ok(1)] assms(6)
  have c4': "sram c4 = sram c3" "cb_type c4 = cb_type c3" by auto
  have p4: "chip_pow2 Eeprom k c4" using p2 c4' c3ok(2) by (simp add: chip_pow2_def chip_evolves_def)
  let ?r = "c4\<lparr>cmd := 0x03, cb_addr := ?a\<rparr>"
  from p4 have R: "chip_pow2 Eeprom k ?r \<and> cmd ?r = 0x03" by (simp add: chip_pow2_def)
  from eeprom_port.burst_round_trip [OF W h assms(4) c3 R _ _ assms(5)] c4'
  obtain c5 where c5: "feed ?st ?r 3 xs = Some (c5, ds)" by auto
  have xs: "xs \<noteq> []" using assms(3,5) by auto
  show ?thesis
    using wren_transfer [OF ne] c2(1) c3 c4 c5 eeprom_header [OF p2 assms(2) _ assms(3), of "0x02" a1 a0]
      eeprom_header [OF p4 assms(2) _ xs, of "0x03" a1 a0]
    by (simp add: session_append)
qed

theorem eeprom_program_read_back_witness:
  "\<exists>c' rs. session nds_cart_backup_spi_write
     \<lparr>cb_type = Eeprom, sram = replicate 16 0xFF, cmd = 0, status = 0, cb_addr = 0, dirty = False\<rparr>
     ([[0x06]] @ [[0x05, 0]] @ [[0x02, 0, 3] @ [7, 8]] @ [[0x05, 0, 0]] @ [[0x03, 0, 3] @ [0, 0]])
     = Some (c', rs @ [[0xFF, 0, 0] @ [7, 8]])"
  by (rule eeprom_program_read_back [where k = 4]) (simp_all add: chip_pow2_def latch_safe_def)

text \<open>
  C18. Memory safety of the backup protocol: from any configured chip, every sequence of
  transfers runs without an out-of-range access, keeps the image's type and size, and raises
  \<open>dirty\<close> whenever the image differs from the start.
\<close>

theorem backup_session_safe:
  assumes "chip_ok c"
  shows "\<exists>d rs. session nds_cart_backup_spi_write c ts = Some (d, rs) \<and> chip_ok d \<and> chip_evolves c d"
  using assms by (rule backup_chip.session_ok)

theorem backup_session_safe_witness:
  "\<exists>d rs. session nds_cart_backup_spi_write
     \<lparr>cb_type = EepromTiny, sram = replicate 512 0xFF, cmd = 0, status = 0, cb_addr = 0, dirty = False\<rparr>
     [[0x06], [0x0A, 0xFF, 1, 2]] = Some (d, rs) \<and> chip_ok d \<and> chip_evolves
     \<lparr>cb_type = EepromTiny, sram = replicate 512 0xFF, cmd = 0, status = 0, cb_addr = 0, dirty = False\<rparr> d"
  by (rule backup_session_safe) (simp add: chip_ok_def)

end
