(* ===== verification/CpuAlu.thy ===== *)
theory CpuAlu
  imports Prelude
begin

text \<open>
  The processor helpers that generated code calls: condition codes, the barrel shifter, the
  flag updaters, the multiplier timing and CLZ (\<open>runner/src/runtime_arm.cpp\<close>, with the
  inline condition evaluator and the ARM9 cycle combine of
  \<open>recompiler/armv4t/runtime_arm.h\<close>).  The shifter is shown equal to shifts of unbounded
  integers with the carry read off the bit shifted out, for every shift amount; the flag updaters
  are shown to hold the unsigned carry and signed overflow of the exact sum or difference; and
  all fourteen conditions after a compare are shown to be the comparisons they name.
\<close>

section \<open>Register file\<close>

datatype bank = BankUser | BankFiq | BankIrq | BankSupervisor | BankAbort | BankUndefined

text \<open>
  \<open>ArmCpuState\<close>: the sixteen visible registers, CPSR, and the banked copies.  The arrays are
  functions of an index; \<open>R\<close> is used at 0..15, the two FIQ windows at 0..4.
\<close>

record arm_cpu =
  R :: "nat \<Rightarrow> u32"
  cpsr :: u32
  banked_sp :: "bank \<Rightarrow> u32"
  banked_lr :: "bank \<Rightarrow> u32"
  banked_spsr :: "bank \<Rightarrow> u32"
  r8_12_user :: "nat \<Rightarrow> u32"
  r8_12_fiq :: "nat \<Rightarrow> u32"

text \<open>The CPSR bits, at the positions \<open>sync_in\<close> of \<open>tier3.cpp\<close> unpacks them from.\<close>

abbreviation CPSR_N_BIT :: u32 where "CPSR_N_BIT \<equiv> 0x80000000"
abbreviation CPSR_Z_BIT :: u32 where "CPSR_Z_BIT \<equiv> 0x40000000"
abbreviation CPSR_C_BIT :: u32 where "CPSR_C_BIT \<equiv> 0x20000000"
abbreviation CPSR_V_BIT :: u32 where "CPSR_V_BIT \<equiv> 0x10000000"
abbreviation CPSR_I_BIT :: u32 where "CPSR_I_BIT \<equiv> 0x80"
abbreviation CPSR_F_BIT :: u32 where "CPSR_F_BIT \<equiv> 0x40"
abbreviation CPSR_T_BIT :: u32 where "CPSR_T_BIT \<equiv> 0x20"

definition cpsr_n :: "arm_cpu \<Rightarrow> bool" where "cpsr_n s \<longleftrightarrow> cpsr s AND CPSR_N_BIT \<noteq> 0"
definition cpsr_z :: "arm_cpu \<Rightarrow> bool" where "cpsr_z s \<longleftrightarrow> cpsr s AND CPSR_Z_BIT \<noteq> 0"
definition cpsr_c :: "arm_cpu \<Rightarrow> bool" where "cpsr_c s \<longleftrightarrow> cpsr s AND CPSR_C_BIT \<noteq> 0"
definition cpsr_v :: "arm_cpu \<Rightarrow> bool" where "cpsr_v s \<longleftrightarrow> cpsr s AND CPSR_V_BIT \<noteq> 0"
definition cpsr_t :: "arm_cpu \<Rightarrow> bool" where "cpsr_t s \<longleftrightarrow> cpsr s AND CPSR_T_BIT \<noteq> 0"

lemmas flag_defs = cpsr_n_def cpsr_z_def cpsr_c_def cpsr_v_def cpsr_t_def

definition arm_cond_passes :: "u32 \<Rightarrow> arm_cpu \<Rightarrow> bool" where
  "arm_cond_passes cond s =
    (let n = cpsr_n s; z = cpsr_z s; c = cpsr_c s; v = cpsr_v s; k = cond AND 0xF in
     if k = 0x0 then z else if k = 0x1 then \<not> z
     else if k = 0x2 then c else if k = 0x3 then \<not> c
     else if k = 0x4 then n else if k = 0x5 then \<not> n
     else if k = 0x6 then v else if k = 0x7 then \<not> v
     else if k = 0x8 then c \<and> \<not> z else if k = 0x9 then \<not> c \<or> z
     else if k = 0xA then n = v else if k = 0xB then n \<noteq> v
     else if k = 0xC then \<not> z \<and> n = v else if k = 0xD then z \<or> n \<noteq> v
     else k = 0xE)"

section \<open>Shifter\<close>

text \<open>\<open>g_cpu.cpsr = (g_cpu.cpsr & ~CPSR_C_BIT) | (c ? CPSR_C_BIT : 0u)\<close>\<close>

definition set_c :: "bool \<Rightarrow> arm_cpu \<Rightarrow> arm_cpu" where
  "set_c c s = s\<lparr>cpsr := (cpsr s AND NOT CPSR_C_BIT) OR (if c then CPSR_C_BIT else 0)\<rparr>"

definition set_c_if :: "bool \<Rightarrow> bool \<Rightarrow> arm_cpu \<Rightarrow> arm_cpu" where
  "set_c_if sc c s = (if sc then set_c c s else s)"

definition arm_shift_lsl :: "u32 \<Rightarrow> u32 \<Rightarrow> bool \<Rightarrow> arm_cpu \<Rightarrow> u32 \<times> arm_cpu" where
  "arm_shift_lsl v n sc s =
    (if n = 0 then (v, s)
     else if n \<ge> 32 then (0, set_c_if sc (if n = 32 then v AND 1 \<noteq> 0 else False) s)
     else (push_bit (unat n) v, set_c_if sc (drop_bit (unat (32 - n)) v AND 1 \<noteq> 0) s))"

definition arm_shift_lsr :: "u32 \<Rightarrow> u32 \<Rightarrow> bool \<Rightarrow> arm_cpu \<Rightarrow> u32 \<times> arm_cpu" where
  "arm_shift_lsr v n sc s =
    (if n = 0 then (v, s)
     else if n \<ge> 32 then (0, set_c_if sc (if n = 32 then drop_bit 31 v AND 1 \<noteq> 0 else False) s)
     else (drop_bit (unat n) v, set_c_if sc (drop_bit (unat (n - 1)) v AND 1 \<noteq> 0) s))"

definition arm_shift_asr :: "u32 \<Rightarrow> u32 \<Rightarrow> bool \<Rightarrow> arm_cpu \<Rightarrow> u32 \<times> arm_cpu" where
  "arm_shift_asr v n sc s =
    (if n = 0 then (v, s)
     else if n \<ge> 32 then
       (let c = drop_bit 31 v AND 1 \<noteq> 0 in (if c then 0xFFFFFFFF else 0, set_c_if sc c s))
     else (signed_drop_bit (unat n) v, set_c_if sc (drop_bit (unat (n - 1)) v AND 1 \<noteq> 0) s))"

definition arm_shift_ror :: "u32 \<Rightarrow> u32 \<Rightarrow> bool \<Rightarrow> arm_cpu \<Rightarrow> u32 \<times> arm_cpu" where
  "arm_shift_ror v n sc s =
    (if n = 0 then (v, s)
     else let m = n AND 31 in
       if m = 0 then (v, set_c_if sc (v AND 0x80000000 \<noteq> 0) s)
       else let r = drop_bit (unat m) v OR push_bit (unat (32 - m)) v in
         (r, set_c_if sc (r AND 0x80000000 \<noteq> 0) s))"

text \<open>\<open>__builtin_clz\<close> scans from the top bit; \<open>runtime_clz\<close> guards its undefined zero input.\<close>

fun clz_from :: "u32 \<Rightarrow> nat \<Rightarrow> nat" where
  "clz_from v 0 = 0"
| "clz_from v (Suc i) = (if bit v i then 0 else Suc (clz_from v i))"

definition runtime_clz :: "u32 \<Rightarrow> u32" where
  "runtime_clz v = (if v \<noteq> 0 then word_of_nat (clz_from v 32) else 32)"

text \<open>
  Early-termination timing of the ARM7TDMI multiplier; the ARM9 ignores it.  The Thumb form
  clears the carry.
\<close>

definition runtime_mul_cycles :: "nds_cpu \<Rightarrow> u32 \<Rightarrow> bool \<Rightarrow> u32 \<Rightarrow> arm_cpu \<Rightarrow> u32 \<times> arm_cpu" where
  "runtime_mul_cycles active v signed_variant extra s =
    (if active = ARM9 then (1, s)
     else if cpsr s AND CPSR_T_BIT \<noteq> 0 then
       (let s' = s\<lparr>cpsr := cpsr s AND NOT CPSR_C_BIT\<rparr> in
        if v AND 0xFF000000 \<noteq> 0 then (4, s')
        else if v AND 0x00FF0000 \<noteq> 0 then (3, s')
        else if v AND 0x0000FF00 \<noteq> 0 then (2, s')
        else (1, s'))
     else
       (let m = (if signed_variant then
            (if v AND 0xFFFFFF00 = 0 \<or> v AND 0xFFFFFF00 = 0xFFFFFF00 then 1
             else if v AND 0xFFFF0000 = 0 \<or> v AND 0xFFFF0000 = 0xFFFF0000 then 2
             else if v AND 0xFF000000 = 0 \<or> v AND 0xFF000000 = 0xFF000000 then 3
             else 4)
          else
            (if v AND 0xFFFFFF00 = 0 then 1
             else if v AND 0xFFFF0000 = 0 then 2
             else if v AND 0xFF000000 = 0 then 3
             else 4)) in (m + extra, s)))"

text \<open>The ARM9 combine of an instruction's fetch, data and internal cycles.\<close>

definition arm9_cycle_combine :: "u32 \<Rightarrow> u32 \<Rightarrow> u32 \<Rightarrow> bool \<Rightarrow> u32" where
  "arm9_cycle_combine numC numD numI has_data =
    (if has_data then
       (let floor_v = (if numC > numD then numC else numD);
            sum = numC + numD;
            overlap = (if sum > 6 then sum - 6 else 0) in
        if overlap > floor_v then overlap else floor_v)
     else if numI \<noteq> 0 then numC + numI else numC)"

section \<open>Flag updaters\<close>

definition or_if :: "bool \<Rightarrow> u32 \<Rightarrow> u32 \<Rightarrow> u32" where
  "or_if p m c = (if p then c OR m else c)"

definition arm_set_nz :: "u32 \<Rightarrow> arm_cpu \<Rightarrow> arm_cpu" where
  "arm_set_nz r s =
    (let c = cpsr s AND NOT (CPSR_N_BIT OR CPSR_Z_BIT);
         c = or_if (r AND 0x80000000 \<noteq> 0) CPSR_N_BIT c;
         c = or_if (r = 0) CPSR_Z_BIT c in s\<lparr>cpsr := c\<rparr>)"

definition arm_set_nzc_logic :: "u32 \<Rightarrow> u32 \<Rightarrow> arm_cpu \<Rightarrow> arm_cpu" where
  "arm_set_nzc_logic r sh s =
    (let c = cpsr s AND NOT (CPSR_N_BIT OR CPSR_Z_BIT OR CPSR_C_BIT);
         c = or_if (r AND 0x80000000 \<noteq> 0) CPSR_N_BIT c;
         c = or_if (r = 0) CPSR_Z_BIT c;
         c = or_if (sh \<noteq> 0) CPSR_C_BIT c in s\<lparr>cpsr := c\<rparr>)"

definition clear_nzcv :: "arm_cpu \<Rightarrow> u32" where
  "clear_nzcv s = cpsr s AND NOT (CPSR_N_BIT OR CPSR_Z_BIT OR CPSR_C_BIT OR CPSR_V_BIT)"

definition arm_set_nzcv_add :: "u32 \<Rightarrow> u32 \<Rightarrow> u32 \<Rightarrow> arm_cpu \<Rightarrow> arm_cpu" where
  "arm_set_nzcv_add a b r s =
    (let c = clear_nzcv s;
         c = or_if (r AND 0x80000000 \<noteq> 0) CPSR_N_BIT c;
         c = or_if (r = 0) CPSR_Z_BIT c;
         c = or_if (r < a) CPSR_C_BIT c;
         c = or_if ((NOT (a XOR b) AND (a XOR r)) AND 0x80000000 \<noteq> 0) CPSR_V_BIT c
     in s\<lparr>cpsr := c\<rparr>)"

definition arm_set_nzcv_adc :: "u32 \<Rightarrow> u32 \<Rightarrow> u32 \<Rightarrow> u32 \<Rightarrow> arm_cpu \<Rightarrow> arm_cpu" where
  "arm_set_nzcv_adc a b ci r s =
    (let c = clear_nzcv s;
         c = or_if (r AND 0x80000000 \<noteq> 0) CPSR_N_BIT c;
         c = or_if (r = 0) CPSR_Z_BIT c;
         w = ucast a + ucast b + ucast ci :: u64;
         c = or_if (drop_bit 32 w \<noteq> 0) CPSR_C_BIT c;
         c = or_if ((NOT (a XOR b) AND (a XOR r)) AND 0x80000000 \<noteq> 0) CPSR_V_BIT c
     in s\<lparr>cpsr := c\<rparr>)"

definition arm_set_nzcv_sub :: "u32 \<Rightarrow> u32 \<Rightarrow> u32 \<Rightarrow> arm_cpu \<Rightarrow> arm_cpu" where
  "arm_set_nzcv_sub a b r s =
    (let c = clear_nzcv s;
         c = or_if (r AND 0x80000000 \<noteq> 0) CPSR_N_BIT c;
         c = or_if (r = 0) CPSR_Z_BIT c;
         c = or_if (a \<ge> b) CPSR_C_BIT c;
         c = or_if (((a XOR b) AND (a XOR r)) AND 0x80000000 \<noteq> 0) CPSR_V_BIT c
     in s\<lparr>cpsr := c\<rparr>)"

definition arm_set_nzcv_sbc :: "u32 \<Rightarrow> u32 \<Rightarrow> u32 \<Rightarrow> u32 \<Rightarrow> arm_cpu \<Rightarrow> arm_cpu" where
  "arm_set_nzcv_sbc a b ci r s =
    (let c = clear_nzcv s;
         c = or_if (r AND 0x80000000 \<noteq> 0) CPSR_N_BIT c;
         c = or_if (r = 0) CPSR_Z_BIT c;
         w = ucast a + ucast (NOT b AND 0xFFFFFFFF) + ucast ci :: u64;
         c = or_if (drop_bit 32 w \<noteq> 0) CPSR_C_BIT c;
         c = or_if (((a XOR b) AND (a XOR r)) AND 0x80000000 \<noteq> 0) CPSR_V_BIT c
     in s\<lparr>cpsr := c\<rparr>)"

section \<open>The flags an update leaves\<close>

lemma nz_mask: "CPSR_N_BIT OR CPSR_Z_BIT = 0xC0000000"
  by simp

lemma bit_NOT_or: "bit (NOT (a OR b) :: u32) n \<longleftrightarrow> n < 32 \<and> \<not> bit a n \<and> \<not> bit b n"
  by (auto simp: bit_simps)

lemma clear_nzcv_bit: "bit (clear_nzcv s) n \<longleftrightarrow> bit (cpsr s) n \<and> n < 28"
proof -
  have "bit (cpsr s) n \<longrightarrow> n < 32" by (auto dest: bit_imp_le_length)
  then show ?thesis
    unfolding clear_nzcv_def bit_and_iff bit_not_iff bit_or_iff bitlits by (auto simp: bit_simps)
qed

lemma clear_nz_bit: "bit (w AND NOT (CPSR_N_BIT OR CPSR_Z_BIT)) n \<longleftrightarrow> bit (w) n \<and> n \<notin> {30, 31}"
  unfolding bit_and_iff bit_not_iff bit_or_iff bitlits by (auto simp: bit_simps dest: bit_imp_le_length)

lemma clear_nzc_bit:
  "bit (w AND NOT (CPSR_N_BIT OR CPSR_Z_BIT OR CPSR_C_BIT)) n \<longleftrightarrow> bit (w) n \<and> n \<notin> {29, 30, 31}"
  unfolding bit_and_iff bit_not_iff bit_or_iff bitlits by (auto simp: bit_simps dest: bit_imp_le_length)

lemma clear_c_bit: "bit (w AND NOT CPSR_C_BIT) n \<longleftrightarrow> bit (w) n \<and> n \<noteq> 29"
  unfolding bit_and_iff bit_not_iff bitlits by (auto simp: bit_simps dest: bit_imp_le_length)

lemma or_if_bit: "bit (or_if p m c) n \<longleftrightarrow> p \<and> bit m n \<or> bit c n"
  by (auto simp: or_if_def bit_simps)

lemma sint_via_uint: "sint (w :: u32) = (if bit w 31 then uint w - 4294967296 else uint w)"
  using uint_lt2p [of w]
  by (simp add: sint_uint signed_take_bit_eq_take_bit_minus bit_uint_iff take_bit_int_eq_self)

lemma top_bit_uint: "bit (w :: u32) 31 \<longleftrightarrow> 2147483648 \<le> uint w"
  using sint_via_uint [of w] sint_range_size [of w] uint_lt2p [of w] uint_ge_0 [of w]
  by (auto simp: word_size split: if_splits)

lemma sint_neg: "sint (w :: u32) < 0 \<longleftrightarrow> bit w 31"
  using uint_lt2p [of w] by (simp add: sint_via_uint)

text \<open>The test a source makes with a mask, as a bit of the word.\<close>

lemma flag_bits:
  "cpsr_n s \<longleftrightarrow> bit (cpsr s) 31" "cpsr_z s \<longleftrightarrow> bit (cpsr s) 30" "cpsr_c s \<longleftrightarrow> bit (cpsr s) 29"
  "cpsr_v s \<longleftrightarrow> bit (cpsr s) 28" "cpsr_t s \<longleftrightarrow> bit (cpsr s) 5"
  by (simp_all add: flag_defs tsts)

text \<open>
  What a flag update promises: N and Z describe the result, C and V are the given facts, and
  every other CPSR bit and every register is untouched.
\<close>

definition flags_are :: "u32 \<Rightarrow> bool \<Rightarrow> bool \<Rightarrow> arm_cpu \<Rightarrow> arm_cpu \<Rightarrow> bool" where
  "flags_are r c v s t \<longleftrightarrow> (cpsr_n t \<longleftrightarrow> sint r < 0) \<and> (cpsr_z t \<longleftrightarrow> r = 0)
     \<and> (cpsr_c t \<longleftrightarrow> c) \<and> (cpsr_v t \<longleftrightarrow> v)
     \<and> (\<forall>n<28. bit (cpsr t) n \<longleftrightarrow> bit (cpsr s) n) \<and> t = s\<lparr>cpsr := cpsr t\<rparr>"

lemma nzcv_chain:
  "flags_are r pc pv s
    (s\<lparr>cpsr := or_if pv CPSR_V_BIT (or_if pc CPSR_C_BIT (or_if (r = 0) CPSR_Z_BIT
       (or_if (bit r 31) CPSR_N_BIT (clear_nzcv s))))\<rparr>)"
  by (auto simp: flags_are_def flag_bits sint_neg or_if_bit clear_nzcv_bit bitints)

lemma flags_add_raw:
  "flags_are r (r < a) (bit (NOT (a XOR b) AND (a XOR r)) 31) s (arm_set_nzcv_add a b r s)"
  using nzcv_chain [of r "r < a" "bit (NOT (a XOR b) AND (a XOR r)) 31" s]
  by (simp add: arm_set_nzcv_add_def Let_def tsts)

lemma flags_sub_raw:
  "flags_are r (a \<ge> b) (bit ((a XOR b) AND (a XOR r)) 31) s (arm_set_nzcv_sub a b r s)"
  using nzcv_chain [of r "a \<ge> b" "bit ((a XOR b) AND (a XOR r)) 31" s]
  by (simp add: arm_set_nzcv_sub_def Let_def tsts)

text \<open>Carry and overflow of the exact sum and difference.\<close>

definition add_carry :: "u32 \<Rightarrow> u32 \<Rightarrow> int \<Rightarrow> bool" where
  "add_carry a b c \<longleftrightarrow> 2 ^ 32 \<le> uint a + uint b + c"

definition add_overflow :: "u32 \<Rightarrow> u32 \<Rightarrow> int \<Rightarrow> bool" where
  "add_overflow a b c \<longleftrightarrow> sint a + sint b + c \<notin> {- 2147483648..<2147483648}"

definition sub_overflow :: "u32 \<Rightarrow> u32 \<Rightarrow> int \<Rightarrow> bool" where
  "sub_overflow a b c \<longleftrightarrow> sint a - sint b - c \<notin> {- 2147483648..<2147483648}"

lemma bit31_XOR: "bit (a XOR b :: u32) 31 \<longleftrightarrow> bit a 31 \<noteq> bit b 31"
  "bit (NOT a :: u32) 31 \<longleftrightarrow> \<not> bit a 31" "bit (a AND b :: u32) 31 \<longleftrightarrow> bit a 31 \<and> bit b 31"
  by (auto simp: bit_simps)

lemma uint32: "0 \<le> uint (a :: u32)" "uint (a :: u32) < 4294967296"
  using uint_lt2p [of a] by auto

lemma sint32: "sint (w :: u32) = (if 2147483648 \<le> uint w then uint w - 4294967296 else uint w)"
  by (simp add: sint_via_uint top_bit_uint)

lemma uint_add_cases: "uint (a + b :: u32) = (if uint a + uint b < 4294967296 then uint a + uint b
    else uint a + uint b - 4294967296)"
  using uint_plus_if' [of a b] by simp

lemma uint_sub_cases: "uint (a - b :: u32) = (if uint b \<le> uint a then uint a - uint b
    else uint a - uint b + 4294967296)"
  using uint_sub_if' [of a b] by simp

lemma mod_once:
  fixes k :: int
  assumes "k \<le> x" and "x < 2 * k"
  shows "x mod k = x - k"
  using assms by (metis diff_ge_0_iff_ge diff_less_eq minus_mod_self2 mod_pos_pos_trivial mult_2)

lemma mod_none:
  fixes k :: int
  assumes "- k \<le> x" and "x < 0"
  shows "x mod k = x + k"
  using assms by (metis add.commute add_less_same_cancel2 le_add_same_cancel1 add_le_cancel_left add_0 add.right_inverse mod_add_self2 mod_pos_pos_trivial)

lemma mod_add_cases:
  fixes x y c :: int
  assumes "0 \<le> x" "x < 4294967296" "0 \<le> y" "y < 4294967296" "c \<in> {0, 1}"
  shows "(x + y + c) mod 4294967296
    = (if x + y + c < 4294967296 then x + y + c else x + y + c - 4294967296)"
proof (cases "x + y + c < 4294967296")
  case True
  then show ?thesis using assms mod_pos_pos_trivial [of "x + y + c" 4294967296] by auto
next
  case False
  then show ?thesis using assms mod_once [of 4294967296 "x + y + c"] by auto
qed

lemma mod_sub_cases:
  fixes x y c :: int
  assumes "0 \<le> x" "x < 4294967296" "0 \<le> y" "y < 4294967296" "c \<in> {0, 1}"
  shows "(x - y - c) mod 4294967296
    = (if 0 \<le> x - y - c then x - y - c else x - y - c + 4294967296)"
proof (cases "0 \<le> x - y - c")
  case True
  then show ?thesis using assms mod_pos_pos_trivial [of "x - y - c" 4294967296] by auto
next
  case False
  then show ?thesis using assms mod_none [of 4294967296 "x - y - c"] by auto
qed

text \<open>The sign rules of the flag code, over the values of the operands.\<close>

lemma add_overflow_int:
  fixes x y z c :: int
  assumes "0 \<le> x" "x < 4294967296" "0 \<le> y" "y < 4294967296" "c \<in> {0, 1}"
    and "z = (if x + y + c < 4294967296 then x + y + c else x + y + c - 4294967296)"
  shows "(2147483648 \<le> x) = (2147483648 \<le> y) \<and> (2147483648 \<le> x) \<noteq> (2147483648 \<le> z)
    \<longleftrightarrow> (if 2147483648 \<le> x then x - 4294967296 else x) + (if 2147483648 \<le> y then y - 4294967296 else y) + c
          \<notin> {- 2147483648..<2147483648}"
  using assms by auto

lemma sub_overflow_int:
  fixes x y z c :: int
  assumes "0 \<le> x" "x < 4294967296" "0 \<le> y" "y < 4294967296" "c \<in> {0, 1}"
    and "z = (if 0 \<le> x - y - c then x - y - c else x - y - c + 4294967296)"
  shows "(2147483648 \<le> x) \<noteq> (2147483648 \<le> y) \<and> (2147483648 \<le> x) \<noteq> (2147483648 \<le> z)
    \<longleftrightarrow> (if 2147483648 \<le> x then x - 4294967296 else x) - (if 2147483648 \<le> y then y - 4294967296 else y) - c
          \<notin> {- 2147483648..<2147483648}"
  using assms by auto

lemma add_overflow_bits:
  assumes "c \<in> {0, 1}" and "uint r = (uint a + uint b + c) mod 4294967296"
  shows "bit (NOT (a XOR b) AND (a XOR r)) 31 \<longleftrightarrow> add_overflow a b c"
proof -
  have "uint r = (if uint a + uint b + c < 4294967296 then uint a + uint b + c
      else uint a + uint b + c - 4294967296)"
    using assms(2) mod_add_cases [OF uint32 [of a] uint32 [of b] assms(1)] by simp
  from add_overflow_int [OF uint32 [of a] uint32 [of b] assms(1) this]
  show ?thesis unfolding bit31_XOR unfolding top_bit_uint add_overflow_def sint32 by (simp only: not_not)
qed

lemma sub_overflow_bits:
  assumes "c \<in> {0, 1}" and "uint r = (uint a - uint b - c) mod 4294967296"
  shows "bit ((a XOR b) AND (a XOR r)) 31 \<longleftrightarrow> sub_overflow a b c"
proof -
  have "uint r = (if 0 \<le> uint a - uint b - c then uint a - uint b - c
      else uint a - uint b - c + 4294967296)"
    using assms(2) mod_sub_cases [OF uint32 [of a] uint32 [of b] assms(1)] by simp
  from sub_overflow_int [OF uint32 [of a] uint32 [of b] assms(1) this]
  show ?thesis unfolding bit31_XOR unfolding top_bit_uint sub_overflow_def sint32 by (simp only: not_not)
qed

section \<open>The updaters compute exact carry and overflow\<close>

text \<open>
  Generated code calls the updaters with the wrapped result; C and V are then those of the exact
  sum or difference, with borrow-in \<open>1 - ci\<close> for SBC.
\<close>

lemma uint_mod32: "uint (a + b :: u32) = (uint a + uint b) mod 4294967296"
  "uint (a - b :: u32) = (uint a - uint b) mod 4294967296"
  by (simp_all add: uint_word_ariths)

lemma add_flags:
  "flags_are (a + b) (add_carry a b 0) (add_overflow a b 0) s (arm_set_nzcv_add a b (a + b) s)"
proof -
  have "a + b < a \<longleftrightarrow> add_carry a b 0"
    using uint32 [of a] uint32 [of b] by (simp add: word_less_def uint_add_cases add_carry_def)
  moreover have "bit (NOT (a XOR b) AND (a XOR (a + b))) 31 \<longleftrightarrow> add_overflow a b 0"
    by (rule add_overflow_bits) (simp_all add: uint_mod32)
  ultimately show ?thesis using flags_add_raw [of "a + b" a b s] by simp
qed

lemma sub_flags:
  "flags_are (a - b) (uint b \<le> uint a) (sub_overflow a b 0) s (arm_set_nzcv_sub a b (a - b) s)"
proof -
  have "bit ((a XOR b) AND (a XOR (a - b))) 31 \<longleftrightarrow> sub_overflow a b 0"
    by (rule sub_overflow_bits) (simp_all add: uint_mod32)
  then show ?thesis using flags_sub_raw [of "a - b" b a s] by (simp add: word_le_def)
qed

lemma uint_ucast_u64: "uint (ucast (a :: u32) :: u64) = uint a"
  by (simp add: uint_up_ucast is_up)

lemma carry_out_of_wide: "drop_bit 32 (w :: u64) \<noteq> 0 \<longleftrightarrow> 4294967296 \<le> uint w"
proof -
  have "drop_bit 32 w = 0 \<longleftrightarrow> uint (drop_bit 32 w) = 0" by (rule uint_0_iff [symmetric])
  also have "uint (drop_bit 32 w) = uint w div 4294967296"
    unfolding unsigned_drop_bit_eq using uint_lt2p [of w] by (simp add: drop_bit_eq_div take_bit_int_eq_self)
  also have "uint w div 4294967296 = 0 \<longleftrightarrow> uint w < 4294967296"
    using uint_ge_0 [of w] by (auto simp: div_eq_0_iff)
  finally show ?thesis by auto
qed

lemma wide_sum:
  assumes "ci \<in> {0, 1 :: u32}"
  shows "drop_bit 32 (ucast a + ucast b + ucast ci :: u64) \<noteq> 0 \<longleftrightarrow> add_carry a b (uint ci)"
proof -
  have "uint (ucast a + ucast b + ucast ci :: u64)
      = (uint a + uint b + uint ci) mod 18446744073709551616"
    by (simp add: uint_word_ariths uint_ucast_u64 mod_simps)
  also have "\<dots> = uint a + uint b + uint ci"
    using assms uint32 [of a] uint32 [of b] by (intro mod_pos_pos_trivial) auto
  finally show ?thesis unfolding carry_out_of_wide by (simp add: add_carry_def)
qed

lemma adc_flags:
  assumes "ci \<in> {0, 1}"
  shows "flags_are (a + b + ci) (add_carry a b (uint ci)) (add_overflow a b (uint ci)) s
    (arm_set_nzcv_adc a b ci (a + b + ci) s)"
proof -
  have "bit (NOT (a XOR b) AND (a XOR (a + b + ci))) 31 \<longleftrightarrow> add_overflow a b (uint ci)"
    using assms by (intro add_overflow_bits) (auto simp: uint_word_ariths mod_simps)
  with wide_sum [OF assms, of a b] nzcv_chain [of "a + b + ci" "add_carry a b (uint ci)"
      "bit (NOT (a XOR b) AND (a XOR (a + b + ci))) 31" s]
  show ?thesis by (simp add: arm_set_nzcv_adc_def Let_def tsts)
qed

lemma uint_NOT32: "uint (NOT b :: u32) = 4294967295 - uint b"
proof -
  have "uint (- 1 :: u32) = 4294967295" by (simp add: unsigned_minus_1_eq_mask mask_eq_exp_minus_1)
  moreover have "NOT b = - 1 - b" by (simp add: not_eq_complement)
  ultimately show ?thesis using uint32 [of b] uint_sub_cases [of "- 1" b] by simp
qed

lemma sbc_flags:
  assumes "ci \<in> {0, 1}"
  shows "flags_are (a - b - (1 - ci)) (uint b + (1 - uint ci) \<le> uint a)
    (sub_overflow a b (1 - uint ci)) s (arm_set_nzcv_sbc a b ci (a - b - (1 - ci)) s)"
proof -
  have "bit ((a XOR b) AND (a XOR (a - b - (1 - ci)))) 31 \<longleftrightarrow> sub_overflow a b (1 - uint ci)"
    using assms by (intro sub_overflow_bits) (auto simp: uint_word_ariths mod_simps)
  moreover have "drop_bit 32 (ucast a + ucast (NOT b AND 0xFFFFFFFF) + ucast ci :: u64) \<noteq> 0
      \<longleftrightarrow> uint b + (1 - uint ci) \<le> uint a"
  proof -
    have "NOT b AND 0xFFFFFFFF = NOT b" 
    proof -
      have "(0xFFFFFFFF :: u32) = - 1" by simp
      then show ?thesis by (simp only: and.right_neutral)
    qed
    then show ?thesis
      using wide_sum [OF assms, of a "NOT b"] by (auto simp: add_carry_def uint_NOT32)
  qed
  ultimately show ?thesis
    using nzcv_chain [of "a - b - (1 - ci)" "uint b + (1 - uint ci) \<le> uint a"
      "bit ((a XOR b) AND (a XOR (a - b - (1 - ci)))) 31" s]
    by (simp add: arm_set_nzcv_sbc_def Let_def tsts)
qed

section \<open>Conditions after a compare\<close>

text \<open>
  \<open>CMP a, b\<close> leaves the flags of \<open>a - b\<close>; each condition code is then the comparison of the
  operands that its assembler name promises.
\<close>

fun cond_meaning :: "nat \<Rightarrow> u32 \<Rightarrow> u32 \<Rightarrow> bool" where
  "cond_meaning k a b =
    (if k = 0 then a = b else if k = 1 then a \<noteq> b
     else if k = 2 then b \<le> a else if k = 3 then a < b
     else if k = 4 then sint (a - b) < 0 else if k = 5 then 0 \<le> sint (a - b)
     else if k = 6 then sub_overflow a b 0 else if k = 7 then \<not> sub_overflow a b 0
     else if k = 8 then b < a else if k = 9 then a \<le> b
     else if k = 10 then sint b \<le> sint a else if k = 11 then sint a < sint b
     else if k = 12 then sint b < sint a else if k = 13 then sint a \<le> sint b
     else k = 14)"

lemma signed_less_int:
  fixes x y z :: int
  assumes "0 \<le> x" "x < 4294967296" "0 \<le> y" "y < 4294967296"
    and "z = (if y \<le> x then x - y else x - y + 4294967296)"
  shows "((if 2147483648 \<le> z then z - 4294967296 else z) < 0)
      \<noteq> ((if 2147483648 \<le> x then x - 4294967296 else x) - (if 2147483648 \<le> y then y - 4294967296 else y) - 0
          \<notin> {- 2147483648..<2147483648})
    \<longleftrightarrow> (if 2147483648 \<le> x then x - 4294967296 else x) < (if 2147483648 \<le> y then y - 4294967296 else y)"
  using assms by auto

lemma signed_inj_int:
  fixes x y :: int
  assumes "0 \<le> x" "x < 4294967296" "0 \<le> y" "y < 4294967296"
  shows "(if 2147483648 \<le> x then x - 4294967296 else x) = (if 2147483648 \<le> y then y - 4294967296 else y)
    \<longleftrightarrow> x = y"
  using assms by auto

lemma signed_less_flags: "(sint (a - b) < 0) \<noteq> sub_overflow a b 0 \<longleftrightarrow> sint a < sint (b :: u32)"
  unfolding sub_overflow_def sint32 uint_sub_cases
  using signed_less_int [OF uint32 [of a] uint32 [of b] refl] by simp

lemma cond_nibble: "(cond AND 0xF = word_of_nat k) \<longleftrightarrow> unat (cond AND 0xF :: u32) = k" if "k < 16" for k :: nat
  using that by (auto simp: unat_of_nat)

lemma cmp_cond_passes:
  assumes "t = arm_set_nzcv_sub a b (a - b) s"
  shows "arm_cond_passes cond t \<longleftrightarrow> cond_meaning (unat (cond AND 0xF)) a b"
proof -
  have f: "cpsr_n t \<longleftrightarrow> sint (a - b) < 0" "cpsr_z t \<longleftrightarrow> a = b" "cpsr_c t \<longleftrightarrow> b \<le> a"
    "cpsr_v t \<longleftrightarrow> sub_overflow a b 0"
    using sub_flags [of a b s] assms by (simp_all add: flags_are_def word_le_def)
  have sg: "(sint (a - b) < 0) = sub_overflow a b 0 \<longleftrightarrow> sint b \<le> sint a"
    using signed_less_flags [of a b] by linarith
  have eq: "sint a = sint b \<longleftrightarrow> a = b"
    unfolding sint32 word_uint_eq_iff by (rule signed_inj_int [OF uint32 [of a] uint32 [of b]])
  note n = cond_nibble [of _ cond, symmetric]
  show ?thesis
    unfolding arm_cond_passes_def Let_def f sg signed_less_flags cond_meaning.simps
    by (simp add: n not_less not_le) (use eq in \<open>auto simp: order_less_le\<close>)
qed

section \<open>The shifter is shifting of unbounded integers\<close>

lemma cpsr_set_c: "cpsr (set_c c s) = (cpsr s AND NOT CPSR_C_BIT) OR (if c then CPSR_C_BIT else 0)"
proof -
  have "cpsr (s\<lparr>cpsr := x\<rparr>) = x" for x by simp
  then show ?thesis unfolding set_c_def .
qed

lemma set_c_flag: "cpsr_c (set_c c s) \<longleftrightarrow> c"
  unfolding flag_bits cpsr_set_c by (simp only: bit_or_iff clear_c_bit) (simp add: bitints)

lemma odd_div_pow2: "odd (x div 2 ^ k) \<longleftrightarrow> bit (x :: int) k"
  by (simp add: bit_iff_odd)

lemma test_bit0: "drop_bit k (v :: u32) AND 1 \<noteq> 0 \<longleftrightarrow> bit v k"
  by (simp add: tst0 bit_drop_bit_eq)

lemma unat_pos: "n \<noteq> 0 \<longleftrightarrow> 0 < unat (n :: u32)"
  by (simp add: unat_gt_0)

lemma lsl_exact:
  "arm_shift_lsl v n sc s =
    (word_of_int (uint v * 2 ^ unat n), set_c_if (sc \<and> n \<noteq> 0) (odd (uint v * 2 ^ unat n div 2 ^ 32)) s)"
proof -
  have r: "word_of_int (uint v * 2 ^ unat n) = push_bit (unat n) v"
    by (rule bit_word_eqI) (simp add: bit_simps flip: push_bit_eq_mult)
  have c: "odd (uint v * 2 ^ unat n div 2 ^ 32) \<longleftrightarrow> unat n \<le> 32 \<and> 0 < unat n \<and> bit v (32 - unat n)"
    unfolding odd_div_pow2 push_bit_eq_mult [symmetric]
    by (auto simp: bit_push_bit_iff bit_uint_iff)
  consider "n = 0" | "n \<noteq> 0" "unat n < 32" | "n = 32" | "32 < unat n"
    by (cases "unat n" "32::nat" rule: linorder_cases) (auto simp: word_unat_eq_iff)
  then show ?thesis
  proof cases
    case 1
    then show ?thesis by (simp add: arm_shift_lsl_def set_c_if_def)
  next
    case 2
    then have "\<not> 32 \<le> n" "unat (32 - n) = 32 - unat n"
      by (simp_all add: word_le_nat_alt unat_sub word_less_nat_alt)
    with 2 show ?thesis
      unfolding c r by (simp add: arm_shift_lsl_def test_bit0 unat_gt_0)
  next
    case 3
    then show ?thesis unfolding c r by (simp add: arm_shift_lsl_def tst0)
  next
    case 4
    then have "32 \<le> n" "n \<noteq> 32" "n \<noteq> 0" by (auto simp: word_le_nat_alt)
    moreover have "push_bit (unat n) v = 0"
      using 4 by (intro bit_word_eqI) (simp add: bit_simps)
    ultimately show ?thesis using 4 unfolding c r by (simp add: arm_shift_lsl_def)
  qed
qed

lemma lsr_exact:
  "arm_shift_lsr v n sc s =
    (word_of_int (uint v div 2 ^ unat n), set_c_if (sc \<and> n \<noteq> 0) (odd (uint v div 2 ^ (unat n - 1))) s)"
proof -
  have r: "word_of_int (uint v div 2 ^ unat n) = drop_bit (unat n) v"
    by (rule bit_word_eqI) (simp add: bit_simps flip: drop_bit_eq_div)
  have c: "odd (uint v div 2 ^ (unat n - 1)) \<longleftrightarrow> bit v (unat n - 1)"
    unfolding odd_div_pow2 by (auto simp: bit_uint_iff dest: bit_imp_le_length)
  consider "n = 0" | "n \<noteq> 0" "unat n < 32" | "n = 32" | "32 < unat n"
    by (cases "unat n" "32::nat" rule: linorder_cases) (auto simp: word_unat_eq_iff)
  then show ?thesis
  proof cases
    case 1
    then show ?thesis by (simp add: arm_shift_lsr_def set_c_if_def)
  next
    case 2
    then have "\<not> 32 \<le> n" "unat (n - 1) = unat n - 1"
      by (simp_all add: word_le_nat_alt unat_minus_one)
    with 2 show ?thesis unfolding c r by (simp add: arm_shift_lsr_def test_bit0)
  next
    case 3
    have "drop_bit 32 v = 0" by (intro bit_word_eqI) (auto simp: bit_simps dest: bit_imp_le_length)
    with 3 show ?thesis unfolding c r by (simp add: arm_shift_lsr_def test_bit0)
  next
    case 4
    then have "32 \<le> n" "n \<noteq> 32" "n \<noteq> 0" by (auto simp: word_le_nat_alt)
    moreover have "drop_bit (unat n) v = 0"
      using 4 by (intro bit_word_eqI) (auto simp: bit_simps dest: bit_imp_le_length)
    moreover have "\<not> bit v (unat n - 1)" using 4 bit_imp_le_length [of v "unat n - 1"] by auto
    ultimately show ?thesis unfolding c r by (simp add: arm_shift_lsr_def)
  qed
qed

lemma bit_sint_min: "bit (sint (v :: u32)) k \<longleftrightarrow> bit v (min 31 k)"
  by (cases "k < 32"; cases "k = 31") (auto simp: bit_sint_iff min_def dest: bit_imp_le_length)

lemma asr_exact:
  "arm_shift_asr v n sc s =
    (word_of_int (sint v div 2 ^ unat n), set_c_if (sc \<and> n \<noteq> 0) (odd (sint v div 2 ^ (unat n - 1))) s)"
proof -
  have r: "word_of_int (sint v div 2 ^ unat n) = signed_drop_bit (unat n) v"
    by (rule bit_word_eqI) (simp add: bit_simps bit_sint_iff flip: drop_bit_eq_div)
  have c: "odd (sint v div 2 ^ (unat n - 1)) \<longleftrightarrow> bit v (min 31 (unat n - 1))"
    unfolding odd_div_pow2 by (rule bit_sint_min)
  show ?thesis
  proof (cases "32 \<le> n")
    case True
    then have n: "n \<noteq> 0" "31 \<le> unat n - 1" by (auto simp: word_le_nat_alt)
    have "signed_drop_bit (unat n) v = (if bit v 31 then 0xFFFFFFFF else 0)"
    proof -
      have "bit (0xFFFFFFFF :: u32) m \<longleftrightarrow> m < 32" for m
      proof -
        have "(0xFFFFFFFF :: u32) = - 1" by simp
        then show ?thesis by (simp only: bit_minus_1_iff) simp
      qed
      then show ?thesis using n
        by (intro bit_word_eqI) (auto simp: bit_signed_drop_bit_iff)
    qed
    with True n show ?thesis unfolding c r by (simp add: arm_shift_asr_def test_bit0 Let_def min_def)
  next
    case False
    show ?thesis
    proof (cases "n = 0")
      case True
      then show ?thesis by (simp add: arm_shift_asr_def set_c_if_def)
    next
      case n: False
      with False have "unat (n - 1) = unat n - 1" "min 31 (unat n - 1) = unat n - 1"
        by (simp_all add: word_le_nat_alt unat_minus_one)
      with False n show ?thesis
        unfolding c r by (simp add: arm_shift_asr_def test_bit0)
    qed
  qed
qed

lemma or_shift_rotr:
  assumes "k < 32"
  shows "drop_bit k v OR push_bit (32 - k) v = word_rotr k (v :: u32)"
proof (rule bit_word_eqI)
  fix m assume "m < LENGTH(32)"
  then have m: "m < 32" by simp
  show "bit (drop_bit k v OR push_bit (32 - k) v) m \<longleftrightarrow> bit (word_rotr k v) m"
  proof (cases "m + k < 32")
    case True
    then have "(m + k) mod 32 = m + k" by simp
    with True m assms show ?thesis by (auto simp: bit_simps bit_word_rotr_iff add.commute [of k m])
  next
    case False
    with m assms have "(m + k) mod 32 = m - (32 - k)" by (simp add: mod_if)
    with False m assms show ?thesis
      by (auto simp: bit_simps bit_word_rotr_iff add.commute [of k m] dest: bit_imp_le_length)
  qed
qed

lemma ror_exact:
  "arm_shift_ror v n sc s = (word_rotr (unat n) v, set_c_if (sc \<and> n \<noteq> 0) (bit (word_rotr (unat n) v) 31) s)"
proof -
  let ?m = "n AND 31"
  have m: "unat ?m = unat n mod 32" using unat_and_mask [of n 5] by (simp add: mask_eq_exp_minus_1)
  have rot: "word_rotr (unat n) v = word_rotr (unat ?m) v"
    by (rule bit_word_eqI) (simp add: bit_word_rotr_iff m mod_simps)
  show ?thesis
  proof (cases "?m = 0")
    case True
    have "word_rotr 0 v = v" by (rule bit_word_eqI) (simp add: bit_word_rotr_iff)
    with True have "word_rotr (unat n) v = v" unfolding rot by simp
    with True show ?thesis
      by (simp add: arm_shift_ror_def set_c_if_def tsts)
  next
    case False
    have lt: "unat ?m < 32" unfolding m by simp
    have sub: "unat (32 - ?m) = 32 - unat ?m"
      using lt by (simp add: unat_sub word_le_nat_alt)
    have "drop_bit (unat ?m) v OR push_bit (unat (32 - ?m)) v = word_rotr (unat ?m) v"
      unfolding sub by (rule or_shift_rotr [OF lt])
    moreover have "n \<noteq> 0" using False by auto
    ultimately show ?thesis
      using False unfolding rot by (simp add: arm_shift_ror_def Let_def tsts)
  qed
qed

section \<open>CLZ and multiplier timing\<close>

lemma clz_from_le: "clz_from v i \<le> i"
  by (induction v i rule: clz_from.induct) auto

lemma clz_from_bits:
  "j < clz_from v i \<Longrightarrow> \<not> bit v (i - Suc j)"
  "clz_from v i < i \<Longrightarrow> bit v (i - Suc (clz_from v i))"
  by (induction v i arbitrary: j rule: clz_from.induct) (auto simp: less_Suc_eq_0_disj split: if_splits)

lemma unat_less_pow2_bits: "unat (v :: u32) < 2 ^ k \<longleftrightarrow> (\<forall>m\<ge>k. \<not> bit v m)"
proof -
  have "unat v < 2 ^ k \<longleftrightarrow> take_bit k v = v"
    by (metis unsigned_take_bit_eq take_bit_nat_eq_self_iff word_unat_eq_iff)
  also have "\<dots> \<longleftrightarrow> (\<forall>m\<ge>k. \<not> bit v m)"
    by (metis bit_eqI bit_take_bit_iff not_le)
  finally show ?thesis .
qed

lemma clz_bound: "unat v < 2 ^ (32 - clz_from v 32)"
proof -
  have "\<not> bit v m" if "32 - clz_from v 32 \<le> m" for m
  proof (cases "m < 32")
    case True
    then show ?thesis using clz_from_bits(1) [of "31 - m" v 32] clz_from_le [of v 32] that by simp
  qed (auto dest: bit_imp_le_length)
  then show ?thesis by (simp add: unat_less_pow2_bits)
qed

lemma clz_top: "v \<noteq> 0 \<Longrightarrow> clz_from v 32 < 32 \<and> 2 ^ (31 - clz_from v 32) \<le> unat v"
proof -
  assume "v \<noteq> 0"
  have "clz_from v 32 < 32"
  proof (rule ccontr)
    assume "\<not> clz_from v 32 < 32"
    then have "unat v < 1" using clz_bound [of v] by simp
    with \<open>v \<noteq> 0\<close> show False by (simp add: unat_eq_zero)
  qed
  then show ?thesis
    using clz_from_bits(2) [of v 32] unat_less_pow2_bits [of v "31 - clz_from v 32"] by fastforce
qed

text \<open>The bytes a multiplier operand occupies: the least \<open>m\<close> in 1..4 that can hold it.\<close>

definition unsigned_bytes :: "u32 \<Rightarrow> nat" where
  "unsigned_bytes v = (if unat v < 2 ^ 8 then 1 else if unat v < 2 ^ 16 then 2 else if unat v < 2 ^ 24 then 3 else 4)"

definition signed_bytes :: "u32 \<Rightarrow> nat" where
  "signed_bytes v = (if sint v \<in> {- (2 ^ 8)..<2 ^ 8} then 1 else if sint v \<in> {- (2 ^ 16)..<2 ^ 16} then 2
     else if sint v \<in> {- (2 ^ 24)..<2 ^ 24} then 3 else 4)"

lemma high_mask_shift: "v AND (push_bit k (mask (32 - k)) :: u32) = push_bit k (drop_bit k v)" if "k \<le> 32"
  using that by (intro bit_word_eqI) (auto simp: bit_simps)

lemma high_mask_div:
  assumes "k \<le> 32"
  shows "uint (v AND (push_bit k (mask (32 - k)) :: u32)) = uint v div 2 ^ k * 2 ^ k"
proof -
  have "uint (push_bit k (drop_bit k v)) = push_bit k (drop_bit k (uint v))"
    by (rule bit_eqI) (auto simp: bit_simps bit_uint_iff dest: bit_imp_le_length)
  then show ?thesis
    unfolding high_mask_shift [OF assms] by (simp only: drop_bit_eq_div push_bit_eq_mult)
qed

lemma div_mult_top:
  assumes "0 < (k :: int)"
  shows "x div k * k = q * k \<longleftrightarrow> q * k \<le> x \<and> x < q * k + k"
proof
  assume "x div k * k = q * k"
  then show "q * k \<le> x \<and> x < q * k + k"
    using div_mult_mod_eq [of x k] pos_mod_bound [OF assms, of x] pos_mod_sign [OF assms, of x] by linarith
next
  assume "q * k \<le> x \<and> x < q * k + k"
  then have "x div k = q" by (intro int_div_pos_eq [where r = "x - q * k"]) (auto simp: algebra_simps)
  then show "x div k * k = q * k" by simp
qed

lemma high_bytes:
  "v AND 0xFFFFFF00 = 0 \<longleftrightarrow> uint (v :: u32) < 256" "v AND 0xFFFFFF00 = 0xFFFFFF00 \<longleftrightarrow> 4294967040 \<le> uint v"
  "v AND 0xFFFF0000 = 0 \<longleftrightarrow> uint v < 65536" "v AND 0xFFFF0000 = 0xFFFF0000 \<longleftrightarrow> 4294901760 \<le> uint v"
  "v AND 0xFF000000 = 0 \<longleftrightarrow> uint v < 16777216" "v AND 0xFF000000 = 0xFF000000 \<longleftrightarrow> 4278190080 \<le> uint v"
proof -
  have m: "(0xFFFFFF00 :: u32) = push_bit 8 (mask 24)" "(0xFFFF0000 :: u32) = push_bit 16 (mask 16)"
    "(0xFF000000 :: u32) = push_bit 24 (mask 8)"
    by (simp_all add: mask_eq_exp_minus_1)
  have u: "uint (v AND 0xFFFFFF00) = uint v div 256 * 256" "uint (v AND 0xFFFF0000) = uint v div 65536 * 65536"
    "uint (v AND 0xFF000000) = uint v div 16777216 * 16777216"
    using high_mask_div [of 8 v] high_mask_div [of 16 v] high_mask_div [of 24 v] by (simp_all add: m)
  note d = div_mult_top [of 256 "uint v" 0] div_mult_top [of 256 "uint v" 16777215]
    div_mult_top [of 65536 "uint v" 0] div_mult_top [of 65536 "uint v" 65535]
    div_mult_top [of 16777216 "uint v" 0] div_mult_top [of 16777216 "uint v" 255]
  show "v AND 0xFFFFFF00 = 0 \<longleftrightarrow> uint v < 256" "v AND 0xFFFFFF00 = 0xFFFFFF00 \<longleftrightarrow> 4294967040 \<le> uint v"
    "v AND 0xFFFF0000 = 0 \<longleftrightarrow> uint v < 65536" "v AND 0xFFFF0000 = 0xFFFF0000 \<longleftrightarrow> 4294901760 \<le> uint v"
    "v AND 0xFF000000 = 0 \<longleftrightarrow> uint v < 16777216" "v AND 0xFF000000 = 0xFF000000 \<longleftrightarrow> 4278190080 \<le> uint v"
    using d uint32 [of v] by (simp_all only: word_uint_eq_iff u) simp_all
qed

lemma signed_fit_int:
  fixes x k :: int
  assumes "0 \<le> x" "x < 4294967296" "0 < k" "k < 2147483648"
  shows "(if 2147483648 \<le> x then x - 4294967296 else x) \<in> {- k..<k} \<longleftrightarrow> x < k \<or> 4294967296 - k \<le> x"
  using assms by auto

lemma unat_less_uint: "unat (v :: u32) < n \<longleftrightarrow> uint v < int n"
  unfolding uint_nat by (rule of_nat_less_iff [symmetric])

lemma mul_cycles_arm:
  assumes "\<not> cpsr_t s"
  shows "runtime_mul_cycles ARM7 v sg extra s
    = (word_of_nat (if sg then signed_bytes v else unsigned_bytes v) + extra, s)"
proof -
  have sb: "sint v \<in> {- (2 ^ 8)..<2 ^ 8} \<longleftrightarrow> uint v < 256 \<or> 4294967040 \<le> uint v"
    "sint v \<in> {- (2 ^ 16)..<2 ^ 16} \<longleftrightarrow> uint v < 65536 \<or> 4294901760 \<le> uint v"
    "sint v \<in> {- (2 ^ 24)..<2 ^ 24} \<longleftrightarrow> uint v < 16777216 \<or> 4278190080 \<le> uint v"
    using signed_fit_int [OF uint32 [of v], of 256] signed_fit_int [OF uint32 [of v], of 65536]
      signed_fit_int [OF uint32 [of v], of 16777216] unfolding sint32 by simp_all
  have ub: "unat v < 2 ^ 8 \<longleftrightarrow> uint v < 256" "unat v < 2 ^ 16 \<longleftrightarrow> uint v < 65536"
    "unat v < 2 ^ 24 \<longleftrightarrow> uint v < 16777216"
    using unat_less_uint [of v "2 ^ 8"] unat_less_uint [of v "2 ^ 16"] unat_less_uint [of v "2 ^ 24"]
    by simp_all
  have t: "cpsr s AND CPSR_T_BIT = 0" using assms by (simp add: cpsr_t_def)
  show ?thesis
    unfolding runtime_mul_cycles_def high_bytes signed_bytes_def unsigned_bytes_def sb ub
    by (simp add: t if_distrib [of word_of_nat] cong: if_cong split del: if_split)
qed

lemma word_0_bits: "(x :: u32) = 0 \<longleftrightarrow> (\<forall>m. \<not> bit x m)"
  by (auto intro: bit_eqI)

lemma byte_mask_bits: "v AND (push_bit k (mask n) :: u32) = 0 \<longleftrightarrow> (\<forall>m. k \<le> m \<and> m < k + n \<longrightarrow> \<not> bit v m)"
proof -
  have "bit (v AND (push_bit k (mask n) :: u32)) m \<longleftrightarrow> bit v m \<and> k \<le> m \<and> m < k + n" for m
    by (auto simp: bit_simps dest: bit_imp_le_length)
  then show ?thesis unfolding word_0_bits by blast
qed

lemma thumb_bytes:
  assumes "unat (v :: u32) < 2 ^ (k + 8)"
  shows "v AND push_bit k (mask 8) = 0 \<longleftrightarrow> unat v < 2 ^ k"
  using assms unfolding byte_mask_bits unat_less_pow2_bits by (meson not_le)

lemma mul_cycles_thumb:
  assumes "cpsr_t s"
  shows "runtime_mul_cycles ARM7 v sg extra s
    = (word_of_nat (unsigned_bytes v), s\<lparr>cpsr := cpsr s AND NOT CPSR_C_BIT\<rparr>)"
proof -
  have m: "(0xFF000000 :: u32) = push_bit 24 (mask 8)" "(0x00FF0000 :: u32) = push_bit 16 (mask 8)"
    "(0x0000FF00 :: u32) = push_bit 8 (mask 8)"
    by (simp_all add: mask_eq_exp_minus_1)
  have "unat v < 2 ^ 32" using unsigned_less [of v] by simp
  then have "v AND 0xFF000000 = 0 \<longleftrightarrow> unat v < 2 ^ 24"
    "unat v < 2 ^ 24 \<Longrightarrow> v AND 0x00FF0000 = 0 \<longleftrightarrow> unat v < 2 ^ 16"
    "unat v < 2 ^ 16 \<Longrightarrow> v AND 0x0000FF00 = 0 \<longleftrightarrow> unat v < 2 ^ 8"
    using thumb_bytes [of v 24] thumb_bytes [of v 16] thumb_bytes [of v 8] unfolding m by simp_all
  then show ?thesis
    using assms unfolding runtime_mul_cycles_def cpsr_t_def unsigned_bytes_def
    by (cases "unat v < 2 ^ 8"; cases "unat v < 2 ^ 16"; cases "unat v < 2 ^ 24") (simp_all add: Let_def)
qed

section \<open>Properties\<close>

text \<open>
  C27. The four barrel-shifter helpers are exact shifts of unbounded integers for every 32-bit
  shift amount, 32 and beyond included: LSL multiplies the unsigned value, LSR and ASR divide
  the unsigned and signed value rounding down, ROR rotates; the carry is the last bit shifted
  out, written only when the instruction sets flags and the amount is not zero.
\<close>

theorem shifter_exact:
  "arm_shift_lsl v n sc s =
     (word_of_int (uint v * 2 ^ unat n), set_c_if (sc \<and> n \<noteq> 0) (odd (uint v * 2 ^ unat n div 2 ^ 32)) s)
   \<and> arm_shift_lsr v n sc s =
     (word_of_int (uint v div 2 ^ unat n), set_c_if (sc \<and> n \<noteq> 0) (odd (uint v div 2 ^ (unat n - 1))) s)
   \<and> arm_shift_asr v n sc s =
     (word_of_int (sint v div 2 ^ unat n), set_c_if (sc \<and> n \<noteq> 0) (odd (sint v div 2 ^ (unat n - 1))) s)
   \<and> arm_shift_ror v n sc s =
     (word_rotr (unat n) v, set_c_if (sc \<and> n \<noteq> 0) (bit (word_rotr (unat n) v) 31) s)"
  by (intro conjI lsl_exact lsr_exact asr_exact ror_exact)

text \<open>
  C30. The arithmetic flag updaters, given the wrapped result the generated code passes them,
  leave N and Z of the result, C the exact unsigned carry (for subtraction: no borrow) and V
  the exact signed overflow, with the carry-in of ADC and SBC counted, and change nothing else.
\<close>

theorem arithmetic_flags_exact:
  fixes ci :: bool
  defines "k \<equiv> (if ci then 1 else 0 :: u32)"
  shows "flags_are (a + b) (2 ^ 32 \<le> uint a + uint b)
      (sint a + sint b \<notin> {- 2147483648..<2147483648}) s (arm_set_nzcv_add a b (a + b) s)
    \<and> flags_are (a + b + k) (2 ^ 32 \<le> uint a + uint b + of_bool ci)
      (sint a + sint b + of_bool ci \<notin> {- 2147483648..<2147483648}) s (arm_set_nzcv_adc a b k (a + b + k) s)
    \<and> flags_are (a - b) (uint b \<le> uint a)
      (sint a - sint b \<notin> {- 2147483648..<2147483648}) s (arm_set_nzcv_sub a b (a - b) s)
    \<and> flags_are (a - b - (1 - k)) (uint b + of_bool (\<not> ci) \<le> uint a)
      (sint a - sint b - of_bool (\<not> ci) \<notin> {- 2147483648..<2147483648}) s
      (arm_set_nzcv_sbc a b k (a - b - (1 - k)) s)"
proof -
  have k: "k \<in> {0, 1}" "uint k = of_bool ci" "1 - uint k = of_bool (\<not> ci)" by (auto simp: k_def)
  show ?thesis
    using add_flags [of a b s] sub_flags [of a b s] adc_flags [OF k(1), of a b s] sbc_flags [OF k(1), of a b s]
    unfolding k add_carry_def add_overflow_def sub_overflow_def by (cases ci) simp_all
qed

text \<open>
  After the flags of \<open>CMP a, b\<close> each of the sixteen condition fields evaluates to the
  comparison its name promises: equality, unsigned order (CS, CC, HI, LS), the sign and overflow
  of the difference, signed order (GE, LT, GT, LE), always (AL) and never (0xF).
\<close>

lemma conditions_after_compare:
  "arm_cond_passes cond (arm_set_nzcv_sub a b (a - b) s) \<longleftrightarrow> cond_meaning (unat (cond AND 0xF)) a b"
  by (rule cmp_cond_passes [OF refl])

text \<open>
  \<open>runtime_clz\<close> counts the leading zeros: the value fits in the remaining bits, and unless it
  is zero it needs every one of them.
\<close>

lemma clz_exact:
  "unat (runtime_clz v) \<le> 32 \<and> unat v < 2 ^ (32 - unat (runtime_clz v))
    \<and> (v = 0 \<or> 2 ^ (31 - unat (runtime_clz v)) \<le> unat v)"
proof (cases "v = 0")
  case False
  have "unat (runtime_clz v) = clz_from v 32"
    using False clz_from_le [of v 32] by (simp add: runtime_clz_def unat_of_nat)
  then show ?thesis using clz_bound [of v] clz_top [OF False] by simp
qed (simp add: runtime_clz_def)

text \<open>
  On the ARM7 a multiply takes one cycle for each byte its operand occupies (signed width in
  ARM state for the signed variants, unsigned otherwise) plus the given extra in ARM state; Thumb
  also clears the carry.  On the ARM9 it is one cycle and no state changes.
\<close>

lemma mul_cycles_by_operand_width:
  "runtime_mul_cycles ARM9 v sg extra s = (1, s)
   \<and> runtime_mul_cycles ARM7 v sg extra s =
      (if cpsr_t s then (word_of_nat (unsigned_bytes v), s\<lparr>cpsr := cpsr s AND NOT CPSR_C_BIT\<rparr>)
       else (word_of_nat (if sg then signed_bytes v else unsigned_bytes v) + extra, s))"
  using mul_cycles_arm [of s v sg extra] mul_cycles_thumb [of s v sg extra]
  by (auto simp: runtime_mul_cycles_def)

end
