(* ===== verification/CpuBanks.thy ===== *)
theory CpuBanks
  imports CpuAlu
begin

text \<open>
  Processor modes: PSR transfers, the banked registers, user-register access and the state half
  of exception entry and return, with the call-return stack of recompiled code
  (\<open>runner/src/runtime_arm.cpp\<close>).  The banked file is shown to keep every mode's private
  registers across any sequence of mode switches, and an exception taken and returned from is
  shown to leave the interrupted program's registers and CPSR untouched.
\<close>

section \<open>Modes and banks\<close>

definition mode_to_bank :: "u32 \<Rightarrow> bank" where
  "mode_to_bank mode =
    (let m = mode AND 0x1F in
     if m = 0x11 then BankFiq else if m = 0x12 then BankIrq
     else if m = 0x13 then BankSupervisor else if m = 0x17 then BankAbort
     else if m = 0x1B then BankUndefined else BankUser)"

text \<open>\<open>for (i = 0; i < 5; ++i) dst[i] = R[8 + i]\<close> and its inverse.\<close>

definition save_r8_12 :: "(nat \<Rightarrow> u32) \<Rightarrow> (nat \<Rightarrow> u32) \<Rightarrow> nat \<Rightarrow> u32" where
  "save_r8_12 r dst i = (if i < 5 then r (8 + i) else dst i)"

definition load_r8_12 :: "(nat \<Rightarrow> u32) \<Rightarrow> (nat \<Rightarrow> u32) \<Rightarrow> nat \<Rightarrow> u32" where
  "load_r8_12 src r i = (if 8 \<le> i \<and> i < 13 then src (i - 8) else r i)"

definition bank_out :: "bank \<Rightarrow> u32 \<Rightarrow> arm_cpu \<Rightarrow> arm_cpu" where
  "bank_out ob om s =
    (let s = s\<lparr>banked_sp := (banked_sp s)(ob := R s 13), banked_lr := (banked_lr s)(ob := R s 14)\<rparr> in
     if om AND 0x1F = 0x11 then s\<lparr>r8_12_fiq := save_r8_12 (R s) (r8_12_fiq s)\<rparr>
     else s\<lparr>r8_12_user := save_r8_12 (R s) (r8_12_user s)\<rparr>)"

definition bank_in :: "bank \<Rightarrow> u32 \<Rightarrow> arm_cpu \<Rightarrow> arm_cpu" where
  "bank_in nb nm s =
    (let s = s\<lparr>R := (R s)(13 := banked_sp s nb, 14 := banked_lr s nb)\<rparr> in
     if nm AND 0x1F = 0x11 then s\<lparr>R := load_r8_12 (r8_12_fiq s) (R s)\<rparr>
     else s\<lparr>R := load_r8_12 (r8_12_user s) (R s)\<rparr>)"

definition runtime_read_user_reg :: "u32 \<Rightarrow> arm_cpu \<Rightarrow> u32" where
  "runtime_read_user_reg reg s =
    (let r = unat (reg AND 15); mode = cpsr s AND 0x1F in
     if r < 8 \<or> r = 15 then R s r
     else if r < 13 then (if mode = 0x11 then r8_12_user s (r - 8) else R s r)
     else if mode = 0x10 \<or> mode = 0x1F then R s r
     else if r = 13 then banked_sp s BankUser else banked_lr s BankUser)"

definition runtime_write_user_reg :: "u32 \<Rightarrow> u32 \<Rightarrow> arm_cpu \<Rightarrow> arm_cpu" where
  "runtime_write_user_reg reg v s =
    (let r = unat (reg AND 15); mode = cpsr s AND 0x1F in
     if r < 8 \<or> r = 15 then s\<lparr>R := (R s)(r := v)\<rparr>
     else if r < 13 then
       (if mode = 0x11 then s\<lparr>r8_12_user := (r8_12_user s)(r - 8 := v)\<rparr> else s\<lparr>R := (R s)(r := v)\<rparr>)
     else if mode = 0x10 \<or> mode = 0x1F then s\<lparr>R := (R s)(r := v)\<rparr>
     else if r = 13 then s\<lparr>banked_sp := (banked_sp s)(BankUser := v)\<rparr>
     else s\<lparr>banked_lr := (banked_lr s)(BankUser := v)\<rparr>)"

definition runtime_mrs_cpsr :: "arm_cpu \<Rightarrow> u32" where "runtime_mrs_cpsr s = cpsr s"

definition runtime_mrs_spsr :: "arm_cpu \<Rightarrow> u32" where
  "runtime_mrs_spsr s = banked_spsr s (mode_to_bank (cpsr s))"

text \<open>The byte lanes an MSR field mask selects.\<close>

definition psr_lanes :: "u32 \<Rightarrow> u32" where
  "psr_lanes m =
    (let bw = 0;
         bw = (if m AND 1 \<noteq> 0 then bw OR 0xFF else bw);
         bw = (if m AND 2 \<noteq> 0 then bw OR 0xFF00 else bw);
         bw = (if m AND 4 \<noteq> 0 then bw OR 0xFF0000 else bw);
         bw = (if m AND 8 \<noteq> 0 then bw OR 0xFF000000 else bw) in bw)"

definition runtime_msr_cpsr :: "u32 \<Rightarrow> u32 \<Rightarrow> arm_cpu \<Rightarrow> arm_cpu" where
  "runtime_msr_cpsr value m s =
    (let bw = psr_lanes m;
         bw = (if cpsr s AND 0x1F = 0x10 then bw AND 0xFF000000 else bw);
         oc = cpsr s; nc = (oc AND NOT bw) OR (value AND bw);
         ob = mode_to_bank oc; nb = mode_to_bank nc;
         s = s\<lparr>cpsr := nc\<rparr> in
     if ob \<noteq> nb then bank_in nb nc (bank_out ob oc s) else s)"

definition runtime_msr_spsr :: "u32 \<Rightarrow> u32 \<Rightarrow> arm_cpu \<Rightarrow> arm_cpu" where
  "runtime_msr_spsr value m s =
    (let bank = mode_to_bank (cpsr s) in
     if bank = BankUser then s
     else let bw = psr_lanes m; old = banked_spsr s bank in
       s\<lparr>banked_spsr := (banked_spsr s)(bank := (old AND NOT bw) OR (value AND bw))\<rparr>)"

definition runtime_restore_cpsr_from_spsr :: "arm_cpu \<Rightarrow> arm_cpu" where
  "runtime_restore_cpsr_from_spsr s =
    (let oc = cpsr s; om = oc AND 0x1F in
     if om = 0x10 \<or> om = 0x1F then s
     else let ob = mode_to_bank oc; spsr = banked_spsr s ob;
              s = bank_out ob oc s; s = s\<lparr>cpsr := spsr\<rparr> in
       bank_in (mode_to_bank spsr) spsr s)"

definition runtime_exception_return :: "u32 \<Rightarrow> arm_cpu \<Rightarrow> arm_cpu" where
  "runtime_exception_return new_pc s =
    (let oc = cpsr s; om = oc AND 0x1F in
     if om = 0x10 \<or> om = 0x1F then s\<lparr>R := (R s)(15 := new_pc)\<rparr>
     else let ob = mode_to_bank oc; spsr = banked_spsr s ob;
              s = bank_out ob oc s; s = s\<lparr>cpsr := spsr\<rparr>;
              s = bank_in (mode_to_bank spsr) spsr s in
       s\<lparr>R := (R s)(15 := new_pc)\<rparr>)"

section \<open>Exception entry, the register half\<close>

text \<open>
  The statements \<open>runtime_swi\<close> and \<open>runtime_irq\<close> share between computing the new CPSR \<open>nc\<close> and
  the pipeline refill: bank switch, CPSR, SPSR, link register, vector.
\<close>

definition exception_entry :: "u32 \<Rightarrow> u32 \<Rightarrow> u32 \<Rightarrow> arm_cpu \<Rightarrow> arm_cpu" where
  "exception_entry nc ret vector s =
    (let saved = cpsr s; ob = mode_to_bank saved; nb = mode_to_bank nc;
         s = (if ob \<noteq> nb then bank_in nb nc (bank_out ob saved s) else s);
         s = s\<lparr>cpsr := nc\<rparr>;
         s = s\<lparr>banked_spsr := (banked_spsr s)(nb := saved)\<rparr>;
         s = s\<lparr>R := (R s)(14 := ret)\<rparr> in
     s\<lparr>R := (R s)(15 := vector)\<rparr>)"

definition swi_cpsr :: "u32 \<Rightarrow> u32" where
  "swi_cpsr saved = (saved AND NOT (0x1F OR CPSR_T_BIT)) OR 0x13 OR CPSR_I_BIT"

definition irq_cpsr :: "u32 \<Rightarrow> u32" where
  "irq_cpsr saved = (saved AND NOT 0xFF) OR 0xD2"

definition swi_entry :: "u32 \<Rightarrow> arm_cpu \<Rightarrow> arm_cpu" where
  "swi_entry base s = exception_entry (swi_cpsr (cpsr s)) (R s 15) (base + 0x08) s"

definition irq_entry :: "u32 \<Rightarrow> u32 \<Rightarrow> arm_cpu \<Rightarrow> arm_cpu" where
  "irq_entry base return_address s =
    exception_entry (irq_cpsr (cpsr s)) (return_address + 4) (base + 0x18) s"

section \<open>Call-return stack\<close>

text \<open>
  \<open>g_crs[0 .. g_crs_depth)\<close>, oldest return first.  A full stack keeps its newest half.
\<close>

definition kCRS :: nat where "kCRS = 16384"

definition crs_key :: "u32 \<Rightarrow> arm_cpu \<Rightarrow> u32" where
  "crs_key pc s = (pc AND NOT 1) OR (if cpsr s AND CPSR_T_BIT \<noteq> 0 then 1 else 0)"

definition runtime_call_push_return :: "u32 \<Rightarrow> arm_cpu \<Rightarrow> u32 list \<Rightarrow> u32 list" where
  "runtime_call_push_return return_pc s crs =
    (let crs = (if length crs \<ge> kCRS then drop (length crs - kCRS div 2) crs else crs) in
     crs @ [crs_key return_pc s])"

text \<open>\<open>for (i = depth; i != 0; --i) if (g_crs[i-1] == key) ...\<close>, returning the new depth.\<close>

fun crs_scan :: "u32 \<Rightarrow> u32 list \<Rightarrow> nat \<Rightarrow> nat option" where
  "crs_scan key crs 0 = None"
| "crs_scan key crs (Suc i) = (if crs ! i = key then Some i else crs_scan key crs i)"

definition runtime_call_should_return :: "u32 \<Rightarrow> arm_cpu \<Rightarrow> u32 list \<Rightarrow> bool \<times> u32 list" where
  "runtime_call_should_return target_pc s crs =
    (case crs_scan (crs_key target_pc s) crs (length crs) of
       Some i \<Rightarrow> (True, take i crs) | None \<Rightarrow> (False, crs))"

definition runtime_call_cancel_return :: "u32 \<Rightarrow> u32 list \<Rightarrow> u32 list" where
  "runtime_call_cancel_return return_pc crs =
    (if crs \<noteq> [] \<and> crs ! (length crs - 1) AND NOT 1 = return_pc AND NOT 1
     then take (length crs - 1) crs else crs)"

definition runtime_call_stack_restore :: "u32 list \<Rightarrow> nat \<Rightarrow> u32 list" where
  "runtime_call_stack_restore e d = take (min d kCRS) e"

section \<open>The architectural register file\<close>

text \<open>
  What the banking has to implement: one copy of every register of every mode.  The live copy of
  the current bank is in \<open>R\<close>, the others in the banked arrays.
\<close>

record arch_file =
  a_low :: "nat \<Rightarrow> u32"
  a_usr :: "nat \<Rightarrow> u32"
  a_fiq :: "nat \<Rightarrow> u32"
  a_sp :: "bank \<Rightarrow> u32"
  a_lr :: "bank \<Rightarrow> u32"
  a_spsr :: "bank \<Rightarrow> u32"
  a_pc :: u32

definition fiq_mode :: "u32 \<Rightarrow> bool" where "fiq_mode m \<longleftrightarrow> m AND 0x1F = 0x11"

definition arch :: "arm_cpu \<Rightarrow> arch_file" where
  "arch s = \<lparr>a_low = (\<lambda>i. if i < 8 then R s i else 0),
     a_usr = (\<lambda>i. if i < 5 then (if fiq_mode (cpsr s) then r8_12_user s i else R s (8 + i)) else 0),
     a_fiq = (\<lambda>i. if i < 5 then (if fiq_mode (cpsr s) then R s (8 + i) else r8_12_fiq s i) else 0),
     a_sp = (banked_sp s)(mode_to_bank (cpsr s) := R s 13),
     a_lr = (banked_lr s)(mode_to_bank (cpsr s) := R s 14),
     a_spsr = banked_spsr s, a_pc = R s 15\<rparr>"

text \<open>The register a program in the mode of \<open>m\<close> sees under number \<open>i\<close>.\<close>

definition arch_read :: "arch_file \<Rightarrow> u32 \<Rightarrow> nat \<Rightarrow> u32" where
  "arch_read a m i =
    (if i < 8 then a_low a i
     else if i < 13 then (if fiq_mode m then a_fiq a (i - 8) else a_usr a (i - 8))
     else if i = 13 then a_sp a (mode_to_bank m) else if i = 14 then a_lr a (mode_to_bank m) else a_pc a)"

lemma bank_fiq: "mode_to_bank m = BankFiq \<longleftrightarrow> fiq_mode m"
  by (simp add: mode_to_bank_def fiq_mode_def Let_def)

lemma arch_read_R: "i < 16 \<Longrightarrow> arch_read (arch s) (cpsr s) i = R s i"
proof -
  assume "i < 16"
  then consider "i < 8" | "8 \<le> i" "i < 13" | "i = 13" | "i = 14" | "i = 15" by linarith
  then show ?thesis
  proof cases
    case 2
    then have "i - 8 < 5" "8 + (i - 8) = i" by linarith+
    with 2 show ?thesis by (simp add: arch_def arch_read_def)
  qed (simp_all add: arch_def arch_read_def)
qed

lemma cpsr_bank_moves [simp]: "cpsr (bank_out ob om s) = cpsr s" "cpsr (bank_in nb nm s) = cpsr s"
  by (simp_all add: bank_out_def bank_in_def Let_def)

text \<open>Saving the old bank, installing the new CPSR and loading the new bank keeps the file.\<close>

lemma bank_switch_arch:
  "arch (bank_in (mode_to_bank nc) nc ((bank_out (mode_to_bank (cpsr s)) (cpsr s) s)\<lparr>cpsr := nc\<rparr>)) = arch s"
  by (auto simp: arch_def bank_in_def bank_out_def Let_def save_r8_12_def load_r8_12_def fiq_mode_def
      fun_eq_iff)

lemma bank_moves_cpsr_update:
  "bank_out ob om (s\<lparr>cpsr := c\<rparr>) = (bank_out ob om s)\<lparr>cpsr := c\<rparr>"
  "bank_in ob om (s\<lparr>cpsr := c\<rparr>) = (bank_in ob om s)\<lparr>cpsr := c\<rparr>"
  by (simp_all add: bank_out_def bank_in_def Let_def)

lemma arch_same_bank:
  "mode_to_bank nc = mode_to_bank (cpsr s) \<Longrightarrow> arch (s\<lparr>cpsr := nc\<rparr>) = arch s"
  using bank_fiq [of nc] bank_fiq [of "cpsr s"] by (auto simp: arch_def fun_eq_iff)

definition msr_value :: "u32 \<Rightarrow> u32 \<Rightarrow> u32 \<Rightarrow> u32" where
  "msr_value oc value m =
    (let bw = (if oc AND 0x1F = 0x10 then psr_lanes m AND 0xFF000000 else psr_lanes m) in
     (oc AND NOT bw) OR (value AND bw))"

lemma msr_cpsr_arch:
  "arch (runtime_msr_cpsr value m s) = arch s" "cpsr (runtime_msr_cpsr value m s) = msr_value (cpsr s) value m"
proof -
  have *: "runtime_msr_cpsr value m s =
    (if mode_to_bank (cpsr s) \<noteq> mode_to_bank (msr_value (cpsr s) value m)
     then bank_in (mode_to_bank (msr_value (cpsr s) value m)) (msr_value (cpsr s) value m)
       ((bank_out (mode_to_bank (cpsr s)) (cpsr s) s)\<lparr>cpsr := msr_value (cpsr s) value m\<rparr>)
     else s\<lparr>cpsr := msr_value (cpsr s) value m\<rparr>)"
    by (simp only: runtime_msr_cpsr_def msr_value_def Let_def bank_moves_cpsr_update)
  show "arch (runtime_msr_cpsr value m s) = arch s"
    unfolding * by (simp add: bank_switch_arch arch_same_bank)
  show "cpsr (runtime_msr_cpsr value m s) = msr_value (cpsr s) value m"
    unfolding * by simp
qed

lemma exception_entry_arch:
  assumes nc: "nc = c"
  shows "arch (exception_entry nc ret vector s) =
      (arch s)\<lparr>a_lr := (a_lr (arch s))(mode_to_bank nc := ret),
        a_spsr := (a_spsr (arch s))(mode_to_bank nc := cpsr s), a_pc := vector\<rparr>"
    "cpsr (exception_entry nc ret vector s) = nc"
proof -
  let ?b = "if mode_to_bank (cpsr s) \<noteq> mode_to_bank nc
      then bank_in (mode_to_bank nc) nc ((bank_out (mode_to_bank (cpsr s)) (cpsr s) s)\<lparr>cpsr := nc\<rparr>)
      else s\<lparr>cpsr := nc\<rparr>"
  have e: "exception_entry nc ret vector s =
      ?b\<lparr>banked_spsr := (banked_spsr ?b)(mode_to_bank nc := cpsr s),
         R := (R ?b)(14 := ret, 15 := vector)\<rparr>"
    by (simp add: exception_entry_def Let_def bank_moves_cpsr_update)
  have a: "arch ?b = arch s" "cpsr ?b = nc" by (auto simp: bank_switch_arch arch_same_bank)
  have "arch (t\<lparr>banked_spsr := (banked_spsr t)(mode_to_bank (cpsr t) := q), R := (R t)(14 := ret, 15 := vector)\<rparr>)
      = (arch t)\<lparr>a_lr := (a_lr (arch t))(mode_to_bank (cpsr t) := ret),
        a_spsr := (a_spsr (arch t))(mode_to_bank (cpsr t) := q), a_pc := vector\<rparr>" for t q
    by (simp add: arch_def fun_eq_iff)
  from this [of ?b "cpsr s"] show "arch (exception_entry nc ret vector s) =
      (arch s)\<lparr>a_lr := (a_lr (arch s))(mode_to_bank nc := ret),
        a_spsr := (a_spsr (arch s))(mode_to_bank nc := cpsr s), a_pc := vector\<rparr>"
    unfolding e a .
  show "cpsr (exception_entry nc ret vector s) = nc" unfolding e using a(2) by simp
qed

lemma exception_return_arch:
  assumes "cpsr s AND 0x1F \<notin> {0x10, 0x1F}"
  shows "arch (runtime_exception_return pc s) = (arch s)\<lparr>a_pc := pc\<rparr>"
    "cpsr (runtime_exception_return pc s) = a_spsr (arch s) (mode_to_bank (cpsr s))"
proof -
  let ?c = "banked_spsr s (mode_to_bank (cpsr s))"
  let ?b = "bank_in (mode_to_bank ?c) ?c ((bank_out (mode_to_bank (cpsr s)) (cpsr s) s)\<lparr>cpsr := ?c\<rparr>)"
  have e: "runtime_exception_return pc s = ?b\<lparr>R := (R ?b)(15 := pc)\<rparr>"
    using assms by (simp add: runtime_exception_return_def Let_def)
  have "arch (t\<lparr>R := (R t)(15 := pc)\<rparr>) = (arch t)\<lparr>a_pc := pc\<rparr>" for t
    by (simp add: arch_def fun_eq_iff)
  from this [of ?b] show "arch (runtime_exception_return pc s) = (arch s)\<lparr>a_pc := pc\<rparr>"
    unfolding e bank_switch_arch .
  show "cpsr (runtime_exception_return pc s) = a_spsr (arch s) (mode_to_bank (cpsr s))"
    unfolding e by (simp add: arch_def)
qed

lemma user_mode_bank: "m AND 0x1F \<in> {0x10, 0x1F} \<Longrightarrow> mode_to_bank m = BankUser"
  by (auto simp: mode_to_bank_def Let_def)

definition valid_mode :: "u32 \<Rightarrow> bool" where
  "valid_mode m \<longleftrightarrow> m AND 0x1F \<in> {0x10, 0x11, 0x12, 0x13, 0x17, 0x1B, 0x1F}"

lemma valid_user: "valid_mode m \<Longrightarrow> mode_to_bank m = BankUser \<longleftrightarrow> m AND 0x1F = 0x10 \<or> m AND 0x1F = 0x1F"
  by (auto simp: valid_mode_def mode_to_bank_def Let_def)

lemma reg_cases: "unat (r AND 15 :: u32) < 16"
  by (rule unat_and_less) simp

lemma read_user_arch:
  assumes "valid_mode (cpsr s)"
  shows "runtime_read_user_reg r s = arch_read (arch s) 0x10 (unat (r AND 15))"
proof -
  have f: "\<not> fiq_mode 0x10" "mode_to_bank 0x10 = BankUser" by (simp_all add: fiq_mode_def mode_to_bank_def)
  let ?k = "unat (r AND 15)"
  note u = valid_user [OF assms] bank_fiq [of "cpsr s"]
  note d = runtime_read_user_reg_def arch_read_def arch_def f Let_def fiq_mode_def
  have "?k < 8 \<or> 8 \<le> ?k \<and> ?k < 13 \<or> ?k = 13 \<or> ?k = 14 \<or> ?k = 15"
    using reg_cases [of r] by linarith
  then consider "?k < 8" | "8 \<le> ?k" "?k < 13" | "?k = 13" | "?k = 14" | "?k = 15" by blast
  then show ?thesis
  proof cases
    case 2
    then have "?k - 8 < 5" "8 + (?k - 8) = ?k" by linarith+
    with 2 show ?thesis by (simp add: d)
  next
    case 3
    with u show ?thesis by (auto simp: d)
  next
    case 4
    with u show ?thesis by (auto simp: d)
  qed (simp_all add: d)
qed

section \<open>Call-return stack facts\<close>

lemma crs_scan_Some:
  "crs_scan key crs n = Some i \<Longrightarrow> i < n \<and> crs ! i = key \<and> (\<forall>j. i < j \<and> j < n \<longrightarrow> crs ! j \<noteq> key)"
  by (induction key crs n rule: crs_scan.induct) (auto simp: less_Suc_eq split: if_splits)

lemma crs_scan_None: "crs_scan key crs n = None \<longleftrightarrow> (\<forall>j<n. crs ! j \<noteq> key)"
  by (induction key crs n rule: crs_scan.induct) (auto simp: less_Suc_eq)

lemma should_return_cases:
  "runtime_call_should_return pc s crs = (b, crs') \<Longrightarrow>
    (if b then \<exists>i<length crs. crs ! i = crs_key pc s \<and> crs' = take i crs \<and> crs_key pc s \<notin> set (drop (Suc i) crs)
     else crs' = crs \<and> crs_key pc s \<notin> set crs)"
  by (force simp: runtime_call_should_return_def crs_scan_None in_set_conv_nth split: option.splits
      dest: crs_scan_Some)

lemma should_return_last:
  "runtime_call_should_return pc s (crs @ [crs_key pc s]) = (True, crs)"
  by (simp add: runtime_call_should_return_def nth_append)

definition arch_write_usr :: "nat \<Rightarrow> u32 \<Rightarrow> arch_file \<Rightarrow> arch_file" where
  "arch_write_usr i v a =
    (if i < 8 then a\<lparr>a_low := (a_low a)(i := v)\<rparr> else if i < 13 then a\<lparr>a_usr := (a_usr a)(i - 8 := v)\<rparr>
     else if i = 13 then a\<lparr>a_sp := (a_sp a)(BankUser := v)\<rparr> else if i = 14 then a\<lparr>a_lr := (a_lr a)(BankUser := v)\<rparr>
     else a\<lparr>a_pc := v\<rparr>)"

lemma write_usr_parts:
  "k < 8 \<Longrightarrow> arch (s\<lparr>R := (R s)(k := v)\<rparr>) = (arch s)\<lparr>a_low := (a_low (arch s))(k := v)\<rparr>"
  "8 \<le> k \<Longrightarrow> k < 13 \<Longrightarrow> \<not> fiq_mode (cpsr s) \<Longrightarrow>
     arch (s\<lparr>R := (R s)(k := v)\<rparr>) = (arch s)\<lparr>a_usr := (a_usr (arch s))(k - 8 := v)\<rparr>"
  "8 \<le> k \<Longrightarrow> k < 13 \<Longrightarrow> fiq_mode (cpsr s) \<Longrightarrow>
     arch (s\<lparr>r8_12_user := (r8_12_user s)(k - 8 := v)\<rparr>) = (arch s)\<lparr>a_usr := (a_usr (arch s))(k - 8 := v)\<rparr>"
  "arch (s\<lparr>R := (R s)(13 := v)\<rparr>) = (arch s)\<lparr>a_sp := (a_sp (arch s))(mode_to_bank (cpsr s) := v)\<rparr>"
  "arch (s\<lparr>R := (R s)(14 := v)\<rparr>) = (arch s)\<lparr>a_lr := (a_lr (arch s))(mode_to_bank (cpsr s) := v)\<rparr>"
  "arch (s\<lparr>R := (R s)(15 := v)\<rparr>) = (arch s)\<lparr>a_pc := v\<rparr>"
  "mode_to_bank (cpsr s) \<noteq> BankUser \<Longrightarrow> arch (s\<lparr>banked_sp := (banked_sp s)(BankUser := v)\<rparr>)
     = (arch s)\<lparr>a_sp := (a_sp (arch s))(BankUser := v)\<rparr>"
  "mode_to_bank (cpsr s) \<noteq> BankUser \<Longrightarrow> arch (s\<lparr>banked_lr := (banked_lr s)(BankUser := v)\<rparr>)
     = (arch s)\<lparr>a_lr := (a_lr (arch s))(BankUser := v)\<rparr>"
proof goal_cases
  case 1
  then have "(8 + i = k) = False" for i by simp
  with 1 show ?case by (auto simp: arch_def fun_eq_iff)
next
  case 2
  then have "(8 + i = k) = (i = k - 8)" "k - 8 < 5" for i by auto
  with 2 show ?case by (auto simp: arch_def fun_eq_iff)
next
  case 3
  then have "k - 8 < 5" by linarith
  with 3 show ?case by (auto simp: arch_def fun_eq_iff)
qed (auto simp: arch_def fun_eq_iff)

lemma write_user_arch:
  assumes "valid_mode (cpsr s)"
  shows "arch (runtime_write_user_reg r v s) = arch_write_usr (unat (r AND 15)) v (arch s)"
proof -
  define k where "k = unat (r AND 15)"
  have lt: "k < 16" unfolding k_def by (rule reg_cases)
  note u = valid_user [OF assms] bank_fiq [of "cpsr s"]
  have w: "runtime_write_user_reg r v s = (if k < 8 \<or> k = 15 then s\<lparr>R := (R s)(k := v)\<rparr>
     else if k < 13 then
       (if fiq_mode (cpsr s) then s\<lparr>r8_12_user := (r8_12_user s)(k - 8 := v)\<rparr> else s\<lparr>R := (R s)(k := v)\<rparr>)
     else if mode_to_bank (cpsr s) = BankUser then s\<lparr>R := (R s)(k := v)\<rparr>
     else if k = 13 then s\<lparr>banked_sp := (banked_sp s)(BankUser := v)\<rparr>
     else s\<lparr>banked_lr := (banked_lr s)(BankUser := v)\<rparr>)"
    unfolding u by (simp add: runtime_write_user_reg_def k_def Let_def fiq_mode_def)
  consider "k < 8" | "8 \<le> k" "k < 13" | "k = 13" | "k = 14" | "k = 15" using lt by linarith
  then show ?thesis unfolding w k_def [symmetric]
    by cases (simp_all add: write_usr_parts arch_write_usr_def)
qed

section \<open>Properties\<close>

text \<open>
  C35. The banked register file refines one register per mode: any sequence of MSR CPSR writes
  leaves every mode's registers unchanged and only selects which of them the program sees, so a
  sequence that ends with the CPSR it began with leaves all sixteen visible registers as they were.
\<close>

theorem mode_switches_keep_registers:
  fixes ops :: "(u32 \<times> u32) list" and s :: arm_cpu
  defines "t \<equiv> fold (\<lambda>(v, m). runtime_msr_cpsr v m) ops s"
  shows "arch t = arch s \<and> (\<forall>i. i \<in> {..<16} \<longrightarrow> R t i = arch_read (arch s) (cpsr t) i)
    \<and> (cpsr t = cpsr s \<longrightarrow> (\<forall>i. i \<in> {..<16} \<longrightarrow> R t i = R s i))"
proof -
  have "arch (fold (\<lambda>(v, m). runtime_msr_cpsr v m) ops s) = arch s"
    by (induction ops arbitrary: s) (auto simp: msr_cpsr_arch)
  then have a: "arch t = arch s" by (simp add: t_def)
  moreover have "R t i = arch_read (arch s) (cpsr t) i" if "i < 16" for i
    using arch_read_R [OF that, of t] a by simp
  moreover have "R t i = R s i" if "cpsr t = cpsr s" "i < 16" for i
    using arch_read_R [OF that(2), of t] arch_read_R [OF that(2), of s] a that(1) by simp
  ultimately show ?thesis by simp
qed

lemma mode_switches_keep_registers_witness:
  fixes s :: arm_cpu
  defines "s \<equiv> \<lparr>R = (\<lambda>i. word_of_nat (i + 1)), cpsr = 0x1F, banked_sp = (\<lambda>_. 7), banked_lr = (\<lambda>_. 9),
    banked_spsr = (\<lambda>_. 0), r8_12_user = (\<lambda>_. 0), r8_12_fiq = (\<lambda>i. word_of_nat (100 + i))\<rparr>"
  shows "R (fold (\<lambda>(v, m). runtime_msr_cpsr v m) [(0xD1, 1), (0x1F, 1)] s) 13 = 14"
proof -
  have "cpsr (fold (\<lambda>(v, m). runtime_msr_cpsr v m) [(0xD1, 1), (0x1F, 1)] s) = cpsr s"
    by (simp add: msr_cpsr_arch msr_value_def psr_lanes_def s_def)
  then have "R (fold (\<lambda>(v, m). runtime_msr_cpsr v m) [(0xD1, 1), (0x1F, 1)] s) 13 = R s 13"
    using mode_switches_keep_registers [of "[(0xD1, 1), (0x1F, 1)]" s] by (metis (no_types, lifting) lessThan_iff numeral_less_iff semiring_norm(76,78,80,81))
  then show ?thesis by (simp only: s_def arm_cpu.simps) simp
qed

text \<open>
  What a handler may do between an exception's entry and its return: anything that leaves it in
  the exception's mode and gives the interrupted program's registers back; its own stack pointer,
  link register and program counter are free.
\<close>

definition handler_frame :: "bank \<Rightarrow> arm_cpu \<Rightarrow> arm_cpu \<Rightarrow> bool" where
  "handler_frame b e t \<longleftrightarrow> mode_to_bank (cpsr t) = b \<and>
     arch t = (arch e)\<lparr>a_sp := (a_sp (arch e))(b := a_sp (arch t) b), a_lr := (a_lr (arch e))(b := a_lr (arch t) b),
       a_pc := a_pc (arch t)\<rparr>"

lemma exception_round_trip_gen:
  assumes nc: "mode_to_bank nc = b" "b \<noteq> BankUser" and s: "mode_to_bank (cpsr s) \<noteq> b"
    and h: "handler_frame b (exception_entry nc ret vector s) t"
  shows "cpsr (runtime_exception_return pc t) = cpsr s" "R (runtime_exception_return pc t) 15 = pc"
    "i < 15 \<Longrightarrow> R (runtime_exception_return pc t) i = R s i"
proof -
  let ?u = "runtime_exception_return pc t"
  have m: "cpsr t AND 0x1F \<notin> {0x10, 0x1F}"
    using h nc user_mode_bank [of "cpsr t"] by (auto simp: handler_frame_def)
  note e = exception_entry_arch [OF refl, of nc ret vector s]
  have "a_spsr (arch t) = a_spsr (arch (exception_entry nc ret vector s))"
    using arg_cong [where f = a_spsr, OF conjunct2 [OF h [unfolded handler_frame_def]]] by simp
  then show c: "cpsr ?u = cpsr s"
    unfolding exception_return_arch(2) [OF m] using h e nc by (simp add: handler_frame_def)
  obtain x y z where t: "arch t = (arch (exception_entry nc ret vector s))
      \<lparr>a_sp := (a_sp (arch (exception_entry nc ret vector s)))(b := x),
        a_lr := (a_lr (arch (exception_entry nc ret vector s)))(b := y), a_pc := z\<rparr>"
    using h unfolding handler_frame_def by blast
  have a: "a_low (arch ?u) = a_low (arch s)" "a_usr (arch ?u) = a_usr (arch s)" "a_fiq (arch ?u) = a_fiq (arch s)"
    "a_lr (arch ?u) (mode_to_bank (cpsr s)) = a_lr (arch s) (mode_to_bank (cpsr s))"
    "a_sp (arch ?u) (mode_to_bank (cpsr s)) = a_sp (arch s) (mode_to_bank (cpsr s))"
    "a_pc (arch ?u) = pc"
    unfolding exception_return_arch(1) [OF m] t e using nc s by simp_all
  have r: "R ?u i = arch_read (arch ?u) (cpsr s) i" if "i < 16" for i
    using arch_read_R [OF that, of ?u] by (simp add: c)
  show "R ?u 15 = pc" using r [of 15] a(6) by (simp add: arch_read_def)
  show "R ?u i = R s i" if "i < 15"
  proof -
    have "R ?u i = arch_read (arch ?u) (cpsr s) i" using that by (intro r) simp
    also have "\<dots> = arch_read (arch s) (cpsr s) i" using that by (simp add: arch_read_def a)
    also have "\<dots> = R s i" using that by (intro arch_read_R) simp
    finally show ?thesis .
  qed
qed

lemma mode_masks:
  "(0x1F :: u32) = 1 OR (2 OR (4 OR (8 OR 0x10)))" "(0x13 :: u32) = 1 OR (2 OR 0x10)"
  "(0xD2 :: u32) = 2 OR (0x10 OR (0x40 OR 0x80))" "(0x12 :: u32) = 2 OR 0x10"
  "(0xFF :: u32) = 1 OR (2 OR (4 OR (8 OR (0x10 OR (0x20 OR (0x40 OR 0x80))))))"
  by simp_all

lemma entry_modes: "swi_cpsr c AND 0x1F = 0x13" "irq_cpsr c AND 0x1F = 0x12"
  unfolding swi_cpsr_def irq_cpsr_def mode_masks
  by (rule bit_word_eqI; simp only: bit_and_iff bit_or_iff bit_not_iff bitlits; auto)+

lemma entry_banks: "mode_to_bank (swi_cpsr c) = BankSupervisor" "mode_to_bank (irq_cpsr c) = BankIrq"
  using entry_modes [of c] by (simp_all add: mode_to_bank_def)

text \<open>
  C34. Returning from a software interrupt or an IRQ restores the interrupted program: when the
  handler ends in the exception's mode with the program's registers given back, the exception
  return puts back the CPSR and registers 0 to 14 and jumps to the given address, whatever the
  handler did to its own stack pointer, link register and program counter.
\<close>

theorem exception_return_restores:
  assumes "mode_to_bank (cpsr s) \<noteq> BankSupervisor \<and> handler_frame BankSupervisor (swi_entry base s) t
      \<or> mode_to_bank (cpsr s) \<noteq> BankIrq \<and> handler_frame BankIrq (irq_entry base ra s) t"
  shows "cpsr (runtime_exception_return pc t) = cpsr s \<and> R (runtime_exception_return pc t) 15 = pc
    \<and> (\<forall>i. i \<in> {..<15} \<longrightarrow> R (runtime_exception_return pc t) i = R s i)"
  using assms
  unfolding swi_entry_def irq_entry_def
  by (elim disjE conjE)
    (simp_all add: exception_round_trip_gen [OF entry_banks(1), of s] exception_round_trip_gen [OF entry_banks(2), of s])

text \<open>
  In every valid mode the S-bit LDM/STM helpers read and write the User-mode register of the
  given number: the read is the User view of the architectural file, and the write changes that
  register and no other register of any mode.
\<close>

lemma user_register_access:
  assumes "valid_mode (cpsr s)"
  shows "runtime_read_user_reg r s = arch_read (arch s) 0x10 (unat (r AND 15))
    \<and> arch (runtime_write_user_reg r v s) = arch_write_usr (unat (r AND 15)) v (arch s)
    \<and> runtime_read_user_reg r (runtime_write_user_reg r v s) = v"
proof -
  have "cpsr (runtime_write_user_reg r v s) = cpsr s"
    by (simp add: runtime_write_user_reg_def Let_def)
  then have "runtime_read_user_reg r (runtime_write_user_reg r v s)
      = arch_read (arch_write_usr (unat (r AND 15)) v (arch s)) 0x10 (unat (r AND 15))"
    using read_user_arch [of "runtime_write_user_reg r v s" r] write_user_arch [OF assms] assms by simp
  also have "\<dots> = v"
    by (auto simp: arch_read_def arch_write_usr_def fiq_mode_def mode_to_bank_def Let_def)
  finally show ?thesis using read_user_arch [OF assms] write_user_arch [OF assms] by blast
qed

lemma exception_return_restores_witness:
  fixes s :: arm_cpu
  defines "s \<equiv> \<lparr>R = (\<lambda>i. word_of_nat (i + 1)), cpsr = 0x1F, banked_sp = (\<lambda>_. 7), banked_lr = (\<lambda>_. 9),
    banked_spsr = (\<lambda>_. 0), r8_12_user = (\<lambda>_. 0), r8_12_fiq = (\<lambda>i. word_of_nat (100 + i))\<rparr>"
  shows "cpsr (runtime_exception_return 0x2000000 (swi_entry 0xFFFF0000 s)) = 0x1F"
proof -
  have "mode_to_bank (cpsr s) \<noteq> BankSupervisor" by (simp add: s_def mode_to_bank_def)
  moreover have "handler_frame BankSupervisor (swi_entry 0xFFFF0000 s) (swi_entry 0xFFFF0000 s)"
    by (simp add: handler_frame_def swi_entry_def exception_entry_arch(2) [OF refl] entry_banks)
  ultimately show ?thesis
    using exception_return_restores [of s "0xFFFF0000" "swi_entry 0xFFFF0000 s" 0 "0x2000000"] by (simp add: s_def)
qed

lemma user_register_access_witness:
  fixes s :: arm_cpu
  defines "s \<equiv> \<lparr>R = (\<lambda>i. word_of_nat (i + 1)), cpsr = 0xD1, banked_sp = (\<lambda>_. 7), banked_lr = (\<lambda>_. 9),
    banked_spsr = (\<lambda>_. 0), r8_12_user = (\<lambda>_. 0), r8_12_fiq = (\<lambda>i. word_of_nat (100 + i))\<rparr>"
  shows "runtime_read_user_reg 9 (runtime_write_user_reg 9 0xABCD s) = 0xABCD"
proof -
  have "valid_mode (cpsr s)" by (simp add: s_def valid_mode_def)
  then show ?thesis using user_register_access [of s] by blast
qed

text \<open>
  The call-return stack: a return that immediately follows its call is recognised and pops
  exactly that call; a return that is recognised pops to the newest pending call of that address
  and instruction set, discarding only calls that do not match; one that is not recognised is in
  no pending call and changes nothing; and no operation exceeds the capacity.
\<close>

lemma call_return_stack:
  fixes crs :: "u32 list" and s :: arm_cpu and pc :: u32
  defines "kept \<equiv> (if length crs < kCRS then crs else drop (length crs - kCRS div 2) crs)"
  shows "runtime_call_should_return pc s (runtime_call_push_return pc s crs) = (True, kept)
    \<and> (case runtime_call_should_return pc s crs of
         (True, crs') \<Rightarrow> (\<exists>i<length crs. crs ! i = crs_key pc s \<and> crs' = take i crs
            \<and> crs_key pc s \<notin> set (drop (Suc i) crs))
       | (False, crs') \<Rightarrow> crs' = crs \<and> crs_key pc s \<notin> set crs)
    \<and> length (runtime_call_push_return pc s crs) \<le> kCRS
    \<and> length (runtime_call_stack_restore crs d) \<le> kCRS
    \<and> length (snd (runtime_call_should_return pc s crs)) \<le> length crs
    \<and> length (runtime_call_cancel_return pc crs) \<le> length crs"
proof -
  have p: "runtime_call_push_return pc s crs = kept @ [crs_key pc s]"
    by (simp add: runtime_call_push_return_def kept_def Let_def)
  have c: "case runtime_call_should_return pc s crs of
       (True, crs') \<Rightarrow> (\<exists>i<length crs. crs ! i = crs_key pc s \<and> crs' = take i crs
          \<and> crs_key pc s \<notin> set (drop (Suc i) crs))
     | (False, crs') \<Rightarrow> crs' = crs \<and> crs_key pc s \<notin> set crs"
    using should_return_cases [of pc s crs] by (cases "runtime_call_should_return pc s crs") (auto split: bool.splits)
  have "length (snd (runtime_call_should_return pc s crs)) \<le> length crs"
    by (auto simp: runtime_call_should_return_def split: option.splits)
  with c show ?thesis unfolding p should_return_last
    by (auto simp: runtime_call_stack_restore_def runtime_call_cancel_return_def kept_def kCRS_def)
qed

end
