(* ===== verification/Runtime.thy ===== *)
theory Runtime
  imports CpuBanks
begin

text \<open>
  The per-instruction machinery of the runner (\<open>runner/src/runtime_arm.cpp\<close>,
  \<open>recompiler/armv4t/runtime_arm.h\<close>) with the interrupt controller and HALT state it polls
  (\<open>runner/src/io.cpp\<close>): the guest clock, tick and IRQ delivery, the yield scan, the published
  deadline that lets both be skipped, and every site that re-arms it.  Omitted: trace rings,
  profiling and dispatch statistics, and the debug server's event counters; the two stop flags
  those counters raise are part of the state.
\<close>

section \<open>State\<close>

text \<open>\<open>DmaChannel\<close>; \<open>src_inc\<close> and \<open>dst_inc\<close> are the \<open>int32_t\<close> values -1, 0, 1.\<close>

record dma_channel =
  d_src :: u32
  d_dst :: u32
  d_cnt :: u32
  d_cur_src :: u32
  d_cur_dst :: u32
  d_remaining :: u32
  d_src_inc :: int
  d_dst_inc :: int
  d_start_mode :: u8
  d_burst_index :: u16
  d_running :: bool
  d_in_progress :: bool
  d_burst_start :: bool

text \<open>
  \<open>StaticExecutionGuard\<close>: the validation record of the executing native function, the pages it
  covers with the generation each was validated at, and the invalidation flag.
\<close>

record exec_guard =
  guard_validation :: "nat option"
  guard_pages :: "(u32 \<times> u32) list"
  guard_invalidated :: bool

record rt =
  g_nds_active :: nds_cpu
  g_cpu :: arm_cpu
  g_runtime_cycles :: u64
  g_nds_fast_limit :: u64
  g_cycle_cap :: u64
  g_deferred_cycles :: u32
  g_yield_poll_hint :: bool
  g_cycle_fast_limit_enabled :: bool
  g_cpu_fast_poll :: bool
  g_runtime_break_pc :: u32
  g_nds_terminal :: bool
  g_nds_unwinding :: bool
  g_preserved_unwind_state :: "arm_cpu option"
  g_static_guard :: "exec_guard option"
  g_nds_insn_stop :: bool
  g_brk_hit :: bool
  g_cpu_halted :: "nds_cpu \<Rightarrow> bool"
  g_halt_entry_cycle :: "nds_cpu \<Rightarrow> u64"
  g_dma :: "nds_cpu \<Rightarrow> nat \<Rightarrow> dma_channel"
  g_dma_entry_cycle :: "nds_cpu \<Rightarrow> u64"
  g_ime :: "nds_cpu \<Rightarrow> u32"
  g_ie :: "nds_cpu \<Rightarrow> u32"
  g_if :: "nds_cpu \<Rightarrow> u32"
  g_nds_irq_pending_cache :: "nds_cpu \<Rightarrow> u32"
  exc_base :: "nds_cpu \<Rightarrow> u32"

text \<open>The globals' initial values.\<close>

definition rt_initial :: rt where
  "rt_initial = \<lparr>g_nds_active = ARM9,
    g_cpu = \<lparr>R = (\<lambda>_. 0), cpsr = 0, banked_sp = (\<lambda>_. 0), banked_lr = (\<lambda>_. 0), banked_spsr = (\<lambda>_. 0),
      r8_12_user = (\<lambda>_. 0), r8_12_fiq = (\<lambda>_. 0)\<rparr>,
    g_runtime_cycles = 0, g_nds_fast_limit = 0, g_cycle_cap = 0, g_deferred_cycles = 0,
    g_yield_poll_hint = True, g_cycle_fast_limit_enabled = True, g_cpu_fast_poll = True,
    g_runtime_break_pc = 0, g_nds_terminal = False, g_nds_unwinding = False,
    g_preserved_unwind_state = None, g_static_guard = None, g_nds_insn_stop = False, g_brk_hit = False,
    g_cpu_halted = (\<lambda>_. False), g_halt_entry_cycle = (\<lambda>_. 0),
    g_dma = (\<lambda>_ _. \<lparr>d_src = 0, d_dst = 0, d_cnt = 0, d_cur_src = 0, d_cur_dst = 0, d_remaining = 0,
      d_src_inc = 1, d_dst_inc = 1, d_start_mode = 0, d_burst_index = 0, d_running = False,
      d_in_progress = False, d_burst_start = False\<rparr>),
    g_dma_entry_cycle = (\<lambda>_. 0), g_ime = (\<lambda>_. 0), g_ie = (\<lambda>_. 0), g_if = (\<lambda>_. 0),
    g_nds_irq_pending_cache = (\<lambda>_. 0), exc_base = (\<lambda>_. 0)\<rparr>"

section \<open>Re-arm funnel and interrupt controller\<close>

definition request_yield_poll :: "'a rt_scheme \<Rightarrow> 'a rt_scheme" where
  "request_yield_poll s = s\<lparr>g_yield_poll_hint := True, g_nds_fast_limit := 0\<rparr>"

definition runtime_clear_fast_limit :: "'a rt_scheme \<Rightarrow> 'a rt_scheme" where
  "runtime_clear_fast_limit s = s\<lparr>g_nds_fast_limit := 0\<rparr>"

definition nds_irq_pending :: "nds_cpu \<Rightarrow> 'a rt_scheme \<Rightarrow> u32" where
  "nds_irq_pending cpu s = (if g_ime s cpu AND 1 \<noteq> 0 then g_ie s cpu AND g_if s cpu else 0)"

definition irq_recompute :: "nds_cpu \<Rightarrow> 'a rt_scheme \<Rightarrow> 'a rt_scheme" where
  "irq_recompute cpu s = runtime_clear_fast_limit (s\<lparr>g_nds_irq_pending_cache :=
     (g_nds_irq_pending_cache s)(cpu := if g_ime s cpu AND 1 \<noteq> 0 then g_ie s cpu AND g_if s cpu else 0)\<rparr>)"

definition nds_raise_irq :: "nds_cpu \<Rightarrow> u32 \<Rightarrow> 'a rt_scheme \<Rightarrow> 'a rt_scheme" where
  "nds_raise_irq cpu bits s = irq_recompute cpu (s\<lparr>g_if := (g_if s)(cpu := g_if s cpu OR bits)\<rparr>)"

definition nds_clear_irq :: "nds_cpu \<Rightarrow> u32 \<Rightarrow> 'a rt_scheme \<Rightarrow> 'a rt_scheme" where
  "nds_clear_irq cpu bits s = irq_recompute cpu (s\<lparr>g_if := (g_if s)(cpu := g_if s cpu AND NOT bits)\<rparr>)"

definition nds_cpu_enter_halt :: "nds_cpu \<Rightarrow> 'a rt_scheme \<Rightarrow> 'a rt_scheme" where
  "nds_cpu_enter_halt cpu s =
    (if g_cpu_halted s cpu then s
     else request_yield_poll (s\<lparr>g_halt_entry_cycle := (g_halt_entry_cycle s)(cpu := g_runtime_cycles s),
       g_cpu_halted := (g_cpu_halted s)(cpu := True)\<rparr>))"

definition nds_halt_wake_pending :: "nds_cpu \<Rightarrow> 'a rt_scheme \<Rightarrow> bool" where
  "nds_halt_wake_pending cpu s \<longleftrightarrow>
    g_ie s cpu AND g_if s cpu \<noteq> 0 \<and> (cpu = ARM7 \<or> g_ime s cpu AND 1 \<noteq> 0)"

definition nds_cpu_wake :: "nds_cpu \<Rightarrow> 'a rt_scheme \<Rightarrow> 'a rt_scheme" where
  "nds_cpu_wake cpu s = s\<lparr>g_cpu_halted := (g_cpu_halted s)(cpu := False)\<rparr>"

definition dma_any_running :: "nds_cpu \<Rightarrow> 'a rt_scheme \<Rightarrow> bool" where
  "dma_any_running cpu s \<longleftrightarrow> (\<exists>ch\<in>set [0..<4]. d_running (g_dma s cpu ch))"

section \<open>Slice control\<close>

definition nds_set_cycle_cap :: "u64 \<Rightarrow> 'a rt_scheme \<Rightarrow> 'a rt_scheme" where
  "nds_set_cycle_cap cap s = s\<lparr>g_cycle_cap := cap, g_nds_fast_limit := 0\<rparr>"

definition nds_reschedule_slice :: "u64 \<Rightarrow> 'a rt_scheme \<Rightarrow> 'a rt_scheme" where
  "nds_reschedule_slice system_deadline s =
    (let cpu_deadline = (if g_nds_active s = ARM9 then push_bit 1 system_deadline else system_deadline) in
     if g_cycle_cap s = 0 \<or> cpu_deadline < g_cycle_cap s
     then s\<lparr>g_cycle_cap := cpu_deadline, g_nds_fast_limit := 0\<rparr> else s)"

definition nds_slice_over :: "'a rt_scheme \<Rightarrow> bool" where
  "nds_slice_over s \<longleftrightarrow> g_cycle_cap s \<noteq> 0 \<and> g_runtime_cycles s \<ge> g_cycle_cap s"

definition nds_halt :: "'a rt_scheme \<Rightarrow> 'a rt_scheme" where
  "nds_halt s = request_yield_poll (s\<lparr>g_nds_terminal := True\<rparr>)"

definition nds_slice_begin :: "u64 \<Rightarrow> 'a rt_scheme \<Rightarrow> 'a rt_scheme" where
  "nds_slice_begin cap s = request_yield_poll (s\<lparr>g_nds_terminal := False, g_cycle_cap := cap\<rparr>)"

definition runtime_deferred_cycles_set :: "u32 \<Rightarrow> 'a rt_scheme \<Rightarrow> 'a rt_scheme" where
  "runtime_deferred_cycles_set cycles s =
    (let s = s\<lparr>g_deferred_cycles := cycles\<rparr> in if cycles \<noteq> 0 then s\<lparr>g_nds_fast_limit := 0\<rparr> else s)"

definition runtime_deferred_cycles_take :: "'a rt_scheme \<Rightarrow> u32 \<times> 'a rt_scheme" where
  "runtime_deferred_cycles_take s = (g_deferred_cycles s, s\<lparr>g_deferred_cycles := 0\<rparr>)"

section \<open>Static-code guard\<close>

text \<open>
  \<open>live_gen\<close> is the bus's generation counter of a page and \<open>identity_live\<close> the re-hash of the
  guest bytes a validation record covers.
\<close>

definition guard_generation_changed :: "(u32 \<Rightarrow> u32) \<Rightarrow> exec_guard \<Rightarrow> bool" where
  "guard_generation_changed live_gen g \<longleftrightarrow>
    guard_validation g \<noteq> None \<and> (\<exists>(page, gen)\<in>set (guard_pages g). live_gen page \<noteq> gen)"

definition refresh_guard_after_generation_change ::
  "(u32 \<Rightarrow> u32) \<Rightarrow> (nat \<Rightarrow> bool) \<Rightarrow> exec_guard \<Rightarrow> bool \<times> exec_guard" where
  "refresh_guard_after_generation_change live_gen identity_live g =
    (case guard_validation g of
       None \<Rightarrow> (True, g)
     | Some v \<Rightarrow> if \<not> identity_live v then (False, g)
         else (True, g\<lparr>guard_pages := map (\<lambda>(page, _). (page, live_gen page)) (guard_pages g)\<rparr>))"

definition runtime_note_code_write ::
  "(u32 \<Rightarrow> u32) \<Rightarrow> (nat \<Rightarrow> bool) \<Rightarrow> 'a rt_scheme \<Rightarrow> 'a rt_scheme" where
  "runtime_note_code_write live_gen identity_live s =
    (case g_static_guard s of
       None \<Rightarrow> s
     | Some g \<Rightarrow>
         if \<not> guard_invalidated g \<and> guard_generation_changed live_gen g then
           (case refresh_guard_after_generation_change live_gen identity_live g of
              (True, g') \<Rightarrow> s\<lparr>g_static_guard := Some g'\<rparr>
            | (False, g') \<Rightarrow> request_yield_poll (s\<lparr>g_static_guard := Some (g'\<lparr>guard_invalidated := True\<rparr>)\<rparr>))
         else s)"

definition active_static_code_changed :: "'a rt_scheme \<Rightarrow> bool" where
  "active_static_code_changed s = (case g_static_guard s of None \<Rightarrow> False | Some g \<Rightarrow> guard_invalidated g)"

section \<open>The deadline\<close>

definition publish_fast_limit :: "'a rt_scheme \<Rightarrow> 'a rt_scheme" where
  "publish_fast_limit s =
    (if \<not> g_cycle_fast_limit_enabled s \<or> \<not> g_cpu_fast_poll s \<or> g_runtime_break_pc s \<noteq> 0 \<or> g_nds_terminal s
        \<or> g_cycle_cap s = 0 \<or> g_deferred_cycles s \<noteq> 0 \<or> active_static_code_changed s \<or> g_nds_insn_stop s
        \<or> g_brk_hit s \<or> g_cpu_halted s (g_nds_active s) \<or> dma_any_running (g_nds_active s) s
        \<or> g_nds_irq_pending_cache s (g_nds_active s) \<noteq> 0
     then s\<lparr>g_nds_fast_limit := 0\<rparr>
     else s\<lparr>g_nds_fast_limit := g_cycle_cap s\<rparr>)"

definition break_pc_hit :: "'a rt_scheme \<Rightarrow> bool" where
  "break_pc_hit s \<longleftrightarrow> g_runtime_break_pc s \<noteq> 0 \<and> R (g_cpu s) 15 AND NOT 1 = g_runtime_break_pc s AND NOT 1"

definition runtime_should_yield_scan :: "'a rt_scheme \<Rightarrow> bool \<times> 'a rt_scheme" where
  "runtime_should_yield_scan s =
    (if g_nds_insn_stop s \<or> g_brk_hit s then (True, s\<lparr>g_nds_unwinding := True\<rparr>)
     else if g_cpu_halted s (g_nds_active s) \<or> dma_any_running (g_nds_active s) s
       then (True, s\<lparr>g_nds_unwinding := True\<rparr>)
     else if active_static_code_changed s then (True, s\<lparr>g_nds_unwinding := True\<rparr>)
     else
       let s = (if break_pc_hit s then nds_halt s else s) in
       if g_cycle_cap s \<noteq> 0 \<and> g_runtime_cycles s \<ge> g_cycle_cap s then (True, s\<lparr>g_nds_unwinding := True\<rparr>)
       else if g_nds_terminal s then (True, s\<lparr>g_nds_unwinding := True\<rparr>)
       else (False, publish_fast_limit (s\<lparr>g_yield_poll_hint := False\<rparr>)))"

definition runtime_should_yield_slow :: "'a rt_scheme \<Rightarrow> bool \<times> 'a rt_scheme" where
  "runtime_should_yield_slow s =
    (let cycle_cap_hit = (g_cycle_cap s \<noteq> 0 \<and> g_runtime_cycles s \<ge> g_cycle_cap s) in
     if g_cpu_fast_poll s \<and> \<not> g_yield_poll_hint s \<and> \<not> break_pc_hit s \<and> \<not> cycle_cap_hit
     then (False, publish_fast_limit s)
     else runtime_should_yield_scan s)"

definition runtime_should_yield :: "'a rt_scheme \<Rightarrow> bool \<times> 'a rt_scheme" where
  "runtime_should_yield s =
    (if g_runtime_cycles s < g_nds_fast_limit s then (False, s) else runtime_should_yield_slow s)"

definition runtime_slice_yield :: "'a rt_scheme \<Rightarrow> bool \<times> 'a rt_scheme" where
  "runtime_slice_yield s =
    (if g_cycle_cap s \<noteq> 0 \<and> g_runtime_cycles s \<ge> g_cycle_cap s then (True, s\<lparr>g_nds_unwinding := True\<rparr>)
     else (False, s))"

definition nds_clear_unwinding :: "'a rt_scheme \<Rightarrow> 'a rt_scheme" where
  "nds_clear_unwinding s = s\<lparr>g_nds_unwinding := False, g_preserved_unwind_state := None\<rparr>"

definition nds_preserve_unwind_state :: "'a rt_scheme \<Rightarrow> 'a rt_scheme" where
  "nds_preserve_unwind_state s = s\<lparr>g_preserved_unwind_state := Some (g_cpu s), g_nds_unwinding := True\<rparr>"

definition nds_restore_unwind_state :: "'a rt_scheme \<Rightarrow> 'a rt_scheme" where
  "nds_restore_unwind_state s =
    (case g_preserved_unwind_state s of None \<Rightarrow> s
     | Some c \<Rightarrow> s\<lparr>g_cpu := c, g_preserved_unwind_state := None\<rparr>)"

section \<open>Tick, IRQ and SWI\<close>

text \<open>
  Two parameters stand for code outside this component: \<open>disp\<close> is \<open>runtime_dispatch\<close>, which runs
  recompiled guest code; \<open>refill\<close> is the pipeline-refill cost of a branch target, which may also
  latch timing state kept beyond this record.
\<close>

lemma irq_entry_masks: "bit (cpsr (irq_entry base ra c)) 7"
  unfolding irq_entry_def exception_entry_arch(2) [OF refl] irq_cpsr_def mode_masks
  by (simp only: bit_or_iff bitlits) simp

lemma exception_entry_I: "cpsr (irq_entry base ra c) AND CPSR_I_BIT \<noteq> 0"
  using irq_entry_masks by (simp add: tsts)

function runtime_tick :: "(u32 \<Rightarrow> 'a rt_scheme \<Rightarrow> 'a rt_scheme) \<Rightarrow> (u32 \<Rightarrow> 'a rt_scheme \<Rightarrow> u32 \<times> 'a) \<Rightarrow>
      u32 \<Rightarrow> 'a rt_scheme \<Rightarrow> 'a rt_scheme"
  and runtime_tick_slow :: "(u32 \<Rightarrow> 'a rt_scheme \<Rightarrow> 'a rt_scheme) \<Rightarrow> (u32 \<Rightarrow> 'a rt_scheme \<Rightarrow> u32 \<times> 'a) \<Rightarrow>
      u32 \<Rightarrow> 'a rt_scheme \<Rightarrow> 'a rt_scheme"
  and runtime_irq :: "(u32 \<Rightarrow> 'a rt_scheme \<Rightarrow> 'a rt_scheme) \<Rightarrow> (u32 \<Rightarrow> 'a rt_scheme \<Rightarrow> u32 \<times> 'a) \<Rightarrow>
      u32 \<Rightarrow> 'a rt_scheme \<Rightarrow> 'a rt_scheme"
where
  "runtime_tick disp refill cycles s =
    (let nxt = g_runtime_cycles s + ucast cycles in
     if nxt < g_nds_fast_limit s then s\<lparr>g_runtime_cycles := nxt\<rparr>
     else runtime_tick_slow disp refill cycles s)"
| "runtime_tick_slow disp refill cycles s =
    (let s1 = s\<lparr>g_runtime_cycles := g_runtime_cycles s + ucast (cycles + g_deferred_cycles s), g_deferred_cycles := 0\<rparr>;
         pending = (if g_cpu_fast_poll s1 then g_nds_irq_pending_cache s1 (g_nds_active s1)
                    else nds_irq_pending (g_nds_active s1) s1) in
     if cpsr (g_cpu s1) AND CPSR_I_BIT = 0 \<and> pending \<noteq> 0
     then runtime_irq disp refill (R (g_cpu s1) 15) s1 else s1)"
| "runtime_irq disp refill return_address s =
    (let base = exc_base s (g_nds_active s);
         s1 = s\<lparr>g_cpu := irq_entry base return_address (g_cpu s)\<rparr>;
         (cost, latched) = refill (base + 0x18) s1;
         s2 = rt.more_update (\<lambda>_. latched) s1;
         s3 = (if g_deferred_cycles s2 \<noteq> 0 then s2\<lparr>g_deferred_cycles := g_deferred_cycles s2 + cost\<rparr>
               else runtime_tick disp refill cost s2) in
     disp (base + 0x18) s3)"
  by pat_completeness auto

termination
proof (relation "measure (case_sum
      (\<lambda>(d, r, c, s). if cpsr (g_cpu s) AND CPSR_I_BIT = 0 then 4 else 1)
      (case_sum (\<lambda>(d, r, c, s). if cpsr (g_cpu s) AND CPSR_I_BIT = 0 then 3 else 0) (\<lambda>(d, r, a, s). 2)))", goal_cases)
  case (4 disp refill ra s base s1 p cost latched s2)
  then show ?case by (simp add: exception_entry_I)
qed auto

declare runtime_tick.simps [simp del] runtime_tick_slow.simps [simp del] runtime_irq.simps [simp del]

definition runtime_swi :: "(u32 \<Rightarrow> 'a rt_scheme \<Rightarrow> 'a rt_scheme) \<Rightarrow> (u32 \<Rightarrow> 'a rt_scheme \<Rightarrow> u32 \<times> 'a) \<Rightarrow>
    'a rt_scheme \<Rightarrow> 'a rt_scheme" where
  "runtime_swi disp refill s =
    (let base = exc_base s (g_nds_active s);
         s1 = s\<lparr>g_cpu := swi_entry base (g_cpu s)\<rparr>;
         (cost, latched) = refill (base + 0x08) s1;
         s2 = rt.more_update (\<lambda>_. latched) s1 in
     disp (base + 0x08) (runtime_tick disp refill cost s2))"

section \<open>The deadline is a no-op certificate\<close>

text \<open>A nonzero limit certifies that nothing is due before the slice cap.\<close>

definition deadline_ok :: "'a rt_scheme \<Rightarrow> bool" where
  "deadline_ok s \<longleftrightarrow> g_nds_fast_limit s = 0 \<or>
    (g_nds_fast_limit s \<le> g_cycle_cap s \<and> g_cycle_fast_limit_enabled s \<and> g_cpu_fast_poll s
     \<and> g_runtime_break_pc s = 0 \<and> \<not> g_nds_terminal s \<and> g_deferred_cycles s = 0
     \<and> \<not> active_static_code_changed s \<and> \<not> g_nds_insn_stop s \<and> \<not> g_brk_hit s
     \<and> \<not> g_cpu_halted s (g_nds_active s) \<and> \<not> dma_any_running (g_nds_active s) s
     \<and> g_nds_irq_pending_cache s (g_nds_active s) = 0)"

lemma deadline_ok_zero [inv_pres]: "g_nds_fast_limit s = 0 \<Longrightarrow> deadline_ok s"
  by (simp add: deadline_ok_def)

lemma active_static_code_changed_frame [simp]:
  "active_static_code_changed (s\<lparr>g_nds_fast_limit := l\<rparr>) = active_static_code_changed s"
  "active_static_code_changed (s\<lparr>g_yield_poll_hint := h\<rparr>) = active_static_code_changed s"
  "active_static_code_changed (s\<lparr>g_runtime_cycles := n\<rparr>) = active_static_code_changed s"
  "active_static_code_changed (s\<lparr>g_deferred_cycles := e\<rparr>) = active_static_code_changed s"
  "active_static_code_changed (s\<lparr>g_cpu := c\<rparr>) = active_static_code_changed s"
  "active_static_code_changed (s\<lparr>g_nds_unwinding := u\<rparr>) = active_static_code_changed s"
  "active_static_code_changed (s\<lparr>g_nds_terminal := t\<rparr>) = active_static_code_changed s"
  by (simp_all add: active_static_code_changed_def split: option.splits)

lemma dma_any_running_frame [simp]:
  "dma_any_running cpu (s\<lparr>g_nds_fast_limit := l\<rparr>) = dma_any_running cpu s"
  "dma_any_running cpu (s\<lparr>g_yield_poll_hint := h\<rparr>) = dma_any_running cpu s"
  "dma_any_running cpu (s\<lparr>g_runtime_cycles := n\<rparr>) = dma_any_running cpu s"
  "dma_any_running cpu (s\<lparr>g_deferred_cycles := e\<rparr>) = dma_any_running cpu s"
  "dma_any_running cpu (s\<lparr>g_cpu := c\<rparr>) = dma_any_running cpu s"
  "dma_any_running cpu (s\<lparr>g_nds_unwinding := u\<rparr>) = dma_any_running cpu s"
  "dma_any_running cpu (s\<lparr>g_nds_terminal := t\<rparr>) = dma_any_running cpu s"
  by (simp_all add: dma_any_running_def)

lemma publish_ok [inv_pres]: "deadline_ok (publish_fast_limit s)"
  by (simp add: deadline_ok_def publish_fast_limit_def)

lemma tick_fast_slow:
  assumes "deadline_ok s"
  shows "runtime_tick disp refill c s = runtime_tick_slow disp refill c s"
proof (cases "g_runtime_cycles s + ucast c < g_nds_fast_limit s")
  case True
  then have "g_nds_fast_limit s \<noteq> 0" by auto
  with assms have q: "g_cpu_fast_poll s" "g_deferred_cycles s = 0"
    "g_nds_irq_pending_cache s (g_nds_active s) = 0"
    by (auto simp: deadline_ok_def)
  have "s\<lparr>g_runtime_cycles := n, g_deferred_cycles := 0\<rparr> = s\<lparr>g_runtime_cycles := n\<rparr>" for n
    using q(2) by simp
  with True q show ?thesis
    by (simp add: runtime_tick.simps [of _ _ _ s] runtime_tick_slow.simps Let_def)
qed (simp add: runtime_tick.simps)

lemma yield_fast_slow:
  assumes "deadline_ok s"
  shows "fst (runtime_should_yield s) = fst (runtime_should_yield_slow s)"
    "g_runtime_cycles s < g_nds_fast_limit s \<Longrightarrow>
      snd (runtime_should_yield_slow s) = s\<lparr>g_yield_poll_hint := False, g_nds_fast_limit := g_cycle_cap s\<rparr>"
proof -
  have "fst (runtime_should_yield_slow s) = False \<and>
      snd (runtime_should_yield_slow s) = s\<lparr>g_yield_poll_hint := False, g_nds_fast_limit := g_cycle_cap s\<rparr>"
    if lt: "g_runtime_cycles s < g_nds_fast_limit s"
  proof -
    from lt have nz: "g_nds_fast_limit s \<noteq> 0" by auto
    with assms lt have cap: "\<not> g_runtime_cycles s \<ge> g_cycle_cap s" "g_cycle_cap s \<noteq> 0"
      by (auto simp: deadline_ok_def)
    from nz assms have q: "g_cycle_fast_limit_enabled s" "g_cpu_fast_poll s"
      "g_runtime_break_pc s = 0" "\<not> g_nds_terminal s" "g_deferred_cycles s = 0"
      "\<not> active_static_code_changed s" "\<not> g_nds_insn_stop s" "\<not> g_brk_hit s"
      "\<not> g_cpu_halted s (g_nds_active s)" "\<not> dma_any_running (g_nds_active s) s"
      "g_nds_irq_pending_cache s (g_nds_active s) = 0"
      by (auto simp: deadline_ok_def)
    show ?thesis
      by (cases "g_yield_poll_hint s")
        (simp_all add: runtime_should_yield_slow_def runtime_should_yield_scan_def publish_fast_limit_def
          break_pc_hit_def cap q Let_def)
  qed
  then show "fst (runtime_should_yield s) = fst (runtime_should_yield_slow s)"
    "g_runtime_cycles s < g_nds_fast_limit s \<Longrightarrow>
      snd (runtime_should_yield_slow s) = s\<lparr>g_yield_poll_hint := False, g_nds_fast_limit := g_cycle_cap s\<rparr>"
    by (simp_all add: runtime_should_yield_def)
qed

section \<open>Everything that runs between two polls\<close>

text \<open>
  \<open>rt_step\<close>: one state change of the running machine.  Guest code may set registers, the clock,
  the unwind flags and every device beyond this record at will; whatever can make a service due
  goes through the operations above.
\<close>

inductive rt_step :: "'a rt_scheme \<Rightarrow> 'a rt_scheme \<Rightarrow> bool" where
  guest: "rt_step s (rt.more_update (\<lambda>_. m) (s\<lparr>g_cpu := c, g_runtime_cycles := n, g_nds_unwinding := u,
      g_preserved_unwind_state := p\<rparr>))"
| commit_debt: "rt_step s (s\<lparr>g_deferred_cycles := 0\<rparr>)"
| extend_debt: "g_deferred_cycles s \<noteq> 0 \<Longrightarrow> rt_step s (s\<lparr>g_deferred_cycles := e\<rparr>)"
| set_debt: "rt_step s (runtime_deferred_cycles_set e s)"
| poll: "rt_step s (snd (runtime_should_yield s))"
| request: "rt_step s (request_yield_poll s)"
| raise_irq: "rt_step s (nds_raise_irq cpu bits s)"
| clear_irq: "rt_step s (nds_clear_irq cpu bits s)"
| irq_register: "rt_step s (irq_recompute cpu (s\<lparr>g_ime := i, g_ie := e, g_if := f\<rparr>))"
| enter_halt: "rt_step s (nds_cpu_enter_halt cpu s)"
| wake: "rt_step s (nds_cpu_wake cpu s)"
| cap: "rt_step s (nds_set_cycle_cap n s)"
| reschedule: "rt_step s (nds_reschedule_slice n s)"
| halt: "rt_step s (nds_halt s)"
| code_write: "rt_step s (runtime_note_code_write live ident s)"
| stop_flags: "rt_step s (request_yield_poll (s\<lparr>g_brk_hit := b, g_nds_insn_stop := i\<rparr>))"
| break_pc: "rt_step s (runtime_clear_fast_limit (s\<lparr>g_runtime_break_pc := pc\<rparr>))"
| dma_request: "rt_step s (request_yield_poll (s\<lparr>g_dma := d, g_dma_entry_cycle := e\<rparr>))"
| dma_progress: "(\<And>cpu ch. d_running (d cpu ch) \<Longrightarrow> d_running (g_dma s cpu ch)) \<Longrightarrow> rt_step s (s\<lparr>g_dma := d\<rparr>)"
| slice: "rt_step s (nds_slice_begin n (s\<lparr>g_nds_active := a, g_cpu := c, g_deferred_cycles := e,
      g_static_guard := g, g_runtime_cycles := t\<rparr>))"

inductive_cases rt_stepE: "rt_step s t"

abbreviation rt_steps :: "'a rt_scheme \<Rightarrow> 'a rt_scheme \<Rightarrow> bool" where
  "rt_steps \<equiv> rt_step\<^sup>*\<^sup>*"

lemma rearm_limit [simp]:
  "g_nds_fast_limit (request_yield_poll s) = 0" "g_nds_fast_limit (runtime_clear_fast_limit s) = 0"
  "g_nds_fast_limit (irq_recompute cpu s) = 0" "g_nds_fast_limit (nds_raise_irq cpu bits s) = 0"
  "g_nds_fast_limit (nds_clear_irq cpu bits s) = 0" "g_nds_fast_limit (nds_set_cycle_cap n s) = 0"
  "g_nds_fast_limit (nds_halt s) = 0" "g_nds_fast_limit (nds_slice_begin n s) = 0"
  by (simp_all add: request_yield_poll_def runtime_clear_fast_limit_def irq_recompute_def nds_raise_irq_def
      nds_clear_irq_def nds_set_cycle_cap_def nds_halt_def nds_slice_begin_def)

lemma scan_ok: "deadline_ok s \<Longrightarrow> deadline_ok (snd (runtime_should_yield_scan s))"
proof -
  assume ok: "deadline_ok s"
  have u: "deadline_ok (t\<lparr>g_nds_unwinding := True\<rparr>)" if "deadline_ok t" for t :: "'a rt_scheme"
    using that by (auto simp: deadline_ok_def)
  have h: "deadline_ok (nds_halt s)" by (simp add: deadline_ok_zero)
  show ?thesis
    unfolding runtime_should_yield_scan_def Let_def using u [OF ok] u [OF h] by (simp add: publish_ok)
qed

lemma poll_ok: "deadline_ok s \<Longrightarrow> deadline_ok (snd (runtime_should_yield s))"
  by (simp add: runtime_should_yield_def runtime_should_yield_slow_def Let_def publish_ok scan_ok)

lemma note_code_write_ok: "deadline_ok s \<Longrightarrow> deadline_ok (runtime_note_code_write live ident s)"
  unfolding runtime_note_code_write_def
  by (auto simp: deadline_ok_zero refresh_guard_after_generation_change_def split: option.splits if_splits)
    (auto simp: deadline_ok_def active_static_code_changed_def dma_any_running_def)

lemma rt_step_ok: "rt_step s t \<Longrightarrow> deadline_ok s \<Longrightarrow> deadline_ok t"
proof (induction rule: rt_step.induct)
  case (guest s m c n u p)
  then show ?case by (auto simp: deadline_ok_def active_static_code_changed_def dma_any_running_def)
next
  case (dma_progress d s)
  then show ?case by (auto simp: deadline_ok_def active_static_code_changed_def dma_any_running_def)
next
  case (wake s cpu)
  then show ?case by (auto simp: deadline_ok_def nds_cpu_wake_def active_static_code_changed_def dma_any_running_def)
next
  case (enter_halt s cpu)
  then show ?case by (simp add: nds_cpu_enter_halt_def deadline_ok_zero)
next
  case (reschedule s n)
  then show ?case
    by (auto simp: nds_reschedule_slice_def Let_def deadline_ok_zero)
next
  case (extend_debt s e)
  then show ?case by (auto simp: deadline_ok_def)
next
  case (set_debt s e)
  then show ?case
    by (auto simp: deadline_ok_def runtime_deferred_cycles_set_def Let_def)
next
  case (commit_debt s)
  then show ?case by (auto simp: deadline_ok_def)
qed (simp_all add: deadline_ok_zero poll_ok note_code_write_ok)

lemma rt_steps_ok: "rt_steps s t \<Longrightarrow> deadline_ok s \<Longrightarrow> deadline_ok t"
  by (induction rule: rtranclp_induct) (auto intro: rt_step_ok)

text \<open>Ticks, IRQ entry and SWI are sequences of these steps when guest code is.\<close>

lemma guest_steps:
  "rt_steps s (s\<lparr>g_cpu := c\<rparr>)" "rt_steps s (s\<lparr>g_runtime_cycles := n\<rparr>)" "rt_steps s (rt.more_update (\<lambda>_. m) s)"
  using guest [where s = s and m = "rt.more s" and c = c and n = "g_runtime_cycles s"
      and u = "g_nds_unwinding s" and p = "g_preserved_unwind_state s"]
    guest [where s = s and m = "rt.more s" and c = "g_cpu s" and n = n
      and u = "g_nds_unwinding s" and p = "g_preserved_unwind_state s"]
    guest [where s = s and m = m and c = "g_cpu s" and n = "g_runtime_cycles s"
      and u = "g_nds_unwinding s" and p = "g_preserved_unwind_state s"]
  by (simp_all add: r_into_rtranclp)

lemma irq_steps_from_tick:
  assumes disp: "\<And>pc s. rt_steps s (disp pc s)"
    and tick: "\<And>c t. cpsr (g_cpu t) AND CPSR_I_BIT \<noteq> 0 \<Longrightarrow> rt_steps t (runtime_tick disp refill c t)"
  shows "rt_steps s (runtime_irq disp refill ra s)"
proof -
  let ?b = "exc_base s (g_nds_active s)"
  let ?s1 = "s\<lparr>g_cpu := irq_entry ?b ra (g_cpu s)\<rparr>"
  obtain cost latched where r: "refill (?b + 0x18) ?s1 = (cost, latched)" by (cases "refill (?b + 0x18) ?s1")
  let ?s2 = "rt.more_update (\<lambda>_. latched) ?s1"
  let ?s3 = "if g_deferred_cycles ?s2 \<noteq> 0 then ?s2\<lparr>g_deferred_cycles := g_deferred_cycles ?s2 + cost\<rparr>
    else runtime_tick disp refill cost ?s2"
  have "rt_steps s ?s2" using guest_steps(1) guest_steps(3) by (rule rtranclp_trans)
  moreover have "rt_steps ?s2 ?s3"
    using tick [of ?s2 cost] by (simp add: exception_entry_I extend_debt r_into_rtranclp)
  moreover have "rt_steps ?s3 (disp (?b + 0x18) ?s3)" by (rule disp)
  moreover have "runtime_irq disp refill ra s = disp (?b + 0x18) ?s3"
    by (simp add: runtime_irq.simps Let_def r)
  ultimately show ?thesis using rtranclp_trans [of rt_step] by simp
qed

lemma tick_slow_steps_from_irq:
  assumes "cpsr (g_cpu s) AND CPSR_I_BIT = 0 \<Longrightarrow> (\<And>t. rt_steps t (runtime_irq disp refill (R (g_cpu s) 15) t))"
  shows "rt_steps s (runtime_tick_slow disp refill c s)"
proof -
  let ?s1 = "s\<lparr>g_runtime_cycles := g_runtime_cycles s + ucast (c + g_deferred_cycles s), g_deferred_cycles := 0\<rparr>"
  have "rt_steps s ?s1"
    using guest_steps(2) commit_debt by (rule rtranclp.rtrancl_into_rtrancl)
  then show ?thesis
    using assms by (auto simp: runtime_tick_slow.simps Let_def intro: rtranclp_trans)
qed

lemma tick_steps:
  assumes disp: "\<And>pc s. rt_steps s (disp pc s)"
  shows "rt_steps s (runtime_tick disp refill c s)" "rt_steps s (runtime_tick_slow disp refill c s)"
    "rt_steps s (runtime_irq disp refill ra s)"
proof -
  have fast: "rt_steps s (runtime_tick disp refill c s)" if "rt_steps s (runtime_tick_slow disp refill c s)"
    for s c using that by (simp add: runtime_tick.simps Let_def guest_steps(2))
  have masked: "rt_steps s (runtime_tick_slow disp refill c s)" if "cpsr (g_cpu s) AND CPSR_I_BIT \<noteq> 0" for s c
    using that by (intro tick_slow_steps_from_irq) simp
  have irq: "rt_steps s (runtime_irq disp refill ra s)" for s ra
    by (rule irq_steps_from_tick [OF disp fast [OF masked]])
  then show "rt_steps s (runtime_irq disp refill ra s)" .
  show slow: "rt_steps s (runtime_tick_slow disp refill c s)" by (rule tick_slow_steps_from_irq) (rule irq)
  show "rt_steps s (runtime_tick disp refill c s)" by (rule fast) (rule slow)
qed

lemma swi_steps:
  assumes disp: "\<And>pc s. rt_steps s (disp pc s)"
  shows "rt_steps s (runtime_swi disp refill s)"
proof -
  let ?s1 = "s\<lparr>g_cpu := swi_entry (exc_base s (g_nds_active s)) (g_cpu s)\<rparr>"
  obtain cost latched where r: "refill (exc_base s (g_nds_active s) + 0x08) ?s1 = (cost, latched)"
    by (cases "refill (exc_base s (g_nds_active s) + 0x08) ?s1")
  have "rt_steps s (rt.more_update (\<lambda>_. latched) ?s1)" using guest_steps(1) guest_steps(3) by (rule rtranclp_trans)
  then show ?thesis
    using tick_steps(1) [OF disp] disp unfolding runtime_swi_def Let_def r prod.case by (meson rtranclp_trans)
qed

section \<open>Properties\<close>

text \<open>
  C15. Skipping the per-instruction service scan below the published deadline is unobservable.
  From any state in which the deadline is sound, after any sequence of device, interrupt, slice
  and guest steps, the inline tick computes exactly the state of the faithful out-of-line tick,
  and the inline yield poll gives the answer of the faithful scan, which would have changed
  nothing but the poll hint and the published limit.
\<close>

theorem deadline_skip_unobservable:
  assumes "deadline_ok s0" and "rt_steps s0 s"
  shows "runtime_tick disp refill c s = runtime_tick_slow disp refill c s
    \<and> fst (runtime_should_yield s) = fst (runtime_should_yield_slow s)
    \<and> (g_runtime_cycles s < g_nds_fast_limit s \<longrightarrow>
        snd (runtime_should_yield_slow s) = s\<lparr>g_yield_poll_hint := False, g_nds_fast_limit := g_cycle_cap s\<rparr>)"
  using rt_steps_ok [OF assms(2,1)] by (simp add: tick_fast_slow yield_fast_slow)

lemma deadline_skip_unobservable_witness:
  fixes s :: rt
  defines "s \<equiv> snd (runtime_should_yield (nds_slice_begin 128 rt_initial))"
  shows "g_nds_fast_limit s = 128 \<and> runtime_tick (\<lambda>_ t. t) (\<lambda>_ _. (2, ())) 5 s = runtime_tick_slow (\<lambda>_ t. t) (\<lambda>_ _. (2, ())) 5 s"
proof -
  have a: "deadline_ok (nds_slice_begin 128 rt_initial)" by (simp add: deadline_ok_zero)
  have b: "rt_steps (nds_slice_begin 128 rt_initial) s" unfolding s_def by (rule r_into_rtranclp) (rule poll)
  have "g_nds_fast_limit s = 128"
    by (simp add: s_def rt_initial_def nds_slice_begin_def request_yield_poll_def runtime_should_yield_def
      runtime_should_yield_slow_def runtime_should_yield_scan_def publish_fast_limit_def break_pc_hit_def
      active_static_code_changed_def dma_any_running_def)
  with deadline_skip_unobservable [OF a b] show ?thesis by blast
qed

text \<open>
  C24. Interrupt delivery. The first tick after a request is raised for the running processor
  commits the instruction's cycles with any HALT debt and enters the IRQ vector at the current PC
  exactly when the CPSR does not mask it, the master enable is set and some enabled request is
  flagged; otherwise only the clock moves.
\<close>

theorem raised_irq_taken_at_next_tick:
  fixes s :: "'a rt_scheme" and c bits :: u32
  defines "t \<equiv> (nds_raise_irq (g_nds_active s) bits s)
      \<lparr>g_runtime_cycles := g_runtime_cycles s + ucast (c + g_deferred_cycles s), g_deferred_cycles := 0\<rparr>"
  shows "runtime_tick disp refill c (nds_raise_irq (g_nds_active s) bits s) =
    (if \<not> bit (cpsr (g_cpu s)) 7 \<and> bit (g_ime s (g_nds_active s)) 0
        \<and> g_ie s (g_nds_active s) AND (g_if s (g_nds_active s) OR bits) \<noteq> 0
     then runtime_irq disp refill (R (g_cpu s) 15) t else t)"
  unfolding t_def
  by (simp add: runtime_tick.simps runtime_tick_slow.simps [of _ _ _ "nds_raise_irq _ _ _"] Let_def tsts)
    (simp add: nds_raise_irq_def irq_recompute_def runtime_clear_fast_limit_def nds_irq_pending_def tsts)

end
