(* ===== verification/IpcChannel.thy ===== *)
theory IpcChannel
  imports Runtime
begin

text \<open>
  The two inter-processor channels of \<open>runner/src/io.cpp\<close>: the 16-word IPC FIFO pair with its
  control register, and IPCSYNC.  The ring buffers implement bounded queues; the locale of
  bounded channels shows that whatever the interleaving of sends and receives, words arrive in
  order, once, and none is lost.  Each CPU's receive queue is the other's send queue.
\<close>

section \<open>Bounded channels\<close>

text \<open>One end sends, the other receives, and anything else may happen in between.\<close>

datatype ('w, 'o) chan_op = Send 'w | Recv | Other 'o

locale bounded_channel =
  fixes inv :: "'s \<Rightarrow> bool" and contents :: "'s \<Rightarrow> 'w list" and room :: "'s \<Rightarrow> bool"
    and send :: "'w \<Rightarrow> 's \<Rightarrow> 's" and recv :: "'s \<Rightarrow> 'w \<times> 's" and ready :: "'s \<Rightarrow> bool"
    and other :: "'o \<Rightarrow> 's \<Rightarrow> 's"
  assumes send_inv: "inv s \<Longrightarrow> inv (send w s)"
    and recv_inv: "inv s \<Longrightarrow> inv (snd (recv s))"
    and other_inv: "inv s \<Longrightarrow> inv (other x s)"
    and send_contents: "inv s \<Longrightarrow> contents (send w s) = (if room s then contents s @ [w] else contents s)"
    and recv_contents: "inv s \<Longrightarrow> contents (snd (recv s)) = tl (contents s)"
    and other_contents: "inv s \<Longrightarrow> contents (other x s) = contents s"
    and recv_word: "inv s \<Longrightarrow> ready s \<Longrightarrow> fst (recv s) = hd (contents s)"
    and ready_iff: "inv s \<Longrightarrow> ready s \<longleftrightarrow> contents s \<noteq> []"
begin

text \<open>A run: the accepted words, the received words, the end state.\<close>

fun run :: "('w, 'o) chan_op list \<Rightarrow> 's \<Rightarrow> 'w list \<times> 'w list \<times> 's" where
  "run [] s = ([], [], s)"
| "run (Send w # ops) s =
    (let (acc, got, t) = run ops (send w s) in (if room s then w # acc else acc, got, t))"
| "run (Recv # ops) s =
    (let (acc, got, t) = run ops (snd (recv s)) in (acc, if ready s then fst (recv s) # got else got, t))"
| "run (Other x # ops) s = run ops (other x s)"

lemma run_inv: "inv s \<Longrightarrow> inv (snd (snd (run ops s)))"
  by (induction ops s rule: run.induct) (auto simp: send_inv recv_inv other_inv Let_def split: prod.splits)

lemma run_in_order:
  "inv s \<Longrightarrow> run ops s = (acc, got, t) \<Longrightarrow> contents s @ acc = got @ contents t"
proof (induction ops s arbitrary: acc got t rule: run.induct)
  case (2 w ops s)
  then show ?case
    by (auto simp: send_inv send_contents Let_def split: prod.splits if_splits)
next
  case (3 ops s)
  obtain acc' got' t' where r: "run ops (snd (recv s)) = (acc', got', t')" by (metis prod_cases3)
  have "tl (contents s) @ acc' = got' @ contents t'"
    using "3.IH" [OF recv_inv [OF "3.prems"(1)] r] recv_contents [OF "3.prems"(1)] by simp
  then show ?case
    using 3(2,3) r recv_word [OF "3.prems"(1)] ready_iff [OF "3.prems"(1)]
    by (cases "contents s") (auto simp: Let_def split: if_splits)
next
  case (4 x ops s)
  then show ?case by (simp add: other_inv other_contents)
qed auto

end

section \<open>State\<close>

text \<open>\<open>g_fifo[c]\<close> holds the words processor \<open>c\<close> has sent; the array is used at 0..15.\<close>

record ipc = rt +
  g_fifo :: "nds_cpu \<Rightarrow> nat \<Rightarrow> u32"
  g_fifo_cnt :: "nds_cpu \<Rightarrow> nat"
  g_fifo_head :: "nds_cpu \<Rightarrow> nat"
  g_fifocnt :: "nds_cpu \<Rightarrow> u16"
  g_fifo_lastrx :: "nds_cpu \<Rightarrow> u32"
  g_ipcsync_out :: "nds_cpu \<Rightarrow> u16"

definition fifo_send :: "nds_cpu \<Rightarrow> u32 \<Rightarrow> 'a ipc_scheme \<Rightarrow> 'a ipc_scheme" where
  "fifo_send c v s =
    (if g_fifocnt s c AND 0x8000 = 0 then s
     else if g_fifo_cnt s c \<ge> 16 then s\<lparr>g_fifocnt := (g_fifocnt s)(c := g_fifocnt s c OR 0x4000)\<rparr>
     else
       let was_empty = (g_fifo_cnt s c = 0);
           i = (g_fifo_head s c + g_fifo_cnt s c) mod 16;
           s = s\<lparr>g_fifo := (g_fifo s)(c := (g_fifo s c)(i := v)),
                 g_fifo_cnt := (g_fifo_cnt s)(c := g_fifo_cnt s c + 1)\<rparr>;
           rcv = other_cpu c in
       if was_empty \<and> g_fifocnt s rcv AND 0x0400 \<noteq> 0 then nds_raise_irq rcv 0x00040000 s else s)"

definition fifo_recv :: "nds_cpu \<Rightarrow> 'a ipc_scheme \<Rightarrow> u32 \<times> 'a ipc_scheme" where
  "fifo_recv c s =
    (let snd = other_cpu c in
     if g_fifo_cnt s snd = 0
     then (g_fifo_lastrx s c, s\<lparr>g_fifocnt := (g_fifocnt s)(c := g_fifocnt s c OR 0x4000)\<rparr>)
     else
       let v = g_fifo s snd (g_fifo_head s snd);
           s = s\<lparr>g_fifo_head := (g_fifo_head s)(snd := (g_fifo_head s snd + 1) mod 16),
                 g_fifo_cnt := (g_fifo_cnt s)(snd := g_fifo_cnt s snd - 1),
                 g_fifo_lastrx := (g_fifo_lastrx s)(c := v)\<rparr> in
       (v, if g_fifo_cnt s snd = 0 \<and> g_fifocnt s snd AND 0x0004 \<noteq> 0 then nds_raise_irq snd 0x00020000 s else s))"

definition fifocnt_read :: "nds_cpu \<Rightarrow> 'a ipc_scheme \<Rightarrow> u16" where
  "fifocnt_read c s =
    (let snd = c; rcv = other_cpu c;
         v = g_fifocnt s c AND 0xC404;
         v = (if g_fifo_cnt s snd = 0 then v OR 0x0001 else v);
         v = (if g_fifo_cnt s snd \<ge> 16 then v OR 0x0002 else v);
         v = (if g_fifo_cnt s rcv = 0 then v OR 0x0100 else v);
         v = (if g_fifo_cnt s rcv \<ge> 16 then v OR 0x0200 else v) in v)"

definition fifocnt_write :: "nds_cpu \<Rightarrow> u16 \<Rightarrow> 'a ipc_scheme \<Rightarrow> 'a ipc_scheme" where
  "fifocnt_write c v s =
    (let s = (if v AND 0x0008 \<noteq> 0
              then s\<lparr>g_fifo_cnt := (g_fifo_cnt s)(c := 0), g_fifo_head := (g_fifo_head s)(c := 0)\<rparr> else s);
         old = g_fifocnt s c;
         s = (if v AND 0x0004 \<noteq> 0 \<and> old AND 0x0004 = 0 \<and> g_fifo_cnt s c = 0
              then nds_raise_irq c 0x00020000 s else s);
         s = (if v AND 0x0400 \<noteq> 0 \<and> old AND 0x0400 = 0 \<and> g_fifo_cnt s (other_cpu c) \<noteq> 0
              then nds_raise_irq c 0x00040000 s else s);
         keep = g_fifocnt s c AND 0x4000;
         keep = (if v AND 0x4000 \<noteq> 0 then 0 else keep) in
     s\<lparr>g_fifocnt := (g_fifocnt s)(c := keep OR (v AND 0x8404))\<rparr>)"

definition ipcsync_read :: "nds_cpu \<Rightarrow> 'a ipc_scheme \<Rightarrow> u16" where
  "ipcsync_read cpu s =
    (let v = g_ipcsync_out s cpu AND 0x4F00 in
     v OR (drop_bit 8 (g_ipcsync_out s (other_cpu cpu)) AND 0x000F))"

definition ipcsync_write :: "nds_cpu \<Rightarrow> u16 \<Rightarrow> 'a ipc_scheme \<Rightarrow> 'a ipc_scheme" where
  "ipcsync_write cpu val s =
    (let s = s\<lparr>g_ipcsync_out := (g_ipcsync_out s)(cpu := (g_ipcsync_out s cpu AND NOT 0x4F00) OR (val AND 0x4F00))\<rparr>;
         other = other_cpu cpu in
     if val AND 0x2000 \<noteq> 0 \<and> g_ipcsync_out s other AND 0x4000 \<noteq> 0
     then nds_raise_irq other 0x00010000 s else s)"

section \<open>The queues\<close>

definition fifo_inv :: "'a ipc_scheme \<Rightarrow> bool" where
  "fifo_inv s \<longleftrightarrow> (\<forall>c. g_fifo_cnt s c \<le> 16 \<and> g_fifo_head s c < 16)"

definition fifo_contents :: "nds_cpu \<Rightarrow> 'a ipc_scheme \<Rightarrow> u32 list" where
  "fifo_contents c s = map (\<lambda>i. g_fifo s c ((g_fifo_head s c + i) mod 16)) [0..<g_fifo_cnt s c]"

definition fifo_room :: "nds_cpu \<Rightarrow> 'a ipc_scheme \<Rightarrow> bool" where
  "fifo_room c s \<longleftrightarrow> g_fifocnt s c AND 0x8000 \<noteq> 0 \<and> g_fifo_cnt s c < 16"

lemma raise_irq_ipc [simp]:
  "g_fifo (nds_raise_irq p b s) = g_fifo s" "g_fifo_cnt (nds_raise_irq p b s) = g_fifo_cnt s"
  "g_fifo_head (nds_raise_irq p b s) = g_fifo_head s" "g_fifocnt (nds_raise_irq p b s) = g_fifocnt s"
  "g_fifo_lastrx (nds_raise_irq p b s) = g_fifo_lastrx s" "g_ipcsync_out (nds_raise_irq p b s) = g_ipcsync_out s"
  by (simp_all add: nds_raise_irq_def irq_recompute_def runtime_clear_fast_limit_def)

lemma raise_irq_if: "g_if (nds_raise_irq p b s) = (g_if s)(p := g_if s p OR b)"
  by (simp add: nds_raise_irq_def irq_recompute_def runtime_clear_fast_limit_def)

lemma fifo_send_inv [inv_pres]: "fifo_inv s \<Longrightarrow> fifo_inv (fifo_send c v s)"
  by (auto simp: fifo_send_def fifo_inv_def Let_def Suc_le_eq)

lemma fifo_recv_inv [inv_pres]: "fifo_inv s \<Longrightarrow> fifo_inv (snd (fifo_recv c s))"
  by (auto simp: fifo_recv_def fifo_inv_def Let_def intro: order_trans [OF diff_le_self])

lemma fifocnt_write_inv [inv_pres]: "fifo_inv s \<Longrightarrow> fifo_inv (fifocnt_write c v s)"
  by (auto simp: fifocnt_write_def fifo_inv_def Let_def)

lemma ring_slot_fresh: "i < n \<Longrightarrow> n < 16 \<Longrightarrow> (h + i) mod 16 \<noteq> (h + n) mod (16 :: nat)"
  using mod_eq_dvd_iff_nat [of "h + i" "h + n" 16] dvd_imp_le [of 16 "n - i"] by auto

lemma fifo_send_contents:
  "fifo_contents c (fifo_send c v s) = (if fifo_room c s then fifo_contents c s @ [v] else fifo_contents c s)"
  "d \<noteq> c \<Longrightarrow> fifo_contents d (fifo_send c v s) = fifo_contents d s"
  using ring_slot_fresh [of _ "g_fifo_cnt s c" "g_fifo_head s c"]
  by (auto simp: fifo_send_def fifo_contents_def fifo_room_def Let_def)

lemma map_upt_Suc_tl: "map f [0..<Suc n] = f 0 # map (\<lambda>i. f (Suc i)) [0..<n]"
  by (simp add: upt_conv_Cons map_Suc_upt [symmetric] del: upt_Suc)

lemma fifo_recv_contents:
  assumes "fifo_inv s"
  shows "fifo_contents (other_cpu c) (snd (fifo_recv c s)) = tl (fifo_contents (other_cpu c) s)"
    "g_fifo_cnt s (other_cpu c) \<noteq> 0 \<Longrightarrow> fst (fifo_recv c s) = hd (fifo_contents (other_cpu c) s)"
    "fifo_contents c (snd (fifo_recv c s)) = fifo_contents c s"
proof -
  have h: "g_fifo_head s (other_cpu c) < 16" using assms by (simp add: fifo_inv_def)
  have mod: "(Suc h mod 16 + i) mod 16 = Suc (h + i) mod 16" for h i :: nat
    by (simp add: mod_simps)
  show "fifo_contents (other_cpu c) (snd (fifo_recv c s)) = tl (fifo_contents (other_cpu c) s)"
    by (cases "g_fifo_cnt s (other_cpu c)")
      (simp_all add: fifo_recv_def fifo_contents_def Let_def map_upt_Suc_tl mod del: upt_Suc)
  show "g_fifo_cnt s (other_cpu c) \<noteq> 0 \<Longrightarrow> fst (fifo_recv c s) = hd (fifo_contents (other_cpu c) s)"
    using h by (cases "g_fifo_cnt s (other_cpu c)")
      (simp_all add: fifo_recv_def fifo_contents_def Let_def map_upt_Suc_tl del: upt_Suc)
  show "fifo_contents c (snd (fifo_recv c s)) = fifo_contents c s"
    by (simp add: fifo_recv_def fifo_contents_def Let_def)
qed

text \<open>
  What else happens to the channel out of \<open>c\<close>: traffic the other way, and writes of both control
  registers with the queue-clear bit left out, by both processors.
\<close>

datatype ipc_op = BackSend u32 | BackRecv | Control nds_cpu u16 | SyncWrite nds_cpu u16

fun ipc_other :: "nds_cpu \<Rightarrow> ipc_op \<Rightarrow> 'a ipc_scheme \<Rightarrow> 'a ipc_scheme" where
  "ipc_other c (BackSend v) s = fifo_send (other_cpu c) v s"
| "ipc_other c BackRecv s = snd (fifo_recv c s)"
| "ipc_other c (Control p v) s = fifocnt_write p (v AND NOT 8) s"
| "ipc_other c (SyncWrite p v) s = ipcsync_write p v s"

lemma no_clear: "(v AND NOT 8) AND (8 :: u16) = 0"
  by (rule bit_word_eqI) (auto simp: bit_simps bitlits)

lemma fifocnt_write_frame:
  "v AND 8 = 0 \<or> p \<noteq> c \<Longrightarrow> g_fifo_cnt (fifocnt_write p v s) c = g_fifo_cnt s c"
  "v AND 8 = 0 \<or> p \<noteq> c \<Longrightarrow> g_fifo_head (fifocnt_write p v s) c = g_fifo_head s c"
  "g_fifo (fifocnt_write p v s) = g_fifo s"
  by (auto simp: fifocnt_write_def Let_def)

lemma ipcsync_write_frame:
  "g_fifo_cnt (ipcsync_write p v s) = g_fifo_cnt s" "g_fifo_head (ipcsync_write p v s) = g_fifo_head s"
  "g_fifo (ipcsync_write p v s) = g_fifo s"
  by (simp_all add: ipcsync_write_def Let_def)

lemma ipc_other_frame:
  assumes "fifo_inv s"
  shows "fifo_inv (ipc_other c x s)" "fifo_contents c (ipc_other c x s) = fifo_contents c s"
proof -
  have "fifo_inv (ipc_other c x s) \<and> fifo_contents c (ipc_other c x s) = fifo_contents c s"
  proof (cases x)
    case (BackSend v)
    then show ?thesis using assms by (simp add: inv_pres fifo_send_contents(2))
  next
    case BackRecv
    then show ?thesis using assms by (simp add: inv_pres fifo_recv_contents(3))
  next
    case (Control p v)
    define w where "w = v AND NOT 8"
    have "w AND 8 = 0" unfolding w_def by (rule no_clear)
    moreover have "ipc_other c x s = fifocnt_write p w s" by (simp only: Control ipc_other.simps w_def)
    ultimately show ?thesis
      using assms by (simp add: fifo_contents_def fifocnt_write_frame fifocnt_write_inv)
  next
    case (SyncWrite p v)
    then show ?thesis using assms by (simp add: fifo_contents_def fifo_inv_def ipcsync_write_frame)
  qed
  then show "fifo_inv (ipc_other c x s)" "fifo_contents c (ipc_other c x s) = fifo_contents c s" by blast+
qed

interpretation ipc_fifo: bounded_channel
  "fifo_inv :: 'a ipc_scheme \<Rightarrow> bool" "fifo_contents c" "fifo_room c" "fifo_send c"
  "fifo_recv (other_cpu c)" "\<lambda>s. 0 < g_fifo_cnt s c" "ipc_other c" for c
proof
  fix s :: "'a ipc_scheme" and w x
  assume i: "fifo_inv s"
  note r = fifo_recv_contents [OF i, of "other_cpu c", simplified]
  show "fifo_inv (fifo_send c w s)" "fifo_inv (snd (fifo_recv (other_cpu c) s))" "fifo_inv (ipc_other c x s)"
    using i by (simp_all add: inv_pres ipc_other_frame)
  show "fifo_contents c (fifo_send c w s)
      = (if fifo_room c s then fifo_contents c s @ [w] else fifo_contents c s)"
    by (rule fifo_send_contents)
  show "fifo_contents c (snd (fifo_recv (other_cpu c) s)) = tl (fifo_contents c s)" by (rule r(1))
  show "fifo_contents c (ipc_other c x s) = fifo_contents c s" using i by (rule ipc_other_frame)
  show "(0 < g_fifo_cnt s c) = (fifo_contents c s \<noteq> [])" by (simp add: fifo_contents_def)
  show "fst (fifo_recv (other_cpu c) s) = hd (fifo_contents c s)" if "0 < g_fifo_cnt s c"
    using r(2) that by simp
qed

section \<open>Properties\<close>

text \<open>The same run written out: accepted words, received words, end state.\<close>

fun ipc_run :: "nds_cpu \<Rightarrow> (u32, ipc_op) chan_op list \<Rightarrow> 'a ipc_scheme \<Rightarrow> u32 list \<times> u32 list \<times> 'a ipc_scheme" where
  "ipc_run c [] s = ([], [], s)"
| "ipc_run c (Send w # ops) s =
    (let (acc, got, t) = ipc_run c ops (fifo_send c w s) in (if fifo_room c s then w # acc else acc, got, t))"
| "ipc_run c (Recv # ops) s =
    (let (acc, got, t) = ipc_run c ops (snd (fifo_recv (other_cpu c) s)) in
     (acc, if 0 < g_fifo_cnt s c then fst (fifo_recv (other_cpu c) s) # got else got, t))"
| "ipc_run c (Other x # ops) s = ipc_run c ops (ipc_other c x s)"

lemma ipc_run_eq: "ipc_run c ops s = ipc_fifo.run c ops s"
  by (induction c ops s rule: ipc_run.induct) (simp_all add: ipc_fifo.run.simps)

text \<open>
  C19. IPC FIFO delivery. In any interleaving of sends by one processor, receives by the other,
  traffic in the opposite direction and control writes that do not clear the queue, the words
  received are, in order and without loss or repetition, the words that were queued at the start
  followed by those accepted; the rest are still queued, at most sixteen of them.
\<close>

theorem ipc_words_arrive_in_order:
  assumes "fifo_inv s" and "ipc_run c ops s = (acc, got, t)"
  shows "fifo_contents c s @ acc = got @ fifo_contents c t \<and> length (fifo_contents c t) \<le> 16"
proof -
  have "fifo_inv t" using ipc_fifo.run_inv [OF assms(1), of c ops] assms(2) by (simp add: ipc_run_eq)
  then show ?thesis
    using ipc_fifo.run_in_order [OF assms(1)] assms(2) by (simp add: ipc_run_eq fifo_contents_def fifo_inv_def)
qed

definition ipc_reset :: ipc where
  "ipc_reset = rt.extend rt_initial (ipc.fields (\<lambda>_ _. 0) (\<lambda>_. 0) (\<lambda>_. 0) (\<lambda>_. 0x8000) (\<lambda>_. 0) (\<lambda>_. 0))"

lemma ipc_reset_fields:
  "g_fifo ipc_reset = (\<lambda>_ _. 0)" "g_fifo_cnt ipc_reset = (\<lambda>_. 0)" "g_fifo_head ipc_reset = (\<lambda>_. 0)"
  "g_fifocnt ipc_reset = (\<lambda>_. 0x8000)" "g_fifo_lastrx ipc_reset = (\<lambda>_. 0)"
  by (simp_all add: ipc_reset_def rt.defs ipc.defs)

lemma ipc_words_arrive_in_order_witness:
  "fst (snd (ipc_run ARM9 [Send 1, Send 2, Other (BackSend 9), Recv, Recv] ipc_reset)) = [1, 2]"
proof -
  have i: "fifo_inv ipc_reset" by (simp add: fifo_inv_def ipc_reset_fields)
  obtain acc got t where r: "ipc_run ARM9 [Send 1, Send 2, Other (BackSend 9), Recv, Recv] ipc_reset = (acc, got, t)"
    by (metis prod_cases3)
  have "fifo_contents ARM9 ipc_reset @ acc = got @ fifo_contents ARM9 t"
    using ipc_words_arrive_in_order [OF i r] by blast
  moreover have "fifo_contents ARM9 ipc_reset = []" by (simp add: fifo_contents_def ipc_reset_fields)
  moreover have a: "acc = [1, 2]" and g: "length got = 2"
    using r by (auto simp: ipc_reset_fields fifo_send_def fifo_recv_def fifo_room_def Let_def)
  ultimately have "[1, 2] = got @ fifo_contents ARM9 t" by (simp only: append_Nil)
  then have "take (length got) [1, 2] = got" by simp
  then have "got = [1, 2]" unfolding g by simp
  then show ?thesis by (simp only: r fst_conv snd_conv)
qed

text \<open>
  C23. IPC interrupts and synchronisation, on every edge the code documents. A send requests the
  receiver's not-empty interrupt exactly when it was accepted into an empty queue and that receiver
  enabled it; a receive requests the sender's empty interrupt exactly when it took the last word and
  that sender enabled it; a write of the FIFO control register requests the writer's own send-empty
  interrupt exactly when it turns that enable on over an empty or just cleared send queue, and its
  not-empty interrupt exactly when it turns that enable on while the other processor's queue holds
  words; an IPCSYNC write shows its data nibble in the other processor's read and strobes
  the other's interrupt exactly when asked to and enabled there; no other request flag changes.
\<close>

theorem ipc_interrupts:
  "g_if (fifo_send c v s) = (if fifo_room c s \<and> fifo_contents c s = [] \<and> bit (g_fifocnt s (other_cpu c)) 10
      then (g_if s)(other_cpu c := g_if s (other_cpu c) OR 0x40000) else g_if s)
   \<and> g_if (snd (fifo_recv c s)) = (if length (fifo_contents (other_cpu c) s) = 1 \<and> bit (g_fifocnt s (other_cpu c)) 2
      then (g_if s)(other_cpu c := g_if s (other_cpu c) OR 0x20000) else g_if s)
   \<and> g_if (fifocnt_write c w s) = (g_if s)(c := g_if s c
        OR (if bit w 2 \<and> \<not> bit (g_fifocnt s c) 2 \<and> (bit w 3 \<or> fifo_contents c s = []) then 0x20000 else 0)
        OR (if bit w 10 \<and> \<not> bit (g_fifocnt s c) 10 \<and> fifo_contents (other_cpu c) s \<noteq> [] then 0x40000 else 0))
   \<and> g_if (ipcsync_write c w s) = (if bit w 13 \<and> bit (g_ipcsync_out s (other_cpu c)) 14
      then (g_if s)(other_cpu c := g_if s (other_cpu c) OR 0x10000) else g_if s)
   \<and> ipcsync_read (other_cpu c) (ipcsync_write c w s) AND 0xF = drop_bit 8 w AND 0xF"
proof (intro conjI)
  show "g_if (fifo_send c v s) = (if fifo_room c s \<and> fifo_contents c s = [] \<and> bit (g_fifocnt s (other_cpu c)) 10
      then (g_if s)(other_cpu c := g_if s (other_cpu c) OR 0x40000) else g_if s)"
    by (auto simp: fifo_send_def fifo_room_def fifo_contents_def raise_irq_if Let_def tsts)
  show "g_if (snd (fifo_recv c s)) = (if length (fifo_contents (other_cpu c) s) = 1 \<and> bit (g_fifocnt s (other_cpu c)) 2
      then (g_if s)(other_cpu c := g_if s (other_cpu c) OR 0x20000) else g_if s)"
    by (auto simp: fifo_recv_def fifo_contents_def raise_irq_if Let_def tsts)
  show "g_if (fifocnt_write c w s) = (g_if s)(c := g_if s c
        OR (if bit w 2 \<and> \<not> bit (g_fifocnt s c) 2 \<and> (bit w 3 \<or> fifo_contents c s = []) then 0x20000 else 0)
        OR (if bit w 10 \<and> \<not> bit (g_fifocnt s c) 10 \<and> fifo_contents (other_cpu c) s \<noteq> [] then 0x40000 else 0))"
    by (auto simp: fifocnt_write_def fifo_contents_def raise_irq_if Let_def tsts or.assoc)
  show "g_if (ipcsync_write c w s) = (if bit w 13 \<and> bit (g_ipcsync_out s (other_cpu c)) 14
      then (g_if s)(other_cpu c := g_if s (other_cpu c) OR 0x10000) else g_if s)"
    by (auto simp: ipcsync_write_def raise_irq_if Let_def tsts)
  have "g_ipcsync_out (ipcsync_write c w s) =
      (g_ipcsync_out s)(c := (g_ipcsync_out s c AND NOT 0x4F00) OR (w AND 0x4F00))"
    by (simp add: ipcsync_write_def Let_def)
  moreover have m: "(0x4F00 :: u16) = 0x4000 OR (0x800 OR (0x400 OR (0x200 OR 0x100)))"
    "(0xF :: u16) = 1 OR (2 OR (4 OR 8))" by simp_all
  have "(x AND 0x4F00 OR drop_bit 8 ((y AND NOT 0x4F00) OR (w AND 0x4F00)) AND 0xF) AND 0xF = drop_bit 8 w AND 0xF"
    for x y :: u16
    unfolding m by (rule bit_word_eqI; simp only: bit_and_iff bit_or_iff bit_not_iff bit_drop_bit_eq o_apply bitlits; auto)
  ultimately show "ipcsync_read (other_cpu c) (ipcsync_write c w s) AND 0xF = drop_bit 8 w AND 0xF"
    by (simp add: ipcsync_read_def Let_def)
qed

end
