(* ===== verification/Dma.thy ===== *)
theory Dma
  imports IpcChannel
begin

text \<open>
  The eight DMA channels of \<open>runner/src/io.cpp\<close>: register access, channel start, the bus timing
  model with the main-RAM burst tables, and the transfer loop.  Bus accesses and the geometry
  engine's FIFO request are parameters.  Shown: every unit costs time, so a run makes progress and
  ends; a started channel carries the programmed count; and a completed transfer moves exactly
  the block it was programmed to move.
\<close>

section \<open>State\<close>

record io_regs = ipc +
  g_exmemcnt :: "nds_cpu \<Rightarrow> u16"
  g_powercontrol7 :: u16
  g_wifiwaitcnt :: u16
  g_gxfifo_stall :: bool

datatype dma_region = DVoid | DMain | DWram | DIo | DPalette | DVram | DOam | DGbaRom | DGbaRam | DWifi

record dma_timing =
  t_n :: u32
  t_s :: u32
  t_region :: dma_region
  t_bus_width :: u8

text \<open>\<open>static constexpr uint8_t n[4] = {10, 8, 6, 18}\<close>\<close>

definition wait_n :: "u16 \<Rightarrow> u32" where
  "wait_n k = (if k = 0 then 10 else if k = 1 then 8 else if k = 2 then 6 else 18)"

definition gba_owner :: "nds_cpu \<Rightarrow> 'a io_regs_scheme \<Rightarrow> bool" where
  "gba_owner cpu s \<longleftrightarrow> (g_exmemcnt s ARM9 AND 0x0080 \<noteq> 0) = (cpu = ARM7)"

definition dma_timing_base :: "nds_cpu \<Rightarrow> u32 \<Rightarrow> 'a io_regs_scheme \<Rightarrow> dma_timing" where
  "dma_timing_base cpu addr s =
    (let void = \<lparr>t_n = 1, t_s = 1, t_region = DVoid, t_bus_width = 32\<rparr> in
     if addr \<ge> 0x02000000 \<and> addr < 0x03000000 then \<lparr>t_n = 8, t_s = 1, t_region = DMain, t_bus_width = 16\<rparr>
     else if addr \<ge> 0x03000000 \<and> addr < 0x04000000 then \<lparr>t_n = 1, t_s = 1, t_region = DWram, t_bus_width = 32\<rparr>
     else if cpu = ARM7 \<and> addr \<ge> 0x04800000 \<and> addr < 0x04810000 \<and> g_powercontrol7 s AND 0x0002 \<noteq> 0 then
       (let w = g_wifiwaitcnt s in
        if addr < 0x04808000
        then \<lparr>t_n = wait_n (w AND 3), t_s = (if w AND 0x4 \<noteq> 0 then 4 else 6), t_region = DWifi, t_bus_width = 16\<rparr>
        else \<lparr>t_n = wait_n (drop_bit 3 w AND 3), t_s = (if w AND 0x20 \<noteq> 0 then 4 else 10),
               t_region = DWifi, t_bus_width = 16\<rparr>)
     else if addr \<ge> 0x04000000 \<and> addr < 0x05000000 then \<lparr>t_n = 1, t_s = 1, t_region = DIo, t_bus_width = 32\<rparr>
     else if addr \<ge> 0x05000000 \<and> addr < 0x06000000 then \<lparr>t_n = 1, t_s = 1, t_region = DPalette, t_bus_width = 16\<rparr>
     else if addr \<ge> 0x06000000 \<and> addr < 0x07000000 then \<lparr>t_n = 1, t_s = 1, t_region = DVram, t_bus_width = 16\<rparr>
     else if addr \<ge> 0x07000000 \<and> addr < 0x08000000 then \<lparr>t_n = 1, t_s = 1, t_region = DOam, t_bus_width = 32\<rparr>
     else if addr \<ge> 0x08000000 \<and> addr < 0x0A000000 then
       (if gba_owner cpu s then
          (let ex = g_exmemcnt s cpu in
           \<lparr>t_n = wait_n (drop_bit 2 ex AND 3), t_s = (if ex AND 0x10 \<noteq> 0 then 4 else 6),
            t_region = DGbaRom, t_bus_width = 16\<rparr>)
        else void)
     else if addr \<ge> 0x0A000000 \<and> addr < 0x0B000000 then
       (if gba_owner cpu s then
          (let wait = wait_n (g_exmemcnt s cpu AND 3) in
           \<lparr>t_n = wait, t_s = wait, t_region = DGbaRam, t_bus_width = 32\<rparr>)
        else void)
     else void)"

definition dma_timing :: "nds_cpu \<Rightarrow> u32 \<Rightarrow> u32 \<Rightarrow> 'a io_regs_scheme \<Rightarrow> dma_timing" where
  "dma_timing cpu addr width s =
    (let t = dma_timing_base cpu addr s in
     if width \<ge> 4 \<and> t_bus_width t = 16 then t\<lparr>t_n := t_n t + t_s t, t_s := t_s t + t_s t\<rparr> else t)"

definition dma_same_bank :: "dma_region \<Rightarrow> dma_region \<Rightarrow> bool" where
  "dma_same_bank a b \<longleftrightarrow> a = b \<and> a \<noteq> DVoid"

section \<open>Main-RAM burst tables\<close>

definition mram_read16 :: "u32 \<Rightarrow> u32 \<Rightarrow> u32" where
  "mram_read16 table index =
    (if table = 0 then
       (let p = index mod 240 in
        if p = 0 \<or> p = 119 \<or> p = 238 then 7 else if p = 1 \<or> p = 120 \<or> p = 239 then 3 else 2)
     else if table = 1 then (let p = index mod 96 in if p = 0 then 8 else if p = 1 then 6 else 5)
     else (let p = index mod 240 in
           if p = 0 then 10 else if p mod 34 = 0 then 12
           else if p = 1 \<or> (p > 1 \<and> (p - 1) mod 34 = 0) then 8 else 7))"

definition mram_read32 :: "u32 \<Rightarrow> u32 \<Rightarrow> u32" where
  "mram_read32 table index =
    (if table = 0 then (let p = index mod 80 in if p = 0 \<or> p = 79 then 9 else if p = 1 then 4 else 3)
     else if table = 1 then (let p = index mod 118 in if p = 0 then 9 else if p = 1 then 3 else 2)
     else if table = 2 then
       (let p = index mod 136 in
        if p = 0 then 14 else if p mod 27 = 0 then 13
        else if p = 1 \<or> (p > 1 \<and> (p - 1) mod 27 = 0) then 10 else 9)
     else (let p = index mod 96 in
        if p = 0 then 18 else if p mod 19 = 0 then 17
        else if p = 1 \<or> (p > 1 \<and> (p - 1) mod 19 = 0) then 14 else 13))"

definition mram_write16 :: "u32 \<Rightarrow> u32 \<Rightarrow> u32" where
  "mram_write16 table index =
    (let t = unat table; p = index mod ([120, 48, 35] ! t) in
     if p = 0 then [8, 10, 9] ! t else [2, 5, 7] ! t)"

definition mram_write32 :: "u32 \<Rightarrow> u32 \<Rightarrow> u32" where
  "mram_write32 table index =
    (let t = unat table; p = index mod ([60, 80, 24, 18] ! t) in
     if p = 0 then [9, 9, 15, 16] ! t else [4, 3, 10, 14] ! t)"

text \<open>The cost of one unit of channel \<open>d\<close>; the channel's burst index advances.\<close>

definition dma_unit_cost :: "nds_cpu \<Rightarrow> dma_channel \<Rightarrow> u32 \<Rightarrow> 'a io_regs_scheme \<Rightarrow> u32" where
  "dma_unit_cost cpu d width s =
    (let src = dma_timing cpu (d_cur_src d) width s; dst = dma_timing cpu (d_cur_dst d) width s;
         first = d_burst_start d; i = ucast (d_burst_index d) in
     if t_region src = DMain \<and> t_region dst = DMain then (if width \<ge> 4 then 18 else 16)
     else if d_dst_inc d > 0 \<and> t_region dst = DMain then
       (if width \<ge> 4 then
          mram_write32 (if t_region src = DGbaRom \<or> t_region src = DWifi then (if t_s src = 8 then 2 else 3)
                        else (if t_n src = 2 then 0 else 1)) i
        else mram_write16 (if t_region src = DGbaRom \<or> t_region src = DWifi then (if t_s src = 4 then 1 else 2)
                           else 0) i)
     else if d_src_inc d > 0 \<and> t_region src = DMain then
       (if width \<ge> 4 then
          mram_read32 (if t_region dst = DGbaRom \<or> t_region dst = DWifi then (if t_s dst = 8 then 2 else 3)
                       else (if t_n dst = 2 then 0 else 1)) i
        else mram_read16 (if t_region dst = DGbaRom \<or> t_region dst = DWifi then (if t_s dst = 4 then 1 else 2)
                          else 0) i)
     else if t_region src = DMain then
       (if width \<ge> 4 then (if d_cur_src d AND 0x1F = 0x1C then (if t_n dst = 2 then 7 else 8) else 9)
        else (if d_cur_src d AND 0x1F = 0x1E then 7 else 8)) + (if first then t_n dst else t_s dst)
     else if t_region dst = DMain then (if first then t_n src else t_s src) + (if width \<ge> 4 then 8 else 7)
     else if dma_same_bank (t_region src) (t_region dst) then t_n src + t_n dst + 1
     else if first then t_n src + t_n dst else t_s src + t_s dst)"

definition dma_unit_cycles :: "nds_cpu \<Rightarrow> dma_channel \<Rightarrow> u32 \<Rightarrow> 'a io_regs_scheme \<Rightarrow> u32 \<times> dma_channel" where
  "dma_unit_cycles cpu d width s =
    (dma_unit_cost cpu d width s, d\<lparr>d_burst_index := d_burst_index d + 1\<rparr>)"

section \<open>Registers and start\<close>

definition put_channel :: "nds_cpu \<Rightarrow> nat \<Rightarrow> dma_channel \<Rightarrow> 'a rt_scheme \<Rightarrow> 'a rt_scheme" where
  "put_channel cpu ch d s = s\<lparr>g_dma := (g_dma s)(cpu := (g_dma s cpu)(ch := d))\<rparr>"

definition dma_count_mask :: "nds_cpu \<Rightarrow> nat \<Rightarrow> u32" where
  "dma_count_mask cpu ch = (if cpu = ARM9 then 0x001FFFFF else if ch = 3 then 0x0000FFFF else 0x00003FFF)"

definition dma_start :: "nds_cpu \<Rightarrow> nat \<Rightarrow> 'a rt_scheme \<Rightarrow> 'a rt_scheme" where
  "dma_start cpu ch s =
    (let d = g_dma s cpu ch in
     if d_running d \<or> d_cnt d AND 0x80000000 = 0 then s
     else
       let was_running = dma_any_running cpu s;
           d = (if \<not> d_in_progress d then
                  let mask = dma_count_mask cpu ch;
                      d = d\<lparr>d_remaining := d_cnt d AND mask\<rparr>;
                      d = (if d_remaining d = 0 then d\<lparr>d_remaining := mask + 1\<rparr> else d);
                      d = (if d_cnt d AND 0x01800000 = 0x01800000 then d\<lparr>d_cur_src := d_src d\<rparr> else d);
                      d = (if d_cnt d AND 0x00600000 = 0x00600000 then d\<lparr>d_cur_dst := d_dst d\<rparr> else d) in d
                else d);
           d = d\<lparr>d_burst_index := 0, d_burst_start := True, d_running := True, d_in_progress := True\<rparr>;
           s = request_yield_poll (put_channel cpu ch d s) in
       if \<not> was_running then s\<lparr>g_dma_entry_cycle := (g_dma_entry_cycle s)(cpu := g_runtime_cycles s)\<rparr> else s)"

text \<open>\<open>check\<close> is \<open>nds_gpu3d_check_fifo_dma\<close>, the geometry engine's FIFO-level request.\<close>

definition dma_write_count ::
  "('a rt_scheme \<Rightarrow> 'a rt_scheme) \<Rightarrow> nds_cpu \<Rightarrow> nat \<Rightarrow> u32 \<Rightarrow> 'a rt_scheme \<Rightarrow> 'a rt_scheme" where
  "dma_write_count check cpu ch value s =
    (let d = g_dma s cpu ch; old = d_cnt d; d = d\<lparr>d_cnt := value\<rparr> in
     if old AND 0x80000000 = 0 \<and> value AND 0x80000000 \<noteq> 0 then
       let dsel = value AND 0x00600000; ssel = value AND 0x01800000;
           d = d\<lparr>d_cur_src := d_src d, d_cur_dst := d_dst d,
                 d_dst_inc := (if dsel = 0 then 1 else if dsel = 0x00200000 then - 1
                               else if dsel = 0x00400000 then 0 else 1),
                 d_src_inc := (if ssel = 0 then 1 else if ssel = 0x00800000 then - 1
                               else if ssel = 0x01000000 then 0 else 1),
                 d_start_mode := (if cpu = ARM9 then ucast (drop_bit 27 value AND 7)
                                  else ucast ((drop_bit 28 value AND 3) OR 0x10))\<rparr>;
           s = put_channel cpu ch d s in
       if d_start_mode d AND 7 = 0 then dma_start cpu ch s
       else if cpu = ARM9 \<and> d_start_mode d = 7 then check s
       else s
     else put_channel cpu ch d s)"

definition dma_reg_addr :: "u32 \<Rightarrow> bool" where
  "dma_reg_addr addr \<longleftrightarrow> addr \<ge> 0x040000B0 \<and> addr < 0x040000E0"

definition dma_reg_read :: "nds_cpu \<Rightarrow> u32 \<Rightarrow> u32 \<Rightarrow> 'a rt_scheme \<Rightarrow> u32" where
  "dma_reg_read cpu addr width s =
    (let rel = addr - 0x040000B0; ch = unat (rel div 12); off = rel mod 12;
         regoff = off AND NOT 3; shift = unat ((off AND 3) * 8);
         d = g_dma s cpu ch;
         reg = (if regoff = 0 then d_src d else if regoff = 4 then d_dst d else d_cnt d);
         mask = (if width \<ge> 4 then 0xFFFFFFFF else push_bit (unat (width * 8)) 1 - 1) in
     drop_bit shift reg AND mask)"

definition dma_reg_write ::
  "('a rt_scheme \<Rightarrow> 'a rt_scheme) \<Rightarrow> nds_cpu \<Rightarrow> u32 \<Rightarrow> u32 \<Rightarrow> u32 \<Rightarrow> 'a rt_scheme \<Rightarrow> 'a rt_scheme" where
  "dma_reg_write check cpu addr value width s =
    (let rel = addr - 0x040000B0; ch = unat (rel div 12); off = rel mod 12;
         regoff = off AND NOT 3; shift = unat ((off AND 3) * 8);
         field = (if width \<ge> 4 then 0xFFFFFFFF else push_bit shift (push_bit (unat (width * 8)) 1 - 1));
         d = g_dma s cpu ch;
         reg = (if regoff = 0 then d_src d else if regoff = 4 then d_dst d else d_cnt d);
         merged = (reg AND NOT field) OR (push_bit shift value AND field) in
     if regoff = 8 then dma_write_count check cpu ch merged s
     else if regoff = 0 then put_channel cpu ch (d\<lparr>d_src := merged\<rparr>) s
     else if regoff = 4 then put_channel cpu ch (d\<lparr>d_dst := merged\<rparr>) s
     else put_channel cpu ch (d\<lparr>d_cnt := merged\<rparr>) s)"

definition nds_dma_trigger :: "nds_cpu \<Rightarrow> u32 \<Rightarrow> 'a rt_scheme \<Rightarrow> 'a rt_scheme" where
  "nds_dma_trigger cpu start_mode s =
    fold (\<lambda>ch s. if d_cnt (g_dma s cpu ch) AND 0x80000000 \<noteq> 0 \<and> ucast (d_start_mode (g_dma s cpu ch)) = start_mode
                 then dma_start cpu ch s else s) [0..<4] s"

section \<open>Transfer loop\<close>

record 's dma_bus =
  bus_read32 :: "u32 \<Rightarrow> 's \<Rightarrow> u32 \<times> 's"
  bus_read16 :: "u32 \<Rightarrow> 's \<Rightarrow> u16 \<times> 's"
  bus_write32 :: "u32 \<Rightarrow> u32 \<Rightarrow> 's \<Rightarrow> 's"
  bus_write16 :: "u32 \<Rightarrow> u16 \<Rightarrow> 's \<Rightarrow> 's"
  check_fifo_dma :: "'s \<Rightarrow> 's"

definition dma_advance :: "u32 \<Rightarrow> dma_channel \<Rightarrow> dma_channel" where
  "dma_advance width d = d\<lparr>
     d_cur_src := word_of_int (uint (d_cur_src d) + d_src_inc d * uint width),
     d_cur_dst := word_of_int (uint (d_cur_dst d) + d_dst_inc d * uint width),
     d_remaining := d_remaining d - 1, d_burst_start := False\<rparr>"

text \<open>One iteration: charge the unit, move it, advance the channel.\<close>

definition dma_move :: "'a io_regs_scheme dma_bus \<Rightarrow> nds_cpu \<Rightarrow> nat \<Rightarrow> u32 \<Rightarrow> 'a io_regs_scheme \<Rightarrow> 'a io_regs_scheme" where
  "dma_move bus cpu ch width s =
    (let (unit, d) = dma_unit_cycles cpu (g_dma s cpu ch) width s;
         s = put_channel cpu ch d s;
         s = s\<lparr>g_runtime_cycles := g_runtime_cycles s + push_bit (if cpu = ARM9 then 1 else 0) (ucast unit)\<rparr>;
         d = g_dma s cpu ch;
         s = (if width = 4 then
                (let (v, s) = bus_read32 bus (d_cur_src d AND NOT 3) s in
                 bus_write32 bus (d_cur_dst (g_dma s cpu ch) AND NOT 3) v s)
              else
                (let (v, s) = bus_read16 bus (d_cur_src d AND NOT 1) s in
                 bus_write16 bus (d_cur_dst (g_dma s cpu ch) AND NOT 1) v s)) in
     put_channel cpu ch (dma_advance width (g_dma s cpu ch)) s)"

text \<open>The \<open>while\<close> loop, at most \<open>fuel\<close> iterations; the count of units still allowed comes back.\<close>

fun dma_loop :: "'a io_regs_scheme dma_bus \<Rightarrow> nds_cpu \<Rightarrow> nat \<Rightarrow> u32 \<Rightarrow> u64 \<Rightarrow> nat \<Rightarrow> u32 \<Rightarrow>
    'a io_regs_scheme \<Rightarrow> (u32 \<times> 'a io_regs_scheme) option" where
  "dma_loop bus cpu ch width target 0 req s =
    (if d_remaining (g_dma s cpu ch) \<noteq> 0 \<and> g_runtime_cycles s < target then None else Some (req, s))"
| "dma_loop bus cpu ch width target (Suc fuel) req s =
    (if d_remaining (g_dma s cpu ch) \<noteq> 0 \<and> g_runtime_cycles s < target then
       let s = dma_move bus cpu ch width s; req = req - 1 in
       if req = 0 then Some (req, s)
       else if ch > 0 \<and> cpu = ARM9 \<and> g_gxfifo_stall s then Some (req, s)
       else dma_loop bus cpu ch width target fuel req s
     else Some (req, s))"

definition dma_finish :: "nds_cpu \<Rightarrow> nat \<Rightarrow> 'a io_regs_scheme \<Rightarrow> 'a io_regs_scheme" where
  "dma_finish cpu ch s =
    (let d = g_dma s cpu ch;
         d = (if d_cnt d AND 0x02000000 = 0 then d\<lparr>d_cnt := d_cnt d AND NOT 0x80000000\<rparr> else d);
         s = put_channel cpu ch d s;
         s = (if d_cnt d AND 0x40000000 \<noteq> 0 then nds_raise_irq cpu (push_bit (8 + ch) 1) s else s);
         d = g_dma s cpu ch in
     put_channel cpu ch (d\<lparr>d_running := False, d_in_progress := False\<rparr>) s)"

definition dma_run_channel :: "'a io_regs_scheme dma_bus \<Rightarrow> nds_cpu \<Rightarrow> u64 \<Rightarrow> nat \<Rightarrow> nat \<Rightarrow>
    'a io_regs_scheme \<Rightarrow> 'a io_regs_scheme option" where
  "dma_run_channel bus cpu target fuel ch s =
    (let d = g_dma s cpu ch in
     if cpu = ARM9 \<and> ch > 0 \<and> g_gxfifo_stall s then Some s
     else if \<not> d_running d \<or> g_runtime_cycles s \<ge> target then Some s
     else
       let width = (if d_cnt d AND 0x04000000 \<noteq> 0 then 4 else 2);
           gamecard = (d_start_mode d = (if cpu = ARM9 then 5 else 0x12));
           gxfifo = (cpu = ARM9 \<and> d_start_mode d = 7);
           request_units = (if gamecard then 1 else if gxfifo then 112 else 0xFFFFFFFF) in
       do {
         (req, s) \<leftarrow> dma_loop bus cpu ch width target fuel request_units s;
         let d = g_dma s cpu ch;
         if d_remaining d \<noteq> 0 then
           if gamecard then Some (put_channel cpu ch (d\<lparr>d_running := False\<rparr>) s)
           else if gxfifo \<and> req = 0 then Some (check_fifo_dma bus (put_channel cpu ch (d\<lparr>d_running := False\<rparr>) s))
           else Some s
         else Some (dma_finish cpu ch s)
       })"

definition nds_dma_run :: "'a io_regs_scheme dma_bus \<Rightarrow> nds_cpu \<Rightarrow> u64 \<Rightarrow> nat \<Rightarrow>
    'a io_regs_scheme \<Rightarrow> 'a io_regs_scheme option" where
  "nds_dma_run bus cpu target fuel s =
    do { s \<leftarrow> dma_run_channel bus cpu target fuel 0 s;
         s \<leftarrow> dma_run_channel bus cpu target fuel 1 s;
         s \<leftarrow> dma_run_channel bus cpu target fuel 2 s;
         dma_run_channel bus cpu target fuel 3 s }"

section \<open>Every unit costs time\<close>

text \<open>\<open>cyc k x\<close>: a cycle count of 1 to \<open>k\<close>.\<close>

definition cyc :: "nat \<Rightarrow> u32 \<Rightarrow> bool" where "cyc k x \<longleftrightarrow> 1 \<le> unat x \<and> unat x \<le> k"

lemma if_in: "P x \<Longrightarrow> P y \<Longrightarrow> P (if b then x else y)"
  by simp

lemma cyc_if: "cyc k x \<Longrightarrow> cyc k y \<Longrightarrow> cyc k (if b then x else y)"
  by simp

lemma cyc_add: "cyc i x \<Longrightarrow> cyc j y \<Longrightarrow> i + j \<le> k \<Longrightarrow> k < 4294967296 \<Longrightarrow> cyc k (x + y)"
  by (simp add: cyc_def unat_word_ariths)

lemma cyc_mono: "cyc i x \<Longrightarrow> i \<le> k \<Longrightarrow> cyc k x"
  by (simp add: cyc_def)

lemma cyc_wait: "cyc 18 (wait_n k)"
  unfolding wait_n_def by (intro cyc_if) (simp_all add: cyc_def)

lemma timing_base_bounds: "cyc 18 (t_n (dma_timing_base cpu a s)) \<and> cyc 18 (t_s (dma_timing_base cpu a s))"
  unfolding dma_timing_base_def Let_def
  by (intro if_in [where P = "\<lambda>t. cyc 18 (t_n t) \<and> cyc 18 (t_s t)"])
    (simp_all add: cyc_wait, simp_all add: cyc_def)

lemma cyc_double: "cyc 18 x \<Longrightarrow> cyc 36 (2 * x)"
  unfolding mult_2 by (rule cyc_add [of 18 _ 18]) simp_all

lemma timing_small: "cyc 36 (t_n (dma_timing cpu a w s))" "cyc 36 (t_s (dma_timing cpu a w s))"
proof -
  let ?t = "dma_timing_base cpu a s"
  have b: "cyc 18 (t_n ?t)" "cyc 18 (t_s ?t)" using timing_base_bounds [of cpu a s] by blast+
  have "cyc 36 (t_n ?t)" "cyc 36 (t_s ?t)" by (rule cyc_mono [OF b(1)] cyc_mono [OF b(2)], simp)+
  moreover have "cyc 36 (t_n ?t + t_s ?t)" using b by (rule cyc_add) simp_all
  ultimately show "cyc 36 (t_n (dma_timing cpu a w s))" "cyc 36 (t_s (dma_timing cpu a w s))"
    using cyc_double [OF b(2)] by (simp_all add: dma_timing_def Let_def)
qed

lemma mram_bounds:
  "cyc 20 (mram_read16 t i)" "cyc 20 (mram_read32 t i)"
  "t \<in> {0, 1, 2} \<Longrightarrow> cyc 20 (mram_write16 t i)" "t \<in> {0, 1, 2, 3} \<Longrightarrow> cyc 20 (mram_write32 t i)"
proof -
  show "cyc 20 (mram_read16 t i)" unfolding mram_read16_def Let_def by (intro cyc_if) (simp_all add: cyc_def)
  show "cyc 20 (mram_read32 t i)" unfolding mram_read32_def Let_def by (intro cyc_if) (simp_all add: cyc_def)
  show "t \<in> {0, 1, 2} \<Longrightarrow> cyc 20 (mram_write16 t i)"
    unfolding mram_write16_def Let_def by (intro cyc_if) (auto simp: cyc_def)
  show "t \<in> {0, 1, 2, 3} \<Longrightarrow> cyc 20 (mram_write32 t i)"
    unfolding mram_write32_def Let_def by (intro cyc_if) (auto simp: cyc_def)
qed

lemma unit_cost_bounds: "cyc 100 (dma_unit_cost cpu d w s)"
proof -
  note t = timing_small [of cpu "d_cur_src d" w s] timing_small [of cpu "d_cur_dst d" w s]
  have lit: "cyc 50 18" "cyc 50 16" "cyc 50 7" "cyc 50 8" "cyc 50 9" "cyc 1 1" by (simp_all add: cyc_def)
  have m: "cyc 100 (mram_read16 x i)" "cyc 100 (mram_read32 x i)"
    "cyc 100 (mram_write32 (if p then (if q then 2 else 3) else (if r then 0 else 1)) i)"
    "cyc 100 (mram_write16 (if p then (if q then 1 else 2) else 0) i)" for x i p q r
    by (rule cyc_mono [OF mram_bounds(1)] cyc_mono [OF mram_bounds(2)] cyc_mono [OF mram_bounds(4)]
        cyc_mono [OF mram_bounds(3)]; simp)+
  show ?thesis
    unfolding dma_unit_cost_def Let_def
    by (intro cyc_if m cyc_add [OF _ _ _ _]) (use t lit in \<open>auto intro: cyc_mono cyc_add\<close>)
qed

section \<open>The transfer loop ends\<close>

text \<open>What a bus access may not touch for the clock argument.\<close>

definition bus_keeps_clock :: "'a io_regs_scheme dma_bus \<Rightarrow> bool" where
  "bus_keeps_clock bus \<longleftrightarrow>
    (\<forall>a s. g_runtime_cycles (snd (bus_read32 bus a s)) = g_runtime_cycles s)
    \<and> (\<forall>a s. g_runtime_cycles (snd (bus_read16 bus a s)) = g_runtime_cycles s)
    \<and> (\<forall>a v s. g_runtime_cycles (bus_write32 bus a v s) = g_runtime_cycles s)
    \<and> (\<forall>a v s. g_runtime_cycles (bus_write16 bus a v s) = g_runtime_cycles s)"

lemma put_channel_simps [simp]:
  "g_runtime_cycles (put_channel cpu ch d s) = g_runtime_cycles s"
  "g_dma (put_channel cpu ch d s) = (g_dma s)(cpu := (g_dma s cpu)(ch := d))"
  "g_if (put_channel cpu ch d s) = g_if s"
  by (simp_all add: put_channel_def)

lemma move_clock:
  assumes "bus_keeps_clock bus"
  shows "g_runtime_cycles (dma_move bus cpu ch w s) = g_runtime_cycles s
    + push_bit (if cpu = ARM9 then 1 else 0) (ucast (dma_unit_cost cpu (g_dma s cpu ch) w s))"
  using assms by (simp add: dma_move_def dma_unit_cycles_def Let_def bus_keeps_clock_def case_prod_beta)

lemma unit_clock:
  "1 \<le> unat (push_bit (if b then 1 else 0) (ucast (dma_unit_cost cpu d w s)) :: u64)"
  "unat (push_bit (if b then 1 else 0) (ucast (dma_unit_cost cpu d w s)) :: u64) \<le> 200"
proof -
  have "unat (ucast (dma_unit_cost cpu d w s) :: u64) = unat (dma_unit_cost cpu d w s)"
    by (simp only: unat_eq_nat_uint uint_ucast_u64)
  moreover have "unat (push_bit 1 x) = 2 * unat x" if "unat x \<le> 100" for x :: u64
    using that by (simp add: push_bit_eq_mult unat_word_ariths)
  ultimately show "1 \<le> unat (push_bit (if b then 1 else 0) (ucast (dma_unit_cost cpu d w s)) :: u64)"
    "unat (push_bit (if b then 1 else 0) (ucast (dma_unit_cost cpu d w s)) :: u64) \<le> 200"
    using unit_cost_bounds [of cpu d w s] by (auto simp: cyc_def)
qed

lemma dma_loop_ends:
  assumes bus: "bus_keeps_clock bus" and t: "unat target \<le> 2 ^ 63"
  shows "unat target \<le> unat (g_runtime_cycles s) + fuel \<Longrightarrow> dma_loop bus cpu ch w target fuel req s \<noteq> None"
proof (induction fuel arbitrary: req s)
  case 0
  then show ?case by (simp add: word_less_nat_alt)
next
  case (Suc fuel)
  let ?c = "push_bit (if cpu = ARM9 then 1 else 0) (ucast (dma_unit_cost cpu (g_dma s cpu ch) w s)) :: u64"
  have "unat target \<le> unat (g_runtime_cycles (dma_move bus cpu ch w s)) + fuel"
    if "g_runtime_cycles s < target"
  proof -
    have "unat (g_runtime_cycles s) < unat target" using that by (simp add: word_less_nat_alt)
    then have "unat (g_runtime_cycles s + ?c) = unat (g_runtime_cycles s) + unat ?c"
      using t unit_clock(2) [of "cpu = ARM9" cpu "g_dma s cpu ch" w s] by (intro unat_add_lem [THEN iffD1]) simp
    then show ?thesis
      using Suc.prems unit_clock(1) [of "cpu = ARM9" cpu "g_dma s cpu ch" w s] by (simp add: move_clock [OF bus])
  qed
  then show ?case using Suc.IH by (simp add: Let_def)
qed

section \<open>A completed transfer is a block copy\<close>

text \<open>
  A bus on which word accesses hit plain memory: \<open>mem\<close> reads it out of the rest of the machine
  and \<open>upd\<close> stores one word.
\<close>

definition plain_memory :: "'a io_regs_scheme dma_bus \<Rightarrow> ('a \<Rightarrow> u32 \<Rightarrow> u32) \<Rightarrow> (u32 \<Rightarrow> u32 \<Rightarrow> 'a \<Rightarrow> 'a) \<Rightarrow> bool" where
  "plain_memory bus mem upd \<longleftrightarrow>
    (\<forall>a s. bus_read32 bus a s = (mem (io_regs.more s) a, s))
    \<and> (\<forall>a v s. bus_write32 bus a v s = io_regs.more_update (upd a v) s)
    \<and> (\<forall>a v m. mem (upd a v m) = (mem m)(a := v))"

fun copy_words :: "nat \<Rightarrow> u32 \<Rightarrow> u32 \<Rightarrow> int \<Rightarrow> int \<Rightarrow> (u32 \<Rightarrow> u32) \<Rightarrow> u32 \<Rightarrow> u32" where
  "copy_words 0 src dst si di m = m"
| "copy_words (Suc n) src dst si di m =
    copy_words n (src + of_int (4 * si)) (dst + of_int (4 * di)) si di (m(dst AND NOT 3 := m (src AND NOT 3)))"

lemma put_channel_more [simp]: "io_regs.more (put_channel cpu ch d s) = io_regs.more s"
  "g_gxfifo_stall (put_channel cpu ch d s) = g_gxfifo_stall s"
  by (simp_all add: put_channel_def)

lemma advance_addr: "word_of_int (uint (x :: u32) + i * 4) = x + word_of_int (4 * i)"
  by (simp add: wi_hom_syms mult.commute)

lemma move_plain:
  fixes s :: "'a io_regs_scheme" and cpu :: nds_cpu and ch :: nat
  assumes "plain_memory bus mem upd"
  defines "d \<equiv> g_dma s cpu ch"
  shows "mem (io_regs.more (dma_move bus cpu ch 4 s)) =
      (mem (io_regs.more s))(d_cur_dst d AND NOT 3 := mem (io_regs.more s) (d_cur_src d AND NOT 3))"
    "g_dma (dma_move bus cpu ch 4 s) cpu ch = d\<lparr>d_burst_index := d_burst_index d + 1,
      d_cur_src := d_cur_src d + of_int (4 * d_src_inc d), d_cur_dst := d_cur_dst d + of_int (4 * d_dst_inc d),
      d_remaining := d_remaining d - 1, d_burst_start := False\<rparr>"
    "g_runtime_cycles (dma_move bus cpu ch 4 s) = g_runtime_cycles s
      + push_bit (if cpu = ARM9 then 1 else 0) (ucast (dma_unit_cost cpu d 4 s))"
    "g_if (dma_move bus cpu ch 4 s) = g_if s"
    "g_gxfifo_stall (dma_move bus cpu ch 4 s) = g_gxfifo_stall s"
  using assms(1) unfolding d_def plain_memory_def
  by (simp_all add: dma_move_def dma_unit_cycles_def Let_def dma_advance_def advance_addr mult.commute [of _ 4])

lemma loop_plain:
  assumes p: "plain_memory bus mem upd" and t: "unat target \<le> 2 ^ 63"
    and g: "\<not> (ch > 0 \<and> cpu = ARM9 \<and> g_gxfifo_stall s)"
  shows "unat (d_remaining (g_dma s cpu ch)) = n \<Longrightarrow> n \<le> fuel \<Longrightarrow> n < unat req \<Longrightarrow>
    unat (g_runtime_cycles s) + 200 * n \<le> unat target \<Longrightarrow>
    \<exists>s'. dma_loop bus cpu ch 4 target fuel req s = Some (req - word_of_nat n, s')
      \<and> mem (io_regs.more s') = copy_words n (d_cur_src (g_dma s cpu ch)) (d_cur_dst (g_dma s cpu ch))
          (d_src_inc (g_dma s cpu ch)) (d_dst_inc (g_dma s cpu ch)) (mem (io_regs.more s))
      \<and> d_remaining (g_dma s' cpu ch) = 0 \<and> d_cnt (g_dma s' cpu ch) = d_cnt (g_dma s cpu ch) \<and> g_if s' = g_if s"
  using g
proof (induction n arbitrary: s req fuel)
  case 0
  then have "d_remaining (g_dma s cpu ch) = 0" by (simp add: unat_eq_zero)
  then show ?case by (cases fuel) simp_all
next
  case (Suc n)
  obtain f where fuel: "fuel = Suc f" using Suc.prems(2) by (cases fuel) auto
  let ?d = "g_dma s cpu ch" and ?s = "dma_move bus cpu ch 4 s"
  let ?c = "push_bit (if cpu = ARM9 then 1 else 0) (ucast (dma_unit_cost cpu ?d 4 s)) :: u64"
  note m = move_plain [OF p, of cpu ch s]
  note c = unit_clock [of "cpu = ARM9" cpu ?d 4 s]
  have nz: "d_remaining ?d \<noteq> 0" using Suc.prems(1) by auto
  have lt: "g_runtime_cycles s < target" using Suc.prems(4) by (simp add: word_less_nat_alt)
  have clk: "unat (g_runtime_cycles s + ?c) = unat (g_runtime_cycles s) + unat ?c"
    using t c(2) Suc.prems(4) by (intro unat_add_lem [THEN iffD1]) simp
  have r: "unat (req - 1) = unat req - 1" using Suc.prems(3) by (intro unat_minus_one) auto
  have nz': "req - 1 \<noteq> 0"
  proof
    assume "req - 1 = 0"
    then have "unat (req - 1) = 0" by simp
    then show False using r Suc.prems(3) by simp
  qed
  have "\<exists>s'. dma_loop bus cpu ch 4 target f (req - 1) ?s = Some (req - 1 - word_of_nat n, s')
      \<and> mem (io_regs.more s') = copy_words n (d_cur_src (g_dma ?s cpu ch)) (d_cur_dst (g_dma ?s cpu ch))
          (d_src_inc (g_dma ?s cpu ch)) (d_dst_inc (g_dma ?s cpu ch)) (mem (io_regs.more ?s))
      \<and> d_remaining (g_dma s' cpu ch) = 0 \<and> d_cnt (g_dma s' cpu ch) = d_cnt (g_dma ?s cpu ch) \<and> g_if s' = g_if ?s"
  proof (rule Suc.IH)
    show "unat (d_remaining (g_dma ?s cpu ch)) = n"
      using Suc.prems(1) nz by (simp add: m unat_minus_one)
    show "n \<le> f" using Suc.prems(2) fuel by simp
    show "n < unat (req - 1)" using r Suc.prems(3) by simp
    show "unat (g_runtime_cycles ?s) + 200 * n \<le> unat target"
      unfolding m(3) clk using c(2) Suc.prems(4) by simp
    show "\<not> (0 < ch \<and> cpu = ARM9 \<and> g_gxfifo_stall ?s)" using Suc.prems(5) by (simp add: m)
  qed
  then show ?case
    using nz lt nz' Suc.prems(5) by (auto simp: fuel m Let_def diff_diff_eq add.commute)
qed

section \<open>Properties\<close>

text \<open>
  C37. DMA block transfer. A running 32-bit channel in a plain start mode, given plain memory, a
  rendezvous far enough ahead and at least as many iterations as units, copies word by word,
  in order, from its source to its destination with the programmed steps; it then stops, drops its
  enable bit unless it repeats, and requests its interrupt exactly when asked to.
\<close>

theorem dma_block_transfer:
  fixes s :: "'a io_regs_scheme" and cpu :: nds_cpu and ch :: nat
  defines "d \<equiv> g_dma s cpu ch" and "n \<equiv> unat (d_remaining (g_dma s cpu ch))"
  assumes "plain_memory bus mem upd" and "unat (g_runtime_cycles s) + 200 * n < unat target"
    and "unat target \<le> 2 ^ 63" and "n \<le> fuel" and "n < 2 ^ 32 - 1"
    and "d_running d" and "bit (d_cnt d) 26" and "d_start_mode d \<notin> {5, 7, 0x12}"
    and "\<not> (ch > 0 \<and> cpu = ARM9 \<and> g_gxfifo_stall s)"
  shows "\<exists>t. dma_run_channel bus cpu target fuel ch s = Some t
    \<and> mem (io_regs.more t) = copy_words n (d_cur_src d) (d_cur_dst d) (d_src_inc d) (d_dst_inc d) (mem (io_regs.more s))
    \<and> \<not> d_running (g_dma t cpu ch) \<and> \<not> d_in_progress (g_dma t cpu ch)
    \<and> d_cnt (g_dma t cpu ch) = (if bit (d_cnt d) 25 then d_cnt d else d_cnt d AND NOT 0x80000000)
    \<and> g_if t = (if bit (d_cnt d) 30 then (g_if s)(cpu := g_if s cpu OR push_bit (8 + ch) 1) else g_if s)"
proof -
  have req: "n < unat (0xFFFFFFFF :: u32)" using assms(7) by simp
  have le: "unat (g_runtime_cycles s) + 200 * n \<le> unat target" using assms(4) by simp
  have nn: "unat (d_remaining (g_dma s cpu ch)) = n" by (simp add: n_def)
  obtain s' where l: "dma_loop bus cpu ch 4 target fuel 0xFFFFFFFF s = Some (0xFFFFFFFF - word_of_nat n, s')"
    and s': "mem (io_regs.more s') = copy_words n (d_cur_src d) (d_cur_dst d) (d_src_inc d) (d_dst_inc d) (mem (io_regs.more s))"
      "d_remaining (g_dma s' cpu ch) = 0" "d_cnt (g_dma s' cpu ch) = d_cnt d" "g_if s' = g_if s"
    using loop_plain [OF assms(3,5,11) nn assms(6) req le] unfolding d_def by blast
  have lt: "\<not> target \<le> g_runtime_cycles s" using assms(4) by (simp add: word_le_nat_alt)
  have run: "dma_run_channel bus cpu target fuel ch s = Some (dma_finish cpu ch s')"
    using assms(8-11) lt l s'(2) unfolding d_def
    by (auto simp: dma_run_channel_def Let_def tsts)
  have clr: "bit (d_cnt d AND NOT 0x80000000) 30 \<longleftrightarrow> bit (d_cnt d) 30"
    by (simp only: bit_and_iff bit_not_iff bitlits) simp
  have "mem (io_regs.more (dma_finish cpu ch s')) = mem (io_regs.more s')"
    "\<not> d_running (g_dma (dma_finish cpu ch s') cpu ch)" "\<not> d_in_progress (g_dma (dma_finish cpu ch s') cpu ch)"
    by (simp_all add: dma_finish_def Let_def nds_raise_irq_def irq_recompute_def runtime_clear_fast_limit_def)
  moreover have "d_cnt (g_dma (dma_finish cpu ch s') cpu ch)
      = (if bit (d_cnt d) 25 then d_cnt d else d_cnt d AND NOT 0x80000000)"
    by (simp add: dma_finish_def Let_def nds_raise_irq_def irq_recompute_def runtime_clear_fast_limit_def s'(3) tsts)
  moreover have "g_if (dma_finish cpu ch s')
      = (if bit (d_cnt d) 30 then (g_if s)(cpu := g_if s cpu OR push_bit (8 + ch) 1) else g_if s)"
    unfolding dma_finish_def Let_def using clr s'(3,4)
    by (simp add: raise_irq_if tsts)
  ultimately show ?thesis using run s'(1) by simp
qed

text \<open>Flat memory, for the concrete runs.\<close>

definition flat_ram :: "(u32 \<Rightarrow> u32) io_regs_scheme dma_bus" where
  "flat_ram = \<lparr>bus_read32 = (\<lambda>a s. (io_regs.more s a, s)), bus_read16 = (\<lambda>a s. (ucast (io_regs.more s a), s)),
    bus_write32 = (\<lambda>a v s. io_regs.more_update (\<lambda>m. m(a := v)) s),
    bus_write16 = (\<lambda>a v s. io_regs.more_update (\<lambda>m. m(a := ucast v)) s), check_fifo_dma = (\<lambda>s. s)\<rparr>"

definition flat_machine :: "(u32 \<Rightarrow> u32) \<Rightarrow> dma_channel \<Rightarrow> (u32 \<Rightarrow> u32) io_regs_scheme" where
  "flat_machine m d = put_channel ARM9 3 d (io_regs.extend (ipc.extend ipc_reset
     (io_regs.fields (\<lambda>_. 0x4000) 1 0 False)) m)"

lemma flat_plain: "plain_memory flat_ram id (\<lambda>a v m. m(a := v))"
  by (simp add: plain_memory_def flat_ram_def)

text \<open>
  C38. The transfer loop always ends. As long as bus accesses do not move the clock themselves, a
  channel run returns when it is given as many iterations as there are cycles to the rendezvous,
  because every unit costs between 1 and 200 cycles of its processor's clock.
\<close>

theorem dma_loop_terminates:
  assumes "bus_keeps_clock bus" and "unat target \<le> 2 ^ 63"
    and "unat target \<le> unat (g_runtime_cycles s) + fuel"
  shows "\<exists>t. dma_run_channel bus cpu target fuel ch s = Some t"
proof -
  let ?d = "g_dma s cpu ch"
  let ?w = "if d_cnt ?d AND 0x04000000 \<noteq> 0 then 4 else 2 :: u32"
  let ?q = "if d_start_mode ?d = (if cpu = ARM9 then 5 else 0x12) then 1
    else if cpu = ARM9 \<and> d_start_mode ?d = 7 then 112 else 0xFFFFFFFF :: u32"
  obtain r t where l: "dma_loop bus cpu ch ?w target fuel ?q s = Some (r, t)"
    using dma_loop_ends [OF assms] by (metis option.exhaust surj_pair)
  show ?thesis
    unfolding dma_run_channel_def Let_def l by simp
qed

lemma flat_machine_fields:
  "g_dma (flat_machine m d) ARM9 3 = d" "g_runtime_cycles (flat_machine m d) = 0"
  "io_regs.more (flat_machine m d) = m" "g_gxfifo_stall (flat_machine m d) = False"
  by (simp_all add: flat_machine_def put_channel_def ipc_reset_def rt_initial_def rt.defs ipc.defs io_regs.defs)

text \<open>A channel moving two words upwards.\<close>

definition two_words :: dma_channel where
  "two_words = \<lparr>d_src = 0x2000000, d_dst = 0x2000100, d_cnt = 0x84000002, d_cur_src = 0x2000000,
    d_cur_dst = 0x2000100, d_remaining = 2, d_src_inc = 1, d_dst_inc = 1, d_start_mode = 0, d_burst_index = 0,
    d_running = True, d_in_progress = True, d_burst_start = True\<rparr>"

lemma two_words_simps [simp]:
  "d_cur_src two_words = 0x2000000" "d_cur_dst two_words = 0x2000100" "d_src_inc two_words = 1"
  "d_dst_inc two_words = 1" "d_remaining two_words = 2" "d_running two_words" "d_start_mode two_words = 0"
  by (simp_all add: two_words_def)

lemma dma_block_transfer_witness:
  "\<exists>t. dma_run_channel flat_ram ARM9 1000 2 3 (flat_machine (\<lambda>a. a + 5) two_words) = Some t
    \<and> io_regs.more t 0x2000104 = 0x2000009 \<and> \<not> d_running (g_dma t ARM9 3)"
proof -
  let ?s = "flat_machine (\<lambda>a. a + 5) two_words"
  have bit26: "bit (d_cnt (g_dma ?s ARM9 3)) 26"
    by (simp add: flat_machine_fields two_words_def bit_iff_odd)
  have h: "unat (g_runtime_cycles ?s) + 200 * unat (d_remaining (g_dma ?s ARM9 3)) < unat (1000 :: u64)"
    "unat (d_remaining (g_dma ?s ARM9 3)) \<le> 2" "unat (d_remaining (g_dma ?s ARM9 3)) < 2 ^ 32 - 1"
    "d_running (g_dma ?s ARM9 3)" "d_start_mode (g_dma ?s ARM9 3) \<notin> {5, 7, 0x12}"
    "\<not> (3 > (0::nat) \<and> ARM9 = ARM9 \<and> g_gxfifo_stall ?s)" "unat (1000 :: u64) \<le> 2 ^ 63"
    by (simp_all add: flat_machine_fields)
  obtain t where t: "dma_run_channel flat_ram ARM9 1000 2 3 ?s = Some t"
    and m: "id (io_regs.more t) = copy_words (unat (d_remaining (g_dma ?s ARM9 3))) (d_cur_src (g_dma ?s ARM9 3))
      (d_cur_dst (g_dma ?s ARM9 3)) (d_src_inc (g_dma ?s ARM9 3)) (d_dst_inc (g_dma ?s ARM9 3)) (id (io_regs.more ?s))"
    and r: "\<not> d_running (g_dma t ARM9 3)"
    using dma_block_transfer [OF flat_plain h(1) h(7) h(2) h(3) h(4) bit26 h(5) h(6)] by (elim exE conjE)
  have two: "unat (2 :: u32) = Suc (Suc 0)" by simp
  have "io_regs.more t 0x2000104 = 0x2000009"
    using fun_cong [OF m, of "0x2000104"] unfolding flat_machine_fields two_words_simps two by simp
  with t r show ?thesis by blast
qed

lemma dma_loop_terminates_witness:
  "\<exists>t. dma_run_channel flat_ram ARM9 1000 1000 3 (flat_machine (\<lambda>a. a) two_words) = Some t"
  by (rule dma_loop_terminates) (simp_all add: bus_keeps_clock_def flat_ram_def flat_machine_fields)

text \<open>
  Programming a channel. Writing a disabled channel's control word with the enable bit and an
  immediate start mode latches the source and destination, loads the count (zero meaning the
  maximum of the channel), starts it with a fresh burst and has its processor's poll re-armed.
\<close>

lemma dma_start_fresh:
  assumes "\<not> d_running (g_dma s cpu ch)" "\<not> d_in_progress (g_dma s cpu ch)" "d_cnt (g_dma s cpu ch) AND 0x80000000 \<noteq> 0"
  defines "d \<equiv> g_dma s cpu ch"
  shows "g_nds_fast_limit (dma_start cpu ch s) = 0"
    and "\<exists>src dst. g_dma (dma_start cpu ch s) cpu ch = d\<lparr>
      d_remaining := (if d_cnt d AND dma_count_mask cpu ch = 0 then dma_count_mask cpu ch + 1 else d_cnt d AND dma_count_mask cpu ch),
      d_cur_src := src, d_cur_dst := dst, d_burst_index := 0, d_burst_start := True, d_running := True, d_in_progress := True\<rparr>
      \<and> (src = d_src d \<or> src = d_cur_src d) \<and> (dst = d_dst d \<or> dst = d_cur_dst d)"
proof -
  define r where "r = (if d_cnt d AND dma_count_mask cpu ch = 0 then dma_count_mask cpu ch + 1 else d_cnt d AND dma_count_mask cpu ch)"
  define src where "src = (if d_cnt d AND 0x01800000 = 0x01800000 then d_src d else d_cur_src d)"
  define dst where "dst = (if d_cnt d AND 0x00600000 = 0x00600000 then d_dst d else d_cur_dst d)"
  define e where "e = d\<lparr>d_remaining := r, d_cur_src := src, d_cur_dst := dst, d_burst_index := 0, d_burst_start := True,
      d_running := True, d_in_progress := True\<rparr>"
  define u where "u = request_yield_poll (put_channel cpu ch e s)"
  have a: "\<not> d_running d" "\<not> d_in_progress d" "d_cnt d AND 0x80000000 \<noteq> 0" using assms(1-3) by (simp_all add: d_def)
  have ch: "(let d = (let mask = dma_count_mask cpu ch; d = d\<lparr>d_remaining := d_cnt d AND mask\<rparr>;
        d = (if d_remaining d = 0 then d\<lparr>d_remaining := mask + 1\<rparr> else d);
        d = (if d_cnt d AND 0x01800000 = 0x01800000 then d\<lparr>d_cur_src := d_src d\<rparr> else d);
        d = (if d_cnt d AND 0x00600000 = 0x00600000 then d\<lparr>d_cur_dst := d_dst d\<rparr> else d) in d)
      in d\<lparr>d_burst_index := 0, d_burst_start := True, d_running := True, d_in_progress := True\<rparr>) = e"
    by (simp add: Let_def e_def r_def src_def dst_def)
  have "dma_start cpu ch s = (if \<not> dma_any_running cpu s
      then u\<lparr>g_dma_entry_cycle := (g_dma_entry_cycle u)(cpu := g_runtime_cycles u)\<rparr> else u)"
    unfolding u_def ch [symmetric] dma_start_def Let_def d_def [symmetric] by (simp only: a simp_thms if_True if_False)
  then have "g_nds_fast_limit (dma_start cpu ch s) = 0 \<and> g_dma (dma_start cpu ch s) cpu ch = e"
    by (simp add: u_def request_yield_poll_def)
  then show "g_nds_fast_limit (dma_start cpu ch s) = 0"
    and "\<exists>src dst. g_dma (dma_start cpu ch s) cpu ch = d\<lparr>
      d_remaining := (if d_cnt d AND dma_count_mask cpu ch = 0 then dma_count_mask cpu ch + 1 else d_cnt d AND dma_count_mask cpu ch),
      d_cur_src := src, d_cur_dst := dst, d_burst_index := 0, d_burst_start := True, d_running := True, d_in_progress := True\<rparr>
      \<and> (src = d_src d \<or> src = d_cur_src d) \<and> (dst = d_dst d \<or> dst = d_cur_dst d)"
    unfolding e_def r_def by (blast, intro exI [of _ src] exI [of _ dst]) (simp add: src_def dst_def)
qed

lemma dma_immediate_start:
  fixes s :: "'a rt_scheme" and cpu :: nds_cpu and ch :: nat and v :: u32 and check :: "'a rt_scheme \<Rightarrow> 'a rt_scheme"
  defines "d \<equiv> g_dma s cpu ch" and "t \<equiv> dma_write_count check cpu ch v s"
  assumes off: "\<not> bit (d_cnt d) 31" and on: "bit v 31" and idle: "\<not> d_running d" "\<not> d_in_progress d"
    and mode: "(if cpu = ARM9 then drop_bit 27 v AND 7 else drop_bit 28 v AND 3) = 0"
  shows "d_running (g_dma t cpu ch) \<and> d_cur_src (g_dma t cpu ch) = d_src d \<and> d_cur_dst (g_dma t cpu ch) = d_dst d
    \<and> d_remaining (g_dma t cpu ch) = (if v AND dma_count_mask cpu ch = 0 then dma_count_mask cpu ch + 1
        else v AND dma_count_mask cpu ch)
    \<and> d_burst_index (g_dma t cpu ch) = 0 \<and> g_nds_fast_limit t = 0"
proof -
  have m: "((if cpu = ARM9 then ucast (drop_bit 27 v AND 7) else ucast ((drop_bit 28 v AND 3) OR 0x10)) :: u8) AND 7 = 0"
    using mode by (auto split: if_splits)
  let ?d = "d\<lparr>d_cnt := v, d_cur_src := d_src d, d_cur_dst := d_dst d,
     d_dst_inc := (if v AND 0x00600000 = 0 then 1 else if v AND 0x00600000 = 0x00200000 then - 1
                   else if v AND 0x00600000 = 0x00400000 then 0 else 1),
     d_src_inc := (if v AND 0x01800000 = 0 then 1 else if v AND 0x01800000 = 0x00800000 then - 1
                   else if v AND 0x01800000 = 0x01000000 then 0 else 1),
     d_start_mode := (if cpu = ARM9 then ucast (drop_bit 27 v AND 7) else ucast ((drop_bit 28 v AND 3) OR 0x10))\<rparr>"
  have c: "d_cnt d AND 0x80000000 = 0" "v AND 0x80000000 \<noteq> 0" using off on by (simp_all only: tsts not_not simp_thms)
  have t: "t = dma_start cpu ch (put_channel cpu ch ?d s)"
    unfolding t_def dma_write_count_def Let_def d_def [symmetric] using c m by simp
  have g: "g_dma (put_channel cpu ch ?d s) cpu ch = ?d" by simp
  note st = dma_start_fresh [of "put_channel cpu ch ?d s" cpu ch, unfolded g]
  have p: "\<not> d_running ?d" "\<not> d_in_progress ?d" "d_cnt ?d AND 0x80000000 \<noteq> 0" using idle c by simp_all
  obtain src dst where e: "g_dma t cpu ch = ?d\<lparr>
      d_remaining := (if d_cnt ?d AND dma_count_mask cpu ch = 0 then dma_count_mask cpu ch + 1 else d_cnt ?d AND dma_count_mask cpu ch),
      d_cur_src := src, d_cur_dst := dst, d_burst_index := 0, d_burst_start := True, d_running := True, d_in_progress := True\<rparr>"
    "src = d_src ?d \<or> src = d_cur_src ?d" "dst = d_dst ?d \<or> dst = d_cur_dst ?d"
    using st(2) [OF p] unfolding t by blast
  have "src = d_src d" "dst = d_dst d" using e(2,3) by simp_all
  then show ?thesis using st(1) [OF p] by (simp add: e(1) flip: t)
qed

lemma dma_immediate_start_witness:
  "d_remaining (g_dma (dma_write_count id ARM7 2 0x80000000
      (put_channel ARM7 2 (two_words\<lparr>d_cnt := 0, d_running := False, d_in_progress := False\<rparr>) rt_initial)) ARM7 2) = 0x4000"
proof -
  let ?s = "put_channel ARM7 2 (two_words\<lparr>d_cnt := 0, d_running := False, d_in_progress := False\<rparr>) rt_initial"
  have "\<not> bit (d_cnt (g_dma ?s ARM7 2)) 31" "bit (0x80000000 :: u32) 31"
    "\<not> d_running (g_dma ?s ARM7 2)" "\<not> d_in_progress (g_dma ?s ARM7 2)"
    "(if ARM7 = ARM9 then drop_bit 27 (0x80000000 :: u32) AND 7 else drop_bit 28 0x80000000 AND 3) = 0"
    by (simp_all add: bit_iff_odd)
  from dma_immediate_start [OF this, of id] show ?thesis
    by (simp add: dma_count_mask_def)
qed

end
