(* ===== verification/Cp15.thy ===== *)
theory Cp15
  imports Runtime
begin

text \<open>
  The ARM9 system control coprocessor (\<open>runner/src/cp15.cpp\<close>): control register, TCM windows, the
  eight protection regions, and the page bitmaps that replace the per-access region walk.  The bus's
  own derived windows (\<open>bus_fast_refresh\<close>, \<open>arm9_code_fast_invalidate\<close>) are caches of these fields and
  left out.  Page indices (\<open>uint64_t\<close>) are natural numbers: every region ends at or below 4 GiB.
  Shown: after any sequence of coprocessor writes, resets and state imports the bitmaps answer as
  the region walk does; the bitmap writes stay in their arrays; a save state restores every register.
\<close>

section \<open>State\<close>

record cp15_visible =
  cp_control :: u32
  high_vectors :: bool
  itcm_enable :: bool
  dtcm_enable :: bool
  itcm_size :: u32
  dtcm_base :: u32
  dtcm_size :: u32

text \<open>The inputs of the walk, \<open>Cp15ClassInputs\<close>.\<close>

record class_inputs =
  in_control :: u32
  in_dbits :: u32
  in_ibits :: u32
  in_region :: "u32 list"

record cp15 = rt +
  g_cp15 :: cp15_visible
  g_cp15_timing_generation :: u32
  g_mpu_region :: "nat \<Rightarrow> u32"
  g_mpu_region_base :: "nat \<Rightarrow> u64"
  g_mpu_region_end :: "nat \<Rightarrow> u64"
  g_cache_cfg :: "nat \<Rightarrow> u32"
  g_access_perm :: "nat \<Rightarrow> u32"
  g_class_inputs :: "class_inputs option"
  g_cp15_dcache_page :: "nat \<Rightarrow> u8"
  g_cp15_icache_page :: "nat \<Rightarrow> u8"
  g_cp15_class_ready :: bool

section \<open>Registers\<close>

definition tcm_bytes :: "u32 \<Rightarrow> u32" where
  "tcm_bytes reg = push_bit (unat (drop_bit 1 reg AND 0x1F)) 512"

definition apply_control :: "u32 \<Rightarrow> 'a cp15_scheme \<Rightarrow> 'a cp15_scheme" where
  "apply_control v s = s\<lparr>g_cp15 := (g_cp15 s)\<lparr>cp_control := v, high_vectors := v AND push_bit 13 1 \<noteq> 0,
     dtcm_enable := v AND push_bit 16 1 \<noteq> 0, itcm_enable := v AND push_bit 18 1 \<noteq> 0\<rparr>\<rparr>"

text \<open>Base and end of the region a register describes; \<open>(0, 0)\<close> is disabled.\<close>

definition region_window :: "u32 \<Rightarrow> u64 \<times> u64" where
  "region_window reg =
    (if reg AND 1 = 0 then (0, 0)
     else let n = unat (drop_bit 1 reg AND 0x1F); size = push_bit (n + 1) 1 :: u64;
              base = ucast (reg AND 0xFFFFF000) AND NOT (size - 1)
          in (base, base + size))"

definition set_mpu_region :: "nat \<Rightarrow> u32 \<Rightarrow> 'a cp15_scheme \<Rightarrow> 'a cp15_scheme" where
  "set_mpu_region i reg s = s\<lparr>g_mpu_region := (g_mpu_region s)(i := reg),
     g_mpu_region_base := (g_mpu_region_base s)(i := fst (region_window reg)),
     g_mpu_region_end := (g_mpu_region_end s)(i := snd (region_window reg))\<rparr>"

definition mpu_region_contains :: "nat \<Rightarrow> u32 \<Rightarrow> 'a cp15_scheme \<Rightarrow> bool" where
  "mpu_region_contains i addr s \<longleftrightarrow>
    (let e = g_mpu_region_end s i; a = ucast addr in e \<noteq> 0 \<and> a \<ge> g_mpu_region_base s i \<and> a < e)"

section \<open>Page bitmaps\<close>

definition class_bit_set :: "(nat \<Rightarrow> u8) \<Rightarrow> nat \<Rightarrow> bool \<Rightarrow> nat \<Rightarrow> u8" where
  "class_bit_set bm page v =
    (let mask = push_bit (page mod 8) 1 :: u8 in
     bm(page div 8 := if v then bm (page div 8) OR mask else bm (page div 8) AND NOT mask))"

text \<open>The head and tail loops of \<open>class_bitmap_fill\<close>, and the \<open>memset\<close> between them.\<close>

function fill_head :: "(nat \<Rightarrow> u8) \<Rightarrow> nat \<Rightarrow> nat \<Rightarrow> bool \<Rightarrow> (nat \<Rightarrow> u8) \<times> nat" where
  "fill_head bm first e v =
    (if first < e \<and> first mod 8 \<noteq> 0 then fill_head (class_bit_set bm first v) (first + 1) e v else (bm, first))"
  by auto
termination by (relation "measure (\<lambda>(bm, first, e, v). e - first)") auto

function fill_tail :: "(nat \<Rightarrow> u8) \<Rightarrow> nat \<Rightarrow> nat \<Rightarrow> bool \<Rightarrow> nat \<Rightarrow> u8" where
  "fill_tail bm first e v = (if first < e then fill_tail (class_bit_set bm first v) (first + 1) e v else bm)"
  by auto
termination by (relation "measure (\<lambda>(bm, first, e, v). e - first)") auto

declare fill_head.simps [simp del] fill_tail.simps [simp del]

definition memset :: "(nat \<Rightarrow> u8) \<Rightarrow> nat \<Rightarrow> nat \<Rightarrow> u8 \<Rightarrow> nat \<Rightarrow> u8" where
  "memset bm from n b = (\<lambda>i. if from \<le> i \<and> i < from + n then b else bm i)"

definition class_bitmap_fill :: "(nat \<Rightarrow> u8) \<Rightarrow> nat \<Rightarrow> nat \<Rightarrow> bool \<Rightarrow> nat \<Rightarrow> u8" where
  "class_bitmap_fill bm first e v =
    (let (bm, first) = fill_head bm first e v; tail = e div 8 * 8;
         (bm, first) = (if tail > first
           then (memset bm (first div 8) ((tail - first) div 8) (if v then 0xFF else 0x00), tail) else (bm, first))
     in fill_tail bm first e v)"

text \<open>The region loop; the last component is \<open>exact\<close>.\<close>

fun rebuild_regions :: "'a cp15_scheme \<Rightarrow> nat list \<Rightarrow> (nat \<Rightarrow> u8) \<times> (nat \<Rightarrow> u8) \<Rightarrow> (nat \<Rightarrow> u8) \<times> (nat \<Rightarrow> u8) \<times> bool" where
  "rebuild_regions s [] (d, i) = (d, i, True)"
| "rebuild_regions s (k # ks) (d, i) =
    (let base = g_mpu_region_base s k; e = g_mpu_region_end s k; c = cp_control (g_cp15 s) in
     if e = 0 then rebuild_regions s ks (d, i)
     else if base AND 0xFFF \<noteq> 0 \<or> e AND 0xFFF \<noteq> 0 then (d, i, False)
     else rebuild_regions s ks
       (class_bitmap_fill d (unat (drop_bit 12 base)) (unat (drop_bit 12 e))
          (c AND push_bit 2 1 \<noteq> 0 \<and> drop_bit k (g_cache_cfg s 0) AND 1 \<noteq> 0),
        class_bitmap_fill i (unat (drop_bit 12 base)) (unat (drop_bit 12 e))
          (c AND push_bit 12 1 \<noteq> 0 \<and> drop_bit k (g_cache_cfg s 1) AND 1 \<noteq> 0)))"

definition kCp15ClassBytes :: nat where "kCp15ClassBytes = 131072"

definition cp15_rebuild_class_bitmaps :: "'a cp15_scheme \<Rightarrow> 'a cp15_scheme" where
  "cp15_rebuild_class_bitmaps s =
    (let c = cp_control (g_cp15 s); d = g_cp15_dcache_page s; i = g_cp15_icache_page s;
         (d, i, exact) =
           (if c AND 1 = 0
            then (memset d 0 kCp15ClassBytes (if c AND push_bit 2 1 \<noteq> 0 then 0xFF else 0),
                  memset i 0 kCp15ClassBytes (if c AND push_bit 12 1 \<noteq> 0 then 0xFF else 0), True)
            else rebuild_regions s [0..<8] (memset d 0 kCp15ClassBytes 0, memset i 0 kCp15ClassBytes 0))
     in s\<lparr>g_cp15_dcache_page := d, g_cp15_icache_page := i, g_cp15_class_ready := exact\<rparr>)"

definition inputs_of :: "'a cp15_scheme \<Rightarrow> class_inputs" where
  "inputs_of s = \<lparr>in_control = cp_control (g_cp15 s) AND (1 OR push_bit 2 1 OR push_bit 12 1),
     in_dbits = g_cache_cfg s 0, in_ibits = g_cache_cfg s 1, in_region = map (g_mpu_region s) [0..<8]\<rparr>"

definition cp15_class_sync :: "'a cp15_scheme \<Rightarrow> 'a cp15_scheme" where
  "cp15_class_sync s =
    (if g_class_inputs s = Some (inputs_of s) then s
     else cp15_rebuild_class_bitmaps (s\<lparr>g_class_inputs := Some (inputs_of s)\<rparr>))"

definition class_page_bit :: "(nat \<Rightarrow> u8) \<Rightarrow> u32 \<Rightarrow> bool" where
  "class_page_bit bm addr = (let page = drop_bit 12 addr in
     drop_bit (unat (page AND 7)) (bm (unat (drop_bit 3 page))) AND 1 \<noteq> 0)"

definition bump_generation :: "u32 \<Rightarrow> u32" where
  "bump_generation g = (if g + 1 = 0 then 1 else g + 1)"

definition cp15_reset :: "'a cp15_scheme \<Rightarrow> 'a cp15_scheme" where
  "cp15_reset s = cp15_class_sync (s\<lparr>
     g_cp15 := \<lparr>cp_control = push_bit 13 1, high_vectors = True, itcm_enable = False, dtcm_enable = False,
       itcm_size = 0, dtcm_base = 0, dtcm_size = 0\<rparr>,
     g_cp15_timing_generation := bump_generation (g_cp15_timing_generation s), g_class_inputs := None\<rparr>)"

text \<open>The downward walk over the regions.\<close>

fun region_walk :: "'a cp15_scheme \<Rightarrow> u32 \<Rightarrow> u32 \<Rightarrow> nat \<Rightarrow> bool" where
  "region_walk s bits addr 0 = False"
| "region_walk s bits addr (Suc k) =
    (if mpu_region_contains k addr s then drop_bit k bits AND 1 \<noteq> 0 else region_walk s bits addr k)"

definition cp15_code_cacheable_reference :: "u32 \<Rightarrow> 'a cp15_scheme \<Rightarrow> bool" where
  "cp15_code_cacheable_reference addr s =
    (if cp_control (g_cp15 s) AND push_bit 12 1 = 0 then False
     else if cp_control (g_cp15 s) AND 1 = 0 then True
     else region_walk s (g_cache_cfg s 1) addr 8)"

definition cp15_data_cacheable_reference :: "u32 \<Rightarrow> 'a cp15_scheme \<Rightarrow> bool" where
  "cp15_data_cacheable_reference addr s =
    (if cp_control (g_cp15 s) AND push_bit 2 1 = 0 then False
     else if cp_control (g_cp15 s) AND 1 = 0 then True
     else region_walk s (g_cache_cfg s 0) addr 8)"

definition cp15_code_cacheable :: "u32 \<Rightarrow> 'a cp15_scheme \<Rightarrow> bool" where
  "cp15_code_cacheable addr s =
    (if g_cp15_class_ready s then class_page_bit (g_cp15_icache_page s) addr else cp15_code_cacheable_reference addr s)"

definition cp15_data_cacheable :: "u32 \<Rightarrow> 'a cp15_scheme \<Rightarrow> bool" where
  "cp15_data_cacheable addr s =
    (if g_cp15_class_ready s then class_page_bit (g_cp15_dcache_page s) addr else cp15_data_cacheable_reference addr s)"

section \<open>Coprocessor instructions\<close>

text \<open>The register switch.\<close>

definition coproc_switch :: "u32 \<Rightarrow> u32 \<Rightarrow> u32 \<Rightarrow> u32 \<Rightarrow> 'a cp15_scheme \<Rightarrow> 'a cp15_scheme" where
  "coproc_switch crn crm op2 value s =
    (if crn = 1 then (if crm = 0 \<and> op2 = 0 then apply_control value s else s)
     else if crn = 2 then (if crm = 0 then s\<lparr>g_cache_cfg := (g_cache_cfg s)(unat (op2 AND 7) := value)\<rparr> else s)
     else if crn = 3 then s\<lparr>g_cache_cfg := (g_cache_cfg s)(4 + unat (op2 AND 3) := value)\<rparr>
     else if crn = 5 then s\<lparr>g_access_perm := (g_access_perm s)(unat (op2 AND 7) := value)\<rparr>
     else if crn = 6 then set_mpu_region (unat (crm AND 7)) value s
     else if crn = 9 then
       (if crm = 1 \<and> op2 = 0
        then s\<lparr>g_cp15 := (g_cp15 s)\<lparr>dtcm_base := value AND 0xFFFFF000, dtcm_size := tcm_bytes value\<rparr>\<rparr>
        else if crm = 1 \<and> op2 = 1 then s\<lparr>g_cp15 := (g_cp15 s)\<lparr>itcm_size := tcm_bytes value\<rparr>\<rparr>
        else s)
     else s)"

definition runtime_coproc_write :: "u32 \<Rightarrow> u32 \<Rightarrow> u32 \<Rightarrow> u32 \<Rightarrow> u32 \<Rightarrow> u32 \<Rightarrow> 'a cp15_scheme \<Rightarrow> 'a cp15_scheme" where
  "runtime_coproc_write cp_num op1 crn crm op2 value s =
    (if cp_num \<noteq> 15 then s
     else if crn = 7 \<and> (crm = 0 \<and> op2 = 4 \<or> crm = 8 \<and> op2 = 2) then nds_cpu_enter_halt ARM9 s
     else
       let s = (if crn = 1 \<or> crn = 2 \<or> crn = 6 \<or> crn = 9
                then s\<lparr>g_cp15_timing_generation := bump_generation (g_cp15_timing_generation s)\<rparr> else s);
           s = coproc_switch crn crm op2 value s
       in if crn = 1 \<or> crn = 2 \<or> crn = 6 then cp15_class_sync s else s)"

definition runtime_coproc_read :: "u32 \<Rightarrow> u32 \<Rightarrow> u32 \<Rightarrow> u32 \<Rightarrow> u32 \<Rightarrow> 'a cp15_scheme \<Rightarrow> u32" where
  "runtime_coproc_read cp_num op1 crn crm op2 s =
    (if cp_num \<noteq> 15 then 0
     else if crn = 0 then 0x41059461
     else if crn = 1 then cp_control (g_cp15 s)
     else if crn = 2 then g_cache_cfg s (unat (op2 AND 7))
     else if crn = 3 then g_cache_cfg s (4 + unat (op2 AND 3))
     else if crn = 5 then g_access_perm s (unat (op2 AND 7))
     else if crn = 6 then g_mpu_region s (unat (crm AND 7))
     else if crn = 9 \<and> crm = 1 \<and> op2 = 0 then dtcm_base (g_cp15 s) OR (if dtcm_size (g_cp15 s) \<noteq> 0 then 1 else 0)
     else 0)"

section \<open>Save state\<close>

record cp15_save =
  sv_visible :: cp15_visible
  sv_generation :: u32
  sv_region :: "nat \<Rightarrow> u32"
  sv_cache_cfg :: "nat \<Rightarrow> u32"
  sv_access_perm :: "nat \<Rightarrow> u32"

definition cp15_savestate_export :: "'a cp15_scheme \<Rightarrow> cp15_save" where
  "cp15_savestate_export s = \<lparr>sv_visible = g_cp15 s, sv_generation = g_cp15_timing_generation s,
     sv_region = g_mpu_region s, sv_cache_cfg = g_cache_cfg s, sv_access_perm = g_access_perm s\<rparr>"

definition cp15_savestate_import :: "cp15_save \<Rightarrow> 'a cp15_scheme \<Rightarrow> 'a cp15_scheme" where
  "cp15_savestate_import i s =
    (let s = s\<lparr>g_cp15 := sv_visible i,
               g_cp15_timing_generation := (if sv_generation i \<noteq> 0 then sv_generation i else 1)\<rparr>;
         s = fold (\<lambda>k s. set_mpu_region k (sv_region i k)
               (s\<lparr>g_mpu_region := (g_mpu_region s)(k := sv_region i k), g_cache_cfg := (g_cache_cfg s)(k := sv_cache_cfg i k),
                  g_access_perm := (g_access_perm s)(k := sv_access_perm i k)\<rparr>)) [0..<8] s
     in cp15_class_sync (s\<lparr>g_class_inputs := None\<rparr>))"

section \<open>Filling a page range\<close>

definition pbit :: "(nat \<Rightarrow> u8) \<Rightarrow> nat \<Rightarrow> bool" where
  "pbit bm p \<longleftrightarrow> bit (bm (p div 8)) (p mod 8)"

lemma pbit_set: "pbit (class_bit_set bm p v) q \<longleftrightarrow> (if q = p then v else pbit bm q)"
proof (cases "q div 8 = p div 8")
  case True
  then have "q mod 8 = p mod 8 \<longleftrightarrow> q = p" by (metis div_mult_mod_eq)
  then show ?thesis
    using True by (auto simp: pbit_def class_bit_set_def Let_def bit_or_iff bit_and_iff bit_not_iff bit_exp_iff possible_bit_def)
qed (auto simp: pbit_def class_bit_set_def Let_def)

lemma fill_head_spec:
  "first \<le> e \<Longrightarrow> fill_head bm first e v = (bm', f') \<Longrightarrow> first \<le> f' \<and> f' \<le> e \<and> (f' = e \<or> f' mod 8 = 0)
    \<and> (\<forall>q. pbit bm' q \<longleftrightarrow> (if first \<le> q \<and> q < f' then v else pbit bm q))
    \<and> (\<forall>j. e \<le> 8 * j \<longrightarrow> bm' j = bm j)"
proof (induction bm first e v rule: fill_head.induct)
  case (1 bm first e v)
  show ?case
  proof (cases "first < e \<and> first mod 8 \<noteq> 0")
    case True
    then have r: "fill_head (class_bit_set bm first v) (first + 1) e v = (bm', f')"
      using "1.prems"(2) by (subst (asm) fill_head.simps) simp
    have "class_bit_set bm first v j = bm j" if "e \<le> 8 * j" for j
      using that True by (auto simp: class_bit_set_def Let_def)
    then show ?thesis using "1.IH" [OF True _ r] True by (auto simp: pbit_set)
  next
    case False
    then show ?thesis using "1.prems" by (subst (asm) fill_head.simps) auto
  qed
qed

lemma fill_tail_spec:
  "(pbit (fill_tail bm first e v) q \<longleftrightarrow> (if first \<le> q \<and> q < e then v else pbit bm q))
    \<and> (e \<le> 8 * j \<longrightarrow> fill_tail bm first e v j = bm j)"
proof (induction bm first e v rule: fill_tail.induct)
  case (1 bm first e v)
  show ?case
  proof (cases "first < e")
    case True
    then have "e \<le> 8 * j \<longrightarrow> class_bit_set bm first v j = bm j" by (auto simp: class_bit_set_def Let_def)
    moreover have "fill_tail bm first e v = fill_tail (class_bit_set bm first v) (first + 1) e v"
      using True by (subst fill_tail.simps) simp
    ultimately show ?thesis using "1.IH" [OF True] True by (auto simp: pbit_set)
  next
    case False
    then have "fill_tail bm first e v = bm" by (subst fill_tail.simps) simp
    then show ?thesis using False by auto
  qed
qed

lemma bit_FF: "bit (if v then 0xFF else 0 :: u8) n \<longleftrightarrow> v \<and> n < 8"
proof -
  have "(0xFF :: u8) = mask 8" by (simp add: mask_eq_exp_minus_1)
  then show ?thesis by (simp only: bit_mask_iff bit_0_eq bot_fun_def split: if_splits) auto
qed

lemma memset_spec:
  assumes "first mod 8 = 0" "tail mod 8 = 0" "first \<le> tail"
  shows "pbit (memset bm (first div 8) ((tail - first) div 8) (if v then 0xFF else 0)) q \<longleftrightarrow>
    (if first \<le> q \<and> q < tail then v else pbit bm q)"
proof -
  obtain a b where ab: "first = 8 * a" "tail = 8 * b" using assms(1,2) by (auto simp: mod_eq_0_iff_dvd elim!: dvdE)
  have "(8 * b - 8 * a) div 8 = b - a" by (simp flip: right_diff_distrib')
  moreover have "a \<le> q div 8 \<and> q div 8 < a + (b - a) \<longleftrightarrow> 8 * a \<le> q \<and> q < 8 * b" using assms(3) unfolding ab by auto
  moreover have "bit (0xFF :: u8) (q mod 8)" using bit_FF [of True "q mod 8"] by simp
  ultimately show ?thesis unfolding ab pbit_def memset_def by auto
qed

lemma class_bitmap_fill_spec:
  assumes "first \<le> e"
  shows "pbit (class_bitmap_fill bm first e v) q \<longleftrightarrow> (if first \<le> q \<and> q < e then v else pbit bm q)"
    and "e \<le> 8 * j \<Longrightarrow> class_bitmap_fill bm first e v j = bm j"
proof -
  obtain bm' f' where h: "fill_head bm first e v = (bm', f')" by (cases "fill_head bm first e v")
  note hs = fill_head_spec [OF assms h]
  let ?t = "e div 8 * 8"
  show "pbit (class_bitmap_fill bm first e v) q \<longleftrightarrow> (if first \<le> q \<and> q < e then v else pbit bm q)"
  proof (cases "?t > f'")
    case True
    then have "f' mod 8 = 0" "?t \<le> e" using hs by auto
    then show ?thesis
      using True hs fill_tail_spec memset_spec [of f' ?t bm' v q]
      by (simp add: class_bitmap_fill_def h Let_def) (use True hs in auto)
  next
    case False
    then show ?thesis using hs fill_tail_spec by (auto simp: class_bitmap_fill_def h Let_def)
  qed
  assume j: "e \<le> 8 * j"
  have "memset bm' (f' div 8) ((?t - f') div 8) b j = bm' j" for b
    using j hs by (auto simp: memset_def)
  then show "class_bitmap_fill bm first e v j = bm j"
    using j hs fill_tail_spec by (simp add: class_bitmap_fill_def h Let_def)
qed

lemma unat_drop: "unat (drop_bit k x) = unat x div 2 ^ k"
  unfolding unat_drop_bit_eq by (simp add: drop_bit_eq_div)

lemma page_bit: "class_page_bit bm addr \<longleftrightarrow> pbit bm (unat addr div 4096)"
proof -
  have m: "(7 :: u32) = mask 3" by (simp add: mask_eq_exp_minus_1)
  have "unat (drop_bit 12 addr AND 7) = unat addr div 4096 mod 8"
    unfolding m unat_and_mask unat_drop by simp
  moreover have "unat (drop_bit 3 (drop_bit 12 addr)) = unat addr div 4096 div 8" unfolding unat_drop by simp
  ultimately show ?thesis
    unfolding class_page_bit_def pbit_def Let_def by (simp only: tst0 bit_drop_bit_eq) simp
qed

section \<open>Regions\<close>

lemma align_down: "unat (x AND NOT (mask k) :: u64) = unat x div 2 ^ k * 2 ^ k"
proof -
  have "x AND NOT (mask k) = push_bit k (drop_bit k x)" by (rule bit_word_eqI) (auto simp: bit_simps)
  then have "unat (x AND NOT (mask k)) = take_bit 64 (push_bit k (unat (drop_bit k x)))"
    by (simp only: unsigned_push_bit_eq) simp
  also have "push_bit k (unat (drop_bit k x)) = unat x div 2 ^ k * 2 ^ k" by (simp only: unat_drop push_bit_eq_mult)
  also have "take_bit 64 \<dots> = unat x div 2 ^ k * 2 ^ k"
  proof (rule take_bit_nat_eq_self)
    have "unat x < 2 ^ 64" by (rule order_less_le_trans [OF unsigned_less]) simp
    then show "unat x div 2 ^ k * 2 ^ k < 2 ^ 64" by (rule le_less_trans [rotated]) simp
  qed
  finally show ?thesis .
qed

lemma region_window_block:
  assumes w: "region_window reg = (b, e)" and False: "reg AND 1 \<noteq> 0"
  defines "k \<equiv> unat (drop_bit 1 reg AND 0x1F) + 1"
  shows "unat b = unat (reg AND 0xFFFFF000) div 2 ^ k * 2 ^ k \<and> unat e = unat b + 2 ^ k \<and> unat e \<le> 2 ^ 32"
proof -
  define x where "x = (ucast (reg AND 0xFFFFF000) :: u64)"
  have m: "(0x1F :: u32) = mask 5" by (simp add: mask_eq_exp_minus_1)
  have "unat (drop_bit 1 reg AND 0x1F) < 32" unfolding m unat_and_mask by simp
  then have k: "k \<le> 32" by (simp add: k_def)
  have be: "b = x AND NOT (mask k)" "e = b + 2 ^ k"
    using w False by (auto simp: region_window_def Let_def mask_eq_exp_minus_1 k_def x_def)
  have x: "unat x < 2 ^ 32" and xr: "unat x = unat (reg AND 0xFFFFF000)"
  proof -
    have "unat (reg AND 0xFFFFF000) < 2 ^ 32" by (rule order_less_le_trans [OF unsigned_less]) simp
    then show "unat x < 2 ^ 32" "unat x = unat (reg AND 0xFFFFF000)"
      by (simp_all add: x_def unsigned_ucast_eq take_bit_nat_eq_self)
  qed
  have ub: "unat b = unat x div 2 ^ k * 2 ^ k" unfolding be(1) by (rule align_down)
  have q: "unat b + 2 ^ k \<le> 2 ^ 32"
  proof -
    have p: "(2 :: nat) ^ 32 = 2 ^ (32 - k) * 2 ^ k" using k by (simp flip: power_add)
    have "unat x div 2 ^ k < 2 ^ (32 - k)" using x unfolding p by (simp add: less_mult_imp_div_less)
    then have "(unat x div 2 ^ k + 1) * 2 ^ k \<le> 2 ^ (32 - k) * 2 ^ k" by (intro mult_le_mono1) simp
    then show ?thesis unfolding p ub by (simp add: algebra_simps)
  qed
  have "(2 :: nat) ^ k < 2 ^ 64" using k by (intro power_strict_increasing) auto
  then have "unat (2 ^ k :: u64) = 2 ^ k" using of_nat_inverse [of "2 ^ k" "2 ^ k :: u64"] by simp
  then have "unat e = unat b + 2 ^ k" using q unfolding be(2) by (intro trans [OF unat_word_ariths(1)]) simp
  then show ?thesis using q ub by (simp only: xr)
qed

lemma region_window_spec:
  "region_window reg = (b, e) \<Longrightarrow> unat e \<le> 2 ^ 32 \<and> unat b \<le> unat e"
  using region_window_block [of reg b e] by (cases "reg AND 1 = 0") (simp_all add: region_window_def)

lemma region_block:
  assumes w: "region_window reg = (b, e)"
  defines "k \<equiv> unat (drop_bit 1 reg AND 0x1F) + 1"
  shows "unat b \<le> unat addr \<and> unat (addr :: u32) < unat e \<longleftrightarrow>
    bit reg 0 \<and> unat addr div 2 ^ k = unat (reg AND 0xFFFFF000) div 2 ^ k"
proof (cases "bit reg 0")
  case True
  then have "unat b = unat (reg AND 0xFFFFF000) div 2 ^ k * 2 ^ k \<and> unat e = unat b + 2 ^ k"
    using region_window_block [OF w] by (simp add: k_def tst0)
  moreover have "x * m \<le> a \<and> a < x * m + m \<longleftrightarrow> a div m = x" if "0 < m" for x a m :: nat
    using that by (metis add.commute div_nat_eqI div_times_less_eq_dividend dividend_less_div_times mult.commute mult_Suc_right)
  ultimately show ?thesis using True by simp
next
  case False
  then show ?thesis using w by (auto simp: region_window_def tst0)
qed

definition regs_ok :: "'a cp15_scheme \<Rightarrow> bool" where
  "regs_ok s \<longleftrightarrow> (\<forall>k<8. region_window (g_mpu_region s k) = (g_mpu_region_base s k, g_mpu_region_end s k))"

lemma regs_ok_frame:
  "regs_ok (s\<lparr>g_cp15 := c\<rparr>) = regs_ok s" "regs_ok (s\<lparr>g_cp15_timing_generation := g\<rparr>) = regs_ok s"
  "regs_ok (s\<lparr>g_class_inputs := i\<rparr>) = regs_ok s"
  by (simp_all add: regs_ok_def)

lemma regs_okD:
  "regs_ok s \<Longrightarrow> k < 8 \<Longrightarrow> unat (g_mpu_region_end s k) \<le> 2 ^ 32 \<and>
     unat (g_mpu_region_base s k) \<le> unat (g_mpu_region_end s k)"
  by (metis regs_ok_def region_window_spec)

lemma contains_eq:
  "mpu_region_contains k addr s \<longleftrightarrow>
     unat (g_mpu_region_base s k) \<le> unat addr \<and> unat addr < unat (g_mpu_region_end s k)"
proof -
  have "unat addr < 2 ^ 32" by (rule order_less_le_trans [OF unsigned_less]) simp
  then have "unat (ucast addr :: u64) = unat addr" by (simp add: unsigned_ucast_eq take_bit_nat_eq_self)
  moreover have "g_mpu_region_end s k \<noteq> 0 \<longleftrightarrow> 0 < unat (g_mpu_region_end s k)" by (simp add: unat_gt_0)
  ultimately show ?thesis by (auto simp: mpu_region_contains_def Let_def word_le_nat_alt word_less_nat_alt)
qed

text \<open>The downward walk is an upward pass in which the last containing region wins.\<close>

lemma walk_as_fold:
  "region_walk s bits addr n =
     fold (\<lambda>k v. if mpu_region_contains k addr s then bit bits k else v) [0..<n] False"
  by (induction n) (simp_all add: tst0 bit_drop_bit_eq)

definition covers :: "'a cp15_scheme \<Rightarrow> nat \<Rightarrow> nat \<Rightarrow> bool" where
  "covers s k p \<longleftrightarrow> unat (g_mpu_region_base s k) div 4096 \<le> p \<and> p < unat (g_mpu_region_end s k) div 4096"

definition page_aligned :: "'a cp15_scheme \<Rightarrow> nat \<Rightarrow> bool" where
  "page_aligned s k \<longleftrightarrow> 4096 dvd unat (g_mpu_region_base s k) \<and> 4096 dvd unat (g_mpu_region_end s k)"

lemma and_FFF: "x AND 0xFFF = 0 \<longleftrightarrow> 4096 dvd unat (x :: u64)"
proof -
  have m: "(0xFFF :: u64) = mask 12" by (simp add: mask_eq_exp_minus_1)
  have "x AND 0xFFF = take_bit 12 x" unfolding m by (simp add: take_bit_eq_mask)
  then have "x AND 0xFFF = 0 \<longleftrightarrow> take_bit 12 (unat x) = 0"
    by (metis unsigned_take_bit_eq unat_eq_zero)
  then show ?thesis by (simp add: take_bit_eq_mod mod_eq_0_iff_dvd)
qed

lemma covers_page:
  assumes "page_aligned s k"
  shows "covers s k (unat addr div 4096) \<longleftrightarrow> mpu_region_contains k addr s"
proof -
  obtain a b where ab: "unat (g_mpu_region_base s k) = 4096 * a" "unat (g_mpu_region_end s k) = 4096 * b"
    using assms by (auto simp: page_aligned_def elim!: dvdE)
  have "a \<le> x div 4096 \<longleftrightarrow> 4096 * a \<le> x" for x by (simp add: less_eq_div_iff_mult_less_eq mult.commute)
  moreover have "x div 4096 < b \<longleftrightarrow> x < 4096 * b" for x by (simp add: div_less_iff_less_mult mult.commute)
  ultimately show ?thesis by (simp add: covers_def contains_eq ab)
qed

lemma rebuild_regions_spec:
  assumes "regs_ok s" "set ks \<subseteq> {..<8}" "rebuild_regions s ks (d, i) = (d', i', r)"
  shows "(r \<longrightarrow> (\<forall>k\<in>set ks. page_aligned s k)
      \<and> (\<forall>p. pbit d' p = fold (\<lambda>k v. if covers s k p then bit (cp_control (g_cp15 s)) 2 \<and> bit (g_cache_cfg s 0) k else v) ks (pbit d p))
      \<and> (\<forall>p. pbit i' p = fold (\<lambda>k v. if covers s k p then bit (cp_control (g_cp15 s)) 12 \<and> bit (g_cache_cfg s 1) k else v) ks (pbit i p)))
    \<and> (\<forall>j\<ge>kCp15ClassBytes. d' j = d j \<and> i' j = i j)"
  using assms(2,3)
proof (induction ks arbitrary: d i)
  case (Cons k ks)
  note ok = regs_okD [OF assms(1), of k]
  let ?b = "unat (g_mpu_region_base s k)" and ?e = "unat (g_mpu_region_end s k)"
  consider (off) "?e = 0" | (sub) "?e \<noteq> 0" "\<not> page_aligned s k" | (page) "?e \<noteq> 0" "page_aligned s k" by blast
  then show ?case
  proof cases
    case off
    then have "g_mpu_region_end s k = 0" "?b = 0" using ok Cons.prems(1) by (simp_all add: unat_eq_zero)
    then have r: "rebuild_regions s ks (d, i) = (d', i', r)" using Cons.prems(2) by simp
    have "\<not> covers s k p" for p using off by (simp add: covers_def)
    moreover have "page_aligned s k" using off \<open>?b = 0\<close> by (simp add: page_aligned_def)
    moreover have "set ks \<subseteq> {..<8}" using Cons.prems(1) by simp
    ultimately show ?thesis using Cons.IH [OF _ r] by (simp del: One_nat_def)
  next
    case sub
    then have ne: "g_mpu_region_end s k \<noteq> 0" by auto
    have "g_mpu_region_base s k AND 0xFFF \<noteq> 0 \<or> g_mpu_region_end s k AND 0xFFF \<noteq> 0"
      using sub(2) by (simp add: page_aligned_def and_FFF)
    then show ?thesis using Cons.prems(2) ne by simp
  next
    case page
    let ?f = "\<lambda>bm v. class_bitmap_fill bm (?b div 4096) (?e div 4096) v"
    let ?dv = "bit (cp_control (g_cp15 s)) 2 \<and> bit (g_cache_cfg s 0) k"
    let ?iv = "bit (cp_control (g_cp15 s)) 12 \<and> bit (g_cache_cfg s 1) k"
    have le: "?b div 4096 \<le> ?e div 4096" "?e div 4096 \<le> 8 * kCp15ClassBytes"
    proof -
      have o: "?e \<le> 2 ^ 32" "?b \<le> ?e" using ok Cons.prems(1) by simp_all
      show "?b div 4096 \<le> ?e div 4096" using o(2) by (rule div_le_mono)
      show "?e div 4096 \<le> 8 * kCp15ClassBytes" using div_le_mono [OF o(1), of 4096] by (simp add: kCp15ClassBytes_def)
    qed
    have ne: "g_mpu_region_end s k \<noteq> 0" using page(1) by auto
    have bits: "x AND push_bit n 1 \<noteq> 0 \<longleftrightarrow> bit x n" "drop_bit n x AND 1 \<noteq> 0 \<longleftrightarrow> bit x n" for x :: u32 and n
      by (simp_all add: tst0 and_pow2_0 bit_drop_bit_eq push_bit_eq_mult)
    have al: "\<not> (g_mpu_region_base s k AND 0xFFF \<noteq> 0 \<or> g_mpu_region_end s k AND 0xFFF \<noteq> 0)"
      using page(2) by (simp add: page_aligned_def and_FFF)
    have pg: "unat (drop_bit 12 x) = unat x div 4096" for x :: u64 by (simp only: unat_drop) simp
    have r: "rebuild_regions s ks (?f d ?dv, ?f i ?iv) = (d', i', r)"
      using Cons.prems(2) unfolding rebuild_regions.simps Let_def if_not_P [OF ne] if_not_P [OF al] bits pg .
    have keep: "?f bm v j = bm j" if "j \<ge> kCp15ClassBytes" for bm v j
      using that le by (intro class_bitmap_fill_spec(2)) auto
    have pb: "pbit (?f bm v) p \<longleftrightarrow> (if covers s k p then v else pbit bm p)" for bm v p
      by (simp only: class_bitmap_fill_spec(1) [OF le(1)] covers_def)
    have "set ks \<subseteq> {..<8}" using Cons.prems(1) by simp
    from Cons.IH [OF this r] keep page(2) show ?thesis unfolding pb by (simp del: One_nat_def)
  qed
qed simp


section \<open>The bitmaps agree with the walk\<close>

definition coherent :: "'a cp15_scheme \<Rightarrow> bool" where
  "coherent s \<longleftrightarrow> (g_cp15_class_ready s \<longrightarrow> (\<forall>addr.
     class_page_bit (g_cp15_dcache_page s) addr = cp15_data_cacheable_reference addr s \<and>
     class_page_bit (g_cp15_icache_page s) addr = cp15_code_cacheable_reference addr s))"

lemma clear_bits:
  "p < 8 * kCp15ClassBytes \<Longrightarrow> pbit (memset bm 0 kCp15ClassBytes (if v then 0xFF else 0)) p = v"
  by (simp add: pbit_def memset_def bit_FF [simplified] kCp15ClassBytes_def)
    (use bit_FF [of True "p mod 8"] in auto)

lemma page_lt: "unat (addr :: u32) div 4096 < 8 * kCp15ClassBytes"
proof -
  have "unat addr < 4096 * 1048576" by (rule order_less_le_trans [OF unsigned_less]) simp
  then show ?thesis by (simp add: kCp15ClassBytes_def less_mult_imp_div_less mult.commute)
qed

lemma fold_off: "\<not> fold (\<lambda>k v. if c k then False else v) ks False"
  by (induction ks) auto

lemma fold_covers:
  assumes "\<forall>k\<in>set ks. page_aligned s k"
  shows "fold (\<lambda>k v. if covers s k (unat addr div 4096) then on \<and> bit bits k else v) ks False =
    (on \<and> fold (\<lambda>k v. if mpu_region_contains k addr s then bit bits k else v) ks False)"
proof (cases on)
  case True
  have "fold (\<lambda>k v. if covers s k (unat addr div 4096) then bit bits k else v) ks False =
    fold (\<lambda>k v. if mpu_region_contains k addr s then bit bits k else v) ks False"
    using assms by (intro fold_cong refl) (simp add: covers_page)
  then show ?thesis by (simp only: True simp_thms)
next
  case False
  then show ?thesis by (simp only: simp_thms fold_off)
qed

lemma rebuild_coherent:
  assumes "regs_ok s"
  shows "coherent (cp15_rebuild_class_bitmaps s)"
    and "j \<ge> kCp15ClassBytes \<Longrightarrow> g_cp15_dcache_page (cp15_rebuild_class_bitmaps s) j = g_cp15_dcache_page s j"
    and "j \<ge> kCp15ClassBytes \<Longrightarrow> g_cp15_icache_page (cp15_rebuild_class_bitmaps s) j = g_cp15_icache_page s j"
proof -
  let ?c = "cp_control (g_cp15 s)"
  let ?d = "memset (g_cp15_dcache_page s) 0 kCp15ClassBytes" and ?i = "memset (g_cp15_icache_page s) 0 kCp15ClassBytes"
  have bits: "x AND push_bit n 1 = 0 \<longleftrightarrow> \<not> bit x n" for x :: u32 and n
    by (simp add: and_pow2_0 push_bit_eq_mult)
  obtain d' i' r where r: "rebuild_regions s [0..<8] (?d 0, ?i 0) = (d', i', r)" by (rule prod_cases3)
  have "set [0..<8] \<subseteq> {..<8::nat}" by auto
  note spec = rebuild_regions_spec [OF assms this r]
  have z: "pbit (memset bm 0 kCp15ClassBytes 0) p = False" if "p < 8 * kCp15ClassBytes" for bm p
    using clear_bits [OF that, of bm False] by simp
  have "coherent (cp15_rebuild_class_bitmaps s)
    \<and> (j \<ge> kCp15ClassBytes \<longrightarrow> g_cp15_dcache_page (cp15_rebuild_class_bitmaps s) j = g_cp15_dcache_page s j
      \<and> g_cp15_icache_page (cp15_rebuild_class_bitmaps s) j = g_cp15_icache_page s j)" for j
  proof (cases "bit ?c 0")
    case False
    then have e: "cp15_rebuild_class_bitmaps s = s\<lparr>g_cp15_dcache_page := ?d (if bit ?c 2 then 0xFF else 0),
        g_cp15_icache_page := ?i (if bit ?c 12 then 0xFF else 0), g_cp15_class_ready := True\<rparr>"
      by (simp add: cp15_rebuild_class_bitmaps_def Let_def tst0 tst2 tst12)
    have cb: "class_page_bit (memset bm 0 kCp15ClassBytes (if v then 0xFF else 0)) addr = v" for bm addr v
      unfolding page_bit by (rule clear_bits [OF page_lt])
    have "coherent (cp15_rebuild_class_bitmaps s)"
      unfolding e coherent_def cp15_data_cacheable_reference_def cp15_code_cacheable_reference_def
      by (simp add: cb False tst0 tst2 tst12)
    then show ?thesis unfolding e by (simp add: memset_def)
  next
    case True
    then have e: "cp15_rebuild_class_bitmaps s =
        s\<lparr>g_cp15_dcache_page := d', g_cp15_icache_page := i', g_cp15_class_ready := r\<rparr>"
      by (simp add: cp15_rebuild_class_bitmaps_def Let_def tst0 r)
    have w: "region_walk (s\<lparr>g_cp15_dcache_page := d', g_cp15_icache_page := i', g_cp15_class_ready := r\<rparr>) b addr n
        = region_walk s b addr n" for b addr n
      by (induction n) (simp_all add: mpu_region_contains_def)
    have "pbit d' (unat addr div 4096) = (if bit ?c 2 then region_walk s (g_cache_cfg s 0) addr 8 else False)
      \<and> pbit i' (unat addr div 4096) = (if bit ?c 12 then region_walk s (g_cache_cfg s 1) addr 8 else False)"
      if r for addr
      using spec that by (simp add: z [OF page_lt] fold_covers walk_as_fold del: One_nat_def)
    moreover have "j \<ge> kCp15ClassBytes \<longrightarrow> d' j = g_cp15_dcache_page s j \<and> i' j = g_cp15_icache_page s j"
      using spec by (simp add: memset_def)
    ultimately show ?thesis
      unfolding e coherent_def page_bit cp15_data_cacheable_reference_def cp15_code_cacheable_reference_def w
      by (simp add: True tst0 tst2 tst12 del: One_nat_def)
  qed
  then show "coherent (cp15_rebuild_class_bitmaps s)"
    "j \<ge> kCp15ClassBytes \<Longrightarrow> g_cp15_dcache_page (cp15_rebuild_class_bitmaps s) j = g_cp15_dcache_page s j"
    "j \<ge> kCp15ClassBytes \<Longrightarrow> g_cp15_icache_page (cp15_rebuild_class_bitmaps s) j = g_cp15_icache_page s j"
    by blast+
qed


lemma references_from_inputs:
  assumes "regs_ok s" "regs_ok t" "inputs_of s = inputs_of t"
  shows "cp15_data_cacheable_reference addr s = cp15_data_cacheable_reference addr t"
    and "cp15_code_cacheable_reference addr s = cp15_code_cacheable_reference addr t"
proof -
  have bits: "x AND push_bit n 1 = 0 \<longleftrightarrow> \<not> bit x n" for x :: u32 and n
    by (simp add: and_pow2_0 push_bit_eq_mult)
  have "cp_control (g_cp15 s) AND (1 OR push_bit 2 1 OR push_bit 12 1)
      = cp_control (g_cp15 t) AND (1 OR push_bit 2 1 OR push_bit 12 1)"
    using assms(3) by (simp add: inputs_of_def)
  then have "bit (cp_control (g_cp15 s) AND (1 OR push_bit 2 1 OR push_bit 12 1)) n
      = bit (cp_control (g_cp15 t) AND (1 OR push_bit 2 1 OR push_bit 12 1)) n" for n by (rule arg_cong)
  from this [of 0] this [of 2] this [of 12]
  have c: "bit (cp_control (g_cp15 s)) n = bit (cp_control (g_cp15 t)) n" if "n \<in> {0, 2, 12}" for n
    using that by (auto simp: bit_and_iff bit_or_iff bit_push_bit_iff bit_1_iff)
  have r: "g_mpu_region s k = g_mpu_region t k" if "k < 8" for k
  proof -
    have "map (g_mpu_region s) [0..<8] = map (g_mpu_region t) [0..<8]" using assms(3) by (simp add: inputs_of_def)
    then show ?thesis using that by (simp only: map_eq_conv) simp
  qed
  have "mpu_region_contains k addr s = mpu_region_contains k addr t" if "k < 8" for k
    using assms(1,2) r [OF that] that unfolding mpu_region_contains_def regs_ok_def by (metis prod.inject)
  then have w: "region_walk s b addr n = region_walk t b addr n" if "n \<le> 8" for b n
    using that by (induction n) simp_all
  show "cp15_data_cacheable_reference addr s = cp15_data_cacheable_reference addr t"
    "cp15_code_cacheable_reference addr s = cp15_code_cacheable_reference addr t"
    using assms(3) c [of 0] c [of 2] c [of 12] w [of 8]
    by (simp_all add: cp15_data_cacheable_reference_def cp15_code_cacheable_reference_def tst0 tst2 tst12 inputs_of_def)
qed

section \<open>The invariant\<close>

definition cp15_inv :: "'a cp15_scheme \<Rightarrow> bool" where
  "cp15_inv s \<longleftrightarrow> regs_ok s \<and> coherent s \<and> g_cp15_timing_generation s \<noteq> 0 \<and>
     (\<forall>i. g_class_inputs s = Some i \<longrightarrow> i = inputs_of s)"

text \<open>What the synchronisation needs: the bitmaps are right if the recorded inputs are the present ones.\<close>

lemma sync_inv:
  assumes "regs_ok s" "g_class_inputs s = Some (inputs_of s) \<Longrightarrow> coherent s" "g_cp15_timing_generation s \<noteq> 0"
  shows "cp15_inv (cp15_class_sync s)"
proof (cases "g_class_inputs s = Some (inputs_of s)")
  case True
  then show ?thesis using assms by (simp add: cp15_inv_def cp15_class_sync_def)
next
  case False
  let ?s = "s\<lparr>g_class_inputs := Some (inputs_of s)\<rparr>"
  have "regs_ok ?s" using assms(1) by (simp add: regs_ok_def)
  then have "coherent (cp15_rebuild_class_bitmaps ?s)" by (rule rebuild_coherent)
  then show ?thesis
    using assms False by (simp add: cp15_inv_def cp15_class_sync_def cp15_rebuild_class_bitmaps_def Let_def regs_ok_def
        inputs_of_def case_prod_beta)
qed

lemma sync_keeps [simp]:
  "g_cp15 (cp15_class_sync s) = g_cp15 s" "g_mpu_region (cp15_class_sync s) = g_mpu_region s"
  "g_mpu_region_base (cp15_class_sync s) = g_mpu_region_base s" "g_mpu_region_end (cp15_class_sync s) = g_mpu_region_end s"
  "g_cache_cfg (cp15_class_sync s) = g_cache_cfg s" "g_access_perm (cp15_class_sync s) = g_access_perm s"
  "g_cp15_timing_generation (cp15_class_sync s) = g_cp15_timing_generation s"
  by (simp_all add: cp15_class_sync_def cp15_rebuild_class_bitmaps_def Let_def case_prod_beta)

lemma sync_bounds:
  "regs_ok s \<Longrightarrow> kCp15ClassBytes \<le> j \<Longrightarrow> g_cp15_dcache_page (cp15_class_sync s) j = g_cp15_dcache_page s j \<and>
     g_cp15_icache_page (cp15_class_sync s) j = g_cp15_icache_page s j"
  using rebuild_coherent(2,3) [of "s\<lparr>g_class_inputs := Some (inputs_of s)\<rparr>" j] by (simp add: cp15_class_sync_def regs_ok_def)

text \<open>Everything the coprocessor model owns; other components leave it alone.\<close>

definition same_cp15 :: "'a cp15_scheme \<Rightarrow> 'a cp15_scheme \<Rightarrow> bool" where
  "same_cp15 s t \<longleftrightarrow> g_cp15 t = g_cp15 s \<and> g_cp15_timing_generation t = g_cp15_timing_generation s \<and>
     g_mpu_region t = g_mpu_region s \<and> g_mpu_region_base t = g_mpu_region_base s \<and>
     g_mpu_region_end t = g_mpu_region_end s \<and> g_cache_cfg t = g_cache_cfg s \<and> g_access_perm t = g_access_perm s \<and>
     g_class_inputs t = g_class_inputs s \<and> g_cp15_dcache_page t = g_cp15_dcache_page s \<and>
     g_cp15_icache_page t = g_cp15_icache_page s \<and> g_cp15_class_ready t = g_cp15_class_ready s"

lemma same_cp15_inv: "same_cp15 s t \<Longrightarrow> cp15_inv s \<Longrightarrow> cp15_inv t"
proof -
  assume same: "same_cp15 s t" and inv: "cp15_inv s"
  have r: "regs_ok t" using same inv by (simp add: same_cp15_def cp15_inv_def regs_ok_def)
  have i: "inputs_of t = inputs_of s" using same by (simp add: same_cp15_def inputs_of_def)
  have s: "regs_ok s" using inv by (simp add: cp15_inv_def)
  show "cp15_inv t" using references_from_inputs [OF r s i] same inv r i
    by (simp add: cp15_inv_def coherent_def same_cp15_def)
qed

lemma halt_same: "same_cp15 s (nds_cpu_enter_halt cpu s)"
  by (simp add: same_cp15_def nds_cpu_enter_halt_def request_yield_poll_def)

lemma bump_nonzero [simp]: "bump_generation g \<noteq> 0"
  by (simp add: bump_generation_def)


section \<open>Operations keep the invariant\<close>

lemma reset_inv: "cp15_inv s \<Longrightarrow> cp15_inv (cp15_reset s)"
  unfolding cp15_reset_def by (rule sync_inv) (simp_all add: cp15_inv_def regs_ok_def)

lemma set_region_ok: "regs_ok s \<Longrightarrow> regs_ok (set_mpu_region k v s)"
  by (simp add: regs_ok_def set_mpu_region_def)

text \<open>A register write followed by a synchronisation: the recorded inputs were right before it.\<close>

lemma write_sync_inv:
  assumes inv: "cp15_inv s" and r: "regs_ok t" and g: "g_cp15_timing_generation t \<noteq> 0"
    and same: "g_class_inputs t = g_class_inputs s" "g_cp15_dcache_page t = g_cp15_dcache_page s"
      "g_cp15_icache_page t = g_cp15_icache_page s" "g_cp15_class_ready t = g_cp15_class_ready s"
  shows "cp15_inv (cp15_class_sync t)"
    and "inputs_of t = inputs_of s \<Longrightarrow> cp15_inv t"
proof -
  have c: "coherent t" if "inputs_of t = inputs_of s"
    using references_from_inputs [OF r _ that] inv same by (simp add: cp15_inv_def coherent_def)
  then show "inputs_of t = inputs_of s \<Longrightarrow> cp15_inv t"
    using inv r g same by (simp add: cp15_inv_def)
  show "cp15_inv (cp15_class_sync t)"
    using c inv r g same by (intro sync_inv) (auto simp: cp15_inv_def)
qed

lemma switch_keeps [simp]:
  "g_class_inputs (coproc_switch crn crm op2 v s) = g_class_inputs s"
  "g_cp15_dcache_page (coproc_switch crn crm op2 v s) = g_cp15_dcache_page s"
  "g_cp15_icache_page (coproc_switch crn crm op2 v s) = g_cp15_icache_page s"
  "g_cp15_class_ready (coproc_switch crn crm op2 v s) = g_cp15_class_ready s"
  "g_cp15_timing_generation (coproc_switch crn crm op2 v s) = g_cp15_timing_generation s"
  by (simp_all add: coproc_switch_def apply_control_def set_mpu_region_def)

lemma switch_regs_ok: "regs_ok s \<Longrightarrow> regs_ok (coproc_switch crn crm op2 v s)"
  by (auto simp: coproc_switch_def apply_control_def set_mpu_region_def regs_ok_def)

lemma switch_inputs: "crn \<notin> {1, 2, 6} \<Longrightarrow> inputs_of (coproc_switch crn crm op2 v s) = inputs_of s"
  by (auto simp: coproc_switch_def inputs_of_def)

lemma write_inv:
  assumes inv: "cp15_inv s"
  shows "cp15_inv (runtime_coproc_write cp_num op1 crn crm op2 value s)"
proof -
  let ?g = "s\<lparr>g_cp15_timing_generation := bump_generation (g_cp15_timing_generation s)\<rparr>"
  have g: "regs_ok ?g" "inputs_of ?g = inputs_of s" "regs_ok s" "g_cp15_timing_generation s \<noteq> 0"
    using inv by (simp_all add: cp15_inv_def regs_ok_def inputs_of_def)
  consider (other) "cp_num \<noteq> 15" | (wfi) "cp_num = 15" "crn = 7 \<and> (crm = 0 \<and> op2 = 4 \<or> crm = 8 \<and> op2 = 2)"
    | (classes) "cp_num = 15" "crn \<in> {1, 2, 6}" | (tcm) "cp_num = 15" "crn = 9"
    | (plain) "cp_num = 15" "crn \<notin> {1, 2, 6, 9}" "\<not> (crn = 7 \<and> (crm = 0 \<and> op2 = 4 \<or> crm = 8 \<and> op2 = 2))" by blast
  then show ?thesis
  proof cases
    case other
    then show ?thesis using inv by (simp add: runtime_coproc_write_def)
  next
    case wfi
    then show ?thesis using same_cp15_inv [OF halt_same inv] by (simp add: runtime_coproc_write_def)
  next
    case classes
    then have "runtime_coproc_write cp_num op1 crn crm op2 value s = cp15_class_sync (coproc_switch crn crm op2 value ?g)"
      by (auto simp: runtime_coproc_write_def)
    then show ?thesis using write_sync_inv(1) [OF inv switch_regs_ok [OF g(1)]] by simp
  next
    case tcm
    then have "runtime_coproc_write cp_num op1 crn crm op2 value s = coproc_switch crn crm op2 value ?g"
      by (simp add: runtime_coproc_write_def)
    then show ?thesis
      using write_sync_inv(2) [OF inv switch_regs_ok [OF g(1)]] switch_inputs [of crn crm op2 "value" ?g] g tcm by simp
  next
    case plain
    then have "runtime_coproc_write cp_num op1 crn crm op2 value s = coproc_switch crn crm op2 value s"
      unfolding runtime_coproc_write_def Let_def by auto
    then show ?thesis
      using write_sync_inv(2) [OF inv switch_regs_ok [OF g(3)]] switch_inputs [of crn crm op2 "value" s] g plain by simp
  qed
qed

text \<open>The import loop: every register of the image, with the windows recomputed.\<close>

lemma import_loop:
  defines "f \<equiv> \<lambda>i k (s :: 'a cp15_scheme). set_mpu_region k (sv_region i k)
     (s\<lparr>g_mpu_region := (g_mpu_region s)(k := sv_region i k), g_cache_cfg := (g_cache_cfg s)(k := sv_cache_cfg i k),
        g_access_perm := (g_access_perm s)(k := sv_access_perm i k)\<rparr>)"
  shows "let t = fold (f i) [0..<n] s in
    (\<forall>k<n. g_mpu_region t k = sv_region i k \<and> g_cache_cfg t k = sv_cache_cfg i k \<and> g_access_perm t k = sv_access_perm i k \<and>
       region_window (g_mpu_region t k) = (g_mpu_region_base t k, g_mpu_region_end t k))
    \<and> g_cp15 t = g_cp15 s \<and> g_cp15_timing_generation t = g_cp15_timing_generation s
    \<and> g_cp15_dcache_page t = g_cp15_dcache_page s \<and> g_cp15_icache_page t = g_cp15_icache_page s"
  by (induction n) (auto simp: f_def set_mpu_region_def Let_def less_Suc_eq)

definition cp15_loaded :: "cp15_save \<Rightarrow> 'a cp15_scheme \<Rightarrow> 'a cp15_scheme" where
  "cp15_loaded i s = fold (\<lambda>k s. set_mpu_region k (sv_region i k)
     (s\<lparr>g_mpu_region := (g_mpu_region s)(k := sv_region i k), g_cache_cfg := (g_cache_cfg s)(k := sv_cache_cfg i k),
        g_access_perm := (g_access_perm s)(k := sv_access_perm i k)\<rparr>)) [0..<8]
     (s\<lparr>g_cp15 := sv_visible i, g_cp15_timing_generation := (if sv_generation i \<noteq> 0 then sv_generation i else 1)\<rparr>)"

lemma import_eq: "cp15_savestate_import i s = cp15_class_sync (cp15_loaded i s\<lparr>g_class_inputs := None\<rparr>)"
  by (simp add: cp15_savestate_import_def cp15_loaded_def Let_def)

lemma loaded:
  "k < 8 \<Longrightarrow> g_mpu_region (cp15_loaded i s) k = sv_region i k"
  "k < 8 \<Longrightarrow> g_cache_cfg (cp15_loaded i s) k = sv_cache_cfg i k"
  "k < 8 \<Longrightarrow> g_access_perm (cp15_loaded i s) k = sv_access_perm i k"
  "g_cp15 (cp15_loaded i s) = sv_visible i"
  "g_cp15_timing_generation (cp15_loaded i s) = (if sv_generation i \<noteq> 0 then sv_generation i else 1)"
  "g_cp15_dcache_page (cp15_loaded i s) = g_cp15_dcache_page s" "g_cp15_icache_page (cp15_loaded i s) = g_cp15_icache_page s"
  "regs_ok (cp15_loaded i s)"
proof -
  let ?s = "s\<lparr>g_cp15 := sv_visible i,
     g_cp15_timing_generation := (if sv_generation i \<noteq> 0 then sv_generation i else 1)\<rparr>"
  note loop = import_loop [where n = 8 and i = i and s = ?s, unfolded Let_def, folded cp15_loaded_def]
  show "k < 8 \<Longrightarrow> g_mpu_region (cp15_loaded i s) k = sv_region i k"
    "k < 8 \<Longrightarrow> g_cache_cfg (cp15_loaded i s) k = sv_cache_cfg i k"
    "k < 8 \<Longrightarrow> g_access_perm (cp15_loaded i s) k = sv_access_perm i k"
    "g_cp15 (cp15_loaded i s) = sv_visible i"
    "g_cp15_timing_generation (cp15_loaded i s) = (if sv_generation i \<noteq> 0 then sv_generation i else 1)"
    "g_cp15_dcache_page (cp15_loaded i s) = g_cp15_dcache_page s" "g_cp15_icache_page (cp15_loaded i s) = g_cp15_icache_page s"
    using loop by simp_all
  show "regs_ok (cp15_loaded i s)" unfolding regs_ok_def using loop by blast
qed

lemma import_inv: "cp15_inv (cp15_savestate_import i s)"
  unfolding import_eq by (rule sync_inv) (use loaded(8) in \<open>simp_all add: regs_ok_def loaded(5)\<close>)

section \<open>Reachable states\<close>

inductive cp15_step :: "'a cp15_scheme \<Rightarrow> 'a cp15_scheme \<Rightarrow> bool" where
  reset: "cp15_step s (cp15_reset s)"
| mcr: "cp15_step s (runtime_coproc_write cp_num op1 crn crm op2 value s)"
| load: "cp15_step s (cp15_savestate_import i s)"
| elsewhere: "same_cp15 s t \<Longrightarrow> cp15_step s t"

text \<open>At program start the static arrays are zero and the generation is 1.\<close>

definition cp15_initial :: "'a cp15_scheme \<Rightarrow> bool" where
  "cp15_initial s \<longleftrightarrow> (\<forall>k. g_mpu_region s k = 0 \<and> g_mpu_region_base s k = 0 \<and> g_mpu_region_end s k = 0) \<and>
     g_cp15_timing_generation s = 1 \<and> g_class_inputs s = None \<and> \<not> g_cp15_class_ready s"

inductive cp15_reachable :: "'a cp15_scheme \<Rightarrow> bool" where
  initial: "cp15_initial s \<Longrightarrow> cp15_reachable s"
| step: "cp15_reachable s \<Longrightarrow> cp15_step s t \<Longrightarrow> cp15_reachable t"

lemma reachable_inv: "cp15_reachable s \<Longrightarrow> cp15_inv s"
proof (induction rule: cp15_reachable.induct)
  case (initial s)
  then show ?case by (simp add: cp15_initial_def cp15_inv_def regs_ok_def coherent_def region_window_def)
next
  case (step s t)
  from step.hyps(2) step.IH show ?case
    by cases (auto intro: reset_inv write_inv import_inv same_cp15_inv)
qed


definition cp15_boot :: cp15 where
  "cp15_boot = rt.extend rt_initial (cp15.fields
     \<lparr>cp_control = 0, high_vectors = False, itcm_enable = False, dtcm_enable = False, itcm_size = 0, dtcm_base = 0,
       dtcm_size = 0\<rparr> 1 (\<lambda>_. 0) (\<lambda>_. 0) (\<lambda>_. 0) (\<lambda>_. 0) (\<lambda>_. 0) None (\<lambda>_. 0) (\<lambda>_. 0) False)"

lemma boot_reachable: "cp15_reachable cp15_boot"
  by (rule initial) (simp add: cp15_initial_def cp15_boot_def rt.defs cp15.defs)

lemma write_reachable: "cp15_reachable s \<Longrightarrow> cp15_reachable (runtime_coproc_write cp_num op1 crn crm op2 v s)"
  by (rule cp15_reachable.step [OF _ mcr])

text \<open>
  C32. Cacheability bitmaps. After any sequence of resets, coprocessor register writes, save-state
  imports and activity elsewhere, the one-load bitmap answer for instruction and data accesses is
  the answer of the walk over the eight protection regions, for every address.
\<close>

theorem cacheability_bitmaps_exact:
  "cp15_reachable s \<Longrightarrow>
     cp15_data_cacheable addr s = cp15_data_cacheable_reference addr s \<and>
     cp15_code_cacheable addr s = cp15_code_cacheable_reference addr s"
  using reachable_inv [of s] by (simp add: cp15_inv_def coherent_def cp15_data_cacheable_def cp15_code_cacheable_def)

lemma cacheability_bitmaps_exact_witness:
  fixes s :: cp15
  defines "s \<equiv> runtime_coproc_write 15 0 1 0 0 0x5 (runtime_coproc_write 15 0 6 0 0 0x0200002B
     (runtime_coproc_write 15 0 2 0 0 1 cp15_boot))"
  shows "cp15_data_cacheable 0x02001234 s \<and> \<not> cp15_code_cacheable 0x02001234 s \<and> \<not> cp15_data_cacheable 0x02400000 s"
proof -
  have "cp15_reachable s" unfolding s_def by (rule write_reachable [OF write_reachable [OF write_reachable [OF boot_reachable]]])
  note eq = cacheability_bitmaps_exact [OF this]
  have w: "region_window 0x0200002B = (0x02000000, 0x02400000)" by (simp add: region_window_def)
  have f: "cp_control (g_cp15 s) = 5" "g_cache_cfg s 0 = 1" "g_mpu_region_base s = (\<lambda>_. 0)(0 := 0x02000000)"
    "g_mpu_region_end s = (\<lambda>_. 0)(0 := 0x02400000)"
    by (simp_all add: s_def runtime_coproc_write_def coproc_switch_def apply_control_def set_mpu_region_def w
        cp15_boot_def rt.defs cp15.defs)
  have walk: "region_walk s bits addr 8 = (mpu_region_contains 0 addr s \<and> bit bits 0)" for bits addr
  proof -
    have "\<not> mpu_region_contains k addr s" if "k \<noteq> 0" for k using that by (simp add: mpu_region_contains_def f(4))
    then show ?thesis by (simp add: eval_nat_numeral tst0)
  qed
  have "cp15_data_cacheable_reference 0x02001234 s \<and> \<not> cp15_code_cacheable_reference 0x02001234 s
      \<and> \<not> cp15_data_cacheable_reference 0x02400000 s"
    by (simp add: cp15_data_cacheable_reference_def cp15_code_cacheable_reference_def walk f mpu_region_contains_def)
  then show ?thesis using eq by simp
qed

text \<open>
  Protection regions. In every reachable state each enabled region register covers exactly the
  naturally aligned block of \<open>2^(N+1)\<close> bytes around its base address, none at all when its enable bit
  is clear; no wrap-around occurs even for the 4 GiB encoding.
\<close>

lemma region_is_aligned_block:
  assumes "cp15_reachable s" and "k < 8"
  defines "n \<equiv> unat (drop_bit 1 (g_mpu_region s k) AND 0x1F) + 1"
  shows "mpu_region_contains k addr s \<longleftrightarrow>
    bit (g_mpu_region s k) 0 \<and> unat addr div 2 ^ n = unat (g_mpu_region s k AND 0xFFFFF000) div 2 ^ n"
  using reachable_inv [OF assms(1)] assms(2) region_block [of "g_mpu_region s k" "g_mpu_region_base s k" "g_mpu_region_end s k" addr]
  unfolding cp15_inv_def regs_ok_def contains_eq n_def by simp

lemma region_is_aligned_block_witness:
  "mpu_region_contains 6 0xFFFFFFFF (runtime_coproc_write 15 0 6 6 0 0x0000003F cp15_boot)"
proof -
  have r: "cp15_reachable (runtime_coproc_write 15 0 6 6 0 0x0000003F cp15_boot)"
    by (rule write_reachable [OF boot_reachable])
  have "g_mpu_region (runtime_coproc_write 15 0 6 6 0 0x0000003F cp15_boot) 6 = 0x3F"
    by (simp add: runtime_coproc_write_def coproc_switch_def set_mpu_region_def)
  then show ?thesis using region_is_aligned_block [OF r, where k = 6 and addr = "0xFFFFFFFF"] by simp
qed

text \<open>
  Bitmap bounds. No operation writes a byte outside the two 128 KiB page bitmaps, whatever the
  region registers hold, and every address indexes a byte inside them.
\<close>

lemma bitmap_bounds:
  assumes "cp15_reachable s" "cp15_step s t" "kCp15ClassBytes \<le> j"
  shows "g_cp15_dcache_page t j = g_cp15_dcache_page s j \<and> g_cp15_icache_page t j = g_cp15_icache_page s j
    \<and> unat (drop_bit 3 (drop_bit 12 addr) :: u32) < kCp15ClassBytes"
proof -
  have "unat (drop_bit 3 (drop_bit 12 addr)) < kCp15ClassBytes"
    using page_lt [of addr] by (simp only: unat_drop less_mult_imp_div_less mult.commute) simp
  moreover have ok: "regs_ok s" using reachable_inv [OF assms(1)] by (simp add: cp15_inv_def)
  have "g_cp15_dcache_page t j = g_cp15_dcache_page s j \<and> g_cp15_icache_page t j = g_cp15_icache_page s j"
    using assms(2)
  proof cases
    case reset
    then show ?thesis using ok assms(3) by (simp add: cp15_reset_def regs_ok_frame sync_bounds)
  next
    case (mcr cp_num op1 crn crm op2 v)
    show ?thesis unfolding mcr runtime_coproc_write_def Let_def using ok halt_same [of s ARM9]
      by (simp add: sync_bounds switch_regs_ok regs_ok_frame same_cp15_def assms(3))
  next
    case (load i)
    then show ?thesis using sync_bounds [OF _ assms(3), of "cp15_loaded i s\<lparr>g_class_inputs := None\<rparr>"] loaded(6,7,8) [of i s]
      by (simp add: import_eq regs_ok_frame)
  next
    case elsewhere
    then show ?thesis by (simp add: same_cp15_def)
  qed
  ultimately show ?thesis by simp
qed

lemma bitmap_bounds_witness:
  "g_cp15_dcache_page (cp15_reset cp15_boot) 131072 = 0"
proof -
  have "g_cp15_dcache_page cp15_boot 131072 = 0" by (simp add: cp15_boot_def rt.defs cp15.defs)
  then show ?thesis
    using bitmap_bounds [OF boot_reachable reset, of 131072] by (simp add: kCp15ClassBytes_def)
qed

text \<open>
  Save states. Importing an exported image into any state restores every coprocessor read, the
  visible control and TCM state, the timing generation, and the cacheability of every address.
\<close>

lemma cp15_save_restores:
  fixes s t :: "'a cp15_scheme"
  assumes "cp15_reachable s"
  defines "r \<equiv> cp15_savestate_import (cp15_savestate_export s) t"
  shows "runtime_coproc_read cp_num op1 crn crm op2 r = runtime_coproc_read cp_num op1 crn crm op2 s
    \<and> g_cp15 r = g_cp15 s \<and> g_cp15_timing_generation r = g_cp15_timing_generation s
    \<and> cp15_data_cacheable addr r = cp15_data_cacheable addr s \<and> cp15_code_cacheable addr r = cp15_code_cacheable addr s"
proof -
  have inv: "cp15_inv s" "cp15_inv r" using reachable_inv [OF assms(1)] by (simp_all add: r_def import_inv)
  let ?l = "cp15_loaded (cp15_savestate_export s) t"
  have f: "g_mpu_region r k = g_mpu_region s k" "g_cache_cfg r k = g_cache_cfg s k" "g_access_perm r k = g_access_perm s k"
    if "k < 8" for k
    using that loaded(1-3) [of k "cp15_savestate_export s" t] by (simp_all add: r_def import_eq cp15_savestate_export_def)
  have v: "g_cp15 r = g_cp15 s" "g_cp15_timing_generation r = g_cp15_timing_generation s"
    using loaded(4,5) [of "cp15_savestate_export s" t] inv(1)
    by (simp_all add: r_def import_eq cp15_savestate_export_def cp15_inv_def)
  have i: "inputs_of r = inputs_of s" using f by (simp add: inputs_of_def v)
  have ok: "regs_ok r" "regs_ok s" using inv by (simp_all add: cp15_inv_def)
  have "cp15_data_cacheable addr r = cp15_data_cacheable addr s \<and> cp15_code_cacheable addr r = cp15_code_cacheable addr s"
    using inv references_from_inputs [OF ok i]
    by (simp add: cp15_inv_def coherent_def cp15_data_cacheable_def cp15_code_cacheable_def)
  moreover have m: "unat (x AND 7) < 8" "4 + unat (x AND 3) < 8" for x :: u32
    using unat_and_less [of "7 :: u32" 8 x] unat_and_less [of "3 :: u32" 4 x] by simp_all
  have "runtime_coproc_read cp_num op1 crn crm op2 r = runtime_coproc_read cp_num op1 crn crm op2 s"
    by (simp add: runtime_coproc_read_def v f m)
  ultimately show ?thesis using v by simp
qed

lemma cp15_save_restores_witness:
  "runtime_coproc_read 15 0 6 3 0 (cp15_savestate_import (cp15_savestate_export
     (runtime_coproc_write 15 0 6 3 0 0x08000035 cp15_boot)) cp15_boot) = 0x08000035"
proof -
  have r: "cp15_reachable (runtime_coproc_write 15 0 6 3 0 0x08000035 cp15_boot)"
    by (rule write_reachable [OF boot_reachable])
  show ?thesis using cp15_save_restores [OF r, where cp_num = 15 and ?op1.0 = 0 and crn = 6 and crm = 3 and ?op2.0 = 0 and t = cp15_boot]
    by (simp add: runtime_coproc_read_def runtime_coproc_write_def coproc_switch_def set_mpu_region_def)
qed

end
