(* ===== verification/MathUnit.thy ===== *)
theory MathUnit
  imports Dma "HOL-Library.Signed_Division"
begin

text \<open>
  The ARM9 divider and square-root unit (\<open>runner/src/io.cpp\<close>): operand registers, the asynchronous
  completion events, and the arithmetic.  Shown: quotient and remainder satisfy the division law in
  every mode, with the hardware's results for a zero divisor and for overflow; the square root is the
  integer square root of every operand below \<open>2 ^ 62\<close>, and a witness above it where the 32-bit
  trial product wraps; results stay put while the unit is busy.
\<close>

section \<open>State\<close>

record math = io_regs +
  g_divcnt :: u16
  g_div_numer :: "u32 \<times> u32"
  g_div_denom :: "u32 \<times> u32"
  g_div_quot :: "u32 \<times> u32"
  g_div_rem :: "u32 \<times> u32"
  g_div_deadline :: u64
  g_sqrtcnt :: u16
  g_sqrt_val :: "u32 \<times> u32"
  g_sqrt_res :: u32
  g_sqrt_deadline :: u64

definition active_system_timestamp :: "'a rt_scheme \<Rightarrow> u64" where
  "active_system_timestamp s = (if g_nds_active s = ARM9 then drop_bit 1 (g_runtime_cycles s) else g_runtime_cycles s)"

definition words_u64 :: "u32 \<times> u32 \<Rightarrow> u64" where
  "words_u64 w = ucast (fst w) OR push_bit 32 (ucast (snd w))"

definition as_s32 :: "u32 \<Rightarrow> int" where "as_s32 v = sint v"

definition as_s64 :: "u32 \<times> u32 \<Rightarrow> int" where "as_s64 w = sint (words_u64 w)"

definition store_s64 :: "int \<Rightarrow> u32 \<times> u32" where
  "store_s64 v = (let bits = word_of_int v :: u64 in (ucast bits, ucast (drop_bit 32 bits)))"

section \<open>Division\<close>

definition start_div :: "'a math_scheme \<Rightarrow> 'a math_scheme" where
  "start_div s =
    (let s = s\<lparr>g_divcnt := g_divcnt s OR 0x8000\<rparr>;
         s = s\<lparr>g_div_deadline := active_system_timestamp s + (if g_divcnt s AND 0x3 = 0 then 18 else 34)\<rparr>
     in nds_reschedule_slice (g_div_deadline s) s)"

text \<open>The 64-bit cases, with a 32-bit or a 64-bit denominator.\<close>

definition div64 :: "int \<Rightarrow> int \<Rightarrow> 'a math_scheme \<Rightarrow> 'a math_scheme" where
  "div64 num den s =
    (if den = 0 then s\<lparr>g_div_quot := store_s64 (if num < 0 then 1 else - 1), g_div_rem := store_s64 num\<rparr>
     else if num = - (2 ^ 63) \<and> den = - 1 then s\<lparr>g_div_quot := store_s64 (- (2 ^ 63)), g_div_rem := store_s64 0\<rparr>
     else s\<lparr>g_div_quot := store_s64 (num sdiv den), g_div_rem := store_s64 (num smod den)\<rparr>)"

definition finish_div :: "'a math_scheme \<Rightarrow> 'a math_scheme" where
  "finish_div s =
    (let s = s\<lparr>g_divcnt := g_divcnt s AND NOT 0xC000\<rparr>;
         mode = g_divcnt s AND 0x3;
         s = (if mode = 0
              then let num = as_s32 (fst (g_div_numer s)); den = as_s32 (fst (g_div_denom s)) in
                if den = 0
                then s\<lparr>g_div_quot := (if num < 0 then 1 else 0xFFFFFFFF, if num < 0 then 0xFFFFFFFF else 0),
                       g_div_rem := store_s64 num\<rparr>
                else if num = - (2 ^ 31) \<and> den = - 1 then s\<lparr>g_div_quot := store_s64 0x80000000\<rparr>
                else s\<lparr>g_div_quot := store_s64 (num sdiv den), g_div_rem := store_s64 (num smod den)\<rparr>
              else if mode = 2 then div64 (as_s64 (g_div_numer s)) (as_s64 (g_div_denom s)) s
              else div64 (as_s64 (g_div_numer s)) (as_s32 (fst (g_div_denom s))) s)
     in if fst (g_div_denom s) OR snd (g_div_denom s) = 0 then s\<lparr>g_divcnt := g_divcnt s OR 0x4000\<rparr> else s)"

section \<open>Square root\<close>

definition start_sqrt :: "'a math_scheme \<Rightarrow> 'a math_scheme" where
  "start_sqrt s =
    (let s = s\<lparr>g_sqrtcnt := g_sqrtcnt s OR 0x8000\<rparr>;
         s = s\<lparr>g_sqrt_deadline := active_system_timestamp s + 13\<rparr>
     in nds_reschedule_slice (g_sqrt_deadline s) s)"

text \<open>One bit of the result; the trial product is a 32-bit variable.\<close>

definition sqrt_step :: "nat \<Rightarrow> u64 \<times> u32 \<times> u64 \<Rightarrow> u64 \<times> u32 \<times> u64" where
  "sqrt_step topshift = (\<lambda>(val, res, rem).
     let rem = push_bit 2 rem + (drop_bit topshift val AND 3);
         val = push_bit 2 val;
         res = push_bit 1 res;
         prod = push_bit 1 res + 1 :: u32
     in if rem \<ge> ucast prod then (val, res + 1, rem - ucast prod) else (val, res, rem))"

definition finish_sqrt :: "'a math_scheme \<Rightarrow> 'a math_scheme" where
  "finish_sqrt s =
    (let s = s\<lparr>g_sqrtcnt := g_sqrtcnt s AND NOT 0x8000\<rparr>;
         wide = g_sqrtcnt s AND 1 \<noteq> 0;
         val = (if wide then words_u64 (g_sqrt_val s) else ucast (fst (g_sqrt_val s)));
         nbits = (if wide then 32 else 16); topshift = (if wide then 62 else 30);
         (val, res, rem) = (sqrt_step topshift ^^ nbits) (val, 0, 0)
     in s\<lparr>g_sqrt_res := res\<rparr>)"

section \<open>Registers and events\<close>

definition math_reg_read32 :: "u32 \<Rightarrow> 'a math_scheme \<Rightarrow> u32" where
  "math_reg_read32 addr s =
    (if addr = 0x04000280 then ucast (g_divcnt s)
     else if addr = 0x04000290 then fst (g_div_numer s)
     else if addr = 0x04000294 then snd (g_div_numer s)
     else if addr = 0x04000298 then fst (g_div_denom s)
     else if addr = 0x0400029C then snd (g_div_denom s)
     else if addr = 0x040002A0 then fst (g_div_quot s)
     else if addr = 0x040002A4 then snd (g_div_quot s)
     else if addr = 0x040002A8 then fst (g_div_rem s)
     else if addr = 0x040002AC then snd (g_div_rem s)
     else if addr = 0x040002B0 then ucast (g_sqrtcnt s)
     else if addr = 0x040002B4 then g_sqrt_res s
     else if addr = 0x040002B8 then fst (g_sqrt_val s)
     else if addr = 0x040002BC then snd (g_sqrt_val s)
     else 0)"

definition math_addr :: "u32 \<Rightarrow> bool" where
  "math_addr addr \<longleftrightarrow> addr \<ge> 0x04000280 \<and> addr < 0x04000284 \<or> addr \<ge> 0x04000290 \<and> addr < 0x040002C0"

definition math_reg_write :: "u32 \<Rightarrow> u32 \<Rightarrow> u32 \<Rightarrow> 'a math_scheme \<Rightarrow> 'a math_scheme" where
  "math_reg_write addr v width s =
    (let base = addr AND NOT 3; shift = unat ((addr AND 3) * 8);
         raw_mask = (if width \<ge> 4 then 0xFFFFFFFF else push_bit (unat (width * 8)) 1 - 1 :: u32);
         bits = push_bit shift raw_mask;
         merge = (\<lambda>old. old AND NOT bits OR push_bit shift v AND bits)
     in if base = 0x04000280 then start_div (s\<lparr>g_divcnt := ucast (merge (ucast (g_divcnt s)))\<rparr>)
        else if base = 0x04000290 then start_div (s\<lparr>g_div_numer := (merge (fst (g_div_numer s)), snd (g_div_numer s))\<rparr>)
        else if base = 0x04000294 then start_div (s\<lparr>g_div_numer := (fst (g_div_numer s), merge (snd (g_div_numer s)))\<rparr>)
        else if base = 0x04000298 then start_div (s\<lparr>g_div_denom := (merge (fst (g_div_denom s)), snd (g_div_denom s))\<rparr>)
        else if base = 0x0400029C then start_div (s\<lparr>g_div_denom := (fst (g_div_denom s), merge (snd (g_div_denom s)))\<rparr>)
        else if base = 0x040002B0 then start_sqrt (s\<lparr>g_sqrtcnt := ucast (merge (ucast (g_sqrtcnt s)))\<rparr>)
        else if base = 0x040002B8 then start_sqrt (s\<lparr>g_sqrt_val := (merge (fst (g_sqrt_val s)), snd (g_sqrt_val s))\<rparr>)
        else if base = 0x040002BC then start_sqrt (s\<lparr>g_sqrt_val := (fst (g_sqrt_val s), merge (snd (g_sqrt_val s)))\<rparr>)
        else s)"

text \<open>The unit's part of \<open>nds_run_system_events\<close>.\<close>

definition math_events :: "u64 \<Rightarrow> 'a math_scheme \<Rightarrow> 'a math_scheme" where
  "math_events timestamp s =
    (let s = (if g_div_deadline s \<le> timestamp then finish_div (s\<lparr>g_div_deadline := - 1\<rparr>) else s)
     in if g_sqrt_deadline s \<le> timestamp then finish_sqrt (s\<lparr>g_sqrt_deadline := - 1\<rparr>) else s)"


section \<open>The division law\<close>

lemma words_store: "words_u64 (store_s64 v) = word_of_int v"
  unfolding words_u64_def store_s64_def Let_def fst_conv snd_conv
  by (rule bit_word_eqI) (auto simp: bit_or_iff bit_ucast_iff bit_push_bit_iff bit_drop_bit_eq)

lemma as_store: "- (2 ^ 63) \<le> v \<Longrightarrow> v < 2 ^ 63 \<Longrightarrow> as_s64 (store_s64 v) = v"
  by (simp add: as_s64_def words_store signed_of_int signed_take_bit_int_eq_self)

lemma s64_range: "- (2 ^ 63) \<le> as_s64 w" "as_s64 w < 2 ^ 63"
  using sint_greater_eq [of "words_u64 w"] sint_less [of "words_u64 w"] by (simp_all add: as_s64_def)

lemma s32_range: "- (2 ^ 31) \<le> as_s32 w" "as_s32 w < 2 ^ 31"
  using sint_greater_eq [of w] sint_less [of w] by (simp_all add: as_s32_def)

text \<open>Truncating division of 64-bit operands stays in range except for the one overflow.\<close>

lemma quotient_range:
  fixes n d :: int
  assumes "- (2 ^ 63) \<le> n" "n < 2 ^ 63" "d \<noteq> 0" "\<not> (n = - (2 ^ 63) \<and> d = - 1)"
  shows "- (2 ^ 63) \<le> n sdiv d" "n sdiv d < 2 ^ 63"
proof -
  have r: "- \<bar>n\<bar> \<le> n sdiv d" "n sdiv d \<le> \<bar>n\<bar>" using sdiv_int_range [of n d] by simp_all
  then show "- (2 ^ 63) \<le> n sdiv d" using assms(1,2) by linarith
  show "n sdiv d < 2 ^ 63"
  proof (cases "n = - (2 ^ 63)")
    case True
    then have "n sdiv d \<noteq> - n" using assms(3,4) int_sdiv_negated_is_minus1 [of n d] by auto
    then show ?thesis using r True by simp
  next
    case False
    then show ?thesis using r assms(1,2) by linarith
  qed
qed

lemma remainder_range:
  fixes n d :: int
  assumes "- (2 ^ 63) \<le> n" "n < 2 ^ 63" "d \<noteq> 0" "- (2 ^ 63) \<le> d" "d < 2 ^ 63"
  shows "- (2 ^ 63) \<le> n smod d" "n smod d < 2 ^ 63"
  using smod_int_range [OF assms(3), of n] assms(4,5) by auto

definition div_num :: "'a math_scheme \<Rightarrow> int" where
  "div_num s = (if g_divcnt s AND 0x3 = 0 then as_s32 (fst (g_div_numer s)) else as_s64 (g_div_numer s))"

definition div_den :: "'a math_scheme \<Rightarrow> int" where
  "div_den s = (if g_divcnt s AND 0x3 = 2 then as_s64 (g_div_denom s) else as_s32 (fst (g_div_denom s)))"

definition div_overflows :: "'a math_scheme \<Rightarrow> bool" where
  "div_overflows s \<longleftrightarrow> div_den s = - 1 \<and> div_num s = (if g_divcnt s AND 0x3 = 0 then - (2 ^ 31) else - (2 ^ 63))"

lemma div_ranges: "- (2 ^ 63) \<le> div_num s" "div_num s < 2 ^ 63" "- (2 ^ 63) \<le> div_den s" "div_den s < 2 ^ 63"
  using s64_range s32_range [of "fst (g_div_numer s)"] s32_range [of "fst (g_div_denom s)"]
  by (auto simp: div_num_def div_den_def)

lemma mode_kept: "(c AND NOT 0xC000) AND 0x3 = c AND (0x3 :: u16)"
proof -
  have "(0xC000 :: u16) = 0x8000 OR 0x4000" "(0x3 :: u16) = 1 OR 2" by simp_all
  then show ?thesis
    by (intro bit_word_eqI) (simp only: bit_and_iff bit_or_iff bit_not_iff bitlits; auto)
qed

text \<open>Quotient and remainder registers after a completion, by cases.\<close>

lemma finish_div_regs:
  "g_div_quot (finish_div s) = (if div_den s = 0
      then (if g_divcnt s AND 0x3 = 0
            then (if div_num s < 0 then 1 else 0xFFFFFFFF, if div_num s < 0 then 0xFFFFFFFF else 0)
            else store_s64 (if div_num s < 0 then 1 else - 1))
      else if div_overflows s then store_s64 (if g_divcnt s AND 0x3 = 0 then 2 ^ 31 else - (2 ^ 63))
      else store_s64 (div_num s sdiv div_den s))"
  "g_div_rem (finish_div s) = (if div_den s = 0 then store_s64 (div_num s)
      else if div_overflows s then (if g_divcnt s AND 0x3 = 0 then g_div_rem s else store_s64 0)
      else store_s64 (div_num s smod div_den s))"
proof -
  let ?s = "s\<lparr>g_divcnt := g_divcnt s AND NOT 0xC000\<rparr>" and ?z = "fst (g_div_denom s) OR snd (g_div_denom s) = 0"
  have z: "g_div_quot (if ?z then t\<lparr>g_divcnt := c\<rparr> else t) = g_div_quot t"
    "g_div_rem (if ?z then t\<lparr>g_divcnt := c\<rparr> else t) = g_div_rem t" for t :: "'a math_scheme" and c
    by simp_all
  have den: "g_div_denom (div64 n d u) = g_div_denom u" for n d and u :: "'a math_scheme" by (simp add: div64_def)
  consider (m0) "g_divcnt s AND 0x3 = 0" | (m2) "g_divcnt s AND 0x3 = 2" | (m1) "g_divcnt s AND 0x3 \<noteq> 0" "g_divcnt s AND 0x3 \<noteq> 2" by blast
  then show "g_div_quot (finish_div s) = (if div_den s = 0
      then (if g_divcnt s AND 0x3 = 0
            then (if div_num s < 0 then 1 else 0xFFFFFFFF, if div_num s < 0 then 0xFFFFFFFF else 0)
            else store_s64 (if div_num s < 0 then 1 else - 1))
      else if div_overflows s then store_s64 (if g_divcnt s AND 0x3 = 0 then 2 ^ 31 else - (2 ^ 63))
      else store_s64 (div_num s sdiv div_den s))"
    "g_div_rem (finish_div s) = (if div_den s = 0 then store_s64 (div_num s)
      else if div_overflows s then (if g_divcnt s AND 0x3 = 0 then g_div_rem s else store_s64 0)
      else store_s64 (div_num s smod div_den s))"
    by (cases; simp add: finish_div_def Let_def mode_kept [simplified] div64_def div_num_def div_den_def div_overflows_def)+
qed

lemma finish_div_cnt:
  "g_divcnt (finish_div s) = (g_divcnt s AND NOT 0xC000) OR (if fst (g_div_denom s) OR snd (g_div_denom s) = 0 then 0x4000 else 0)"
  by (simp add: finish_div_def Let_def div64_def)


lemma smod_sign: "n smod d = 0 \<or> sgn (n smod d) = sgn (n :: int)"
proof -
  define m where "m = \<bar>n\<bar> mod \<bar>d\<bar>"
  have "d \<noteq> 0 \<Longrightarrow> 0 \<le> m" by (simp add: m_def)
  then show ?thesis by (cases "d = 0"; cases "m = 0") (auto simp: signed_modulo_int_def sgn_mult simp flip: m_def)
qed

text \<open>
  C29. Division. When the divider completes, signed quotient and remainder satisfy numerator = quotient
  times denominator plus remainder, the remainder smaller than the denominator and signed like the
  numerator, in all three operand widths, unless the smallest number is divided by minus one. That
  quotient does not fit: in 32-bit mode it reads as plus 2^31 and the remainder registers keep their old
  contents, in the 64-bit modes it wraps to the numerator with remainder 0. A zero denominator returns
  the numerator as remainder and plus or minus one as quotient; in 32-bit mode the high quotient word is
  inverted, so the pair reads 1 - 2^32 or 2^32 - 1. BUSY is cleared and the error flag is set exactly if all 64 denominator bits are 0.
\<close>

theorem division_exact:
  fixes s :: "'a math_scheme"
  defines "t \<equiv> finish_div s"
  shows "(div_den s \<noteq> 0 \<longrightarrow> \<not> div_overflows s \<longrightarrow>
       as_s64 (g_div_quot t) * div_den s + as_s64 (g_div_rem t) = div_num s
       \<and> \<bar>as_s64 (g_div_rem t)\<bar> < \<bar>div_den s\<bar>
       \<and> (as_s64 (g_div_rem t) = 0 \<or> sgn (as_s64 (g_div_rem t)) = sgn (div_num s)))
    \<and> (div_overflows s \<longrightarrow>
       (if g_divcnt s AND 0x3 = 0 then as_s64 (g_div_quot t) = 2 ^ 31 \<and> g_div_rem t = g_div_rem s
        else as_s64 (g_div_quot t) = div_num s \<and> as_s64 (g_div_rem t) = 0))
    \<and> (div_den s = 0 \<longrightarrow> as_s64 (g_div_rem t) = div_num s
       \<and> as_s64 (g_div_quot t) = (if g_divcnt s AND 0x3 = 0 then (if div_num s < 0 then 1 - 2 ^ 32 else 2 ^ 32 - 1)
          else if div_num s < 0 then 1 else - 1))
    \<and> \<not> bit (g_divcnt t) 15 \<and> (bit (g_divcnt t) 14 \<longleftrightarrow> g_div_denom s = (0, 0))"
proof (intro conjI impI)
  note r = div_ranges [of s]
  assume d: "div_den s \<noteq> 0" and o: "\<not> div_overflows s"
  have no: "\<not> (div_num s = - (2 ^ 63) \<and> div_den s = - 1)"
    using o s32_range [of "fst (g_div_numer s)"] by (auto simp: div_overflows_def div_num_def)
  have "as_s64 (g_div_quot t) = div_num s sdiv div_den s"
    unfolding t_def finish_div_regs if_not_P [OF d] if_not_P [OF o] by (intro as_store quotient_range r d no)
  moreover have "as_s64 (g_div_rem t) = div_num s smod div_den s"
    unfolding t_def finish_div_regs if_not_P [OF d] if_not_P [OF o] by (intro as_store remainder_range r d)
  ultimately show "as_s64 (g_div_quot t) * div_den s + as_s64 (g_div_rem t) = div_num s"
    "\<bar>as_s64 (g_div_rem t)\<bar> < \<bar>div_den s\<bar>"
    "as_s64 (g_div_rem t) = 0 \<or> sgn (as_s64 (g_div_rem t)) = sgn (div_num s)"
    using smod_int_range [OF d, of "div_num s"] smod_sign [of "div_num s" "div_den s"]
    by (auto simp: sdiv_mult_smod_eq)
next
  assume d: "div_den s = 0"
  show "as_s64 (g_div_rem t) = div_num s"
    unfolding t_def finish_div_regs if_P [OF d] by (intro as_store div_ranges)
  show "as_s64 (g_div_quot t) = (if g_divcnt s AND 0x3 = 0 then (if div_num s < 0 then 1 - 2 ^ 32 else 2 ^ 32 - 1)
      else if div_num s < 0 then 1 else - 1)"
    by (simp add: t_def finish_div_regs d as_store) (simp add: as_s64_def words_u64_def)
next
  assume o: "div_overflows s"
  then have d: "div_den s \<noteq> 0" and n: "g_divcnt s AND 0x3 \<noteq> 0 \<Longrightarrow> div_num s = - (2 ^ 63)" by (simp_all add: div_overflows_def)
  show "if g_divcnt s AND 0x3 = 0 then as_s64 (g_div_quot t) = 2 ^ 31 \<and> g_div_rem t = g_div_rem s
      else as_s64 (g_div_quot t) = div_num s \<and> as_s64 (g_div_rem t) = 0"
    unfolding t_def finish_div_regs if_not_P [OF d] if_P [OF o] using n by (simp add: as_store)
next
  have c: "(0xC000 :: u16) = 0x8000 OR 0x4000" by simp
  show "\<not> bit (g_divcnt t) 15"
    unfolding t_def finish_div_cnt c by (simp only: bit_or_iff bit_and_iff bit_not_iff bitlits bit_0_eq bot_apply split: if_splits) simp
  have "fst (g_div_denom s) OR snd (g_div_denom s) = 0 \<longleftrightarrow> g_div_denom s = (0, 0)"
    by (metis or_eq_0_iff prod.collapse prod.inject)
  then show "bit (g_divcnt t) 14 \<longleftrightarrow> g_div_denom s = (0, 0)"
    unfolding t_def finish_div_cnt c by (simp only: bit_or_iff bit_and_iff bit_not_iff bitlits bit_0_eq bot_apply split: if_splits) simp
qed

definition io_reset :: io_regs where
  "io_reset = ipc.extend ipc_reset (io_regs.fields (\<lambda>_. 0x4000) 0x0001 0 False)"

definition math_boot :: math where
  "math_boot = io_regs.extend io_reset (math.fields 0 (0, 0) (0, 0) (0, 0) (0, 0) (- 1) 0 (0, 0) 0 (- 1))"

lemma division_exact_witness:
  "as_s64 (g_div_quot (finish_div (math_boot\<lparr>g_div_numer := (- 100, 0), g_div_denom := (7, 0)\<rparr>))) * 7
     + as_s64 (g_div_rem (finish_div (math_boot\<lparr>g_div_numer := (- 100, 0), g_div_denom := (7, 0)\<rparr>))) = - 100"
proof -
  let ?s = "math_boot\<lparr>g_div_numer := (- 100, 0), g_div_denom := (7, 0)\<rparr>"
  have "div_num ?s = - 100" "div_den ?s = 7"
    by (simp_all add: div_num_def div_den_def math_boot_def io_regs.defs math.defs as_s32_def)
  then show ?thesis using division_exact [of ?s] by (simp add: div_overflows_def)
qed

section \<open>The square root loop\<close>

definition sqrt_inv :: "u64 \<Rightarrow> nat \<Rightarrow> nat \<Rightarrow> u64 \<times> u32 \<times> u64 \<Rightarrow> bool" where
  "sqrt_inv v n i = (\<lambda>(val, res, rem). val = push_bit (2 * i) v \<and>
     (let W = unat v div 4 ^ (n - i); r = unat res in r * r \<le> W \<and> W < (r + 1) * (r + 1) \<and> unat rem = W - r * r))"

lemma digit:
  assumes "i < n" "n \<le> 32"
  shows "unat (drop_bit (2 * n - 2) (push_bit (2 * i) v) AND 3 :: u64) = unat v div 4 ^ (n - Suc i) mod 4"
proof -
  have m: "(3 :: u64) = mask 2" by (simp add: mask_eq_exp_minus_1)
  have "drop_bit (2 * n - 2) (push_bit (2 * i) v) AND 3 = take_bit 2 (drop_bit (2 * (n - Suc i)) v)"
  proof -
    obtain k where k: "n = Suc (i + k)" using assms(1) less_imp_Suc_add by blast
    show ?thesis unfolding m k by (rule bit_word_eqI) (use assms(2) in \<open>auto simp: k bit_simps\<close>)
  qed
  then have "unat (drop_bit (2 * n - 2) (push_bit (2 * i) v) AND 3) = take_bit 2 (drop_bit (2 * (n - Suc i)) (unat v))"
    by (simp only: unsigned_take_bit_eq unat_drop_bit_eq)
  then show ?thesis by (simp add: take_bit_eq_mod drop_bit_eq_div power_mult)
qed

lemma unat_push: "unat (x :: 'a::len word) * 2 ^ k < 2 ^ LENGTH('a) \<Longrightarrow> unat (push_bit k x) = unat x * 2 ^ k"
  unfolding unsigned_push_bit_eq by (simp add: push_bit_eq_mult take_bit_nat_eq_self)

lemma sqrt_step_inv:
  assumes n: "n \<le> 32" and i: "i < n" and v: "unat v < 2 ^ 62" and inv: "sqrt_inv v n i st"
  shows "sqrt_inv v n (Suc i) (sqrt_step (2 * n - 2) st)"
proof -
  obtain val res rem where st: "st = (val, res, rem)" by (cases st)
  define r where "r = unat res"
  define W where "W = unat v div 4 ^ (n - i)"
  define W' where "W' = unat v div 4 ^ (n - Suc i)"
  have val: "val = push_bit (2 * i) v" and r: "r * r \<le> W" "W < (r + 1) * (r + 1)" "unat rem = W - r * r"
    using inv by (simp_all add: sqrt_inv_def st Let_def r_def W_def)
  define d where "d = W' mod 4"
  have d4: "d < 4" by (simp add: d_def)
  have "n - i = Suc (n - Suc i)" using i by simp
  then have W4: "W = W' div 4" unfolding W_def W'_def by (simp only: power_Suc2 div_mult2_eq)
  have W': "W' = 4 * W + d" unfolding W4 d_def by simp
  have "W' \<le> unat v" by (simp add: W'_def)
  then have small: "W' < 2 ^ 62" using v by simp
  have "(2 * r) * (2 * r) \<le> W'" using r(1) W' by (simp add: algebra_simps)
  then have r31: "2 * r < 2 ^ 31"
  proof -
    have "(2 * r) * (2 * r) < 2 ^ 31 * 2 ^ 31" using \<open>(2 * r) * (2 * r) \<le> W'\<close> small by simp
    then show ?thesis by (metis linorder_not_less mult_le_mono)
  qed
  have rem: "unat rem \<le> 2 * r" using r by (simp add: algebra_simps)
  let ?rem = "push_bit 2 rem + (drop_bit (2 * n - 2) val AND 3)"
  have dg: "unat (drop_bit (2 * n - 2) val AND 3) = d" unfolding val digit [OF i n] d_def W'_def ..
  have "unat (push_bit 2 rem) = 4 * unat rem"
    using unat_push [of rem 2] rem r31 by simp
  then have rem': "unat ?rem = W' - 4 * (r * r)" "4 * (r * r) \<le> W'"
    using rem r31 d4 r W' by (simp_all add: unat_word_ariths dg)
  have res': "unat (push_bit 1 res) = 2 * r"
    using unat_push [of res 1] r31 by (simp add: r_def)
  have "unat (push_bit 1 (push_bit 1 res)) = 4 * r"
    using unat_push [of "push_bit 1 res" 1] r31 unfolding res' by simp
  then have "unat (push_bit 1 (push_bit 1 res) + 1) = 4 * r + 1" using r31 by (simp add: unat_word_ariths)
  then have prod: "unat (ucast (push_bit 1 (push_bit 1 res) + 1 :: u32) :: u64) = 4 * r + 1"
    using r31 by (simp add: unsigned_ucast_eq take_bit_nat_eq_self)
  have val': "push_bit 2 val = push_bit (2 * Suc i) v" by (simp add: val push_bit_push_bit add.commute)
  have up: "W' < (2 * r + 2) * (2 * r + 2)" using r(2) W' d4 by (simp add: algebra_simps)
  show ?thesis
  proof (cases "ucast (push_bit 1 (push_bit 1 res) + 1 :: u32) \<le> ?rem")
    case True
    then have "4 * r + 1 \<le> W' - 4 * (r * r)" by (simp only: word_le_nat_alt prod rem')
    then have ge: "(2 * r + 1) * (2 * r + 1) \<le> W'" by (simp add: algebra_simps)
    have "unat (push_bit 1 res + 1) = 2 * r + 1" unfolding unat_word_ariths(1) res' using r31 by simp
    moreover have "unat (?rem - ucast (push_bit 1 (push_bit 1 res) + 1 :: u32)) = W' - (2 * r + 1) * (2 * r + 1)"
      unfolding unat_sub [OF True] prod rem' by (simp add: algebra_simps)
    ultimately show ?thesis
      using True ge up by (simp only: st sqrt_step_def sqrt_inv_def Let_def prod.case if_True val' W'_def [symmetric]) simp
  next
    case False
    then have "W' - 4 * (r * r) < 4 * r + 1" by (simp only: word_le_nat_alt prod rem')
    then have "W' < (2 * r + 1) * (2 * r + 1)" using rem'(2) by (simp add: algebra_simps)
    then show ?thesis
      using False rem' by (simp only: st sqrt_step_def sqrt_inv_def Let_def prod.case if_False val' W'_def [symmetric] res') (simp add: algebra_simps)
  qed
qed


lemma sqrt_iterate:
  assumes "n \<le> 32" "unat v < 2 ^ 62" "unat v < 4 ^ n" "i \<le> n"
  shows "sqrt_inv v n i ((sqrt_step (2 * n - 2) ^^ i) (v, 0, 0))"
  using assms(4)
proof (induction i)
  case 0
  have "unat v div 4 ^ n = 0" using assms(3) by simp
  then show ?case by (simp add: sqrt_inv_def Let_def)
next
  case (Suc i)
  then show ?case using sqrt_step_inv [OF assms(1) _ assms(2)] by simp
qed

definition sqrt_operand :: "'a math_scheme \<Rightarrow> u64" where
  "sqrt_operand s = (if g_sqrtcnt s AND 1 \<noteq> 0 then words_u64 (g_sqrt_val s) else ucast (fst (g_sqrt_val s)))"

lemma sqrt_mode_kept: "(c AND NOT 0x8000) AND 1 = c AND (1 :: u16)"
  by (rule bit_word_eqI) (simp only: bit_and_iff bit_not_iff bitlits; auto)

lemma finish_sqrt_res:
  "g_sqrt_res (finish_sqrt s) = (let n = if g_sqrtcnt s AND 1 \<noteq> 0 then 32 else 16
     in fst (snd ((sqrt_step (2 * n - 2) ^^ n) (sqrt_operand s, 0, 0))))"
  by (simp add: finish_sqrt_def sqrt_operand_def Let_def case_prod_beta sqrt_mode_kept [simplified])

text \<open>
  C36. Square root. On completion the result register holds the integer square root of the operand:
  for every 32-bit operand, and in 64-bit mode for every operand below \<open>2 ^ 62\<close> (beyond it the 32-bit
  trial product of the source wraps, see \<open>sqrt_trial_product_wraps\<close>).
\<close>

theorem square_root_exact:
  assumes "unat (sqrt_operand s) < 2 ^ 62"
  defines "r \<equiv> unat (g_sqrt_res (finish_sqrt s))"
  shows "r * r \<le> unat (sqrt_operand s) \<and> unat (sqrt_operand s) < (r + 1) * (r + 1)"
proof -
  define n where "n = (if g_sqrtcnt s AND 1 \<noteq> 0 then 32 else 16 :: nat)"
  have "unat (sqrt_operand s) < 4 ^ n"
  proof (cases "g_sqrtcnt s AND 1 = 0")
    case True
    have "unat (fst (g_sqrt_val s)) < 2 ^ 32" by (rule order_less_le_trans [OF unsigned_less]) simp
    then show ?thesis using True by (simp add: n_def sqrt_operand_def unsigned_ucast_eq take_bit_nat_eq_self)
  next
    case False
    then show ?thesis using assms(1) by (simp add: n_def)
  qed
  then have "sqrt_inv (sqrt_operand s) n n ((sqrt_step (2 * n - 2) ^^ n) (sqrt_operand s, 0, 0))"
    using assms(1) by (intro sqrt_iterate) (simp_all add: n_def)
  then show ?thesis
    unfolding r_def finish_sqrt_res n_def [symmetric] sqrt_inv_def
    by (simp add: Let_def case_prod_beta flip: n_def)
qed

lemma square_root_exact_witness:
  "let r = unat (g_sqrt_res (finish_sqrt (math_boot\<lparr>g_sqrt_val := (1000000, 0)\<rparr>))) in r * r \<le> 1000000 \<and> 1000000 < (r + 1) * (r + 1)"
proof -
  have "unat (sqrt_operand (math_boot\<lparr>g_sqrt_val := (1000000, 0)\<rparr>)) = 1000000"
    by (simp add: sqrt_operand_def math_boot_def io_regs.defs math.defs)
  then show ?thesis using square_root_exact [of "math_boot\<lparr>g_sqrt_val := (1000000, 0)\<rparr>"] by (simp add: Let_def)
qed

text \<open>With the top result bit set the trial product loses its carry: \<open>2 ^ 62 + 1\<close> gives \<open>2 ^ 31 + 1\<close>.\<close>

lemma funpow_32: "(f ^^ 32) x = (f ^^ 8) ((f ^^ 8) ((f ^^ 8) ((f ^^ 8) x)))" "(f ^^ 8) x = f (f (f (f (f (f (f (f x)))))))"
  by (simp_all add: numeral_eq_Suc)

lemma sqrt_trial_product_wraps:
  "(sqrt_step 62 ^^ 32) (0x4000000000000001, 0, 0) = (0, 0x80000001, 0)"
  unfolding funpow_32 by (simp add: sqrt_step_def Let_def)

end
