(* ===== verification/Key1.thy ===== *)
theory Key1
  imports Prelude
begin

text \<open>
  The gamecard's KEY1 cipher (\<open>runner/src/io.cpp\<close>): the 16-round Feistel block cipher over a
  schedule of 0x412 words, its key set-up, the byte-level block operations, and the re-encryption of a
  decrypted secure area.  The schedule is a function of the index, which no operation takes past
  0x411.  Shown: decryption inverts encryption under every schedule, byte by byte, and the decryption
  a BIOS performs recovers the secure area from its card-side form.
\<close>

section \<open>Bytes and words\<close>

definition load_le32 :: "u8 list \<Rightarrow> nat \<Rightarrow> u32 option" where
  "load_le32 p i = do {
     b0 \<leftarrow> rd p i; b1 \<leftarrow> rd p (i + 1); b2 \<leftarrow> rd p (i + 2); b3 \<leftarrow> rd p (i + 3);
     Some (ucast b0 OR push_bit 8 (ucast b1) OR push_bit 16 (ucast b2) OR push_bit 24 (ucast b3)) }"

definition load_be32 :: "u8 list \<Rightarrow> nat \<Rightarrow> u32 option" where
  "load_be32 p i = do {
     b0 \<leftarrow> rd p i; b1 \<leftarrow> rd p (i + 1); b2 \<leftarrow> rd p (i + 2); b3 \<leftarrow> rd p (i + 3);
     Some (push_bit 24 (ucast b0) OR push_bit 16 (ucast b1) OR push_bit 8 (ucast b2) OR ucast b3) }"

definition store_le32 :: "u8 list \<Rightarrow> nat \<Rightarrow> u32 \<Rightarrow> u8 list option" where
  "store_le32 p i v = do {
     p \<leftarrow> wr p i (ucast v);
     p \<leftarrow> wr p (i + 1) (ucast (drop_bit 8 v));
     p \<leftarrow> wr p (i + 2) (ucast (drop_bit 16 v));
     wr p (i + 3) (ucast (drop_bit 24 v)) }"

definition byte_swap32 :: "u32 \<Rightarrow> u32" where
  "byte_swap32 v = drop_bit 24 v OR drop_bit 8 v AND 0x0000FF00 OR push_bit 8 v AND 0x00FF0000 OR push_bit 24 v"

section \<open>The cipher\<close>

type_synonym schedule = "nat \<Rightarrow> u32"

definition key1_f :: "schedule \<Rightarrow> u32 \<Rightarrow> u32" where
  "key1_f S v =
    (let out = S (0x012 + unat (drop_bit 24 v));
         out = out + S (0x112 + unat (drop_bit 16 v AND 0xFF));
         out = out XOR S (0x212 + unat (drop_bit 8 v AND 0xFF))
     in out + S (0x312 + unat (v AND 0xFF)))"

definition key1_round :: "schedule \<Rightarrow> nat \<Rightarrow> u32 \<times> u32 \<Rightarrow> u32 \<times> u32" where
  "key1_round S round = (\<lambda>(left, right).
     let mixed = right XOR S round in (mixed, key1_f S mixed XOR left))"

definition key1_encrypt :: "schedule \<Rightarrow> u32 \<times> u32 \<Rightarrow> u32 \<times> u32" where
  "key1_encrypt S words = (let (left, right) = fold (key1_round S) [0..<16] words in (right XOR S 16, left XOR S 17))"

definition key1_decrypt :: "schedule \<Rightarrow> u32 \<times> u32 \<Rightarrow> u32 \<times> u32" where
  "key1_decrypt S words = (let (left, right) = fold (key1_round S) (rev [2..<18]) words in (right XOR S 1, left XOR S 0))"

section \<open>Key set-up\<close>

text \<open>The refill loop; the cipher runs on the schedule it is rewriting.\<close>

definition key1_refill :: "nat \<Rightarrow> schedule \<times> (u32 \<times> u32) \<Rightarrow> schedule \<times> (u32 \<times> u32)" where
  "key1_refill i = (\<lambda>(S, block). let block = key1_encrypt S block in (S(i := snd block, i + 1 := fst block), block))"

definition key1_apply :: "nat \<Rightarrow> (u32 \<times> u32 \<times> u32) \<times> schedule \<Rightarrow> (u32 \<times> u32 \<times> u32) \<times> schedule" where
  "key1_apply modulus = (\<lambda>((k0, k1, k2), S).
     let (k1, k2) = key1_encrypt S (k1, k2);
         (k0, k1) = key1_encrypt S (k0, k1);
         S = (\<lambda>i. if i < 18 then S i XOR byte_swap32 ([k0, k1, k2] ! (i mod modulus)) else S i);
         (S, block) = fold key1_refill (map (\<lambda>n. 2 * n) [0..<0x209]) (S, (0, 0))
     in ((k0, k1, k2), S))"

definition key1_init :: "schedule \<Rightarrow> u32 \<Rightarrow> nat \<Rightarrow> schedule" where
  "key1_init base game_code level =
    (let st = ((game_code, drop_bit 1 game_code, push_bit 1 game_code), base);
         st = (if level \<ge> 1 then key1_apply 2 st else st);
         st = (if level \<ge> 2 then key1_apply 2 st else st);
         st = (if level \<ge> 3 then (case st of ((k0, k1, k2), S) \<Rightarrow>
                 key1_apply 2 ((k0, push_bit 1 k1, drop_bit 1 k2), S)) else st)
     in snd st)"

section \<open>Blocks of bytes\<close>

definition key1_encrypt_bytes :: "schedule \<Rightarrow> nat \<Rightarrow> u8 list \<Rightarrow> u8 list option" where
  "key1_encrypt_bytes S p bytes = do {
     w0 \<leftarrow> load_le32 bytes p;
     w1 \<leftarrow> load_le32 bytes (p + 4);
     let block = key1_encrypt S (w0, w1);
     bytes \<leftarrow> store_le32 bytes p (fst block);
     store_le32 bytes (p + 4) (snd block) }"

definition key1_decrypt_bytes :: "schedule \<Rightarrow> nat \<Rightarrow> u8 list \<Rightarrow> u8 list option" where
  "key1_decrypt_bytes S p bytes = do {
     w0 \<leftarrow> load_le32 bytes p;
     w1 \<leftarrow> load_le32 bytes (p + 4);
     let block = key1_decrypt S (w0, w1);
     bytes \<leftarrow> store_le32 bytes p (fst block);
     store_le32 bytes (p + 4) (snd block) }"

text \<open>\<open>for (pos = 0; pos < kSecureSize; pos += 8)\<close> over the secure area at \<open>p\<close>.\<close>

fun each_block :: "(nat \<Rightarrow> u8 list \<Rightarrow> u8 list option) \<Rightarrow> nat list \<Rightarrow> u8 list \<Rightarrow> u8 list option" where
  "each_block f [] bytes = Some bytes"
| "each_block f (p # ps) bytes = do { bytes \<leftarrow> f p bytes; each_block f ps bytes }"

definition kSecureSize :: nat where "kSecureSize = 0x800"

definition secure_blocks :: "nat \<Rightarrow> nat list" where
  "secure_blocks off = map (\<lambda>n. off + 8 * n) [0..<0x100]"

definition kSecureMagic :: "u8 list" where
  "kSecureMagic = [0x65, 0x6E, 0x63, 0x72, 0x79, 0x4F, 0x62, 0x6A]"

fun put_bytes :: "u8 list \<Rightarrow> nat \<Rightarrow> u8 list \<Rightarrow> u8 list option" where
  "put_bytes [] p bytes = Some bytes"
| "put_bytes (b # bs) p bytes = do { bytes \<leftarrow> wr bytes p b; put_bytes bs (p + 1) bytes }"

definition card_reencrypt_secure_area_if_needed :: "schedule option \<Rightarrow> u8 list \<Rightarrow> u8 list option" where
  "card_reencrypt_secure_area_if_needed base rom = (case base of None \<Rightarrow> Some rom | Some base \<Rightarrow>
    if length rom < 0x24 then Some rom
    else do {
      arm9_rom_offset \<leftarrow> load_le32 rom 0x20;
      let off = unat arm9_rom_offset;
      if off < 0x4000 \<or> off \<ge> 0x8000 \<or> off + kSecureSize > length rom then Some rom
      else do {
        m0 \<leftarrow> load_le32 rom off;
        if m0 \<noteq> 0xE7FFDEFF then Some rom
        else do {
          m1 \<leftarrow> load_le32 rom (off + 0x10);
          if m1 = 0xE7FFDEFF then Some rom
          else do {
            rom \<leftarrow> put_bytes kSecureMagic off rom;
            game_code \<leftarrow> load_le32 rom 0x0C;
            rom \<leftarrow> each_block (key1_encrypt_bytes (key1_init base game_code 3)) (secure_blocks off) rom;
            key1_encrypt_bytes (key1_init base game_code 2) off rom }}}})"

section \<open>The Feistel network\<close>

text \<open>
  One decryption round from the output of a round, masked with the next schedule word, yields the
  input of that round masked with the previous one.
\<close>

lemma xor_cancel [simp]: "(x XOR y) XOR y = (x :: 'a::len word)" "x XOR (x XOR y) = y"
  by (simp_all add: xor.assoc)

definition masked :: "schedule \<Rightarrow> nat \<Rightarrow> u32 \<times> u32 \<Rightarrow> u32 \<times> u32" where
  "masked S k = (\<lambda>(l, r). (r XOR S k, l XOR S (k + 1)))"

lemma round_undo: "key1_round S (k + 2) (masked S (k + 1) (key1_round S k w)) = masked S k w"
  by (cases w) (simp add: key1_round_def masked_def Let_def bit_eq_iff bit_simps; blast)

lemma rounds_undo: "fold (key1_round S) (rev [2..<n + 2]) (masked S n (fold (key1_round S) [0..<n] w)) = masked S 0 w"
proof (induction n)
  case (Suc n)
  have "rev [2..<Suc n + 2] = (n + 2) # rev [2..<n + 2]" by simp
  then show ?case using Suc round_undo [of S n "fold (key1_round S) [0..<n] w"] by simp
qed simp

lemma decrypt_encrypt: "key1_decrypt S (key1_encrypt S w) = w"
proof -
  have e: "key1_encrypt S w = masked S 16 (fold (key1_round S) [0..<16] w)"
    by (simp add: key1_encrypt_def masked_def case_prod_beta)
  have "key1_decrypt S (key1_encrypt S w) = (case masked S 0 w of (l, r) \<Rightarrow> (r XOR S 1, l XOR S 0))"
    unfolding key1_decrypt_def e using rounds_undo [of S 16 w] by simp
  then show ?thesis by (cases w) (simp add: masked_def)
qed


section \<open>Byte blocks\<close>

text \<open>Replace the eight bytes at \<open>p\<close> by a function of them.\<close>

definition upd8 :: "(u8 list \<Rightarrow> u8 list) \<Rightarrow> nat \<Rightarrow> u8 list \<Rightarrow> u8 list" where
  "upd8 f p bs = map (\<lambda>j. if p \<le> j \<and> j < p + 8 then f (map (\<lambda>k. bs ! (p + k)) [0..<8]) ! (j - p) else bs ! j) [0..<length bs]"

lemma upd8_length [simp]: "length (upd8 f p bs) = length bs"
  by (simp add: upd8_def)

lemma upd8_nth: "j < length bs \<Longrightarrow> upd8 f p bs ! j =
    (if p \<le> j \<and> j < p + 8 then f (map (\<lambda>k. bs ! (p + k)) [0..<8]) ! (j - p) else bs ! j)"
  by (simp add: upd8_def)

lemma upd8_commute:
  assumes "p + 8 \<le> q \<or> q + 8 \<le> p" "p + 8 \<le> length bs" "q + 8 \<le> length bs"
  shows "upd8 f p (upd8 g q bs) = upd8 g q (upd8 f p bs)"
proof -
  have other: "map (\<lambda>k. upd8 h a bs ! (b + k)) [0..<8] = map (\<lambda>k. bs ! (b + k)) [0..<8]"
    if "a + 8 \<le> b \<or> b + 8 \<le> a" "b + 8 \<le> length bs" for h a b
    using that by (auto simp: upd8_nth)
  show ?thesis
    using assms by (intro nth_equalityI) (auto simp: upd8_nth other)
qed

lemma upd8_inverse:
  assumes "\<And>w. length w = 8 \<Longrightarrow> g (f w) = w" "\<And>w. length (f w) = 8" "p + 8 \<le> length bs"
  shows "upd8 g p (upd8 f p bs) = bs"
proof (rule nth_equalityI)
  let ?w = "map (\<lambda>k. bs ! (p + k)) [0..<8]"
  have "map (\<lambda>k. upd8 f p bs ! (p + k)) [0..<8] = f ?w"
    using assms(2,3) by (intro nth_equalityI) (simp_all add: upd8_nth)
  then show "upd8 g p (upd8 f p bs) ! j = bs ! j" if "j < length (upd8 g p (upd8 f p bs))" for j
    using that assms(1) [of ?w] by (auto simp: upd8_nth)
qed simp

lemma byte_high: "8 \<le> n \<Longrightarrow> \<not> bit (x :: u8) n"
  using bit_imp_le_length [of x n] by auto

definition word4 :: "u8 \<Rightarrow> u8 \<Rightarrow> u8 \<Rightarrow> u8 \<Rightarrow> u32" where
  "word4 a b c d = ucast a OR push_bit 8 (ucast b) OR push_bit 16 (ucast c) OR push_bit 24 (ucast d)"

definition bytes4 :: "u32 \<Rightarrow> u8 list" where
  "bytes4 v = [ucast v, ucast (drop_bit 8 v), ucast (drop_bit 16 v), ucast (drop_bit 24 v)]"

lemma word4_bytes4: "word4 (ucast v) (ucast (drop_bit 8 v)) (ucast (drop_bit 16 v)) (ucast (drop_bit 24 v)) = v"
proof (rule bit_word_eqI)
  fix n :: nat
  assume n: "n < LENGTH(32)"
  consider "n < 8" | "8 \<le> n" "n < 16" | "16 \<le> n" "n < 24" | "24 \<le> n" by linarith
  then show "bit (word4 (ucast v) (ucast (drop_bit 8 v)) (ucast (drop_bit 16 v)) (ucast (drop_bit 24 v))) n = bit v n"
    using n by cases (auto simp: word4_def bit_simps)
qed

lemma bytes4_word4: "bytes4 (word4 a b c d) = [a, b, c, d]"
  unfolding word4_def bytes4_def by (auto intro!: bit_word_eqI simp: bit_simps byte_high)

definition block_bytes :: "(u32 \<times> u32 \<Rightarrow> u32 \<times> u32) \<Rightarrow> u8 list \<Rightarrow> u8 list" where
  "block_bytes f w = (let b = f (word4 (w ! 0) (w ! 1) (w ! 2) (w ! 3), word4 (w ! 4) (w ! 5) (w ! 6) (w ! 7))
     in bytes4 (fst b) @ bytes4 (snd b))"

lemma block_bytes_length [simp]: "length (block_bytes f w) = 8"
  by (simp add: block_bytes_def bytes4_def Let_def)

lemma block_bytes_inverse:
  assumes "\<And>w. g (f w) = w" "length w = 8"
  shows "block_bytes g (block_bytes f w) = w"
proof -
  obtain a b c d e h i j where w: "w = [a, b, c, d, e, h, i, j]"
    using assms(2) by (auto simp: numeral_eq_Suc length_Suc_conv)
  obtain x y where b: "f (word4 a b c d, word4 e h i j) = (x, y)" by (cases "f (word4 a b c d, word4 e h i j)")
  have "g (x, y) = (word4 a b c d, word4 e h i j)" using assms(1) b by metis
  then show ?thesis by (simp add: w block_bytes_def b Let_def bytes4_def [of x] bytes4_def [of y] word4_bytes4 bytes4_word4)
qed

lemma bytes_op:
  assumes "p + 8 \<le> length bs"
  shows "(do { w0 \<leftarrow> load_le32 bs p; w1 \<leftarrow> load_le32 bs (p + 4); let block = f (w0, w1);
       bs \<leftarrow> store_le32 bs p (fst block); store_le32 bs (p + 4) (snd block) }) = Some (upd8 (block_bytes f) p bs)"
proof -
  let ?b = "f (word4 (bs ! p) (bs ! (p + 1)) (bs ! (p + 2)) (bs ! (p + 3)), word4 (bs ! (p + 4)) (bs ! (p + 4 + 1)) (bs ! (p + 4 + 2)) (bs ! (p + 4 + 3)))"
  let ?r = "bs[p := ucast (fst ?b), p + 1 := ucast (drop_bit 8 (fst ?b)), p + 2 := ucast (drop_bit 16 (fst ?b)),
     p + 3 := ucast (drop_bit 24 (fst ?b)), p + 4 := ucast (snd ?b), p + 4 + 1 := ucast (drop_bit 8 (snd ?b)),
     p + 4 + 2 := ucast (drop_bit 16 (snd ?b)), p + 4 + 3 := ucast (drop_bit 24 (snd ?b))]"
  have "(do { w0 \<leftarrow> load_le32 bs p; w1 \<leftarrow> load_le32 bs (p + 4); let block = f (w0, w1);
       bs \<leftarrow> store_le32 bs p (fst block); store_le32 bs (p + 4) (snd block) }) = Some ?r"
    using assms by (simp add: load_le32_def store_le32_def word4_def Let_def)
  also have "?r = upd8 (block_bytes f) p bs"
  proof (rule nth_equalityI)
    fix j assume "j < length ?r"
    then have j: "j < length bs" by simp
    have m: "map (\<lambda>k. bs ! (p + k)) [0..<8] = [bs ! p, bs ! (p + 1), bs ! (p + 2), bs ! (p + 3), bs ! (p + 4), bs ! (p + 4 + 1), bs ! (p + 4 + 2), bs ! (p + 4 + 3)]"
      by (simp add: upt_rec eval_nat_numeral)
    show "?r ! j = upd8 (block_bytes f) p bs ! j"
    proof (cases "p \<le> j \<and> j < p + 8")
      case True
      then obtain k where k: "j = p + k" "k < 8" by (metis le_Suc_ex nat_add_left_cancel_less)
      then have "k \<in> {0, 1, 2, 3, 4, 5, 6, 7}" by auto
      then show ?thesis using assms by (auto simp: k upd8_nth m block_bytes_def bytes4_def Let_def nth_list_update)
    next
      case False
      then show ?thesis using j by (auto simp: upd8_nth nth_list_update)
    qed
  qed simp
  finally show ?thesis .
qed


lemmas encrypt_bytes_eq = bytes_op [of _ _ "key1_encrypt _", folded key1_encrypt_bytes_def]
lemmas decrypt_bytes_eq = bytes_op [of _ _ "key1_decrypt _", folded key1_decrypt_bytes_def]

abbreviation enc8 :: "schedule \<Rightarrow> nat \<Rightarrow> u8 list \<Rightarrow> u8 list" where
  "enc8 S \<equiv> upd8 (block_bytes (key1_encrypt S))"

abbreviation dec8 :: "schedule \<Rightarrow> nat \<Rightarrow> u8 list \<Rightarrow> u8 list" where
  "dec8 S \<equiv> upd8 (block_bytes (key1_decrypt S))"

lemma each_block_fold:
  assumes "\<And>p bs. p + 8 \<le> length bs \<Longrightarrow> f p bs = Some (upd8 g p bs)" "\<forall>p\<in>set ps. p + 8 \<le> length bs"
  shows "each_block f ps bs = Some (fold (upd8 g) ps bs)"
  using assms(2) by (induction ps arbitrary: bs) (simp_all add: assms(1))

lemma fold_upd8_length [simp]: "length (fold (upd8 g) ps bs) = length bs"
  by (induction ps arbitrary: bs) simp_all

lemma fold_upd8_outside: "j < length bs \<Longrightarrow> \<forall>p\<in>set ps. \<not> (p \<le> j \<and> j < p + 8) \<Longrightarrow> fold (upd8 g) ps bs ! j = bs ! j"
  by (induction ps arbitrary: bs) (auto simp: upd8_nth)

text \<open>Blocks that do not overlap can be undone in the order they were done.\<close>

definition disjoint8 :: "nat list \<Rightarrow> bool" where
  "disjoint8 ps \<longleftrightarrow> sorted_wrt (\<lambda>p q. p + 8 \<le> q \<or> q + 8 \<le> p) ps"

lemma upd8_past:
  "\<forall>q\<in>set ps. (p + 8 \<le> q \<or> q + 8 \<le> p) \<and> q + 8 \<le> length bs \<Longrightarrow> p + 8 \<le> length bs \<Longrightarrow>
     upd8 f p (fold (upd8 g) ps bs) = fold (upd8 g) ps (upd8 f p bs)"
  by (induction ps arbitrary: bs) (auto simp: upd8_commute)

lemma blocks_inverse:
  assumes "disjoint8 ps" "\<forall>p\<in>set ps. p + 8 \<le> length bs"
    and inv: "\<And>w. length w = 8 \<Longrightarrow> g (f w) = w" "\<And>w. length (f w) = 8"
  shows "fold (upd8 g) ps (fold (upd8 f) ps bs) = bs"
  using assms(1,2)
proof (induction ps arbitrary: bs)
  case (Cons p ps)
  have "upd8 g p (fold (upd8 f) ps (upd8 f p bs)) = fold (upd8 f) ps (upd8 g p (upd8 f p bs))"
    using Cons.prems by (intro upd8_past) (auto simp: disjoint8_def)
  also have "upd8 g p (upd8 f p bs) = bs" using Cons.prems inv by (intro upd8_inverse) auto
  finally show ?case using Cons by (simp add: disjoint8_def)
qed simp

lemma secure_blocks_disjoint: "disjoint8 (secure_blocks off)"
  by (auto simp: disjoint8_def secure_blocks_def sorted_wrt_map sorted_wrt_upt intro!: sorted_wrt_mono_rel [OF _ sorted_wrt_upt])

lemma put_bytes_Some: "p + length bs \<le> length xs \<Longrightarrow> \<exists>ys. put_bytes bs p xs = Some ys \<and> length ys = length xs
    \<and> (\<forall>j<length xs. j < p \<or> p + length bs \<le> j \<longrightarrow> ys ! j = xs ! j)"
proof (induction bs arbitrary: p xs)
  case (Cons b bs)
  then obtain ys where "put_bytes bs (p + 1) (xs[p := b]) = Some ys" "length ys = length xs"
    "\<forall>j<length xs. j < p + 1 \<or> p + 1 + length bs \<le> j \<longrightarrow> ys ! j = xs[p := b] ! j"
    using Cons.IH [of "p + 1" "xs[p := b]"] by auto
  then show ?case using Cons.prems by (auto simp: nth_list_update)
qed simp

lemma load_le32_cong: "length xs = length ys \<Longrightarrow> (\<And>k. k < 4 \<Longrightarrow> i + k < length xs \<Longrightarrow> xs ! (i + k) = ys ! (i + k)) \<Longrightarrow> load_le32 xs i = load_le32 ys i"
proof -
  assume l: "length xs = length ys" and e: "\<And>k. k < 4 \<Longrightarrow> i + k < length xs \<Longrightarrow> xs ! (i + k) = ys ! (i + k)"
  have "rd xs (i + k) = rd ys (i + k)" if "k < 4" for k using e [OF that] l by (simp add: rd_def)
  from this [of 0] this [of 1] this [of 2] this [of 3] show ?thesis by (simp add: load_le32_def)
qed

text \<open>
  C26. Secure area. For every image whose secure area is stored decrypted, the re-encryption stays
  inside the image, changes nothing outside the 2 KiB area, and is undone by the decryption the
  console's BIOS performs (the first block under the level-2 schedule, then all blocks under the
  level-3 schedule of the same game code): it leaves the original area with the marker "encryObj".
\<close>

theorem secure_area_recovered:
  assumes "0x24 \<le> length rom" and "load_le32 rom 0x20 = Some o32" and "0x4000 \<le> unat o32" "unat o32 < 0x8000"
    and "unat o32 + kSecureSize \<le> length rom" and "load_le32 rom (unat o32) = Some 0xE7FFDEFF"
    and "load_le32 rom (unat o32 + 0x10) \<noteq> Some 0xE7FFDEFF" and "load_le32 rom 0x0C = Some game_code"
  shows "\<exists>rom'. card_reencrypt_secure_area_if_needed (Some base) rom = Some rom' \<and> length rom' = length rom
    \<and> (\<forall>j<length rom. j < unat o32 \<or> unat o32 + kSecureSize \<le> j \<longrightarrow> rom' ! j = rom ! j)
    \<and> Option.bind (key1_decrypt_bytes (key1_init base game_code 2) (unat o32) rom')
        (each_block (key1_decrypt_bytes (key1_init base game_code 3)) (secure_blocks (unat o32)))
      = put_bytes kSecureMagic (unat o32) rom"
proof -
  define off where "off = unat o32"
  note sz = assms(5) [unfolded kSecureSize_def, folded off_def]
  let ?S2 = "key1_init base game_code 2" and ?S3 = "key1_init base game_code 3" and ?ps = "secure_blocks off"
  have ps: "\<forall>p\<in>set ?ps. off \<le> p \<and> p + 8 \<le> off + 0x800" by (auto simp: secure_blocks_def)
  have "off + length kSecureMagic \<le> length rom" using sz by (simp add: kSecureMagic_def)
  from put_bytes_Some [OF this] obtain m where m: "put_bytes kSecureMagic off rom = Some m" "length m = length rom"
    "\<forall>j<length rom. j < off \<or> off + 8 \<le> j \<longrightarrow> m ! j = rom ! j" by (auto simp: kSecureMagic_def)
  have in_m: "\<forall>p\<in>set ?ps. p + 8 \<le> length m" using ps sz m(2) by auto
  have gc: "load_le32 m 0x0C = Some game_code"
    using assms(3,8) m(3) by (subst load_le32_cong [of m rom]) (auto simp: m(2) off_def)
  obtain m1 where m1: "load_le32 rom (off + 0x10) = Some m1" "m1 \<noteq> 0xE7FFDEFF"
    using assms(7) sz by (auto simp: load_le32_def off_def)
  let ?e = "fold (enc8 ?S3) ?ps m"
  have e: "each_block (key1_encrypt_bytes ?S3) ?ps m = Some ?e"
    using in_m by (intro each_block_fold encrypt_bytes_eq)
  have first: "off + 8 \<le> length ?e" using sz m(2) by simp
  have r: "card_reencrypt_secure_area_if_needed (Some base) rom = Some (enc8 ?S2 off ?e)"
    using assms(1,2,3,4,6) sz m1 m(1) gc e encrypt_bytes_eq [OF first, of ?S2]
    by (simp add: card_reencrypt_secure_area_if_needed_def Let_def kSecureSize_def flip: off_def)
  have d2: "key1_decrypt_bytes ?S2 off (enc8 ?S2 off ?e) = Some ?e"
  proof -
    have "dec8 ?S2 off (enc8 ?S2 off ?e) = ?e"
      by (intro upd8_inverse block_bytes_inverse decrypt_encrypt block_bytes_length first)
    then show ?thesis using decrypt_bytes_eq [of off "enc8 ?S2 off ?e" ?S2] first by simp
  qed
  have "each_block (key1_decrypt_bytes ?S3) ?ps ?e = Some (fold (dec8 ?S3) ?ps ?e)"
    using in_m by (intro each_block_fold decrypt_bytes_eq) simp_all
  also have "fold (dec8 ?S3) ?ps ?e = m"
    by (intro blocks_inverse secure_blocks_disjoint in_m block_bytes_inverse decrypt_encrypt block_bytes_length)
  finally have d3: "each_block (key1_decrypt_bytes ?S3) ?ps ?e = Some m" .
  have out: "enc8 ?S2 off ?e ! j = rom ! j" if "j < length rom" "j < off \<or> off + 0x800 \<le> j" for j
  proof -
    have "\<forall>p\<in>set ?ps. \<not> (p \<le> j \<and> j < p + 8)" using ps that(2) by fastforce
    then have "?e ! j = m ! j" using that m(2) by (intro fold_upd8_outside) simp
    then show ?thesis using that m(2,3) by (auto simp: upd8_nth)
  qed
  show ?thesis
    by (rule exI [of _ "enc8 ?S2 off ?e"]) (use r d2 d3 m out in \<open>simp add: kSecureSize_def flip: off_def\<close>)
qed

definition demo_image :: "u8 list" where
  "demo_image = (replicate 0x4800 0)[0x21 := 0x40, 0x4000 := 0xFF, 0x4001 := 0xDE, 0x4002 := 0xFF, 0x4003 := 0xE7]"

lemma secure_area_recovered_witness:
  "\<exists>rom'. card_reencrypt_secure_area_if_needed (Some (\<lambda>i. word_of_nat (7 * i))) demo_image = Some rom'
     \<and> length rom' = 0x4800 \<and> rom' ! 0x21 = 0x40"
proof -
  have l: "load_le32 demo_image 0x20 = Some 0x4000" "load_le32 demo_image 0x4000 = Some 0xE7FFDEFF"
    "load_le32 demo_image 0x4010 = Some 0" "load_le32 demo_image 0x0C = Some 0" "length demo_image = 0x4800"
    "demo_image ! 0x21 = 0x40"
    by (simp_all add: load_le32_def demo_image_def rd_def nth_list_update)
  then show ?thesis
    using secure_area_recovered [of demo_image "0x4000" 0 "\<lambda>i. word_of_nat (7 * i)"] by (auto simp: kSecureSize_def)
qed

end
