(* ===== verification/GameCard.thy ===== *)
theory GameCard
  imports MathUnit Key1
begin

text \<open>
  The gamecard slot (\<open>runner/src/io.cpp\<close>): the command protocol in its raw, KEY1 and normal phases,
  the response buffer, the ROMCTRL write that starts a block, the data port, and the card's system
  event.  Buffer accesses are checked, so a theorem that an operation returns \<open>Some\<close> is a memory-safety
  theorem; trace records are left out.  Shown: no command sequence reads or writes outside the image
  and the response, and a block arrives word by word, in order, exactly once.
\<close>

section \<open>State\<close>

datatype card_mode = Raw | Keyed | Normal

record card = math +
  g_romctrl :: u32
  g_auxspicnt :: u16
  g_card_transfer_pos :: u32
  g_card_transfer_len :: u32
  g_card_deadline :: u64
  g_card_end_event :: bool
  g_card_irq_cpu :: nds_cpu
  g_card_rom :: "u8 list"
  g_card_response :: "u8 list"
  g_card_command :: "u8 list"
  g_card_chip_id :: u32
  g_key1_base :: "schedule option"
  g_key1_schedule :: schedule
  g_card_mode :: card_mode
  g_card_data_mode :: u32

section \<open>Building a response\<close>

text \<open>\<open>memcpy\<close>, undefined when a range leaves its buffer.\<close>

definition copy_in :: "u8 list \<Rightarrow> nat \<Rightarrow> u8 list \<Rightarrow> nat \<Rightarrow> nat \<Rightarrow> u8 list option" where
  "copy_in dst d src a n = (if d + n \<le> length dst \<and> a + n \<le> length src
     then Some (take d dst @ take n (drop a src) @ drop (d + n) dst) else None)"

definition card_copy_rom :: "u32 \<Rightarrow> u32 \<Rightarrow> nat \<Rightarrow> 'a card_scheme \<Rightarrow> 'a card_scheme option" where
  "card_copy_rom address len destination s =
    (if unat address \<ge> length (g_card_rom s) \<or> destination \<ge> length (g_card_response s) then Some s
     else let available = min (unat len) (length (g_card_rom s) - unat address);
              room = length (g_card_response s) - destination
       in map_option (\<lambda>r. s\<lparr>g_card_response := r\<rparr>)
         (copy_in (g_card_response s) destination (g_card_rom s) (unat address) (min available room)))"

text \<open>\<open>for (pos = 0; pos + 4 <= size; pos += 4)\<close>\<close>

fun fill_words :: "u32 \<Rightarrow> nat list \<Rightarrow> u8 list \<Rightarrow> u8 list option" where
  "fill_words v [] resp = Some resp"
| "fill_words v (pos # ps) resp = do { resp \<leftarrow> store_le32 resp pos v; fill_words v ps resp }"

definition card_fill_chip_id :: "'a card_scheme \<Rightarrow> 'a card_scheme option" where
  "card_fill_chip_id s = map_option (\<lambda>r. s\<lparr>g_card_response := r\<rparr>)
     (fill_words (g_card_chip_id s) (map (\<lambda>k. 4 * k) [0..<length (g_card_response s) div 4]) (g_card_response s))"

definition key1_decode_command :: "schedule \<Rightarrow> u8 list \<Rightarrow> u8 list option" where
  "key1_decode_command S encrypted = do {
     w0 \<leftarrow> load_be32 encrypted 4;
     w1 \<leftarrow> load_be32 encrypted 0;
     let block = key1_decrypt S (w0, w1);
     decoded \<leftarrow> store_le32 (replicate 8 0) 0 (byte_swap32 (snd block));
     store_le32 decoded 4 (byte_swap32 (fst block)) }"

text \<open>The header phase repeats the first 4 KiB of the image, a block at most 16 KiB long.\<close>

fun copy_header :: "nat list \<Rightarrow> 'a card_scheme \<Rightarrow> 'a card_scheme option" where
  "copy_header [] s = Some s"
| "copy_header (pos # ps) s = do {
     s \<leftarrow> card_copy_rom 0 (min 0x1000 (g_card_transfer_len s - word_of_nat pos)) pos s;
     copy_header ps s }"

definition raw_response :: "'a card_scheme \<Rightarrow> 'a card_scheme option" where
  "raw_response s = do {
     c \<leftarrow> rd (g_card_command s) 0;
     if c = 0x9F then Some (s\<lparr>g_card_response := replicate (length (g_card_response s)) 0xFF\<rparr>)
     else if c = 0x00 then copy_header (map (\<lambda>k. 0x1000 * k) [0..<(unat (g_card_transfer_len s) + 0xFFF) div 0x1000]) s
     else if c = 0x90 then card_fill_chip_id s
     else if c = 0x3C then (case g_key1_base s of None \<Rightarrow> Some s | Some base \<Rightarrow>
       if length (g_card_rom s) \<ge> 0x10
       then do { game_code \<leftarrow> load_le32 (g_card_rom s) 0x0C;
                 Some (s\<lparr>g_key1_schedule := key1_init base game_code 2, g_card_mode := Keyed\<rparr>) }
       else Some s)
     else Some s }"

definition key1_response :: "'a card_scheme \<Rightarrow> 'a card_scheme option" where
  "key1_response s = do {
     decoded \<leftarrow> key1_decode_command (g_key1_schedule s) (g_card_command s);
     c \<leftarrow> rd decoded 0;
     if c AND 0xF0 = 0x40 then Some (s\<lparr>g_card_data_mode := 2\<rparr>)
     else if c AND 0xF0 = 0x10 then card_fill_chip_id s
     else if c AND 0xF0 = 0x20
       then do { d2 \<leftarrow> rd decoded 2;
                 card_copy_rom (push_bit 8 (ucast (d2 AND 0xF0))) (min 0x1000 (g_card_transfer_len s)) 0 s }
     else if c AND 0xF0 = 0xA0 then Some (s\<lparr>g_card_mode := Normal\<rparr>)
     else Some s }"

definition normal_response :: "'a card_scheme \<Rightarrow> 'a card_scheme option" where
  "normal_response s = do {
     c \<leftarrow> rd (g_card_command s) 0;
     if c = 0xB8 then card_fill_chip_id s
     else if c = 0xB7 \<and> g_card_rom s \<noteq> []
     then do { address \<leftarrow> load_be32 (g_card_command s) 1;
               let address = address AND word_of_nat (length (g_card_rom s) - 1);
               let address = (if address < 0x8000 then 0x8000 + (address AND 0x1FF) else address);
               card_copy_rom address (g_card_transfer_len s) 0 s }
     else Some s }"

definition card_prepare_response :: "'a card_scheme \<Rightarrow> 'a card_scheme option" where
  "card_prepare_response s =
    (let s = s\<lparr>g_card_response := replicate (unat (g_card_transfer_len s)) 0\<rparr> in
     if g_card_rom s = [] then Some (s\<lparr>g_card_response := replicate (length (g_card_response s)) 0xFF\<rparr>)
     else case g_card_mode s of
       Raw \<Rightarrow> raw_response s
     | Keyed \<Rightarrow> key1_response s
     | Normal \<Rightarrow> normal_response s)"

section \<open>Registers\<close>

definition card_block_words :: "u32 \<Rightarrow> u32" where
  "card_block_words romctrl = (let n = drop_bit 24 romctrl AND 7 in
     if n = 0 then 0 else if n = 7 then 1 else push_bit (unat n) 0x100 div 4)"

definition card_owned_by :: "nds_cpu \<Rightarrow> 'a card_scheme \<Rightarrow> bool" where
  "card_owned_by cpu s \<longleftrightarrow> (drop_bit 11 (g_exmemcnt s ARM9) AND 1 = 1) = (cpu = ARM7)"

definition schedule_card_event :: "u64 \<Rightarrow> bool \<Rightarrow> 'a card_scheme \<Rightarrow> 'a card_scheme" where
  "schedule_card_event delay end_event s =
    (let s = s\<lparr>g_card_deadline := active_system_timestamp s + delay, g_card_end_event := end_event\<rparr>
     in nds_reschedule_slice (g_card_deadline s) s)"

text \<open>Two bounds keep \<open>pos\<close> from wrapping: a block has at most 0x4000 bytes and the position stays in it.\<close>

definition card_response_byte :: "'a card_scheme \<Rightarrow> u32 \<Rightarrow> u8" where
  "card_response_byte s pos = (if unat pos < length (g_card_response s) then g_card_response s ! unat pos else 0xFF)"

definition card_response_word :: "u32 \<Rightarrow> 'a card_scheme \<Rightarrow> u32" where
  "card_response_word position s =
    fold (\<lambda>byte w. w OR push_bit (byte * 8) (ucast (card_response_byte s (position + word_of_nat byte)))) [0..<4] 0"

text \<open>A ROMCTRL write; \<open>pending\<close> holds the eight latched command bytes.\<close>

definition romctrl_write :: "nds_cpu \<Rightarrow> u8 list \<Rightarrow> u32 \<Rightarrow> 'a card_scheme \<Rightarrow> 'a card_scheme option" where
  "romctrl_write cpu pending v s =
    (let start = v AND NOT (g_romctrl s) AND 0x80000000 \<noteq> 0;
         s = s\<lparr>g_romctrl := v AND 0xFF7F7FFF OR g_romctrl s AND 0x20800000\<rparr>;
         aux = g_auxspicnt s
     in if \<not> start \<or> aux AND 0x8000 = 0 \<or> aux AND 0x2000 \<noteq> 0 then Some s
     else
       let s = s\<lparr>g_card_transfer_pos := 0, g_card_transfer_len := card_block_words (g_romctrl s) * 4,
                 g_card_irq_cpu := cpu, g_romctrl := g_romctrl s AND NOT 0x00800000, g_card_command := pending\<rparr>
       in case card_prepare_response s of None \<Rightarrow> None
       | Some s \<Rightarrow>
         let xfercycle = (if g_romctrl s AND 0x08000000 \<noteq> 0 then 8 else 5);
             command_delay = 8;
             command_delay = (if g_romctrl s AND 0x40000000 = 0
               then command_delay + (g_romctrl s AND 0x1FFF)
                 + (if g_card_transfer_len s \<noteq> 0 then drop_bit 16 (g_romctrl s) AND 0x3F else 0)
               else command_delay)
         in Some (schedule_card_event (xfercycle * ucast (command_delay + (if g_card_transfer_len s \<noteq> 0 then 4 else 0)))
              (g_card_transfer_len s = 0) s))"

text \<open>The end of a block.\<close>

definition card_complete :: "'a card_scheme \<Rightarrow> 'a card_scheme" where
  "card_complete s =
    (let s = s\<lparr>g_romctrl := g_romctrl s AND NOT 0x80000000\<rparr>
     in if g_auxspicnt s AND 0x4000 \<noteq> 0 then nds_raise_irq (g_card_irq_cpu s) 0x00080000 s else s)"

definition card_data_read :: "'a card_scheme \<Rightarrow> u32 \<times> 'a card_scheme" where
  "card_data_read s =
    (if g_romctrl s AND 0x40000000 = 0 \<and> g_romctrl s AND 0x00800000 \<noteq> 0
     then let word = card_response_word (g_card_transfer_pos s) s;
              s = s\<lparr>g_romctrl := g_romctrl s AND NOT 0x00800000, g_card_transfer_pos := g_card_transfer_pos s + 4\<rparr>;
              s = (if g_card_transfer_pos s < g_card_transfer_len s
                   then let xfercycle = (if g_romctrl s AND 0x08000000 \<noteq> 0 then 8 else 5);
                            delay = 4 + (if g_card_transfer_pos s AND 0x1FF = 0 then drop_bit 16 (g_romctrl s) AND 0x3F else 0)
                        in schedule_card_event (xfercycle * ucast delay) False s
                   else card_complete s)
          in (word, s)
     else (0xFFFFFFFF, s))"

text \<open>The card's part of \<open>nds_run_system_events\<close>.\<close>

definition card_events :: "u64 \<Rightarrow> 'a card_scheme \<Rightarrow> 'a card_scheme" where
  "card_events timestamp s =
    (if g_card_deadline s \<le> timestamp
     then let end_event = g_card_end_event s; s = s\<lparr>g_card_deadline := - 1\<rparr>
          in if end_event then card_complete s
             else nds_dma_trigger (g_card_irq_cpu s) (if g_card_irq_cpu s = ARM9 then 5 else 0x12)
               (s\<lparr>g_romctrl := g_romctrl s OR 0x00800000\<rparr>)
     else s)"


section \<open>Frames\<close>

text \<open>The card's part of the state, untouched by the interrupt controller, the DMA and the slice planner.\<close>

definition card_part :: "'a card_scheme \<Rightarrow> _" where
  "card_part s = (g_romctrl s, g_auxspicnt s, g_card_transfer_pos s, g_card_transfer_len s, g_card_deadline s, g_card_end_event s, g_card_irq_cpu s, g_card_rom s, g_card_response s, g_card_command s, g_card_chip_id s, g_key1_base s, g_key1_schedule s, g_card_mode s, g_card_data_mode s)"

lemma card_part_frames:
  "card_part (nds_raise_irq cpu b s) = card_part s" "card_part (nds_reschedule_slice d s) = card_part s"
  "card_part (dma_start cpu ch s) = card_part s"
  by (simp_all add: card_part_def nds_raise_irq_def irq_recompute_def runtime_clear_fast_limit_def nds_reschedule_slice_def
      dma_start_def put_channel_def request_yield_poll_def Let_def)

lemma card_part_trigger: "card_part (nds_dma_trigger cpu m s) = card_part s \<and> g_if (nds_dma_trigger cpu m s) = g_if s"
proof -
  have i: "g_if (dma_start cpu ch u) = g_if u" for ch and u :: "'a card_scheme"
    by (simp add: dma_start_def put_channel_def request_yield_poll_def Let_def)
  have "card_part (fold (\<lambda>ch s. if d_cnt (g_dma s cpu ch) AND 0x80000000 \<noteq> 0 \<and> ucast (d_start_mode (g_dma s cpu ch)) = m
      then dma_start cpu ch s else s) chs u) = card_part u
    \<and> g_if (fold (\<lambda>ch s. if d_cnt (g_dma s cpu ch) AND 0x80000000 \<noteq> 0 \<and> ucast (d_start_mode (g_dma s cpu ch)) = m
      then dma_start cpu ch s else s) chs u) = g_if u" for chs and u :: "'a card_scheme"
    by (induction chs arbitrary: u) (simp_all add: card_part_frames i)
  then show ?thesis by (simp add: nds_dma_trigger_def)
qed

lemma card_partD:
  assumes "card_part t = card_part s"
  shows "g_romctrl t = g_romctrl s"
    "g_auxspicnt t = g_auxspicnt s"
    "g_card_transfer_pos t = g_card_transfer_pos s"
    "g_card_transfer_len t = g_card_transfer_len s"
    "g_card_deadline t = g_card_deadline s"
    "g_card_end_event t = g_card_end_event s"
    "g_card_irq_cpu t = g_card_irq_cpu s"
    "g_card_rom t = g_card_rom s"
    "g_card_response t = g_card_response s"
    "g_card_command t = g_card_command s"
    "g_card_chip_id t = g_card_chip_id s"
    "g_key1_base t = g_key1_base s"
    "g_key1_schedule t = g_key1_schedule s"
    "g_card_mode t = g_card_mode s"
    "g_card_data_mode t = g_card_data_mode s"
  using assms by (simp_all add: card_part_def)

lemmas card_frames [simp] = card_partD [OF card_part_frames(1)] card_partD [OF card_part_frames(2)]
  card_partD [OF conjunct1 [OF card_part_trigger]]

lemma irq_frames [simp]:
  fixes s :: "'a card_scheme"
  shows "g_if (nds_reschedule_slice d s) = g_if s" "g_if (nds_dma_trigger cpu m s) = g_if s"
  by (simp_all add: nds_reschedule_slice_def Let_def card_part_trigger)

section \<open>Every command stays in its buffers\<close>

definition card_ok :: "'a card_scheme \<Rightarrow> bool" where
  "card_ok s \<longleftrightarrow> length (g_card_command s) = 8 \<and> length (g_card_response s) = unat (g_card_transfer_len s)
     \<and> unat (g_card_transfer_len s) \<le> 0x4000 \<and> 4 dvd unat (g_card_transfer_len s)"

text \<open>What building a response may change.\<close>

definition responds :: "'a card_scheme \<Rightarrow> 'a card_scheme \<Rightarrow> bool" where
  "responds s t \<longleftrightarrow> (\<exists>r S m d. length r = length (g_card_response s) \<and>
     t = s\<lparr>g_card_response := r, g_key1_schedule := S, g_card_mode := m, g_card_data_mode := d\<rparr>)"

lemma respondsI: "length r = length (g_card_response s) \<Longrightarrow>
    responds s (s\<lparr>g_card_response := r, g_key1_schedule := S, g_card_mode := m, g_card_data_mode := d\<rparr>)"
  unfolding responds_def by blast

lemma responds_intros:
  "responds s s" "length r = length (g_card_response s) \<Longrightarrow> responds s (s\<lparr>g_card_response := r\<rparr>)"
  "responds s (s\<lparr>g_key1_schedule := S, g_card_mode := m\<rparr>)" "responds s (s\<lparr>g_card_mode := m\<rparr>)"
  "responds s (s\<lparr>g_card_data_mode := d\<rparr>)"
proof -
  note i = respondsI [where s = s]
  show "responds s s"
    using i [where r = "g_card_response s" and S = "g_key1_schedule s" and m = "g_card_mode s" and d = "g_card_data_mode s"] by simp
  show "length r = length (g_card_response s) \<Longrightarrow> responds s (s\<lparr>g_card_response := r\<rparr>)"
    using i [where r = r and S = "g_key1_schedule s" and m = "g_card_mode s" and d = "g_card_data_mode s"] by simp
  show "responds s (s\<lparr>g_key1_schedule := S, g_card_mode := m\<rparr>)"
    using i [where r = "g_card_response s" and S = S and m = m and d = "g_card_data_mode s"] by simp
  show "responds s (s\<lparr>g_card_mode := m\<rparr>)"
    using i [where r = "g_card_response s" and S = "g_key1_schedule s" and m = m and d = "g_card_data_mode s"] by simp
  show "responds s (s\<lparr>g_card_data_mode := d\<rparr>)"
    using i [where r = "g_card_response s" and S = "g_key1_schedule s" and m = "g_card_mode s" and d = d] by simp
qed

lemma responds_trans: "responds s t \<Longrightarrow> responds t u \<Longrightarrow> responds s u"
proof -
  assume "responds s t" "responds t u"
  then obtain r S m d r' S' m' d' where
    l: "length r = length (g_card_response s)" "length r' = length (g_card_response t)" and
    t: "t = s\<lparr>g_card_response := r, g_key1_schedule := S, g_card_mode := m, g_card_data_mode := d\<rparr>" and
    u: "u = t\<lparr>g_card_response := r', g_key1_schedule := S', g_card_mode := m', g_card_data_mode := d'\<rparr>"
    unfolding responds_def by blast
  have "length r' = length (g_card_response s)" using l by (simp add: t)
  moreover have "u = s\<lparr>g_card_response := r', g_key1_schedule := S', g_card_mode := m', g_card_data_mode := d'\<rparr>" by (simp add: u t)
  ultimately show ?thesis unfolding responds_def by blast
qed

lemma store_le32_Some: "p + 4 \<le> length bs \<Longrightarrow> \<exists>cs. store_le32 bs p v = Some cs \<and> length cs = length bs"
  by (simp add: store_le32_def)

lemma fill_words_Some: "\<forall>p\<in>set ps. p + 4 \<le> length r \<Longrightarrow> \<exists>q. fill_words v ps r = Some q \<and> length q = length r"
proof (induction ps arbitrary: r)
  case (Cons p ps)
  then obtain cs where "store_le32 r p v = Some cs" "length cs = length r" using store_le32_Some [of p r v] by auto
  then show ?case using Cons.IH [of cs] Cons.prems by simp
qed simp

lemma copy_in_length: "copy_in dst d src a n = Some r \<Longrightarrow> length r = length dst"
  by (auto simp: copy_in_def split: if_splits)

lemma fill_chip_id_ok: "\<exists>t. card_fill_chip_id s = Some t \<and> responds s t"
proof -
  have "\<forall>p\<in>set (map (\<lambda>k. 4 * k) [0..<length (g_card_response s) div 4]). p + 4 \<le> length (g_card_response s)"
    by (auto simp: less_eq_div_iff_mult_less_eq)
  from fill_words_Some [OF this, of "g_card_chip_id s"] obtain q
    where "fill_words (g_card_chip_id s) (map (\<lambda>k. 4 * k) [0..<length (g_card_response s) div 4]) (g_card_response s) = Some q"
      "length q = length (g_card_response s)" by blast
  then show ?thesis by (simp add: card_fill_chip_id_def responds_intros(2))
qed

lemma copy_rom_ok: "\<exists>t. card_copy_rom a l d s = Some t \<and> responds s t"
proof (cases "unat a \<ge> length (g_card_rom s) \<or> d \<ge> length (g_card_response s)")
  case False
  let ?n = "min (min (unat l) (length (g_card_rom s) - unat a)) (length (g_card_response s) - d)"
  have "d + ?n \<le> length (g_card_response s)" "unat a + ?n \<le> length (g_card_rom s)" using False by linarith+
  then obtain r where r: "copy_in (g_card_response s) d (g_card_rom s) (unat a) ?n = Some r" unfolding copy_in_def by simp
  show ?thesis unfolding card_copy_rom_def if_not_P [OF False] Let_def r using copy_in_length [OF r] by (simp add: responds_intros(2))
qed (auto simp: card_copy_rom_def intro: responds_intros)

lemma copy_header_ok: "\<exists>t. copy_header ps s = Some t \<and> responds s t"
proof (induction ps arbitrary: s)
  case (Cons p ps)
  obtain t where t: "card_copy_rom 0 (min 0x1000 (g_card_transfer_len s - word_of_nat p)) p s = Some t" "responds s t"
    using copy_rom_ok by blast
  then show ?case using Cons [of t] responds_trans by auto
qed (auto intro: responds_intros)

lemma decode_ok: "length e = 8 \<Longrightarrow> \<exists>d. key1_decode_command S e = Some d \<and> length d = 8"
  by (simp add: key1_decode_command_def load_be32_def store_le32_def Let_def)

lemma prepare_ok:
  assumes c: "length (g_card_command s) = 8"
  shows "\<exists>t. card_prepare_response s = Some t \<and> responds (s\<lparr>g_card_response := replicate (unat (g_card_transfer_len s)) 0\<rparr>) t"
proof -
  let ?s = "s\<lparr>g_card_response := replicate (unat (g_card_transfer_len s)) 0\<rparr>"
  have raw: "\<exists>t. raw_response ?s = Some t \<and> responds ?s t"
  proof -
    obtain b where b: "rd (g_card_command s) 0 = Some b" using c by simp
    have l: "\<exists>g. load_le32 (g_card_rom s) 0x0C = Some g" if "0x10 \<le> length (g_card_rom s)"
      using that by (simp add: load_le32_def)
    consider "b = 0x9F" | "b = 0" | "b = 0x90" | "b = 0x3C" | "b \<notin> {0x9F, 0, 0x90, 0x3C}" by blast
    then show ?thesis
    proof cases
      case 1
      then show ?thesis using b responds_intros(2) [of "replicate (unat (g_card_transfer_len s)) 0xFF" ?s]
        by (simp add: raw_response_def)
    next
      case 4
      then show ?thesis using l by (auto simp: raw_response_def b responds_intros split: option.split)
    qed (use b copy_header_ok fill_chip_id_ok in \<open>auto simp: raw_response_def intro: responds_intros\<close>)
  qed
  have key: "\<exists>t. key1_response ?s = Some t \<and> responds ?s t"
  proof -
    obtain d where d: "key1_decode_command (g_key1_schedule ?s) (g_card_command ?s) = Some d" "length d = 8"
      using decode_ok c by fastforce
    then show ?thesis using fill_chip_id_ok copy_rom_ok by (auto simp: key1_response_def intro: responds_intros)
  qed
  have normal: "\<exists>t. normal_response ?s = Some t \<and> responds ?s t"
  proof -
    have "\<exists>a. load_be32 (g_card_command ?s) 1 = Some a" using c by (simp add: load_be32_def)
    then show ?thesis using c fill_chip_id_ok copy_rom_ok
      by (auto simp: normal_response_def Let_def intro: responds_intros)
  qed
  show ?thesis
  proof (cases "g_card_rom s = []")
    case True
    then show ?thesis using responds_intros(2) [of "replicate (unat (g_card_transfer_len s)) 0xFF" ?s]
      by (simp add: card_prepare_response_def)
  next
    case False
    then show ?thesis using raw key normal by (cases "g_card_mode s") (simp_all add: card_prepare_response_def Let_def)
  qed
qed


lemma block_words: "unat (card_block_words v * 4) \<le> 0x4000 \<and> 4 dvd unat (card_block_words v * 4) \<and> unat (card_block_words v) \<le> 0x1000"
proof -
  have m: "(7 :: u32) = mask 3" by (simp add: mask_eq_exp_minus_1)
  define n where "n = drop_bit 24 v AND 7"
  have "unat n < 8" unfolding n_def m unat_and_mask by simp
  then have "unat n \<in> {0, 1, 2, 3, 4, 5, 6, 7}" by auto
  then have "n \<in> {0, 1, 2, 3, 4, 5, 6, 7}" by (auto simp: word_unat_eq_iff)
  then show ?thesis unfolding card_block_words_def n_def [symmetric] Let_def by (auto simp: push_bit_eq_mult)
qed

lemma complete_part: "card_part (card_complete s) = card_part (s\<lparr>g_romctrl := g_romctrl s AND NOT 0x80000000\<rparr>)"
  by (simp add: card_complete_def Let_def card_part_frames)

lemmas complete_frames [simp] = card_partD [OF complete_part, simplified]

lemma schedule_part:
  "card_part (schedule_card_event d e s) = card_part (s\<lparr>g_card_deadline := active_system_timestamp s + d, g_card_end_event := e\<rparr>)"
  by (simp add: schedule_card_event_def Let_def card_part_frames)

lemmas schedule_frames [simp] = card_partD [OF schedule_part, simplified]

lemma romctrl_ok:
  assumes "card_ok s" "length pending = 8"
  shows "\<exists>t. romctrl_write cpu pending v s = Some t \<and> card_ok t \<and> g_card_rom t = g_card_rom s"
proof -
  let ?c = "v AND 0xFF7F7FFF OR g_romctrl s AND 0x20800000"
  let ?s = "s\<lparr>g_romctrl := ?c, g_card_transfer_pos := 0, g_card_transfer_len := card_block_words ?c * 4,
     g_card_irq_cpu := cpu, g_romctrl := ?c AND NOT 0x00800000, g_card_command := pending\<rparr>"
  have "length (g_card_command ?s) = 8" using assms(2) by simp
  from prepare_ok [OF this] obtain t where t: "card_prepare_response ?s = Some t"
    "responds (?s\<lparr>g_card_response := replicate (unat (g_card_transfer_len ?s)) 0\<rparr>) t" by blast
  from t(2) have "length (g_card_response t) = unat (g_card_transfer_len t)" "g_card_transfer_len t = card_block_words ?c * 4"
    "g_card_command t = pending" "g_card_rom t = g_card_rom s" by (auto simp: responds_def)
  then show ?thesis
    using assms t(1) block_words [of ?c]
    by (auto simp: romctrl_write_def Let_def card_ok_def)
qed


datatype card_op = Romctrl nds_cpu "u8 list" u32 | DataRead | CardEvents u64

fun card_run :: "card_op list \<Rightarrow> 'a card_scheme \<Rightarrow> 'a card_scheme option" where
  "card_run [] s = Some s"
| "card_run (Romctrl cpu pending v # ops) s = Option.bind (romctrl_write cpu pending v s) (card_run ops)"
| "card_run (DataRead # ops) s = card_run ops (snd (card_data_read s))"
| "card_run (CardEvents ts # ops) s = card_run ops (card_events ts s)"

fun op_ok :: "card_op \<Rightarrow> bool" where
  "op_ok (Romctrl cpu pending v) \<longleftrightarrow> length pending = 8"
| "op_ok _ \<longleftrightarrow> True"

lemma data_read_ok: "card_ok s \<Longrightarrow> card_ok (snd (card_data_read s)) \<and> g_card_rom (snd (card_data_read s)) = g_card_rom s"
  by (simp add: card_data_read_def Let_def card_ok_def)

lemma events_ok: "card_ok s \<Longrightarrow> card_ok (card_events ts s) \<and> g_card_rom (card_events ts s) = g_card_rom s"
  by (simp add: card_events_def Let_def card_ok_def)

text \<open>
  Gamecard commands. Whatever commands the guest issues, in whatever order with data reads and
  events, in every phase of the protocol and for any inserted image, every access stays inside the
  image, the command and the response buffer, and the image is never changed.
\<close>

lemma card_run_safe:
  assumes "card_ok s" and "\<forall>op\<in>set ops. op_ok op"
  shows "\<exists>t. card_run ops s = Some t \<and> card_ok t \<and> g_card_rom t = g_card_rom s"
  using assms
proof (induction ops s rule: card_run.induct)
  case (2 cpu pending v ops s)
  have "length pending = 8" using "2.prems"(2) by simp
  then obtain t where t: "romctrl_write cpu pending v s = Some t" "card_ok t" "g_card_rom t = g_card_rom s"
    using romctrl_ok [OF "2.prems"(1)] by blast
  have "\<exists>u. card_run ops t = Some u \<and> card_ok u \<and> g_card_rom u = g_card_rom t"
    using "2.prems"(2) by (intro "2.IH" t) simp_all
  then show ?case using t by simp
next
  case (3 ops s)
  have "\<exists>u. card_run ops (snd (card_data_read s)) = Some u \<and> card_ok u \<and> g_card_rom u = g_card_rom (snd (card_data_read s))"
    using "3.IH" data_read_ok [OF "3.prems"(1)] "3.prems"(2) by auto
  then show ?case using data_read_ok [OF "3.prems"(1)] by simp
next
  case (4 ts ops s)
  have "\<exists>u. card_run ops (card_events ts s) = Some u \<and> card_ok u \<and> g_card_rom u = g_card_rom (card_events ts s)"
    using "4.IH" events_ok [OF "4.prems"(1)] "4.prems"(2) by auto
  then show ?case using events_ok [OF "4.prems"(1)] by simp
qed simp

definition card_boot :: card where
  "card_boot = math.extend math_boot (card.fields 0 0 0 0 (- 1) False ARM9 [] [] (replicate 8 0) 0 None (\<lambda>_. 0) Raw 0)"

lemma card_run_safe_witness:
  "\<exists>t. card_run [Romctrl ARM9 (replicate 8 0x9F) 0x87000000, CardEvents 1000, DataRead] (card_boot\<lparr>g_auxspicnt := 0x8000\<rparr>) = Some t"
proof -
  have "card_ok (card_boot\<lparr>g_auxspicnt := 0x8000\<rparr>)" by (simp add: card_ok_def card_boot_def math.defs card.defs)
  from card_run_safe [OF this, of "[Romctrl ARM9 (replicate 8 0x9F) 0x87000000, CardEvents 1000, DataRead]"]
  show ?thesis by auto
qed

section \<open>A block arrives\<close>

text \<open>The guest's read loop: wait for the data-ready event, read the port.\<close>

fun card_serve :: "nat \<Rightarrow> 'a card_scheme \<Rightarrow> u32 list \<times> 'a card_scheme" where
  "card_serve 0 s = ([], s)"
| "card_serve (Suc n) s =
    (let (w, s) = card_data_read (card_events (g_card_deadline s) s); (ws, s) = card_serve n s in (w # ws, s))"

definition serving :: "nat \<Rightarrow> nat \<Rightarrow> 'a card_scheme \<Rightarrow> bool" where
  "serving k n s \<longleftrightarrow> k < n \<and> n \<le> 0x1000 \<and> unat (g_card_transfer_pos s) = 4 * k \<and> unat (g_card_transfer_len s) = 4 * n
     \<and> \<not> g_card_end_event s \<and> \<not> bit (g_romctrl s) 30 \<and> bit (g_romctrl s) 31"

lemma word_from_response:
  "g_card_response t = g_card_response s \<Longrightarrow> card_response_word p t = card_response_word p s"
proof -
  assume "g_card_response t = g_card_response s"
  then have "card_response_byte t = card_response_byte s" by (intro ext) (simp add: card_response_byte_def)
  then show ?thesis by (simp only: card_response_word_def)
qed

lemma data_read_ready:
  assumes "g_romctrl s AND 0x40000000 = 0" "g_romctrl s AND 0x00800000 \<noteq> 0"
  obtains d where "card_data_read s = (card_response_word (g_card_transfer_pos s) s,
    let r = s\<lparr>g_romctrl := g_romctrl s AND NOT 0x00800000, g_card_transfer_pos := g_card_transfer_pos s + 4\<rparr>
    in if g_card_transfer_pos s + 4 < g_card_transfer_len s then schedule_card_event d False r else card_complete r)"
  using assms by (simp add: card_data_read_def Let_def split del: if_split) metis

lemma serve_one:
  fixes s :: "'a card_scheme"
  assumes "serving k n s"
  defines "u \<equiv> snd (card_data_read (card_events (g_card_deadline s) s))"
  shows "fst (card_data_read (card_events (g_card_deadline s) s)) = card_response_word (4 * word_of_nat k) s"
    and "Suc k < n \<Longrightarrow> serving (Suc k) n u \<and> g_if u = g_if s"
    and "g_card_response u = g_card_response s \<and> g_auxspicnt u = g_auxspicnt s \<and> g_card_irq_cpu u = g_card_irq_cpu s"
    and "Suc k = n \<Longrightarrow> \<not> bit (g_romctrl u) 31 \<and> g_card_deadline u = - 1 \<and> g_if u = (if bit (g_auxspicnt s) 14
      then (g_if s)(g_card_irq_cpu s := g_if s (g_card_irq_cpu s) OR 0x00080000) else g_if s)"
proof -
  let ?e = "nds_dma_trigger (g_card_irq_cpu s) (if g_card_irq_cpu s = ARM9 then 5 else 0x12)
    (s\<lparr>g_card_deadline := - 1, g_romctrl := g_romctrl s OR 0x00800000\<rparr>)"
  have e: "card_events (g_card_deadline s) s = ?e" using assms(1) by (simp add: card_events_def serving_def)
  have pos: "g_card_transfer_pos s = 4 * word_of_nat k"
    using assms(1) by (simp add: serving_def word_unat_eq_iff unat_word_ariths unat_of_nat)
  have c: "(g_romctrl s OR 0x00800000) AND 0x40000000 = 0" "(g_romctrl s OR 0x00800000) AND 0x00800000 \<noteq> 0"
    using assms(1) by (simp_all only: serving_def tst30 tst23 bit_or_iff bitlit23) simp_all
  have er: "g_romctrl ?e = g_romctrl s OR 0x00800000" by simp
  have c': "g_romctrl ?e AND 0x40000000 = 0" "g_romctrl ?e AND 0x00800000 \<noteq> 0" unfolding er by (fact c)+
  obtain d where r: "card_data_read ?e = (card_response_word (g_card_transfer_pos ?e) ?e,
    let r = ?e\<lparr>g_romctrl := g_romctrl ?e AND NOT 0x00800000, g_card_transfer_pos := g_card_transfer_pos ?e + 4\<rparr>
    in if g_card_transfer_pos ?e + 4 < g_card_transfer_len ?e then schedule_card_event d False r else card_complete r)"
    by (rule data_read_ready [OF c'])
  have ep: "g_card_transfer_pos ?e = g_card_transfer_pos s" "g_card_transfer_len ?e = g_card_transfer_len s"
    "g_card_response ?e = g_card_response s" by simp_all
  show "fst (card_data_read (card_events (g_card_deadline s) s)) = card_response_word (4 * word_of_nat k) s"
    unfolding e r fst_conv word_from_response [OF ep(3)] ep(1) pos ..
  let ?r = "?e\<lparr>g_romctrl := (g_romctrl s OR 0x00800000) AND NOT 0x00800000, g_card_transfer_pos := g_card_transfer_pos s + 4\<rparr>"
  let ?x = "(g_romctrl s OR 0x00800000) AND NOT (0x00800000 :: u32)"
  have x: "bit ?x 30 = bit (g_romctrl s) 30" "bit ?x 31 = bit (g_romctrl s) 31"
    by (simp_all only: bit_and_iff bit_or_iff bit_not_iff bitlits) simp_all
  have up: "unat (g_card_transfer_pos s + 4) = 4 * Suc k" using assms(1) by (simp add: serving_def unat_word_ariths)
  have ul: "unat (g_card_transfer_len s) = 4 * n" using assms(1) by (simp add: serving_def)
  have lt: "g_card_transfer_pos s + 4 < g_card_transfer_len s \<longleftrightarrow> Suc k < n"
    unfolding word_less_nat_alt up ul by arith
  have u: "u = (if Suc k < n then schedule_card_event d False ?r else card_complete ?r)"
    unfolding u_def e r snd_conv Let_def ep er lt ..
  show "Suc k < n \<Longrightarrow> serving (Suc k) n u \<and> g_if u = g_if s"
    using assms(1) x up by (simp add: u serving_def schedule_card_event_def Let_def)
  show "g_card_response u = g_card_response s \<and> g_auxspicnt u = g_auxspicnt s \<and> g_card_irq_cpu u = g_card_irq_cpu s"
    by (simp add: u)
  assume last: "Suc k = n"
  have "g_if (card_complete ?r) = (if bit (g_auxspicnt s) 14
      then (g_if s)(g_card_irq_cpu s := g_if s (g_card_irq_cpu s) OR 0x00080000) else g_if s)"
    by (simp add: card_complete_def Let_def tst14 nds_raise_irq_def irq_recompute_def runtime_clear_fast_limit_def)
  moreover have "\<not> bit (g_romctrl (card_complete ?r)) 31"
    by (simp only: complete_frames card.select_convs card.simps) (simp only: bit_and_iff bit_not_iff bitlits; simp)
  ultimately show "\<not> bit (g_romctrl u) 31 \<and> g_card_deadline u = - 1 \<and> g_if u = (if bit (g_auxspicnt s) 14
      then (g_if s)(g_card_irq_cpu s := g_if s (g_card_irq_cpu s) OR 0x00080000) else g_if s)"
    using last by (simp add: u)
qed


lemma serve_block:
  "serving k n s \<Longrightarrow> card_serve (n - k) s = (ws, u) \<Longrightarrow>
     ws = map (\<lambda>j. card_response_word (4 * word_of_nat j) s) [k..<n] \<and> \<not> bit (g_romctrl u) 31 \<and> g_card_deadline u = - 1
     \<and> g_if u = (if bit (g_auxspicnt s) 14
         then (g_if s)(g_card_irq_cpu s := g_if s (g_card_irq_cpu s) OR 0x00080000) else g_if s)"
proof (induction "n - k" arbitrary: k s ws)
  case (Suc m)
  then have k: "k < n" by simp
  note one = serve_one [OF Suc.prems(1)]
  let ?v = "snd (card_data_read (card_events (g_card_deadline s) s))"
  have nk: "n - k = Suc (n - Suc k)" using k by simp
  obtain ws' u' where w: "card_serve (n - Suc k) ?v = (ws', u')" by (cases "card_serve (n - Suc k) ?v")
  have "card_serve (Suc (n - Suc k)) s = (card_response_word (4 * word_of_nat k) s # ws', u')"
    unfolding card_serve.simps Let_def case_prod_beta w one(1) fst_conv snd_conv ..
  then have ws': "card_serve (n - Suc k) ?v = (ws', u)" "ws = card_response_word (4 * word_of_nat k) s # ws'"
    using Suc.prems(2) w unfolding nk by simp_all
  have up: "[k..<n] = k # [Suc k..<n]" using k by (simp add: upt_conv_Cons)
  have rw: "card_response_word p ?v = card_response_word p s" for p
    by (rule word_from_response [OF conjunct1 [OF one(3)]])
  show ?case
  proof (cases "Suc k < n")
    case True
    note more = one(2) [OF True]
    have "m = n - Suc k" using Suc.hyps(2) by simp
    have ih: "ws' = map (\<lambda>j. card_response_word (4 * word_of_nat j) ?v) [Suc k..<n] \<and> \<not> bit (g_romctrl u) 31
      \<and> g_card_deadline u = - 1 \<and> g_if u = (if bit (g_auxspicnt ?v) 14
         then (g_if ?v)(g_card_irq_cpu ?v := g_if ?v (g_card_irq_cpu ?v) OR 0x00080000) else g_if ?v)"
      by (rule Suc.hyps(1) [OF \<open>m = n - Suc k\<close> conjunct1 [OF more]]) (use ws'(1) \<open>m = n - Suc k\<close> in simp)
    show ?thesis using ih unfolding ws'(2) up rw list.map conjunct2 [OF more] conjunct1 [OF one(3)]
      conjunct1 [OF conjunct2 [OF one(3)]] conjunct2 [OF conjunct2 [OF one(3)]] by (simp only: list.inject simp_thms)
  next
    case False
    then have last: "Suc k = n" using k by simp
    have e: "n - Suc k = 0" using last by simp
    have "ws' = []" "u = ?v" using ws'(1) unfolding e card_serve.simps by simp_all
    moreover have "[Suc k..<n] = []" using last by simp
    ultimately show ?thesis using one(4) [OF last] unfolding ws'(2) up by (simp only: list.map simp_thms)
  qed
qed (simp add: serving_def)

lemma response_word:
  assumes "4 * j + 4 \<le> length (g_card_response s)" "length (g_card_response s) \<le> 0x4000"
  shows "bytes4 (card_response_word (4 * word_of_nat j) s) = take 4 (drop (4 * j) (g_card_response s))"
proof -
  let ?r = "g_card_response s"
  have u: "unat (4 * word_of_nat j + word_of_nat k :: u32) = 4 * j + k" if "k < 4" for k
  proof -
    have "4 * j + k < 2 ^ 32" using assms that by simp
    then show ?thesis using of_nat_inverse [of "4 * j + k" "4 * word_of_nat j + word_of_nat k :: u32"] by simp
  qed
  have b: "card_response_byte s (4 * word_of_nat j + word_of_nat k) = ?r ! (4 * j + k)" if "k < 4" for k
    using that assms by (simp only: card_response_byte_def u) simp
  have ix: "[0..<4] = [0, 1, 2, 3 :: nat]" by (simp add: upt_rec)
  have "card_response_word (4 * word_of_nat j) s = word4 (?r ! (4 * j)) (?r ! (4 * j + 1)) (?r ! (4 * j + 2)) (?r ! (4 * j + 3))"
    using b [of 0] b [of 1] b [of 2] b [of 3]
    unfolding card_response_word_def ix by (simp add: word4_def or.assoc)
  moreover have "take 4 (drop (4 * j) ?r) = [?r ! (4 * j), ?r ! (4 * j + 1), ?r ! (4 * j + 2), ?r ! (4 * j + 3)]"
  proof (rule nth_equalityI)
    fix i assume "i < length (take 4 (drop (4 * j) ?r))"
    then have "i \<in> {0, 1, 2, 3}" by auto
    then show "take 4 (drop (4 * j) ?r) ! i = [?r ! (4 * j), ?r ! (4 * j + 1), ?r ! (4 * j + 2), ?r ! (4 * j + 3)] ! i"
      using assms(1) by auto
  qed (use assms(1) in simp)
  ultimately show ?thesis by (simp only: bytes4_word4)
qed

lemma concat_slices: "length xs = 4 * n \<Longrightarrow> concat (map (\<lambda>j. take 4 (drop (4 * j) xs)) [0..<n]) = xs"
proof -
  assume l: "length xs = 4 * n"
  have "m \<le> n \<Longrightarrow> concat (map (\<lambda>j. take 4 (drop (4 * j) xs)) [0..<m]) = take (4 * m) xs" for m
    using l by (induction m) (simp_all add: take_add [symmetric] add.commute [of _ 4] del: take_drop)
  from this [of n] l show ?thesis by simp
qed


definition romctrl_merge :: "u32 \<Rightarrow> u32 \<Rightarrow> u32" where
  "romctrl_merge v old = (v AND 0xFF7F7FFF OR old AND 0x20800000) AND NOT 0x00800000"

lemma romctrl_merge_bits:
  "n \<noteq> 23 \<Longrightarrow> n \<noteq> 15 \<Longrightarrow> n \<noteq> 29 \<Longrightarrow> n < 32 \<Longrightarrow> bit (romctrl_merge v old) n = bit v n"
proof -
  have m: "(0xFF7F7FFF :: u32) = NOT (0x00800000 OR 0x8000)" "(0x20800000 :: u32) = 0x20000000 OR 0x00800000" by simp_all
  show "n \<noteq> 23 \<Longrightarrow> n \<noteq> 15 \<Longrightarrow> n \<noteq> 29 \<Longrightarrow> n < 32 \<Longrightarrow> bit (romctrl_merge v old) n = bit v n"
    unfolding romctrl_merge_def m by (simp only: bit_and_iff bit_or_iff bit_not_iff bitlits) auto
qed

lemma block_words_merge:
  "card_block_words (romctrl_merge v old) = card_block_words v"
  "card_block_words (v AND 0xFF7F7FFF OR old AND 0x20800000) = card_block_words v"
proof -
  have m: "(0xFF7F7FFF :: u32) = NOT (0x00800000 OR 0x8000)" "(0x20800000 :: u32) = 0x20000000 OR 0x00800000"
    "(7 :: u32) = 4 OR (2 OR 1)" by simp_all
  have "drop_bit 24 (romctrl_merge v old) AND 7 = drop_bit 24 v AND 7"
    "drop_bit 24 (v AND 0xFF7F7FFF OR old AND 0x20800000) AND 7 = drop_bit 24 v AND 7"
    unfolding romctrl_merge_def m
    by (rule bit_word_eqI; simp only: bit_and_iff bit_or_iff bit_not_iff bit_drop_bit_eq o_apply bitlits; auto)+
  then show "card_block_words (romctrl_merge v old) = card_block_words v"
    "card_block_words (v AND 0xFF7F7FFF OR old AND 0x20800000) = card_block_words v" by (simp_all only: card_block_words_def)
qed

lemma romctrl_write_start:
  assumes "v AND NOT (g_romctrl s) AND 0x80000000 \<noteq> 0" "\<not> (g_auxspicnt s AND 0x8000 = 0 \<or> g_auxspicnt s AND 0x2000 \<noteq> 0)"
    and "card_prepare_response (s\<lparr>g_card_transfer_pos := 0, g_card_transfer_len := card_block_words v * 4,
      g_card_irq_cpu := cpu, g_romctrl := romctrl_merge v (g_romctrl s), g_card_command := pending\<rparr>) = Some p"
    and "g_card_transfer_len p \<noteq> 0"
  shows "\<exists>d. romctrl_write cpu pending v s = Some (schedule_card_event d False p)"
  using assms by (simp add: romctrl_write_def Let_def romctrl_merge_def block_words_merge) blast

text \<open>
  C25. Reading the cartridge. In the normal phase a started read command (B7) whose masked address
  lies at or above 0x8000 delivers, through the data-ready events and the data port, exactly the
  bytes of the image from that address on, word by word and in order; the last read clears BUSY,
  leaves no event pending, and requests the owner's transfer interrupt exactly when it is enabled.
\<close>

theorem card_read_delivers_rom:
  fixes s :: "'a card_scheme"
  assumes cmd: "length pending = 8" "pending ! 0 = 0xB7" "load_be32 pending 1 = Some a"
    and mode: "g_card_mode s = Normal"
    and start: "bit v 31" "\<not> bit (g_romctrl s) 31" "\<not> bit v 30" "bit (g_auxspicnt s) 15" "\<not> bit (g_auxspicnt s) 13"
    and n: "n = unat (card_block_words v)" "0 < n"
    and A: "A = a AND word_of_nat (length (g_card_rom s) - 1)" "0x8000 \<le> A" "unat A + 4 * n \<le> length (g_card_rom s)"
  shows "\<exists>t ws u. romctrl_write cpu pending v s = Some t \<and> card_serve n t = (ws, u)
    \<and> concat (map bytes4 ws) = take (4 * n) (drop (unat A) (g_card_rom s))
    \<and> \<not> bit (g_romctrl u) 31 \<and> g_card_deadline u = - 1
    \<and> g_if u = (if bit (g_auxspicnt s) 14 then (g_if s)(cpu := g_if s cpu OR 0x00080000) else g_if s)"
proof -
  let ?c = "v AND 0xFF7F7FFF OR g_romctrl s AND 0x20800000"
  let ?len = "card_block_words v * 4"
  let ?s = "s\<lparr>g_card_transfer_pos := 0, g_card_transfer_len := ?len, g_card_irq_cpu := cpu,
     g_romctrl := romctrl_merge v (g_romctrl s), g_card_command := pending\<rparr>"
  have len: "unat ?len = 4 * n" "4 * n \<le> 0x4000"
  proof -
    have "unat (card_block_words v) \<le> 0x1000" using block_words [of v] by simp
    then show "unat ?len = 4 * n" "4 * n \<le> 0x4000" by (simp_all add: n unat_word_ariths)
  qed
  let ?p = "?s\<lparr>g_card_response := replicate (4 * n) 0\<rparr>"
  have rom: "g_card_rom s \<noteq> []" using A(3) n(2) by auto
  let ?data = "take (4 * n) (drop (unat A) (g_card_rom s))"
  have copy: "card_copy_rom A ?len 0 ?p = Some (?p\<lparr>g_card_response := ?data\<rparr>)"
    using A(3) n(2) len by (simp add: card_copy_rom_def copy_in_def Let_def)
  have high: "\<not> a AND word_of_nat (length (g_card_rom s) - 1) < 0x8000" using A(1,2) by (simp add: not_less)
  have "normal_response ?p = Some (?p\<lparr>g_card_response := ?data\<rparr>)"
    using cmd rom A copy high by (simp add: normal_response_def Let_def)
  then have prep: "card_prepare_response ?s = Some (?s\<lparr>g_card_response := ?data\<rparr>)"
    using rom mode len by (simp add: card_prepare_response_def Let_def)
  have go: "v AND NOT (g_romctrl s) AND 0x80000000 \<noteq> 0" "\<not> (g_auxspicnt s AND 0x8000 = 0 \<or> g_auxspicnt s AND 0x2000 \<noteq> 0)"
    using start by (simp_all only: and.assoc [symmetric] tst31 tst15 tst13 bit_and_iff bit_not_iff) simp_all
  have lnz: "?len \<noteq> 0" using len n(2) by (metis mult_eq_0_iff neq0_conv unat_0 zero_neq_numeral)
  obtain d where w: "romctrl_write cpu pending v s = Some (schedule_card_event d False (?s\<lparr>g_card_response := ?data\<rparr>))"
    using romctrl_write_start [of v s pending cpu "?s\<lparr>g_card_response := ?data\<rparr>"] go prep lnz
    by (auto simp: romctrl_merge_def block_words_merge)
  let ?t = "schedule_card_event d False (?s\<lparr>g_card_response := ?data\<rparr>)"
  obtain ws u where serve: "card_serve n ?t = (ws, u)" by (cases "card_serve n ?t")
  have "serving 0 n ?t" using len n start by (simp add: serving_def romctrl_merge_bits)
  from serve_block [OF this, of ws u] serve
  have res: "ws = map (\<lambda>j. card_response_word (4 * word_of_nat j) ?t) [0..<n]" "\<not> bit (g_romctrl u) 31" "g_card_deadline u = - 1"
    "g_if u = (if bit (g_auxspicnt s) 14 then (g_if s)(cpu := g_if s cpu OR 0x00080000) else g_if s)"
    by (simp_all add: schedule_card_event_def Let_def)
  have ld: "length ?data = 4 * n" using A(3) by simp
  have "map bytes4 ws = map (\<lambda>j. take 4 (drop (4 * j) ?data)) [0..<n]"
    unfolding res(1) map_map using ld len(2)
    by (intro map_cong refl) (simp only: o_apply, subst response_word, simp_all)
  then have "concat (map bytes4 ws) = ?data" using concat_slices [OF ld] by simp
  then show ?thesis using w serve res by blast
qed


definition demo_card :: card where
  "demo_card = card_boot\<lparr>g_auxspicnt := 0xC000, g_card_mode := Normal,
     g_card_rom := replicate 0x8100 0 @ [1, 2, 3, 4] @ replicate 0x7EFC 0\<rparr>"

lemma card_read_delivers_rom_witness:
  "\<exists>t ws u. romctrl_write ARM7 [0xB7, 0, 0, 0x81, 0, 0, 0, 0] 0x87000000 demo_card = Some t
     \<and> card_serve 1 t = (ws, u) \<and> concat (map bytes4 ws) = [1, 2, 3, 4] \<and> g_if u ARM7 = 0x00080000"
proof -
  have f: "g_card_mode demo_card = Normal" "g_romctrl demo_card = 0" "g_auxspicnt demo_card = 0xC000"
    "length (g_card_rom demo_card) = 0x10000" "g_if demo_card = (\<lambda>_. 0)"
    by (simp_all add: demo_card_def card_boot_def math.defs card.defs math_boot_def io_reset_def io_regs.defs ipc_reset_def
        ipc.defs rt_initial_def rt.defs)
  have l: "load_be32 [0xB7, 0, 0, 0x81, 0, 0, 0, 0] 1 = Some 0x8100" by (simp add: load_be32_def rd_def)
  have b: "bit (0x87000000 :: u32) 31" "\<not> bit (0x87000000 :: u32) 30" "bit (0xC000 :: u16) 15" "\<not> bit (0xC000 :: u16) 13"
    "bit (0xC000 :: u16) 14" by (simp_all add: bit_iff_odd)
  have m: "(0x8100 :: u32) = 0x8100 AND word_of_nat (0x10000 - 1)" by simp
  have d: "take (4 * 1) (drop (unat (0x8100 :: u32)) (g_card_rom demo_card)) = [1, 2, 3, 4]"
    by (simp add: demo_card_def)
  have n: "1 = unat (card_block_words 0x87000000)" by (simp add: card_block_words_def)
  from card_read_delivers_rom [where s = demo_card and pending = "[0xB7, 0, 0, 0x81, 0, 0, 0, 0]" and v = "0x87000000"
      and a = "0x8100" and n = 1 and A = "0x8100" and cpu = ARM7, OF _ _ l f(1) _ _ _ _ _ n]
  obtain t ws u where "romctrl_write ARM7 [0xB7, 0, 0, 0x81, 0, 0, 0, 0] 0x87000000 demo_card = Some t"
    "card_serve 1 t = (ws, u)" "concat (map bytes4 ws) = [1, 2, 3, 4]" "g_if u ARM7 = 0x00080000"
    using f b m d by auto
  then show ?thesis by blast
qed

end
