(* ===== verification/Timers.thy ===== *)
theory Timers
  imports GameCard
begin

text \<open>
  The four hardware timers of each processor (\<open>runner/src/io.cpp\<close>): catch-up ticking with
  prescalers and cascades, overflow interrupts, register access, and the next-overflow time the idle
  fast-forward jumps to.  The event counter and the debug-server break check are left out.
  Shown: ticking in one large step or in any two smaller ones leaves the same state, and no timer
  overflows before the predicted time while one does at it.
\<close>

section \<open>State\<close>

record timer =
  t_reload :: u16
  t_counter :: u16
  t_ctrl :: u16
  t_accum :: u64

record timers = card +
  g_timer :: "nds_cpu \<Rightarrow> nat \<Rightarrow> timer"
  g_timer_last :: "nds_cpu \<Rightarrow> u64"

text \<open>\<open>const uint32_t kPrescaler[4] = {1, 64, 256, 1024}\<close>\<close>

definition kPrescaler :: "u16 \<Rightarrow> u32" where
  "kPrescaler k = (if k = 0 then 1 else if k = 1 then 64 else if k = 2 then 256 else 1024)"

section \<open>Ticking\<close>

text \<open>The ticks a running timer counts, from the clock or from the carry of the timer before it.\<close>

definition timer_ticks :: "timer \<Rightarrow> u64 \<Rightarrow> u64 \<Rightarrow> timer \<times> u64" where
  "timer_ticks T delta carry =
    (if t_ctrl T AND 0x4 \<noteq> 0 then (T, carry)
     else let accum = t_accum T + delta; pre = ucast (kPrescaler (t_ctrl T AND 3))
          in (T\<lparr>t_accum := accum mod pre\<rparr>, accum div pre))"

text \<open>Counting them; the second component is the number of overflows.\<close>

definition timer_count :: "timer \<Rightarrow> u64 \<Rightarrow> timer \<times> u64" where
  "timer_count T ticks =
    (if ticks = 0 then (T, 0)
     else let span = 0x10000 - ucast (t_counter T) in
       if ticks < span then (T\<lparr>t_counter := ucast (ucast (t_counter T) + ticks :: u64)\<rparr>, 0)
       else let ticks = ticks - span;
                reload_span = 0x10000 - ucast (t_reload T) :: u32;
                reload_span = (if reload_span = 0 then 0x10000 else reload_span);
                extra = ticks div ucast reload_span
            in (T\<lparr>t_counter := ucast (ucast (t_reload T) + ticks mod ucast reload_span :: u64)\<rparr>, 1 + extra))"

definition timer_step :: "timer \<Rightarrow> u64 \<Rightarrow> u64 \<Rightarrow> timer \<times> u64" where
  "timer_step T delta carry =
    (if t_ctrl T AND 0x80 = 0 then (T, 0) else case timer_ticks T delta carry of (T, n) \<Rightarrow> timer_count T n)"

fun tick_loop :: "nds_cpu \<Rightarrow> u64 \<Rightarrow> nat list \<Rightarrow> u64 \<Rightarrow> 'a timers_scheme \<Rightarrow> 'a timers_scheme" where
  "tick_loop cpu delta [] carry s = s"
| "tick_loop cpu delta (t # ts) carry s =
    (let (T, k) = timer_step (g_timer s cpu t) delta carry;
         s = s\<lparr>g_timer := (g_timer s)(cpu := (g_timer s cpu)(t := T))\<rparr>;
         s = (if k \<noteq> 0 \<and> t_ctrl T AND 0x40 \<noteq> 0 then nds_raise_irq cpu (push_bit (3 + t) 1) s else s)
     in tick_loop cpu delta ts k s)"

definition nds_tick_timers :: "nds_cpu \<Rightarrow> u64 \<Rightarrow> 'a timers_scheme \<Rightarrow> 'a timers_scheme" where
  "nds_tick_timers cpu cpu_cycles s =
    (let cyc = (if cpu = ARM9 then drop_bit 1 cpu_cycles else cpu_cycles);
         delta = cyc - g_timer_last s cpu;
         s = s\<lparr>g_timer_last := (g_timer_last s)(cpu := cyc)\<rparr>
     in if delta = 0 then s else tick_loop cpu delta [0, 1, 2, 3] 0 s)"

text \<open>The time at which a clock-driven timer overflows next.\<close>

definition timer_when :: "timer \<Rightarrow> u64 \<Rightarrow> u64" where
  "timer_when T since = since + ((0x10000 - ucast (t_counter T)) * ucast (kPrescaler (t_ctrl T AND 3)) - t_accum T)"

definition nds_next_timer_overflow_time :: "'a timers_scheme \<Rightarrow> u64" where
  "nds_next_timer_overflow_time s = fold (\<lambda>(cpu, t) best.
     let T = g_timer s cpu t in
     if t_ctrl T AND 0x80 = 0 then best else if t_ctrl T AND 0x4 \<noteq> 0 then best
     else min best (timer_when T (g_timer_last s cpu)))
     [(ARM9, 0), (ARM9, 1), (ARM9, 2), (ARM9, 3), (ARM7, 0), (ARM7, 1), (ARM7, 2), (ARM7, 3)] (- 1)"

section \<open>Registers\<close>

definition timer_reg_read :: "nds_cpu \<Rightarrow> u32 \<Rightarrow> u32 \<Rightarrow> 'a timers_scheme \<Rightarrow> u32 \<times> 'a timers_scheme" where
  "timer_reg_read cpu addr m s =
    (let s = nds_tick_timers cpu (g_runtime_cycles s) s;
         t = unat ((addr - 0x04000100) div 4); off = unat ((addr - 0x04000100) mod 4);
         reg = ucast (t_counter (g_timer s cpu t)) OR push_bit 16 (ucast (t_ctrl (g_timer s cpu t)))
     in (drop_bit (off * 8) reg AND m, s))"

definition timer_reg_write :: "nds_cpu \<Rightarrow> u32 \<Rightarrow> u32 \<Rightarrow> u32 \<Rightarrow> 'a timers_scheme \<Rightarrow> 'a timers_scheme" where
  "timer_reg_write cpu addr v width s =
    (let t = unat ((addr - 0x04000100) div 4); off = (addr - 0x04000100) mod 4;
         writes_ctrl = off = 0 \<and> width \<ge> 4 \<or> off = 2;
         s = (if writes_ctrl then nds_tick_timers cpu (g_runtime_cycles s) s else s);
         T = g_timer s cpu t;
         T = (if off = 0 \<and> width \<ge> 2 then T\<lparr>t_reload := ucast v\<rparr> else T);
         T = (if writes_ctrl
              then let newctrl = ucast (drop_bit (if off = 2 then 0 else 16) v);
                       was_on = t_ctrl T AND 0x80 \<noteq> 0; now_on = newctrl AND 0x80 \<noteq> 0;
                       T = T\<lparr>t_ctrl := newctrl\<rparr>
                   in if now_on \<and> \<not> was_on then T\<lparr>t_counter := t_reload T, t_accum := 0\<rparr> else T
              else T)
     in s\<lparr>g_timer := (g_timer s)(cpu := (g_timer s cpu)(t := T))\<rparr>)"

section \<open>Counting on natural numbers\<close>

text \<open>A counter at \<open>c\<close> that reloads to \<open>r\<close>: its value and overflow count after \<open>n\<close> ticks.\<close>

definition advance :: "nat \<Rightarrow> nat \<Rightarrow> nat \<Rightarrow> nat \<times> nat" where
  "advance r c n = (if n < 65536 - c then (c + n, 0)
     else (r + (n - (65536 - c)) mod (65536 - r), 1 + (n - (65536 - c)) div (65536 - r)))"

lemma advance_lt: "r < 65536 \<Longrightarrow> c < 65536 \<Longrightarrow> fst (advance r c n) < 65536"
proof -
  assume r: "r < 65536" and c: "c < 65536"
  have "x mod (65536 - r) < 65536 - r" for x using r by simp
  then have "r + x mod (65536 - r) < 65536" for x using r by (metis add.commute less_diff_conv)
  then show ?thesis by (auto simp: advance_def)
qed

lemma advance_count_le: "c < 65536 \<Longrightarrow> snd (advance r c n) \<le> n"
proof (cases "n < 65536 - c")
  case False
  assume "c < 65536"
  moreover define d where "d = 65536 - c"
  ultimately have "0 < d" "\<not> n < d" using False by simp_all
  moreover have "(n - d) div (65536 - r) \<le> n - d" by (rule div_le_dividend)
  ultimately have "1 + (n - d) div (65536 - r) \<le> n" by arith
  then show ?thesis unfolding advance_def if_not_P [OF False] snd_conv d_def .
qed (simp add: advance_def)

text \<open>Once the first overflow is behind it, the counter runs modulo its reload span.\<close>

lemma div_mod_split:
  fixes x m R :: nat
  assumes "0 < R"
  shows "(x + m) div R = x div R + (x mod R + m) div R" "(x + m) mod R = (x mod R + m) mod R"
proof -
  have "x + m = x mod R + m + x div R * R" by simp
  then show "(x + m) div R = x div R + (x mod R + m) div R" using assms by (metis add.commute div_mult_self1 less_not_refl)
  show "(x + m) mod R = (x mod R + m) mod R" by (simp add: mod_simps)
qed

lemma advance_add:
  assumes "r < 65536" "c < 65536"
  shows "advance r (fst (advance r c n)) m = (fst (advance r c (n + m)), snd (advance r c (n + m)) - snd (advance r c n))
    \<and> snd (advance r c n) \<le> snd (advance r c (n + m))"
proof -
  define R d where "R = 65536 - r" and "d = 65536 - c"
  have R: "0 < R" "r + R = 65536" and d: "0 < d" "c + d = 65536" using assms by (simp_all add: R_def d_def)
  have adv: "advance r c n = (if n < d then (c + n, 0) else (r + (n - d) mod R, 1 + (n - d) div R))" for n
    by (simp add: advance_def flip: R_def d_def)
  show ?thesis
  proof (cases "n < d")
    case True
    then have "advance r (c + n) m = advance r c (n + m)"
      unfolding adv unfolding advance_def R_def [symmetric]
    proof -
      have "65536 - (c + n) = d - n" using d by simp
      moreover have "m < d - n \<longleftrightarrow> n + m < d" "m - (d - n) = n + m - d" using True by auto
      ultimately show "(if m < 65536 - (c + n) then (c + n + m, 0)
          else (r + (m - (65536 - (c + n))) mod R, 1 + (m - (65536 - (c + n))) div R)) =
        (if n + m < d then (c + (n + m), 0) else (r + (n + m - d) mod R, 1 + (n + m - d) div R))"
        by (simp add: add.assoc)
    qed
    then show ?thesis using True by (simp add: adv)
  next
    case False
    define x where "x = n - d"
    have f: "advance r c n = (r + x mod R, 1 + x div R)" using False by (simp add: adv x_def)
    have "\<not> n + m < d" "n + m - d = x + m" using False by (simp_all add: x_def)
    then have g: "advance r c (n + m) = (r + (x + m) mod R, 1 + (x + m) div R)" by (simp add: adv)
    define y where "y = x mod R"
    have y: "y < R" using R by (simp add: y_def)
    have h: "advance r (r + y) m = (if y + m < R then (r + y + m, 0) else (r + (y + m - R) mod R, 1 + (y + m - R) div R))"
      unfolding advance_def R_def [symmetric]
    proof -
      have "65536 - (r + y) = R - y" using R by simp
      moreover have "m < R - y \<longleftrightarrow> y + m < R" "m - (R - y) = y + m - R" using y by auto
      ultimately show "(if m < 65536 - (r + y) then (r + y + m, 0)
          else (r + (m - (65536 - (r + y))) mod R, 1 + (m - (65536 - (r + y))) div R)) =
        (if y + m < R then (r + y + m, 0) else (r + (y + m - R) mod R, 1 + (y + m - R) div R))" by simp
    qed
    show ?thesis
      unfolding f g fst_conv snd_conv div_mod_split [OF R(1), of x m] y_def [symmetric] h
      using R(1) by (cases "y + m < R") (simp_all add: le_div_geq le_mod_geq)
  qed
qed

section \<open>The counter\<close>

lemma unat16: "unat (x :: u16) < 65536"
  by (rule order_less_le_trans [OF unsigned_less]) simp

lemma unat_up16: "unat (ucast (x :: u16) :: u64) = unat x" "unat (ucast (x :: u16) :: u32) = unat x"
proof -
  have "unat x < 2 ^ 64" "unat x < 2 ^ 32" using unat16 [of x] by simp_all
  then show "unat (ucast x :: u64) = unat x" "unat (ucast x :: u32) = unat x"
    by (simp_all only: unsigned_ucast_eq) (simp_all add: take_bit_nat_eq_self)
qed

lemma unat_span: "unat (0x10000 - ucast (x :: u16) :: u64) = 65536 - unat x"
    "unat (0x10000 - ucast (x :: u16) :: u32) = 65536 - unat x"
proof -
  have l: "ucast x \<le> (0x10000 :: u64)" "ucast x \<le> (0x10000 :: u32)"
    using unat16 [of x] by (simp_all add: word_le_nat_alt unat_up16 less_imp_le)
  show "unat (0x10000 - ucast (x :: u16) :: u64) = 65536 - unat x"
    "unat (0x10000 - ucast (x :: u16) :: u32) = 65536 - unat x"
    unfolding unat_sub [OF l(1)] unat_sub [OF l(2)] unat_up16 by simp_all
qed

lemma timer_count_exact:
  "t_counter (fst (timer_count T n)) = word_of_nat (fst (advance (unat (t_reload T)) (unat (t_counter T)) (unat n)))
   \<and> unat (snd (timer_count T n)) = snd (advance (unat (t_reload T)) (unat (t_counter T)) (unat n))
   \<and> fst (timer_count T n) = T\<lparr>t_counter := t_counter (fst (timer_count T n))\<rparr>"
proof -
  let ?c = "unat (t_counter T)" and ?r = "unat (t_reload T)"
  note ov = advance_count_le [where c = ?c and r = ?r and n = "unat n", OF unat16]
  have n64: "unat n < 2 ^ 64" by (rule order_less_le_trans [OF unsigned_less]) simp
  have R: "(if (0x10000 :: u32) - ucast (t_reload T) = 0 then 0x10000 else 0x10000 - ucast (t_reload T)) = 0x10000 - ucast (t_reload T)"
  proof -
    have "unat ((0x10000 :: u32) - ucast (t_reload T)) \<noteq> 0" using unat16 [of "t_reload T"] by (simp only: unat_span)
    then show ?thesis by (simp only: unat_eq_zero if_False)
  qed
  have Ru: "unat (ucast (0x10000 - ucast (t_reload T) :: u32) :: u64) = 65536 - ?r"
    by (simp add: unsigned_ucast_eq unat_span take_bit_nat_eq_self)
  consider (zero) "n = 0" | (few) "n \<noteq> 0" "unat n < 65536 - ?c" | (over) "n \<noteq> 0" "\<not> unat n < 65536 - ?c" by blast
  then show ?thesis
  proof cases
    case zero
    then show ?thesis using unat16 [of "t_counter T"] by (simp add: timer_count_def advance_def)
  next
    case few
    then have "n < 0x10000 - ucast (t_counter T)" by (simp add: word_less_nat_alt unat_span)
    then have e: "timer_count T n = (T\<lparr>t_counter := ucast (ucast (t_counter T) + n :: u64)\<rparr>, 0)"
      using few by (simp add: timer_count_def)
    have "unat (ucast (ucast (t_counter T) + n :: u64) :: u16) = (?c + unat n) mod 65536"
      using few n64 by (simp add: unsigned_ucast_eq unat_word_ariths unat_up16 take_bit_eq_mod)
    then have "ucast (ucast (t_counter T) + n :: u64) = (word_of_nat (?c + unat n) :: u16)"
      by (simp only: word_unat_eq_iff unat_of_nat) simp
    then show ?thesis using few unfolding e fst_conv snd_conv by (simp add: advance_def)
  next
    case over
    let ?x = "unat n - (65536 - ?c)"
    have ge: "\<not> n < 0x10000 - ucast (t_counter T)" using over by (simp add: word_less_nat_alt unat_span)
    have x: "unat (n - (0x10000 - ucast (t_counter T))) = ?x"
      using ge by (simp add: unat_sub word_le_nat_alt word_less_nat_alt unat_span)
    have e: "timer_count T n = (T\<lparr>t_counter := ucast (ucast (t_reload T) + (n - (0x10000 - ucast (t_counter T))) mod
          ucast (0x10000 - ucast (t_reload T) :: u32) :: u64)\<rparr>,
        1 + (n - (0x10000 - ucast (t_counter T))) div ucast (0x10000 - ucast (t_reload T) :: u32))"
      unfolding timer_count_def Let_def R using over(1) ge by simp
    have m: "unat ((n - (0x10000 - ucast (t_counter T))) mod ucast (0x10000 - ucast (t_reload T) :: u32)) = ?x mod (65536 - ?r)"
      by (simp only: unat_mod x Ru)
    have "?x mod (65536 - ?r) < 65536 - ?r" using unat16 [of "t_reload T"] by (intro mod_less_divisor) linarith
    then have lt: "?r + ?x mod (65536 - ?r) < 65536" by linarith
    have "unat (ucast (t_reload T) + (n - (0x10000 - ucast (t_counter T))) mod
        ucast (0x10000 - ucast (t_reload T) :: u32) :: u64) = ?r + ?x mod (65536 - ?r)"
      unfolding unat_word_ariths(1) m unat_up16 using lt by (intro mod_less) simp
    then have c: "ucast (ucast (t_reload T) + (n - (0x10000 - ucast (t_counter T))) mod
        ucast (0x10000 - ucast (t_reload T) :: u32) :: u64) = (word_of_nat (?r + ?x mod (65536 - ?r)) :: u16)"
      by (metis of_nat_unat)
    have d: "unat ((n - (0x10000 - ucast (t_counter T))) div ucast (0x10000 - ucast (t_reload T) :: u32)) = ?x div (65536 - ?r)"
      by (simp only: unat_div x Ru)
    have "advance ?r ?c (unat n) = (?r + ?x mod (65536 - ?r), 1 + ?x div (65536 - ?r))"
      using over(2) by (simp add: advance_def)
    moreover from this have "1 + ?x div (65536 - ?r) < 2 ^ 64" using ov n64 by simp
    ultimately show ?thesis unfolding e fst_conv snd_conv c unat_word_ariths(1) d by simp
  qed
qed


section \<open>Two steps are one\<close>

lemma timer_eqI:
  "t_reload T = t_reload U \<Longrightarrow> t_counter T = t_counter U \<Longrightarrow> t_ctrl T = t_ctrl U \<Longrightarrow> t_accum T = t_accum U \<Longrightarrow> (T :: timer) = U"
  by (cases T; cases U) simp

lemma timer_count_keeps [simp]:
  "t_reload (fst (timer_count T n)) = t_reload T" "t_ctrl (fst (timer_count T n)) = t_ctrl T"
  "t_accum (fst (timer_count T n)) = t_accum T"
  by (simp_all add: timer_count_def Let_def)

lemma timer_count_frame:
  "timer_count (T\<lparr>t_accum := a\<rparr>) n = (fst (timer_count T n)\<lparr>t_accum := a\<rparr>, snd (timer_count T n))"
  by (simp add: timer_count_def Let_def)

lemma timer_count_add:
  assumes "unat n + unat m < 2 ^ 64"
  shows "fst (timer_count (fst (timer_count T n)) m) = fst (timer_count T (n + m))"
    and "snd (timer_count T n) + snd (timer_count (fst (timer_count T n)) m) = snd (timer_count T (n + m))"
    and "unat (snd (timer_count T n)) + unat (snd (timer_count (fst (timer_count T n)) m)) < 2 ^ 64"
proof -
  let ?r = "unat (t_reload T)" and ?c = "unat (t_counter T)"
  let ?T = "fst (timer_count T n)"
  have nm: "unat (n + m) = unat n + unat m" using assms by (simp add: unat_word_ariths)
  note add = advance_add [OF unat16 unat16, of "t_reload T" "t_counter T" "unat n" "unat m"]
  have lt: "fst (advance ?r ?c k) < 65536" for k by (rule advance_lt [OF unat16 unat16])
  have c: "unat (t_counter ?T) = fst (advance ?r ?c (unat n))"
    using timer_count_exact [of T n] lt [of "unat n"] by (simp add: unat_of_nat)
  note e1 = timer_count_exact [of T n] and e2 = timer_count_exact [of ?T m, unfolded c timer_count_keeps]
    and e12 = timer_count_exact [of T "n + m", unfolded nm]
  show "fst (timer_count ?T m) = fst (timer_count T (n + m))"
  proof (rule timer_eqI)
    show "t_counter (fst (timer_count ?T m)) = t_counter (fst (timer_count T (n + m)))"
      using e2 e12 add by (metis fst_conv)
  qed simp_all
  have k: "unat (snd (timer_count T n)) + unat (snd (timer_count ?T m)) = unat (snd (timer_count T (n + m)))"
  proof -
    have "unat (snd (timer_count ?T m)) = snd (advance ?r ?c (unat n + unat m)) - snd (advance ?r ?c (unat n))"
      using e2 add by (metis snd_conv)
    then show ?thesis using e1 e12 add by linarith
  qed
  have l: "unat (snd (timer_count T (n + m))) < 2 ^ 64" by (rule order_less_le_trans [OF unsigned_less]) simp
  then show "unat (snd (timer_count T n)) + unat (snd (timer_count ?T m)) < 2 ^ 64" by (simp only: k)
  then show "snd (timer_count T n) + snd (timer_count ?T m) = snd (timer_count T (n + m))"
    using k by (simp add: word_unat_eq_iff unat_word_ariths)
qed

lemma timer_count_le: "unat (snd (timer_count T n)) \<le> unat n"
  using timer_count_exact [of T n] advance_count_le [where c = "unat (t_counter T)" and r = "unat (t_reload T)" and n = "unat n", OF unat16] by simp

text \<open>A step is in range when neither its accumulator nor its carry overflows 64 bits.\<close>

definition step_ok :: "timer \<Rightarrow> nat \<Rightarrow> nat \<Rightarrow> bool" where
  "step_ok T delta carry \<longleftrightarrow> unat (t_accum T) + delta < 2 ^ 64 \<and> carry < 2 ^ 64"

lemma prescale_pos: "0 < unat (ucast (kPrescaler k) :: u64)"
  by (simp add: kPrescaler_def)

lemma timer_step_clocked:
  assumes "t_ctrl T AND 0x80 \<noteq> 0" "t_ctrl T AND 0x4 = 0"
  shows "timer_step T d c =
    (let p = ucast (kPrescaler (t_ctrl T AND 3)); n = (t_accum T + d) div p
     in (fst (timer_count T n)\<lparr>t_accum := (t_accum T + d) mod p\<rparr>, snd (timer_count T n)))"
  using assms by (simp add: timer_step_def timer_ticks_def Let_def timer_count_frame)

text \<open>Dividing the elapsed cycles in two instalments carries the remainder over exactly.\<close>

lemma prescale_add:
  fixes a d1 d2 p :: u64
  assumes p: "0 < unat p" and ok: "unat a + (unat d1 + unat d2) < 2 ^ 64"
  shows "((a + d1) mod p + d2) mod p = (a + (d1 + d2)) mod p"
    and "(a + d1) div p + ((a + d1) mod p + d2) div p = (a + (d1 + d2)) div p"
    and "unat ((a + d1) div p) + unat (((a + d1) mod p + d2) div p) < 2 ^ 64"
proof -
  have u1: "unat (a + d1) = unat a + unat d1" using ok by (simp add: unat_word_ariths)
  have "unat ((a + d1) mod p) \<le> unat a + unat d1" unfolding unat_mod u1 by (rule mod_less_eq_dividend)
  then have u2: "unat ((a + d1) mod p + d2) = unat ((a + d1) mod p) + unat d2"
    unfolding unat_word_ariths(1) using ok by simp
  have u12: "unat (a + (d1 + d2)) = unat a + unat d1 + unat d2" using ok by (simp add: unat_word_ariths)
  note split = div_mod_split [OF p, of "unat a + unat d1" "unat d2"]
  have dv: "unat ((a + (d1 + d2)) div p) = unat ((a + d1) div p) + unat (((a + d1) mod p + d2) div p)"
    unfolding unat_div u12 u2 u1 unat_mod by (rule split(1))
  have "unat ((a + (d1 + d2)) mod p) = unat (((a + d1) mod p + d2) mod p)"
    unfolding unat_mod u12 u2 u1 by (rule split(2))
  then show "((a + d1) mod p + d2) mod p = (a + (d1 + d2)) mod p" by (simp only: word_unat_eq_iff)
  have "unat ((a + (d1 + d2)) div p) < 2 ^ 64" by (rule order_less_le_trans [OF unsigned_less]) simp
  then show b: "unat ((a + d1) div p) + unat (((a + d1) mod p + d2) div p) < 2 ^ 64" by (simp only: dv)
  then show "(a + d1) div p + ((a + d1) mod p + d2) div p = (a + (d1 + d2)) div p"
    unfolding word_unat_eq_iff unat_word_ariths(1) dv by simp
qed

lemma timer_step_add:
  assumes "step_ok T (unat d1 + unat d2) (unat c1 + unat c2)"
  shows "timer_step (fst (timer_step T d1 c1)) d2 c2 = (fst (timer_step T (d1 + d2) (c1 + c2)),
      snd (timer_step (fst (timer_step T d1 c1)) d2 c2))
    \<and> snd (timer_step T d1 c1) + snd (timer_step (fst (timer_step T d1 c1)) d2 c2) = snd (timer_step T (d1 + d2) (c1 + c2))
    \<and> unat (snd (timer_step T d1 c1)) + unat (snd (timer_step (fst (timer_step T d1 c1)) d2 c2)) < 2 ^ 64"
proof -
  consider (off) "t_ctrl T AND 0x80 = 0" | (count) "t_ctrl T AND 0x80 \<noteq> 0" "t_ctrl T AND 0x4 \<noteq> 0"
    | (clocked) "t_ctrl T AND 0x80 \<noteq> 0" "t_ctrl T AND 0x4 = 0" by blast
  then show ?thesis
  proof cases
    case off
    then show ?thesis by (simp add: timer_step_def)
  next
    case count
    then show ?thesis using timer_count_add [of c1 c2 T] assms
      by (simp add: timer_step_def timer_ticks_def step_ok_def prod_eq_iff)
  next
    case clocked
    define p where "p = (ucast (kPrescaler (t_ctrl T AND 3)) :: u64)"
    have p: "0 < unat p" unfolding p_def by (rule prescale_pos)
    have ok: "unat (t_accum T) + (unat d1 + unat d2) < 2 ^ 64" using assms by (simp add: step_ok_def)
    note pre = prescale_add [OF p ok]
    note step = timer_step_clocked [OF clocked, folded p_def, unfolded Let_def]
    let ?n1 = "(t_accum T + d1) div p" and ?a1 = "(t_accum T + d1) mod p"
    let ?T1 = "fst (timer_count T ?n1)\<lparr>t_accum := ?a1\<rparr>"
    have "timer_step ?T1 d2 c2 = (fst (timer_count ?T1 ((?a1 + d2) div p))\<lparr>t_accum := (?a1 + d2) mod p\<rparr>,
        snd (timer_count ?T1 ((?a1 + d2) div p)))"
      using timer_step_clocked [of ?T1 d2 c2] clocked by (simp add: p_def Let_def)
    then show ?thesis
      using timer_count_add [OF pre(3), of T] unfolding step fst_conv snd_conv timer_count_frame pre
      by (simp add: pre)
  qed
qed


section \<open>The bank\<close>

text \<open>The loop without the interrupt controller: the new timers and the requested interrupts.\<close>

fun bank_loop :: "u64 \<Rightarrow> nat list \<Rightarrow> u64 \<Rightarrow> (nat \<Rightarrow> timer) \<Rightarrow> (nat \<Rightarrow> timer) \<times> u32" where
  "bank_loop delta [] carry m = (m, 0)"
| "bank_loop delta (t # ts) carry m =
    (let (T, k) = timer_step (m t) delta carry; (m', bits) = bank_loop delta ts k (m(t := T))
     in (m', (if k \<noteq> 0 \<and> t_ctrl T AND 0x40 \<noteq> 0 then push_bit (3 + t) 1 else 0) OR bits))"

declare tick_loop.simps(2) [simp del] bank_loop.simps(2) [simp del]

definition raise_opt :: "nds_cpu \<Rightarrow> u32 \<Rightarrow> 'a rt_scheme \<Rightarrow> 'a rt_scheme" where
  "raise_opt cpu bits s = (if bits = 0 then s else nds_raise_irq cpu bits s)"

lemma raise_raise: "nds_raise_irq cpu b (nds_raise_irq cpu a s) = nds_raise_irq cpu (a OR b) s"
  by (simp add: nds_raise_irq_def irq_recompute_def runtime_clear_fast_limit_def or.assoc)

lemma raise_opt_or: "raise_opt cpu b (raise_opt cpu a s) = raise_opt cpu (a OR b) s"
proof (cases "a = 0 \<or> b = 0")
  case False
  then have "a OR b \<noteq> 0" by (metis or_eq_0_iff)
  then show ?thesis using False by (simp add: raise_opt_def raise_raise)
qed (auto simp: raise_opt_def)

lemma raise_opt_timers [simp]:
  "g_timer (raise_opt cpu b s) = g_timer s" "g_timer_last (raise_opt cpu b s) = g_timer_last s"
  "raise_opt cpu b (s\<lparr>g_timer := m\<rparr>) = (raise_opt cpu b s)\<lparr>g_timer := m\<rparr>"
  "raise_opt cpu b (s\<lparr>g_timer_last := l\<rparr>) = (raise_opt cpu b s)\<lparr>g_timer_last := l\<rparr>"
  by (simp_all add: raise_opt_def nds_raise_irq_def irq_recompute_def runtime_clear_fast_limit_def)

lemma irq_bit_nonzero: "t < 4 \<Longrightarrow> push_bit (3 + t) 1 \<noteq> (0 :: u32)"
proof -
  assume "t < 4"
  then have "t \<in> {0, 1, 2, 3}" by auto
  then show ?thesis by auto
qed

lemma raise_opt_if: "b \<noteq> 0 \<Longrightarrow> raise_opt cpu (if P then b else 0) s = (if P then nds_raise_irq cpu b s else s)"
  by (simp add: raise_opt_def)

lemma timers_same [simp]: "s\<lparr>g_timer := (g_timer s)(cpu := g_timer s cpu)\<rparr> = s"
  by simp

lemma tick_loop_bank:
  assumes "set ts \<subseteq> {..<4}"
  shows "tick_loop cpu delta ts carry s =
    (let (m, b) = bank_loop delta ts carry (g_timer s cpu) in raise_opt cpu b (s\<lparr>g_timer := (g_timer s)(cpu := m)\<rparr>))"
  using assms
proof (induction ts arbitrary: carry s)
  case Nil
  show ?case by (simp only: tick_loop.simps bank_loop.simps Let_def prod.case raise_opt_def simp_thms if_True timers_same)
next
  case (Cons t ts)
  obtain T k where k: "timer_step (g_timer s cpu t) delta carry = (T, k)" by (cases "timer_step (g_timer s cpu t) delta carry")
  obtain m b where m: "bank_loop delta ts k ((g_timer s cpu)(t := T)) = (m, b)" by (cases "bank_loop delta ts k ((g_timer s cpu)(t := T))")
  have "t < 4" using Cons.prems by simp
  then have nz: "push_bit (3 + t) 1 \<noteq> (0 :: u32)" by (rule irq_bit_nonzero)
  have ts: "set ts \<subseteq> {..<4}" using Cons.prems by simp
  let ?a = "if k \<noteq> 0 \<and> t_ctrl T AND 0x40 \<noteq> 0 then push_bit (3 + t) 1 else 0 :: u32"
  let ?s = "s\<lparr>g_timer := (g_timer s)(cpu := (g_timer s cpu)(t := T))\<rparr>"
  have "tick_loop cpu delta (t # ts) carry s = tick_loop cpu delta ts k (raise_opt cpu ?a ?s)"
    unfolding tick_loop.simps k Let_def prod.case raise_opt_if [OF nz] ..
  also have "\<dots> = raise_opt cpu b (raise_opt cpu ?a ?s\<lparr>g_timer := (g_timer ?s)(cpu := m)\<rparr>)"
    unfolding Cons.IH [OF ts] raise_opt_timers(1) by (simp add: m)
  also have "\<dots> = raise_opt cpu b (raise_opt cpu ?a (s\<lparr>g_timer := (g_timer s)(cpu := m)\<rparr>))"
    unfolding raise_opt_timers(3) [symmetric] by simp
  finally show ?case unfolding raise_opt_or bank_loop.simps k m Let_def prod.case .
qed


lemma timer_step_ctrl [simp]: "t_ctrl (fst (timer_step T d c)) = t_ctrl T"
  by (simp add: timer_step_def timer_ticks_def Let_def)

lemma bank_frame:
  "t \<notin> set ts \<Longrightarrow> bank_loop d ts c (m(t := x)) = ((fst (bank_loop d ts c m))(t := x), snd (bank_loop d ts c m))"
proof (induction ts arbitrary: c m)
  case (Cons u ts)
  then have ne: "u \<noteq> t" "t \<notin> set ts" by auto
  obtain T k where k: "timer_step (m u) d c = (T, k)" by (cases "timer_step (m u) d c")
  have "m(t := x, u := T) = m(u := T, t := x)" by (rule fun_upd_twist [OF ne(1) [symmetric]])
  then have "bank_loop d ts k (m(t := x, u := T)) = ((fst (bank_loop d ts k (m(u := T))))(t := x), snd (bank_loop d ts k (m(u := T))))"
    using Cons.IH [OF ne(2), of k "m(u := T)"] by (simp only:)
  moreover have "(m(t := x)) u = m u" using ne(1) by simp
  ultimately show ?case unfolding bank_loop.simps Let_def by (simp only: k prod.case case_prod_beta fst_conv snd_conv)
qed simp

lemma bank_add:
  assumes "distinct ts" "\<forall>t\<in>set ts. unat (t_accum (m t)) + (unat d1 + unat d2) < 2 ^ 64" "unat c1 + unat c2 < 2 ^ 64"
  shows "bank_loop (d1 + d2) ts (c1 + c2) m =
    (fst (bank_loop d2 ts c2 (fst (bank_loop d1 ts c1 m))),
     snd (bank_loop d1 ts c1 m) OR snd (bank_loop d2 ts c2 (fst (bank_loop d1 ts c1 m))))"
  using assms
proof (induction ts arbitrary: c1 c2 m)
  case (Cons t ts)
  obtain T1 k1 where s1: "timer_step (m t) d1 c1 = (T1, k1)" by (cases "timer_step (m t) d1 c1")
  obtain T2 k2 where s2: "timer_step T1 d2 c2 = (T2, k2)" by (cases "timer_step T1 d2 c2")
  have ok: "step_ok (m t) (unat d1 + unat d2) (unat c1 + unat c2)" using Cons.prems by (simp add: step_ok_def)
  from timer_step_add [OF ok, unfolded s1 s2 fst_conv snd_conv]
  have s12: "timer_step (m t) (d1 + d2) (c1 + c2) = (T2, k1 + k2)" and k: "unat k1 + unat k2 < 2 ^ 64"
    by (cases "timer_step (m t) (d1 + d2) (c1 + c2)"; simp add: s2)+
  have t: "t \<notin> set ts" and ts: "distinct ts" using Cons.prems by auto
  have ctrl: "t_ctrl T1 = t_ctrl (m t)" "t_ctrl T2 = t_ctrl (m t)"
    using timer_step_ctrl [of "m t" d1 c1] timer_step_ctrl [of T1 d2 c2] by (simp_all add: s1 s2)
  have kz: "k1 + k2 = 0 \<longleftrightarrow> k1 = 0 \<and> k2 = 0" using k by (simp add: unat_word_ariths word_unat_eq_iff)
  obtain m1 b1 where l1: "bank_loop d1 ts k1 m = (m1, b1)" by (cases "bank_loop d1 ts k1 m")
  have acc: "\<forall>u\<in>set ts. unat (t_accum (m u)) + (unat d1 + unat d2) < 2 ^ 64" using Cons.prems by simp
  obtain m2 b2 where l2: "bank_loop d2 ts k2 m1 = (m2, b2)" by (cases "bank_loop d2 ts k2 m1")
  have ih: "bank_loop (d1 + d2) ts (k1 + k2) m = (m2, b1 OR b2)"
    using Cons.IH [OF ts acc k] by (simp add: l1 l2)
  have l1': "bank_loop d1 ts k1 (m(t := T1)) = (m1(t := T1), b1)" by (simp add: bank_frame [OF t] l1)
  have l2': "bank_loop d2 ts k2 (m1(t := T2)) = (m2(t := T2), b2)" by (simp add: bank_frame [OF t] l2)
  have l12: "bank_loop (d1 + d2) ts (k1 + k2) (m(t := T2)) = (m2(t := T2), b1 OR b2)" by (simp add: bank_frame [OF t] ih)
  define bt where "bt = (push_bit (3 + t) 1 :: u32)"
  have "bank_loop d1 (t # ts) c1 m = (m1(t := T1), (if k1 \<noteq> 0 \<and> t_ctrl (m t) AND 0x40 \<noteq> 0 then bt else 0) OR b1)"
    unfolding bank_loop.simps s1 Let_def prod.case l1' ctrl bt_def ..
  moreover have "bank_loop d2 (t # ts) c2 (m1(t := T1)) = (m2(t := T2), (if k2 \<noteq> 0 \<and> t_ctrl (m t) AND 0x40 \<noteq> 0 then bt else 0) OR b2)"
    unfolding bank_loop.simps fun_upd_same s2 Let_def prod.case fun_upd_upd l2' ctrl bt_def ..
  moreover have "bank_loop (d1 + d2) (t # ts) (c1 + c2) m =
      (m2(t := T2), (if k1 + k2 \<noteq> 0 \<and> t_ctrl (m t) AND 0x40 \<noteq> 0 then bt else 0) OR (b1 OR b2))"
    unfolding bank_loop.simps s12 Let_def prod.case l12 ctrl bt_def ..
  moreover have "(if \<not> (k1 = 0 \<and> k2 = 0) \<and> q then bt else 0) OR (b1 OR b2) =
      ((if k1 \<noteq> 0 \<and> q then bt else 0) OR b1) OR ((if k2 \<noteq> 0 \<and> q then bt else 0) OR b2)" for q
    by (cases q; cases "k1 = 0"; cases "k2 = 0") (simp_all add: ac_simps)
  ultimately show ?case unfolding kz by (simp only: fst_conv snd_conv)
qed simp

definition sys_cycles :: "nds_cpu \<Rightarrow> u64 \<Rightarrow> u64" where
  "sys_cycles cpu c = (if cpu = ARM9 then drop_bit 1 c else c)"

definition bank :: "nat list" where "bank = [0, 1, 2, 3]"

lemma tick_eq:
  "nds_tick_timers cpu c s = (let l = s\<lparr>g_timer_last := (g_timer_last s)(cpu := sys_cycles cpu c)\<rparr> in
     if sys_cycles cpu c = g_timer_last s cpu then l
     else (let (m, b) = bank_loop (sys_cycles cpu c - g_timer_last s cpu) bank 0 (g_timer s cpu)
           in raise_opt cpu b (l\<lparr>g_timer := (g_timer s)(cpu := m)\<rparr>)))"
  by (simp add: nds_tick_timers_def sys_cycles_def Let_def tick_loop_bank bank_def)

definition timers_boot :: timers where
  "timers_boot = card.extend card_boot (timers.fields
     ((\<lambda>_ _. \<lparr>t_reload = 0, t_counter = 0, t_ctrl = 0, t_accum = 0\<rparr>)
       (ARM7 := (\<lambda>_. \<lparr>t_reload = 0, t_counter = 0, t_ctrl = 0, t_accum = 0\<rparr>)
         (0 := \<lparr>t_reload = 0xFFF0, t_counter = 0xFFF0, t_ctrl = 0xC0, t_accum = 0\<rparr>,
          1 := \<lparr>t_reload = 0xFFFE, t_counter = 0xFFFE, t_ctrl = 0xC4, t_accum = 0\<rparr>))) (\<lambda>_. 0))"

text \<open>
  C33. Timer catch-up. Advancing a processor's four timers to a time in one step, or first to any
  earlier time and then on, leaves the same machine state: counters, prescaler remainders, cascades,
  reloads and interrupt requests.  So the scheduler may skip over idle rendezvous.
\<close>

theorem timer_ticks_compose:
  assumes "g_timer_last s cpu \<le> sys_cycles cpu c1" and "sys_cycles cpu c1 \<le> sys_cycles cpu c2"
    and "\<forall>t<4. unat (t_accum (g_timer s cpu t)) + unat (sys_cycles cpu c2 - g_timer_last s cpu) < 2 ^ 64"
  shows "nds_tick_timers cpu c2 (nds_tick_timers cpu c1 s) = nds_tick_timers cpu c2 s"
proof -
  let ?l = "g_timer_last s cpu" and ?x = "sys_cycles cpu c1" and ?y = "sys_cycles cpu c2"
  let ?d1 = "?x - ?l" and ?d2 = "?y - ?x"
  have d: "?d1 + ?d2 = ?y - ?l" by simp
  have "unat ?d1 + unat ?d2 = unat (?y - ?l)"
    using assms(1,2) by (simp add: unat_sub word_le_nat_alt order_trans [OF assms(1,2)])
  then have acc: "\<forall>t\<in>set bank. unat (t_accum (g_timer s cpu t)) + (unat ?d1 + unat ?d2) < 2 ^ 64"
    using assms(3) by (simp add: bank_def)
  note add = bank_add [of "bank" "g_timer s cpu" ?d1 ?d2 0 0, OF _ acc, unfolded d]
  have dist: "distinct bank" by (simp add: bank_def)
  obtain m1 b1 where l1: "bank_loop ?d1 bank 0 (g_timer s cpu) = (m1, b1)"
    by (cases "bank_loop ?d1 bank 0 (g_timer s cpu)")
  obtain m2 b2 where l2: "bank_loop ?d2 bank 0 m1 = (m2, b2)" by (cases "bank_loop ?d2 bank 0 m1")
  consider (first) "?x = ?l" | (second) "?x \<noteq> ?l" "?y = ?x" | (both) "?x \<noteq> ?l" "?y \<noteq> ?x" by blast
  then show ?thesis
  proof cases
    case first
    then show ?thesis by (simp add: tick_eq Let_def)
  next
    case second
    then show ?thesis by (simp add: tick_eq Let_def l1)
  next
    case both
    then have "?y \<noteq> ?l" using assms(1,2) by auto
    moreover have "bank_loop (?y - ?l) bank 0 (g_timer s cpu) = (m2, b1 OR b2)" using add [OF dist] by (simp add: l1 l2)
    ultimately show ?thesis using both by (simp add: tick_eq Let_def l1 l2 raise_opt_or)
  qed
qed


lemma timer_ticks_compose_witness:
  fixes s :: timers
  defines "s \<equiv> timers_boot"
  shows "nds_tick_timers ARM7 100 (nds_tick_timers ARM7 70 s) = nds_tick_timers ARM7 100 s"
  by (rule timer_ticks_compose) (simp_all add: s_def timers_boot_def card.defs timers.defs sys_cycles_def)

section \<open>The next overflow\<close>

text \<open>
  The prescaler remainder of a timer is time it has seen: it never exceeds the bank's time. It may exceed
  the period, after a control write that changes the prescaler or stops the timer.
\<close>

definition accum_ok :: "u64 \<Rightarrow> timer \<Rightarrow> bool" where
  "accum_ok now T \<longleftrightarrow> t_accum T \<le> now"

abbreviation clock_driven :: "timer \<Rightarrow> bool" where
  "clock_driven T \<equiv> t_ctrl T AND 0x80 \<noteq> 0 \<and> t_ctrl T AND 0x4 = 0"

lemma advance_zero_iff: "c < 65536 \<Longrightarrow> snd (advance r c n) = 0 \<longleftrightarrow> n < 65536 - c"
  by (simp add: advance_def)

lemma prescale_le: "unat (ucast (kPrescaler k) :: u64) \<le> 1024"
  by (simp add: kPrescaler_def)

lemma unat_when:
  assumes "accum_ok since T" "unat since < 2 ^ 63"
  defines "p \<equiv> unat (ucast (kPrescaler (t_ctrl T AND 3)) :: u64)"
  shows "unat (timer_when T since) + unat (t_accum T) = unat since + (65536 - unat (t_counter T)) * p"
proof -
  define q where "q = (65536 - unat (t_counter T)) * p"
  have a: "unat (t_accum T) \<le> unat since" "t_accum T \<le> since" using assms(1) by (simp_all add: accum_ok_def word_le_nat_alt)
  have "(65536 - unat (t_counter T)) * p \<le> 65536 * 1024" unfolding p_def by (intro mult_le_mono prescale_le) simp
  then have q: "q \<le> 67108864" by (simp add: q_def)
  define Q where "Q = ((0x10000 - ucast (t_counter T)) * ucast (kPrescaler (t_ctrl T AND 3)) :: u64)"
  have uq: "unat Q = q" unfolding Q_def unat_word_ariths(2) unat_span p_def [symmetric] q_def [symmetric] using q by simp
  have w: "timer_when T since = (since - t_accum T) + Q" by (simp add: timer_when_def Q_def)
  have "unat (since - t_accum T) = unat since - unat (t_accum T)" using a(2) by (rule unat_sub)
  then have "unat (timer_when T since) = unat since - unat (t_accum T) + q"
    unfolding w unat_word_ariths(1) uq using q assms(2) by simp
  then show ?thesis using a(1) by (simp add: q_def)
qed

lemma step_overflow_iff:
  assumes T: "clock_driven T" "accum_ok since T" and l: "unat since < 2 ^ 63" and d: "unat since + unat d < 2 ^ 63"
  shows "snd (timer_step T d c) \<noteq> 0 \<longleftrightarrow> timer_when T since \<le> since + d"
proof -
  define p where "p = unat (ucast (kPrescaler (t_ctrl T AND 3)) :: u64)"
  let ?n = "65536 - unat (t_counter T)"
  have p: "0 < p" unfolding p_def by (rule prescale_pos)
  have a: "unat (t_accum T) \<le> unat since" using T(2) by (simp add: accum_ok_def word_le_nat_alt)
  note w = unat_when [OF T(2) l, folded p_def]
  have ad: "unat (t_accum T + d) = unat (t_accum T) + unat d" using a d by (simp add: unat_word_ariths)
  have sd: "unat (since + d) = unat since + unat d" using d by (simp add: unat_word_ariths)
  have "unat (snd (timer_step T d c)) = snd (advance (unat (t_reload T)) (unat (t_counter T)) ((unat (t_accum T) + unat d) div p))"
    using timer_step_clocked [OF conjunct1 [OF T(1)] conjunct2 [OF T(1)], of d c] timer_count_exact
    by (simp add: Let_def unat_div ad p_def)
  then have "snd (timer_step T d c) \<noteq> 0 \<longleftrightarrow> ?n \<le> (unat (t_accum T) + unat d) div p"
    using advance_zero_iff [OF unat16, of "unat (t_reload T)" "t_counter T"] by (metis linorder_not_less unat_eq_zero)
  also have "\<dots> \<longleftrightarrow> ?n * p \<le> unat (t_accum T) + unat d" using p by (simp add: less_eq_div_iff_mult_less_eq)
  also have "\<dots> \<longleftrightarrow> unat (timer_when T since) \<le> unat since + unat d" using w by linarith
  also have "\<dots> \<longleftrightarrow> timer_when T since \<le> since + d" by (simp only: word_le_nat_alt sd)
  finally show ?thesis .
qed

text \<open>Ticks keep the remainders within the time.\<close>

lemma timer_step_accum:
  assumes ok: "accum_ok l T" and y: "l \<le> y"
  shows "accum_ok y (fst (timer_step T (y - l) c))"
proof -
  have a: "unat (t_accum T) \<le> unat l" "unat l \<le> unat y" using assms by (simp_all add: accum_ok_def word_le_nat_alt)
  have d: "unat (y - l) = unat y - unat l" using y by (rule unat_sub)
  consider "t_ctrl T AND 0x80 = 0" | "t_ctrl T AND 0x80 \<noteq> 0" "t_ctrl T AND 0x4 \<noteq> 0"
    | (clocked) "t_ctrl T AND 0x80 \<noteq> 0" "t_ctrl T AND 0x4 = 0" by blast
  then show ?thesis
  proof cases
    case clocked
    have "unat (t_accum T + (y - l)) \<le> unat y" using a d unsigned_less [of y, where 'a = nat] by (simp add: unat_word_ariths)
    then have "unat ((t_accum T + (y - l)) mod ucast (kPrescaler (t_ctrl T AND 3))) \<le> unat y"
      unfolding unat_mod_distrib using mod_less_eq_dividend le_trans by blast
    then show ?thesis using timer_count_keeps unfolding timer_step_clocked [OF clocked] Let_def
      by (simp add: accum_ok_def word_le_nat_alt)
  qed (use a timer_count_keeps in \<open>simp_all add: timer_step_def timer_ticks_def accum_ok_def word_le_nat_alt\<close>)
qed

lemma bank_loop_accum:
  assumes "l \<le> y" "\<forall>u. accum_ok (if u \<in> set ts then l else y) (m u)" "distinct ts"
  shows "\<forall>u. accum_ok y (fst (bank_loop (y - l) ts c m) u)"
  using assms
proof (induction ts arbitrary: c m)
  case (Cons t ts)
  obtain T k where k: "timer_step (m t) (y - l) c = (T, k)" by (cases "timer_step (m t) (y - l) c")
  have "accum_ok y T" using timer_step_accum [OF _ Cons.prems(1), of "m t" c] Cons.prems(2) k by (metis fst_conv list.set_intros(1))
  moreover have "accum_ok (if u \<in> set ts then l else y) (m u)" if "u \<noteq> t" for u
    using Cons.prems(2) [THEN spec, of u] that by simp
  ultimately have "\<forall>u. accum_ok (if u \<in> set ts then l else y) ((m(t := T)) u)" using Cons.prems(3) by simp
  then have "\<forall>u. accum_ok y (fst (bank_loop (y - l) ts k (m(t := T))) u)"
    by (rule Cons.IH [OF Cons.prems(1)]) (use Cons.prems(3) in simp)
  then show ?case unfolding bank_loop.simps k Let_def prod.case by (simp only: case_prod_beta fst_conv simp_thms)
qed simp

lemma less_fold_min:
  fixes x :: "'b :: linorder"
  shows "x < fold (\<lambda>p b. if P p then b else if Q p then b else min b (f p)) ps b \<longleftrightarrow>
    x < b \<and> (\<forall>p\<in>set ps. \<not> P p \<longrightarrow> \<not> Q p \<longrightarrow> x < f p)"
  by (induction ps arbitrary: b) auto

lemma before_next_overflow:
  assumes "x < nds_next_timer_overflow_time s" "t < 4" "clock_driven (g_timer s cpu t)"
  shows "x < timer_when (g_timer s cpu t) (g_timer_last s cpu)"
proof -
  let ?ps = "[(ARM9, 0), (ARM9, 1), (ARM9, 2), (ARM9, 3), (ARM7, 0), (ARM7, 1), (ARM7, 2), (ARM7, 3 :: nat)]"
  have "t \<in> {0, 1, 2, 3}" using assms(2) by auto
  then have "(cpu, t) \<in> set ?ps" by (cases cpu) auto
  moreover have "x < - 1 \<and> (\<forall>(cpu, t)\<in>set ?ps. t_ctrl (g_timer s cpu t) AND 0x80 \<noteq> 0 \<longrightarrow>
      \<not> t_ctrl (g_timer s cpu t) AND 0x4 \<noteq> 0 \<longrightarrow> x < timer_when (g_timer s cpu t) (g_timer_last s cpu))"
    using assms(1) unfolding nds_next_timer_overflow_time_def Let_def case_prod_beta less_fold_min by blast
  ultimately show ?thesis using assms(3) by fastforce
qed

text \<open>Without an overflow nothing is carried and nothing requested.\<close>

lemma bank_quiet:
  assumes "\<forall>t\<in>set ts. clock_driven (m t) \<longrightarrow> snd (timer_step (m t) d 0) = 0" "distinct ts"
  shows "snd (bank_loop d ts 0 m) = 0"
  using assms
proof (induction ts arbitrary: m)
  case (Cons t ts)
  have "snd (timer_step (m t) d 0) = 0"
    using Cons.prems by (cases "clock_driven (m t)") (auto simp: timer_step_def timer_ticks_def timer_count_def)
  then obtain T where T: "timer_step (m t) d 0 = (T, 0)" by (cases "timer_step (m t) d 0") auto
  have "snd (bank_loop d ts 0 (m(t := T))) = 0" using Cons.prems by (intro Cons.IH) auto
  then show ?case unfolding bank_loop.simps T Let_def prod.case by (simp add: case_prod_beta)
qed simp

lemma bank_requests:
  assumes "t \<in> set ts" "distinct ts" "clock_driven (m t)" "t_ctrl (m t) AND 0x40 \<noteq> 0" "\<forall>c. snd (timer_step (m t) d c) \<noteq> 0" "t < 4"
  shows "bit (snd (bank_loop d ts c m)) (3 + t)"
  using assms
proof (induction ts arbitrary: c m)
  case (Cons u ts)
  obtain T k where k: "timer_step (m u) d c = (T, k)" by (cases "timer_step (m u) d c")
  obtain m' b where b: "bank_loop d ts k (m(u := T)) = (m', b)" by (cases "bank_loop d ts k (m(u := T))")
  show ?case
  proof (cases "t = u")
    case True
    have "k \<noteq> 0" using Cons.prems(5) k True by (metis snd_conv)
    moreover have "t_ctrl T = t_ctrl (m u)" using timer_step_ctrl [of "m u" d c] by (simp add: k)
    ultimately show ?thesis using Cons.prems(4,6) True unfolding bank_loop.simps k Let_def prod.case b snd_conv
      by (simp add: bit_or_iff bit_exp_iff)
  next
    case False
    have "bit (snd (bank_loop d ts k (m(u := T)))) (3 + t)"
      using Cons.prems False by (intro Cons.IH) auto
    then show ?thesis unfolding bank_loop.simps k Let_def prod.case b snd_conv by (simp add: bit_or_iff)
  qed
qed simp

text \<open>A bank between a reset and any later time: ticks, register reads and writes in the order of time.\<close>

inductive timers_reachable :: "'a timers_scheme \<Rightarrow> bool" where
  reset: "(\<And>cpu t. t_accum (g_timer s cpu t) = 0) \<Longrightarrow> timers_reachable s"
| tick: "timers_reachable s \<Longrightarrow> g_timer_last s cpu \<le> sys_cycles cpu c \<Longrightarrow> timers_reachable (nds_tick_timers cpu c s)"
| read: "timers_reachable s \<Longrightarrow> g_timer_last s cpu \<le> sys_cycles cpu (g_runtime_cycles s) \<Longrightarrow>
    timers_reachable (snd (timer_reg_read cpu addr m s))"
| write_reg: "timers_reachable s \<Longrightarrow> g_timer_last s cpu \<le> sys_cycles cpu (g_runtime_cycles s) \<Longrightarrow>
    timers_reachable (timer_reg_write cpu addr v width s)"
| elsewhere: "timers_reachable s \<Longrightarrow> g_timer t = g_timer s \<Longrightarrow> g_timer_last t = g_timer_last s \<Longrightarrow> timers_reachable t"

definition bank_ok :: "'a timers_scheme \<Rightarrow> bool" where
  "bank_ok s \<longleftrightarrow> (\<forall>cpu t. accum_ok (g_timer_last s cpu) (g_timer s cpu t))"

lemma tick_bank_ok:
  assumes s: "bank_ok s" and c: "g_timer_last s cpu \<le> sys_cycles cpu c"
  shows "bank_ok (nds_tick_timers cpu c s)"
proof -
  let ?l = "g_timer_last s cpu" and ?y = "sys_cycles cpu c"
  obtain m' b where b: "bank_loop (?y - ?l) bank 0 (g_timer s cpu) = (m', b)" by (cases "bank_loop (?y - ?l) bank 0 (g_timer s cpu)")
  have "accum_ok (if u \<in> set bank then ?l else ?y) (g_timer s cpu u)" for u
    using s c by (simp add: bank_ok_def accum_ok_def) (meson order.trans)
  then have "accum_ok ?y (m' u)" for u using bank_loop_accum [OF c, of bank "g_timer s cpu" 0] b by (simp add: bank_def)
  then show ?thesis using s b by (auto simp: tick_eq Let_def bank_ok_def)
qed

lemma reachable_bank_ok: "timers_reachable s \<Longrightarrow> bank_ok s"
proof (induction rule: timers_reachable.induct)
  case (read s cpu addr m)
  then show ?case using tick_bank_ok [OF read.IH read.hyps(2)] by (simp add: timer_reg_read_def Let_def)
next
  case (write_reg s cpu addr v width)
  have k: "bank_ok (u\<lparr>g_timer := (g_timer u)(cpu := (g_timer u cpu)(t := T))\<rparr>)"
    if "bank_ok u" "t_accum T = 0 \<or> t_accum T = t_accum (g_timer u cpu t)" for u :: "'a timers_scheme" and t T
    using that by (auto simp: bank_ok_def accum_ok_def)
  show ?case using k [OF tick_bank_ok [OF write_reg.IH write_reg.hyps(2)]] k [OF write_reg.IH]
    by (simp add: timer_reg_write_def Let_def)
qed (auto simp: bank_ok_def accum_ok_def intro: tick_bank_ok [unfolded bank_ok_def accum_ok_def, rule_format])

text \<open>
  C28. Next timer overflow. However the timers were programmed since the reset, prescaler changes and stopped
  timers included: catching up to any time before the predicted next overflow requests no interrupt,
  cascaded timers included; catching up to or past a timer's own overflow time requests its interrupt if
  enabled. Time runs forwards and stays below 2^63 system cycles.
\<close>

theorem timer_overflow_time_exact:
  assumes reach: "timers_reachable s"
    and range: "g_timer_last s cpu \<le> sys_cycles cpu c" "unat (sys_cycles cpu c) < 2 ^ 63"
  shows "(sys_cycles cpu c < nds_next_timer_overflow_time s \<longrightarrow> g_if (nds_tick_timers cpu c s) = g_if s)
    \<and> (\<forall>t<4. clock_driven (g_timer s cpu t) \<longrightarrow> t_ctrl (g_timer s cpu t) AND 0x40 \<noteq> 0
        \<longrightarrow> g_timer_last s cpu < sys_cycles cpu c
        \<longrightarrow> timer_when (g_timer s cpu t) (g_timer_last s cpu) \<le> sys_cycles cpu c
        \<longrightarrow> bit (g_if (nds_tick_timers cpu c s) cpu) (3 + t))"
proof -
  let ?l = "g_timer_last s cpu" and ?y = "sys_cycles cpu c" and ?m = "g_timer s cpu"
  let ?d = "?y - ?l"
  have ok: "accum_ok ?l (?m t)" for t using reachable_bank_ok [OF reach] by (simp add: bank_ok_def)
  have l: "unat ?l < 2 ^ 63" using range by (simp add: word_le_nat_alt)
  have ld: "unat ?l + unat ?d < 2 ^ 63" using range by (simp add: unat_sub word_le_nat_alt)
  have sum: "?l + ?d = ?y" by simp
  have iff: "snd (timer_step (?m t) ?d k) \<noteq> 0 \<longleftrightarrow> timer_when (?m t) ?l \<le> ?y" if "t < 4" "clock_driven (?m t)" for t k
    using step_overflow_iff [OF that(2) ok l ld, of k] by (simp only: sum)
  have if_raise: "g_if (raise_opt cpu b u) = (g_if u)(cpu := g_if u cpu OR b)" for b and u :: "'a timers_scheme"
    by (simp add: raise_opt_def nds_raise_irq_def irq_recompute_def runtime_clear_fast_limit_def)
  obtain m' b where b: "bank_loop ?d bank 0 ?m = (m', b)" by (cases "bank_loop ?d bank 0 ?m")
  have g: "g_if (nds_tick_timers cpu c s) = (if ?y = ?l then g_if s else (g_if s)(cpu := g_if s cpu OR b))"
    by (simp add: tick_eq Let_def b if_raise del: raise_opt_timers)
  have bk: "set bank = {0, 1, 2, 3}" "distinct bank" by (auto simp: bank_def)
  show ?thesis
  proof (intro conjI impI allI)
    assume before: "?y < nds_next_timer_overflow_time s"
    have "snd (timer_step (?m t) ?d 0) = 0" if "t \<in> set bank" "clock_driven (?m t)" for t
      using iff [of t 0] before_next_overflow [OF before, of t cpu] that by (auto simp: bk)
    then have "b = 0" using bank_quiet [of bank ?m ?d] b bk by simp
    then show "g_if (nds_tick_timers cpu c s) = g_if s" by (simp add: g)
  next
    fix t :: nat
    assume a: "t < 4" "clock_driven (?m t)" "t_ctrl (?m t) AND 0x40 \<noteq> 0" "?l < ?y" "timer_when (?m t) ?l \<le> ?y"
    have "t \<in> set bank" using a(1) by (auto simp: bk)
    then have "bit b (3 + t)" using bank_requests [of t bank ?m ?d 0] iff [OF a(1,2)] a b bk by simp
    then show "bit (g_if (nds_tick_timers cpu c s) cpu) (3 + t)"
      using a(4) less_imp_neq [OF a(4)] by (simp add: g bit_or_iff eq_commute [of ?y])
  qed
qed

lemma timer_overflow_time_exact_witness:
  "g_if (nds_tick_timers ARM7 15 timers_boot) = g_if timers_boot \<and> bit (g_if (nds_tick_timers ARM7 16 timers_boot) ARM7) 3"
proof -
  have f: "g_timer timers_boot ARM7 0 = \<lparr>t_reload = 0xFFF0, t_counter = 0xFFF0, t_ctrl = 0xC0, t_accum = 0\<rparr>"
    "g_timer_last timers_boot = (\<lambda>_. 0)" by (simp_all add: timers_boot_def card.defs timers.defs)
  have ok: "timers_reachable timers_boot"
    by (rule timers_reachable.reset) (simp add: timers_boot_def card.defs timers.defs)
  have n: "nds_next_timer_overflow_time timers_boot = 16"
    by (simp add: nds_next_timer_overflow_time_def timers_boot_def card.defs timers.defs timer_when_def kPrescaler_def Let_def)
  have w: "timer_when (g_timer timers_boot ARM7 0) 0 = 16" by (simp add: f timer_when_def kPrescaler_def)
  show ?thesis
    using timer_overflow_time_exact [OF ok, of ARM7 15]
      timer_overflow_time_exact [OF ok, of ARM7 16, THEN conjunct2, THEN spec, of 0]
    by (simp add: n w sys_cycles_def) (simp add: f timer_when_def kPrescaler_def)
qed

end
