(* ===== verification/Rtc.thy ===== *)
theory Rtc
  imports Timers
begin

text \<open>
  The real-time clock chip of \<open>runner/src/io.cpp\<close>: calendar registers in BCD, the 12/24-hour modes,
  alarms and periodic interrupts, the 32,768 Hz tick, and the bit-banged serial port the ARM7
  drives it through.  Shown: the clock implements the civil calendar of 2000 to 2099 second by
  second; the registers stay in range whatever the guest shifts in; a date set through the port is
  read back through it; and ticks fall exactly at their scheduled system cycles.
\<close>

section \<open>State\<close>

text \<open>The 7, 3, 3 and 8 byte arrays are functions of the index.\<close>

record rtc = timers +
  g_rcnt :: u16
  g_rtc_io :: u16
  g_rtc_input :: u8
  g_rtc_inbit :: nat
  g_rtc_inpos :: nat
  g_rtc_output :: "nat \<Rightarrow> u8"
  g_rtc_outbit :: nat
  g_rtc_outpos :: nat
  g_rtc_cmd :: u8
  g_rtc_datetime :: "nat \<Rightarrow> u8"
  g_rtc_status1 :: u8
  g_rtc_status2 :: u8
  g_rtc_alarm1 :: "nat \<Rightarrow> u8"
  g_rtc_alarm2 :: "nat \<Rightarrow> u8"
  g_rtc_clock_adjust :: u8
  g_rtc_free :: u8
  g_rtc_irq_flag :: u8
  g_rtc_clock_count :: u32
  g_rtc_processed_ticks :: u64

definition set_dt :: "nat \<Rightarrow> u8 \<Rightarrow> 'a rtc_scheme \<Rightarrow> 'a rtc_scheme" where
  "set_dt i v s = s\<lparr>g_rtc_datetime := (g_rtc_datetime s)(i := v)\<rparr>"

section \<open>BCD\<close>

definition rtc_bcd :: "u32 \<Rightarrow> u8" where
  "rtc_bcd v = ucast (push_bit 4 (v div 10) OR v mod 10)"

definition rtc_bcd_increment :: "u8 \<Rightarrow> u8" where
  "rtc_bcd_increment v =
    (let v = v + 1;
         v = (if v AND 0x0F \<ge> 0x0A then v + 0x06 else v);
         v = (if v AND 0xF0 \<ge> 0xA0 then v + 0x60 else v) in v)"

definition rtc_bcd_sanitize :: "u8 \<Rightarrow> u8 \<Rightarrow> u8 \<Rightarrow> u8" where
  "rtc_bcd_sanitize v lo hi =
    (if v < lo \<or> v > hi \<or> v AND 0x0F \<ge> 0x0A \<or> v AND 0xF0 \<ge> 0xA0 then lo else v)"

section \<open>Calendar\<close>

definition rtc_days_in_month :: "'a rtc_scheme \<Rightarrow> u8" where
  "rtc_days_in_month s =
    (let mo = g_rtc_datetime s 1; y = g_rtc_datetime s 0 in
     if mo \<in> {0x01, 0x03, 0x05, 0x07, 0x08, 0x10, 0x12} then 0x31
     else if mo \<in> {0x04, 0x06, 0x09, 0x11} then 0x30
     else if mo = 0x02 then
       (let year = ucast (y AND 0x0F) + 10 * ucast (drop_bit 4 y) :: u32 in if year AND 3 \<noteq> 0 then 0x28 else 0x29)
     else 0)"

definition rtc_count_year :: "'a rtc_scheme \<Rightarrow> 'a rtc_scheme" where
  "rtc_count_year s = set_dt 0 (rtc_bcd_increment (g_rtc_datetime s 0)) s"

definition rtc_count_month :: "'a rtc_scheme \<Rightarrow> 'a rtc_scheme" where
  "rtc_count_month s =
    (let s = set_dt 1 (rtc_bcd_increment (g_rtc_datetime s 1)) s in
     if g_rtc_datetime s 1 > 0x12 then rtc_count_year (set_dt 1 1 s) else s)"

definition rtc_check_end_of_month :: "'a rtc_scheme \<Rightarrow> 'a rtc_scheme" where
  "rtc_check_end_of_month s =
    (if g_rtc_datetime s 2 > rtc_days_in_month s then rtc_count_month (set_dt 2 1 s) else s)"

definition rtc_count_day :: "'a rtc_scheme \<Rightarrow> 'a rtc_scheme" where
  "rtc_count_day s =
    (let s = set_dt 3 (g_rtc_datetime s 3 + 1) s;
         s = (if g_rtc_datetime s 3 \<ge> 7 then set_dt 3 0 s else s);
         s = set_dt 2 (rtc_bcd_increment (g_rtc_datetime s 2)) s in
     rtc_check_end_of_month s)"

definition rtc_count_hour :: "'a rtc_scheme \<Rightarrow> 'a rtc_scheme" where
  "rtc_count_hour s =
    (let hour = rtc_bcd_increment (g_rtc_datetime s 4 AND 0x3F); pm = g_rtc_datetime s 4 AND 0x40;
         (hour, pm, s) =
           (if g_rtc_status1 s AND 0x02 \<noteq> 0
            then let (hour, s) = (if hour \<ge> 0x24 then (0, rtc_count_day s) else (hour, s))
                 in (hour, if hour \<ge> 0x12 then 0x40 else 0, s)
            else if hour \<ge> 0x12
            then (0, pm XOR 0x40, if pm \<noteq> 0 then rtc_count_day s else s)
            else (hour, pm, s))
     in set_dt 4 (hour OR pm) s)"

section \<open>Interrupts\<close>

definition rtc_set_irq :: "u8 \<Rightarrow> 'a rtc_scheme \<Rightarrow> 'a rtc_scheme" where
  "rtc_set_irq irq s =
    (let old = g_rtc_irq_flag s;
         s = s\<lparr>g_rtc_irq_flag := g_rtc_irq_flag s OR irq, g_rtc_status1 := g_rtc_status1 s OR irq\<rparr> in
     if old AND 0x30 = 0 \<and> g_rtc_irq_flag s AND 0x30 \<noteq> 0 \<and> g_rcnt s AND 0xC100 = 0x8100
     then nds_raise_irq ARM7 (push_bit 7 1) s else s)"

definition rtc_clear_irq :: "u8 \<Rightarrow> 'a rtc_scheme \<Rightarrow> 'a rtc_scheme" where
  "rtc_clear_irq irq s = s\<lparr>g_rtc_irq_flag := g_rtc_irq_flag s AND NOT irq\<rparr>"

text \<open>The frequency mask of the steady interrupt, and the comparison with an alarm.\<close>

definition frequency_mask :: "u8 \<Rightarrow> u32" where
  "frequency_mask a =
    (let m = 0;
         m = (if a AND push_bit 0 1 \<noteq> 0 then m OR 0x4000 else m);
         m = (if a AND push_bit 1 1 \<noteq> 0 then m OR 0x2000 else m);
         m = (if a AND push_bit 2 1 \<noteq> 0 then m OR 0x1000 else m);
         m = (if a AND push_bit 3 1 \<noteq> 0 then m OR 0x0800 else m);
         m = (if a AND push_bit 4 1 \<noteq> 0 then m OR 0x0400 else m) in m)"

definition alarm_match :: "(nat \<Rightarrow> u8) \<Rightarrow> (nat \<Rightarrow> u8) \<Rightarrow> bool" where
  "alarm_match a dt \<longleftrightarrow>
    (a 0 AND 0x80 \<noteq> 0 \<longrightarrow> a 0 AND 0x07 = dt 3) \<and> (a 1 AND 0x80 \<noteq> 0 \<longrightarrow> a 1 AND 0x7F = dt 4) \<and>
    (a 2 AND 0x80 \<noteq> 0 \<longrightarrow> a 2 AND 0x7F = dt 5)"

text \<open>
  \<open>kind\<close> is 0 for a minute carry, 1 for the periodic tick, 2 for a write of the status register;
  the first interrupt source, then the second alarm.
\<close>

definition rtc_process_irq1 :: "nat \<Rightarrow> 'a rtc_scheme \<Rightarrow> 'a rtc_scheme" where
  "rtc_process_irq1 kind s =
    (let m = g_rtc_status2 s AND 0x0F; edge = kind = 0 \<or> (kind = 2 \<and> g_rtc_irq_flag s AND 0x01 \<noteq> 0) in
     if m = 0x0 then (if kind = 2 then rtc_clear_irq 0x10 s else s)
     else if m = 0x1 \<or> m = 0x5 then
       (if (kind = 1 \<and> g_rtc_clock_count s AND 0x3FF = 0) \<or> kind = 2
        then let msk = frequency_mask (g_rtc_alarm1 s 2) in
          if msk \<noteq> 0 \<and> g_rtc_clock_count s AND msk \<noteq> msk then rtc_set_irq 0x10 s else rtc_clear_irq 0x10 s
        else s)
     else if m = 0x2 \<or> m = 0x6 then (if edge then rtc_set_irq 0x10 s else s)
     else if m = 0x3 then
       (if edge then rtc_set_irq 0x10 s
        else if kind = 1 \<and> g_rtc_datetime s 6 = 0x30 \<and> g_rtc_clock_count s AND 0x7FFF = 0 then rtc_clear_irq 0x10 s
        else s)
     else if m = 0x7 then
       (if edge then rtc_set_irq 0x10 s
        else if kind = 1 \<and> g_rtc_datetime s 6 = 0x00 \<and> g_rtc_clock_count s AND 0x7FFF = 256 then rtc_clear_irq 0x10 s
        else s)
     else if m = 0x4 then
       (if kind = 0 then if alarm_match (g_rtc_alarm1 s) (g_rtc_datetime s) then rtc_set_irq 0x10 s
          else rtc_clear_irq 0x10 s
        else s)
     else if kind = 1 then rtc_clear_irq 0x10 (rtc_set_irq 0x10 s) else s)"

definition rtc_process_irq :: "nat \<Rightarrow> 'a rtc_scheme \<Rightarrow> 'a rtc_scheme" where
  "rtc_process_irq kind s =
    (let s = rtc_process_irq1 kind s in
     if g_rtc_status2 s AND 0x40 \<noteq> 0 then
       (if kind = 0 then if alarm_match (g_rtc_alarm2 s) (g_rtc_datetime s) then rtc_set_irq 0x20 s
          else rtc_clear_irq 0x20 s
        else s)
     else if kind = 2 then rtc_clear_irq 0x20 s else s)"

section \<open>Counting\<close>

definition rtc_count_minute :: "'a rtc_scheme \<Rightarrow> 'a rtc_scheme" where
  "rtc_count_minute s =
    (let s = set_dt 5 (rtc_bcd_increment (g_rtc_datetime s 5)) s;
         s = (if g_rtc_datetime s 5 \<ge> 0x60 then rtc_count_hour (set_dt 5 0 s) else s);
         s = s\<lparr>g_rtc_irq_flag := g_rtc_irq_flag s OR 0x01\<rparr> in
     rtc_process_irq 0 s)"

definition rtc_count_second :: "'a rtc_scheme \<Rightarrow> 'a rtc_scheme" where
  "rtc_count_second s =
    (let s = set_dt 6 (rtc_bcd_increment (g_rtc_datetime s 6)) s in
     if g_rtc_datetime s 6 \<ge> 0x60 then rtc_count_minute (set_dt 6 0 s) else s)"

text \<open>One 32,768 Hz tick, and the catch-up loop of \<open>nds_tick_rtc\<close>.\<close>

definition rtc_tick :: "'a rtc_scheme \<Rightarrow> 'a rtc_scheme" where
  "rtc_tick s =
    (let s = s\<lparr>g_rtc_processed_ticks := g_rtc_processed_ticks s + 1, g_rtc_clock_count := g_rtc_clock_count s + 1\<rparr>;
         s = (if g_rtc_clock_count s AND 0x7FFF = 0 then rtc_count_second s
              else if g_rtc_clock_count s AND 0x7FFF = 4
              then s\<lparr>g_rtc_irq_flag := g_rtc_irq_flag s AND NOT 0x01\<rparr> else s) in
     rtc_process_irq 1 s)"

section \<open>Registers\<close>

definition rtc_reset_state :: "'a rtc_scheme \<Rightarrow> 'a rtc_scheme" where
  "rtc_reset_state s =
    s\<lparr>g_rtc_status1 := 0, g_rtc_status2 := 0, g_rtc_datetime := (\<lambda>_. 0)(1 := 1, 2 := 1),
      g_rtc_alarm1 := (\<lambda>_. 0), g_rtc_alarm2 := (\<lambda>_. 0), g_rtc_clock_adjust := 0, g_rtc_free := 0, g_rtc_irq_flag := 0\<rparr>"

definition rtc_write_datetime :: "nat \<Rightarrow> u8 \<Rightarrow> 'a rtc_scheme \<Rightarrow> 'a rtc_scheme" where
  "rtc_write_datetime num v s =
    (if num = 1 then set_dt 0 (rtc_bcd_sanitize v 0x00 0x99) s
     else if num = 2 then set_dt 1 (rtc_bcd_sanitize (v AND 0x1F) 0x01 0x12) s
     else if num = 3 then rtc_check_end_of_month (set_dt 2 (rtc_bcd_sanitize (v AND 0x3F) 0x01 0x31) s)
     else if num = 4 then set_dt 3 (rtc_bcd_sanitize (v AND 0x07) 0x00 0x06) s
     else if num = 5 then
       (let maxhour = (if g_rtc_status1 s AND 0x02 \<noteq> 0 then 0x23 else 0x11) in
        set_dt 4 (rtc_bcd_sanitize (v AND 0x3F) 0x00 maxhour OR (v AND 0x40)) s)
     else if num = 6 then set_dt 5 (rtc_bcd_sanitize (v AND 0x7F) 0x00 0x59) s
     else if num = 7 then set_dt 6 (rtc_bcd_sanitize (v AND 0x7F) 0x00 0x59) s
     else s)"

definition put_output :: "nat \<Rightarrow> (nat \<Rightarrow> u8) \<Rightarrow> 'a rtc_scheme \<Rightarrow> 'a rtc_scheme" where
  "put_output n src s = s\<lparr>g_rtc_output := (\<lambda>i. if i < n then src i else g_rtc_output s i)\<rparr>"

definition rtc_cmd_read :: "'a rtc_scheme \<Rightarrow> 'a rtc_scheme" where
  "rtc_cmd_read s =
    (let c = g_rtc_cmd s AND 0x70 in
     if g_rtc_cmd s AND 0x0F \<noteq> 0x06 then s
     else if c = 0x00 then
       (let s = put_output 1 (\<lambda>_. g_rtc_status1 s) s in s\<lparr>g_rtc_status1 := g_rtc_status1 s AND 0x0F\<rparr>)
     else if c = 0x40 then put_output 1 (\<lambda>_. g_rtc_status2 s) s
     else if c = 0x20 then put_output 7 (g_rtc_datetime s) s
     else if c = 0x60 then put_output 3 (\<lambda>i. g_rtc_datetime s (4 + i)) s
     else if c = 0x10 then
       (if g_rtc_status2 s AND 0x04 \<noteq> 0 then put_output 3 (g_rtc_alarm1 s) s
        else put_output 1 (\<lambda>_. g_rtc_alarm1 s 2) s)
     else if c = 0x50 then put_output 3 (g_rtc_alarm2 s) s
     else if c = 0x30 then put_output 1 (\<lambda>_. g_rtc_clock_adjust s) s
     else if c = 0x70 then put_output 1 (\<lambda>_. g_rtc_free s) s
     else put_output 1 (\<lambda>_. 0) s)"

text \<open>The hour register after the 12/24-hour mode has changed to that of \<open>status1\<close>.\<close>

definition rtc_convert_hour :: "u8 \<Rightarrow> u8 \<Rightarrow> u8" where
  "rtc_convert_hour status1 reg =
    (let hour = reg AND 0x3F; pm = reg AND 0x40 in
     if status1 AND 0x02 \<noteq> 0 then
       (let hour = (if pm \<noteq> 0 then let hour = hour + 0x12 in if hour AND 0x0F \<ge> 0x0A then hour + 0x06 else hour
                    else hour);
            hour = rtc_bcd_sanitize hour 0x00 0x23 in hour OR pm)
     else
       (let (hour, pm) = (if hour \<ge> 0x12
              then let hour = hour - 0x12 in (if hour AND 0x0F \<ge> 0x0A then hour - 0x06 else hour, 0x40)
              else (hour, 0));
            hour = rtc_bcd_sanitize hour 0x00 0x11 in hour OR pm))"

definition rtc_cmd_write :: "u8 \<Rightarrow> 'a rtc_scheme \<Rightarrow> 'a rtc_scheme" where
  "rtc_cmd_write v s =
    (let c = g_rtc_cmd s AND 0x70; pos = g_rtc_inpos s in
     if g_rtc_cmd s AND 0x0F \<noteq> 0x06 then s
     else if c = 0x00 then
       (if pos = 1 then
          let old = g_rtc_status1 s;
              s = (if v AND 0x01 \<noteq> 0 then rtc_reset_state s else s);
              s = s\<lparr>g_rtc_status1 := (g_rtc_status1 s AND 0xF0) OR (v AND 0x0E)\<rparr> in
          if (g_rtc_status1 s XOR old) AND 0x02 \<noteq> 0
          then set_dt 4 (rtc_convert_hour (g_rtc_status1 s) (g_rtc_datetime s 4)) s else s
        else s)
     else if c = 0x40 then (if pos = 1 then rtc_process_irq 2 (s\<lparr>g_rtc_status2 := v\<rparr>) else s)
     else if c = 0x20 then (if pos \<le> 7 then rtc_write_datetime pos v s else s)
     else if c = 0x60 then (if pos \<le> 3 then rtc_write_datetime (pos + 4) v s else s)
     else if c = 0x10 then
       (if g_rtc_status2 s AND 0x04 \<noteq> 0
        then (if pos \<le> 3 then s\<lparr>g_rtc_alarm1 := (g_rtc_alarm1 s)(pos - 1 := v)\<rparr> else s)
        else if pos = 1 then s\<lparr>g_rtc_alarm1 := (g_rtc_alarm1 s)(2 := v)\<rparr> else s)
     else if c = 0x50 then (if pos \<le> 3 then s\<lparr>g_rtc_alarm2 := (g_rtc_alarm2 s)(pos - 1 := v)\<rparr> else s)
     else if c = 0x30 then (if pos = 1 then s\<lparr>g_rtc_clock_adjust := v\<rparr> else s)
     else if c = 0x70 then (if pos = 1 then s\<lparr>g_rtc_free := v\<rparr> else s)
     else s)"

section \<open>Serial port\<close>

definition rtc_rev :: "u8 list" where
  "rtc_rev = [0x06, 0x86, 0x46, 0xC6, 0x26, 0xA6, 0x66, 0xE6, 0x16, 0x96, 0x56, 0xD6, 0x36, 0xB6, 0x76, 0xF6]"

definition rtc_byte_in :: "u8 \<Rightarrow> 'a rtc_scheme \<Rightarrow> 'a rtc_scheme" where
  "rtc_byte_in v s =
    (if g_rtc_inpos s = 0
     then let s = s\<lparr>g_rtc_cmd := (if v AND 0xF0 = 0x60 then rtc_rev ! unat (v AND 0xF) else v)\<rparr> in
       if g_rtc_cmd s AND 0x80 \<noteq> 0 then rtc_cmd_read s else s
     else rtc_cmd_write v s)"

definition rtc_read :: "'a rtc_scheme \<Rightarrow> u16" where "rtc_read s = g_rtc_io s"

definition rtc_write :: "u16 \<Rightarrow> bool \<Rightarrow> 'a rtc_scheme \<Rightarrow> 'a rtc_scheme" where
  "rtc_write val byte s =
    (let val = (if byte then val OR (g_rtc_io s AND 0xFF00) else val);
         s = (if val AND 0x0004 \<noteq> 0 then
                if g_rtc_io s AND 0x0004 = 0 then
                  s\<lparr>g_rtc_input := 0, g_rtc_inbit := 0, g_rtc_inpos := 0, g_rtc_output := (\<lambda>_. 0),
                    g_rtc_outbit := 0, g_rtc_outpos := 0\<rparr>
                else if val AND 0x0002 = 0 then
                  if val AND 0x0010 \<noteq> 0 then
                    let s = (if val AND 0x0001 \<noteq> 0
                             then s\<lparr>g_rtc_input := g_rtc_input s OR push_bit (g_rtc_inbit s) 1\<rparr> else s);
                        s = s\<lparr>g_rtc_inbit := g_rtc_inbit s + 1\<rparr> in
                    if g_rtc_inbit s \<ge> 8
                    then let s = rtc_byte_in (g_rtc_input s) (s\<lparr>g_rtc_inbit := 0\<rparr>)
                         in s\<lparr>g_rtc_input := 0, g_rtc_inpos := g_rtc_inpos s + 1\<rparr>
                    else s
                  else
                    let s = (if g_rtc_output s (g_rtc_outpos s) AND push_bit (g_rtc_outbit s) 1 \<noteq> 0
                             then s\<lparr>g_rtc_io := g_rtc_io s OR 0x0001\<rparr> else s\<lparr>g_rtc_io := g_rtc_io s AND 0xFFFE\<rparr>);
                        s = s\<lparr>g_rtc_outbit := g_rtc_outbit s + 1\<rparr> in
                    if g_rtc_outbit s \<ge> 8
                    then let s = s\<lparr>g_rtc_outbit := 0\<rparr> in
                      if g_rtc_outpos s < 7 then s\<lparr>g_rtc_outpos := g_rtc_outpos s + 1\<rparr> else s
                    else s
                else s
              else s) in
     if val AND 0x0010 \<noteq> 0 then s\<lparr>g_rtc_io := val\<rparr>
     else s\<lparr>g_rtc_io := (g_rtc_io s AND 0x0001) OR (val AND 0xFFFE)\<rparr>)"


section \<open>The civil calendar\<close>

text \<open>The value of a BCD byte, and BCD bytes.\<close>

definition bcd_val :: "u8 \<Rightarrow> nat" where "bcd_val v = 10 * (unat v div 16) + unat v mod 16"

definition bcd_ok :: "u8 \<Rightarrow> bool" where "bcd_ok v \<longleftrightarrow> unat v mod 16 \<le> 9 \<and> unat v div 16 \<le> 9"

lemma unat_low_nibble: "unat (v AND 0x0F :: u8) = unat v mod 16"
proof -
  have "v AND 0x0F = take_bit 4 v" by (simp add: take_bit_eq_mask mask_eq_exp_minus_1)
  then have "unat (v AND 0x0F) = take_bit 4 (unat v)" by (simp only: unsigned_take_bit_eq)
  then show ?thesis by (simp add: take_bit_eq_mod)
qed

lemma unat_high_nibble: "unat (v AND 0xF0 :: u8) = unat v - unat v mod 16"
proof -
  have "(0xF0 :: u8) = NOT (mask 4)" by (simp add: mask_eq_exp_minus_1)
  moreover have "(v AND NOT (mask 4)) + (v AND mask 4) = v"
  proof -
    have "(v AND NOT (mask 4)) AND (v AND mask 4) = 0" "(v AND NOT (mask 4)) OR (v AND mask 4) = v"
      by (auto intro!: bit_word_eqI simp: bit_simps)
    then show ?thesis using word_plus_and_or [of "v AND NOT (mask 4)" "v AND mask 4"] by simp
  qed
  moreover have "mask 4 = (0x0F :: u8)" by (simp add: mask_eq_exp_minus_1)
  ultimately have "(v AND 0xF0) + (v AND 0x0F) = v" by metis
  then have "v AND 0xF0 = v - (v AND 0x0F)" by (simp add: eq_diff_eq)
  moreover have "v AND 0x0F \<le> v" by (simp add: word_le_nat_alt unat_low_nibble)
  ultimately show ?thesis by (simp add: unat_sub unat_low_nibble)
qed

lemma bcd_digits:
  assumes "bcd_ok v"
  obtains h l where "unat v = 16 * h + l" "h \<le> 9" "l \<le> 9" "bcd_val v = 10 * h + l"
proof (rule that [of "unat v div 16" "unat v mod 16"])
  show "unat v = 16 * (unat v div 16) + unat v mod 16" by simp
qed (use assms in \<open>auto simp: bcd_ok_def bcd_val_def\<close>)

lemma bcd_of_digits:
  assumes "unat v = 16 * h + l" "l \<le> 9"
  shows "bcd_val v = 10 * h + l" "bcd_ok v \<longleftrightarrow> h \<le> 9"
  using assms by (simp_all add: bcd_val_def bcd_ok_def)

lemma bcd_increment:
  assumes "bcd_ok v"
  shows "bcd_ok (rtc_bcd_increment v)" "bcd_val (rtc_bcd_increment v) = (bcd_val v + 1) mod 100"
proof -
  obtain h l where n: "unat v = 16 * h + l" "h \<le> 9" "l \<le> 9" and val: "bcd_val v = 10 * h + l"
    using bcd_digits [OF assms] .
  have a: "unat (v + 1) = 16 * h + (l + 1)" using n by (simp add: unat_word_ariths)
  have m: "unat (v + 1) mod 16 = l + 1" unfolding a using n by (simp del: Suc_eq_plus1)
  define w where "w = (if v + 1 AND 0x0F \<ge> 0x0A then v + 1 + 0x06 else v + 1)"
  have w: "unat w = (if l = 9 then 16 * (h + 1) else 16 * h + (l + 1))"
    using n a m by (auto simp: w_def word_le_nat_alt unat_low_nibble unat_word_ariths)
  have wm: "unat w - unat w mod 16 = (if l = 9 then 16 * (h + 1) else 16 * h)"
    unfolding w using n by (simp del: Suc_eq_plus1)
  have u: "unat (rtc_bcd_increment v) = (if h = 9 \<and> l = 9 then 0 else unat w)"
  proof -
    have "rtc_bcd_increment v = (if w AND 0xF0 \<ge> 0xA0 then w + 0x60 else w)"
      by (simp add: rtc_bcd_increment_def w_def Let_def)
    moreover have "w AND 0xF0 \<ge> 0xA0 \<longleftrightarrow> h = 9 \<and> l = 9"
      using n by (auto simp: word_le_nat_alt unat_high_nibble wm)
    ultimately show ?thesis using w by (auto simp: unat_word_ariths)
  qed
  consider (carry) "h = 9" "l = 9" | (tens) "h < 9" "l = 9" | (units) "l < 9" using n by linarith
  then have "bcd_ok (rtc_bcd_increment v) \<and> bcd_val (rtc_bcd_increment v) = (bcd_val v + 1) mod 100"
  proof cases
    case carry
    then show ?thesis using u val by (simp add: bcd_ok_def bcd_val_def)
  next
    case tens
    then have "unat (rtc_bcd_increment v) = 16 * (h + 1) + 0" using u w by simp
    from bcd_of_digits [OF this] show ?thesis using tens val by simp
  next
    case units
    then have "unat (rtc_bcd_increment v) = 16 * h + (l + 1)" using u w by simp
    from bcd_of_digits [OF this] show ?thesis using units n val by simp
  qed
  then show "bcd_ok (rtc_bcd_increment v)" "bcd_val (rtc_bcd_increment v) = (bcd_val v + 1) mod 100" by auto
qed

lemma bcd_le:
  assumes "bcd_ok a" "bcd_ok b"
  shows "a \<le> b \<longleftrightarrow> bcd_val a \<le> bcd_val b"
proof -
  obtain h l where a: "unat a = 16 * h + l" "h \<le> 9" "l \<le> 9" "bcd_val a = 10 * h + l" using bcd_digits [OF assms(1)] .
  obtain i m where b: "unat b = 16 * i + m" "i \<le> 9" "m \<le> 9" "bcd_val b = 10 * i + m" using bcd_digits [OF assms(2)] .
  consider "h < i" | "h = i" | "i < h" by linarith
  then show ?thesis using a b by cases (simp_all add: word_le_nat_alt)
qed

lemma bcd_less: "bcd_ok a \<Longrightarrow> bcd_ok b \<Longrightarrow> a < b \<longleftrightarrow> bcd_val a < bcd_val b"
  using bcd_le [of b a] by (auto simp: not_le [symmetric])

lemma bcd_eq: "bcd_ok a \<Longrightarrow> bcd_ok b \<Longrightarrow> a = b \<longleftrightarrow> bcd_val a = bcd_val b"
  using bcd_le [of a b] bcd_le [of b a] by auto

lemma bcd_val_less: "bcd_ok v \<Longrightarrow> bcd_val v < 100"
  by (erule bcd_digits) simp

lemma bcd_lit [simp]:
  "bcd_ok 0" "bcd_val 0 = 0" "bcd_ok 1" "bcd_val 1 = 1"
  "bcd_ok (numeral k) \<longleftrightarrow> unat (numeral k :: u8) mod 16 \<le> 9 \<and> unat (numeral k :: u8) div 16 \<le> 9"
  "bcd_val (numeral k) = 10 * (unat (numeral k :: u8) div 16) + unat (numeral k :: u8) mod 16"
  by (simp_all add: bcd_ok_def bcd_val_def)

text \<open>Years are counted from 2000; every fourth one is leap in the range of the register.\<close>

definition month_len :: "nat \<Rightarrow> nat \<Rightarrow> nat" where
  "month_len y m = (if m = 2 then if y mod 4 = 0 then 29 else 28 else if m \<in> {4, 6, 9, 11} then 30 else 31)"

definition day_number :: "nat \<Rightarrow> nat \<Rightarrow> nat \<Rightarrow> nat" where
  "day_number y m d = 365 * y + (y + 3) div 4 + (\<Sum>k\<leftarrow>[1..<m]. month_len y k) + (d - 1)"

lemma day_number_next_month: "1 \<le> m \<Longrightarrow> day_number y m (month_len y m) + 1 = day_number y (m + 1) 1"
  by (simp add: day_number_def month_len_def)

lemma day_number_next_year: "day_number y 12 31 + 1 = day_number (y + 1) 1 1"
proof -
  have "(\<Sum>k\<leftarrow>[1..<12]. month_len y k) = (if y mod 4 = 0 then 335 else 334)"
    by (simp add: upt_rec [of _ 12] month_len_def)
  moreover have "Suc y + 3 = y + 4" "(y + 4) div 4 = (y + 3) div 4 + (if y mod 4 = 0 then 1 else 0)" by presburger+
  ultimately show ?thesis unfolding day_number_def by (simp split: if_splits)
qed


section \<open>One day\<close>

definition rtc_year :: "'a rtc_scheme \<Rightarrow> nat" where "rtc_year s = bcd_val (g_rtc_datetime s 0)"
definition rtc_month :: "'a rtc_scheme \<Rightarrow> nat" where "rtc_month s = bcd_val (g_rtc_datetime s 1)"
definition rtc_day :: "'a rtc_scheme \<Rightarrow> nat" where "rtc_day s = bcd_val (g_rtc_datetime s 2)"

definition date_digits :: "'a rtc_scheme \<Rightarrow> bool" where
  "date_digits s \<longleftrightarrow> bcd_ok (g_rtc_datetime s 0) \<and> bcd_ok (g_rtc_datetime s 1) \<and> bcd_ok (g_rtc_datetime s 2)
     \<and> rtc_month s \<in> {1..12} \<and> rtc_day s \<in> {1..31}"

definition date_ok :: "'a rtc_scheme \<Rightarrow> bool" where
  "date_ok s \<longleftrightarrow> date_digits s \<and> rtc_day s \<le> month_len (rtc_year s) (rtc_month s)"

definition rtc_date :: "'a rtc_scheme \<Rightarrow> nat" where
  "rtc_date s = day_number (rtc_year s) (rtc_month s) (rtc_day s)"

lemma set_dt_fields [simp]:
  "g_rtc_datetime (set_dt i v s) = (g_rtc_datetime s)(i := v)"
  "g_rtc_status1 (set_dt i v s) = g_rtc_status1 s" "g_rtc_status2 (set_dt i v s) = g_rtc_status2 s"
  "g_rtc_irq_flag (set_dt i v s) = g_rtc_irq_flag s" "g_rtc_clock_count (set_dt i v s) = g_rtc_clock_count s"
  "g_rtc_alarm1 (set_dt i v s) = g_rtc_alarm1 s" "g_rtc_alarm2 (set_dt i v s) = g_rtc_alarm2 s"
  by (simp_all add: set_dt_def)

lemmas ymd = rtc_year_def rtc_month_def rtc_day_def

lemma month_len_bounds: "28 \<le> month_len y m" "month_len y m \<le> 31"
  by (auto simp: month_len_def)

lemma days_in_month_exact:
  assumes "bcd_ok (g_rtc_datetime s 0)" "bcd_ok (g_rtc_datetime s 1)" "rtc_month s \<in> {1..12}"
  shows "bcd_ok (rtc_days_in_month s)" "bcd_val (rtc_days_in_month s) = month_len (rtc_year s) (rtc_month s)"
proof -
  let ?y = "g_rtc_datetime s 0" and ?m = "g_rtc_datetime s 1"
  obtain h l where y: "unat ?y = 16 * h + l" "h \<le> 9" "l \<le> 9" "bcd_val ?y = 10 * h + l" using bcd_digits [OF assms(1)] .
  have "unat (drop_bit 4 ?y) = h" using y by (simp add: drop_bit_eq_div unat_div_distrib)
  then have yr: "unat (ucast (?y AND 0x0F) + 10 * ucast (drop_bit 4 ?y) :: u32) = rtc_year s"
    using y by (simp add: unat_word_ariths unat_low_nibble ymd unsigned_ucast_eq take_bit_nat_eq_self)
  have leap: "(ucast (?y AND 0x0F) + 10 * ucast (drop_bit 4 ?y) :: u32) AND 3 = 0 \<longleftrightarrow> rtc_year s mod 4 = 0"
    using unat_and_mask [of "ucast (?y AND 0x0F) + 10 * ucast (drop_bit 4 ?y)" 2]
    by (simp add: mask_eq_exp_minus_1 yr unat_eq_0 [symmetric])
  have lit: "?m = 1 \<longleftrightarrow> rtc_month s = 1" "?m = 2 \<longleftrightarrow> rtc_month s = 2" "?m = 3 \<longleftrightarrow> rtc_month s = 3"
    "?m = 4 \<longleftrightarrow> rtc_month s = 4" "?m = 5 \<longleftrightarrow> rtc_month s = 5" "?m = 6 \<longleftrightarrow> rtc_month s = 6"
    "?m = 7 \<longleftrightarrow> rtc_month s = 7" "?m = 8 \<longleftrightarrow> rtc_month s = 8" "?m = 9 \<longleftrightarrow> rtc_month s = 9"
    "?m = 0x10 \<longleftrightarrow> rtc_month s = 10" "?m = 0x11 \<longleftrightarrow> rtc_month s = 11" "?m = 0x12 \<longleftrightarrow> rtc_month s = 12"
    by (simp_all add: bcd_eq [OF assms(2)] ymd del: One_nat_def) (simp add: eval_nat_numeral)
  have m: "rtc_month s \<in> {1, 3, 5, 7, 8, 10, 12} \<or> rtc_month s \<in> {4, 6, 9, 11} \<or> rtc_month s = 2"
    using assms(3) by simp presburger
  have r: "rtc_days_in_month s = (let m = rtc_month s in if m \<in> {1, 3, 5, 7, 8, 10, 12} then 0x31
     else if m \<in> {4, 6, 9, 11} then 0x30 else if rtc_year s mod 4 = 0 then 0x29 else 0x28)"
    using m unfolding rtc_days_in_month_def Let_def insert_iff empty_iff lit leap by auto
  from m show "bcd_ok (rtc_days_in_month s)" "bcd_val (rtc_days_in_month s) = month_len (rtc_year s) (rtc_month s)"
    unfolding r Let_def by (auto simp: month_len_def)
qed

lemma count_month:
  assumes "bcd_ok (g_rtc_datetime s 0)" "bcd_ok (g_rtc_datetime s 1)" "rtc_month s \<in> {1..12}"
  shows "bcd_ok (g_rtc_datetime (rtc_count_month s) 0)" "bcd_ok (g_rtc_datetime (rtc_count_month s) 1)"
    "rtc_month (rtc_count_month s) = (if rtc_month s = 12 then 1 else rtc_month s + 1)"
    "rtc_year (rtc_count_month s) = (if rtc_month s = 12 then (rtc_year s + 1) mod 100 else rtc_year s)"
proof -
  have c: "rtc_bcd_increment (g_rtc_datetime s 1) > 0x12 \<longleftrightarrow> rtc_month s = 12"
    using assms by (auto simp: bcd_less bcd_increment ymd)
  show "bcd_ok (g_rtc_datetime (rtc_count_month s) 0)" "bcd_ok (g_rtc_datetime (rtc_count_month s) 1)"
    "rtc_month (rtc_count_month s) = (if rtc_month s = 12 then 1 else rtc_month s + 1)"
    "rtc_year (rtc_count_month s) = (if rtc_month s = 12 then (rtc_year s + 1) mod 100 else rtc_year s)"
    using assms c by (auto simp: rtc_count_month_def rtc_count_year_def Let_def bcd_increment ymd)
qed

lemma count_frame:
  "g_rtc_datetime (rtc_count_month s) i = g_rtc_datetime s i \<or> i < 2"
  "g_rtc_datetime (rtc_check_end_of_month s) i = g_rtc_datetime s i \<or> i < 3"
  "g_rtc_datetime (rtc_count_day s) i = g_rtc_datetime s i \<or> i < 4"
  by (auto simp: rtc_count_month_def rtc_count_year_def rtc_check_end_of_month_def rtc_count_day_def Let_def)

lemma day_number_bound:
  assumes "y < 100" "m \<in> {1..12}" "d \<le> month_len y m" "1 \<le> d"
  shows "day_number y m d < 36525"
proof -
  let ?s = "\<lambda>k. \<Sum>i\<leftarrow>[1..<k]. month_len y i"
  have "?s 13 = ?s (m + 1) + (\<Sum>i\<leftarrow>[m + 1..<13]. month_len y i)"
    using assms(2) upt_add_eq_append [of 1 "m + 1" "12 - m"] by simp
  moreover have "?s 13 = (if y mod 4 = 0 then 366 else 365)"
    by (simp add: upt_rec [of _ 13] month_len_def)
  moreover have "?s (m + 1) = ?s m + month_len y m" using assms(2) by simp
  ultimately have "?s m + d \<le> (if y mod 4 = 0 then 366 else 365)" using assms(3) by linarith
  then have "day_number y m d < 365 * y + (y + 3) div 4 + (if y mod 4 = 0 then 366 else 365)"
    using assms(4) unfolding day_number_def by linarith
  also have "365 * y + (y + 3) div 4 + (if y mod 4 = 0 then 366 else 365) \<le> (36525 :: nat)"
    using assms(1) by (cases "y = 99") auto
  finally show ?thesis .
qed

lemma count_day_date:
  assumes "date_ok s"
  shows "date_ok (rtc_count_day s)" "rtc_date (rtc_count_day s) = (rtc_date s + 1) mod 36525"
proof -
  let ?y = "rtc_year s" and ?m = "rtc_month s" and ?d = "rtc_day s"
  have ok: "bcd_ok (g_rtc_datetime s 0)" "bcd_ok (g_rtc_datetime s 1)" "bcd_ok (g_rtc_datetime s 2)"
    "?m \<in> {1..12}" "1 \<le> ?d" "?d \<le> month_len ?y ?m" "?y < 100"
    using assms by (auto simp: date_ok_def date_digits_def ymd bcd_val_less)
  define t where "t = set_dt 2 (rtc_bcd_increment (g_rtc_datetime s 2))
    (let s = set_dt 3 (g_rtc_datetime s 3 + 1) s in if g_rtc_datetime s 3 \<ge> 7 then set_dt 3 0 s else s)"
  have day: "rtc_count_day s = rtc_check_end_of_month t" by (simp add: rtc_count_day_def t_def Let_def)
  have t: "g_rtc_datetime t 0 = g_rtc_datetime s 0" "g_rtc_datetime t 1 = g_rtc_datetime s 1"
    "g_rtc_datetime t 2 = rtc_bcd_increment (g_rtc_datetime s 2)" by (simp_all add: t_def Let_def)
  then have td: "rtc_year t = ?y" "rtc_month t = ?m" "rtc_day t = ?d + 1" "bcd_ok (g_rtc_datetime t 2)"
    using ok month_len_bounds [of ?y ?m] by (simp_all add: ymd bcd_increment)
  have tm: "bcd_ok (g_rtc_datetime t 0)" "bcd_ok (g_rtc_datetime t 1)" "rtc_month t \<in> {1..12}"
    using ok td t by simp_all
  note dim = days_in_month_exact [OF tm]
  have over: "g_rtc_datetime t 2 > rtc_days_in_month t \<longleftrightarrow> ?d = month_len ?y ?m"
    using bcd_less [OF dim(1) td(4)] dim(2) td ok(6) by (auto simp: ymd)
  have "date_ok (rtc_count_day s) \<and> rtc_date (rtc_count_day s) = (rtc_date s + 1) mod 36525"
  proof (cases "?d = month_len ?y ?m")
    case False
    then have e: "rtc_count_day s = t" using over day by (simp add: rtc_check_end_of_month_def)
    have le: "?d + 1 \<le> month_len ?y ?m" using False ok by simp
    have "rtc_date t = rtc_date s + 1" using ok(5) by (simp add: rtc_date_def td day_number_def)
    moreover have "rtc_date t < 36525" using day_number_bound [OF ok(7,4) le] by (simp add: rtc_date_def td)
    ultimately have "rtc_date t = (rtc_date s + 1) mod 36525" by simp
    moreover have "date_ok t" using tm td le ok month_len_bounds [of ?y ?m] by (auto simp: date_ok_def date_digits_def)
    ultimately show ?thesis using e by simp
  next
    case True
    then have e: "rtc_count_day s = rtc_count_month (set_dt 2 1 t)" (is "_ = ?u")
      using over day by (simp add: rtc_check_end_of_month_def)
    have pre: "bcd_ok (g_rtc_datetime (set_dt 2 1 t) 0)" "bcd_ok (g_rtc_datetime (set_dt 2 1 t) 1)"
      "rtc_month (set_dt 2 1 t) \<in> {1..12}" using tm by (simp_all add: ymd)
    note cm = count_month [OF pre]
    have u: "rtc_year ?u = (if ?m = 12 then (?y + 1) mod 100 else ?y)" "rtc_month ?u = (if ?m = 12 then 1 else ?m + 1)"
      using cm(3,4) td by (simp_all add: ymd)
    have g2: "g_rtc_datetime ?u 2 = 1" using count_frame(1) [of "set_dt 2 1 t" 2] by simp
    then have u2: "rtc_day ?u = 1" by (simp add: ymd)
    have "date_ok ?u" using cm(1,2) g2 u u2 ok month_len_bounds [of "rtc_year ?u" "rtc_month ?u"]
      by (auto simp: date_ok_def date_digits_def)
    moreover have "rtc_date ?u = (rtc_date s + 1) mod 36525"
    proof (cases "?m = 12")
      case False
      then have "rtc_date ?u = rtc_date s + 1"
        using day_number_next_month [of ?m ?y] ok True by (simp add: rtc_date_def u u2)
      moreover have "rtc_date ?u < 36525"
        using False ok month_len_bounds [of ?y "?m + 1"] by (auto simp: rtc_date_def u u2 intro!: day_number_bound)
      ultimately show ?thesis by simp
    next
      case dec: True
      have s: "rtc_date s + 1 = day_number (?y + 1) 1 1"
        using day_number_next_year [of ?y] dec True by (simp add: rtc_date_def month_len_def)
      show ?thesis
      proof (cases "?y = 99")
        case True
        then show ?thesis unfolding s using dec by (simp add: rtc_date_def u u2 day_number_def)
      next
        case False
        then have "day_number (?y + 1) 1 1 < 36525" using ok(7) by (intro day_number_bound) (auto simp: month_len_def)
        then show ?thesis unfolding s using dec False ok(7) by (simp add: rtc_date_def u u2)
      qed
    qed
    ultimately show ?thesis using e by simp
  qed
  then show "date_ok (rtc_count_day s)" "rtc_date (rtc_count_day s) = (rtc_date s + 1) mod 36525" by auto
qed

section \<open>One second\<close>

definition hour_bits :: "'a rtc_scheme \<Rightarrow> nat" where "hour_bits s = bcd_val (g_rtc_datetime s 4 AND 0x3F)"

definition mode_24 :: "'a rtc_scheme \<Rightarrow> bool" where "mode_24 s \<longleftrightarrow> g_rtc_status1 s AND 0x02 \<noteq> 0"

definition hour_ok :: "'a rtc_scheme \<Rightarrow> bool" where
  "hour_ok s \<longleftrightarrow> g_rtc_datetime s 4 AND 0x80 = 0 \<and> bcd_ok (g_rtc_datetime s 4 AND 0x3F)
     \<and> hour_bits s < (if mode_24 s then 24 else 12)"

text \<open>The hour of the day in either mode, and the seconds since the start of 2000.\<close>

definition rtc_hour :: "'a rtc_scheme \<Rightarrow> nat" where
  "rtc_hour s = (if mode_24 s then hour_bits s else hour_bits s + (if g_rtc_datetime s 4 AND 0x40 \<noteq> 0 then 12 else 0))"

definition rtc_seconds :: "'a rtc_scheme \<Rightarrow> nat" where
  "rtc_seconds s = ((rtc_date s * 24 + rtc_hour s) * 60 + bcd_val (g_rtc_datetime s 5)) * 60 + bcd_val (g_rtc_datetime s 6)"

definition rtc_clock_ok :: "'a rtc_scheme \<Rightarrow> bool" where
  "rtc_clock_ok s \<longleftrightarrow> date_ok s \<and> g_rtc_datetime s 3 \<le> 6 \<and> hour_ok s
     \<and> bcd_ok (g_rtc_datetime s 5) \<and> bcd_val (g_rtc_datetime s 5) < 60
     \<and> bcd_ok (g_rtc_datetime s 6) \<and> bcd_val (g_rtc_datetime s 6) < 60"

lemma hour_pm:
  assumes "h \<le> 0x3F" "pm = 0 \<or> pm = 0x40"
  shows "(h OR pm) AND 0x3F = (h :: u8)" "(h OR pm) AND 0x40 = pm" "(h OR pm) AND 0x80 = 0"
proof -
  have "unat (take_bit 6 h) = unat h"
    using assms(1) by (simp add: unsigned_take_bit_eq take_bit_nat_eq_self word_le_nat_alt)
  then have "take_bit 6 h = h" by (rule unsigned_word_eqI)
  then have h: "h = h AND 0x3F" by (simp add: take_bit_eq_mask mask_eq_exp_minus_1)
  have 1: "h AND 0x40 = 0" "h AND 0x80 = 0" by (subst h, simp add: and.assoc)+
  show "(h OR pm) AND 0x3F = h" "(h OR pm) AND 0x40 = pm" "(h OR pm) AND 0x80 = 0"
    using assms(2) 1 h by (auto simp: bit.conj_disj_distrib2)
qed

lemma and_0x40: "(x :: u8) AND 0x40 = (if bit x 6 then 0x40 else 0)"
proof (rule bit_word_eqI)
  fix n
  show "bit (x AND 0x40) n = bit (if bit x 6 then 0x40 else 0 :: u8) n"
    by (cases "bit x 6") (auto simp only: bit_and_iff bitlit6 bit_0_eq if_True if_False bot_fun_def bot_bool_def)
qed

lemma mixed_radix:
  assumes "b < k" "a < (n :: nat)"
  shows "(a * k + b + 1) mod (n * k) = (if b + 1 = k then (a + 1) mod n * k else a * k + (b + 1))"
proof (cases "b + 1 = k")
  case True
  then have "a * k + b + 1 = (a + 1) * k" by simp
  then have "(a * k + b + 1) mod (n * k) = (a + 1) mod n * k" by (simp only: mult_mod_left)
  then show ?thesis using True by simp
next
  case False
  then have "a * k + (b + 1) < (a + 1) * k" using assms(1) by simp
  also have "\<dots> \<le> n * k" using assms(2) by (intro mult_le_mono1) simp
  finally show ?thesis using False by (simp add: add.assoc)
qed

lemma rtc_date_bound: "date_ok s \<Longrightarrow> rtc_date s < 36525"
  unfolding rtc_date_def
  by (rule day_number_bound) (auto simp: date_ok_def date_digits_def ymd bcd_val_less)

lemma count_day_weekday:
  "g_rtc_datetime s 3 \<le> 6 \<Longrightarrow> unat (g_rtc_datetime (rtc_count_day s) 3) = (unat (g_rtc_datetime s 3) + 1) mod 7"
proof -
  assume a: "g_rtc_datetime s 3 \<le> 6"
  have c: "g_rtc_datetime (rtc_check_end_of_month u) 3 = g_rtc_datetime u 3" for u :: "'a rtc_scheme"
    using count_frame(2) [of u 3] by simp
  show ?thesis using a by (auto simp: rtc_count_day_def Let_def c word_le_nat_alt unat_word_ariths)
qed

lemma count_day_keeps [simp]:
  "g_rtc_status1 (rtc_count_day s) = g_rtc_status1 s" "g_rtc_datetime (rtc_count_day s) 4 = g_rtc_datetime s 4"
  "g_rtc_datetime (rtc_count_day s) 5 = g_rtc_datetime s 5" "g_rtc_datetime (rtc_count_day s) 6 = g_rtc_datetime s 6"
  using count_frame(3) [of s 4] count_frame(3) [of s 5] count_frame(3) [of s 6]
  by (auto simp: rtc_count_day_def rtc_check_end_of_month_def rtc_count_month_def rtc_count_year_def Let_def)

text \<open>Whether the day changes, the registers below the hour, and the total of hours.\<close>

lemma count_hour_cases:
  assumes "hour_ok s"
  obtains h pm where "rtc_count_hour s = set_dt 4 (h OR pm) (if rtc_hour s = 23 then rtc_count_day s else s)"
    "bcd_ok h" "h \<le> 0x3F" "pm = 0 \<or> pm = 0x40" "bcd_val h < (if mode_24 s then 24 else 12)"
    "(if mode_24 s then bcd_val h else bcd_val h + (if pm \<noteq> 0 then 12 else 0)) = (rtc_hour s + 1) mod 24"
proof -
  let ?r = "g_rtc_datetime s 4" and ?i = "rtc_bcd_increment (g_rtc_datetime s 4 AND 0x3F)"
  have ok: "bcd_ok (?r AND 0x3F)" "bcd_val (?r AND 0x3F) < (if mode_24 s then 24 else 12)"
    using assms by (auto simp: hour_ok_def hour_bits_def)
  have val: "bcd_val ?i = bcd_val (?r AND 0x3F) + 1" using ok by (simp add: bcd_increment split: if_splits)
  have iok: "bcd_ok ?i" using ok by (simp add: bcd_increment)
  have ge: "?i \<ge> 0x24 \<longleftrightarrow> bcd_val (?r AND 0x3F) \<ge> 23" "?i \<ge> 0x12 \<longleftrightarrow> bcd_val (?r AND 0x3F) \<ge> 11"
    using bcd_le [OF _ iok, of "0x24"] bcd_le [OF _ iok, of "0x12"] val by simp_all
  have small: "bcd_val (?r AND 0x3F) < 23 \<Longrightarrow> ?i \<le> 0x3F"
    using bcd_le [OF iok, of "0x39"] val by (auto intro: order_trans [of ?i "0x39"])
  have pmr: "?r AND 0x40 = 0 \<or> ?r AND 0x40 = 0x40"
    by (simp add: and_0x40)
  show thesis
  proof (cases "mode_24 s")
    case m: True
    show ?thesis
    proof (cases "rtc_hour s = 23")
      case True
      then show ?thesis using m ok ge
        by (intro that [of 0 0]) (auto simp: rtc_count_hour_def Let_def rtc_hour_def hour_bits_def mode_24_def)
    next
      case False
      then have "bcd_val (?r AND 0x3F) < 23" using m ok by (simp add: rtc_hour_def hour_bits_def)
      then show ?thesis using m ge val iok small False
        by (intro that [of ?i "if ?i \<ge> 0x12 then 0x40 else 0"])
          (auto simp: rtc_count_hour_def Let_def rtc_hour_def hour_bits_def mode_24_def)
    qed
  next
    case m: False
    show ?thesis
    proof (cases "bcd_val (?r AND 0x3F) = 11")
      case True
      then show ?thesis using m ok ge pmr
        by (intro that [of 0 "(?r AND 0x40) XOR 0x40"])
          (auto simp: rtc_count_hour_def Let_def rtc_hour_def hour_bits_def mode_24_def)
    next
      case False
      then show ?thesis using m ok ge val iok small pmr
        by (intro that [of ?i "?r AND 0x40"])
          (auto simp: rtc_count_hour_def Let_def rtc_hour_def hour_bits_def mode_24_def)
    qed
  qed
qed

lemma ymd_other [simp]:
  "i \<notin> {0, 1, 2} \<Longrightarrow> rtc_year (set_dt i v s) = rtc_year s" "i \<notin> {0, 1, 2} \<Longrightarrow> rtc_month (set_dt i v s) = rtc_month s"
  "i \<notin> {0, 1, 2} \<Longrightarrow> rtc_day (set_dt i v s) = rtc_day s"
  by (simp_all add: ymd)

lemma count_hour:
  assumes "hour_ok s" "date_ok s" "g_rtc_datetime s 3 \<le> 6"
  shows "hour_ok (rtc_count_hour s)" "date_ok (rtc_count_hour s)"
    "rtc_date (rtc_count_hour s) * 24 + rtc_hour (rtc_count_hour s) = (rtc_date s * 24 + rtc_hour s + 1) mod (36525 * 24)"
    "unat (g_rtc_datetime (rtc_count_hour s) 3) = (if rtc_hour s = 23 then (unat (g_rtc_datetime s 3) + 1) mod 7
       else unat (g_rtc_datetime s 3))"
proof -
  obtain h pm where e: "rtc_count_hour s = set_dt 4 (h OR pm) (if rtc_hour s = 23 then rtc_count_day s else s)"
    and h: "bcd_ok h" "h \<le> 0x3F" "pm = 0 \<or> pm = 0x40" "bcd_val h < (if mode_24 s then 24 else 12)"
    and v: "(if mode_24 s then bcd_val h else bcd_val h + (if pm \<noteq> 0 then 12 else 0)) = (rtc_hour s + 1) mod 24"
    using count_hour_cases [OF assms(1)] .
  note hp = hour_pm [OF h(2,3)]
  have m: "mode_24 (rtc_count_hour s) = mode_24 s" by (simp add: e mode_24_def)
  have hb: "hour_bits (rtc_count_hour s) = bcd_val h" by (simp add: e hour_bits_def hp)
  have g4: "g_rtc_datetime (rtc_count_hour s) 4 = h OR pm" by (simp add: e)
  show "hour_ok (rtc_count_hour s)" by (simp add: hour_ok_def m hb g4 hp h del: One_nat_def split del: if_split)
  have ymd': "rtc_year (rtc_count_hour s) = rtc_year (if rtc_hour s = 23 then rtc_count_day s else s)"
    "rtc_month (rtc_count_hour s) = rtc_month (if rtc_hour s = 23 then rtc_count_day s else s)"
    "rtc_day (rtc_count_hour s) = rtc_day (if rtc_hour s = 23 then rtc_count_day s else s)"
    by (simp_all add: e ymd)
  show "date_ok (rtc_count_hour s)"
    using assms(2) count_day_date(1) [OF assms(2)] by (simp add: date_ok_def date_digits_def e)
  have date: "rtc_date (rtc_count_hour s) = (if rtc_hour s = 23 then (rtc_date s + 1) mod 36525 else rtc_date s)"
    using count_day_date(2) [OF assms(2)] by (simp add: rtc_date_def ymd')
  have hour: "rtc_hour (rtc_count_hour s) = (rtc_hour s + 1) mod 24"
    using v by (cases "mode_24 s") (simp_all add: rtc_hour_def m hb g4 hp)
  have lt: "rtc_hour s < 24" using assms(1) by (auto simp: rtc_hour_def hour_ok_def split: if_splits)
  show "rtc_date (rtc_count_hour s) * 24 + rtc_hour (rtc_count_hour s) = (rtc_date s * 24 + rtc_hour s + 1) mod (36525 * 24)"
    unfolding mixed_radix [OF lt rtc_date_bound [OF assms(2)]] date hour using lt by simp
  show "unat (g_rtc_datetime (rtc_count_hour s) 3) = (if rtc_hour s = 23 then (unat (g_rtc_datetime s 3) + 1) mod 7
       else unat (g_rtc_datetime s 3))"
    using count_day_weekday [OF assms(3)] by (simp add: e)
qed

lemma count_hour_keeps [simp]:
  "g_rtc_datetime (rtc_count_hour s) 5 = g_rtc_datetime s 5" "g_rtc_datetime (rtc_count_hour s) 6 = g_rtc_datetime s 6"
  "g_rtc_status1 (rtc_count_hour s) = g_rtc_status1 s"
  by (simp_all add: rtc_count_hour_def Let_def)

lemma raise_irq_rtc [simp]:
  "g_rtc_datetime (nds_raise_irq p b s) = g_rtc_datetime s" "g_rtc_status1 (nds_raise_irq p b s) = g_rtc_status1 s"
  "g_rtc_status2 (nds_raise_irq p b s) = g_rtc_status2 s" "g_rtc_irq_flag (nds_raise_irq p b s) = g_rtc_irq_flag s"
  "g_rtc_clock_count (nds_raise_irq p b s) = g_rtc_clock_count s"
  "g_rtc_processed_ticks (nds_raise_irq p b s) = g_rtc_processed_ticks s"
  by (simp_all add: nds_raise_irq_def irq_recompute_def runtime_clear_fast_limit_def)

lemma irq_keeps_clock [simp]:
  "g_rtc_datetime (rtc_set_irq b s) = g_rtc_datetime s" "g_rtc_datetime (rtc_clear_irq b s) = g_rtc_datetime s"
  "g_rtc_clock_count (rtc_set_irq b s) = g_rtc_clock_count s" "g_rtc_clock_count (rtc_clear_irq b s) = g_rtc_clock_count s"
  "g_rtc_processed_ticks (rtc_set_irq b s) = g_rtc_processed_ticks s"
  "g_rtc_processed_ticks (rtc_clear_irq b s) = g_rtc_processed_ticks s"
  "g_rtc_status2 (rtc_set_irq b s) = g_rtc_status2 s" "g_rtc_status2 (rtc_clear_irq b s) = g_rtc_status2 s"
  "mode_24 (rtc_set_irq 0x10 s) = mode_24 s" "mode_24 (rtc_set_irq 0x20 s) = mode_24 s" "mode_24 (rtc_clear_irq b s) = mode_24 s"
  by (simp_all add: rtc_set_irq_def rtc_clear_irq_def Let_def mode_24_def bit.conj_disj_distrib2)

lemma process_irq1_keeps_clock:
  "g_rtc_datetime (rtc_process_irq1 k s) = g_rtc_datetime s"
  "g_rtc_clock_count (rtc_process_irq1 k s) = g_rtc_clock_count s"
  "g_rtc_processed_ticks (rtc_process_irq1 k s) = g_rtc_processed_ticks s"
  "g_rtc_status2 (rtc_process_irq1 k s) = g_rtc_status2 s" "mode_24 (rtc_process_irq1 k s) = mode_24 s"
  by (simp_all only: rtc_process_irq1_def Let_def if_distrib [of g_rtc_datetime] if_distrib [of mode_24]
      if_distrib [of g_rtc_clock_count] if_distrib [of g_rtc_processed_ticks] if_distrib [of g_rtc_status2]
      irq_keeps_clock if_cancel)

lemma process_irq_keeps_clock [simp]:
  "g_rtc_datetime (rtc_process_irq k s) = g_rtc_datetime s"
  "g_rtc_clock_count (rtc_process_irq k s) = g_rtc_clock_count s"
  "g_rtc_processed_ticks (rtc_process_irq k s) = g_rtc_processed_ticks s"
  "mode_24 (rtc_process_irq k s) = mode_24 s"
  by (simp_all add: rtc_process_irq_def process_irq1_keeps_clock Let_def)

text \<open>Everything the clock state depends on.\<close>

lemma clock_cong:
  assumes "g_rtc_datetime t = g_rtc_datetime s" "mode_24 t = mode_24 s"
  shows "date_ok t = date_ok s" "rtc_date t = rtc_date s" "hour_ok t = hour_ok s" "rtc_hour t = rtc_hour s"
    "rtc_clock_ok t = rtc_clock_ok s" "rtc_seconds t = rtc_seconds s"
  using assms by (simp_all add: date_ok_def date_digits_def ymd rtc_date_def hour_ok_def hour_bits_def rtc_hour_def
      rtc_clock_ok_def rtc_seconds_def)

lemma clock_low [simp]:
  assumes "i = 5 \<or> i = 6"
  shows "date_ok (set_dt i v s) = date_ok s" "rtc_date (set_dt i v s) = rtc_date s" "hour_ok (set_dt i v s) = hour_ok s"
    "rtc_hour (set_dt i v s) = rtc_hour s"
  using assms by (auto simp: date_ok_def date_digits_def ymd rtc_date_def hour_ok_def hour_bits_def rtc_hour_def mode_24_def)

lemma count_minute:
  assumes "date_ok s" "hour_ok s" "g_rtc_datetime s 3 \<le> 6" "bcd_ok (g_rtc_datetime s 5)" "bcd_val (g_rtc_datetime s 5) < 60"
  shows "date_ok (rtc_count_minute s)" "hour_ok (rtc_count_minute s)" "bcd_ok (g_rtc_datetime (rtc_count_minute s) 5)"
    "bcd_val (g_rtc_datetime (rtc_count_minute s) 5) < 60" "g_rtc_datetime (rtc_count_minute s) 6 = g_rtc_datetime s 6"
    "(rtc_date (rtc_count_minute s) * 24 + rtc_hour (rtc_count_minute s)) * 60 + bcd_val (g_rtc_datetime (rtc_count_minute s) 5)
      = ((rtc_date s * 24 + rtc_hour s) * 60 + bcd_val (g_rtc_datetime s 5) + 1) mod (36525 * 24 * 60)"
    "unat (g_rtc_datetime (rtc_count_minute s) 3) =
      (if rtc_hour s = 23 \<and> bcd_val (g_rtc_datetime s 5) = 59 then (unat (g_rtc_datetime s 3) + 1) mod 7
       else unat (g_rtc_datetime s 3))"
proof -
  let ?i = "rtc_bcd_increment (g_rtc_datetime s 5)" and ?v = "bcd_val (g_rtc_datetime s 5)"
  define u where "u = (if ?v = 59 then rtc_count_hour (set_dt 5 0 s) else set_dt 5 ?i s)"
  have ge: "?i \<ge> 0x60 \<longleftrightarrow> ?v = 59"
    using bcd_le [of "0x60" ?i] assms(4,5) by (simp add: bcd_increment del: One_nat_def) linarith
  have e: "rtc_count_minute s = rtc_process_irq 0 (u\<lparr>g_rtc_irq_flag := g_rtc_irq_flag u OR 0x01\<rparr>)"
    using ge by (simp add: rtc_count_minute_def Let_def u_def set_dt_def)
  have g: "g_rtc_datetime (rtc_count_minute s) = g_rtc_datetime u" "mode_24 (rtc_count_minute s) = mode_24 u"
    by (simp_all add: e mode_24_def [of "_\<lparr>g_rtc_irq_flag := _\<rparr>"]) (simp add: mode_24_def)
  note c = clock_cong [OF g]
  let ?z = "set_dt 5 0 s"
  have z: "hour_ok ?z" "date_ok ?z" "g_rtc_datetime ?z 3 \<le> 6" using assms by simp_all
  note hr = count_hour [OF z]
  have lt: "rtc_date s * 24 + rtc_hour s < 36525 * 24"
    using rtc_date_bound [OF assms(1)] assms(2) by (auto simp: rtc_hour_def hour_ok_def split: if_splits)
  note mr = mixed_radix [OF assms(5) lt]
  show "date_ok (rtc_count_minute s)" "hour_ok (rtc_count_minute s)" using assms hr by (simp_all add: c u_def)
  show "bcd_ok (g_rtc_datetime (rtc_count_minute s) 5)" "bcd_val (g_rtc_datetime (rtc_count_minute s) 5) < 60"
    "g_rtc_datetime (rtc_count_minute s) 6 = g_rtc_datetime s 6"
    using assms by (auto simp: g u_def bcd_increment)
  show "(rtc_date (rtc_count_minute s) * 24 + rtc_hour (rtc_count_minute s)) * 60 + bcd_val (g_rtc_datetime (rtc_count_minute s) 5)
      = ((rtc_date s * 24 + rtc_hour s) * 60 + ?v + 1) mod (36525 * 24 * 60)"
  proof (cases "?v = 59")
    case True
    then show ?thesis unfolding mr c g(1) u_def using hr(3) by simp
  next
    case False
    then show ?thesis unfolding mr c g(1) u_def using assms(4,5) by (simp add: bcd_increment)
  qed
  show "unat (g_rtc_datetime (rtc_count_minute s) 3) = (if rtc_hour s = 23 \<and> ?v = 59 then (unat (g_rtc_datetime s 3) + 1) mod 7
       else unat (g_rtc_datetime s 3))"
    using hr(4) by (simp add: g u_def)
qed

text \<open>
  C11. The clock chip implements the civil calendar. From any registers in range, in 12- or 24-hour
  mode, one counted second is the next second of the calendar of 2000 to 2099 (months, leap days and
  the century wrap included), the registers stay in range, and a weekday register that agrees with
  the calendar, as the host synchronisation sets it, still agrees unless the century wrapped.
  Interrupt processing changes nothing of this.
\<close>

definition weekday_agrees :: "'a rtc_scheme \<Rightarrow> bool" where
  "weekday_agrees s \<longleftrightarrow> unat (g_rtc_datetime s 3) = (6 + rtc_date s) mod 7"

theorem rtc_counts_civil_time:
  assumes "rtc_clock_ok s"
  shows "rtc_clock_ok (rtc_count_second s)
     \<and> rtc_seconds (rtc_count_second s) = (rtc_seconds s + 1) mod (36525 * 86400)
     \<and> (weekday_agrees s \<longrightarrow> rtc_seconds (rtc_count_second s) \<noteq> 0 \<longrightarrow> weekday_agrees (rtc_count_second s))"
proof -
  let ?i = "rtc_bcd_increment (g_rtc_datetime s 6)" and ?v = "bcd_val (g_rtc_datetime s 6)"
  let ?z = "set_dt 6 0 s" and ?n = "rtc_count_second s"
  have ok: "date_ok s" "g_rtc_datetime s 3 \<le> 6" "hour_ok s" "bcd_ok (g_rtc_datetime s 5)" "bcd_val (g_rtc_datetime s 5) < 60"
    "bcd_ok (g_rtc_datetime s 6)" "?v < 60" using assms by (auto simp: rtc_clock_ok_def)
  have ge: "?i \<ge> 0x60 \<longleftrightarrow> ?v = 59"
    using bcd_le [of "0x60" ?i] ok(6,7) by (simp add: bcd_increment del: One_nat_def) linarith
  have e: "?n = (if ?v = 59 then rtc_count_minute ?z else set_dt 6 ?i s)"
    using ge by (simp add: rtc_count_second_def Let_def set_dt_def)
  have z: "date_ok ?z" "hour_ok ?z" "g_rtc_datetime ?z 3 \<le> 6" "bcd_ok (g_rtc_datetime ?z 5)" "bcd_val (g_rtc_datetime ?z 5) < 60"
    using ok by simp_all
  note mi = count_minute [OF z]
  have h24: "rtc_hour s < 24" using ok(3) by (auto simp: rtc_hour_def hour_ok_def split: if_splits)
  let ?M = "(rtc_date s * 24 + rtc_hour s) * 60 + bcd_val (g_rtc_datetime s 5)"
  have lt: "?M < 36525 * 24 * 60" using rtc_date_bound [OF ok(1)] h24 ok(5) by simp
  note mr = mixed_radix [OF ok(7) lt]
  have sec: "rtc_seconds ?n = (rtc_seconds s + 1) mod (36525 * 24 * 60 * 60)"
  proof (cases "?v = 59")
    case True
    then show ?thesis unfolding rtc_seconds_def mr using mi(5,6) by (simp add: e)
  next
    case False
    then show ?thesis unfolding rtc_seconds_def mr using ok(6,7) by (simp add: e bcd_increment)
  qed
  have wd: "unat (g_rtc_datetime ?n 3) = (if rtc_hour s = 23 \<and> bcd_val (g_rtc_datetime s 5) = 59 \<and> ?v = 59
      then (unat (g_rtc_datetime s 3) + 1) mod 7 else unat (g_rtc_datetime s 3))"
    using mi(7) by (simp add: e)
  have "unat (g_rtc_datetime s 3) < 7" using ok(2) by (simp add: word_le_nat_alt)
  then have "unat (g_rtc_datetime ?n 3) < 7" using wd by simp
  then have g3: "g_rtc_datetime ?n 3 \<le> 6" by (simp add: word_le_nat_alt)
  have cok: "rtc_clock_ok ?n"
  proof (cases "?v = 59")
    case True
    then show ?thesis using mi ok g3 by (simp add: rtc_clock_ok_def e)
  next
    case False
    then show ?thesis using ok g3 by (simp add: rtc_clock_ok_def e bcd_increment)
  qed
  have split: "rtc_seconds t div 86400 = rtc_date t \<and> rtc_seconds t mod 86400 =
      (rtc_hour t * 60 + bcd_val (g_rtc_datetime t 5)) * 60 + bcd_val (g_rtc_datetime t 6)" if "rtc_clock_ok t" for t :: "'a rtc_scheme"
  proof -
    have "rtc_hour t < 24" "bcd_val (g_rtc_datetime t 5) < 60" "bcd_val (g_rtc_datetime t 6) < 60"
      using that by (auto simp: rtc_clock_ok_def rtc_hour_def hour_ok_def split: if_splits)
    then have "(rtc_hour t * 60 + bcd_val (g_rtc_datetime t 5)) * 60 + bcd_val (g_rtc_datetime t 6) < 86400" by simp
    moreover have "rtc_seconds t = rtc_date t * 86400 +
        ((rtc_hour t * 60 + bcd_val (g_rtc_datetime t 5)) * 60 + bcd_val (g_rtc_datetime t 6))"
      by (simp add: rtc_seconds_def algebra_simps)
    ultimately show ?thesis by simp
  qed
  have "weekday_agrees ?n" if w: "weekday_agrees s" and nz: "rtc_seconds ?n \<noteq> 0"
  proof -
    let ?t = "(rtc_hour s * 60 + bcd_val (g_rtc_datetime s 5)) * 60 + ?v"
    have "rtc_seconds s < 36525 * 24 * 60 * 60" using lt ok(7) by (simp add: rtc_seconds_def)
    then have "rtc_seconds ?n = rtc_seconds s + 1"
      using sec nz by (simp add: mod_Suc split: if_splits)
    moreover have "rtc_seconds s = rtc_date s * 86400 + ?t" by (simp add: rtc_seconds_def algebra_simps)
    ultimately have "rtc_date ?n = (rtc_date s * 86400 + (?t + 1)) div 86400" using split [OF cok] by simp
    moreover have last: "?t = 86399 \<longleftrightarrow> rtc_hour s = 23 \<and> bcd_val (g_rtc_datetime s 5) = 59 \<and> ?v = 59"
    proof -
      have "h < 24 \<Longrightarrow> m < 60 \<Longrightarrow> v < 60 \<Longrightarrow> (h * 60 + m) * 60 + v = 86399 \<longleftrightarrow> h = 23 \<and> m = 59 \<and> v = 59" for h m v :: nat
        by (cases "h = 23"; cases "m = 59"; simp)
      then show ?thesis using h24 ok(5,7) .
    qed
    moreover have "?t < 86400" using h24 ok(5,7) by simp
    ultimately have "rtc_date ?n = (if ?t = 86399 then rtc_date s + 1 else rtc_date s)" by auto
    then show ?thesis using w wd last by (simp add: weekday_agrees_def mod_simps)
  qed
  then show ?thesis using cok sec by simp
qed


section \<open>Registers in range\<close>

text \<open>
  The registers a guest can reach: BCD digits, ranges and mode, and the positions of the serial
  port inside its arrays.  A day past the end of its month is possible (the month can be written
  alone) and is corrected by the next day count.
\<close>

definition rtc_ranges :: "'a rtc_scheme \<Rightarrow> bool" where
  "rtc_ranges s \<longleftrightarrow> date_digits s \<and> g_rtc_datetime s 3 \<le> 6 \<and> hour_ok s
     \<and> bcd_ok (g_rtc_datetime s 5) \<and> bcd_val (g_rtc_datetime s 5) < 60
     \<and> bcd_ok (g_rtc_datetime s 6) \<and> bcd_val (g_rtc_datetime s 6) < 60
     \<and> g_rtc_inbit s < 8 \<and> g_rtc_outbit s < 8 \<and> g_rtc_outpos s \<le> 7"

text \<open>The part of the state the ranges speak of.\<close>

lemma ranges_cong:
  assumes "g_rtc_datetime t = g_rtc_datetime s" "mode_24 t = mode_24 s" "g_rtc_inbit t = g_rtc_inbit s"
    "g_rtc_outbit t = g_rtc_outbit s" "g_rtc_outpos t = g_rtc_outpos s"
  shows "rtc_ranges t = rtc_ranges s"
  using assms by (simp add: rtc_ranges_def date_digits_def ymd hour_ok_def hour_bits_def)

definition port_pos :: "'a rtc_scheme \<Rightarrow> nat \<times> nat \<times> nat" where
  "port_pos s = (g_rtc_inbit s, g_rtc_outbit s, g_rtc_outpos s)"

lemma port_pos_simps [simp]:
  "port_pos (set_dt i v s) = port_pos s" "port_pos (nds_raise_irq p b s) = port_pos s"
  by (simp_all add: port_pos_def set_dt_def nds_raise_irq_def irq_recompute_def runtime_clear_fast_limit_def)

lemma port_pos_irq [simp]:
  "port_pos (rtc_set_irq b s) = port_pos s" "port_pos (rtc_clear_irq b s) = port_pos s"
  by (simp_all add: rtc_set_irq_def rtc_clear_irq_def Let_def port_pos_def)
    (simp add: nds_raise_irq_def irq_recompute_def runtime_clear_fast_limit_def)

lemma port_pos_process_irq1: "port_pos (rtc_process_irq1 k s) = port_pos s"
  by (simp only: rtc_process_irq1_def Let_def if_distrib [of port_pos] port_pos_irq if_cancel)

lemma port_pos_count [simp]:
  "port_pos (rtc_process_irq k s) = port_pos s" "port_pos (rtc_check_end_of_month s) = port_pos s"
  "port_pos (rtc_count_day s) = port_pos s" "port_pos (rtc_count_hour s) = port_pos s"
  by (simp_all add: rtc_process_irq_def port_pos_process_irq1 rtc_check_end_of_month_def rtc_count_month_def
      rtc_count_year_def rtc_count_day_def rtc_count_hour_def Let_def)

lemma port_pos_second [simp]: "port_pos (rtc_count_second s) = port_pos s"
  by (simp add: rtc_count_second_def rtc_count_minute_def Let_def) (simp add: port_pos_def [of "_\<lparr>g_rtc_irq_flag := _\<rparr>"] port_pos_def [symmetric])

lemma end_of_month_digits:
  assumes "bcd_ok (g_rtc_datetime s 0)" "bcd_ok (g_rtc_datetime s 1)" "bcd_ok (g_rtc_datetime s 2)"
    "rtc_month s \<in> {1..12}" "1 \<le> rtc_day s"
  shows "date_digits (rtc_check_end_of_month s)"
proof (cases "g_rtc_datetime s 2 > rtc_days_in_month s")
  case False
  note dim = days_in_month_exact [OF assms(1,2,4)]
  have "rtc_day s \<le> 31" using False dim bcd_le [OF assms(3) dim(1)] month_len_bounds(2) by (auto simp: ymd intro: order_trans)
  then show ?thesis using False assms by (simp add: rtc_check_end_of_month_def date_digits_def)
next
  case True
  have "bcd_ok (g_rtc_datetime (set_dt 2 1 s) 0)" "bcd_ok (g_rtc_datetime (set_dt 2 1 s) 1)"
    "rtc_month (set_dt 2 1 s) \<in> {1..12}" using assms by (simp_all add: ymd)
  note cm = count_month [OF this]
  have g2: "g_rtc_datetime (rtc_count_month (set_dt 2 1 s)) 2 = 1" using count_frame(1) [of "set_dt 2 1 s" 2] by simp
  have "rtc_month (set_dt 2 1 s) = rtc_month s" by (simp add: ymd)
  then show ?thesis
    using True cm assms(4) g2 by (auto simp: rtc_check_end_of_month_def date_digits_def rtc_day_def)
qed

lemma count_day_digits:
  assumes "date_digits s"
  shows "date_digits (rtc_count_day s)"
proof -
  define t where "t = set_dt 2 (rtc_bcd_increment (g_rtc_datetime s 2))
    (let s = set_dt 3 (g_rtc_datetime s 3 + 1) s in if g_rtc_datetime s 3 \<ge> 7 then set_dt 3 0 s else s)"
  have "rtc_count_day s = rtc_check_end_of_month t" by (simp add: rtc_count_day_def t_def Let_def)
  moreover have "date_digits (rtc_check_end_of_month t)"
    by (rule end_of_month_digits) (use assms in \<open>auto simp: t_def Let_def date_digits_def ymd bcd_increment\<close>)
  ultimately show ?thesis by simp
qed

lemma mode_24_flag [simp]: "mode_24 (s\<lparr>g_rtc_irq_flag := f\<rparr>) = mode_24 s" "mode_24 (set_dt i v s) = mode_24 s"
  by (simp_all add: mode_24_def)

lemma mode_24_hour [simp]: "mode_24 (rtc_count_hour s) = mode_24 s"
  by (simp add: mode_24_def)

lemma count_hour_ranges:
  assumes "hour_ok s" "date_digits s" "g_rtc_datetime s 3 \<le> 6"
  shows "hour_ok (rtc_count_hour s)" "date_digits (rtc_count_hour s)" "g_rtc_datetime (rtc_count_hour s) 3 \<le> 6"
proof -
  obtain h pm where e: "rtc_count_hour s = set_dt 4 (h OR pm) (if rtc_hour s = 23 then rtc_count_day s else s)"
    and h: "bcd_ok h" "h \<le> 0x3F" "pm = 0 \<or> pm = 0x40" "bcd_val h < (if mode_24 s then 24 else 12)"
    using count_hour_cases [OF assms(1)] .
  note hp = hour_pm [OF h(2,3)]
  have "hour_bits (rtc_count_hour s) = bcd_val h" "g_rtc_datetime (rtc_count_hour s) 4 = h OR pm"
    by (simp_all add: hour_bits_def e hp)
  then show "hour_ok (rtc_count_hour s)" using h hp by (simp add: hour_ok_def)
  show "date_digits (rtc_count_hour s)" using assms(2) count_day_digits [OF assms(2)] by (simp add: date_digits_def e)
  show "g_rtc_datetime (rtc_count_hour s) 3 \<le> 6"
    using assms(3) count_day_weekday [OF assms(3)] by (auto simp: e word_le_nat_alt)
qed

lemma count_second_ranges:
  assumes "rtc_ranges s"
  shows "rtc_ranges (rtc_count_second s)"
proof -
  have r: "date_digits s" "g_rtc_datetime s 3 \<le> 6" "hour_ok s" "bcd_ok (g_rtc_datetime s 5)" "bcd_val (g_rtc_datetime s 5) < 60"
    "bcd_ok (g_rtc_datetime s 6)" "bcd_val (g_rtc_datetime s 6) < 60" using assms by (auto simp: rtc_ranges_def)
  have low: "date_digits (set_dt i v u) = date_digits u" "hour_ok (set_dt i v u) = hour_ok u" if "i \<in> {5, 6}"
    for i v and u :: "'a rtc_scheme" using that by (auto simp: date_digits_def ymd hour_ok_def hour_bits_def)
  have ge: "rtc_bcd_increment (g_rtc_datetime s i) \<ge> 0x60 \<longleftrightarrow> bcd_val (g_rtc_datetime s i) = 59" if "i \<in> {5, 6}" for i
    using bcd_le [of "0x60" "rtc_bcd_increment (g_rtc_datetime s i)"] r that by (auto simp: bcd_increment simp del: One_nat_def)
  define u where "u = (if bcd_val (g_rtc_datetime s 6) \<noteq> 59 then set_dt 6 (rtc_bcd_increment (g_rtc_datetime s 6)) s
    else if bcd_val (g_rtc_datetime s 5) \<noteq> 59 then set_dt 5 (rtc_bcd_increment (g_rtc_datetime s 5)) (set_dt 6 0 s)
    else rtc_count_hour (set_dt 5 0 (set_dt 6 0 s)))"
  have pos: "port_pos u = port_pos s" by (simp add: u_def)
  have "g_rtc_datetime (rtc_count_second s) = g_rtc_datetime u \<and> mode_24 (rtc_count_second s) = mode_24 u"
    using ge [of 5] ge [of 6] by (simp add: rtc_count_second_def rtc_count_minute_def Let_def u_def set_dt_def mode_24_def [symmetric])
  then have "rtc_ranges (rtc_count_second s) = rtc_ranges u"
    using port_pos_second [of s] pos by (intro ranges_cong) (auto simp: port_pos_def)
  moreover have "rtc_ranges u"
    using r pos assms count_hour_ranges [of "set_dt 5 0 (set_dt 6 0 s)"]
    by (auto simp: u_def rtc_ranges_def low bcd_increment port_pos_def)
  ultimately show ?thesis by simp
qed

lemma sanitize_range:
  assumes "bcd_ok lo" "lo \<le> hi"
  shows "bcd_ok (rtc_bcd_sanitize v lo hi)" "lo \<le> rtc_bcd_sanitize v lo hi" "rtc_bcd_sanitize v lo hi \<le> hi"
proof -
  have "bcd_ok v" if "\<not> v AND 0x0F \<ge> 0x0A" "\<not> v AND 0xF0 \<ge> 0xA0"
  proof -
    have "unat v mod 16 < 10" "unat v - unat v mod 16 < 160"
      using that by (simp_all add: word_le_nat_alt unat_low_nibble unat_high_nibble not_le)
    moreover have "unat v - unat v mod 16 = 16 * (unat v div 16)" by (simp add: minus_mod_eq_mult_div)
    ultimately show ?thesis by (simp add: bcd_ok_def)
  qed
  then show "bcd_ok (rtc_bcd_sanitize v lo hi)" using assms(1) by (simp add: rtc_bcd_sanitize_def)
  show "lo \<le> rtc_bcd_sanitize v lo hi" "rtc_bcd_sanitize v lo hi \<le> hi"
    using assms(2) by (auto simp: rtc_bcd_sanitize_def not_less)
qed

lemma sanitize_val:
  assumes "bcd_ok lo" "bcd_ok hi" "lo \<le> hi"
  shows "bcd_val lo \<le> bcd_val (rtc_bcd_sanitize v lo hi)" "bcd_val (rtc_bcd_sanitize v lo hi) \<le> bcd_val hi"
  using sanitize_range [OF assms(1,3), of v] assms by (simp_all add: bcd_le)

text \<open>The two hour formats are the same hour; all registers a mode holds, by cases.\<close>

lemma bcd_cases_24:
  assumes "bcd_ok h" "bcd_val h < 24"
  shows "h \<in> {0x00, 0x01, 0x02, 0x03, 0x04, 0x05, 0x06, 0x07, 0x08, 0x09, 0x10, 0x11, 0x12, 0x13, 0x14, 0x15, 0x16,
    0x17, 0x18, 0x19, 0x20, 0x21, 0x22, 0x23}"
proof -
  obtain a b where d: "unat h = 16 * a + b" "a \<le> 9" "b \<le> 9" "bcd_val h = 10 * a + b" using bcd_digits [OF assms(1)] .
  then have h: "h = word_of_nat (16 * a + b)" by (simp flip: d(1))
  have "a \<in> {0, 1, 2}" "b \<in> {0, 1, 2, 3, 4, 5, 6, 7, 8, 9}" "a = 2 \<Longrightarrow> b \<in> {0, 1, 2, 3}"
    using d assms(2) by auto
  then show ?thesis unfolding h by auto
qed

definition hour_value :: "bool \<Rightarrow> u8 \<Rightarrow> nat" where
  "hour_value m24 reg = bcd_val (reg AND 0x3F) + (if \<not> m24 \<and> reg AND 0x40 \<noteq> 0 then 12 else 0)"

definition convert_to_24 :: "u8 \<Rightarrow> u8 \<Rightarrow> u8" where
  "convert_to_24 hour pm =
    rtc_bcd_sanitize (if pm \<noteq> 0 then if hour + 0x12 AND 0x0F \<ge> 0x0A then hour + 0x12 + 0x06 else hour + 0x12 else hour) 0 0x23 OR pm"

definition convert_to_12 :: "u8 \<Rightarrow> u8" where
  "convert_to_12 hour =
    (if hour \<ge> 0x12 then rtc_bcd_sanitize (if hour - 0x12 AND 0x0F \<ge> 0x0A then hour - 0x12 - 0x06 else hour - 0x12) 0 0x11 OR 0x40
     else rtc_bcd_sanitize hour 0 0x11)"

lemma convert_hour_eq:
  "rtc_convert_hour st reg = (if st AND 0x02 \<noteq> 0 then convert_to_24 (reg AND 0x3F) (reg AND 0x40) else convert_to_12 (reg AND 0x3F))"
  by (simp add: rtc_convert_hour_def convert_to_24_def convert_to_12_def Let_def)

lemma convert_lits:
  "\<forall>h\<in>{0x00, 0x01, 0x02, 0x03, 0x04, 0x05, 0x06, 0x07, 0x08, 0x09, 0x10, 0x11}. \<forall>pm\<in>{0, 0x40}.
    convert_to_24 h pm AND 0x80 = 0 \<and> bcd_ok (convert_to_24 h pm AND 0x3F) \<and>
    bcd_val (convert_to_24 h pm AND 0x3F) < 24 \<and>
    bcd_val (convert_to_24 h pm AND 0x3F) = bcd_val h + (if pm \<noteq> 0 then 12 else 0)"
  "\<forall>h\<in>{0x00, 0x01, 0x02, 0x03, 0x04, 0x05, 0x06, 0x07, 0x08, 0x09, 0x10, 0x11, 0x12, 0x13, 0x14, 0x15, 0x16,
    0x17, 0x18, 0x19, 0x20, 0x21, 0x22, 0x23}. convert_to_12 h AND 0x80 = 0 \<and> bcd_ok (convert_to_12 h AND 0x3F) \<and>
    bcd_val (convert_to_12 h AND 0x3F) < 12 \<and>
    bcd_val (convert_to_12 h AND 0x3F) + (if convert_to_12 h AND 0x40 \<noteq> 0 then 12 else 0) = bcd_val h"
  by (simp_all add: convert_to_24_def convert_to_12_def rtc_bcd_sanitize_def) (simp_all add: word_le_nat_alt)

lemma convert_hour:
  assumes "bcd_ok (reg AND 0x3F)" "bcd_val (reg AND 0x3F) < (if st AND 0x02 \<noteq> 0 then 12 else 24)"
  shows "rtc_convert_hour st reg AND 0x80 = 0" "bcd_ok (rtc_convert_hour st reg AND 0x3F)"
    "bcd_val (rtc_convert_hour st reg AND 0x3F) < (if st AND 0x02 \<noteq> 0 then 24 else 12)"
    "hour_value (st AND 0x02 \<noteq> 0) (rtc_convert_hour st reg) = hour_value (st AND 0x02 = 0) reg"
proof -
  define h pm where hp: "h = reg AND 0x3F" "pm = reg AND 0x40"
  have pm: "pm \<in> {0, 0x40}" by (simp add: hp and_0x40)
  have h: "bcd_ok h" "bcd_val h < (if st AND 0x02 \<noteq> 0 then 12 else 24)" using assms by (simp_all add: hp)
  then have "bcd_val h < 24" by (simp split: if_splits)
  note lits = bcd_cases_24 [OF h(1) this]
  have lits12: "h \<in> {0x00, 0x01, 0x02, 0x03, 0x04, 0x05, 0x06, 0x07, 0x08, 0x09, 0x10, 0x11}" if "bcd_val h < 12"
    using lits that by (elim insertE emptyE) simp_all
  have "rtc_convert_hour st reg AND 0x80 = 0 \<and> bcd_ok (rtc_convert_hour st reg AND 0x3F) \<and>
    bcd_val (rtc_convert_hour st reg AND 0x3F) < (if st AND 0x02 \<noteq> 0 then 24 else 12) \<and>
    hour_value (st AND 0x02 \<noteq> 0) (rtc_convert_hour st reg) = hour_value (st AND 0x02 = 0) reg"
  proof (cases "st AND 0x02 = 0")
    case True
    then show ?thesis using bspec [OF convert_lits(2) lits] by (simp add: convert_hour_eq hour_value_def hp)
  next
    case False
    then have "bcd_val h < 12" using h by simp
    from bspec [OF bspec [OF convert_lits(1) lits12 [OF this]] pm] show ?thesis
      using False by (simp add: convert_hour_eq hour_value_def hp)
  qed
  then show "rtc_convert_hour st reg AND 0x80 = 0" "bcd_ok (rtc_convert_hour st reg AND 0x3F)"
    "bcd_val (rtc_convert_hour st reg AND 0x3F) < (if st AND 0x02 \<noteq> 0 then 24 else 12)"
    "hour_value (st AND 0x02 \<noteq> 0) (rtc_convert_hour st reg) = hour_value (st AND 0x02 = 0) reg" by auto
qed


lemma check_end_keeps [simp]:
  "g_rtc_status1 (rtc_check_end_of_month s) = g_rtc_status1 s"
  "i > 2 \<Longrightarrow> g_rtc_datetime (rtc_check_end_of_month s) i = g_rtc_datetime s i"
  using count_frame(2) [of s i]
  by (auto simp: rtc_check_end_of_month_def rtc_count_month_def rtc_count_year_def Let_def)

lemma ranges_set:
  assumes "rtc_ranges s"
  shows "bcd_ok v \<Longrightarrow> rtc_ranges (set_dt 0 v s)"
    "bcd_ok v \<Longrightarrow> 1 \<le> bcd_val v \<Longrightarrow> bcd_val v \<le> 12 \<Longrightarrow> rtc_ranges (set_dt 1 v s)"
    "v \<le> 6 \<Longrightarrow> rtc_ranges (set_dt 3 v s)"
    "bcd_ok v \<Longrightarrow> bcd_val v \<le> 59 \<Longrightarrow> rtc_ranges (set_dt 5 v s)"
    "bcd_ok v \<Longrightarrow> bcd_val v \<le> 59 \<Longrightarrow> rtc_ranges (set_dt 6 v s)"
proof -
  have "g_rtc_inbit (set_dt i x s) = g_rtc_inbit s" "g_rtc_outbit (set_dt i x s) = g_rtc_outbit s"
    "g_rtc_outpos (set_dt i x s) = g_rtc_outpos s" for i x by (simp_all add: set_dt_def)
  then show "bcd_ok v \<Longrightarrow> rtc_ranges (set_dt 0 v s)"
    "bcd_ok v \<Longrightarrow> 1 \<le> bcd_val v \<Longrightarrow> bcd_val v \<le> 12 \<Longrightarrow> rtc_ranges (set_dt 1 v s)"
    "v \<le> 6 \<Longrightarrow> rtc_ranges (set_dt 3 v s)"
    "bcd_ok v \<Longrightarrow> bcd_val v \<le> 59 \<Longrightarrow> rtc_ranges (set_dt 5 v s)"
    "bcd_ok v \<Longrightarrow> bcd_val v \<le> 59 \<Longrightarrow> rtc_ranges (set_dt 6 v s)"
    using assms by (simp_all add: rtc_ranges_def date_digits_def ymd hour_ok_def hour_bits_def)
qed

lemma write_datetime_ranges:
  assumes "rtc_ranges s"
  shows "rtc_ranges (rtc_write_datetime n v s)"
proof -
  have r: "date_digits s" "g_rtc_datetime s 3 \<le> 6" "hour_ok s" "bcd_ok (g_rtc_datetime s 5)" "bcd_val (g_rtc_datetime s 5) < 60"
    "bcd_ok (g_rtc_datetime s 6)" "bcd_val (g_rtc_datetime s 6) < 60" "g_rtc_inbit s < 8" "g_rtc_outbit s < 8" "g_rtc_outpos s \<le> 7"
    using assms by (auto simp: rtc_ranges_def)
  have pos: "g_rtc_inbit (set_dt i x s) = g_rtc_inbit s" "g_rtc_outbit (set_dt i x s) = g_rtc_outbit s"
    "g_rtc_outpos (set_dt i x s) = g_rtc_outpos s" for i x by (simp_all add: set_dt_def)
  note san = sanitize_range sanitize_val
  consider "n = 1" | "n = 2" | "n = 3" | "n = 4" | "n = 5" | "n = 6" | "n = 7" | "n = 0 \<or> n > 7" by linarith
  then show ?thesis
  proof cases
    case 3
    let ?t = "set_dt 2 (rtc_bcd_sanitize (v AND 0x3F) 1 0x31) s"
    have "date_digits (rtc_check_end_of_month ?t)"
      by (rule end_of_month_digits) (use r(1) san(1) [of 1 "0x31"] san(4) [of 1 "0x31"] in \<open>auto simp: date_digits_def ymd\<close>)
    moreover have "port_pos (rtc_check_end_of_month ?t) = port_pos s" by simp
    ultimately show ?thesis using 3 r
      by (auto simp: rtc_write_datetime_def rtc_ranges_def hour_ok_def hour_bits_def mode_24_def port_pos_def)
  next
    case 5
    let ?h = "rtc_bcd_sanitize (v AND 0x3F) 0 (if mode_24 s then 0x23 else 0x11)"
    have h: "bcd_ok ?h" "?h \<le> 0x3F" "bcd_val ?h < (if mode_24 s then 24 else 12)"
      using san(1) [of 0 "if mode_24 s then 0x23 else 0x11" "v AND 0x3F"] san(3) [of 0 "if mode_24 s then 0x23 else 0x11" "v AND 0x3F"]
        san(5) [of 0 "if mode_24 s then 0x23 else 0x11" "v AND 0x3F"]
      by (auto split: if_splits intro: order_trans)
    have "v AND 0x40 = 0 \<or> v AND 0x40 = 0x40" by (simp add: and_0x40)
    note hp = hour_pm [OF h(2) this]
    have w: "rtc_write_datetime n v s = set_dt 4 (?h OR (v AND 0x40)) s" using 5 by (simp add: rtc_write_datetime_def mode_24_def)
    show ?thesis using r h hp unfolding w by (simp add: rtc_ranges_def hour_ok_def hour_bits_def date_digits_def pos)
  next
    case 8
    then have "rtc_write_datetime n v s = s" by (auto simp: rtc_write_datetime_def)
    then show ?thesis using assms by simp
  qed (use ranges_set [OF assms] san(1) [of 0 "0x99" v] san(1) [of 1 "0x12" "v AND 0x1F"] san(4) [of 1 "0x12" "v AND 0x1F"]
      san(5) [of 1 "0x12" "v AND 0x1F"] san(3) [of 0 6 "v AND 7"] san(1) [of 0 "0x59" "v AND 0x7F"] san(5) [of 0 "0x59" "v AND 0x7F"] assms
     in \<open>simp_all add: rtc_write_datetime_def\<close>)
qed

text \<open>A write of status register 1.\<close>

lemma status1_mode: "((x AND 0xF0) OR (v AND 0x0E)) AND 0x02 = v AND (0x02 :: u8)"
  by (simp add: bit.conj_disj_distrib2 and.assoc)

lemma xor_bit1: "(a XOR b) AND 0x02 \<noteq> (0 :: u8) \<longleftrightarrow> (a AND 0x02 \<noteq> 0) \<noteq> (b AND 0x02 \<noteq> 0)"
  by (simp only: tst1 bit_xor_iff) auto

definition write_status1 :: "u8 \<Rightarrow> 'a rtc_scheme \<Rightarrow> 'a rtc_scheme" where
  "write_status1 v s =
    (let old = g_rtc_status1 s;
         s = (if v AND 0x01 \<noteq> 0 then rtc_reset_state s else s);
         s = s\<lparr>g_rtc_status1 := (g_rtc_status1 s AND 0xF0) OR (v AND 0x0E)\<rparr> in
     if (g_rtc_status1 s XOR old) AND 0x02 \<noteq> 0
     then set_dt 4 (rtc_convert_hour (g_rtc_status1 s) (g_rtc_datetime s 4)) s else s)"

lemma write_status1_ranges:
  assumes "rtc_ranges s"
  shows "rtc_ranges (write_status1 v s)"
proof -
  define t where "t = (if v AND 0x01 \<noteq> 0 then rtc_reset_state s else s)"
  define u where "u = t\<lparr>g_rtc_status1 := (g_rtc_status1 t AND 0xF0) OR (v AND 0x0E)\<rparr>"
  let ?reg = "g_rtc_datetime t 4"
  have m: "mode_24 u \<longleftrightarrow> v AND 0x02 \<noteq> 0" by (simp add: u_def mode_24_def status1_mode)
  have st: "g_rtc_status1 u AND 0x02 \<noteq> 0 \<longleftrightarrow> mode_24 u" by (simp add: mode_24_def)
  have e: "write_status1 v s = (if mode_24 u \<noteq> mode_24 s then set_dt 4 (rtc_convert_hour (g_rtc_status1 u) ?reg) u else u)"
    unfolding write_status1_def Let_def t_def [symmetric] u_def [symmetric] xor_bit1 mode_24_def
    by (simp add: u_def)
  have hour: "?reg AND 0x80 = 0" "bcd_ok (?reg AND 0x3F)"
    "mode_24 u \<noteq> mode_24 s \<Longrightarrow> bcd_val (?reg AND 0x3F) < (if mode_24 u then 12 else 24)"
    "mode_24 u = mode_24 s \<Longrightarrow> bcd_val (?reg AND 0x3F) < (if mode_24 u then 24 else 12)"
    using assms by (auto simp: t_def rtc_reset_state_def rtc_ranges_def hour_ok_def hour_bits_def)
  have t: "date_digits t" "g_rtc_datetime t 3 \<le> 6" "bcd_ok (g_rtc_datetime t 5)" "bcd_val (g_rtc_datetime t 5) < 60"
    "bcd_ok (g_rtc_datetime t 6)" "bcd_val (g_rtc_datetime t 6) < 60" "g_rtc_inbit t < 8" "g_rtc_outbit t < 8" "g_rtc_outpos t \<le> 7"
    using assms by (auto simp: t_def rtc_reset_state_def rtc_ranges_def date_digits_def ymd)
  show ?thesis
  proof (cases "mode_24 u = mode_24 s")
    case True
    then show ?thesis using hour t unfolding e
      by (simp add: rtc_ranges_def date_digits_def ymd hour_ok_def hour_bits_def) (auto simp: u_def split: if_splits)
  next
    case False
    have "bcd_val (?reg AND 0x3F) < (if g_rtc_status1 u AND 0x02 \<noteq> 0 then 12 else 24)" using hour(3) [OF False] st by simp
    note c = convert_hour [OF hour(2) this]
    show ?thesis using c t st False unfolding e
      by (simp add: rtc_ranges_def date_digits_def ymd hour_ok_def hour_bits_def) (simp add: u_def set_dt_def)
  qed
qed

lemma if_ranges: "rtc_ranges a \<Longrightarrow> rtc_ranges b \<Longrightarrow> rtc_ranges (if c then a else b)"
  by simp

lemma cmd_write_ranges:
  assumes "rtc_ranges s"
  shows "rtc_ranges (rtc_cmd_write v s)"
proof -
  have p: "rtc_ranges (rtc_process_irq 2 (s\<lparr>g_rtc_status2 := v\<rparr>))"
  proof -
    have "port_pos (rtc_process_irq 2 (s\<lparr>g_rtc_status2 := v\<rparr>)) = port_pos (s\<lparr>g_rtc_status2 := v\<rparr>)" by simp
    moreover have "mode_24 (s\<lparr>g_rtc_status2 := v\<rparr>) = mode_24 s" by (simp add: mode_24_def)
    ultimately have "rtc_ranges (rtc_process_irq 2 (s\<lparr>g_rtc_status2 := v\<rparr>)) = rtc_ranges s"
      by (intro ranges_cong) (auto simp: port_pos_def)
    then show ?thesis using assms by simp
  qed
  have a: "rtc_ranges (s\<lparr>g_rtc_alarm1 := f\<rparr>)" "rtc_ranges (s\<lparr>g_rtc_alarm2 := f\<rparr>)" "rtc_ranges (s\<lparr>g_rtc_clock_adjust := v\<rparr>)"
    "rtc_ranges (s\<lparr>g_rtc_free := v\<rparr>)" for f
    using assms by (simp_all add: rtc_ranges_def date_digits_def ymd hour_ok_def hour_bits_def mode_24_def)
  have w: "rtc_cmd_write v s = (let c = g_rtc_cmd s AND 0x70; pos = g_rtc_inpos s in
     if g_rtc_cmd s AND 0x0F \<noteq> 0x06 then s
     else if c = 0x00 then (if pos = 1 then write_status1 v s else s)
     else if c = 0x40 then (if pos = 1 then rtc_process_irq 2 (s\<lparr>g_rtc_status2 := v\<rparr>) else s)
     else if c = 0x20 then (if pos \<le> 7 then rtc_write_datetime pos v s else s)
     else if c = 0x60 then (if pos \<le> 3 then rtc_write_datetime (pos + 4) v s else s)
     else if c = 0x10 then
       (if g_rtc_status2 s AND 0x04 \<noteq> 0
        then (if pos \<le> 3 then s\<lparr>g_rtc_alarm1 := (g_rtc_alarm1 s)(pos - 1 := v)\<rparr> else s)
        else if pos = 1 then s\<lparr>g_rtc_alarm1 := (g_rtc_alarm1 s)(2 := v)\<rparr> else s)
     else if c = 0x50 then (if pos \<le> 3 then s\<lparr>g_rtc_alarm2 := (g_rtc_alarm2 s)(pos - 1 := v)\<rparr> else s)
     else if c = 0x30 then (if pos = 1 then s\<lparr>g_rtc_clock_adjust := v\<rparr> else s)
     else if c = 0x70 then (if pos = 1 then s\<lparr>g_rtc_free := v\<rparr> else s)
     else s)"
    unfolding rtc_cmd_write_def write_status1_def Let_def ..
  show ?thesis unfolding w Let_def
    by (intro if_ranges assms p a write_status1_ranges write_datetime_ranges)
qed


lemma cmd_read_keeps:
  "g_rtc_datetime (rtc_cmd_read s) = g_rtc_datetime s" "mode_24 (rtc_cmd_read s) = mode_24 s"
  "port_pos (rtc_cmd_read s) = port_pos s"
  by (simp_all add: rtc_cmd_read_def put_output_def Let_def mode_24_def port_pos_def and.assoc)

lemma byte_in_ranges:
  assumes "rtc_ranges s"
  shows "rtc_ranges (rtc_byte_in v s)"
proof -
  define t where "t = s\<lparr>g_rtc_cmd := (if v AND 0xF0 = 0x60 then rtc_rev ! unat (v AND 0xF) else v)\<rparr>"
  have t: "rtc_ranges t = rtc_ranges s" by (rule ranges_cong) (simp_all add: t_def mode_24_def)
  have "rtc_ranges (rtc_cmd_read t) = rtc_ranges t"
    using cmd_read_keeps(3) [of t] by (intro ranges_cong) (auto simp: cmd_read_keeps port_pos_def)
  then show ?thesis
    using assms t cmd_write_ranges [OF assms, of v] unfolding rtc_byte_in_def Let_def t_def [symmetric] by simp
qed

lemma ranges_port:
  assumes "rtc_ranges s"
  shows "i < 8 \<Longrightarrow> rtc_ranges (s\<lparr>g_rtc_inbit := i\<rparr>)" "i < 8 \<Longrightarrow> rtc_ranges (s\<lparr>g_rtc_outbit := i\<rparr>)"
    "i \<le> 7 \<Longrightarrow> rtc_ranges (s\<lparr>g_rtc_outpos := i\<rparr>)" "rtc_ranges (s\<lparr>g_rtc_input := x\<rparr>)" "rtc_ranges (s\<lparr>g_rtc_inpos := i\<rparr>)"
    "rtc_ranges (s\<lparr>g_rtc_io := y\<rparr>)" "rtc_ranges (s\<lparr>g_rtc_output := f\<rparr>)" "rtc_ranges (s\<lparr>g_rtc_irq_flag := x\<rparr>)"
    "rtc_ranges (s\<lparr>g_rtc_processed_ticks := p\<rparr>)" "rtc_ranges (s\<lparr>g_rtc_clock_count := c\<rparr>)"
  using assms by (simp_all add: rtc_ranges_def date_digits_def ymd hour_ok_def hour_bits_def mode_24_def)

text \<open>One shifted bit in each direction: the two branches of \<open>rtc_write\<close>.\<close>

definition shift_in :: "u16 \<Rightarrow> 'a rtc_scheme \<Rightarrow> 'a rtc_scheme" where
  "shift_in val s =
    (let s = (if val AND 0x0001 \<noteq> 0 then s\<lparr>g_rtc_input := g_rtc_input s OR push_bit (g_rtc_inbit s) 1\<rparr> else s);
         s = s\<lparr>g_rtc_inbit := g_rtc_inbit s + 1\<rparr> in
     if g_rtc_inbit s \<ge> 8
     then let s = rtc_byte_in (g_rtc_input s) (s\<lparr>g_rtc_inbit := 0\<rparr>) in s\<lparr>g_rtc_input := 0, g_rtc_inpos := g_rtc_inpos s + 1\<rparr>
     else s)"

definition shift_out :: "'a rtc_scheme \<Rightarrow> 'a rtc_scheme" where
  "shift_out s =
    (let s = (if g_rtc_output s (g_rtc_outpos s) AND push_bit (g_rtc_outbit s) 1 \<noteq> 0
              then s\<lparr>g_rtc_io := g_rtc_io s OR 0x0001\<rparr> else s\<lparr>g_rtc_io := g_rtc_io s AND 0xFFFE\<rparr>);
         s = s\<lparr>g_rtc_outbit := g_rtc_outbit s + 1\<rparr> in
     if g_rtc_outbit s \<ge> 8
     then let s = s\<lparr>g_rtc_outbit := 0\<rparr> in if g_rtc_outpos s < 7 then s\<lparr>g_rtc_outpos := g_rtc_outpos s + 1\<rparr> else s
     else s)"

definition port_reset :: "'a rtc_scheme \<Rightarrow> 'a rtc_scheme" where
  "port_reset s = s\<lparr>g_rtc_input := 0, g_rtc_inbit := 0, g_rtc_inpos := 0, g_rtc_output := (\<lambda>_. 0), g_rtc_outbit := 0, g_rtc_outpos := 0\<rparr>"

lemma rtc_write_eq:
  "rtc_write val byte s =
    (let val = (if byte then val OR (g_rtc_io s AND 0xFF00) else val);
         s = (if val AND 0x0004 \<noteq> 0 then
                if g_rtc_io s AND 0x0004 = 0 then port_reset s
                else if val AND 0x0002 = 0 then if val AND 0x0010 \<noteq> 0 then shift_in val s else shift_out s else s
              else s) in
     if val AND 0x0010 \<noteq> 0 then s\<lparr>g_rtc_io := val\<rparr>
     else s\<lparr>g_rtc_io := (g_rtc_io s AND 0x0001) OR (val AND 0xFFFE)\<rparr>)"
  unfolding rtc_write_def shift_in_def shift_out_def port_reset_def Let_def ..

lemma shift_in_ranges: "rtc_ranges s \<Longrightarrow> rtc_ranges (shift_in val s)"
proof -
  assume r: "rtc_ranges s"
  define t where "t = (if val AND 0x0001 \<noteq> 0 then s\<lparr>g_rtc_input := g_rtc_input s OR push_bit (g_rtc_inbit s) 1\<rparr> else s)"
  have t: "rtc_ranges t" using r by (simp add: t_def ranges_port)
  have e: "shift_in val s = (if g_rtc_inbit t + 1 \<ge> 8
     then let s = rtc_byte_in (g_rtc_input t) (t\<lparr>g_rtc_inbit := 0\<rparr>) in s\<lparr>g_rtc_input := 0, g_rtc_inpos := g_rtc_inpos s + 1\<rparr>
     else t\<lparr>g_rtc_inbit := g_rtc_inbit t + 1\<rparr>)"
    unfolding shift_in_def Let_def t_def [symmetric] by simp
  show ?thesis
  proof (cases "g_rtc_inbit t + 1 \<ge> 8")
    case True
    have "rtc_ranges (rtc_byte_in (g_rtc_input t) (t\<lparr>g_rtc_inbit := 0\<rparr>))"
      by (intro byte_in_ranges ranges_port(1) t) simp
    then show ?thesis using True by (simp add: e Let_def ranges_port)
  next
    case False
    then show ?thesis using ranges_port(1) [OF t] by (simp add: e)
  qed
qed

lemma shift_out_ranges: "rtc_ranges s \<Longrightarrow> rtc_ranges (shift_out s)"
proof -
  assume r: "rtc_ranges s"
  define t where "t = (if g_rtc_output s (g_rtc_outpos s) AND push_bit (g_rtc_outbit s) 1 \<noteq> 0
    then s\<lparr>g_rtc_io := g_rtc_io s OR 0x0001\<rparr> else s\<lparr>g_rtc_io := g_rtc_io s AND 0xFFFE\<rparr>)"
  have t: "rtc_ranges t" using r by (simp add: t_def ranges_port)
  have e: "shift_out s = (if g_rtc_outbit t + 1 \<ge> 8
     then if g_rtc_outpos t < 7 then t\<lparr>g_rtc_outbit := 0, g_rtc_outpos := g_rtc_outpos t + 1\<rparr> else t\<lparr>g_rtc_outbit := 0\<rparr>
     else t\<lparr>g_rtc_outbit := g_rtc_outbit t + 1\<rparr>)"
    unfolding shift_out_def Let_def t_def [symmetric] by simp
  have 0: "rtc_ranges (t\<lparr>g_rtc_outbit := 0\<rparr>)" using t by (simp add: ranges_port(2))
  show ?thesis
    using t ranges_port(2) [OF t, of "g_rtc_outbit t + 1"] 0 ranges_port(3) [OF 0, of "g_rtc_outpos t + 1"] by (simp add: e)
qed

lemma rtc_write_ranges: "rtc_ranges s \<Longrightarrow> rtc_ranges (rtc_write val byte s)"
  unfolding rtc_write_eq Let_def port_reset_def
  by (intro if_ranges ranges_port(6)) (simp_all add: shift_in_ranges shift_out_ranges ranges_port)

section \<open>Ticks\<close>

lemma second_keeps_ticks [simp]:
  "g_rtc_processed_ticks (rtc_count_second s) = g_rtc_processed_ticks s"
  "g_rtc_clock_count (rtc_count_second s) = g_rtc_clock_count s"
proof -
  have h: "g_rtc_processed_ticks (rtc_count_hour u) = g_rtc_processed_ticks u \<and> g_rtc_clock_count (rtc_count_hour u) = g_rtc_clock_count u"
    for u :: "'a rtc_scheme"
    by (auto simp: rtc_count_hour_def rtc_count_day_def rtc_check_end_of_month_def rtc_count_month_def rtc_count_year_def
        Let_def set_dt_def)
  show "g_rtc_processed_ticks (rtc_count_second s) = g_rtc_processed_ticks s"
    "g_rtc_clock_count (rtc_count_second s) = g_rtc_clock_count s"
    using h by (simp_all add: rtc_count_second_def rtc_count_minute_def Let_def) (simp_all add: set_dt_def)
qed

lemma tick_counts [simp]:
  "g_rtc_processed_ticks (rtc_tick s) = g_rtc_processed_ticks s + 1"
  "g_rtc_clock_count (rtc_tick s) = g_rtc_clock_count s + 1"
  by (simp_all add: rtc_tick_def Let_def)

lemma tick_ranges: "rtc_ranges s \<Longrightarrow> rtc_ranges (rtc_tick s)"
proof -
  assume r: "rtc_ranges s"
  let ?s = "s\<lparr>g_rtc_processed_ticks := g_rtc_processed_ticks s + 1, g_rtc_clock_count := g_rtc_clock_count s + 1\<rparr>"
  define t where "t = (if g_rtc_clock_count ?s AND 0x7FFF = 0 then rtc_count_second ?s
    else if g_rtc_clock_count ?s AND 0x7FFF = 4 then ?s\<lparr>g_rtc_irq_flag := g_rtc_irq_flag ?s AND NOT 0x01\<rparr> else ?s)"
  have t: "rtc_ranges t" using r unfolding t_def by (intro if_ranges count_second_ranges ranges_port)
  have "rtc_tick s = rtc_process_irq 1 t" unfolding rtc_tick_def Let_def t_def ..
  moreover have "rtc_ranges (rtc_process_irq 1 t) = rtc_ranges t"
    using port_pos_count(1) [of 1 t] by (intro ranges_cong) (auto simp: port_pos_def)
  ultimately show ?thesis using t by simp
qed

text \<open>The loop of \<open>nds_tick_rtc\<close> over the ticks due at a system cycle.\<close>

function rtc_catch_up :: "u64 \<Rightarrow> 'a rtc_scheme \<Rightarrow> 'a rtc_scheme" where
  "rtc_catch_up due s = (if g_rtc_processed_ticks s < due then rtc_catch_up due (rtc_tick s) else s)"
  by auto
termination
proof (relation "measure (\<lambda>(due, s). unat due - unat (g_rtc_processed_ticks s))")
  fix due :: u64 and s :: "'a rtc_scheme"
  assume "g_rtc_processed_ticks s < due"
  then show "((due, rtc_tick s), due, s) \<in> measure (\<lambda>(due, s). unat due - unat (g_rtc_processed_ticks s))"
    using unsigned_less [of due, where 'a = nat] by (simp add: word_less_nat_alt unat_word_ariths)
qed simp

declare rtc_catch_up.simps [simp del]

definition rtc_due :: "u64 \<Rightarrow> u64" where
  "rtc_due system_cycles = ((system_cycles + 1) * 32768 - 1) div 33513982"

definition nds_tick_rtc :: "u64 \<Rightarrow> 'a rtc_scheme \<Rightarrow> 'a rtc_scheme" where
  "nds_tick_rtc system_cycles s = rtc_catch_up (rtc_due system_cycles) s"

lemma catch_up_ranges: "rtc_ranges s \<Longrightarrow> rtc_ranges (rtc_catch_up due s)"
proof (induction due s rule: rtc_catch_up.induct)
  case (1 due s)
  then show ?case using tick_ranges by (subst rtc_catch_up.simps) auto
qed

section \<open>The host's clock\<close>

text \<open>The fields of the broken-down local time the C library returns.\<close>

record host_tm =
  tm_year :: int
  tm_mon :: int
  tm_mday :: int
  tm_hour :: int
  tm_min :: int
  tm_sec :: int

definition monthdays :: "int list" where "monthdays = [0, 31, 28, 31, 30, 31, 30, 31, 31, 30, 31, 30, 31]"

definition host_numdays :: "int \<Rightarrow> int \<Rightarrow> int \<Rightarrow> int" where
  "host_numdays year month day =
    fold (\<lambda>m n. let n = n + monthdays ! m in if m = 2 \<and> year AND 3 = 0 then n + 1 else n) [1..<nat month]
      (year * 365 + (year + 3) sdiv 4) + (day - 1)"

definition rtc_sync_host :: "host_tm \<Rightarrow> 'a rtc_scheme \<Rightarrow> 'a rtc_scheme" where
  "rtc_sync_host tm s =
    (let year = (tm_year tm + 1900) smod 100; month = tm_mon tm + 1; day = tm_mday tm; hour = tm_hour tm;
         minute = tm_min tm; second = (if tm_sec tm > 59 then 59 else tm_sec tm);
         year = (if year < 0 then 0 else year);
         dayofweek = (6 + host_numdays year month day) smod 7;
         pm = (if hour \<ge> 12 then 0x40 else 0);
         hour = (if g_rtc_status1 s AND 0x02 = 0 \<and> pm \<noteq> 0 then hour - 12 else hour);
         s = set_dt 0 (rtc_bcd (word_of_int year)) s;
         s = set_dt 1 (rtc_bcd (word_of_int month)) s;
         s = set_dt 2 (rtc_bcd (word_of_int day)) s;
         s = set_dt 3 (word_of_int dayofweek) s;
         s = set_dt 4 (rtc_bcd (word_of_int hour) OR pm) s;
         s = set_dt 5 (rtc_bcd (word_of_int minute)) s in
     set_dt 6 (rtc_bcd (word_of_int second)) s)"

lemma rtc_bcd_value:
  assumes "0 \<le> n" "n < 100"
  shows "bcd_ok (rtc_bcd (word_of_int n))" "bcd_val (rtc_bcd (word_of_int n)) = nat n"
proof -
  define v where "v = (word_of_int n :: u32)"
  have v: "unat v = nat n" using assms by (simp add: v_def unat_eq_nat_uint uint_word_of_int_eq take_bit_int_eq_self)
  define a b where "a = v div 10" and "b = v mod 10"
  have ab: "unat a = nat n div 10" "unat b = nat n mod 10" by (simp_all add: a_def b_def unat_div_distrib unat_mod_distrib v)
  have bs: "\<not> bit (push_bit 4 a) k \<or> \<not> bit b k" for k
  proof (cases "k < 4")
    case False
    have "unat (take_bit 4 b) = unat b" using ab by (simp add: unsigned_take_bit_eq take_bit_nat_eq_self)
    then have "take_bit 4 b = b" by (rule unsigned_word_eqI)
    then have "bit b k = bit (take_bit 4 b) k" by simp
    then show ?thesis using False by (simp add: bit_take_bit_iff)
  qed (simp add: bit_push_bit_iff)
  have "push_bit 4 a OR b = push_bit 4 a + b" by (rule disjunctive_add_eq_or [symmetric]) (use bs in \<open>auto intro!: bit_word_eqI simp: bit_and_iff\<close>)
  moreover have "unat (push_bit 4 a + b) = 16 * (nat n div 10) + nat n mod 10"
    using ab assms by (simp add: push_bit_eq_mult unat_word_ariths)
  moreover have "16 * (nat n div 10) + nat n mod 10 < 256" using assms by linarith
  ultimately have "unat (rtc_bcd v) = 16 * (nat n div 10) + nat n mod 10"
    by (simp add: rtc_bcd_def a_def [symmetric] b_def [symmetric] unsigned_ucast_eq take_bit_nat_eq_self)
  from bcd_of_digits [OF this]
  show "bcd_ok (rtc_bcd (word_of_int n))" "bcd_val (rtc_bcd (word_of_int n)) = nat n"
    using assms by (simp_all add: v_def [symmetric])
qed

definition host_year :: "host_tm \<Rightarrow> nat" where "host_year tm = nat ((tm_year tm + 1900) mod 100)"

text \<open>What the C library promises of a broken-down time, for years the register can hold.\<close>

definition host_ok :: "host_tm \<Rightarrow> bool" where
  "host_ok tm \<longleftrightarrow> 0 \<le> tm_year tm + 1900 \<and> tm_mon tm \<in> {0..11}
     \<and> 1 \<le> tm_mday tm \<and> tm_mday tm \<le> int (month_len (host_year tm) (nat (tm_mon tm + 1)))
     \<and> tm_hour tm \<in> {0..23} \<and> tm_min tm \<in> {0..59} \<and> tm_sec tm \<in> {0..60}"

lemma numdays_day_number:
  assumes "m \<in> {1..12}" "1 \<le> d"
  shows "host_numdays (int y) (int m) (int d) = int (day_number y m d)"
proof -
  let ?f = "\<lambda>k n. let n = n + monthdays ! k in if k = 2 \<and> int y AND 3 = 0 then n + 1 else n"
  have a3: "int y AND 3 = int (y mod 4)"
    using take_bit_eq_mask [of 2 "int y"] by (simp add: mask_eq_exp_minus_1 take_bit_eq_mod zmod_int)
  have one: "?f k n = n + int (month_len y k)" if "k \<in> {1..12}" for k n
  proof -
    have "k \<in> {1, 2, 3, 4, 5, 6, 7, 8, 9, 10, 11, 12}" using that by auto presburger
    then show ?thesis by (elim insertE emptyE) (simp_all add: monthdays_def month_len_def a3)
  qed
  have "fold ?f ks n = n + int (\<Sum>k\<leftarrow>ks. month_len y k)" if "set ks \<subseteq> {1..12}" for ks n
    using that
  proof (induction ks arbitrary: n)
    case (Cons k ks)
    then have "?f k n = n + int (month_len y k)" by (intro one) simp
    then show ?case using Cons by simp
  qed simp
  moreover have "set [1..<m] \<subseteq> {1..12}" using assms(1) by auto
  ultimately have "fold ?f [1..<m] n = n + int (\<Sum>k\<leftarrow>[1..<m]. month_len y k)" for n by blast
  moreover have "(int y + 3) sdiv 4 = int ((y + 3) div 4)"
    by (simp add: signed_divide_int_def zdiv_int)
  ultimately show ?thesis using assms(2) by (simp add: host_numdays_def day_number_def of_nat_diff)
qed

text \<open>
  Synchronising with the host sets the clock to the host's local time. For every broken-down time
  the C library can return from the year 0 on, the registers hold that date (its year modulo 100)
  and that time of day in whichever hour format is selected, a leap second counting as the 59th, and
  the weekday the calendar gives for that date in 2000 to 2099.
\<close>

lemma host_time_set:
  fixes s :: "'a rtc_scheme"
  assumes "host_ok tm"
  defines "t \<equiv> rtc_sync_host tm s"
  shows "rtc_clock_ok t \<and> weekday_agrees t \<and> rtc_year t = host_year tm \<and> rtc_month t = nat (tm_mon tm + 1)
    \<and> rtc_day t = nat (tm_mday tm) \<and> rtc_hour t = nat (tm_hour tm) \<and> bcd_val (g_rtc_datetime t 5) = nat (tm_min tm)
    \<and> bcd_val (g_rtc_datetime t 6) = nat (min 59 (tm_sec tm))"
proof -
  define y where "y = host_year tm"
  define m where "m = nat (tm_mon tm + 1)"
  define d where "d = nat (tm_mday tm)"
  have h: "m \<in> {1..12}" "1 \<le> d" "d \<le> month_len y m" "y < 100" "tm_mon tm + 1 = int m" "tm_mday tm = int d"
    "0 \<le> tm_hour tm" "tm_hour tm \<le> 23" "0 \<le> tm_min tm" "tm_min tm \<le> 59" "0 \<le> tm_sec tm" "tm_sec tm \<le> 60"
    using assms(1) by (auto simp: host_ok_def y_def m_def d_def host_year_def)
  have ys: "(tm_year tm + 1900) smod 100 = int y"
    using assms(1) by (auto simp: host_ok_def y_def host_year_def signed_modulo_int_def sgn_if)
  have "d \<le> 31" using h(3) month_len_bounds(2) [of y m] by linarith
  note small = h this
  have dn: "host_numdays (int y) (int m) (int d) = int (day_number y m d)" using numdays_day_number h by blast
  have dw: "(6 + int (day_number y m d)) smod 7 = int ((6 + day_number y m d) mod 7)"
    by (simp add: signed_modulo_int_def zmod_int)
  define pm :: u8 where "pm = (if tm_hour tm \<ge> 12 then 0x40 else 0)"
  define hr where "hr = (if \<not> mode_24 s \<and> tm_hour tm \<ge> 12 then tm_hour tm - 12 else tm_hour tm)"
  let ?h = "rtc_bcd (word_of_int hr)"
  have hr: "0 \<le> hr" "hr < (if mode_24 s then 24 else 12)" using h by (auto simp: hr_def)
  then have hv: "bcd_ok ?h" "bcd_val ?h = nat hr" by (auto simp: rtc_bcd_value split: if_splits)
  have "?h \<le> 0x39" using bcd_le [OF hv(1), of "0x39"] hv(2) hr by (simp split: if_splits)
  then have hle: "?h \<le> 0x3F" by (rule order_trans) simp
  have pmc: "pm = 0 \<or> pm = 0x40" by (simp add: pm_def)
  note hp = hour_pm [OF hle pmc]
  have g: "g_rtc_datetime t = (g_rtc_datetime s)(0 := rtc_bcd (word_of_int (int y)), 1 := rtc_bcd (word_of_int (int m)),
      2 := rtc_bcd (word_of_int (int d)), 3 := word_of_int (int ((6 + day_number y m d) mod 7)), 4 := ?h OR pm,
      5 := rtc_bcd (word_of_int (tm_min tm)), 6 := rtc_bcd (word_of_int (min 59 (tm_sec tm))))"
    unfolding t_def rtc_sync_host_def Let_def ys h(5,6)
    using h(12) by (simp add: dn dw pm_def hr_def mode_24_def min_def)
  have m24: "mode_24 t = mode_24 s" by (simp add: t_def rtc_sync_host_def Let_def mode_24_def)
  have v: "bcd_ok (rtc_bcd (word_of_int n)) \<and> bcd_val (rtc_bcd (word_of_int n)) = nat n" if "0 \<le> n" "n < 100" for n
    using rtc_bcd_value [OF that] by blast
  have vn: "bcd_ok (rtc_bcd (word_of_nat n)) \<and> bcd_val (rtc_bcd (word_of_nat n)) = n" if "n < 100" for n
    using v [of "int n"] that by simp
  have vals: "bcd_ok (rtc_bcd (word_of_nat y))" "bcd_val (rtc_bcd (word_of_nat y)) = y"
    "bcd_ok (rtc_bcd (word_of_nat m))" "bcd_val (rtc_bcd (word_of_nat m)) = m"
    "bcd_ok (rtc_bcd (word_of_nat d))" "bcd_val (rtc_bcd (word_of_nat d)) = d"
    "bcd_ok (rtc_bcd (word_of_int (tm_min tm)))" "bcd_val (rtc_bcd (word_of_int (tm_min tm))) = nat (tm_min tm)"
    "bcd_ok (rtc_bcd (word_of_int (min 59 (tm_sec tm))))"
    "bcd_val (rtc_bcd (word_of_int (min 59 (tm_sec tm)))) = nat (min 59 (tm_sec tm))"
    using vn [of y] vn [of m] vn [of d] v [of "tm_min tm"] v [of "min 59 (tm_sec tm)"] small by auto
  have f: "rtc_year t = y" "rtc_month t = m" "rtc_day t = d" "bcd_val (g_rtc_datetime t 5) = nat (tm_min tm)"
    "bcd_val (g_rtc_datetime t 6) = nat (min 59 (tm_sec tm))"
    by (simp_all add: ymd g vals)
  have "unat (word_of_int (int ((6 + day_number y m d) mod 7)) :: u8) = (6 + day_number y m d) mod 7"
    by (simp add: unat_of_nat take_bit_nat_eq_self)
  then have w: "unat (g_rtc_datetime t 3) = (6 + rtc_date t) mod 7" by (simp add: g rtc_date_def f)
  then have "g_rtc_datetime t 3 \<le> 6" by (simp add: word_le_nat_alt less_Suc_eq_le [symmetric])
  moreover have "date_ok t" unfolding date_ok_def date_digits_def f using small by (simp add: g vals)
  moreover have "hour_ok t" using hp hv hr by (auto simp: hour_ok_def hour_bits_def m24 g)
  moreover have "rtc_hour t = nat (tm_hour tm)"
    using hp hv hr by (simp add: rtc_hour_def hour_bits_def m24 g) (auto simp: hr_def pm_def)
  moreover have "bcd_ok (g_rtc_datetime t 5)" "bcd_ok (g_rtc_datetime t 6)" by (simp_all add: g vals)
  moreover have "nat (tm_min tm) < 60" "nat (min 59 (tm_sec tm)) < 60" using small by auto
  ultimately show ?thesis unfolding rtc_clock_ok_def weekday_agrees_def y_def [symmetric] m_def [symmetric] d_def [symmetric]
    using f w by (intro conjI) (simp_all only:)
qed

section \<open>The chip under any driver\<close>

text \<open>A store to the port, the passage of time, a synchronisation.\<close>

datatype rtc_op = Port u16 bool | Advance u64 | Sync host_tm

fun rtc_do :: "rtc_op \<Rightarrow> 'a rtc_scheme \<Rightarrow> 'a rtc_scheme" where
  "rtc_do (Port val byte) s = rtc_write val byte s"
| "rtc_do (Advance c) s = nds_tick_rtc c s"
| "rtc_do (Sync tm) s = rtc_sync_host tm s"

lemma port_pos_sync [simp]: "port_pos (rtc_sync_host tm s) = port_pos s"
  by (simp add: rtc_sync_host_def Let_def)

text \<open>
  C20. The registers stay in range. Whatever bits are clocked into the serial port, in whatever order
  with the passage of time and host synchronisations (so any garbled command, partial date, mode
  change or reset), every calendar register keeps a BCD value in its range, the hour in the range of
  the selected format, and the port's counters stay inside its 8-byte and 8-bit buffers.
\<close>

theorem rtc_registers_in_range:
  assumes "rtc_ranges s" and "\<forall>tm. Sync tm \<in> set ops \<longrightarrow> host_ok tm"
  shows "rtc_ranges (fold rtc_do ops s)"
  using assms
proof (induction ops arbitrary: s)
  case (Cons x xs)
  have "rtc_ranges (rtc_do x s)"
  proof (cases x)
    case (Sync tm)
    have "rtc_clock_ok (rtc_sync_host tm s)" using Cons.prems(2) Sync host_time_set [of tm s] by simp
    then have "rtc_ranges (rtc_sync_host tm s)"
      using Cons.prems(1) port_pos_sync [of tm s] by (simp add: rtc_clock_ok_def rtc_ranges_def date_ok_def port_pos_def)
    then show ?thesis by (simp add: Sync)
  qed (use Cons.prems(1) in \<open>simp_all add: rtc_write_ranges nds_tick_rtc_def catch_up_ranges\<close>)
  then show ?case using Cons by simp
qed simp

definition rtc_boot :: rtc where
  "rtc_boot = timers.extend timers_boot (rtc.fields 0 0 0 0 0 (\<lambda>_. 0) 0 0 0
     ((\<lambda>_. 0)(0 := 0x24, 1 := 0x01, 2 := 0x01, 3 := 0x01, 4 := 0x52)) 0x02 0 (\<lambda>_. 0) (\<lambda>_. 0) 0 0 0 0 0)"

lemmas rtc_boot_simps = rtc_boot_def timers.defs rtc.defs

lemma rtc_boot_clock: "rtc_clock_ok rtc_boot" "weekday_agrees rtc_boot" "rtc_ranges rtc_boot"
  by (simp_all add: rtc_clock_ok_def rtc_ranges_def weekday_agrees_def date_ok_def date_digits_def rtc_date_def ymd hour_ok_def hour_bits_def
      mode_24_def rtc_boot_simps day_number_def month_len_def)

definition host_noon :: host_tm where
  "host_noon = \<lparr>tm_year = 124, tm_mon = 1, tm_mday = 29, tm_hour = 12, tm_min = 30, tm_sec = 60\<rparr>"

lemma host_noon_ok: "host_ok host_noon"
  by (simp add: host_ok_def host_noon_def host_year_def month_len_def)

lemma rtc_registers_in_range_witness:
  "rtc_ranges (fold rtc_do [Port 0x16 False, Port 0x15 False, Sync host_noon, Advance 5000] rtc_boot)"
  by (rule rtc_registers_in_range) (simp_all add: rtc_boot_clock host_noon_ok)

lemma host_time_set_witness:
  "rtc_date (rtc_sync_host host_noon rtc_boot) = day_number 24 2 29 \<and> rtc_hour (rtc_sync_host host_noon rtc_boot) = 12"
  using host_time_set [OF host_noon_ok, of rtc_boot]
  by (auto simp: rtc_date_def host_noon_def host_year_def)

lemma rtc_counts_civil_time_witness:
  "rtc_seconds (rtc_count_second rtc_boot) = (rtc_seconds rtc_boot + 1) mod (36525 * 86400) \<and> rtc_date rtc_boot = 8766"
  using rtc_counts_civil_time [OF rtc_boot_clock(1)]
  by (simp add: rtc_date_def day_number_def ymd rtc_boot_simps)

section \<open>Hour formats\<close>

text \<open>
  Changing the hour format keeps the time. A write of status register 1 without its reset bit, in
  either format and to either, leaves the date and the second of the day as they were, the hour
  register re-coded for the new format and in its range.
\<close>

lemma format_change_keeps_time:
  assumes "rtc_clock_ok s" and "g_rtc_cmd s = 0x06" and "g_rtc_inpos s = 1" and "v AND 0x01 = 0"
  shows "mode_24 (rtc_cmd_write v s) = (v AND 0x02 \<noteq> 0) \<and> rtc_seconds (rtc_cmd_write v s) = rtc_seconds s
    \<and> rtc_clock_ok (rtc_cmd_write v s)"
proof -
  define u where "u = s\<lparr>g_rtc_status1 := (g_rtc_status1 s AND 0xF0) OR (v AND 0x0E)\<rparr>"
  let ?reg = "g_rtc_datetime s 4"
  have m: "mode_24 u \<longleftrightarrow> v AND 0x02 \<noteq> 0" by (simp add: u_def mode_24_def status1_mode)
  have st: "g_rtc_status1 u AND 0x02 \<noteq> 0 \<longleftrightarrow> mode_24 u" by (simp add: mode_24_def)
  have w: "rtc_cmd_write v s = write_status1 v s"
    using assms(2,3) unfolding rtc_cmd_write_def write_status1_def Let_def by simp
  have e: "write_status1 v s = (if mode_24 u \<noteq> mode_24 s then set_dt 4 (rtc_convert_hour (g_rtc_status1 u) ?reg) u else u)"
    using assms(4) unfolding write_status1_def Let_def xor_bit1 mode_24_def
    by (simp add: u_def)
  have hv: "rtc_hour x = hour_value (mode_24 x) (g_rtc_datetime x 4)" for x :: "'a rtc_scheme"
    by (simp add: rtc_hour_def hour_value_def hour_bits_def)
  show ?thesis
  proof (cases "mode_24 u = mode_24 s")
    case True
    have g: "g_rtc_datetime u = g_rtc_datetime s" by (simp add: u_def)
    note c = clock_cong [OF g True]
    show ?thesis using True m assms(1) by (simp add: w e c)
  next
    case False
    have "bcd_ok (?reg AND 0x3F)" "bcd_val (?reg AND 0x3F) < (if g_rtc_status1 u AND 0x02 \<noteq> 0 then 12 else 24)"
      using assms(1) False st by (auto simp: rtc_clock_ok_def hour_ok_def hour_bits_def)
    note c = convert_hour [OF this]
    let ?w = "set_dt 4 (rtc_convert_hour (g_rtc_status1 u) ?reg) u"
    have g: "g_rtc_datetime ?w = (g_rtc_datetime s)(4 := rtc_convert_hour (g_rtc_status1 u) ?reg)" by (simp add: u_def)
    have gu: "g_rtc_datetime u = g_rtc_datetime s" by (simp add: u_def)
    have mw: "mode_24 ?w = mode_24 u" by simp
    have "rtc_hour ?w = rtc_hour s" using c(4) st False unfolding hv mw g by (simp split: if_splits)
    moreover have "rtc_date ?w = rtc_date s" by (simp add: rtc_date_def ymd u_def)
    ultimately have sec: "rtc_seconds ?w = rtc_seconds s" by (simp add: rtc_seconds_def gu)
    have "hour_ok ?w" using c st by (simp add: hour_ok_def hour_bits_def mw)
    moreover have "date_ok ?w" using assms(1) by (simp add: rtc_clock_ok_def date_ok_def date_digits_def ymd gu)
    ultimately have "rtc_clock_ok ?w" using assms(1) by (simp add: rtc_clock_ok_def gu)
    then show ?thesis using False m sec by (simp add: w e)
  qed
qed

lemma format_change_keeps_time_witness:
  "rtc_seconds (rtc_cmd_write 0 (rtc_boot\<lparr>g_rtc_cmd := 0x06, g_rtc_inpos := 1\<rparr>)) = rtc_seconds rtc_boot"
proof -
  let ?s = "rtc_boot\<lparr>g_rtc_cmd := 0x06, g_rtc_inpos := 1\<rparr>"
  have g: "g_rtc_datetime ?s = g_rtc_datetime rtc_boot" "mode_24 ?s = mode_24 rtc_boot" by (simp_all add: mode_24_def)
  note c = clock_cong [OF g]
  show ?thesis using format_change_keeps_time [of ?s 0] rtc_boot_clock(1) by (simp add: c del: One_nat_def)
qed

section \<open>Ticks on time\<close>

text \<open>The system cycle of the \<open>n\<close>-th tick of the 32,768 Hz crystal.\<close>

definition rtc_deadline :: "nat \<Rightarrow> nat" where "rtc_deadline n = n * 33513982 div 32768"

lemma due_exact:
  assumes "unat c < 2 ^ 49 - 1"
  shows "n \<le> unat (rtc_due c) \<longleftrightarrow> rtc_deadline n \<le> unat c"
proof -
  have "unat ((c + 1) * 32768 - 1) = (unat c + 1) * 32768 - 1"
  proof -
    have "unat (c + 1) = unat c + 1" using assms by (simp add: unat_word_ariths)
    define x where "x = (c + 1) * 32768"
    have x: "unat x = (unat c + 1) * 32768"
      using assms \<open>unat (c + 1) = unat c + 1\<close> unfolding x_def unat_word_ariths(2) by simp
    then have "1 \<le> x" by (simp add: word_le_nat_alt)
    from unat_sub [OF this] show ?thesis by (simp only: x_def [symmetric] x unat_1)
  qed
  then have "unat (rtc_due c) = ((unat c + 1) * 32768 - 1) div 33513982" by (simp add: rtc_due_def unat_div_distrib)
  then have "n \<le> unat (rtc_due c) \<longleftrightarrow> n * 33513982 \<le> (unat c + 1) * 32768 - 1"
    by (simp add: less_eq_div_iff_mult_less_eq)
  also have "\<dots> \<longleftrightarrow> n * 33513982 < (unat c + 1) * 32768" by auto
  also have "\<dots> \<longleftrightarrow> rtc_deadline n < unat c + 1" unfolding rtc_deadline_def by (rule div_less_iff_less_mult [symmetric]) simp
  finally show ?thesis by auto
qed

lemma catch_up_ticks: "g_rtc_processed_ticks s \<le> due \<Longrightarrow> g_rtc_processed_ticks (rtc_catch_up due s) = due"
proof (induction due s rule: rtc_catch_up.induct)
  case (1 due s)
  show ?case
  proof (cases "g_rtc_processed_ticks s < due")
    case True
    then have "g_rtc_processed_ticks s + 1 \<le> due" by (rule inc_le)
    then show ?thesis using 1(1) True by (subst rtc_catch_up.simps) simp
  qed (use 1 in \<open>subst rtc_catch_up.simps, simp\<close>)
qed

lemma catch_up_compose:
  "due1 \<le> due2 \<Longrightarrow> rtc_catch_up due2 (rtc_catch_up due1 s) = rtc_catch_up due2 s"
proof (induction due1 s rule: rtc_catch_up.induct)
  case (1 due s)
  show ?case
  proof (cases "g_rtc_processed_ticks s < due")
    case True
    then have "rtc_catch_up due2 (rtc_catch_up due (rtc_tick s)) = rtc_catch_up due2 (rtc_tick s)" using 1 by blast
    moreover have "rtc_catch_up due s = rtc_catch_up due (rtc_tick s)" using True by (subst rtc_catch_up.simps) simp
    moreover have "rtc_catch_up due2 s = rtc_catch_up due2 (rtc_tick s)"
      using True 1(2) by (subst rtc_catch_up.simps) (auto intro: less_le_trans)
    ultimately show ?thesis by simp
  next
    case False
    then have "rtc_catch_up due s = s" by (subst rtc_catch_up.simps) simp
    then show ?thesis by simp
  qed
qed

text \<open>
  The clock ticks on time, however it is stepped. Below 2^49 system cycles (half a year of play) a
  tick is processed by the time of a cycle exactly if its deadline, the tick number times
  33513982/32768 rounded down, is not after it; and advancing to a time in one step or through any
  earlier time leaves the same machine state, interrupts included.
\<close>

lemma rtc_ticks_on_time:
  assumes "unat c2 < 2 ^ 49 - 1" and "c1 \<le> c2"
  shows "nds_tick_rtc c2 (nds_tick_rtc c1 s) = nds_tick_rtc c2 s
    \<and> (g_rtc_processed_ticks s \<le> rtc_due c2 \<longrightarrow>
        (\<forall>n. n \<le> unat (g_rtc_processed_ticks (nds_tick_rtc c2 s)) \<longleftrightarrow> rtc_deadline n \<le> unat c2))"
proof -
  have "unat c1 < 2 ^ 49 - 1" using assms by (simp add: word_le_nat_alt)
  then have "rtc_deadline (unat (rtc_due c1)) \<le> unat c1" using due_exact by blast
  then have "rtc_deadline (unat (rtc_due c1)) \<le> unat c2" using assms(2) by (simp add: word_le_nat_alt)
  then have "rtc_due c1 \<le> rtc_due c2" using due_exact [OF assms(1)] by (simp add: word_le_nat_alt)
  then show ?thesis by (simp add: nds_tick_rtc_def catch_up_compose catch_up_ticks due_exact [OF assms(1)])
qed

lemma rtc_ticks_on_time_witness:
  "\<forall>n. n \<le> unat (g_rtc_processed_ticks (nds_tick_rtc 2045 rtc_boot)) \<longleftrightarrow> rtc_deadline n \<le> 2045"
  using rtc_ticks_on_time [of 2045 1000 rtc_boot] by (simp add: rtc_boot_simps rtc_due_def)

end
