(* ===== verification/SpiBus.thy ===== *)
theory SpiBus
  imports CartBackup Rtc
begin

text \<open>
  The two serial buses of \<open>runner/src/io.cpp\<close>: the ARM7's SPI bus with the power manager, the firmware
  flash and the touch screen, and the cartridge slot's AUXSPI port in front of the backup chip.
  File access is a parameter (\<open>store path bytes\<close> tells whether the host wrote the file), as is
  stopping the picture and the sound on power-off; the transfer traces are left out.  Shown: bytes a
  guest clocks through the AUXSPI port reach the chip as exactly one transfer per chip-select window;
  firmware programmed over the bus is read back; and no transfer leaves the firmware image.
\<close>

section \<open>State\<close>

record spi = rtc +
  g_spicnt :: u16
  g_spi_resp :: u8
  g_spi_deadline :: u64
  g_fw :: "u8 list"
  g_fw_save_path :: string
  g_fw_dirty :: bool
  g_fw_persistence_detached :: bool
  g_fw_hold :: bool
  g_fw_cmd :: u8
  g_fw_status :: u8
  g_fw_addr :: u32
  g_fw_data_pos :: u32
  g_pm_index :: u8
  g_pm_regs :: "nat \<Rightarrow> u8"
  g_pm_masks :: "nat \<Rightarrow> u8"
  g_pm_hold :: bool
  g_powered_off :: bool
  g_tsc_ctrl :: u8
  g_tsc_conv :: u16
  g_tsc_datapos :: nat
  g_tsc_x :: u16
  g_tsc_y :: u16
  g_keyinput :: u32
  g_keycnt :: "nds_cpu \<Rightarrow> u16"
  g_cart_backup :: cart_backup
  g_cart_save_path :: string
  g_cart_persistence_detached :: bool
  g_cart_has_ir :: bool
  g_cart_ir_cmd :: u8
  g_auxspi_data :: u8
  g_auxspi_hold :: bool
  g_auxspi_pos :: u32
  g_auxspi_deadline :: u64

section \<open>Firmware flash\<close>

definition nds_io_flush_firmware_save :: "(string \<Rightarrow> u8 list \<Rightarrow> bool) \<Rightarrow> 'a spi_scheme \<Rightarrow> bool \<times> 'a spi_scheme" where
  "nds_io_flush_firmware_save store s =
    (if \<not> g_fw_dirty s \<or> g_fw_save_path s = [] then (True, s)
     else if g_fw_persistence_detached s then (True, s)
     else if \<not> store (g_fw_save_path s) (g_fw s) then (False, s)
     else (True, s\<lparr>g_fw_dirty := False\<rparr>))"

definition fw_mask :: "'a spi_scheme \<Rightarrow> u32" where
  "fw_mask s = (if g_fw s = [] then 0 else word_of_nat (length (g_fw s) - 1))"

text \<open>An array access outside the image is \<open>None\<close>.\<close>

definition fw_write :: "u8 \<Rightarrow> 'a spi_scheme \<Rightarrow> (u8 \<times> 'a spi_scheme) option" where
  "fw_write v s =
    (if \<not> g_fw_hold s then
       let s = s\<lparr>g_fw_cmd := v, g_fw_hold := True, g_fw_data_pos := 1, g_fw_addr := 0\<rparr>;
           s = (if g_fw_cmd s = 0x04 then s\<lparr>g_fw_status := g_fw_status s AND NOT (push_bit 1 1)\<rparr> else s);
           s = (if g_fw_cmd s = 0x06 then s\<lparr>g_fw_status := g_fw_status s OR push_bit 1 1\<rparr> else s) in Some (0, s)
     else if g_fw_cmd s = 0x03 then
       (if g_fw_data_pos s < 4
        then Some (0, s\<lparr>g_fw_addr := push_bit 8 (g_fw_addr s) OR ucast v, g_fw_data_pos := g_fw_data_pos s + 1\<rparr>)
        else if g_fw s = [] then Some (0xFF, s)
        else do {
          result \<leftarrow> rd (g_fw s) (unat (g_fw_addr s AND fw_mask s));
          Some (result, s\<lparr>g_fw_addr := g_fw_addr s + 1, g_fw_data_pos := g_fw_data_pos s + 1\<rparr>) })
     else if g_fw_cmd s = 0x05 then Some (g_fw_status s, s)
     else if g_fw_cmd s = 0x0A then
       (if g_fw_data_pos s < 4
        then Some (0, s\<lparr>g_fw_addr := push_bit 8 (g_fw_addr s) OR ucast v, g_fw_data_pos := g_fw_data_pos s + 1\<rparr>)
        else do {
          s \<leftarrow> (if g_fw s = [] then Some s
               else do {
                 target \<leftarrow> rd (g_fw s) (unat (g_fw_addr s AND fw_mask s));
                 if target \<noteq> v then do {
                   fw \<leftarrow> wr (g_fw s) (unat (g_fw_addr s AND fw_mask s)) v;
                   Some (s\<lparr>g_fw := fw, g_fw_dirty := True\<rparr>) }
                 else Some s });
          Some (v, s\<lparr>g_fw_addr := g_fw_addr s + 1, g_fw_data_pos := g_fw_data_pos s + 1\<rparr>) })
     else if g_fw_cmd s = 0x9F then
       (let result = (if g_fw_data_pos s = 1 then 0x20 else if g_fw_data_pos s = 2 then 0x40
                      else if g_fw_data_pos s = 3 then 0x12 else 0)
        in Some (result, s\<lparr>g_fw_data_pos := g_fw_data_pos s + 1\<rparr>))
     else Some (0xFF, s))"

definition fw_release :: "(string \<Rightarrow> u8 list \<Rightarrow> bool) \<Rightarrow> 'a spi_scheme \<Rightarrow> 'a spi_scheme" where
  "fw_release store s =
    (let completed_write = g_fw_hold s \<and> g_fw_cmd s = 0x0A;
         s = s\<lparr>g_fw_hold := False, g_fw_cmd := 0\<rparr> in
     if completed_write \<and> g_fw_dirty s then snd (nds_io_flush_firmware_save store s) else s)"

section \<open>Power manager and touch screen\<close>

definition pm_write :: "('a spi_scheme \<Rightarrow> 'a spi_scheme) \<Rightarrow> u8 \<Rightarrow> 'a spi_scheme \<Rightarrow> u8 \<times> 'a spi_scheme" where
  "pm_write stop v s =
    (if \<not> g_pm_hold s then (0, s\<lparr>g_pm_index := v, g_pm_hold := True\<rparr>)
     else let regid = unat (g_pm_index s AND 7) in
       if g_pm_index s AND 0x80 \<noteq> 0 then (g_pm_regs s regid, s)
       else let s = s\<lparr>g_pm_regs := (g_pm_regs s)(regid :=
                      (g_pm_regs s regid AND NOT (g_pm_masks s regid)) OR (v AND g_pm_masks s regid))\<rparr>;
                s = (if regid = 0 \<and> v AND 0x40 \<noteq> 0 then stop (s\<lparr>g_powered_off := True\<rparr>) else s) in (0, s))"

definition pm_release :: "'a spi_scheme \<Rightarrow> 'a spi_scheme" where "pm_release s = s\<lparr>g_pm_hold := False\<rparr>"

definition tsc_write :: "u8 \<Rightarrow> 'a spi_scheme \<Rightarrow> u8 \<times> 'a spi_scheme" where
  "tsc_write v s =
    (let out = (if g_tsc_datapos s = 1 then ucast (drop_bit 5 (g_tsc_conv s) AND 0xFF)
                else if g_tsc_datapos s = 2 then ucast (push_bit 3 (g_tsc_conv s) AND 0xFF) else 0);
         s = (if v AND 0x80 \<noteq> 0 then
                let s = s\<lparr>g_tsc_ctrl := v, g_tsc_datapos := 1\<rparr>;
                    s = s\<lparr>g_tsc_conv := (if v AND 0x70 = 0x10 then g_tsc_y s
                                         else if v AND 0x70 = 0x50 then g_tsc_x s else 0xFFF)\<rparr> in
                if v AND 0x08 \<noteq> 0 then s\<lparr>g_tsc_conv := g_tsc_conv s AND 0x0FF0\<rparr> else s
              else s\<lparr>g_tsc_datapos := g_tsc_datapos s + 1\<rparr>) in (out, s))"

definition tsc_release :: "'a spi_scheme \<Rightarrow> 'a spi_scheme" where "tsc_release s = s\<lparr>g_tsc_datapos := 0\<rparr>"

section \<open>The SPI bus\<close>

definition release_device :: "(string \<Rightarrow> u8 list \<Rightarrow> bool) \<Rightarrow> u16 \<Rightarrow> 'a spi_scheme \<Rightarrow> 'a spi_scheme" where
  "release_device store dev s =
    (if dev = 0 then pm_release s else if dev = 1 then fw_release store s else if dev = 2 then tsc_release s else s)"

definition spi_transfer ::
  "(string \<Rightarrow> u8 list \<Rightarrow> bool) \<Rightarrow> ('a spi_scheme \<Rightarrow> 'a spi_scheme) \<Rightarrow> u8 \<Rightarrow> 'a spi_scheme \<Rightarrow> 'a spi_scheme option" where
  "spi_transfer store stop v s =
    (if g_spicnt s AND 0x0080 \<noteq> 0 then Some s
     else let dev = drop_bit 8 (g_spicnt s) AND 3 in do {
       (r, s) \<leftarrow> (if dev = 0 then Some (pm_write stop v s) else if dev = 1 then fw_write v s
                 else if dev = 2 then Some (tsc_write v s) else Some (0, s));
       Some (let s = s\<lparr>g_spi_resp := r\<rparr>;
                 s = (if g_spicnt s AND 0x0800 = 0 then release_device store dev s else s);
                 s = s\<lparr>g_spicnt := g_spicnt s OR 0x0080\<rparr>;
                 delay = 8 * push_bit (unat (g_spicnt s AND 3)) 8;
                 s = s\<lparr>g_spi_deadline := active_system_timestamp s + delay\<rparr>
             in nds_reschedule_slice (g_spi_deadline s) s) })"

text \<open>Stores to the control and the data register.\<close>

definition spicnt_write :: "(string \<Rightarrow> u8 list \<Rightarrow> bool) \<Rightarrow> u32 \<Rightarrow> 'a spi_scheme \<Rightarrow> 'a spi_scheme" where
  "spicnt_write store v s =
    (let old = g_spicnt s; s = s\<lparr>g_spicnt := (old AND 0x0080) OR (ucast v AND 0xCF03)\<rparr> in
     if old AND 0x8000 \<noteq> 0 \<and> g_spicnt s AND 0x8000 = 0 then release_device store (drop_bit 8 old AND 3) s else s)"

definition spidata_write ::
  "(string \<Rightarrow> u8 list \<Rightarrow> bool) \<Rightarrow> ('a spi_scheme \<Rightarrow> 'a spi_scheme) \<Rightarrow> u32 \<Rightarrow> 'a spi_scheme \<Rightarrow> 'a spi_scheme option" where
  "spidata_write store stop v s =
    (if g_spicnt s AND 0x8000 \<noteq> 0 then spi_transfer store stop (ucast v) s else Some s)"

definition spi_read_data :: "'a spi_scheme \<Rightarrow> u8" where
  "spi_read_data s = (if g_spicnt s AND 0x8000 = 0 \<or> g_spicnt s AND 0x0080 \<noteq> 0 then 0 else g_spi_resp s)"

section \<open>Keys and pen\<close>

definition check_key_irq :: "nds_cpu \<Rightarrow> u32 \<Rightarrow> u32 \<Rightarrow> 'a spi_scheme \<Rightarrow> 'a spi_scheme" where
  "check_key_irq cpu oldkey newkey s =
    (let cnt = g_keycnt s cpu; sel = ucast (cnt AND 0x03FF);
         oldkey = oldkey AND sel; newkey = newkey AND sel;
         oldmatch = (if cnt AND 0x8000 \<noteq> 0 then oldkey = 0 else oldkey \<noteq> sel);
         newmatch = (if cnt AND 0x8000 \<noteq> 0 then newkey = 0 else newkey \<noteq> sel) in
     if cnt AND 0x4000 = 0 then s
     else if \<not> oldmatch \<and> newmatch then nds_raise_irq cpu (push_bit 12 1) s else s)"

definition nds_set_key_mask :: "u32 \<Rightarrow> 'a spi_scheme \<Rightarrow> 'a spi_scheme" where
  "nds_set_key_mask keys s =
    (let key_lo = keys AND 0x03FF; key_hi = drop_bit 10 keys AND 0x3; oldkey = g_keyinput s;
         s = s\<lparr>g_keyinput := (g_keyinput s AND 0xFFFCFC00) OR (key_lo OR push_bit 16 key_hi)\<rparr>;
         s = check_key_irq ARM9 oldkey (g_keyinput s) s
     in check_key_irq ARM7 oldkey (g_keyinput s) s)"

definition nds_set_touch :: "u16 \<Rightarrow> u16 \<Rightarrow> bool \<Rightarrow> 'a spi_scheme \<Rightarrow> 'a spi_scheme" where
  "nds_set_touch x y down s =
    (if \<not> down then s\<lparr>g_tsc_x := 0, g_tsc_y := 0x0FFF, g_keyinput := g_keyinput s OR push_bit 22 1\<rparr>
     else s\<lparr>g_tsc_x := push_bit 4 x, g_tsc_y := push_bit 4 y, g_keyinput := g_keyinput s AND NOT (push_bit 22 1)\<rparr>)"

section \<open>AUXSPI\<close>

definition nds_io_flush_cartridge_save :: "(string \<Rightarrow> u8 list \<Rightarrow> bool) \<Rightarrow> 'a spi_scheme \<Rightarrow> bool \<times> 'a spi_scheme" where
  "nds_io_flush_cartridge_save store s =
    (if \<not> dirty (g_cart_backup s) \<or> g_cart_save_path s = [] then (True, s)
     else if g_cart_persistence_detached s then (True, s)
     else if \<not> store (g_cart_save_path s) (sram (g_cart_backup s)) then (False, s)
     else (True, s\<lparr>g_cart_backup := (g_cart_backup s)\<lparr>dirty := False\<rparr>\<rparr>))"

definition cart_sram_spi_write ::
  "(string \<Rightarrow> u8 list \<Rightarrow> bool) \<Rightarrow> u8 \<Rightarrow> u32 \<Rightarrow> bool \<Rightarrow> 'a spi_scheme \<Rightarrow> (u8 \<times> 'a spi_scheme) option" where
  "cart_sram_spi_write store val pos fin s = do {
     (chip, result) \<leftarrow> nds_cart_backup_spi_write (g_cart_backup s) val pos fin;
     Some (let s = s\<lparr>g_cart_backup := chip\<rparr> in
       (result, if fin \<and> dirty (g_cart_backup s) \<and> g_cart_save_path s \<noteq> []
                then snd (nds_io_flush_cartridge_save store s) else s)) }"

definition cart_spi_write ::
  "(string \<Rightarrow> u8 list \<Rightarrow> bool) \<Rightarrow> u8 \<Rightarrow> u32 \<Rightarrow> bool \<Rightarrow> 'a spi_scheme \<Rightarrow> (u8 \<times> 'a spi_scheme) option" where
  "cart_spi_write store val pos fin s =
    (if \<not> g_cart_has_ir s then cart_sram_spi_write store val pos fin s
     else if pos = 0 then Some (0, s\<lparr>g_cart_ir_cmd := val\<rparr>)
     else if g_cart_ir_cmd s = 0x00 then cart_sram_spi_write store val (pos - 1) fin s
     else if g_cart_ir_cmd s = 0x08 then Some (0xAA, s)
     else Some (0, s))"

definition auxspi_write_cnt :: "u16 \<Rightarrow> 'a spi_scheme \<Rightarrow> 'a spi_scheme" where
  "auxspi_write_cnt val s =
    (let s = (if g_auxspicnt s AND 0x2040 = 0x2040 \<and> val AND 0x2000 = 0 then s\<lparr>g_auxspi_hold := False\<rparr> else s)
     in s\<lparr>g_auxspicnt := (g_auxspicnt s AND 0x0080) OR (val AND 0xE043)\<rparr>)"

definition auxspi_write_data :: "(string \<Rightarrow> u8 list \<Rightarrow> bool) \<Rightarrow> u8 \<Rightarrow> 'a spi_scheme \<Rightarrow> 'a spi_scheme option" where
  "auxspi_write_data store val s =
    (if g_auxspicnt s AND 0x8000 = 0 then Some s
     else if g_auxspicnt s AND 0x2000 = 0 then Some s
     else if g_auxspicnt s AND 0x0080 \<noteq> 0 then Some s
     else
       let s = s\<lparr>g_auxspicnt := g_auxspicnt s OR 0x0080\<rparr>; hold = (g_auxspicnt s AND 0x0040 \<noteq> 0);
           (s, islast) =
             (if \<not> hold then
                (s\<lparr>g_auxspi_pos := if g_auxspi_hold s then g_auxspi_pos s + 1 else 0, g_auxspi_hold := False\<rparr>, True)
              else if \<not> g_auxspi_hold s then (s\<lparr>g_auxspi_hold := True, g_auxspi_pos := 0\<rparr>, False)
              else (s\<lparr>g_auxspi_pos := g_auxspi_pos s + 1\<rparr>, False)) in do {
         (r, s) \<leftarrow> cart_spi_write store val (g_auxspi_pos s) islast s;
         Some (let s = s\<lparr>g_auxspi_data := r\<rparr>;
                   delay = 8 * push_bit (unat (g_auxspicnt s AND 3)) 8 :: u32;
                   now = (if g_nds_active s = ARM9 then drop_bit 1 (g_runtime_cycles s) else g_runtime_cycles s);
                   s = s\<lparr>g_auxspi_deadline := now + ucast delay\<rparr>
               in nds_reschedule_slice (g_auxspi_deadline s) s) })"

definition auxspi_read_data :: "'a spi_scheme \<Rightarrow> u8" where
  "auxspi_read_data s =
    (if g_auxspicnt s AND 0x8000 = 0 \<or> g_auxspicnt s AND 0x2000 = 0 \<or> g_auxspicnt s AND 0x0080 \<noteq> 0 then 0
     else g_auxspi_data s)"

section \<open>System events\<close>

text \<open>The five one-shot deadlines: the two buses, the game card, the divider and the square root.\<close>

definition nds_next_system_event_time :: "'a spi_scheme \<Rightarrow> u64" where
  "nds_next_system_event_time s =
    min (min (g_card_deadline s) (g_spi_deadline s))
        (min (g_auxspi_deadline s) (min (g_div_deadline s) (g_sqrt_deadline s)))"

definition bus_events :: "u64 \<Rightarrow> 'a spi_scheme \<Rightarrow> 'a spi_scheme" where
  "bus_events timestamp s =
    (let s = (if g_auxspi_deadline s \<le> timestamp
              then s\<lparr>g_auxspi_deadline := - 1, g_auxspicnt := g_auxspicnt s AND NOT 0x0080\<rparr> else s) in
     if g_spi_deadline s \<le> timestamp then
       let s = s\<lparr>g_spi_deadline := - 1, g_spicnt := g_spicnt s AND NOT 0x0080\<rparr> in
       if g_spicnt s AND 0x4000 \<noteq> 0 then nds_raise_irq ARM7 0x00800000 s else s
     else s)"

definition nds_run_system_events :: "u64 \<Rightarrow> 'a spi_scheme \<Rightarrow> 'a spi_scheme" where
  "nds_run_system_events timestamp s = math_events timestamp (card_events timestamp (bus_events timestamp s))"


section \<open>Firmware over the bus\<close>

text \<open>The flash as a serial device, and one chip-select window.\<close>

definition fw_step :: "('a spi_scheme, u8) spi_step" where
  "fw_step s v pos fin = map_option (\<lambda>(r, s). (s, r)) (fw_write v s)"

definition fw_transfer :: "(string \<Rightarrow> u8 list \<Rightarrow> bool) \<Rightarrow> 'a spi_scheme \<Rightarrow> u8 list \<Rightarrow> ('a spi_scheme \<times> u8 list) option" where
  "fw_transfer store s bs = do { (s, rs) \<leftarrow> feed fw_step s 0 bs; Some (fw_release store s, rs) }"

definition fw_pow2 :: "nat \<Rightarrow> 'a spi_scheme \<Rightarrow> bool" where
  "fw_pow2 k s \<longleftrightarrow> k \<le> 31 \<and> length (g_fw s) = 2 ^ k"

lemma fw_mask_pow2: "fw_pow2 k s \<Longrightarrow> fw_mask s = mask k \<and> g_fw s \<noteq> []"
  by (auto simp: fw_pow2_def fw_mask_def mask_eq_exp_minus_1 of_nat_diff)

lemma data_pos_next:
  assumes "\<not> p < (4 :: u32)" "unat p + Suc n < 2 ^ 32"
  shows "\<not> p + 1 < 4" "unat (p + 1) + n < 2 ^ 32"
proof -
  have "unat (p + 1) = unat p + 1" using assms(2) by (simp add: unat_word_ariths)
  then show "\<not> p + 1 < 4" "unat (p + 1) + n < 2 ^ 32" using assms by (simp_all add: word_less_nat_alt)
qed

lemma fw_burst_write:
  assumes "fw_pow2 k s" "g_fw_hold s" "g_fw_cmd s = 0x0A" "\<not> g_fw_data_pos s < 4" "unat (g_fw_data_pos s) + length ds < 2 ^ 32"
  shows "\<exists>s'. feed fw_step s pos ds = Some (s', ds) \<and> g_fw s' = burn k (g_fw_addr s) ds (g_fw s)"
  using assms
proof (induction ds arbitrary: s pos)
  case (Cons d ds)
  let ?i = "unat (g_fw_addr s AND mask k)"
  have i: "?i < length (g_fw s)" using Cons.prems(1) pow2_index [of k] by (simp add: fw_pow2_def)
  define s0 where "s0 = (if g_fw s ! ?i \<noteq> d then s\<lparr>g_fw := (g_fw s)[?i := d], g_fw_dirty := True\<rparr> else s)"
  define s1 where "s1 = s0\<lparr>g_fw_addr := g_fw_addr s0 + 1, g_fw_data_pos := g_fw_data_pos s0 + 1\<rparr>"
  have s0: "g_fw s0 = (g_fw s)[?i := d]" "g_fw_addr s0 = g_fw_addr s" "g_fw_data_pos s0 = g_fw_data_pos s"
    "g_fw_hold s0 = g_fw_hold s" "g_fw_cmd s0 = g_fw_cmd s"
    by (cases "g_fw s ! ?i = d"; auto simp: s0_def)+
  have step: "fw_step s d pos fin = Some (s1, d)" for pos fin
    using Cons.prems fw_mask_pow2 [OF Cons.prems(1)] i
    by (simp add: fw_step_def fw_write_def s1_def s0_def)
  have "\<exists>s'. feed fw_step s1 (pos + 1) ds = Some (s', ds) \<and> g_fw s' = burn k (g_fw_addr s1) ds (g_fw s1)"
    using Cons.prems data_pos_next [of "g_fw_data_pos s" "length ds"]
    by (intro Cons.IH) (simp_all add: s1_def s0 fw_pow2_def)
  then show ?case by (auto simp: step) (simp_all add: s1_def s0)
qed simp

lemma fw_burst_read:
  assumes "fw_pow2 k s" "g_fw_hold s" "g_fw_cmd s = 0x03" "\<not> g_fw_data_pos s < 4" "unat (g_fw_data_pos s) + length xs < 2 ^ 32"
  shows "\<exists>s'. feed fw_step s pos xs = Some (s', map (\<lambda>i. g_fw s ! ((unat (g_fw_addr s) + i) mod 2 ^ k)) [0..<length xs])
    \<and> g_fw s' = g_fw s"
  using assms
proof (induction xs arbitrary: s pos)
  case (Cons x xs)
  have k: "k \<le> 31" using Cons.prems(1) by (simp add: fw_pow2_def)
  let ?i = "unat (g_fw_addr s AND mask k)"
  have i: "?i < length (g_fw s)" using Cons.prems(1) pow2_index [of k] by (simp add: fw_pow2_def)
  define s1 where "s1 = s\<lparr>g_fw_addr := g_fw_addr s + 1, g_fw_data_pos := g_fw_data_pos s + 1\<rparr>"
  have step: "fw_step s x pos fin = Some (s1, g_fw s ! ?i)" for pos fin
    using Cons.prems fw_mask_pow2 [OF Cons.prems(1)] i by (simp add: fw_step_def fw_write_def s1_def)
  have "\<exists>s'. feed fw_step s1 (pos + 1) xs = Some (s', map (\<lambda>i. g_fw s1 ! ((unat (g_fw_addr s1) + i) mod 2 ^ k)) [0..<length xs])
    \<and> g_fw s' = g_fw s1"
    using Cons.prems data_pos_next [of "g_fw_data_pos s" "length xs"]
    by (intro Cons.IH) (simp_all add: s1_def fw_pow2_def)
  moreover have "(unat (g_fw_addr s1) + i) mod 2 ^ k = (unat (g_fw_addr s) + Suc i) mod 2 ^ k" for i
    using wrap_index [OF k, of "g_fw_addr s" 1] by (simp add: s1_def unat_and_mask)
      (metis add.assoc mod_add_left_eq plus_1_eq_Suc)
  moreover have "g_fw s1 = g_fw s" by (simp add: s1_def)
  ultimately show ?case by (auto simp: step unat_and_mask map_upt_Suc simp del: upt_Suc)
qed simp

lemma fw_command:
  "\<not> g_fw_hold s \<Longrightarrow> v \<noteq> 0x04 \<Longrightarrow> v \<noteq> 0x06 \<Longrightarrow>
    fw_step s v pos fin = Some (s\<lparr>g_fw_cmd := v, g_fw_hold := True, g_fw_data_pos := 1, g_fw_addr := 0\<rparr>, 0)"
  by (simp add: fw_step_def fw_write_def)

lemma fw_address:
  assumes "g_fw_hold s" "g_fw_cmd s = 0x0A \<or> g_fw_cmd s = 0x03" "g_fw_data_pos s < 4"
  shows "fw_step s v pos fin =
    Some (s\<lparr>g_fw_addr := push_bit 8 (g_fw_addr s) OR ucast v, g_fw_data_pos := g_fw_data_pos s + 1\<rparr>, 0)"
  using assms(2) by (elim disjE) (simp_all add: fw_step_def fw_write_def assms(1,3))

lemma fw_header:
  assumes "\<not> g_fw_hold s" "c = 0x0A \<or> c = 0x03"
  shows "feed fw_step s 0 ([c, a2, a1, a0] @ bs) = do {
    (s', rs) \<leftarrow> feed fw_step (s\<lparr>g_fw_cmd := c, g_fw_hold := True, g_fw_data_pos := 4, g_fw_addr := be_addr [a2, a1, a0]\<rparr>) 4 bs;
    Some (s', [0, 0, 0, 0] @ rs) }"
proof -
  let ?h = "\<lambda>p a. s\<lparr>g_fw_cmd := c, g_fw_hold := True, g_fw_data_pos := p, g_fw_addr := a\<rparr>"
  have 0: "fw_step s c 0 fin = Some (?h 1 0, 0)" for fin
    using assms(2) by (intro fw_command assms(1)) auto
  have n: "fw_step (?h p a) v pos fin = Some (?h (p + 1) (push_bit 8 a OR ucast v), 0)" if "p < 4" for p a v pos fin
    using fw_address [of "?h p a" v pos fin] assms(2) that by simp
  define h1 h2 h3 h4 where h: "h1 = ?h 1 0" "h2 = ?h 2 (push_bit 8 0 OR ucast a2)"
    "h3 = ?h 3 (push_bit 8 (push_bit 8 0 OR ucast a2) OR ucast a1)" "h4 = ?h 4 (be_addr [a2, a1, a0])"
  have st: "fw_step s c 0 fin = Some (h1, 0)" "fw_step h1 a2 pos fin = Some (h2, 0)" "fw_step h2 a1 pos fin = Some (h3, 0)"
    "fw_step h3 a0 pos fin = Some (h4, 0)" for pos fin
    using 0 n [of 1 0 a2] n [of 2 _ a1] n [of 3 _ a0] by (simp_all add: h be_addr_def)
  have "feed fw_step s 0 ([c, a2, a1, a0] @ bs) = do { (s', rs) \<leftarrow> feed fw_step h4 4 bs; Some (s', [0, 0, 0, 0] @ rs) }"
    by (cases "feed fw_step h4 4 bs") (simp_all add: st split: prod.split)
  then show ?thesis by (simp only: h)
qed

lemma fw_release_keeps [simp]: "g_fw (fw_release store s) = g_fw s" "\<not> g_fw_hold (fw_release store s)"
  by (simp_all add: fw_release_def nds_io_flush_firmware_save_def Let_def)

text \<open>
  C21. Firmware programmed over the SPI bus is read back. For an image of any power-of-two size, a WRITE
  window of bytes at a 24-bit address followed by a READ window from the same address answers
  exactly those bytes, addresses wrapping at the end of the image; every other byte of the image is
  as before, whether or not the host file could be written when chip select was released.
\<close>

theorem firmware_program_read_back:
  assumes "fw_pow2 k s" and "\<not> g_fw_hold s" and "length ds \<le> 2 ^ k" and "length xs = length ds"
  shows "\<exists>t u. fw_transfer store s ([0x0A, a2, a1, a0] @ ds) = Some (t, [0, 0, 0, 0] @ ds)
     \<and> fw_transfer store t ([0x03, a2, a1, a0] @ xs) = Some (u, [0, 0, 0, 0] @ ds)
     \<and> (\<forall>j < 2 ^ k. (\<forall>i < length ds. (unat (be_addr [a2, a1, a0]) + i) mod 2 ^ k \<noteq> j) \<longrightarrow> g_fw u ! j = g_fw s ! j)"
proof -
  let ?a = "be_addr [a2, a1, a0]"
  let ?h = "\<lambda>c s. s\<lparr>g_fw_cmd := c, g_fw_hold := True, g_fw_data_pos := 4, g_fw_addr := ?a\<rparr>"
  have k: "k \<le> 31" "length (g_fw s) = 2 ^ k" using assms(1) by (auto simp: fw_pow2_def)
  have len: "unat (4 :: u32) + length ds < 2 ^ 32"
    using assms(3) power_increasing [OF k(1), of "2 :: nat"] by simp
  have "\<exists>s'. feed fw_step (?h 0x0A s) 4 ds = Some (s', ds) \<and> g_fw s' = burn k (g_fw_addr (?h 0x0A s)) ds (g_fw (?h 0x0A s))"
    by (rule fw_burst_write) (use assms(1) len in \<open>simp_all add: fw_pow2_def\<close>)
  then obtain s' where w: "feed fw_step (?h 0x0A s) 4 ds = Some (s', ds)" "g_fw s' = burn k ?a ds (g_fw s)" by auto
  define t where "t = fw_release store s'"
  have t: "g_fw t = burn k ?a ds (g_fw s)" "\<not> g_fw_hold t" by (simp_all add: t_def w)
  have "\<exists>u'. feed fw_step (?h 0x03 t) 4 xs = Some (u', map (\<lambda>i. g_fw (?h 0x03 t) ! ((unat (g_fw_addr (?h 0x03 t)) + i) mod 2 ^ k)) [0..<length xs])
    \<and> g_fw u' = g_fw (?h 0x03 t)"
    by (rule fw_burst_read) (use k t len assms(4) in \<open>simp_all add: fw_pow2_def\<close>)
  then obtain u' where r: "feed fw_step (?h 0x03 t) 4 xs = Some (u', map (\<lambda>i. g_fw t ! ((unat ?a + i) mod 2 ^ k)) [0..<length xs])"
    "g_fw u' = g_fw t" by auto
  have "map (\<lambda>i. g_fw t ! ((unat ?a + i) mod 2 ^ k)) [0..<length xs] = ds"
    using burn_same [OF k assms(3), of _ ?a] assms(4) by (intro nth_equalityI) (simp_all add: t)
  then have "fw_transfer store t ([0x03, a2, a1, a0] @ xs) = Some (fw_release store u', [0, 0, 0, 0] @ ds)"
    unfolding fw_transfer_def fw_header [OF t(2) disjI2 [OF refl]] using r(1) by simp
  moreover have "fw_transfer store s ([0x0A, a2, a1, a0] @ ds) = Some (t, [0, 0, 0, 0] @ ds)"
    unfolding fw_transfer_def fw_header [OF assms(2) disjI1 [OF refl]] using w(1) by (simp add: t_def)
  moreover have "g_fw (fw_release store u') ! j = g_fw s ! j"
    if "j < 2 ^ k" "\<forall>i < length ds. (unat ?a + i) mod 2 ^ k \<noteq> j" for j
    using burn_other [OF k(1) that(1) k(2) that(2)] by (simp add: r t)
  ultimately show ?thesis by blast
qed


section \<open>The backup chip behind the port\<close>

text \<open>
  A guest's transfer: for every byte it selects the slot with the hold bit set except on the last,
  stores the byte, waits for the busy bit to clear at its deadline and reads the answer.
\<close>

definition aux_byte :: "(string \<Rightarrow> u8 list \<Rightarrow> bool) \<Rightarrow> bool \<Rightarrow> u8 \<Rightarrow> 'a spi_scheme \<Rightarrow> ('a spi_scheme \<times> u8) option" where
  "aux_byte store hold v s = do {
     s \<leftarrow> auxspi_write_data store v (auxspi_write_cnt (if hold then 0xA040 else 0xA000) s);
     Some (let s = bus_events (g_auxspi_deadline s) s in (s, auxspi_read_data s)) }"

fun aux_transfer :: "(string \<Rightarrow> u8 list \<Rightarrow> bool) \<Rightarrow> u8 list \<Rightarrow> 'a spi_scheme \<Rightarrow> ('a spi_scheme \<times> u8 list) option" where
  "aux_transfer store [] s = Some (s, [])"
| "aux_transfer store (v # vs) s = do {
     (s, r) \<leftarrow> aux_byte store (vs \<noteq> []) v s;
     (s, rs) \<leftarrow> aux_transfer store vs s;
     Some (s, r # rs) }"

definition aux_part :: "'a spi_scheme \<Rightarrow> _" where
  "aux_part s = (g_auxspicnt s, g_auxspi_hold s, g_auxspi_pos s, g_auxspi_data s, g_cart_backup s, g_cart_has_ir s,
     g_cart_ir_cmd s, g_cart_save_path s, g_cart_persistence_detached s)"

lemma aux_partD:
  assumes "aux_part t = aux_part s"
  shows "g_auxspicnt t = g_auxspicnt s" "g_auxspi_hold t = g_auxspi_hold s" "g_auxspi_pos t = g_auxspi_pos s"
    "g_auxspi_data t = g_auxspi_data s" "g_cart_backup t = g_cart_backup s" "g_cart_has_ir t = g_cart_has_ir s"
    "g_cart_ir_cmd t = g_cart_ir_cmd s" "g_cart_save_path t = g_cart_save_path s"
    "g_cart_persistence_detached t = g_cart_persistence_detached s"
  using assms by (simp_all add: aux_part_def)

lemma aux_part_frames:
  "aux_part (nds_raise_irq p b s) = aux_part s" "aux_part (nds_reschedule_slice d s) = aux_part s"
  "aux_part (s\<lparr>g_spi_deadline := d, g_spicnt := c\<rparr>) = aux_part s" "aux_part (s\<lparr>g_auxspi_deadline := d\<rparr>) = aux_part s"
  by (simp_all add: aux_part_def nds_raise_irq_def irq_recompute_def runtime_clear_fast_limit_def nds_reschedule_slice_def Let_def)

lemma bus_events_aux:
  "aux_part (bus_events d s) = aux_part (if g_auxspi_deadline s \<le> d then s\<lparr>g_auxspicnt := g_auxspicnt s AND NOT 0x0080\<rparr> else s)"
  by (simp add: bus_events_def Let_def aux_part_frames if_distrib [of aux_part] del: if_image_distrib)
    (simp add: aux_part_def)

text \<open>The chip once a completed transfer has been written through to the host.\<close>

definition saved :: "(string \<Rightarrow> u8 list \<Rightarrow> bool) \<Rightarrow> 'a spi_scheme \<Rightarrow> cart_backup \<Rightarrow> cart_backup" where
  "saved store s c =
    (if dirty c \<and> g_cart_save_path s \<noteq> [] \<and> \<not> g_cart_persistence_detached s \<and> store (g_cart_save_path s) (sram c)
     then c\<lparr>dirty := False\<rparr> else c)"

lemma sram_write_part:
  assumes "nds_cart_backup_spi_write (g_cart_backup s) v pos fin = Some (c, r)"
  shows "\<exists>t. cart_sram_spi_write store v pos fin s = Some (r, t)
    \<and> aux_part t = aux_part (s\<lparr>g_cart_backup := if fin then saved store s c else c\<rparr>) \<and> g_auxspi_deadline t = g_auxspi_deadline s"
  using assms
  by (auto simp: cart_sram_spi_write_def nds_io_flush_cartridge_save_def saved_def aux_part_def Let_def)

text \<open>Ready for the byte at position \<open>p\<close> of a transfer.\<close>

definition aux_ready :: "u32 \<Rightarrow> 'a spi_scheme \<Rightarrow> bool" where
  "aux_ready p s \<longleftrightarrow> g_auxspicnt s AND 0x0080 = 0 \<and> (if p = 0 then \<not> g_auxspi_hold s else g_auxspi_hold s \<and> g_auxspi_pos s + 1 = p)"

lemma aux_byte_step:
  fixes s :: "'a spi_scheme"
  assumes "aux_ready p s"
    and dev: "\<And>u :: 'a spi_scheme. aux_part u = aux_part (s\<lparr>g_auxspicnt := if hold then 0xA0C0 else 0xA080, g_auxspi_hold := hold, g_auxspi_pos := p\<rparr>) \<Longrightarrow>
      \<exists>t. cart_spi_write store v p (\<not> hold) u = Some (r, t)
        \<and> aux_part t = aux_part (u\<lparr>g_cart_backup := c, g_cart_ir_cmd := i\<rparr>)"
  shows "\<exists>t. aux_byte store hold v s = Some (t, r) \<and> g_cart_backup t = c \<and> g_cart_ir_cmd t = i
    \<and> g_cart_has_ir t = g_cart_has_ir s \<and> g_cart_save_path t = g_cart_save_path s
    \<and> g_cart_persistence_detached t = g_cart_persistence_detached s
    \<and> (if hold then p + 1 \<noteq> 0 \<longrightarrow> aux_ready (p + 1) t else aux_ready 0 t)"
proof -
  let ?v = "if hold then 0xA040 else 0xA000 :: u16"
  let ?c = "if hold then 0xA0C0 else 0xA080 :: u16"
  have b: "g_auxspicnt s AND 0x0080 = 0" using assms(1) by (simp add: aux_ready_def)
  define s1 where "s1 = auxspi_write_cnt ?v s"
  have s1: "aux_part s1 = aux_part (s\<lparr>g_auxspicnt := ?v\<rparr>)"
    using b by (simp add: s1_def auxspi_write_cnt_def aux_part_def)
  define u where "u = s1\<lparr>g_auxspicnt := ?c, g_auxspi_hold := hold, g_auxspi_pos := p\<rparr>"
  have u: "aux_part u = aux_part (s\<lparr>g_auxspicnt := ?c, g_auxspi_hold := hold, g_auxspi_pos := p\<rparr>)"
    using aux_partD [OF s1] by (simp add: u_def aux_part_def)
  obtain t where t: "cart_spi_write store v p (\<not> hold) u = Some (r, t)" "aux_part t = aux_part (u\<lparr>g_cart_backup := c, g_cart_ir_cmd := i\<rparr>)"
    using dev [OF u] by blast
  define now where "now = (if g_nds_active (t\<lparr>g_auxspi_data := r\<rparr>) = ARM9 then drop_bit 1 (g_runtime_cycles (t\<lparr>g_auxspi_data := r\<rparr>))
    else g_runtime_cycles (t\<lparr>g_auxspi_data := r\<rparr>))"
  define w where "w = nds_reschedule_slice (now + ucast (8 * push_bit (unat (g_auxspicnt t AND 3)) 8 :: u32))
    (t\<lparr>g_auxspi_data := r, g_auxspi_deadline := now + ucast (8 * push_bit (unat (g_auxspicnt t AND 3)) 8 :: u32)\<rparr>)"
  have "auxspi_write_data store v s1 = Some w"
  proof -
    have pos: "(if \<not> hold then (s2\<lparr>g_auxspi_pos := if g_auxspi_hold s2 then g_auxspi_pos s2 + 1 else 0, g_auxspi_hold := False\<rparr>, True)
              else if \<not> g_auxspi_hold s2 then (s2\<lparr>g_auxspi_hold := True, g_auxspi_pos := 0\<rparr>, False)
              else (s2\<lparr>g_auxspi_pos := g_auxspi_pos s2 + 1\<rparr>, False)) = (u, \<not> hold)"
      if "s2 = s1\<lparr>g_auxspicnt := ?c\<rparr>" for s2
      using assms(1) aux_partD [OF s1] by (auto simp: that u_def aux_ready_def split: if_splits)
    have c1: "g_auxspicnt s1 = ?v" using aux_partD(1) [OF s1] by simp
    then have c2: "s1\<lparr>g_auxspicnt := g_auxspicnt s1 OR 0x0080\<rparr> = s1\<lparr>g_auxspicnt := ?c\<rparr>" by simp
    have c3: "g_auxspicnt (s1\<lparr>g_auxspicnt := ?c\<rparr>) AND 0x0040 \<noteq> 0 \<longleftrightarrow> hold" by simp
    have c4: "g_auxspicnt s1 AND 0x8000 \<noteq> 0" "g_auxspicnt s1 AND 0x2000 \<noteq> 0" "g_auxspicnt s1 AND 0x0080 = 0"
      using c1 by simp_all
    show ?thesis
      unfolding auxspi_write_data_def Let_def c2 c3 pos [OF refl] prod.case
      using c4 t(1) by (simp add: u_def w_def now_def)
  qed
  moreover define x where "x = bus_events (g_auxspi_deadline w) w"
  ultimately have res: "aux_byte store hold v s = Some (x, auxspi_read_data x)"
    by (simp add: aux_byte_def s1_def Let_def)
  have w: "aux_part w = aux_part (t\<lparr>g_auxspi_data := r\<rparr>)"
    unfolding w_def aux_part_frames by (simp add: aux_part_def)
  have "aux_part x = aux_part (w\<lparr>g_auxspicnt := g_auxspicnt w AND NOT 0x0080\<rparr>)" by (simp add: x_def bus_events_aux)
  then have "aux_part x = aux_part (s\<lparr>g_auxspicnt := if hold then 0xA040 else 0xA000, g_auxspi_hold := hold, g_auxspi_pos := p,
      g_auxspi_data := r, g_cart_backup := c, g_cart_ir_cmd := i\<rparr>)"
    using aux_partD [OF w] aux_partD [OF t(2)] aux_partD [OF u] by (simp add: aux_part_def)
  note x = aux_partD [OF this]
  have "auxspi_read_data x = r" by (simp add: auxspi_read_data_def x)
  then show ?thesis using res x by (simp add: aux_ready_def)
qed

lemma saved_cong:
  "g_cart_save_path t = g_cart_save_path s \<Longrightarrow> g_cart_persistence_detached t = g_cart_persistence_detached s \<Longrightarrow>
    saved store t c = saved store s c"
  by (simp add: saved_def)

text \<open>Bytes from position \<open>p\<close> on go to the chip at positions from \<open>p - off\<close> on.\<close>

lemma aux_feed:
  fixes s :: "'a spi_scheme"
  assumes "aux_ready p s" "g_cart_has_ir s \<longrightarrow> p \<noteq> 0 \<and> g_cart_ir_cmd s = 0"
    and "off = (if g_cart_has_ir s then 1 else 0)" "unat p + length bs < 2 ^ 32" "bs \<noteq> []"
    and "feed nds_cart_backup_spi_write (g_cart_backup s) (p - off) bs = Some (c, rs)"
  shows "\<exists>t. aux_transfer store bs s = Some (t, rs) \<and> g_cart_backup t = saved store s c \<and> aux_ready 0 t
    \<and> g_cart_has_ir t = g_cart_has_ir s"
  using assms
proof (induction bs arbitrary: s p rs)
  case (Cons v vs)
  let ?hold = "vs \<noteq> []"
  obtain c1 r rs' where st: "nds_cart_backup_spi_write (g_cart_backup s) v (p - off) (\<not> ?hold) = Some (c1, r)"
    and rest: "feed nds_cart_backup_spi_write c1 (p - off + 1) vs = Some (c, rs')" and rs: "rs = r # rs'"
    using Cons.prems(6) by (auto split: bind_splits)
  let ?c1 = "if ?hold then c1 else saved store s c1"
  have "\<exists>t. aux_byte store ?hold v s = Some (t, r) \<and> g_cart_backup t = ?c1 \<and> g_cart_ir_cmd t = g_cart_ir_cmd s
    \<and> g_cart_has_ir t = g_cart_has_ir s \<and> g_cart_save_path t = g_cart_save_path s
    \<and> g_cart_persistence_detached t = g_cart_persistence_detached s
    \<and> (if ?hold then p + 1 \<noteq> 0 \<longrightarrow> aux_ready (p + 1) t else aux_ready 0 t)"
  proof (rule aux_byte_step [OF Cons.prems(1)])
    fix u :: "'a spi_scheme"
    assume "aux_part u = aux_part (s\<lparr>g_auxspicnt := if ?hold then 0xA0C0 else 0xA080, g_auxspi_hold := ?hold, g_auxspi_pos := p\<rparr>)"
    note u = aux_partD [OF this]
    have "nds_cart_backup_spi_write (g_cart_backup u) v (p - off) (\<not> ?hold) = Some (c1, r)" using st u by simp
    from sram_write_part [OF this, of store] obtain t where t: "cart_sram_spi_write store v (p - off) (\<not> ?hold) u = Some (r, t)"
      "aux_part t = aux_part (u\<lparr>g_cart_backup := if \<not> ?hold then saved store u c1 else c1\<rparr>)" by blast
    have "saved store u c1 = saved store s c1" by (rule saved_cong) (simp_all add: u)
    then have "aux_part t = aux_part (u\<lparr>g_cart_backup := ?c1, g_cart_ir_cmd := g_cart_ir_cmd s\<rparr>)"
      using aux_partD [OF t(2)] u by (simp add: aux_part_def)
    moreover have "cart_spi_write store v p (\<not> ?hold) u = cart_sram_spi_write store v (p - off) (\<not> ?hold) u"
      using Cons.prems(2,3) u by (simp add: cart_spi_write_def)
    ultimately show "\<exists>t. cart_spi_write store v p (\<not> ?hold) u = Some (r, t)
        \<and> aux_part t = aux_part (u\<lparr>g_cart_backup := ?c1, g_cart_ir_cmd := g_cart_ir_cmd s\<rparr>)" using t(1) by auto
  qed
  then obtain t where t: "aux_byte store ?hold v s = Some (t, r)" "g_cart_backup t = ?c1" "g_cart_ir_cmd t = g_cart_ir_cmd s"
    "g_cart_has_ir t = g_cart_has_ir s" "g_cart_save_path t = g_cart_save_path s"
    "g_cart_persistence_detached t = g_cart_persistence_detached s"
    "if ?hold then p + 1 \<noteq> 0 \<longrightarrow> aux_ready (p + 1) t else aux_ready 0 t" by blast
  show ?case
  proof (cases "vs = []")
    case True
    then show ?thesis using t rest rs by simp
  next
    case False
    have p1: "unat (p + 1) = unat p + 1" using Cons.prems(4) by (simp add: unat_word_ariths)
    then have nz: "p + 1 \<noteq> 0" by auto
    have "\<exists>w. aux_transfer store vs t = Some (w, rs') \<and> g_cart_backup w = saved store t c \<and> aux_ready 0 w
      \<and> g_cart_has_ir w = g_cart_has_ir t"
      using False t nz p1 Cons.prems(2-4) rest
      by (intro Cons.IH [of "p + 1"]) (simp_all add: add_diff_eq diff_add_eq [symmetric])
    then show ?thesis using False t rs saved_cong [OF t(5,6), of store c] by auto
  qed
qed simp

text \<open>
  C8. The AUXSPI port delivers transfers. Bytes a guest clocks through the port, with hold asserted on
  all but the last and waiting for the busy bit each time, reach the backup chip as exactly one
  transfer: same order, positions 0, 1, 2 and so on, the last byte marked; each byte's answer is read
  back, and the port is ready for the next transfer. On an infrared cartridge the same holds of the
  bytes after a leading pass-through command. Only the completed transfer is written to the host file.
\<close>

theorem auxspi_delivers_transfer:
  assumes "aux_ready 0 s" and "bs \<noteq> []" and "length bs < 2 ^ 32 - 1"
    and "transfer nds_cart_backup_spi_write (g_cart_backup s) bs = Some (c, rs)"
  shows "\<exists>t. aux_transfer store (if g_cart_has_ir s then 0x00 # bs else bs) s = Some (t, if g_cart_has_ir s then 0 # rs else rs)
    \<and> g_cart_backup t = saved store s c \<and> aux_ready 0 t"
proof (cases "g_cart_has_ir s")
  case False
  then show ?thesis using aux_feed [of 0 s 0 bs c rs store] assms by (auto simp: transfer_def)
next
  case True
  let ?i = "0 :: u8"
  have "\<exists>t. aux_byte store True 0x00 s = Some (t, 0) \<and> g_cart_backup t = g_cart_backup s \<and> g_cart_ir_cmd t = ?i
    \<and> g_cart_has_ir t = g_cart_has_ir s \<and> g_cart_save_path t = g_cart_save_path s
    \<and> g_cart_persistence_detached t = g_cart_persistence_detached s
    \<and> (if True then (0 :: u32) + 1 \<noteq> 0 \<longrightarrow> aux_ready (0 + 1) t else aux_ready 0 t)"
  proof (rule aux_byte_step [OF assms(1)])
    fix u :: "'a spi_scheme"
    assume "aux_part u = aux_part (s\<lparr>g_auxspicnt := if True then 0xA0C0 else 0xA080, g_auxspi_hold := True, g_auxspi_pos := 0\<rparr>)"
    note u = aux_partD [OF this]
    show "\<exists>t. cart_spi_write store 0x00 0 (\<not> True) u = Some (0, t)
        \<and> aux_part t = aux_part (u\<lparr>g_cart_backup := g_cart_backup s, g_cart_ir_cmd := ?i\<rparr>)"
      using True u by (simp add: cart_spi_write_def aux_part_def)
  qed
  then obtain t where t: "aux_byte store True 0x00 s = Some (t, 0)" "g_cart_backup t = g_cart_backup s" "g_cart_ir_cmd t = 0"
    "g_cart_has_ir t = g_cart_has_ir s" "g_cart_save_path t = g_cart_save_path s"
    "g_cart_persistence_detached t = g_cart_persistence_detached s" "aux_ready 1 t" by auto
  have "\<exists>w. aux_transfer store bs t = Some (w, rs) \<and> g_cart_backup w = saved store t c \<and> aux_ready 0 w
      \<and> g_cart_has_ir w = g_cart_has_ir t"
    using assms(2-4) t True by (intro aux_feed [of 1 t 1]) (simp_all add: transfer_def)
  then show ?thesis using True t(1) assms(2) saved_cong [OF t(5,6), of store c] by auto
qed


section \<open>No transfer leaves its arrays\<close>

datatype spi_op = Spicnt u32 | Spidata u32 | Auxcnt u16 | Auxdata u8 | Bus_events u64 | Keys u32 | Touch u16 u16 bool

fun spi_do :: "(string \<Rightarrow> u8 list \<Rightarrow> bool) \<Rightarrow> ('a spi_scheme \<Rightarrow> 'a spi_scheme) \<Rightarrow> spi_op \<Rightarrow> 'a spi_scheme \<Rightarrow> 'a spi_scheme option" where
  "spi_do store stop (Spicnt v) s = Some (spicnt_write store v s)"
| "spi_do store stop (Spidata v) s = spidata_write store stop v s"
| "spi_do store stop (Auxcnt v) s = Some (auxspi_write_cnt v s)"
| "spi_do store stop (Auxdata v) s = auxspi_write_data store v s"
| "spi_do store stop (Bus_events t) s = Some (bus_events t s)"
| "spi_do store stop (Keys k) s = Some (nds_set_key_mask k s)"
| "spi_do store stop (Touch x y d) s = Some (nds_set_touch x y d s)"

fun spi_run where
  "spi_run store stop [] s = Some s"
| "spi_run store stop (x # xs) s = do { s \<leftarrow> spi_do store stop x s; spi_run store stop xs s }"

definition images :: "'a spi_scheme \<Rightarrow> u8 list \<times> cart_backup" where "images s = (g_fw s, g_cart_backup s)"

definition images_ok :: "u8 list \<times> cart_backup \<Rightarrow> bool" where
  "images_ok i \<longleftrightarrow> length (fst i) \<le> 2 ^ 32 \<and> chip_ok (snd i)"

definition same_size :: "u8 list \<times> cart_backup \<Rightarrow> u8 list \<times> cart_backup \<Rightarrow> bool" where
  "same_size i j \<longleftrightarrow> length (fst j) = length (fst i) \<and> length (sram (snd j)) = length (sram (snd i)) \<and> (images_ok i \<longrightarrow> images_ok j)"

lemma same_size_refl [simp]: "same_size i i" by (simp add: same_size_def)

lemma same_size_trans: "same_size i j \<Longrightarrow> same_size j k \<Longrightarrow> same_size i k" by (auto simp: same_size_def)

lemma images_frames [simp]:
  "images (nds_raise_irq p b s) = images s" "images (nds_reschedule_slice d s) = images s"
  "images (s\<lparr>g_spi_resp := r\<rparr>) = images s" "images (s\<lparr>g_spicnt := c\<rparr>) = images s" "images (s\<lparr>g_spi_deadline := d\<rparr>) = images s"
  "images (s\<lparr>g_auxspicnt := c\<rparr>) = images s" "images (s\<lparr>g_auxspi_hold := h\<rparr>) = images s" "images (s\<lparr>g_auxspi_pos := q\<rparr>) = images s"
  "images (s\<lparr>g_auxspi_data := r\<rparr>) = images s" "images (s\<lparr>g_auxspi_deadline := d\<rparr>) = images s"
  "images (s\<lparr>g_cart_ir_cmd := r\<rparr>) = images s"
  by (simp_all add: images_def nds_raise_irq_def irq_recompute_def runtime_clear_fast_limit_def nds_reschedule_slice_def Let_def)

lemma images_devices [simp]:
  "images (pm_release s) = images s" "images (tsc_release s) = images s" "images (snd (tsc_write v s)) = images s"
  "images (auxspi_write_cnt x s) = images s" "images (bus_events t s) = images s" "images (check_key_irq c k l s) = images s"
  "images (nds_set_touch a b d s) = images s" "images (fw_release store s) = images s"
  by (simp_all add: pm_release_def tsc_release_def tsc_write_def auxspi_write_cnt_def bus_events_def check_key_irq_def
      nds_set_touch_def fw_release_def nds_io_flush_firmware_save_def Let_def) (simp_all add: images_def)

lemma images_release [simp]: "images (release_device store d s) = images s"
  by (simp add: release_device_def)

lemma images_keys [simp]: "images (nds_set_key_mask k s) = images s"
  by (simp add: nds_set_key_mask_def Let_def) (simp add: images_def)

lemma images_pm:
  assumes "\<And>u. images (stop u) = images u"
  shows "images (snd (pm_write stop v s)) = images s"
proof -
  have "images (s\<lparr>g_pm_index := i, g_pm_hold := h\<rparr>) = images s" "images (s\<lparr>g_pm_regs := f\<rparr>) = images s"
    "images (s\<lparr>g_pm_regs := f, g_powered_off := h\<rparr>) = images s" for i h f by (simp_all add: images_def)
  then show ?thesis using assms by (simp add: pm_write_def Let_def)
qed

lemma fw_index:
  assumes "images_ok (images s)" "g_fw s \<noteq> []"
  shows "unat (a AND fw_mask s) < length (g_fw s)"
proof -
  have "length (g_fw s) - 1 < 2 ^ 32" using assms by (auto simp: images_ok_def images_def)
  then have "unat (fw_mask s) = length (g_fw s) - 1" using assms(2) by (simp add: fw_mask_def unat_of_nat take_bit_nat_eq_self)
  then show ?thesis using unat_and_le [of a "fw_mask s"] assms(2) by (cases "g_fw s") auto
qed

lemma fw_write_size:
  assumes "images_ok (images s)"
  shows "\<exists>r t. fw_write v s = Some (r, t) \<and> same_size (images s) (images t)"
proof (cases "g_fw s = []")
  case True
  then show ?thesis
    by (simp add: fw_write_def Let_def) (auto simp: same_size_def images_def images_ok_def)
next
  case False
  note i = fw_index [OF assms False, of "g_fw_addr s"]
  have "\<exists>r t. fw_write v s = Some (r, t) \<and> length (g_fw t) = length (g_fw s) \<and> g_cart_backup t = g_cart_backup s"
    using False i by (simp add: fw_write_def Let_def)
  then show ?thesis by (force simp: same_size_def images_def images_ok_def)
qed

lemma cart_write_size:
  assumes "images_ok (images s)"
  shows "\<exists>r t. cart_spi_write store v p fin s = Some (r, t) \<and> same_size (images s) (images t)"
proof -
  have ok: "chip_ok (g_cart_backup s)" using assms by (simp add: images_ok_def images_def)
  have sr: "\<exists>r t. cart_sram_spi_write store v q fin s = Some (r, t) \<and> same_size (images s) (images t)" for q
  proof -
    obtain c r where c: "nds_cart_backup_spi_write (g_cart_backup s) v q fin = Some (c, r)"
      using backup_chip.step_total [OF ok] by blast
    have ev: "chip_ok c" "length (sram c) = length (sram (g_cart_backup s))"
      using backup_chip.step_inv [OF ok c] backup_chip.step_rel [OF ok c] by (auto simp: chip_evolves_def)
    then have "chip_ok (c\<lparr>dirty := False\<rparr>)" by (simp add: chip_ok_def)
    then show ?thesis using c ev
      by (auto simp: cart_sram_spi_write_def nds_io_flush_cartridge_save_def same_size_def images_def images_ok_def Let_def)
  qed
  show ?thesis using sr [of p] sr [of "p - 1"] by (simp add: cart_spi_write_def)
qed

lemma spi_do_size:
  assumes stop: "\<And>u. images (stop u) = images u" and ok: "images_ok (images s)"
  shows "\<exists>t. spi_do store stop x s = Some t \<and> same_size (images s) (images t)"
proof (cases x)
  case (Spicnt v)
  then show ?thesis by (simp add: spicnt_write_def Let_def)
next
  case (Spidata v)
  let ?d = "drop_bit 8 (g_spicnt s) AND 3" and ?v = "ucast v :: u8"
  have "\<exists>r t. (if ?d = 0 then Some (pm_write stop ?v s) else if ?d = 1 then fw_write ?v s
      else if ?d = 2 then Some (tsc_write ?v s) else Some (0, s)) = Some (r, t) \<and> same_size (images s) (images t)"
    using fw_write_size [OF ok, of ?v] images_pm [of stop ?v s] stop images_devices(3) [of ?v s]
    by (cases "pm_write stop ?v s"; cases "tsc_write ?v s") auto
  then obtain r t where t: "(if ?d = 0 then Some (pm_write stop ?v s) else if ?d = 1 then fw_write ?v s
      else if ?d = 2 then Some (tsc_write ?v s) else Some (0, s)) = Some (r, t)" "same_size (images s) (images t)" by blast
  have "\<exists>u. spi_transfer store stop ?v s = Some u \<and> same_size (images s) (images u)"
    unfolding spi_transfer_def Let_def t(1) using t(2) by (simp add: Let_def)
  then show ?thesis using Spidata by (simp add: spidata_write_def)
next
  case (Auxdata v)
  let ?s = "s\<lparr>g_auxspicnt := g_auxspicnt s OR 0x0080\<rparr>"
  define P where "P = (if \<not> (g_auxspicnt ?s AND 0x0040 \<noteq> 0) then
      (?s\<lparr>g_auxspi_pos := if g_auxspi_hold ?s then g_auxspi_pos ?s + 1 else 0, g_auxspi_hold := False\<rparr>, True)
    else if \<not> g_auxspi_hold ?s then (?s\<lparr>g_auxspi_hold := True, g_auxspi_pos := 0\<rparr>, False)
    else (?s\<lparr>g_auxspi_pos := g_auxspi_pos ?s + 1\<rparr>, False))"
  obtain u l where P: "P = (u, l)" by (cases P)
  then have "images u = images s" by (auto simp: P_def images_def split: if_splits)
  then obtain r t where t: "cart_spi_write store v (g_auxspi_pos u) l u = Some (r, t)" "same_size (images s) (images t)"
    using cart_write_size [of u store v "g_auxspi_pos u" l] ok by auto
  have e: "auxspi_write_data store v s =
    (if g_auxspicnt s AND 0x8000 = 0 \<or> g_auxspicnt s AND 0x2000 = 0 \<or> g_auxspicnt s AND 0x0080 \<noteq> 0 then Some s
     else case P of (u, l) \<Rightarrow> do {
       (r, s) \<leftarrow> cart_spi_write store v (g_auxspi_pos u) l u;
       Some (let s = s\<lparr>g_auxspi_data := r\<rparr>;
                 delay = 8 * push_bit (unat (g_auxspicnt s AND 3)) 8 :: u32;
                 now = (if g_nds_active s = ARM9 then drop_bit 1 (g_runtime_cycles s) else g_runtime_cycles s);
                 s = s\<lparr>g_auxspi_deadline := now + ucast delay\<rparr>
             in nds_reschedule_slice (g_auxspi_deadline s) s) })"
    unfolding auxspi_write_data_def Let_def P_def by simp
  show ?thesis unfolding Auxdata spi_do.simps e P prod.case t(1) using t(2) by (simp add: Let_def)
qed simp_all

text \<open>
  C22. The serial buses are memory safe. From any firmware image and configured backup chip, every
  sequence of control and data stores on both buses, deadlines, key and pen changes runs without an
  access outside the firmware or backup image, and neither image changes its size.
\<close>

theorem spi_run_safe:
  assumes "\<forall>u. images (stop u) = images u" and "images_ok (images s)"
  shows "\<exists>t. spi_run store stop ops s = Some t \<and> same_size (images s) (images t)"
  using assms(2)
proof (induction ops arbitrary: s)
  case (Cons x xs)
  obtain u where u: "spi_do store stop x s = Some u" "same_size (images s) (images u)"
    using spi_do_size [of stop s store x] assms(1) Cons.prems by blast
  then have "images_ok (images u)" using Cons.prems by (simp add: same_size_def)
  from Cons.IH [OF this] u show ?case by (auto intro: same_size_trans)
qed simp

section \<open>Concrete buses\<close>

definition spi_boot :: spi where
  "spi_boot = rtc.extend rtc_boot (spi.fields 0 0 (- 1) (replicate 256 0xFF) [] False False False 0 0 0 0 0
     ((\<lambda>_. 0)(4 := 0x40)) ((\<lambda>_. 0)(0 := 0x7F, 2 := 0x01, 3 := 0x03, 4 := 0x0F)) False False 0 0xFFF 0 0 0xFFF 0x007F03FF (\<lambda>_. 0)
     \<lparr>cb_type = Eeprom, sram = replicate 512 0xFF, cmd = 0, status = 0, cb_addr = 0, dirty = False\<rparr> [] False False 0 0 False 0 (- 1))"

lemmas spi_boot_simps = spi_boot_def rtc.defs spi.defs

lemma spi_run_safe_witness:
  "\<exists>t. spi_run (\<lambda>_ _. True) (\<lambda>s. s) [Spicnt 0x8900, Spidata 0x0A, Bus_events 5000, Auxcnt 0xA040, Auxdata 0x06] spi_boot = Some t
    \<and> same_size (images spi_boot) (images t)"
  by (rule spi_run_safe) (simp_all add: images_ok_def images_def chip_ok_def spi_boot_simps)

lemma firmware_program_read_back_witness:
  "\<exists>t u. fw_transfer (\<lambda>_ _. False) spi_boot ([0x0A, 0, 0, 0xFF] @ [1, 2]) = Some (t, [0, 0, 0, 0] @ [1, 2])
     \<and> fw_transfer (\<lambda>_ _. False) t ([0x03, 0, 0, 0xFF] @ [0, 0]) = Some (u, [0, 0, 0, 0] @ [1, 2])"
proof -
  have "fw_pow2 8 spi_boot" "\<not> g_fw_hold spi_boot" by (simp_all add: fw_pow2_def spi_boot_simps)
  from firmware_program_read_back [OF this, of "[1, 2]" "[0, 0]" "\<lambda>_ _. False" 0 0 "0xFF"] show ?thesis by auto
qed

lemma auxspi_delivers_transfer_witness:
  "\<exists>t. aux_transfer (\<lambda>_ _. True) [0x06] (spi_boot\<lparr>g_auxspicnt := 0\<rparr>) = Some (t, [0])
    \<and> status (g_cart_backup t) = 0x02"
proof -
  let ?s = "spi_boot\<lparr>g_auxspicnt := 0\<rparr>"
  have f: "aux_ready 0 ?s" "\<not> g_cart_has_ir ?s" "sram (g_cart_backup ?s) \<noteq> []" "status (g_cart_backup ?s) = 0"
    by (simp_all add: aux_ready_def spi_boot_simps)
  from auxspi_delivers_transfer [OF f(1) _ _ wren_transfer [OF f(3)], where store = "\<lambda>_ _. True"] f(2,4)
  show ?thesis by (auto simp: saved_def)
qed

end
