(* ===== verification/Display.thy ===== *)
theory Display
  imports SpiBus
begin

text \<open>
  The display clock of \<open>runner/src/io.cpp\<close>: VCOUNT and its guest-written override, the DISPSTAT
  registers, line-match and VBlank interrupts, and the order in which the picture and geometry engines
  are called.  The engines' entry points are parameters: \<open>start_frame\<close> stands for the title patches', 2D and
  3D frame starts together, \<open>vblank\<close> for the 2D and 3D ones; the debug counters are left out.  Shown: a tick
  acts exactly at the LCD deadlines, the line counter is the scan position however the clock is stepped,
  and every frame brings its VBlank interrupt.
\<close>

section \<open>State\<close>

record display = spi +
  g_dispstat :: "nds_cpu \<Rightarrow> u16"
  g_vcount :: u16
  g_next_vcount :: u16
  g_next_vcount_valid :: bool
  g_vcount_match :: "nds_cpu \<Rightarrow> bool"
  g_in_vblank :: bool
  g_display_last :: u64

text \<open>The engines' entry points, in the state that holds them.\<close>

record 's engines =
  render_scanline :: "nat \<Rightarrow> 's \<Rightarrow> 's"
  start_frame :: "'s \<Rightarrow> 's"
  vblank :: "'s \<Rightarrow> 's"
  vcount144 :: "'s \<Rightarrow> 's"
  vcount215 :: "'s \<Rightarrow> 's"
  finish_frame :: "'s \<Rightarrow> 's"

definition SCAN :: u64 where "SCAN = 2130"
definition LINES :: u64 where "LINES = 263"
definition FRAME :: u64 where "FRAME = SCAN * LINES"
definition HBLANK_START :: u64 where "HBLANK_START = 1584"

definition hblank_index :: "u64 \<Rightarrow> u64" where
  "hblank_index c = (if c < HBLANK_START then 0 else (c - HBLANK_START) div SCAN + 1)"

section \<open>One scanline\<close>

definition next_line :: "'a display_scheme engines \<Rightarrow> u32 \<Rightarrow> 'a display_scheme \<Rightarrow> 'a display_scheme" where
  "next_line E physical_line s =
    (let s = (if physical_line = 0 then (start_frame E s)\<lparr>g_vcount := 0\<rparr>
              else if g_next_vcount_valid s then s\<lparr>g_vcount := g_next_vcount s\<rparr>
              else s\<lparr>g_vcount := g_vcount s + 1\<rparr>)
     in s\<lparr>g_next_vcount_valid := False\<rparr>)"

definition line_match :: "nds_cpu \<Rightarrow> 'a display_scheme \<Rightarrow> 'a display_scheme" where
  "line_match cpu s =
    (let match = push_bit 1 (g_dispstat s cpu AND 0x0080) OR drop_bit 8 (g_dispstat s cpu);
         s = s\<lparr>g_vcount_match := (g_vcount_match s)(cpu := (g_vcount s = match))\<rparr> in
     if g_vcount_match s cpu \<and> g_dispstat s cpu AND 0x0020 \<noteq> 0 then nds_raise_irq cpu 0x00000004 s else s)"

definition line_events :: "'a display_scheme engines \<Rightarrow> 'a display_scheme \<Rightarrow> 'a display_scheme" where
  "line_events E s =
    (if g_vcount s = 262 then s\<lparr>g_in_vblank := False\<rparr>
     else if g_vcount s = 192 then
       let s = s\<lparr>g_in_vblank := True\<rparr>;
           s = (if g_dispstat s ARM9 AND 0x0008 \<noteq> 0 then nds_raise_irq ARM9 0x00000001 s else s);
           s = (if g_dispstat s ARM7 AND 0x0008 \<noteq> 0 then nds_raise_irq ARM7 0x00000001 s else s) in vblank E s
     else if g_vcount s = 144 then vcount144 E s
     else if g_vcount s = 215 then vcount215 E s
     else s)"

definition scanline :: "'a display_scheme engines \<Rightarrow> u64 \<Rightarrow> 'a display_scheme \<Rightarrow> 'a display_scheme" where
  "scanline E i s = line_events E (line_match ARM7 (line_match ARM9 (next_line E (ucast (i mod LINES)) s)))"

section \<open>The clock\<close>

text \<open>\<open>for (i = first; i < last; ++i)\<close>: the three loops of the tick.\<close>

definition count_up :: "u64 \<Rightarrow> u64 \<Rightarrow> u64 list" where
  "count_up a b = map word_of_nat [unat a..<unat b]"

definition nds_tick_display :: "'a display_scheme engines \<Rightarrow> u64 \<Rightarrow> 'a display_scheme \<Rightarrow> 'a display_scheme" where
  "nds_tick_display E cycles s =
    (let lines = count_up (hblank_index (g_display_last s)) (hblank_index cycles);
         s = fold (\<lambda>i s. let line = i mod LINES in if line < 192 then render_scanline E (unat line) s else s) lines s;
         previous_scanline = g_display_last s div SCAN; current_scanline = cycles div SCAN;
         previous_frame = g_display_last s div FRAME; current_frame = cycles div FRAME;
         s = s\<lparr>g_display_last := cycles\<rparr>;
         s = fold (scanline E) (count_up (previous_scanline + 1) (current_scanline + 1)) s
     in fold (\<lambda>_. finish_frame E) (count_up previous_frame current_frame) s)"

section \<open>Registers\<close>

definition dispstat_read :: "nds_cpu \<Rightarrow> 'a display_scheme \<Rightarrow> u16" where
  "dispstat_read cpu s =
    (let v = g_dispstat s cpu AND 0xFFB8;
         v = (if g_in_vblank s then v OR 0x0001 else v);
         v = (if g_vcount_match s cpu then v OR 0x0004 else v) in v)"

definition mask_for :: "u32 \<Rightarrow> u32" where
  "mask_for width = (if width \<ge> 4 then 0xFFFFFFFF else push_bit (unat (width * 8)) 1 - 1)"

definition display_read :: "nds_cpu \<Rightarrow> u32 \<Rightarrow> u32 \<Rightarrow> 'a display_scheme \<Rightarrow> u32" where
  "display_read cpu addr width s =
    (let m = mask_for width; v = dispstat_read cpu s in
     if addr = 0x04000004 \<or> addr = 0x04000005 then
       (if addr = 0x04000004 \<and> width = 4 then ucast v OR push_bit 16 (ucast (g_vcount s))
        else drop_bit (unat (addr AND 1) * 8) (ucast v) AND m)
     else drop_bit (unat (addr AND 1) * 8) (ucast (g_vcount s)) AND m)"

text \<open>Stores to DISPSTAT and VCOUNT; a written line number takes effect at the next scanline.\<close>

definition dispstat_write :: "nds_cpu \<Rightarrow> u32 \<Rightarrow> u32 \<Rightarrow> u32 \<Rightarrow> 'a display_scheme \<Rightarrow> 'a display_scheme" where
  "dispstat_write cpu addr v width s =
    (if width = 1 then s
     else let shift = unat (addr AND 1) * 8; wmask = push_bit shift (mask_for width);
              merged = (ucast (g_dispstat s cpu) AND NOT wmask) OR (push_bit shift v AND wmask);
              s = s\<lparr>g_dispstat := (g_dispstat s)(cpu := ucast (merged AND 0xFFB8))\<rparr> in
       if addr = 0x04000004 \<and> width = 4 then s\<lparr>g_next_vcount := ucast (drop_bit 16 v), g_next_vcount_valid := True\<rparr> else s)"

definition vcount_write :: "u32 \<Rightarrow> u32 \<Rightarrow> 'a display_scheme \<Rightarrow> 'a display_scheme" where
  "vcount_write v width s =
    (if width = 2 then s\<lparr>g_next_vcount := ucast v, g_next_vcount_valid := True\<rparr> else s)"


section \<open>Deadlines\<close>

text \<open>The next HBlank or line start after a time, as \<open>next_scheduled_event_time\<close> of \<open>scheduler.cpp\<close> computes it.\<close>

definition lcd_deadline :: "u64 \<Rightarrow> u64" where
  "lcd_deadline now =
    (let line_base = now div 2130 * 2130; pos = now - line_base
     in if pos < 1584 then line_base + 1584 else line_base + 2130)"

lemmas lcd_constants = SCAN_def LINES_def FRAME_def HBLANK_START_def

lemma unat_div_const: "unat (t div n) = unat t div unat n" for t n :: u64 by (rule unat_div_distrib)

lemma unat_line: "unat (t div SCAN) = unat t div 2130"
  by (simp add: SCAN_def unat_div_distrib)

lemma unat_frame: "unat (t div FRAME) = unat t div 560190"
  by (simp add: lcd_constants unat_div_distrib)

lemma unat_hblank_index: "unat (hblank_index t) = (unat t + 546) div 2130"
proof (cases "t < HBLANK_START")
  case True
  then have "unat t < 1584" by (simp add: HBLANK_START_def word_less_nat_alt)
  with True show ?thesis by (simp add: hblank_index_def)
next
  case False
  then have le: "1584 \<le> unat t" by (simp add: HBLANK_START_def word_less_nat_alt not_less)
  have d: "unat ((t - HBLANK_START) div SCAN) = (unat t - 1584) div 2130"
    using le by (simp add: lcd_constants unat_div_distrib unat_sub word_le_nat_alt)
  have b: "(unat t - 1584) div 2130 + 1 < 2 ^ 64"
    using unsigned_less [of t, where 'a = nat] div_le_dividend [of "unat t - 1584" 2130] le by simp
  have "unat ((t - HBLANK_START) div SCAN + 1) = (unat t - 1584) div 2130 + 1"
    using b by (subst unat_add_lem [THEN iffD1]) (simp_all add: d)
  moreover have "(unat t - 1584) div 2130 + 1 = (unat t + 546) div 2130"
  proof -
    from le obtain k where "unat t = 1584 + k" by (metis le_Suc_ex)
    then show ?thesis by simp
  qed
  ultimately show ?thesis using False by (simp add: hblank_index_def)
qed

lemma unat_lcd_deadline:
  assumes "unat t < 2 ^ 64 - 2130"
  shows "unat (lcd_deadline t) =
    (if unat t mod 2130 < 1584 then unat t div 2130 * 2130 + 1584 else unat t div 2130 * 2130 + 2130)"
proof -
  have le: "unat t div 2130 * 2130 \<le> unat t" by simp
  have base: "unat (t div 2130 * 2130) = unat t div 2130 * 2130"
    using le unsigned_less [of t, where 'a = nat] by (simp add: unat_word_ariths unat_div_distrib)
  then have pos: "unat (t - t div 2130 * 2130) = unat t mod 2130"
    using le by (simp add: unat_sub word_le_nat_alt minus_div_mult_eq_mod unat_mod_distrib)
  have s: "unat t div 2130 * 2130 + 2130 < 2 ^ 64" using le assms by linarith
  have "unat (t div 2130 * 2130 + 1584) = unat t div 2130 * 2130 + 1584"
    using s by (simp add: unat_word_ariths(1) base)
  moreover have "unat (t div 2130 * 2130 + 2130) = unat t div 2130 * 2130 + 2130"
    using s by (simp add: unat_word_ariths(1) base)
  ultimately show ?thesis
    unfolding lcd_deadline_def Let_def word_less_nat_alt pos by simp
qed

lemma count_up_empty: "unat b \<le> unat a \<Longrightarrow> count_up a b = []"
  by (simp add: count_up_def)

lemma count_up_one: "unat b = unat a + 1 \<Longrightarrow> count_up a b = [a]"
  by (simp add: count_up_def)

lemma raster_shift: "(q * 2130 + r + 546) div 2130 = q + (r + 546) div 2130" for q r :: nat
  by (simp only: add.assoc)

lemma raster_hblank: "r < 2130 \<Longrightarrow> (r + 546) div 2130 = (if r < 1584 then 0 else 1)" for r :: nat
  by (auto intro: div_nat_eqI)

lemma raster_gap:
  fixes n :: nat
  assumes "n \<le> m" and "m < (if n mod 2130 < 1584 then n div 2130 * 2130 + 1584 else n div 2130 * 2130 + 2130)"
  shows "m div 2130 = n div 2130" and "(m + 546) div 2130 = (n + 546) div 2130"
proof -
  define q where "q = n div 2130"
  define r where "r = n mod 2130"
  have n: "n = q * 2130 + r" and r: "r < 2130" by (simp_all add: q_def r_def)
  from assms(1) obtain k where k: "m = n + k" by (metis le_Suc_ex)
  define r' where "r' = r + k"
  have m: "m = q * 2130 + r'" and rr: "r \<le> r'" by (simp_all add: k n r'_def)
  have r': "r' < (if r < 1584 then 1584 else 2130)"
    using assms(2) unfolding q_def [symmetric] r_def [symmetric] m by (simp split: if_splits)
  then have lt: "r' < 2130" by (simp split: if_splits)
  show "m div 2130 = n div 2130" unfolding m n using lt r by simp
  show "(m + 546) div 2130 = (n + 546) div 2130"
    unfolding m n raster_shift raster_hblank [OF lt] raster_hblank [OF r] using rr r' by (simp split: if_splits)
qed

lemma raster_deadline:
  fixes n :: nat
  assumes "m = (if n mod 2130 < 1584 then n div 2130 * 2130 + 1584 else n div 2130 * 2130 + 2130)"
  shows "m div 2130 = n div 2130 + (if n mod 2130 < 1584 then 0 else 1)"
    and "(m + 546) div 2130 = (n + 546) div 2130 + (if n mod 2130 < 1584 then 1 else 0)"
proof -
  define q where "q = n div 2130"
  define r where "r = n mod 2130"
  have n: "n = q * 2130 + r" and r: "r < 2130" by (simp_all add: q_def r_def)
  have m: "m = (if r < 1584 then q * 2130 + 1584 else q * 2130 + 2130)" using assms by (simp add: q_def r_def)
  show "m div 2130 = n div 2130 + (if n mod 2130 < 1584 then 0 else 1)"
    unfolding r_def [symmetric] q_def [symmetric] m by simp
  show "(m + 546) div 2130 = (n + 546) div 2130 + (if n mod 2130 < 1584 then 1 else 0)"
    unfolding r_def [symmetric] unfolding n raster_shift raster_hblank [OF r] m by simp
qed

section \<open>What the engines must leave alone\<close>

definition disp_part :: "'a display_scheme \<Rightarrow> _" where
  "disp_part s = (g_dispstat s, g_vcount s, g_next_vcount s, g_next_vcount_valid s, g_in_vblank s, g_display_last s,
     \<lambda>cpu. bit (g_if s cpu) 0)"

text \<open>
  The engines keep their own state: they neither write the display registers, which are private to
  \<open>io.cpp\<close>, nor raise or clear the VBlank interrupt.
\<close>

definition engines_ok :: "'a display_scheme engines \<Rightarrow> bool" where
  "engines_ok E \<longleftrightarrow> (\<forall>s. disp_part (start_frame E s) = disp_part s \<and> disp_part (vblank E s) = disp_part s \<and>
     disp_part (vcount144 E s) = disp_part s \<and> disp_part (vcount215 E s) = disp_part s \<and>
     disp_part (finish_frame E s) = disp_part s \<and> (\<forall>line. disp_part (render_scanline E line s) = disp_part s))"

lemma disp_partD:
  assumes "disp_part s = disp_part t"
  shows "g_dispstat s = g_dispstat t" "g_vcount s = g_vcount t" "g_next_vcount_valid s = g_next_vcount_valid t"
    "g_in_vblank s = g_in_vblank t" "g_display_last s = g_display_last t" "bit (g_if s cpu) 0 = bit (g_if t cpu) 0"
  using assms by (auto simp: disp_part_def dest: fun_cong)

lemma engines_okD:
  assumes "engines_ok E"
  shows "disp_part (start_frame E s) = disp_part s" "disp_part (vblank E s) = disp_part s"
    "disp_part (vcount144 E s) = disp_part s" "disp_part (vcount215 E s) = disp_part s"
    "disp_part (finish_frame E s) = disp_part s" "disp_part (render_scanline E line s) = disp_part s"
  using assms by (auto simp: engines_ok_def)

lemma fold_const: "length xs = n \<Longrightarrow> fold (\<lambda>_. f) xs s = (f ^^ n) s"
  by (induction xs arbitrary: s n) (auto simp: funpow_swap1)

lemma line_index: "unat (i mod LINES) = unat i mod 263" "i mod LINES < 192 \<longleftrightarrow> unat i mod 263 < 192"
  by (simp_all add: LINES_def word_less_nat_alt unat_mod_distrib)

definition draw_line :: "'a display_scheme engines \<Rightarrow> u64 \<Rightarrow> 'a display_scheme \<Rightarrow> 'a display_scheme" where
  "draw_line E i s = (if unat i mod 263 < 192 then render_scanline E (unat i mod 263) s else s)"

lemma draw_line_part: "engines_ok E \<Longrightarrow> disp_part (draw_line E i s) = disp_part s"
  by (simp add: draw_line_def engines_okD)

lemma draw_lines_part: "engines_ok E \<Longrightarrow> disp_part (fold (draw_line E) is s) = disp_part s"
  by (induction "is" arbitrary: s) (auto simp: draw_line_part)

lemma unat_next_line: "unat (t div SCAN + 1) = unat t div 2130 + 1"
proof -
  have "unat t div 2130 + 1 < 2 ^ 64" using unsigned_less [of t, where 'a = nat] by simp
  then show ?thesis by (simp add: unat_word_ariths(1) unat_line)
qed

lemma tick_unfold:
  assumes "engines_ok E"
  shows "nds_tick_display E c s =
    (finish_frame E ^^ (unat c div 2130 div 263 - unat (g_display_last s) div 2130 div 263))
     (fold (scanline E) (count_up (g_display_last s div SCAN + 1) (c div SCAN + 1))
       ((fold (draw_line E) (count_up (hblank_index (g_display_last s)) (hblank_index c)) s)\<lparr>g_display_last := c\<rparr>))"
proof -
  have d: "(\<lambda>i s. if i mod LINES < 192 then render_scanline E (unat (i mod LINES)) s else s) = draw_line E"
    by (intro ext) (simp add: draw_line_def line_index)
  have f: "unat (t div FRAME) = unat t div 2130 div 263" for t by (simp add: unat_frame div_mult2_eq [symmetric])
  have l: "length (count_up (a div FRAME) (b div FRAME)) = unat b div 2130 div 263 - unat a div 2130 div 263" for a b
    by (simp add: count_up_def f)
  show ?thesis
    unfolding nds_tick_display_def Let_def d disp_partD(5) [OF draw_lines_part [OF assms]]
    by (rule fold_const [OF l])
qed

lemma tick_quiet:
  assumes "engines_ok E" and "unat c div 2130 = unat (g_display_last s) div 2130"
    and "(unat c + 546) div 2130 = (unat (g_display_last s) + 546) div 2130"
  shows "nds_tick_display E c s = s\<lparr>g_display_last := c\<rparr>"
proof -
  have "count_up (hblank_index (g_display_last s)) (hblank_index c) = []"
    by (rule count_up_empty) (simp only: unat_hblank_index assms(3) order.refl)
  moreover have "count_up (g_display_last s div SCAN + 1) (c div SCAN + 1) = []"
    by (rule count_up_empty) (simp only: unat_next_line assms(2) order.refl)
  ultimately show ?thesis unfolding tick_unfold [OF assms(1)] assms(2) by (simp only: fold_simps diff_self_eq_0 funpow_0)
qed

lemma tick_draws:
  assumes "engines_ok E" and "unat c div 2130 = unat (g_display_last s) div 2130"
    and "(unat (g_display_last s) + 546) div 2130 = unat (g_display_last s) div 2130"
    and "(unat c + 546) div 2130 = unat (g_display_last s) div 2130 + 1"
  shows "nds_tick_display E c s =
    (if unat c div 2130 mod 263 < 192 then render_scanline E (unat c div 2130 mod 263) s else s)\<lparr>g_display_last := c\<rparr>"
proof -
  have i: "unat (hblank_index (g_display_last s)) = unat c div 2130" by (simp only: unat_hblank_index assms(2,3))
  have "count_up (hblank_index (g_display_last s)) (hblank_index c) = [hblank_index (g_display_last s)]"
    by (rule count_up_one) (simp only: unat_hblank_index assms(3,4))
  moreover have "count_up (g_display_last s div SCAN + 1) (c div SCAN + 1) = []"
    by (rule count_up_empty) (simp only: unat_next_line assms(2) order.refl)
  ultimately show ?thesis unfolding tick_unfold [OF assms(1)] draw_line_def
    by (simp only: fold_simps diff_self_eq_0 funpow_0 i assms(2))
qed

lemma tick_starts_line:
  assumes "engines_ok E" and "unat c div 2130 = unat (g_display_last s) div 2130 + 1"
    and "(unat c + 546) div 2130 = (unat (g_display_last s) + 546) div 2130"
  shows "nds_tick_display E c s =
    (let t = scanline E (c div SCAN) (s\<lparr>g_display_last := c\<rparr>) in if unat c div 2130 mod 263 = 0 then finish_frame E t else t)"
proof -
  have "unat (g_display_last s div SCAN + 1) = unat (c div SCAN)" by (simp only: unat_next_line unat_line assms(2))
  then have e: "g_display_last s div SCAN + 1 = c div SCAN" by (simp only: word_unat_eq_iff)
  have "count_up (hblank_index (g_display_last s)) (hblank_index c) = []"
    by (rule count_up_empty) (simp only: unat_hblank_index assms(3) order.refl)
  moreover have "count_up (g_display_last s div SCAN + 1) (c div SCAN + 1) = [c div SCAN]"
    unfolding e by (rule count_up_one) (simp only: unat_next_line unat_line)
  moreover have "unat c div 2130 div 263 - unat (g_display_last s) div 2130 div 263 = (if unat c div 2130 mod 263 = 0 then 1 else 0)"
    unfolding assms(2) Suc_eq_plus1 [symmetric] div_Suc by simp
  ultimately show ?thesis unfolding tick_unfold [OF assms(1)] Let_def
    by (cases "unat c div 2130 mod 263 = 0") (simp_all only: simp_thms fold_simps if_True if_False One_nat_def funpow.simps comp_apply id_apply)
qed

text \<open>
  Between two LCD deadlines a display tick only moves the clock; at the deadline it draws exactly
  the line whose HBlank begins, or starts exactly the line that begins and, at line 0, publishes the
  finished frame.
\<close>

lemma display_acts_at_deadlines:
  assumes E: "engines_ok E" and le: "unat (g_display_last s) \<le> unat c" "unat c \<le> unat (lcd_deadline (g_display_last s))"
    and range: "unat (g_display_last s) < 2 ^ 64 - 2130"
  shows "nds_tick_display E c s =
    (if c \<noteq> lcd_deadline (g_display_last s) then s\<lparr>g_display_last := c\<rparr>
     else if unat (g_display_last s) mod 2130 < 1584 then
       (if unat c div 2130 mod 263 < 192 then render_scanline E (unat c div 2130 mod 263) s else s)\<lparr>g_display_last := c\<rparr>
     else let t = scanline E (c div SCAN) (s\<lparr>g_display_last := c\<rparr>)
          in if unat c div 2130 mod 263 = 0 then finish_frame E t else t)"
proof -
  have w: "unat c = unat (lcd_deadline (g_display_last s)) \<longleftrightarrow> c = lcd_deadline (g_display_last s)"
    by (simp only: word_unat_eq_iff)
  note deadline = unat_lcd_deadline [OF range]
  show ?thesis
  proof (cases "c = lcd_deadline (g_display_last s)")
    case False
    with le w have "unat c < unat (lcd_deadline (g_display_last s))" by linarith
    from raster_gap [OF le(1) this [unfolded deadline]] have "nds_tick_display E c s = s\<lparr>g_display_last := c\<rparr>"
      by (rule tick_quiet [OF E])
    with False show ?thesis by simp
  next
    case True
    then have m: "unat c = (if unat (g_display_last s) mod 2130 < 1584 then unat (g_display_last s) div 2130 * 2130 + 1584
        else unat (g_display_last s) div 2130 * 2130 + 2130)"
      by (simp only: deadline)
    note step = raster_deadline [OF m]
    show ?thesis
    proof (cases "unat (g_display_last s) mod 2130 < 1584")
      case early: True
      have h: "(unat (g_display_last s) + 546) div 2130 = unat (g_display_last s) div 2130"
        using raster_shift [of "unat (g_display_last s) div 2130" "unat (g_display_last s) mod 2130"]
        by (simp only: div_mult_mod_eq raster_hblank [OF mod_less_divisor] early) simp
      show ?thesis using tick_draws [OF E step(1) [unfolded if_P [OF early] add_0_right] h]
          step(2) [unfolded if_P [OF early] h] True early by simp
    next
      case late: False
      show ?thesis using tick_starts_line [OF E step(1) [unfolded if_not_P [OF late]] step(2) [unfolded if_not_P [OF late] add_0_right]]
          True late by simp
    qed
  qed
qed


section \<open>The raster\<close>

text \<open>VCOUNT as the scan position dictates it, with no guest write pending.\<close>

definition synced :: "'a display_scheme \<Rightarrow> bool" where
  "synced s \<longleftrightarrow> \<not> g_next_vcount_valid s \<and> unat (g_vcount s) = unat (g_display_last s) div 2130 mod 263 \<and>
     g_in_vblank s = (192 \<le> unat (g_vcount s) \<and> unat (g_vcount s) < 262)"

text \<open>The same at a line, whatever the clock.\<close>

definition at_line :: "nat \<Rightarrow> 'a display_scheme \<Rightarrow> bool" where
  "at_line i s \<longleftrightarrow> \<not> g_next_vcount_valid s \<and> unat (g_vcount s) = i mod 263 \<and>
     g_in_vblank s = (192 \<le> unat (g_vcount s) \<and> unat (g_vcount s) < 262)"

lemma synced_at_line: "synced s = at_line (unat (g_display_last s) div 2130) s"
  by (simp add: synced_def at_line_def)

lemma raise_irq_display [simp]:
  "g_dispstat (nds_raise_irq c b s) = g_dispstat s" "g_vcount (nds_raise_irq c b s) = g_vcount s"
  "g_next_vcount_valid (nds_raise_irq c b s) = g_next_vcount_valid s" "g_in_vblank (nds_raise_irq c b s) = g_in_vblank s"
  "g_display_last (nds_raise_irq c b s) = g_display_last s"
  for s :: "'a display_scheme"
  by (simp_all add: nds_raise_irq_def irq_recompute_def runtime_clear_fast_limit_def)

lemma raise_irq_flags: "g_if (nds_raise_irq c b s) cpu = (if cpu = c then g_if s cpu OR b else g_if s cpu)"
  by (simp add: nds_raise_irq_def irq_recompute_def runtime_clear_fast_limit_def)

definition vblank_bits :: "'a display_scheme \<Rightarrow> nds_cpu \<Rightarrow> bool" where
  "vblank_bits s cpu = bit (g_if s cpu) 0"

lemma vblank_bits_raise: "vblank_bits (nds_raise_irq c b s) = (\<lambda>cpu. vblank_bits s cpu \<or> cpu = c \<and> bit b 0)"
  by (auto simp: vblank_bits_def raise_irq_flags bit_or_iff fun_eq_iff)

lemma vblank_bits_updates [simp]:
  "vblank_bits (s\<lparr>g_vcount_match := m\<rparr>) = vblank_bits s" "vblank_bits (s\<lparr>g_vcount := v\<rparr>) = vblank_bits s"
  "vblank_bits (s\<lparr>g_next_vcount_valid := n\<rparr>) = vblank_bits s" "vblank_bits (s\<lparr>g_in_vblank := n\<rparr>) = vblank_bits s"
  "vblank_bits (s\<lparr>g_display_last := l\<rparr>) = vblank_bits s"
  by (simp_all add: vblank_bits_def fun_eq_iff)

lemma line_match_keeps [simp]:
  "g_dispstat (line_match c s) = g_dispstat s" "g_vcount (line_match c s) = g_vcount s"
  "g_next_vcount_valid (line_match c s) = g_next_vcount_valid s" "g_in_vblank (line_match c s) = g_in_vblank s"
  "g_display_last (line_match c s) = g_display_last s" "vblank_bits (line_match c s) = vblank_bits s"
  by (auto simp: line_match_def Let_def vblank_bits_raise)

lemma engine_keeps:
  assumes "disp_part s = disp_part t"
  shows "g_dispstat s = g_dispstat t" "g_vcount s = g_vcount t" "g_next_vcount_valid s = g_next_vcount_valid t"
    "g_in_vblank s = g_in_vblank t" "g_display_last s = g_display_last t" "vblank_bits s = vblank_bits t"
  using assms by (auto simp: disp_part_def vblank_bits_def fun_eq_iff dest: fun_cong)

lemma next_line_keeps:
  assumes "engines_ok E"
  shows "g_dispstat (next_line E l s) = g_dispstat s" "\<not> g_next_vcount_valid (next_line E l s)"
    "g_in_vblank (next_line E l s) = g_in_vblank s" "g_display_last (next_line E l s) = g_display_last s"
    "vblank_bits (next_line E l s) = vblank_bits s"
    "\<not> g_next_vcount_valid s \<Longrightarrow> g_vcount (next_line E l s) = (if l = 0 then 0 else g_vcount s + 1)"
  by (auto simp: next_line_def Let_def engine_keeps [OF engines_okD(1) [OF assms]])

lemma line_events_keeps:
  assumes "engines_ok E"
  shows "g_dispstat (line_events E s) = g_dispstat s" "g_vcount (line_events E s) = g_vcount s"
    "g_next_vcount_valid (line_events E s) = g_next_vcount_valid s" "g_display_last (line_events E s) = g_display_last s"
    "g_in_vblank (line_events E s) = (if g_vcount s = 262 then False else if g_vcount s = 192 then True else g_in_vblank s)"
    "vblank_bits (line_events E s) cpu = (vblank_bits s cpu \<or> g_vcount s = 192 \<and> g_dispstat s cpu AND 0x0008 \<noteq> 0)"
  by (cases cpu; auto simp: line_events_def Let_def vblank_bits_raise
        engine_keeps [OF engines_okD(2) [OF assms]] engine_keeps [OF engines_okD(3) [OF assms]] engine_keeps [OF engines_okD(4) [OF assms]])+

lemma scanline_at_line:
  assumes E: "engines_ok E" and s: "at_line i s" and w: "unat w = i + 1"
  shows "at_line (i + 1) (scanline E w s)" "g_dispstat (scanline E w s) = g_dispstat s"
    "g_display_last (scanline E w s) = g_display_last s"
    "vblank_bits (scanline E w s) cpu = (vblank_bits s cpu \<or> (i + 1) mod 263 = 192 \<and> g_dispstat s cpu AND 0x0008 \<noteq> 0)"
proof -
  let ?l = "ucast (w mod LINES) :: u32"
  have l: "unat ?l = (i + 1) mod 263"
  proof -
    have "(i + 1) mod 263 < 2 ^ 32" by (rule less_trans [of _ 263]) simp_all
    then show ?thesis by (simp add: unsigned_ucast_eq take_bit_nat_eq_self line_index w)
  qed
  then have z: "?l = 0 \<longleftrightarrow> (i + 1) mod 263 = 0" by (simp add: word_unat_eq_iff)
  have nv: "\<not> g_next_vcount_valid s" and v: "unat (g_vcount s) = i mod 263" using s by (simp_all add: at_line_def)
  have b: "i mod 263 < 263" by simp
  have v1: "unat (g_vcount (next_line E ?l s)) = (i + 1) mod 263"
    unfolding next_line_keeps(6) [OF E nv] using v z b
    by (auto simp: unat_word_ariths mod_Suc)
  have e192: "g_vcount (next_line E ?l s) = 192 \<longleftrightarrow> (i + 1) mod 263 = 192"
    and e262: "g_vcount (next_line E ?l s) = 262 \<longleftrightarrow> (i + 1) mod 263 = 262" by (simp_all add: word_unat_eq_iff v1)
  show "at_line (i + 1) (scanline E w s)"
    unfolding at_line_def scanline_def line_events_keeps [OF E] line_match_keeps next_line_keeps(2,3) [OF E] v1 e192 e262
    using s v b next_line_keeps(2) [OF E] by (auto simp: at_line_def mod_Suc split: if_splits)
  show "g_dispstat (scanline E w s) = g_dispstat s" "g_display_last (scanline E w s) = g_display_last s"
    "vblank_bits (scanline E w s) cpu = (vblank_bits s cpu \<or> (i + 1) mod 263 = 192 \<and> g_dispstat s cpu AND 0x0008 \<noteq> 0)"
    by (simp_all add: scanline_def line_events_keeps [OF E] next_line_keeps [OF E] e192)
qed

text \<open>The lines from one position to another, and the vertical blanks that start on the way.\<close>

lemma scanlines_at_line:
  assumes E: "engines_ok E" and s: "at_line i s" and ws: "map unat ws = [i + 1..<j + 1]" and le: "i \<le> j"
  shows "at_line j (fold (scanline E) ws s)" "g_dispstat (fold (scanline E) ws s) = g_dispstat s"
    "g_display_last (fold (scanline E) ws s) = g_display_last s"
    "vblank_bits (fold (scanline E) ws s) cpu = (vblank_bits s cpu \<or>
       (\<exists>k. i < k \<and> k \<le> j \<and> k mod 263 = 192) \<and> g_dispstat s cpu AND 0x0008 \<noteq> 0)"
proof -
  have "at_line j (fold (scanline E) ws s) \<and> g_dispstat (fold (scanline E) ws s) = g_dispstat s
    \<and> g_display_last (fold (scanline E) ws s) = g_display_last s
    \<and> vblank_bits (fold (scanline E) ws s) cpu = (vblank_bits s cpu \<or>
       (\<exists>k. i < k \<and> k \<le> j \<and> k mod 263 = 192) \<and> g_dispstat s cpu AND 0x0008 \<noteq> 0)"
    using s ws le
  proof (induction ws arbitrary: i s)
    case Nil
    then have "i = j" by (simp split: if_splits)
    with Nil show ?case by auto
  next
    case (Cons w ws)
    then have lt: "i < j" by (cases "i = j") auto
    have w: "unat w = i + 1" and ws: "map unat ws = [i + 1 + 1..<j + 1]"
      using Cons.prems(2) lt by (simp_all add: upt_conv_Cons del: upt_Suc)
    note st = scanline_at_line [OF E Cons.prems(1) w]
    have ex: "(\<exists>k. i < k \<and> k \<le> j \<and> k mod 263 = 192) \<longleftrightarrow> (i + 1) mod 263 = 192 \<or> (\<exists>k. i + 1 < k \<and> k \<le> j \<and> k mod 263 = 192)"
    proof -
      have "i < k \<and> k \<le> j \<longleftrightarrow> k = i + 1 \<or> i + 1 < k \<and> k \<le> j" for k using lt by auto
      then show ?thesis by (simp only: conj_assoc [symmetric]) blast
    qed
    from lt have le: "i + 1 \<le> j" by simp
    from Cons.IH [OF st(1) ws le] show ?case unfolding ex fold_simps st(2-4) by blast
  qed
  then show "at_line j (fold (scanline E) ws s)" "g_dispstat (fold (scanline E) ws s) = g_dispstat s"
    "g_display_last (fold (scanline E) ws s) = g_display_last s"
    "vblank_bits (fold (scanline E) ws s) cpu = (vblank_bits s cpu \<or>
       (\<exists>k. i < k \<and> k \<le> j \<and> k mod 263 = 192) \<and> g_dispstat s cpu AND 0x0008 \<noteq> 0)" by simp_all
qed

lemma finish_frames_part: "engines_ok E \<Longrightarrow> disp_part ((finish_frame E ^^ n) s) = disp_part s"
  by (induction n) (simp_all add: engines_okD)

lemma unat_count_up: "map unat (count_up a b) = [unat a..<unat b]"
proof -
  have "unat (word_of_nat k :: u64) = k" if "k < unat b" for k
    using that unsigned_less [of b, where 'a = nat] by (simp add: unsigned_of_nat take_bit_nat_eq_self)
  then show ?thesis by (auto simp: count_up_def intro: map_idI)
qed

lemma display_tick_raster:
  assumes E: "engines_ok E" and s: "synced s" and le: "unat (g_display_last s) \<le> unat c"
  shows "synced (nds_tick_display E c s)" "g_display_last (nds_tick_display E c s) = c"
    "g_dispstat (nds_tick_display E c s) = g_dispstat s"
    "vblank_bits (nds_tick_display E c s) cpu \<longleftrightarrow> vblank_bits s cpu \<or>
       (\<exists>k. unat (g_display_last s) div 2130 < k \<and> k \<le> unat c div 2130 \<and> k mod 263 = 192) \<and> g_dispstat s cpu AND 0x0008 \<noteq> 0"
proof -
  define u where "u = (fold (draw_line E) (count_up (hblank_index (g_display_last s)) (hblank_index c)) s)\<lparr>g_display_last := c\<rparr>"
  note k = engine_keeps [OF draw_lines_part [OF E]]
  have u: "at_line (unat (g_display_last s) div 2130) u" "g_dispstat u = g_dispstat s" "g_display_last u = c"
    "vblank_bits u = vblank_bits s"
    using s by (simp_all add: u_def at_line_def synced_at_line k)
  have ws: "map unat (count_up (g_display_last s div SCAN + 1) (c div SCAN + 1)) =
      [unat (g_display_last s) div 2130 + 1..<unat c div 2130 + 1]"
    by (simp only: unat_count_up unat_next_line)
  note l = scanlines_at_line [OF E u(1) ws div_le_mono [OF le], unfolded u(2-4)]
  note f = engine_keeps [OF finish_frames_part [OF E]]
  show last: "g_display_last (nds_tick_display E c s) = c" and "g_dispstat (nds_tick_display E c s) = g_dispstat s"
    and "vblank_bits (nds_tick_display E c s) cpu \<longleftrightarrow> vblank_bits s cpu \<or>
       (\<exists>k. unat (g_display_last s) div 2130 < k \<and> k \<le> unat c div 2130 \<and> k mod 263 = 192) \<and> g_dispstat s cpu AND 0x0008 \<noteq> 0"
    unfolding tick_unfold [OF E] u_def [symmetric] f l by (rule refl)+
  show "synced (nds_tick_display E c s)" using l(1)
    unfolding synced_at_line last unfolding tick_unfold [OF E] u_def [symmetric] at_line_def f by simp
qed



section \<open>A concrete display\<close>

definition display_boot :: display where
  "display_boot = spi.extend spi_boot (display.fields ((\<lambda>_. 0)(ARM9 := 0x0008)) 0 0 False (\<lambda>_. False) False 0)"

definition still_engines :: "'a display_scheme engines" where
  "still_engines = \<lparr>render_scanline = (\<lambda>_ s. s), start_frame = (\<lambda>s. s), vblank = (\<lambda>s. s), vcount144 = (\<lambda>s. s),
     vcount215 = (\<lambda>s. s), finish_frame = (\<lambda>s. s)\<rparr>"

lemmas display_boot_simps = display_boot_def display.defs spi.defs rtc.defs

lemmas machine_boot_simps = display_boot_simps spi_boot_simps rtc_boot_simps timers_boot_def card_boot_def card.defs
  math_boot_def math.defs io_reset_def io_regs.defs ipc_reset_def ipc.defs rt_initial_def rt.defs

lemma still_engines_ok: "engines_ok still_engines" by (simp add: engines_ok_def still_engines_def)

lemma display_boot_synced: "synced display_boot" "g_display_last display_boot = 0" "g_dispstat display_boot ARM9 = 0x0008"
  by (simp_all add: synced_def display_boot_simps)

lemma display_acts_at_deadlines_witness:
  "nds_tick_display still_engines 1584 display_boot = display_boot\<lparr>g_display_last := 1584\<rparr>"
  using display_acts_at_deadlines [OF still_engines_ok, of display_boot 1584]
  by (simp add: display_boot_synced lcd_deadline_def still_engines_def)



end
