(* ===== verification/Scheduler.thy ===== *)
theory Scheduler
  imports Display
begin

text \<open>
  The dual-processor scheduler (\<open>runner/src/scheduler.cpp\<close>): the context switch between the two cores, the
  slices they run in, the rendezvous planner with its idle fast-forward, the order in which one round
  advances timers and devices, and the scheduler's part of a savestate.  Recompiled guest code, the
  geometry engine, the mixer and the Wi-Fi device are parameters; profiling and the overlay are left out.
\<close>

section \<open>State\<close>

text \<open>\<open>CpuSlot\<close>; the saved call-return stack of 16384 words is a function of the index.\<close>

record cpu_slot =
  s_deferred_cycles :: u32
  s_state :: arm_cpu
  s_crs :: "nat \<Rightarrow> u32"
  s_crs_depth :: u32
  s_cycles :: u64
  s_halted :: bool
  s_reason :: "string option"
  s_started :: bool

text \<open>\<open>g_crs\<close> and \<open>g_nds_halt_reason\<close> belong to \<open>runtime_arm.cpp\<close>, \<open>g_mix_count\<close> to \<open>spu.cpp\<close>.\<close>

record sched = display +
  g_crs :: "u32 list"
  g_nds_halt_reason :: "string option"
  g_mix_count :: u64
  g_slot :: "nds_cpu \<Rightarrow> cpu_slot"
  g_cur :: "nds_cpu option"

text \<open>
  The variables only the scheduler's own loop reads (elsewhere they reach traces alone), beside the
  machine it drives.
\<close>

record 's console =
  con_machine :: 's
  g_sys_timestamp :: u64
  g_round_active :: bool
  g_owner_thread :: nat

text \<open>The code the scheduler calls that is not modelled.\<close>

record 's machine =
  runtime_dispatch :: "u32 \<Rightarrow> 's \<Rightarrow> 's"
  refill_cycles :: "nds_cpu \<Rightarrow> u32 \<Rightarrow> 's \<Rightarrow> u32 \<times> 's"
  m_bus :: "'s dma_bus"
  m_engines :: "'s engines"
  gpu3d_run :: "u64 \<Rightarrow> 's \<Rightarrow> 's"
  gpu3d_cycles_to_run :: "'s \<Rightarrow> u32"
  spu_mix :: "'s \<Rightarrow> 's"
  wifi_run_events :: "u64 \<Rightarrow> 's \<Rightarrow> 's"
  wifi_next_event :: "'s \<Rightarrow> u64"
  synth_us :: u64

abbreviation cycles_of :: "nds_cpu \<Rightarrow> 'a sched_scheme \<Rightarrow> u64" where
  "cycles_of cpu s \<equiv> s_cycles (g_slot s cpu)"

definition put_slot :: "nds_cpu \<Rightarrow> (cpu_slot \<Rightarrow> cpu_slot) \<Rightarrow> 'a sched_scheme \<Rightarrow> 'a sched_scheme" where
  "put_slot cpu f s = s\<lparr>g_slot := (g_slot s)(cpu := f (g_slot s cpu))\<rparr>"

definition empty_cpu :: arm_cpu where
  "empty_cpu = \<lparr>R = (\<lambda>_. 0), cpsr = 0, banked_sp = (\<lambda>_. 0), banked_lr = (\<lambda>_. 0), banked_spsr = (\<lambda>_. 0),
     r8_12_user = (\<lambda>_. 0), r8_12_fiq = (\<lambda>_. 0)\<rparr>"

definition empty_slot :: cpu_slot where
  "empty_slot = \<lparr>s_deferred_cycles = 0, s_state = empty_cpu, s_crs = (\<lambda>_. 0), s_crs_depth = 0, s_cycles = 0,
     s_halted = False, s_reason = None, s_started = False\<rparr>"

section \<open>The next deadline\<close>

definition kIterCap :: u64 where "kIterCap = 64"

definition spu_deadline :: "u64 \<Rightarrow> u64" where "spu_deadline now = (now div 1024 + 1) * 1024"

text \<open>\<open>while (rtc <= g_sys_timestamp)\<close>.\<close>

partial_function (option) rtc_after :: "u64 \<Rightarrow> u64 \<Rightarrow> u64 option" where
  "rtc_after now n =
    (let rtc = n * 33513982 div 32768 in if rtc \<le> now then rtc_after now (n + 1) else Some rtc)"

definition synth_deadline :: "u64 \<Rightarrow> u64 \<Rightarrow> u64" where
  "synth_deadline us now =
    (if us > 0 then let interval = us * 33513982 div 1000000 in (now div interval + 1) * interval else - 1)"

definition next_scheduled_event_time :: "'a sched_scheme machine \<Rightarrow> u64 \<Rightarrow> 'a sched_scheme \<Rightarrow> u64 option" where
  "next_scheduled_event_time V now s =
    map_option (\<lambda>rtc. min (nds_next_system_event_time s) (min (wifi_next_event V s)
         (min (synth_deadline (synth_us V) now) (min rtc (min (spu_deadline now) (lcd_deadline now))))))
       (rtc_after now (now * 32768 div 33513982 + 1))"

section \<open>Switching processors\<close>

definition save_current :: "'a sched_scheme \<Rightarrow> 'a sched_scheme" where
  "save_current s =
    (case g_cur s of None \<Rightarrow> s
     | Some c \<Rightarrow> put_slot c (\<lambda>sl. sl\<lparr>s_state := g_cpu s, s_crs_depth := word_of_nat (length (g_crs s)),
         s_crs := (\<lambda>i. if i < length (g_crs s) then g_crs s ! i else s_crs sl i),
         s_deferred_cycles := g_deferred_cycles s\<rparr>) s)"

definition switch_to :: "nds_cpu \<Rightarrow> 'a sched_scheme \<Rightarrow> 'a sched_scheme" where
  "switch_to cpu s =
    (if g_cur s = Some cpu then s
     else
       let s = save_current s;
           sl = g_slot s cpu;
           s = s\<lparr>g_cpu := s_state sl\<rparr>;
           s = s\<lparr>g_crs := runtime_call_stack_restore (map (s_crs sl) [0..<unat (s_crs_depth sl)]) (unat (s_crs_depth sl))\<rparr>;
           s = runtime_deferred_cycles_set (s_deferred_cycles sl) s
       in s\<lparr>g_nds_active := cpu, g_cur := Some cpu\<rparr>)"

section \<open>A slice\<close>

definition dispatch_once :: "'a sched_scheme machine \<Rightarrow> 'a sched_scheme \<Rightarrow> 'a sched_scheme" where
  "dispatch_once V s =
    (let pc = R (g_cpu s) 15; t = (if cpsr (g_cpu s) AND CPSR_T_BIT \<noteq> 0 then 1 else 0)
     in nds_restore_unwind_state (runtime_dispatch V (pc OR t) (nds_clear_unwinding s)))"

text \<open>The checks behind a dispatch, in order: whether the slice ends, and the state it ends in.\<close>

definition after_dispatch :: "nds_cpu \<Rightarrow> u64 \<Rightarrow> 'a sched_scheme \<Rightarrow> bool \<times> 'a sched_scheme" where
  "after_dispatch cpu cap s =
    (if g_nds_terminal s then (True, put_slot cpu (\<lambda>sl. sl\<lparr>s_halted := True, s_reason := g_nds_halt_reason s\<rparr>) s)
     else if dma_any_running cpu s then
       let enter = g_dma_entry_cycle s cpu;
           final_cost = (if g_runtime_cycles s > enter then g_runtime_cycles s - enter else 0)
       in (True, runtime_deferred_cycles_set (ucast final_cost) (s\<lparr>g_runtime_cycles := enter\<rparr>))
     else if g_cpu_halted s cpu then
       let enter = g_halt_entry_cycle s cpu;
           final_cost = (if g_runtime_cycles s > enter then g_runtime_cycles s - enter else 0)
       in (True, runtime_deferred_cycles_set (ucast final_cost) (s\<lparr>g_runtime_cycles := if g_brk_hit s then enter else cap\<rparr>))
     else if g_brk_hit s then (True, s)
     else (nds_slice_over s, s))"

function slice_loop :: "'a sched_scheme machine \<Rightarrow> nds_cpu \<Rightarrow> u64 \<Rightarrow> nat \<Rightarrow> 'a sched_scheme \<Rightarrow> 'a sched_scheme" where
  "slice_loop V cpu cap guard s =
    (if g_runtime_cycles s < cap \<and> \<not> s_halted (g_slot s cpu) then
       case after_dispatch cpu cap (dispatch_once V s) of (stop, s) \<Rightarrow>
         if stop then s
         else if guard + 1 > 20000000 then
           put_slot cpu (\<lambda>sl. sl\<lparr>s_halted := True, s_reason := Some ''slice guard (no progress)''\<rparr>) s
         else slice_loop V cpu cap (guard + 1) s
     else s)"
  by pat_completeness auto
termination
  by (relation "measure (\<lambda>(V, cpu, cap, guard, s). 20000000 - guard)") auto

declare slice_loop.simps [simp del]

text \<open>\<open>runtime_irq\<close> of the modelled runtime, over this machine's dispatcher and refill cost.\<close>

definition wake_irq :: "'a sched_scheme machine \<Rightarrow> 'a sched_scheme \<Rightarrow> 'a sched_scheme" where
  "wake_irq V s = runtime_irq (runtime_dispatch V)
     (\<lambda>target s. case refill_cycles V (g_nds_active s) target s of (cost, t) \<Rightarrow> (cost, rt.more t)) (R (g_cpu s) 15) s"

text \<open>A slice in which DMA owns the bus, and one in which the guest executes.\<close>

definition dma_slice :: "'a sched_scheme machine \<Rightarrow> nds_cpu \<Rightarrow> u32 \<Rightarrow> 'a sched_scheme \<Rightarrow> 'a sched_scheme option" where
  "dma_slice V cpu quantum s =
    (let s = switch_to cpu s;
         s = s\<lparr>g_runtime_cycles := cycles_of cpu s\<rparr>;
         cap = cycles_of cpu s + ucast quantum
     in map_option (\<lambda>s. put_slot cpu (\<lambda>sl. sl\<lparr>s_cycles := g_runtime_cycles s\<rparr>) s)
          (nds_dma_run (m_bus V) cpu cap (unat quantum) s))"

definition resume_halted :: "'a sched_scheme machine \<Rightarrow> nds_cpu \<Rightarrow> 'a sched_scheme \<Rightarrow> 'a sched_scheme" where
  "resume_halted V cpu s =
    (if g_cpu_halted s cpu then
       let s = nds_cpu_wake cpu s in
       if cpsr (g_cpu s) AND CPSR_I_BIT = 0 \<and> nds_irq_pending cpu s \<noteq> 0 then wake_irq V s else s
     else s)"

definition guest_slice :: "'a sched_scheme machine \<Rightarrow> nds_cpu \<Rightarrow> u32 \<Rightarrow> 'a sched_scheme \<Rightarrow> 'a sched_scheme" where
  "guest_slice V cpu quantum s =
    (let s = switch_to cpu s;
         s = s\<lparr>g_runtime_cycles := cycles_of cpu s\<rparr>;
         cap = cycles_of cpu s + ucast quantum;
         s = resume_halted V cpu (nds_slice_begin cap s);
         s = slice_loop V cpu cap 0 s
     in put_slot cpu (\<lambda>sl. sl\<lparr>s_cycles := g_runtime_cycles s, s_deferred_cycles := g_deferred_cycles s\<rparr>) s)"

definition run_slice :: "'a sched_scheme machine \<Rightarrow> nds_cpu \<Rightarrow> u32 \<Rightarrow> 'a sched_scheme \<Rightarrow> 'a sched_scheme option" where
  "run_slice V cpu quantum s =
    (if s_halted (g_slot s cpu) then Some s
     else if dma_any_running cpu s then dma_slice V cpu quantum s
     else if g_cpu_halted s cpu \<and> \<not> nds_halt_wake_pending cpu s then
       Some (put_slot cpu (\<lambda>sl. sl\<lparr>s_cycles := s_cycles sl + ucast quantum\<rparr>) s)
     else Some (guest_slice V cpu quantum s))"

section \<open>Boot\<close>

definition scheduler_init :: "nat \<Rightarrow> 'a sched_scheme console \<Rightarrow> 'a sched_scheme console" where
  "scheduler_init thread k =
    k\<lparr>con_machine := (con_machine k)\<lparr>g_slot := (\<lambda>_. empty_slot), g_cur := None\<rparr>, g_sys_timestamp := 0,
      g_owner_thread := thread\<rparr>"

definition scheduler_reset_cpu :: "'a sched_scheme machine \<Rightarrow> nds_cpu \<Rightarrow> u32 \<Rightarrow> u32 \<Rightarrow> 'a sched_scheme \<Rightarrow> 'a sched_scheme" where
  "scheduler_reset_cpu V cpu pc psr s =
    (let s = put_slot cpu (\<lambda>sl. sl\<lparr>s_state := empty_cpu\<lparr>cpsr := psr, R := (\<lambda>_. 0)(15 := pc)\<rparr>\<rparr>) s;
         (cost, s) = refill_cycles V cpu pc s
     in put_slot cpu (\<lambda>sl. sl\<lparr>s_cycles := ucast cost, s_deferred_cycles := 0, s_halted := False, s_reason := None,
          s_started := True\<rparr>) s)"

definition scheduler_set_cpu_boot :: "'a sched_scheme machine \<Rightarrow> nds_cpu \<Rightarrow> u32 \<Rightarrow> u32 \<Rightarrow> u32 \<Rightarrow> u32 \<Rightarrow>
    'a sched_scheme \<Rightarrow> 'a sched_scheme" where
  "scheduler_set_cpu_boot V cpu entry sp sp_irq sp_svc s =
    (let psr = 0x13 OR CPSR_I_BIT OR CPSR_F_BIT OR (if entry AND 1 \<noteq> 0 then CPSR_T_BIT else 0);
         s = scheduler_reset_cpu V cpu (entry AND NOT 1) psr s
     in put_slot cpu (\<lambda>sl. sl\<lparr>s_state := (s_state sl)
          \<lparr>R := (R (s_state sl))(12 := entry, 13 := sp, 14 := entry),
           banked_sp := (banked_sp (s_state sl))(BankIrq := sp_irq, BankSupervisor := sp_svc)\<rparr>\<rparr>) s)"

section \<open>A round\<close>

definition nds_tick_spu :: "'a sched_scheme machine \<Rightarrow> u64 \<Rightarrow> 'a sched_scheme \<Rightarrow> 'a sched_scheme" where
  "nds_tick_spu V system_cycles s =
    (let due = system_cycles div 1024 in
     if g_mix_count s \<ge> due then s
     else fold (\<lambda>k s. (spu_mix V s)\<lparr>g_mix_count := k + 1\<rparr>) (count_up (g_mix_count s) due) s)"

definition round_devices :: "'a sched_scheme machine \<Rightarrow> u64 \<Rightarrow> 'a sched_scheme \<Rightarrow> 'a sched_scheme" where
  "round_devices V t s = nds_run_system_events t (nds_tick_rtc t (wifi_run_events V t
     (nds_tick_spu V t (nds_tick_display (m_engines V) t s))))"

text \<open>Both cores asleep, with nothing that could wake or stall them.\<close>

definition console_idle :: "'a sched_scheme \<Rightarrow> bool" where
  "console_idle s \<longleftrightarrow> s_started (g_slot s ARM9) \<and> s_started (g_slot s ARM7) \<and>
     \<not> s_halted (g_slot s ARM9) \<and> \<not> s_halted (g_slot s ARM7) \<and>
     g_cpu_halted s ARM9 \<and> \<not> nds_halt_wake_pending ARM9 s \<and>
     g_cpu_halted s ARM7 \<and> \<not> nds_halt_wake_pending ARM7 s \<and>
     \<not> dma_any_running ARM9 s \<and> \<not> dma_any_running ARM7 s"

definition idle_wake :: "u64 \<Rightarrow> u64 \<Rightarrow> u64 \<Rightarrow> u64" where
  "idle_wake now ev tov =
    (if ev \<le> tov then ev
     else let steps = (tov - now + kIterCap - 1) div kIterCap; grid = now + steps * kIterCap
          in if ev < grid + 8 then ev else grid)"

definition plan_round :: "bool \<Rightarrow> u64 \<Rightarrow> u64 \<Rightarrow> u64 \<Rightarrow> u64" where
  "plan_round idle now ev tov =
    (let planned = now + kIterCap;
         planned = (if idle then let wake = idle_wake now ev tov in if wake > planned then wake else planned else planned)
     in if ev < planned + 8 then ev else planned)"

text \<open>The ARM7's run up to the rendezvous.\<close>

partial_function (option) arm7_catch_up :: "'a sched_scheme machine \<Rightarrow> u64 \<Rightarrow> 'a sched_scheme \<Rightarrow> 'a sched_scheme option" where
  "arm7_catch_up V rendezvous s =
    (if s_started (g_slot s ARM7) \<and> \<not> s_halted (g_slot s ARM7) \<and> \<not> g_brk_hit s \<and> cycles_of ARM7 s < rendezvous then
       (let before = cycles_of ARM7 s;
            remaining = rendezvous - before;
            quantum = (if remaining > 0xFFFFFFFF then 0xFFFFFFFF else ucast remaining)
        in Option.bind (run_slice V ARM7 quantum s) (\<lambda>s.
             let s = nds_tick_timers ARM7 (cycles_of ARM7 s) s in
             if cycles_of ARM7 s = before then Some s else arm7_catch_up V rendezvous s))
     else Some s)"

definition arm9_phase :: "'a sched_scheme machine \<Rightarrow> u64 \<Rightarrow> 'a sched_scheme \<Rightarrow> 'a sched_scheme option" where
  "arm9_phase V planned s =
    (let arm9_target = push_bit 1 planned in
     if s_started (g_slot s ARM9) \<and> \<not> s_halted (g_slot s ARM9) \<and> cycles_of ARM9 s < arm9_target then
       if g_gxfifo_stall s then
         let debt = push_bit 1 (scast (gpu3d_cycles_to_run V s)) in
         Some (put_slot ARM9 (\<lambda>sl. sl\<lparr>s_cycles := min arm9_target (s_cycles sl + debt)\<rparr>) s)
       else run_slice V ARM9 (ucast (arm9_target - cycles_of ARM9 s)) s
     else Some s)"

definition scheduler_terminal_halt_all :: "string option \<Rightarrow> 'a sched_scheme \<Rightarrow> 'a sched_scheme" where
  "scheduler_terminal_halt_all reason s =
    put_slot ARM7 (\<lambda>sl. sl\<lparr>s_halted := True, s_reason := reason\<rparr>)
      (put_slot ARM9 (\<lambda>sl. sl\<lparr>s_halted := True, s_reason := reason\<rparr>) s)"

text \<open>The round up to a planned rendezvous: the rendezvous really reached, and the machine there.\<close>

definition round_to :: "'a sched_scheme machine \<Rightarrow> u64 \<Rightarrow> 'a sched_scheme \<Rightarrow> (u64 \<times> 'a sched_scheme) option" where
  "round_to V planned s =
    Option.bind (arm9_phase V planned s) (\<lambda>s.
      let s = nds_tick_timers ARM9 (cycles_of ARM9 s) s;
          s = gpu3d_run V (cycles_of ARM9 s) s;
          rendezvous = drop_bit 1 (cycles_of ARM9 s)
      in map_option (\<lambda>s.
           (rendezvous, if g_powered_off s then scheduler_terminal_halt_all (Some ''power off'') s
                        else round_devices V rendezvous s)) (arm7_catch_up V rendezvous s))"

definition scheduler_run_round :: "'a sched_scheme machine \<Rightarrow> 'a sched_scheme console \<Rightarrow> 'a sched_scheme console option" where
  "scheduler_run_round V k =
    (let k = k\<lparr>g_round_active := True\<rparr>; s = con_machine k; now = g_sys_timestamp k in
     Option.bind (next_scheduled_event_time V now s) (\<lambda>ev.
       map_option (\<lambda>(rendezvous, s). k\<lparr>con_machine := s, g_sys_timestamp := rendezvous, g_round_active := False\<rparr>)
         (round_to V (plan_round (console_idle s) now ev (nds_next_timer_overflow_time s)) s)))"

text \<open>The loop of \<open>scheduler_run\<close>: rounds, the ARM9 time last seen and the rounds it has stood still.\<close>

partial_function (option) run_rounds ::
  "'a sched_scheme machine \<Rightarrow> u64 \<Rightarrow> u64 \<Rightarrow> u64 \<Rightarrow> u64 \<Rightarrow> 'a sched_scheme console \<Rightarrow> (u64 \<times> 'a sched_scheme console) option" where
  "run_rounds V budget rounds last9 stall k =
    (if cycles_of ARM9 (con_machine k) < budget \<and>
        \<not> (s_halted (g_slot (con_machine k) ARM9) \<and> s_halted (g_slot (con_machine k) ARM7)) then
       Option.bind (scheduler_run_round V k) (\<lambda>k.
         if cycles_of ARM9 (con_machine k) = last9 then
           if stall + 1 = 2000000 then Some (rounds + 1, k)
           else run_rounds V budget (rounds + 1) last9 (stall + 1) k
         else run_rounds V budget (rounds + 1) (cycles_of ARM9 (con_machine k)) 0 k)
     else Some (rounds, k))"

record sched_result =
  r_halted :: "nds_cpu \<Rightarrow> bool"
  r_reason :: "nds_cpu \<Rightarrow> string option"
  r_cycles :: "nds_cpu \<Rightarrow> u64"
  r_rounds :: u64

definition scheduler_run :: "'a sched_scheme machine \<Rightarrow> u64 \<Rightarrow> 'a sched_scheme console \<Rightarrow>
    (sched_result \<times> 'a sched_scheme console) option" where
  "scheduler_run V budget k =
    map_option (\<lambda>(rounds, k). let s = save_current (con_machine k) in
        (\<lparr>r_halted = (\<lambda>c. s_halted (g_slot s c)), r_reason = (\<lambda>c. s_reason (g_slot s c)), r_cycles = (\<lambda>c. cycles_of c s),
          r_rounds = rounds\<rparr>, k\<lparr>con_machine := s\<rparr>))
      (run_rounds V budget 0 0 0 k)"

definition scheduler_cpu_state :: "nds_cpu \<Rightarrow> 'a sched_scheme \<Rightarrow> arm_cpu \<times> 'a sched_scheme" where
  "scheduler_cpu_state cpu s = (let s = save_current s in (s_state (g_slot s cpu), s))"

section \<open>Savestates\<close>

record sched_save =
  sv_cpu :: "nds_cpu \<Rightarrow> arm_cpu"
  sv_crs :: "nds_cpu \<Rightarrow> nat \<Rightarrow> u32"
  sv_crs_depth :: "nds_cpu \<Rightarrow> u32"
  sv_deferred_cycles :: "nds_cpu \<Rightarrow> u32"
  sv_cycles :: "nds_cpu \<Rightarrow> u64"
  sv_system_timestamp :: u64
  sv_started :: "nds_cpu \<Rightarrow> u8"
  sv_terminal_halted :: "nds_cpu \<Rightarrow> u8"

definition scheduler_savestate_quiescent :: "nat \<Rightarrow> 's console \<Rightarrow> bool" where
  "scheduler_savestate_quiescent thread k \<longleftrightarrow> thread = g_owner_thread k \<and> \<not> g_round_active k"

definition scheduler_savestate_begin :: "nat \<Rightarrow> 's console \<Rightarrow> bool" where
  "scheduler_savestate_begin thread k = scheduler_savestate_quiescent thread k"

definition scheduler_savestate_export :: "'a sched_scheme console \<Rightarrow> sched_save \<times> 'a sched_scheme console" where
  "scheduler_savestate_export k =
    (let s = save_current (con_machine k) in
     (\<lparr>sv_cpu = (\<lambda>c. s_state (g_slot s c)), sv_crs = (\<lambda>c. s_crs (g_slot s c)), sv_crs_depth = (\<lambda>c. s_crs_depth (g_slot s c)),
       sv_deferred_cycles = (\<lambda>c. s_deferred_cycles (g_slot s c)), sv_cycles = (\<lambda>c. cycles_of c s),
       sv_system_timestamp = g_sys_timestamp k, sv_started = (\<lambda>c. if s_started (g_slot s c) then 1 else 0),
       sv_terminal_halted = (\<lambda>c. if s_halted (g_slot s c) then 1 else 0)\<rparr>, k\<lparr>con_machine := s\<rparr>))"

definition import_slot :: "sched_save \<Rightarrow> nds_cpu \<Rightarrow> cpu_slot" where
  "import_slot sv cpu =
    (let halted = (sv_terminal_halted sv cpu \<noteq> 0) in
     \<lparr>s_deferred_cycles = sv_deferred_cycles sv cpu, s_state = sv_cpu sv cpu, s_crs = sv_crs sv cpu,
      s_crs_depth = sv_crs_depth sv cpu, s_cycles = sv_cycles sv cpu, s_halted = halted,
      s_reason = (if halted then Some ''savestate terminal halt'' else None), s_started = (sv_started sv cpu \<noteq> 0)\<rparr>)"

text \<open>The loop over the two processors stops at the first depth out of range, with the state as it is then.\<close>

fun import_slots :: "sched_save \<Rightarrow> nds_cpu list \<Rightarrow> 'a sched_scheme \<Rightarrow> (string + unit) \<times> 'a sched_scheme" where
  "import_slots sv [] s = (Inr (), s)"
| "import_slots sv (cpu # cpus) s =
    (if sv_crs_depth sv cpu > 16384 then (Inl ''savestate call-return stack depth is invalid'', s)
     else import_slots sv cpus (put_slot cpu (\<lambda>_. import_slot sv cpu) s))"

definition scheduler_savestate_import :: "sched_save \<Rightarrow> 'a sched_scheme console \<Rightarrow> (string + unit) \<times> 'a sched_scheme console" where
  "scheduler_savestate_import sv k =
    (case import_slots sv [ARM9, ARM7] (con_machine k) of
       (Inl e, s) \<Rightarrow> (Inl e, k\<lparr>con_machine := s\<rparr>)
     | (Inr _, s) \<Rightarrow>
         let s = s\<lparr>g_cur := None, g_crs := runtime_call_stack_restore [] 0\<rparr>
         in (Inr (), k\<lparr>con_machine := runtime_deferred_cycles_set 0 s, g_sys_timestamp := sv_system_timestamp sv\<rparr>))"

section \<open>Each processor keeps its own context\<close>

text \<open>What a core runs with: live while it is loaded, in its slot otherwise.\<close>

definition slot_context :: "cpu_slot \<Rightarrow> arm_cpu \<times> u32 list \<times> u32" where
  "slot_context sl = (s_state sl, map (s_crs sl) [0..<unat (s_crs_depth sl)], s_deferred_cycles sl)"

definition context_of :: "nds_cpu \<Rightarrow> 'a sched_scheme \<Rightarrow> arm_cpu \<times> u32 list \<times> u32" where
  "context_of c s =
    (if g_cur s = Some c then (g_cpu s, g_crs s, g_deferred_cycles s)
     else slot_context (g_slot s c))"

definition crs_fits :: "'a sched_scheme \<Rightarrow> bool" where
  "crs_fits s \<longleftrightarrow> length (g_crs s) \<le> kCRS \<and> (\<forall>c. unat (s_crs_depth (g_slot s c)) \<le> kCRS)"

text \<open>The parts of a slot that only the scheduler's own clock touches.\<close>

definition slot_clock :: "cpu_slot \<Rightarrow> u64 \<times> bool \<times> string option \<times> bool" where
  "slot_clock sl = (s_cycles sl, s_halted sl, s_reason sl, s_started sl)"

lemma put_slot_fields [simp]:
  "g_slot (put_slot c f s) d = (if d = c then f (g_slot s c) else g_slot s d)" "g_cur (put_slot c f s) = g_cur s"
  "g_cpu (put_slot c f s) = g_cpu s" "g_crs (put_slot c f s) = g_crs s" "g_deferred_cycles (put_slot c f s) = g_deferred_cycles s"
  by (simp_all add: put_slot_def)

lemma deferred_set_fields [simp]:
  "g_slot (runtime_deferred_cycles_set k s) = g_slot s" "g_cur (runtime_deferred_cycles_set k s) = g_cur s"
  "g_cpu (runtime_deferred_cycles_set k s) = g_cpu s" "g_crs (runtime_deferred_cycles_set k s) = g_crs s"
  "g_deferred_cycles (runtime_deferred_cycles_set k s) = k"
  for s :: "'a sched_scheme"
  by (simp_all add: runtime_deferred_cycles_set_def Let_def)

lemma unat_length_crs: "length xs \<le> kCRS \<Longrightarrow> unat (word_of_nat (length xs) :: u32) = length xs"
  by (simp add: unsigned_of_nat take_bit_nat_eq_self kCRS_def)

lemma map_nth_prefix: "map (\<lambda>i. if i < length xs then xs ! i else f i) [0..<length xs] = xs"
  by (rule nth_equalityI) simp_all

lemma save_current_context:
  assumes "crs_fits s"
  shows "context_of c (save_current s) = context_of c s"
    and "crs_fits (save_current s)" "g_cur (save_current s) = g_cur s" "g_crs (save_current s) = g_crs s"
    and "slot_clock (g_slot (save_current s) c) = slot_clock (g_slot s c)"
    and "slot_context (g_slot (save_current s) c) = context_of c s"
  using assms unat_length_crs [of "g_crs s"] map_nth_prefix [of "g_crs s"]
  by (auto simp: save_current_def context_of_def slot_context_def crs_fits_def slot_clock_def split: option.splits)

text \<open>
  Switching processors loses nothing: whichever core is loaded, both cores' registers, call-return
  stacks and pending cycles are what they were, and so are their clocks and halt states.
\<close>

lemma context_switch_transparent:
  assumes "crs_fits s"
  shows "context_of c (switch_to d s) = context_of c s \<and> g_cur (switch_to d s) = Some d \<and> crs_fits (switch_to d s)
    \<and> slot_clock (g_slot (switch_to d s) c) = slot_clock (g_slot s c)"
proof (cases "g_cur s = Some d")
  case True
  then show ?thesis using assms by (simp add: switch_to_def)
next
  case False
  note k = save_current_context [OF assms]
  let ?sl = "g_slot (save_current s) d"
  have d: "unat (s_crs_depth ?sl) \<le> kCRS" using k(2) by (simp add: crs_fits_def)
  have t: "(g_cpu (switch_to d s), g_crs (switch_to d s), g_deferred_cycles (switch_to d s)) = slot_context ?sl"
    using False d by (simp add: switch_to_def Let_def runtime_call_stack_restore_def slot_context_def)
  have sl: "g_slot (switch_to d s) = g_slot (save_current s)" "g_cur (switch_to d s) = Some d"
    using False by (simp_all add: switch_to_def Let_def)
  have "context_of c (switch_to d s) = slot_context (g_slot (save_current s) c)"
    using t by (cases "c = d") (simp_all add: context_of_def sl)
  moreover have "length (g_crs (switch_to d s)) \<le> kCRS"
    using False by (simp add: switch_to_def Let_def runtime_call_stack_restore_def)
  ultimately show ?thesis using k(2,5,6) by (simp add: sl crs_fits_def)
qed

section \<open>Savestates\<close>

lemma import_slot_context: "slot_context (import_slot sv c) =
    (sv_cpu sv c, map (sv_crs sv c) [0..<unat (sv_crs_depth sv c)], sv_deferred_cycles sv c)"
  by (simp add: import_slot_def slot_context_def Let_def)

lemma depth_check: "unat d \<le> kCRS \<longleftrightarrow> \<not> d > 16384" for d :: u32
  by (simp add: kCRS_def word_less_nat_alt not_less)

lemma import_accepts:
  assumes "\<forall>c. \<not> sv_crs_depth sv c > 16384"
  shows "\<exists>u. scheduler_savestate_import sv t = (Inr (), u) \<and> g_slot (con_machine u) = import_slot sv \<and> g_cur (con_machine u) = None
    \<and> g_sys_timestamp u = sv_system_timestamp sv"
proof -
  have "c = ARM9 \<or> c = ARM7" for c by (cases c) simp_all
  then show ?thesis using assms by (auto simp: scheduler_savestate_import_def Let_def fun_eq_iff)
qed

text \<open>
  C17. What the scheduler saves it restores: importing an export into any machine brings back both cores'
  registers, call-return stacks, pending cycles, clocks and run states and the system time; a core that
  had stopped for good stays stopped, only the reason text is replaced.
\<close>

theorem savestate_restores_scheduler:
  assumes "crs_fits (con_machine k)"
  shows "\<exists>u. scheduler_savestate_import (fst (scheduler_savestate_export k)) t = (Inr (), u)
    \<and> (\<forall>c. context_of c (con_machine u) = context_of c (con_machine k)
         \<and> cycles_of c (con_machine u) = cycles_of c (con_machine k)
         \<and> s_started (g_slot (con_machine u) c) = s_started (g_slot (con_machine k) c)
         \<and> s_halted (g_slot (con_machine u) c) = s_halted (g_slot (con_machine k) c)
         \<and> s_reason (g_slot (con_machine u) c) =
             (if s_halted (g_slot (con_machine k) c) then Some ''savestate terminal halt'' else None))
    \<and> g_sys_timestamp u = g_sys_timestamp k"
proof -
  note e = save_current_context [OF assms]
  let ?sv = "fst (scheduler_savestate_export k)" and ?s = "save_current (con_machine k)"
  have "\<forall>c. \<not> sv_crs_depth ?sv c > 16384"
    using e(2) unfolding crs_fits_def depth_check by (simp add: scheduler_savestate_export_def Let_def)
  from import_accepts [OF this, of t] obtain u where u: "scheduler_savestate_import ?sv t = (Inr (), u)"
    "g_slot (con_machine u) = import_slot ?sv" "g_cur (con_machine u) = None"
    "g_sys_timestamp u = sv_system_timestamp ?sv" by blast
  have "slot_context (import_slot ?sv c) = slot_context (g_slot ?s c)" for c
    unfolding import_slot_context by (simp add: scheduler_savestate_export_def Let_def slot_context_def)
  then have c: "context_of c (con_machine u) = context_of c (con_machine k)" for c
    by (simp add: context_of_def [of c "con_machine u"] u e(6))
  have "s_cycles (import_slot ?sv c) = cycles_of c ?s \<and> s_started (import_slot ?sv c) = s_started (g_slot ?s c) \<and>
      s_halted (import_slot ?sv c) = s_halted (g_slot ?s c) \<and>
      s_reason (import_slot ?sv c) = (if s_halted (g_slot ?s c) then Some ''savestate terminal halt'' else None)" for c
    by (simp add: import_slot_def scheduler_savestate_export_def Let_def)
  moreover have "sv_system_timestamp ?sv = g_sys_timestamp k" by (simp add: scheduler_savestate_export_def Let_def)
  ultimately show ?thesis using u(1,4) c e(5) by (simp add: u(2) slot_clock_def)
qed

text \<open>
  C16. A savestate whose call-return stack depth exceeds the stack is rejected with an error, and exactly
  then.  The live registers, the loaded core and the system time are then untouched, but if only the
  second core's depth is bad the first core's slot has already been replaced.
\<close>

theorem savestate_import_errors:
  "((fst (scheduler_savestate_import sv k) = Inl ''savestate call-return stack depth is invalid'')
      = (\<exists>c. sv_crs_depth sv c > 16384))
    \<and> (sv_crs_depth sv c > 16384 \<longrightarrow> snd (scheduler_savestate_import sv k) =
      (if sv_crs_depth sv ARM9 > 16384 then k
       else k\<lparr>con_machine := put_slot ARM9 (\<lambda>_. import_slot sv ARM9) (con_machine k)\<rparr>))"
proof (intro conjI impI)
  have all: "(\<exists>c. sv_crs_depth sv c > 16384) \<longleftrightarrow> sv_crs_depth sv ARM9 > 16384 \<or> sv_crs_depth sv ARM7 > 16384"
    by (metis nds_cpu.exhaust)
  show "(fst (scheduler_savestate_import sv k) = Inl ''savestate call-return stack depth is invalid'')
      = (\<exists>c. sv_crs_depth sv c > 16384)"
    unfolding all by (simp add: scheduler_savestate_import_def Let_def)
  show "snd (scheduler_savestate_import sv k) =
      (if sv_crs_depth sv ARM9 > 16384 then k
       else k\<lparr>con_machine := put_slot ARM9 (\<lambda>_. import_slot sv ARM9) (con_machine k)\<rparr>)"
    if "sv_crs_depth sv c > 16384" using that
    by (cases c) (simp_all add: scheduler_savestate_import_def Let_def)
qed

section \<open>A slice belongs to one processor\<close>

text \<open>The scheduler's own variables, private to \<open>scheduler.cpp\<close>.\<close>

definition slots :: "'a sched_scheme \<Rightarrow> (nds_cpu \<Rightarrow> cpu_slot) \<times> nds_cpu option" where
  "slots s = (g_slot s, g_cur s)"

text \<open>Guest code and bus accesses cannot reach them, and the call-return stack stays within its array.\<close>

definition machine_ok :: "'a sched_scheme machine \<Rightarrow> bool" where
  "machine_ok V \<longleftrightarrow>
    (\<forall>a s. slots (runtime_dispatch V a s) = slots s \<and> (length (g_crs s) \<le> kCRS \<longrightarrow> length (g_crs (runtime_dispatch V a s)) \<le> kCRS))
    \<and> (\<forall>c a s. slots (snd (refill_cycles V c a s)) = slots s \<and> g_crs (snd (refill_cycles V c a s)) = g_crs s)
    \<and> (\<forall>a v s. slots (snd (bus_read32 (m_bus V) a s)) = slots s \<and> g_crs (snd (bus_read32 (m_bus V) a s)) = g_crs s
        \<and> slots (snd (bus_read16 (m_bus V) a s)) = slots s \<and> g_crs (snd (bus_read16 (m_bus V) a s)) = g_crs s
        \<and> slots (bus_write32 (m_bus V) a v s) = slots s \<and> g_crs (bus_write32 (m_bus V) a v s) = g_crs s)
    \<and> (\<forall>a v s. slots (bus_write16 (m_bus V) a v s) = slots s \<and> g_crs (bus_write16 (m_bus V) a v s) = g_crs s)
    \<and> (\<forall>s. slots (check_fifo_dma (m_bus V) s) = slots s \<and> g_crs (check_fifo_dma (m_bus V) s) = g_crs s)"

text \<open>What a piece of a slice may do: nothing to the scheduler's variables, nothing beyond the stack's bound.\<close>

definition stays :: "'a sched_scheme \<Rightarrow> 'a sched_scheme \<Rightarrow> bool" where
  "stays s t \<longleftrightarrow> slots t = slots s \<and> (length (g_crs s) \<le> kCRS \<longrightarrow> length (g_crs t) \<le> kCRS)"

lemma stays_refl [simp]: "stays s s" by (simp add: stays_def)

lemma stays_trans: "stays s t \<Longrightarrow> stays t u \<Longrightarrow> stays s u" by (simp add: stays_def)

lemma stays_if [simp]: "stays s (if b then t else u) = (if b then stays s t else stays s u)" by simp

lemma stays_fields:
  assumes "g_slot t = g_slot s" "g_cur t = g_cur s" "g_crs t = g_crs s"
  shows "stays s t"
  using assms by (simp add: stays_def slots_def)

lemma more_update_slots:
  fixes s t :: "'a sched_scheme"
  shows "slots (rt.more_update (\<lambda>_. rt.more t) s) = slots t" "g_crs (rt.more_update (\<lambda>_. rt.more t) s) = g_crs t"
  by (cases s; cases t; simp add: slots_def)+

lemma runtime_stays:
  fixes s :: "'a sched_scheme" and refill :: "u32 \<Rightarrow> 'a sched_scheme \<Rightarrow> u32 \<times> _"
  assumes d: "\<And>a s. stays s (disp a s)"
    and r: "\<And>a (s :: 'a sched_scheme). stays s (rt.more_update (\<lambda>_. snd (refill a s)) s)"
  shows "stays s (runtime_tick disp refill k s)" "stays s (runtime_tick_slow disp refill k s)"
    "stays s (runtime_irq disp refill k s)"
proof -
  have "disp' = disp \<Longrightarrow> refill' = refill \<Longrightarrow> stays s (runtime_tick disp' refill' k s)"
    and "disp' = disp \<Longrightarrow> refill' = refill \<Longrightarrow> stays s (runtime_tick_slow disp' refill' k s)"
    and "disp' = disp \<Longrightarrow> refill' = refill \<Longrightarrow> stays s (runtime_irq disp' refill' k s)" for disp' refill'
  proof (induction disp' refill' k s and disp' refill' k s and disp' refill' k s
      rule: runtime_tick_runtime_tick_slow_runtime_irq.induct)
    case (1 disp' refill' c s)
    have "stays s (s\<lparr>g_runtime_cycles := g_runtime_cycles s + ucast c\<rparr>)" by (rule stays_fields) simp_all
    with 1 show ?case by (auto simp: runtime_tick.simps Let_def)
  next
    case (2 disp' refill' c s)
    let ?s = "s\<lparr>g_runtime_cycles := g_runtime_cycles s + ucast (c + g_deferred_cycles s), g_deferred_cycles := 0\<rparr>"
    have "stays s ?s" by (rule stays_fields) simp_all
    with 2 show ?case by (auto simp: runtime_tick_slow.simps Let_def intro: stays_trans)
  next
    case (3 disp' refill' a s)
    let ?b = "exc_base s (g_nds_active s)"
    let ?s1 = "s\<lparr>g_cpu := irq_entry ?b a (g_cpu s)\<rparr>"
    obtain cost m where m: "refill (?b + 0x18) ?s1 = (cost, m)" by (cases "refill (?b + 0x18) ?s1")
    let ?s2 = "rt.more_update (\<lambda>_. m) ?s1"
    let ?s3 = "if g_deferred_cycles ?s2 \<noteq> 0 then ?s2\<lparr>g_deferred_cycles := g_deferred_cycles ?s2 + cost\<rparr>
      else runtime_tick disp refill cost ?s2"
    have 1: "stays s ?s1" by (rule stays_fields) simp_all
    have 2: "stays ?s1 ?s2" using r [of ?s1 "?b + 0x18"] by (simp add: m)
    have 3: "stays ?s2 ?s3"
    proof (cases "g_deferred_cycles ?s2 = 0")
      case True
      then show ?thesis using "3.IH" m "3.prems" by simp
    next
      case False
      have "stays ?s2 (?s2\<lparr>g_deferred_cycles := g_deferred_cycles ?s2 + cost\<rparr>)" by (rule stays_fields) simp_all
      with False show ?thesis by simp
    qed
    have "runtime_irq disp refill a s = disp (?b + 0x18) ?s3"
      by (subst runtime_irq.simps) (simp add: Let_def m)
    then show ?case using stays_trans [OF stays_trans [OF stays_trans [OF 1 2] 3] d] "3.prems" by simp
  qed
  then show "stays s (runtime_tick disp refill k s)" "stays s (runtime_tick_slow disp refill k s)"
    "stays s (runtime_irq disp refill k s)" by blast+
qed

lemma machine_okD:
  assumes "machine_ok V"
  shows "stays s (runtime_dispatch V a s)" "stays s (snd (refill_cycles V c a s))"
    "stays s (snd (bus_read32 (m_bus V) a s))" "stays s (snd (bus_read16 (m_bus V) a s))"
    "stays s (bus_write32 (m_bus V) a v s)" "stays s (bus_write16 (m_bus V) a w s)" "stays s (check_fifo_dma (m_bus V) s)"
  using assms unfolding machine_ok_def stays_def by simp_all

lemma wake_irq_stays: "machine_ok V \<Longrightarrow> stays s (wake_irq V s)"
  unfolding wake_irq_def
proof (rule runtime_stays(3))
  fix a and s :: "'a sched_scheme" assume ok: "machine_ok V"
  show "stays s (runtime_dispatch V a s)" using ok by (rule machine_okD)
  have "snd (case refill_cycles V (g_nds_active s) a s of (cost, t) \<Rightarrow> (cost, rt.more t)) =
      rt.more (snd (refill_cycles V (g_nds_active s) a s))" by (simp add: split_beta)
  then show "stays s (rt.more_update (\<lambda>_. snd (case refill_cycles V (g_nds_active s) a s of (cost, t) \<Rightarrow> (cost, rt.more t))) s)"
    using machine_okD(2) [OF ok, of s "g_nds_active s" a] by (simp add: stays_def more_update_slots)
qed

lemma dispatch_once_stays: "machine_ok V \<Longrightarrow> stays s (dispatch_once V s)"
proof -
  assume ok: "machine_ok V"
  have "stays t (nds_restore_unwind_state t)" for t :: "'a sched_scheme"
    by (auto simp: nds_restore_unwind_state_def intro!: stays_fields split: option.splits)
  moreover have "stays t (nds_clear_unwinding t)" for t :: "'a sched_scheme"
    by (auto simp: nds_clear_unwinding_def intro!: stays_fields)
  ultimately show ?thesis unfolding dispatch_once_def Let_def by (meson stays_trans machine_okD(1) [OF ok])
qed

lemma put_channel_stays [simp]: "stays s (put_channel cpu ch d s)" for s :: "'a sched_scheme"
  by (rule stays_fields) (simp_all add: put_channel_def)

lemma raise_irq_stays [simp]: "stays s (nds_raise_irq cpu b s)" for s :: "'a sched_scheme"
  by (rule stays_fields) (simp_all add: nds_raise_irq_def irq_recompute_def runtime_clear_fast_limit_def)

lemma dma_move_stays:
  assumes ok: "machine_ok V"
  shows "stays s (dma_move (m_bus V) cpu ch width s)"
proof -
  obtain u d where u: "dma_unit_cycles cpu (g_dma s cpu ch) width s = (u, d)" by (metis surj_pair)
  define s2 where "s2 = put_channel cpu ch d s\<lparr>g_runtime_cycles := g_runtime_cycles (put_channel cpu ch d s) +
      push_bit (if cpu = ARM9 then 1 else 0) (ucast u)\<rparr>"
  have s2: "stays s s2" unfolding s2_def by (rule stays_fields) (simp_all add: put_channel_def)
  obtain v w where r: "bus_read32 (m_bus V) (d_cur_src (g_dma s2 cpu ch) AND NOT 3) s2 = (v, w)" by (metis surj_pair)
  obtain v' w' where r': "bus_read16 (m_bus V) (d_cur_src (g_dma s2 cpu ch) AND NOT 1) s2 = (v', w')" by (metis surj_pair)
  have "stays s2 w" "stays s2 w'" using machine_okD(3,4) [OF ok, of s2] r r' by (metis snd_conv)+
  then have a: "stays s2 (bus_write32 (m_bus V) x y w)" "stays s2 (bus_write16 (m_bus V) x z w')" for x y z
    using machine_okD(5,6) [OF ok] by (meson stays_trans)+
  show ?thesis
    using stays_trans [OF s2 stays_trans [OF a(1) put_channel_stays]] stays_trans [OF s2 stays_trans [OF a(2) put_channel_stays]]
    unfolding dma_move_def Let_def u prod.case s2_def [symmetric] r r' by simp
qed

lemma dma_loop_stays:
  assumes ok: "machine_ok V"
  shows "dma_loop (m_bus V) cpu ch width target fuel req s = Some (r, t) \<Longrightarrow> stays s t"
proof (induction fuel arbitrary: req s)
  case 0
  then show ?case by (auto split: if_splits)
next
  case (Suc fuel)
  show ?case using Suc.prems dma_move_stays [OF ok, of s cpu ch width]
    by (auto simp: Let_def split: if_splits intro: stays_trans Suc.IH)
qed

lemma dma_finish_stays: "stays s (dma_finish cpu ch s)" for s :: "'a sched_scheme"
  unfolding dma_finish_def Let_def by (auto intro!: stays_trans [OF _ put_channel_stays] stays_trans [OF _ raise_irq_stays])

lemma dma_run_channel_stays:
  assumes ok: "machine_ok V" and r: "dma_run_channel (m_bus V) cpu target fuel ch s = Some t"
  shows "stays s t"
proof -
  have "t = s \<or> (\<exists>w q k u d. dma_loop (m_bus V) cpu ch w target fuel q s = Some (k, u) \<and>
      t \<in> {u, put_channel cpu ch d u, check_fifo_dma (m_bus V) (put_channel cpu ch d u), dma_finish cpu ch u})"
    using r unfolding dma_run_channel_def Let_def by (simp add: bind_eq_Some_conv split: if_splits) blast+
  then consider "t = s" | w q k u d where "dma_loop (m_bus V) cpu ch w target fuel q s = Some (k, u)"
      "t \<in> {u, put_channel cpu ch d u, check_fifo_dma (m_bus V) (put_channel cpu ch d u), dma_finish cpu ch u}" by blast
  then show ?thesis
  proof cases
    case 2
    from dma_loop_stays [OF ok 2(1)] have u: "stays s u" .
    from u have p: "stays s (put_channel cpu ch d u)" using put_channel_stays by (rule stays_trans)
    from 2(2) show ?thesis using u p stays_trans [OF p machine_okD(7) [OF ok]] stays_trans [OF u dma_finish_stays] by blast
  qed simp
qed

lemma nds_dma_run_stays:
  assumes ok: "machine_ok V" and r: "nds_dma_run (m_bus V) cpu target fuel s = Some t"
  shows "stays s t"
proof -
  from r obtain a b c where "dma_run_channel (m_bus V) cpu target fuel 0 s = Some a"
    "dma_run_channel (m_bus V) cpu target fuel 1 a = Some b" "dma_run_channel (m_bus V) cpu target fuel 2 b = Some c"
    "dma_run_channel (m_bus V) cpu target fuel 3 c = Some t"
    unfolding nds_dma_run_def bind_eq_Some_conv by blast
  then show ?thesis by (meson stays_trans dma_run_channel_stays [OF ok])
qed

text \<open>A slice of one core changes at most that core's slot.\<close>

definition own :: "nds_cpu \<Rightarrow> 'a sched_scheme \<Rightarrow> 'a sched_scheme \<Rightarrow> bool" where
  "own c s t \<longleftrightarrow> g_cur t = g_cur s \<and> (\<forall>d. d \<noteq> c \<longrightarrow> g_slot t d = g_slot s d) \<and>
     s_crs_depth (g_slot t c) = s_crs_depth (g_slot s c) \<and> (length (g_crs s) \<le> kCRS \<longrightarrow> length (g_crs t) \<le> kCRS)"

lemma own_refl [simp]: "own c s s" by (simp add: own_def)

lemma own_trans: "own c s t \<Longrightarrow> own c t u \<Longrightarrow> own c s u" by (auto simp: own_def)

lemma stays_own: "stays s t \<Longrightarrow> own c s t" by (simp add: stays_def own_def slots_def)

lemma put_slot_own: "(\<And>sl. s_crs_depth (f sl) = s_crs_depth sl) \<Longrightarrow> own c s (put_slot c f s)"
  by (simp add: own_def)

lemma deferred_set_stays [simp]: "stays s (runtime_deferred_cycles_set k s)" for s :: "'a sched_scheme"
  by (rule stays_fields) simp_all

lemma after_dispatch_own: "own c s (snd (after_dispatch c cap s))"
proof -
  have "stays s (s\<lparr>g_runtime_cycles := x\<rparr>)" for x by (rule stays_fields) simp_all
  then have "stays s (runtime_deferred_cycles_set k (s\<lparr>g_runtime_cycles := x\<rparr>))" for k x by (meson stays_trans deferred_set_stays)
  then show ?thesis unfolding after_dispatch_def Let_def by (simp add: put_slot_own stays_own)
qed

lemma slice_loop_own: "machine_ok V \<Longrightarrow> own c s (slice_loop V c cap guard s)"
proof (induction V c cap guard s rule: slice_loop.induct)
  case (1 V cpu cap guard s)
  obtain stop t where t: "after_dispatch cpu cap (dispatch_once V s) = (stop, t)" by (metis surj_pair)
  have o: "own cpu s t"
    using own_trans [OF stays_own [OF dispatch_once_stays [OF "1.prems"]] after_dispatch_own, of cpu s cap] t by simp
  show ?case
    using o own_trans [OF o "1.IH" [OF _ t [symmetric]]] own_trans [OF o put_slot_own]
    by (subst slice_loop.simps) (simp add: t "1.prems")
qed

lemma resume_stays: "machine_ok V \<Longrightarrow> stays v (resume_halted V c v)"
proof -
  assume ok: "machine_ok V"
  have "stays v (nds_cpu_wake c v)" unfolding nds_cpu_wake_def by (rule stays_fields) simp_all
  then show ?thesis unfolding resume_halted_def Let_def using wake_irq_stays [OF ok] by (auto intro: stays_trans)
qed

lemma own_after_switch:
  assumes fits: "crs_fits s" and o: "own c (switch_to c s) t" and d: "d \<noteq> c"
  shows "context_of d t = context_of d s \<and> slot_clock (g_slot t d) = slot_clock (g_slot s d) \<and> crs_fits t"
proof -
  have sw: "context_of d (switch_to c s) = context_of d s" "slot_clock (g_slot (switch_to c s) d) = slot_clock (g_slot s d)"
    "g_cur (switch_to c s) = Some c" "crs_fits (switch_to c s)"
    using context_switch_transparent [OF fits] by simp_all
  have t: "g_cur t = Some c" "g_slot t d = g_slot (switch_to c s) d" "length (g_crs t) \<le> kCRS"
    using o d sw(3,4) unfolding own_def crs_fits_def by simp_all
  have "unat (s_crs_depth (g_slot t e)) \<le> kCRS" for e
    using o sw(4) unfolding own_def crs_fits_def by (cases "e = c") simp_all
  then have "crs_fits t" using t(3) unfolding crs_fits_def by simp
  moreover have "context_of d t = context_of d (switch_to c s)" unfolding context_of_def t(1,2) sw(3) using d by simp
  ultimately show ?thesis unfolding t(2) sw(1,2) by simp
qed

lemma set_clock_stays: "stays s (s\<lparr>g_runtime_cycles := x\<rparr>)" for s :: "'a sched_scheme"
  by (rule stays_fields) simp_all

lemma slice_begin_stays: "stays s (nds_slice_begin x s)" for s :: "'a sched_scheme"
  unfolding nds_slice_begin_def request_yield_poll_def by (rule stays_fields) simp_all

lemma dma_slice_own:
  assumes ok: "machine_ok V" and r: "dma_slice V c quantum s = Some t"
  shows "own c (switch_to c s) t"
proof -
  obtain v where v: "nds_dma_run (m_bus V) c (cycles_of c (switch_to c s) + ucast quantum) (unat quantum)
      ((switch_to c s)\<lparr>g_runtime_cycles := cycles_of c (switch_to c s)\<rparr>) = Some v"
      "t = put_slot c (\<lambda>sl. sl\<lparr>s_cycles := g_runtime_cycles v\<rparr>) v"
    using r unfolding dma_slice_def Let_def by auto
  have "own c (switch_to c s) v" by (rule stays_own [OF stays_trans [OF set_clock_stays nds_dma_run_stays [OF ok v(1)]]])
  then show ?thesis unfolding v(2) by (rule own_trans [OF _ put_slot_own]) simp
qed

lemma guest_slice_own:
  assumes ok: "machine_ok V"
  shows "own c (switch_to c s) (guest_slice V c quantum s)"
  unfolding guest_slice_def Let_def
  by (rule own_trans [OF own_trans [OF stays_own [OF stays_trans [OF stays_trans [OF set_clock_stays slice_begin_stays]
        resume_stays [OF ok]]] slice_loop_own [OF ok]] put_slot_own]) simp

lemma sleep_context:
  assumes fits: "crs_fits s" and d: "d \<noteq> c"
  shows "context_of d (put_slot c (\<lambda>sl. sl\<lparr>s_cycles := s_cycles sl + q\<rparr>) s) = context_of d s
    \<and> slot_clock (g_slot (put_slot c (\<lambda>sl. sl\<lparr>s_cycles := s_cycles sl + q\<rparr>) s) d) = slot_clock (g_slot s d)
    \<and> crs_fits (put_slot c (\<lambda>sl. sl\<lparr>s_cycles := s_cycles sl + q\<rparr>) s)"
  using assms by (simp add: context_of_def crs_fits_def)

lemma run_slice_cases:
  assumes "run_slice V c quantum s = Some t"
  shows "t = s \<or> dma_slice V c quantum s = Some t
    \<or> t = put_slot c (\<lambda>sl. sl\<lparr>s_cycles := s_cycles sl + ucast quantum\<rparr>) s \<or> t = guest_slice V c quantum s"
  using assms unfolding run_slice_def
  by (cases "s_halted (g_slot s c)"; cases "dma_any_running c s"; cases "g_cpu_halted s c \<and> \<not> nds_halt_wake_pending c s")
    (simp_all only: if_True if_False option.inject simp_thms)



section \<open>A concrete machine\<close>

text \<open>Both cores halted in the guest with a call pending, every timer off.\<close>

definition sched_boot :: sched where
  "sched_boot = display.extend (display_boot\<lparr>g_cpu_halted := (\<lambda>_. True),
       g_timer := (\<lambda>_ _. \<lparr>t_reload = 0, t_counter = 0, t_ctrl = 0, t_accum = 0\<rparr>)\<rparr>)
     (sched.fields [0x2000100] None 0 (\<lambda>_. empty_slot\<lparr>s_started := True\<rparr>) (Some ARM9))"

lemmas sched_boot_simps = sched_boot_def sched.defs machine_boot_simps empty_slot_def

definition quiet_machine :: "sched machine" where
  "quiet_machine = \<lparr>runtime_dispatch = (\<lambda>_ s. s), refill_cycles = (\<lambda>_ _ s. (2, s)),
     m_bus = \<lparr>bus_read32 = (\<lambda>_ s. (0, s)), bus_read16 = (\<lambda>_ s. (0, s)), bus_write32 = (\<lambda>_ _ s. s),
       bus_write16 = (\<lambda>_ _ s. s), check_fifo_dma = (\<lambda>s. s)\<rparr>,
     m_engines = still_engines, gpu3d_run = (\<lambda>_ s. s), gpu3d_cycles_to_run = (\<lambda>_. 0), spu_mix = (\<lambda>s. s),
     wifi_run_events = (\<lambda>_ s. s), wifi_next_event = (\<lambda>_. - 1), synth_us = 0\<rparr>"

definition console_boot :: "sched console" where
  "console_boot = \<lparr>con_machine = sched_boot, g_sys_timestamp = 0, g_round_active = False, g_owner_thread = 0\<rparr>"

lemma sched_boot_fields:
  "g_crs sched_boot = [0x2000100]" "g_slot sched_boot = (\<lambda>_. empty_slot\<lparr>s_started := True\<rparr>)" "g_cur sched_boot = Some ARM9"
  by (simp_all add: sched_boot_simps)

lemma sched_boot_fits: "crs_fits sched_boot"
  by (simp add: crs_fits_def sched_boot_fields empty_slot_def kCRS_def)

lemma quiet_machine_ok: "machine_ok quiet_machine"
  by (simp add: machine_ok_def quiet_machine_def)

lemma context_switch_transparent_witness:
  "fst (snd (context_of ARM9 (switch_to ARM7 sched_boot))) = [0x2000100]"
proof -
  have "context_of ARM9 (switch_to ARM7 sched_boot) = context_of ARM9 sched_boot"
    using context_switch_transparent [OF sched_boot_fits, of ARM9 ARM7] by blast
  moreover have "fst (snd (context_of ARM9 sched_boot)) = [0x2000100]" by (simp add: context_of_def sched_boot_fields)
  ultimately show ?thesis by simp
qed


lemma savestate_restores_scheduler_witness:
  "\<exists>u. scheduler_savestate_import (fst (scheduler_savestate_export console_boot)) console_boot = (Inr (), u)
    \<and> context_of ARM9 (con_machine u) = context_of ARM9 sched_boot"
  using savestate_restores_scheduler [of console_boot console_boot] sched_boot_fits by (auto simp: console_boot_def)

lemma savestate_import_errors_witness:
  "snd (scheduler_savestate_import ((fst (scheduler_savestate_export console_boot))\<lparr>sv_crs_depth := (\<lambda>_. 16385)\<rparr>) console_boot) = console_boot"
  using savestate_import_errors [where sv = "(fst (scheduler_savestate_export console_boot))\<lparr>sv_crs_depth := (\<lambda>_. 16385)\<rparr>" and c = ARM9 and k = console_boot]
  by simp

end
