(* ===== verification/Rendezvous.thy ===== *)
theory Rendezvous
  imports Scheduler
begin

text \<open>
  Where the scheduler of \<open>scheduler.cpp\<close> puts its rendezvous: the periodic deadlines it computes are the
  ones the devices act on, no rendezvous passes a deadline by, and the idle fast-forward leaves the
  console in exactly the state that the 64-cycle grid would have reached.
\<close>

section \<open>The crystal's deadline\<close>

lemma rtc_first_guess:
  fixes now :: nat
  defines "n \<equiv> now * 32768 div 33513982 + 1"
  shows "now \<le> rtc_deadline n" and "rtc_deadline n \<le> now + 1023" and "k < n \<Longrightarrow> rtc_deadline k \<le> now"
    and "now < rtc_deadline (n + 1)" and "rtc_deadline (n + 1) \<le> rtc_deadline n + 1023"
proof -
  have a: "now * 32768 < n * 33513982" and b: "n * 33513982 \<le> now * 32768 + 33513982"
    using div_mult_mod_eq [of "now * 32768" 33513982] mod_less_divisor [of 33513982 "now * 32768"]
    unfolding n_def by (simp_all add: algebra_simps)
  show "now \<le> rtc_deadline n" "rtc_deadline n \<le> now + 1023" "now < rtc_deadline (n + 1)"
    "rtc_deadline (n + 1) \<le> rtc_deadline n + 1023"
    using a b unfolding rtc_deadline_def add_mult_distrib mult_1 by linarith+
  show "rtc_deadline k \<le> now" if "k < n"
  proof -
    have "k * 33513982 \<le> now * 32768" using that less_eq_div_iff_mult_less_eq [of 33513982 k "now * 32768"]
      unfolding n_def by simp
    then show ?thesis unfolding rtc_deadline_def by linarith
  qed
qed

lemma unat_rtc_deadline:
  fixes n :: u64
  assumes "unat n * 33513982 < 2 ^ 64"
  shows "unat (n * 33513982 div 32768) = rtc_deadline (unat n)"
  using assms by (simp add: unat_div_distrib unat_word_ariths(2) rtc_deadline_def)

lemma rtc_after_stop: "now < n * 33513982 div 32768 \<Longrightarrow> rtc_after now n = Some (n * 33513982 div 32768)"
  by (subst rtc_after.simps) (auto simp: Let_def)

lemma rtc_after_skip: "\<not> now < n * 33513982 div 32768 \<Longrightarrow> rtc_after now n = rtc_after now (n + 1)"
  by (subst rtc_after.simps) (auto simp: Let_def)

lemma rtc_after_exact:
  assumes "unat now < 2 ^ 49 - 2048"
  shows "\<exists>r n. rtc_after now (now * 32768 div 33513982 + 1) = Some r \<and> unat r = rtc_deadline n
    \<and> now < r \<and> (\<forall>k<n. rtc_deadline k \<le> unat now) \<and> unat r \<le> unat now + 1023"
proof -
  define n where "n = unat now * 32768 div 33513982 + 1"
  have b: "unat now * 32768 < 2 ^ 64 - 67108864" using assms by simp
  have "n * 33513982 \<le> unat now * 32768 + 33513982" unfolding n_def by simp
  with b have n: "(n + 1) * 33513982 < 2 ^ 64" "n + 1 < 2 ^ 64" "n * 33513982 < 2 ^ 64" by simp_all
  define w where "w = now * 32768 div 33513982 + 1"
  have "unat (now * 32768 div 33513982) = n - 1"
    using b by (simp add: unat_div_distrib unat_word_ariths(2) n_def)
  then have w: "unat w = n" "unat (w + 1) = n + 1" using n by (simp_all add: w_def unat_word_ariths(1) n_def)
  note g = rtc_first_guess [where now = "unat now", folded n_def]
  have d: "unat (w * 33513982 div 32768) = rtc_deadline n" using unat_rtc_deadline [of w] n by (simp only: w)
  have d1: "unat ((w + 1) * 33513982 div 32768) = rtc_deadline (n + 1)" using unat_rtc_deadline [of "w + 1"] n by (simp only: w)
  show ?thesis
  proof (cases "rtc_deadline n = unat now")
    case False
    then have "now < w * 33513982 div 32768" using g(1) d by (simp add: word_less_nat_alt)
    then have "rtc_after now w = Some (w * 33513982 div 32768)" by (rule rtc_after_stop)
    moreover have "\<forall>k<n. rtc_deadline k \<le> unat now" using g(3) by blast
    ultimately show ?thesis using \<open>now < w * 33513982 div 32768\<close> d g(2) unfolding w_def [symmetric] by metis
  next
    case True
    have lt: "now < (w + 1) * 33513982 div 32768" using g(4) d1 by (simp add: word_less_nat_alt)
    have "\<not> now < w * 33513982 div 32768" using d True by (simp add: word_less_nat_alt)
    then have "rtc_after now w = rtc_after now (w + 1)" by (rule rtc_after_skip)
    also have "\<dots> = Some ((w + 1) * 33513982 div 32768)" using lt by (rule rtc_after_stop)
    finally have r: "rtc_after now w = Some ((w + 1) * 33513982 div 32768)" .
    have "\<forall>k<n + 1. rtc_deadline k \<le> unat now" using g(3) True by (metis Suc_eq_plus1 less_Suc_eq order_refl)
    then show ?thesis using r lt d1 g(5) unfolding w_def [symmetric] True by metis
  qed
qed

text \<open>From 2^49 cycles on no 64-bit deadline can exceed the clock, so the search does not end.\<close>

lemma rtc_after_hangs:
  assumes now: "2 ^ 49 \<le> unat now"
  shows "rtc_after now n = None"
proof -
  have small: "unat (n * 33513982 div 32768) < 2 ^ 49" for n :: u64
    using unsigned_less [of "n * 33513982", where 'a = nat] by (simp add: unat_div_distrib)
  have "rtc_after now n = Some r \<Longrightarrow> \<not> 2 ^ 49 \<le> unat now" for r
  proof (rule rtc_after.raw_induct [where P = "\<lambda>now n r. \<not> 2 ^ 49 \<le> unat now"])
    fix f now n r
    assume IH: "\<And>now n r. f now n = Some r \<Longrightarrow> \<not> (2 :: nat) ^ 49 \<le> unat now"
      and eq: "(let rtc = n * 33513982 div 32768 in if rtc \<le> now then f now (n + 1) else Some rtc) = Some (r :: u64)"
    show "\<not> (2 :: nat) ^ 49 \<le> unat now"
    proof (cases "n * 33513982 div 32768 \<le> now")
      case True then show ?thesis using eq IH by (simp add: Let_def)
    next
      case False then show ?thesis using small [of n] by (simp add: word_le_nat_alt)
    qed
  qed
  then show ?thesis using now by (cases "rtc_after now n") auto
qed

section \<open>The next event\<close>

lemma unat_spu_deadline: "unat now < 2 ^ 64 - 1024 \<Longrightarrow> unat (spu_deadline now) = (unat now div 1024 + 1) * 1024"
proof -
  assume "unat now < 2 ^ 64 - 1024"
  then have "(unat now div 1024 + 1) * 1024 < 2 ^ 64" using div_times_less_eq_dividend [of "unat now" 1024] by simp
  then show ?thesis by (simp add: spu_deadline_def unat_word_ariths unat_div_distrib)
qed


lemma lcd_gap: "lcd_next = (if n mod 2130 < 1584 then n div 2130 * 2130 + 1584 else n div 2130 * 2130 + 2130) \<Longrightarrow>
    n < lcd_next \<and> lcd_next \<le> n + 1584" for n :: nat
proof -
  assume l: "lcd_next = (if n mod 2130 < 1584 then n div 2130 * 2130 + 1584 else n div 2130 * 2130 + 2130)"
  define q where "q = n div 2130"
  define r where "r = n mod 2130"
  have n: "n = q * 2130 + r" and r: "r < 2130" by (simp_all add: q_def r_def)
  have "lcd_next = (if r < 1584 then q * 2130 + 1584 else q * 2130 + 2130)" by (simp add: l q_def r_def)
  then show ?thesis using r unfolding n by (simp split: if_splits)
qed

lemma lcd_deadline_range: "unat now < 2 ^ 64 - 2130 \<Longrightarrow> now < lcd_deadline now \<and> unat (lcd_deadline now) \<le> unat now + 1584"
  using lcd_gap [OF refl, of "unat now"] by (simp add: unat_lcd_deadline word_less_nat_alt)

lemma spu_deadline_range:
  assumes "unat now < 2 ^ 64 - 1024"
  shows "now < spu_deadline now \<and> unat (spu_deadline now) \<le> unat now + 1024"
proof -
  have "unat now < (unat now div 1024 + 1) * 1024" "(unat now div 1024 + 1) * 1024 \<le> unat now + 1024"
    using div_mult_mod_eq [of "unat now" 1024] mod_less_divisor [of 1024 "unat now"] by simp_all
  then show ?thesis by (simp only: word_less_nat_alt unat_spu_deadline [OF assms] simp_thms)
qed

text \<open>Every device has been advanced to the system time, as every round leaves them.\<close>

definition caught_up :: "u64 \<Rightarrow> 'a sched_scheme \<Rightarrow> bool" where
  "caught_up now s \<longleftrightarrow> g_display_last s = now \<and> g_rtc_processed_ticks s = rtc_due now \<and> g_mix_count s = now div 1024"

lemma rtc_due_until:
  assumes now: "unat now < 2 ^ 49 - 2048" and t: "now \<le> t" "t < r"
    and r: "unat r = rtc_deadline n" "\<forall>k<n. rtc_deadline k \<le> unat now" "unat r \<le> unat now + 1023"
  shows "rtc_due t = rtc_due now"
proof -
  have b: "unat t < 2 ^ 49 - 1" "unat now < 2 ^ 49 - 1" using now t(2) r(3) by (simp_all add: word_less_nat_alt)
  have "k \<le> unat (rtc_due t) \<longleftrightarrow> k \<le> unat (rtc_due now)" for k
  proof (cases "k < n")
    case True
    then have "rtc_deadline k \<le> unat now" "rtc_deadline k \<le> unat t"
      using r(2) t(1) by (auto simp: word_le_nat_alt intro: le_trans)
    then show ?thesis by (simp only: due_exact [OF b(1)] due_exact [OF b(2)])
  next
    case False
    then have "rtc_deadline n \<le> rtc_deadline k" unfolding rtc_deadline_def by (intro div_le_mono mult_le_mono) simp_all
    then have "unat t < rtc_deadline k" "unat now < rtc_deadline k"
      using t r(1) by (auto simp: word_less_nat_alt word_le_nat_alt)
    then show ?thesis by (simp add: due_exact [OF b(1)] due_exact [OF b(2)])
  qed
  then show ?thesis by (metis le_refl le_antisym word_unat_eq_iff)
qed

lemma spu_quiet:
  assumes "unat now < 2 ^ 64 - 1024" "t < spu_deadline now" "g_mix_count s = now div 1024"
  shows "nds_tick_spu V t s = s"
proof -
  have "unat t div 1024 < unat now div 1024 + 1"
    using assms(2) by (simp add: word_less_nat_alt unat_spu_deadline [OF assms(1)] div_less_iff_less_mult)
  then have "t div 1024 \<le> g_mix_count s" by (simp add: word_le_nat_alt unat_div_distrib assms(3))
  then show ?thesis by (simp add: nds_tick_spu_def Let_def)
qed

lemma system_events_quiet:
  assumes "t < nds_next_system_event_time s"
  shows "nds_run_system_events t s = s"
proof -
  have n: "\<not> g_card_deadline s \<le> t" "\<not> g_spi_deadline s \<le> t" "\<not> g_auxspi_deadline s \<le> t" "\<not> g_div_deadline s \<le> t"
    "\<not> g_sqrt_deadline s \<le> t"
    using assms unfolding nds_next_system_event_time_def min_less_iff_conj not_le by blast+
  have "bus_events t s = s" unfolding bus_events_def Let_def by (simp only: n if_False)
  moreover have "card_events t s = s" unfolding card_events_def Let_def by (simp only: n if_False)
  moreover have "math_events t s = s" unfolding math_events_def Let_def by (simp only: n if_False)
  ultimately show ?thesis by (simp only: nds_run_system_events_def)
qed

lemma display_quiet:
  assumes E: "engines_ok E" and now: "unat (g_display_last s) < 2 ^ 64 - 2130"
    and t: "g_display_last s \<le> t" "t < lcd_deadline (g_display_last s)"
  shows "nds_tick_display E t s = s\<lparr>g_display_last := t\<rparr>"
proof -
  have a: "unat (g_display_last s) \<le> unat t" using t(1) by (simp only: word_le_nat_alt)
  have b: "unat t < unat (lcd_deadline (g_display_last s))" using t(2) by (simp only: word_less_nat_alt)
  show ?thesis by (rule tick_quiet [OF E raster_gap [OF a b [unfolded unat_lcd_deadline [OF now]]]])
qed

lemma rtc_quiet: "g_rtc_processed_ticks s = rtc_due t \<Longrightarrow> nds_tick_rtc t s = s"
  unfolding nds_tick_rtc_def by (subst rtc_catch_up.simps) simp

lemma next_event_found:
  assumes now: "unat now < 2 ^ 49 - 2048"
  shows "\<exists>ev r n. next_scheduled_event_time V now s = Some ev \<and> rtc_after now (now * 32768 div 33513982 + 1) = Some r
    \<and> unat r = rtc_deadline n \<and> (\<forall>k<n. rtc_deadline k \<le> unat now) \<and> unat r \<le> unat now + 1023
    \<and> ev \<le> nds_next_system_event_time s \<and> ev \<le> wifi_next_event V s \<and> ev \<le> r \<and> ev \<le> spu_deadline now \<and> ev \<le> lcd_deadline now
    \<and> unat ev \<le> unat now + 1024
    \<and> (synth_us V = 0 \<and> now < nds_next_system_event_time s \<and> now < wifi_next_event V s \<longrightarrow> now < ev)"
proof -
  have n64: "unat now < 2 ^ 64 - 2130" "unat now < 2 ^ 64 - 1024" using now by simp_all
  obtain r n where r: "rtc_after now (now * 32768 div 33513982 + 1) = Some r" "unat r = rtc_deadline n" "now < r"
    "\<forall>k<n. rtc_deadline k \<le> unat now" "unat r \<le> unat now + 1023" using rtc_after_exact [OF now] by blast
  define ev where "ev = min (nds_next_system_event_time s) (min (wifi_next_event V s)
      (min (synth_deadline (synth_us V) now) (min r (min (spu_deadline now) (lcd_deadline now)))))"
  have e: "next_scheduled_event_time V now s = Some ev" by (simp add: next_scheduled_event_time_def r(1) ev_def)
  have le: "ev \<le> nds_next_system_event_time s" "ev \<le> wifi_next_event V s" "ev \<le> r" "ev \<le> spu_deadline now" "ev \<le> lcd_deadline now"
    unfolding ev_def by (simp_all add: min_le_iff_disj)
  have "unat ev \<le> unat now + 1024"
    using le(4) spu_deadline_range [OF n64(2)] by (simp add: word_le_nat_alt)
  moreover have "now < ev" if "synth_us V = 0 \<and> now < nds_next_system_event_time s \<and> now < wifi_next_event V s"
  proof -
    have "now < - 1" using n64 by (simp add: word_less_nat_alt unsigned_minus_1_eq_mask mask_eq_exp_minus_1)
    then show ?thesis unfolding ev_def
      using that r(3) lcd_deadline_range [OF n64(1)] spu_deadline_range [OF n64(2)] by (simp add: synth_deadline_def)
  qed
  ultimately show ?thesis using e r le by blast
qed

lemma next_event_cases:
  shows "unat now < 2 ^ 49 - 2048 \<Longrightarrow> \<exists>ev. next_scheduled_event_time V now s = Some ev
      \<and> unat ev \<le> unat now + 1024
      \<and> (synth_us V = 0 \<and> now < nds_next_system_event_time s \<and> now < wifi_next_event V s
          \<longrightarrow> now < ev)
      \<and> (\<forall>t. caught_up now s \<and> engines_ok (m_engines V) \<and> now \<le> t \<and> t < ev \<longrightarrow>
           nds_tick_display (m_engines V) t s = s\<lparr>g_display_last := t\<rparr> \<and> nds_tick_spu V t s = s
           \<and> nds_tick_rtc t s = s \<and> nds_run_system_events t s = s)"
    and "2 ^ 49 \<le> unat now \<Longrightarrow> next_scheduled_event_time V now s = None"
proof -
  assume now: "unat now < 2 ^ 49 - 2048"
  then have n64: "unat now < 2 ^ 64 - 2130" "unat now < 2 ^ 64 - 1024" by simp_all
  obtain ev r n where e: "next_scheduled_event_time V now s = Some ev"
    and r: "unat r = rtc_deadline n" "\<forall>k<n. rtc_deadline k \<le> unat now" "unat r \<le> unat now + 1023"
    and le: "ev \<le> nds_next_system_event_time s" "ev \<le> r" "ev \<le> spu_deadline now" "ev \<le> lcd_deadline now"
    and f: "unat ev \<le> unat now + 1024"
      "synth_us V = 0 \<and> now < nds_next_system_event_time s \<and> now < wifi_next_event V s \<longrightarrow> now < ev"
    using next_event_found [OF now] by blast
  have "nds_tick_display (m_engines V) t s = s\<lparr>g_display_last := t\<rparr> \<and> nds_tick_spu V t s = s
      \<and> nds_tick_rtc t s = s \<and> nds_run_system_events t s = s"
    if c: "caught_up now s" "engines_ok (m_engines V)" and t: "now \<le> t" "t < ev" for t
  proof -
    have u: "g_display_last s = now" "g_rtc_processed_ticks s = rtc_due now" "g_mix_count s = now div 1024"
      using c(1) by (simp_all add: caught_up_def)
    have l: "t < nds_next_system_event_time s" "t < r" "t < spu_deadline now" "t < lcd_deadline now"
      using t(2) le by (simp_all add: less_le_trans)
    show ?thesis
      using display_quiet [OF c(2), of s t] spu_quiet [OF n64(2) l(3) u(3)] rtc_quiet [of s t]
        rtc_due_until [OF now t(1) l(2) r] system_events_quiet [OF l(1)] n64(1) t(1) l(4)
      by (simp add: u)
  qed
  then show "\<exists>ev. next_scheduled_event_time V now s = Some ev
      \<and> unat ev \<le> unat now + 1024
      \<and> (synth_us V = 0 \<and> now < nds_next_system_event_time s \<and> now < wifi_next_event V s
          \<longrightarrow> now < ev)
      \<and> (\<forall>t. caught_up now s \<and> engines_ok (m_engines V) \<and> now \<le> t \<and> t < ev \<longrightarrow>
           nds_tick_display (m_engines V) t s = s\<lparr>g_display_last := t\<rparr> \<and> nds_tick_spu V t s = s
           \<and> nds_tick_rtc t s = s \<and> nds_run_system_events t s = s)"
    using e f by blast
next
  assume "2 ^ 49 \<le> unat now"
  then show "next_scheduled_event_time V now s = None"
    by (simp add: next_scheduled_event_time_def Let_def rtc_after_hangs)
qed



section \<open>The planner\<close>

text \<open>The 64-cycle grid as numbers: its next point, and its points while no event is near.\<close>

definition grid_next :: "nat \<Rightarrow> nat \<Rightarrow> nat" where
  "grid_next ev t = (if ev < t + 72 then ev else t + 64)"

lemma grid_points: "k = 0 \<or> now + 64 * k + 8 \<le> ev \<Longrightarrow> (grid_next ev ^^ k) now = now + 64 * k"
proof (induction k)
  case (Suc k)
  then have "(grid_next ev ^^ k) now = now + 64 * k" by (intro Suc.IH) auto
  then show ?case using Suc.prems unfolding funpow.simps comp_apply by (simp add: grid_next_def)
qed simp

text \<open>What the fast-forward plans, as numbers.\<close>

definition idle_plan :: "nat \<Rightarrow> nat \<Rightarrow> nat \<Rightarrow> nat" where
  "idle_plan now ev tov =
    (let wake = (if ev \<le> tov then ev
                 else let grid = now + (tov - now + 63) div 64 * 64 in if ev < grid + 8 then ev else grid);
         planned = max wake (now + 64)
     in if ev < planned + 8 then ev else planned)"

lemma idle_plan_on_grid:
  assumes "now < ev" "now < tov"
  shows "\<exists>n. idle_plan now ev tov = (grid_next ev ^^ Suc n) now
    \<and> (\<forall>k\<le>n. (grid_next ev ^^ k) now = now + 64 * k \<and> now + 64 * k < min ev tov)"
proof -
  define K where "K = (ev - 8 - now) div 64"
  have K64: "64 * K \<le> ev - 8 - now" "ev - 8 - now < 64 * K + 64"
    unfolding K_def using div_mult_mod_eq [of "ev - 8 - now" 64] mod_less_divisor [of 64 "ev - 8 - now"] by linarith+
  have pts: "(grid_next ev ^^ k) now = now + 64 * k" if "k \<le> K" for k
    by (rule grid_points) (use that K64(1) in linarith)
  have lastK: "(grid_next ev ^^ Suc K) now = ev" using pts [of K] K64(2) assms(1) by (simp add: grid_next_def)
  define steps where "steps = (tov - now + 63) div 64"
  have steps: "tov \<le> now + 64 * steps" "64 * steps < tov - now + 64"
    unfolding steps_def using div_mult_mod_eq [of "tov - now + 63" 64] mod_less_divisor [of 64 "tov - now + 63"] assms(2) by linarith+
  have pos: "0 < steps" using steps(1) assms(2) by (cases steps) auto
  show ?thesis
  proof (cases "ev \<le> tov \<or> ev < now + 64 * steps + 8")
    case True
    have plan: "idle_plan now ev tov = ev"
      using True unfolding idle_plan_def Let_def steps_def by (auto simp: mult.commute)
    have "now + 64 * K < min ev tov"
    proof (cases "ev \<le> tov")
      case True with K64(1) assms(1) show ?thesis by simp
    next
      case False
      with True have "ev < now + 64 * steps + 8" by simp
      then have "64 * K < 64 * steps" using K64(1) assms(1) pos by linarith
      then have "64 * K + 64 \<le> 64 * steps" by simp
      then show ?thesis using steps(2) K64(1) assms unfolding min_less_iff_conj by linarith
    qed
    then have "\<forall>k\<le>K. now + 64 * k < min ev tov" by (meson add_left_mono le_less_trans mult_le_mono2)
    then show ?thesis using plan lastK pts by metis
  next
    case False
    have plan: "idle_plan now ev tov = now + 64 * steps"
      using False pos unfolding idle_plan_def Let_def steps_def [symmetric] by (simp add: mult.commute max_def)
    obtain n where n: "steps = Suc n" using pos by (cases steps) auto
    have "(grid_next ev ^^ k) now = now + 64 * k" if "k \<le> Suc n" for k
      by (rule grid_points) (use that False n in linarith)
    moreover have "now + 64 * k < min ev tov" if "k \<le> n" for k
      using that steps(2) False n assms(2) by simp
    ultimately show ?thesis using plan n by (metis le_Suc_eq order_refl)
  qed
qed


lemma plan_busy:
  assumes "unat now + 72 < 2 ^ 64"
  shows "unat (plan_round False now ev tov) = grid_next (unat ev) (unat now)"
proof -
  have "unat (now + 64) = unat now + 64" "unat (now + 64 + 8) = unat now + 72"
    using assms by (simp_all add: unat_word_ariths)
  then show ?thesis by (simp add: plan_round_def Let_def kIterCap_def grid_next_def word_less_nat_alt)
qed

lemma plan_idle:
  assumes now: "unat now < 2 ^ 49" and ev: "now < ev" "unat ev < 2 ^ 50" and tov: "now < tov"
  shows "unat (plan_round True now ev tov) = idle_plan (unat now) (unat ev) (unat tov)"
proof -
  define grid where "grid = now + (tov - now + kIterCap - 1) div kIterCap * kIterCap"
  have ug: "unat grid = unat now + (unat tov - unat now + 63) div 64 * 64" "unat grid < 2 ^ 51" if "tov < ev"
  proof -
    have t: "unat tov < 2 ^ 50" "unat now < unat tov" using that ev(2) tov by (simp_all add: word_less_nat_alt)
    define d where "d = tov - now"
    have d: "unat d = unat tov - unat now" unfolding d_def using t(2) by (simp add: unat_sub word_le_nat_alt)
    then have d64: "unat (d + kIterCap) = unat d + 64" using t by (simp add: kIterCap_def unat_word_ariths(1))
    have "unat (d + kIterCap - 1) = unat d + 63" by (subst unat_sub) (simp_all add: word_le_nat_alt d64)
    then have "unat (tov - now + kIterCap - 1) = unat tov - unat now + 63" unfolding d by (simp only: d_def)
    moreover have l: "(unat tov - unat now + 63) div 64 * 64 \<le> unat tov - unat now + 63" by (rule div_times_less_eq_dividend)
    ultimately show "unat grid = unat now + (unat tov - unat now + 63) div 64 * 64"
      using t now by (simp add: grid_def kIterCap_def unat_word_ariths unat_div_distrib)
    with l t show "unat grid < 2 ^ 51" by simp
  qed
  define w where "w = idle_wake now ev tov"
  have w: "unat w = (if unat ev \<le> unat tov then unat ev
      else if unat ev < unat now + (unat tov - unat now + 63) div 64 * 64 + 8 then unat ev
      else unat now + (unat tov - unat now + 63) div 64 * 64)"
  proof (cases "ev \<le> tov")
    case True then show ?thesis by (simp add: w_def idle_wake_def word_le_nat_alt)
  next
    case False
    then have "tov < ev" by simp
    note g = ug [OF this]
    have "unat (grid + 8) = unat grid + 8" using g(2) by (simp add: unat_word_ariths)
    then show ?thesis using False g(1) unfolding w_def idle_wake_def Let_def grid_def [symmetric]
      by (simp add: word_le_nat_alt word_less_nat_alt)
  qed
  have wb: "unat w < 2 ^ 51" unfolding w_def idle_wake_def Let_def grid_def [symmetric] using ev(2) ug(2) by auto
  define p where "p = (if w > now + kIterCap then w else now + kIterCap)"
  have n64: "unat (now + kIterCap) = unat now + 64" using now by (simp add: kIterCap_def unat_word_ariths)
  then have p: "unat p = max (unat w) (unat now + 64)" by (simp add: p_def word_less_nat_alt max_def)
  then have p8: "unat (p + 8) = unat p + 8" using wb now by (simp add: unat_word_ariths)
  have "plan_round True now ev tov = (if ev < p + 8 then ev else p)"
    unfolding plan_round_def Let_def if_True w_def [symmetric] p_def ..
  then show ?thesis using p p8 unfolding idle_plan_def Let_def w [symmetric] by (simp add: word_less_nat_alt)
qed

text \<open>
  No rendezvous passes a scheduled event by, and none stands still: from a time before the next
  event and the next timer overflow the planned rendezvous lies ahead, at most at the event, and within
  71 cycles unless both cores sleep.
\<close>

lemma rendezvous_bounds:
  assumes "unat now < 2 ^ 49" and "now < ev" "unat ev < 2 ^ 50" and "now < tov"
  shows "now < plan_round idle now ev tov \<and> plan_round idle now ev tov \<le> ev
    \<and> (\<not> idle \<longrightarrow> unat (plan_round idle now ev tov) \<le> unat now + 71)"
proof (cases idle)
  case False
  have "unat (plan_round False now ev tov) = grid_next (unat ev) (unat now)" using assms(1) by (intro plan_busy) simp
  with False show ?thesis using assms(2) by (simp add: word_less_nat_alt word_le_nat_alt grid_next_def)
next
  case True
  have "unat now < unat ev" "unat now < unat tov" using assms(2,4) by (simp_all add: word_less_nat_alt)
  then obtain n where n: "idle_plan (unat now) (unat ev) (unat tov) = grid_next (unat ev) ((grid_next (unat ev) ^^ n) (unat now))"
    "(grid_next (unat ev) ^^ n) (unat now) = unat now + 64 * n" "unat now + 64 * n < unat ev"
    using idle_plan_on_grid [of "unat now" "unat ev" "unat tov"] by auto
  then show ?thesis using True plan_idle [OF assms]
    by (simp add: word_less_nat_alt word_le_nat_alt grid_next_def split: if_splits)
qed

lemma rendezvous_bounds_witness:
  "1000 < plan_round True 1000 1584 1100 \<and> plan_round True 1000 1584 1100 \<le> 1584"
  using rendezvous_bounds [of 1000 1584 1100 True] by simp


section \<open>The idle fast-forward\<close>

text \<open>The four timers of a core advanced from one time to another, and the interrupts they request.\<close>

definition bank_to :: "u64 \<Rightarrow> u64 \<Rightarrow> (nat \<Rightarrow> timer) \<Rightarrow> (nat \<Rightarrow> timer) \<times> u32" where
  "bank_to l y m = (if y = l then (m, 0) else bank_loop (y - l) bank 0 m)"

lemma tick_bank_to:
  fixes s :: "'a timers_scheme"
  shows "nds_tick_timers cpu c s = (let y = sys_cycles cpu c; r = bank_to (g_timer_last s cpu) y (g_timer s cpu) in
    raise_opt cpu (snd r) (s\<lparr>g_timer_last := (g_timer_last s)(cpu := y), g_timer := (g_timer s)(cpu := fst r)\<rparr>))"
proof -
  have "raise_opt cpu 0 s = s" for s :: "'a timers_scheme" by (simp add: raise_opt_def)
  moreover have "s\<lparr>g_timer_last := l, g_timer := g_timer s\<rparr> = s\<lparr>g_timer_last := l\<rparr>" for l by simp
  ultimately show ?thesis unfolding tick_eq bank_to_def Let_def by (simp add: case_prod_beta)
qed

lemma bank_to_compose:
  assumes "l \<le> x" "x \<le> y" and acc: "\<forall>t\<in>set bank. unat (t_accum (m t)) + unat (y - l) < 2 ^ 64"
  shows "bank_to l y m = (fst (bank_to x y (fst (bank_to l x m))),
    snd (bank_to l x m) OR snd (bank_to x y (fst (bank_to l x m))))"
proof -
  have d: "(x - l) + (y - x) = y - l" by simp
  have le: "unat l \<le> unat x" "unat x \<le> unat y" using assms(1,2) by (simp_all add: word_le_nat_alt)
  have "unat (x - l) = unat x - unat l" "unat (y - x) = unat y - unat x" "unat (y - l) = unat y - unat l"
    using assms(1,2) by (simp_all add: unat_sub order.trans [OF assms(1,2)])
  then have "unat (x - l) + unat (y - x) = unat (y - l)" using le by simp
  then have acc': "\<forall>t\<in>set bank. unat (t_accum (m t)) + (unat (x - l) + unat (y - x)) < 2 ^ 64"
    using acc by simp
  have "distinct bank" by (simp add: bank_def)
  from bank_add [OF this acc', of 0 0, unfolded d]
  have add: "bank_loop (y - l) bank 0 m = (fst (bank_loop (y - x) bank 0 (fst (bank_loop (x - l) bank 0 m))),
      snd (bank_loop (x - l) bank 0 m) OR snd (bank_loop (y - x) bank 0 (fst (bank_loop (x - l) bank 0 m))))" by simp
  consider "x = l" | "x \<noteq> l" "y = x" | "x \<noteq> l" "y \<noteq> x" "y \<noteq> l" using le by (metis le_antisym word_unat_eq_iff)
  then show ?thesis by cases (simp_all add: bank_to_def add)
qed

lemma bank_to_quiet:
  assumes ok: "\<forall>t. accum_ok l (m t)" and m: "m = g_timer s cpu" "l = g_timer_last s cpu"
    and y: "l \<le> y" "y < nds_next_timer_overflow_time s" "unat y < 2 ^ 63"
  shows "snd (bank_to l y m) = 0"
proof -
  have l: "unat l < 2 ^ 63" and ld: "unat l + unat (y - l) < 2 ^ 63" using y by (simp_all add: unat_sub word_le_nat_alt)
  have "snd (timer_step (m t) (y - l) 0) = 0" if "t \<in> set bank" "clock_driven (m t)" for t
  proof -
    have t: "t < 4" using that(1) by (auto simp: bank_def)
    have "y < timer_when (m t) l" using before_next_overflow [OF y(2) t, of cpu] that(2) by (simp add: m)
    moreover have "accum_ok l (m t)" using ok by blast
    ultimately show ?thesis using step_overflow_iff [OF that(2) _ l ld, of 0] by (simp add: not_le [symmetric])
  qed
  then have "snd (bank_loop (y - l) bank 0 m) = 0" by (intro bank_quiet) (auto simp: bank_def)
  then show ?thesis by (simp add: bank_to_def)
qed

text \<open>The sleeping cores' part of a round: both clocks and timers at the rendezvous.\<close>

definition sleep_clocks :: "'a sched_scheme machine \<Rightarrow> u64 \<Rightarrow> 'a sched_scheme \<Rightarrow> 'a sched_scheme" where
  "sleep_clocks V p s =
    (let s = gpu3d_run V (push_bit 1 p) (nds_tick_timers ARM9 (push_bit 1 p) (put_slot ARM9 (\<lambda>sl. sl\<lparr>s_cycles := push_bit 1 p\<rparr>) s))
     in if cycles_of ARM7 s < p then nds_tick_timers ARM7 p (put_slot ARM7 (\<lambda>sl. sl\<lparr>s_cycles := p\<rparr>) s) else s)"

text \<open>
  The devices that are not modelled, while the geometry engine has no work (\<open>busy\<close>) and no Wi-Fi event is
  due: the engine only notes the time (\<open>stamp\<close>), the last note counts, Wi-Fi does nothing, and the picture
  engine does not see the display's clock.
\<close>

definition quiet_devices :: "'a sched_scheme machine \<Rightarrow> (u64 \<Rightarrow> 'a \<Rightarrow> 'a) \<Rightarrow> ('a \<Rightarrow> bool) \<Rightarrow> ('a \<Rightarrow> u64) \<Rightarrow> bool" where
  "quiet_devices V stamp busy wifi \<longleftrightarrow>
    (\<forall>t s. \<not> busy (sched.more s) \<longrightarrow> gpu3d_run V t s = sched.more_update (stamp t) s) \<and>
    (\<forall>t m. busy (stamp t m) = busy m \<and> wifi (stamp t m) = wifi m) \<and> (\<forall>t u m. stamp u (stamp t m) = stamp u m) \<and>
    (\<forall>s. wifi_next_event V s = wifi (sched.more s)) \<and>
    (\<forall>t s. t < wifi_next_event V s \<longrightarrow> wifi_run_events V t s = s) \<and>
    engines_ok (m_engines V) \<and> synth_us V = 0 \<and>
    (\<forall>line s x. render_scanline (m_engines V) line (s\<lparr>g_display_last := x\<rparr>) = (render_scanline (m_engines V) line s)\<lparr>g_display_last := x\<rparr>)"

lemma raise_opt_sched:
  fixes s :: "'a sched_scheme"
  shows "raise_opt c b (s\<lparr>g_slot := x\<rparr>) = (raise_opt c b s)\<lparr>g_slot := x\<rparr>"
    "raise_opt c b (s\<lparr>g_display_last := y\<rparr>) = (raise_opt c b s)\<lparr>g_display_last := y\<rparr>"
    "raise_opt c b (sched.more_update f s) = sched.more_update f (raise_opt c b s)"
    "g_slot (raise_opt c b s) = g_slot s" "sched.more (raise_opt c b s) = sched.more s"
    "g_display_last (raise_opt c b s) = g_display_last s"
  by (simp_all add: raise_opt_def nds_raise_irq_def irq_recompute_def runtime_clear_fast_limit_def)

lemma more_update_fields:
  fixes s :: "'a sched_scheme"
  shows "sched.more_update f (s\<lparr>g_slot := x\<rparr>) = (sched.more_update f s)\<lparr>g_slot := x\<rparr>"
    "sched.more_update f (s\<lparr>g_timer := y\<rparr>) = (sched.more_update f s)\<lparr>g_timer := y\<rparr>"
    "sched.more_update f (s\<lparr>g_timer_last := z\<rparr>) = (sched.more_update f s)\<lparr>g_timer_last := z\<rparr>"
    "sched.more_update f (s\<lparr>g_display_last := d\<rparr>) = (sched.more_update f s)\<lparr>g_display_last := d\<rparr>"
  by simp_all

lemma push_twice:
  fixes p :: u64
  assumes "unat p < 2 ^ 63"
  shows "unat (push_bit 1 p) = 2 * unat p" "drop_bit 1 (push_bit 1 p) = p"
proof -
  show u: "unat (push_bit 1 p) = 2 * unat p" using assms by (simp add: push_bit_eq_mult unat_word_ariths)
  show "drop_bit 1 (push_bit 1 p) = p"
    by (simp add: word_unat_eq_iff u drop_bit_eq_div unat_div_distrib del: push_bit_eq_mult)
      (use u in \<open>simp\<close>)
qed

definition sleep_slots :: "u64 \<Rightarrow> 'a sched_scheme \<Rightarrow> nds_cpu \<Rightarrow> cpu_slot" where
  "sleep_slots p s = (let sl = (g_slot s)(ARM9 := (g_slot s ARM9)\<lparr>s_cycles := push_bit 1 p\<rparr>)
     in if cycles_of ARM7 s < p then sl(ARM7 := (g_slot s ARM7)\<lparr>s_cycles := p\<rparr>) else sl)"

definition sleep_banks :: "u64 \<Rightarrow> 'a sched_scheme \<Rightarrow> nds_cpu \<Rightarrow> (nat \<Rightarrow> timer) \<times> u32" where
  "sleep_banks p s cpu = (if cpu = ARM9 \<or> cycles_of ARM7 s < p then bank_to (g_timer_last s cpu) p (g_timer s cpu) else (g_timer s cpu, 0))"

definition sleep_last :: "u64 \<Rightarrow> 'a sched_scheme \<Rightarrow> nds_cpu \<Rightarrow> u64" where
  "sleep_last p s = (\<lambda>cpu. if cpu = ARM9 \<or> cycles_of ARM7 s < p then p else g_timer_last s cpu)"

text \<open>The state the sleeping cores leave, interrupts aside.\<close>

definition asleep :: "(u64 \<Rightarrow> 'a \<Rightarrow> 'a) \<Rightarrow> u64 \<Rightarrow> 'a sched_scheme \<Rightarrow> 'a sched_scheme" where
  "asleep stamp p s = sched.more_update (stamp (push_bit 1 p))
     (s\<lparr>g_slot := sleep_slots p s, g_timer_last := sleep_last p s, g_timer := (\<lambda>cpu. fst (sleep_banks p s cpu))\<rparr>)"

lemma raise_opt_zero: "raise_opt c 0 s = s" by (simp add: raise_opt_def)

lemma sleep_clocks_form:
  assumes q: "quiet_devices V stamp busy wifi" and nb: "\<not> busy (sched.more s)" and p: "unat p < 2 ^ 63"
  shows "sleep_clocks V p s = raise_opt ARM7 (snd (sleep_banks p s ARM7)) (raise_opt ARM9 (snd (sleep_banks p s ARM9)) (asleep stamp p s))"
proof -
  have gx: "gpu3d_run V t s = sched.more_update (stamp t) s" if "\<not> busy (sched.more s)" for t s
    using q that unfolding quiet_devices_def by blast
  define w where "w = push_bit 1 p"
  have s9: "sys_cycles ARM9 w = p" using push_twice(2) [OF p] by (simp only: sys_cycles_def w_def simp_thms if_True)
  have s7: "sys_cycles ARM7 p = p" by (simp add: sys_cycles_def)
  have upd: "(f(ARM9 := a))(ARM7 := b) = (\<lambda>c. if c = ARM9 then a else b)" for f :: "nds_cpu \<Rightarrow> 'z" and a b
    by (rule ext, case_tac c) simp_all
  have one: "f(ARM9 := a) = (\<lambda>c. if c = ARM9 then a else f c)" for f :: "nds_cpu \<Rightarrow> 'z" and a by auto
  have byc: "(\<lambda>c. fst (bank_to (g_timer_last s c) p (g_timer s c))) = (\<lambda>c. if c = ARM9
      then fst (bank_to (g_timer_last s ARM9) p (g_timer s ARM9)) else fst (bank_to (g_timer_last s ARM7) p (g_timer s ARM7)))"
    by (rule ext, case_tac c) simp_all
  have by9: "(\<lambda>c. fst (if c = ARM9 then bank_to (g_timer_last s c) p (g_timer s c) else (g_timer s c, 0 :: u32))) =
      (\<lambda>c. if c = ARM9 then fst (bank_to (g_timer_last s ARM9) p (g_timer s ARM9)) else g_timer s c)"
    by (rule ext) simp
  show ?thesis
  proof (cases "cycles_of ARM7 s < p")
    case True
    then show ?thesis
      unfolding sleep_clocks_def asleep_def sleep_slots_def w_def [symmetric] using nb
      by (simp add: Let_def tick_bank_to s9 s7 gx raise_opt_sched put_slot_def sleep_banks_def sleep_last_def upd byc more_update_fields)
  next
    case False
    then show ?thesis
      unfolding sleep_clocks_def asleep_def sleep_slots_def w_def [symmetric] using nb
      by (simp add: Let_def tick_bank_to s9 s7 gx raise_opt_sched put_slot_def sleep_banks_def sleep_last_def one by9 raise_opt_zero more_update_fields)
  qed
qed


text \<open>Both cores asleep at the system time, with every device advanced to it.\<close>

definition sleeping :: "u64 \<Rightarrow> 'a sched_scheme \<Rightarrow> bool" where
  "sleeping now s \<longleftrightarrow> console_idle s \<and> \<not> g_gxfifo_stall s \<and> \<not> g_brk_hit s \<and> \<not> g_powered_off s \<and> caught_up now s \<and>
     drop_bit 1 (cycles_of ARM9 s) = now \<and> now \<le> cycles_of ARM7 s \<and>
     g_timer_last s ARM9 \<le> now \<and> g_timer_last s ARM7 \<le> cycles_of ARM7 s \<and> bank_ok s"

text \<open>The state at a rendezvous at which nothing happened.\<close>

definition still :: "(u64 \<Rightarrow> 'a \<Rightarrow> 'a) \<Rightarrow> u64 \<Rightarrow> 'a sched_scheme \<Rightarrow> 'a sched_scheme" where
  "still stamp p s = (asleep stamp p s)\<lparr>g_display_last := p\<rparr>"

lemma sleep_banks_again:
  assumes s: "sleeping now s" and p: "now < p" "p < q" "unat q < 2 ^ 63" and quiet: "snd (sleep_banks p s c) = 0"
  shows "sleep_banks q (still stamp p s) c = sleep_banks q s c"
proof -
  have f: "g_timer_last (still stamp p s) e = sleep_last p s e" "g_timer (still stamp p s) e = fst (sleep_banks p s e)"
    "cycles_of ARM7 (still stamp p s) = (if cycles_of ARM7 s < p then p else cycles_of ARM7 s)" for e
    by (simp_all add: still_def asleep_def sleep_slots_def Let_def)
  have compose: "bank_to p q (fst (bank_to l p m)) = bank_to l q m"
    if "l \<le> p" "\<forall>t. accum_ok l (m t)" "snd (bank_to l p m) = 0" for l m
  proof -
    have b: "unat (t_accum (m t)) + unat (q - l) < 2 ^ 64" if "t \<in> set bank" for t
    proof -
      have "unat (t_accum (m t)) \<le> unat l" using \<open>\<forall>t. accum_ok l (m t)\<close> by (simp add: accum_ok_def word_le_nat_alt)
      moreover have "l \<le> q" by (rule order.trans [OF \<open>l \<le> p\<close> less_imp_le [OF p(2)]])
      then have "unat (q - l) = unat q - unat l" "unat l \<le> unat q" by (simp_all add: unat_sub word_le_nat_alt)
      ultimately show ?thesis using p(3) by simp
    qed
    show ?thesis using bank_to_compose [OF that(1) less_imp_le [OF p(2)], of m] b that(3) by (simp add: prod_eq_iff)
  qed
  have ok: "\<forall>t. accum_ok (g_timer_last s c) (g_timer s c t)" and "g_timer_last s ARM9 \<le> now" and l7: "g_timer_last s ARM7 \<le> cycles_of ARM7 s"
    using s by (simp_all add: sleeping_def bank_ok_def)
  then have l9: "g_timer_last s ARM9 \<le> p" using less_imp_le [OF p(1)] by (meson order.trans)
  have q9: "cycles_of ARM7 s < q" if "cycles_of ARM7 s < p" using that p(2) by (rule less_trans)
  show ?thesis
  proof (cases "c = ARM9")
    case True
    then show ?thesis using compose [OF l9, of "g_timer s ARM9"] ok quiet
      unfolding sleep_banks_def [of q] f by (simp add: sleep_banks_def sleep_last_def)
  next
    case False
    then have c: "c = ARM7" by (cases c) simp_all
    show ?thesis
    proof (cases "cycles_of ARM7 s < p")
      case True
      then have "g_timer_last s ARM7 \<le> p" using l7 by (meson order.trans less_imp_le)
      from compose [OF this, of "g_timer s ARM7"] show ?thesis using ok quiet True p(2) q9 [OF True]
        unfolding sleep_banks_def [of q] f c by (simp add: sleep_banks_def sleep_last_def)
    next
      case False
      then show ?thesis unfolding sleep_banks_def [of q] f c by (simp add: sleep_banks_def sleep_last_def)
    qed
  qed
qed

lemma asleep_again:
  assumes q: "quiet_devices V stamp busy wifi" and s: "sleeping now s" and p: "now < p" "p < q" "unat q < 2 ^ 63"
    and quiet: "\<forall>c. snd (sleep_banks p s c) = 0"
  shows "asleep stamp q (still stamp p s) = (asleep stamp q s)\<lparr>g_display_last := p\<rparr>"
proof -
  have b: "sleep_banks q (still stamp p s) c = sleep_banks q s c" for c
    using sleep_banks_again [OF s p] quiet by blast
  have u: "stamp a (stamp b m) = stamp a m" for a b m using q unfolding quiet_devices_def by blast
  have f: "g_slot (still stamp p s) = sleep_slots p s" "g_timer_last (still stamp p s) = sleep_last p s"
    by (simp_all add: still_def asleep_def)
  have slots: "sleep_slots q (still stamp p s) = sleep_slots q s"
    using p(2) unfolding sleep_slots_def [of q] f
    by (auto simp: sleep_slots_def Let_def fun_eq_iff)
  have last: "sleep_last q (still stamp p s) = sleep_last q s"
    using p(2) unfolding sleep_last_def [of q] f by (auto simp: sleep_slots_def sleep_last_def Let_def fun_eq_iff)
  have m: "sched.more_update (stamp a) (sched.more_update (stamp b) t) = sched.more_update (stamp a) t" for a b and t :: "'a sched_scheme"
    by (cases t) (simp add: u)
  show ?thesis unfolding asleep_def [of stamp q] slots last b
    by (simp add: still_def asleep_def more_update_fields [symmetric] m)
qed


lemma display_from:
  assumes E: "engines_ok E" and blind: "\<And>line s x. render_scanline E line (s\<lparr>g_display_last := x\<rparr>) = (render_scanline E line s)\<lparr>g_display_last := x\<rparr>"
    and now: "unat (g_display_last t) < 2 ^ 64 - 2130" and p: "g_display_last t \<le> p" "p < lcd_deadline (g_display_last t)"
  shows "nds_tick_display E q (t\<lparr>g_display_last := p\<rparr>) = nds_tick_display E q t"
proof -
  have a: "unat (g_display_last t) \<le> unat p" using p(1) by (simp only: word_le_nat_alt)
  have b: "unat p < unat (lcd_deadline (g_display_last t))" using p(2) by (simp only: word_less_nat_alt)
  note gap = raster_gap [OF a b [unfolded unat_lcd_deadline [OF now]]]
  have h: "hblank_index p = hblank_index (g_display_last t)" "p div SCAN = g_display_last t div SCAN"
    by (simp_all only: word_unat_eq_iff unat_hblank_index unat_line gap)
  have d: "fold (draw_line E) is (s\<lparr>g_display_last := x\<rparr>) = (fold (draw_line E) is s)\<lparr>g_display_last := x\<rparr>" for "is" s x
    by (induction "is" arbitrary: s) (simp_all add: draw_line_def blind)
  show ?thesis unfolding tick_unfold [OF E] by (simp add: h d gap)
qed

definition advance_to :: "'a sched_scheme machine \<Rightarrow> u64 \<Rightarrow> 'a sched_scheme \<Rightarrow> 'a sched_scheme" where
  "advance_to V p s = round_devices V p (sleep_clocks V p s)"

lemma asleep_fields [simp]:
  "g_display_last (asleep stamp p s) = g_display_last s" "g_mix_count (asleep stamp p s) = g_mix_count s"
  "g_rtc_processed_ticks (asleep stamp p s) = g_rtc_processed_ticks s" "sched.more (asleep stamp p s) = stamp (push_bit 1 p) (sched.more s)"
  "nds_next_system_event_time (asleep stamp p s) = nds_next_system_event_time s"
  by (simp_all add: asleep_def nds_next_system_event_time_def)

lemma raise_opt_display [simp]:
  "g_display_last (raise_opt c b s) = g_display_last s" for s :: "'a sched_scheme"
  by (simp add: raise_opt_def nds_raise_irq_def irq_recompute_def runtime_clear_fast_limit_def)

lemma advance_again:
  assumes q: "quiet_devices V stamp busy wifi" and nb: "\<not> busy (sched.more s)" and s: "sleeping now s"
    and now: "unat now < 2 ^ 49 - 2048" and p: "now < p" "p < lcd_deadline now" "p < q" "unat q < 2 ^ 63"
    and quiet: "\<forall>c. snd (sleep_banks p s c) = 0"
  shows "advance_to V q (still stamp p s) = advance_to V q s"
proof -
  have nb': "\<not> busy (sched.more (still stamp p s))" using q nb by (simp add: quiet_devices_def still_def)
  have d: "g_display_last s = now" using s by (simp add: sleeping_def caught_up_def)
  have b: "sleep_banks q (still stamp p s) c = sleep_banks q s c" for c
    using sleep_banks_again [OF s p(1,3,4)] quiet by blast
  let ?t = "sleep_clocks V q s"
  have t: "sleep_clocks V q (still stamp p s) = ?t\<lparr>g_display_last := p\<rparr>"
    unfolding sleep_clocks_form [OF q nb' p(4)] sleep_clocks_form [OF q nb p(4)] asleep_again [OF q s p(1,3,4) quiet] b
    by (simp add: raise_opt_sched)
  have l: "g_display_last ?t = now" unfolding sleep_clocks_form [OF q nb p(4)] by (simp add: d)
  have E: "engines_ok (m_engines V)" and blind: "\<And>line s x. render_scanline (m_engines V) line (s\<lparr>g_display_last := x\<rparr>) =
      (render_scanline (m_engines V) line s)\<lparr>g_display_last := x\<rparr>" using q unfolding quiet_devices_def by blast+
  have "nds_tick_display (m_engines V) q (?t\<lparr>g_display_last := p\<rparr>) = nds_tick_display (m_engines V) q ?t"
    by (rule display_from [OF E blind]) (use l now p in \<open>simp_all add: less_imp_le\<close>)
  then show ?thesis unfolding advance_to_def round_devices_def t by simp
qed

lemma advance_quiet:
  assumes q: "quiet_devices V stamp busy wifi" and nb: "\<not> busy (sched.more s)" and s: "sleeping now s"
    and now: "unat now < 2 ^ 49 - 2048" and ev: "next_scheduled_event_time V now s = Some ev"
    and p: "now < p" "p < ev" and quiet: "\<forall>c. snd (sleep_banks p s c) = 0"
  shows "advance_to V p s = still stamp p s"
proof -
  obtain r n where r: "unat r = rtc_deadline n" "\<forall>k<n. rtc_deadline k \<le> unat now" "unat r \<le> unat now + 1023"
    and le: "ev \<le> nds_next_system_event_time s" "ev \<le> wifi_next_event V s" "ev \<le> r" "ev \<le> spu_deadline now" "ev \<le> lcd_deadline now"
    using next_event_found [OF now, of V s] unfolding ev option.inject by blast
  have l: "p < nds_next_system_event_time s" "p < wifi_next_event V s" "p < r" "p < spu_deadline now" "p < lcd_deadline now"
    using p(2) le by (simp_all add: less_le_trans)
  have p63: "unat p < 2 ^ 63" using l(3) r(3) now by (simp add: word_less_nat_alt)
  have c: "g_display_last s = now" "g_rtc_processed_ticks s = rtc_due now" "g_mix_count s = now div 1024"
    using s by (simp_all add: sleeping_def caught_up_def)
  have E: "engines_ok (m_engines V)" and w: "\<And>t s. t < wifi_next_event V s \<Longrightarrow> wifi_run_events V t s = s"
    and wn: "\<And>s. wifi_next_event V s = wifi (sched.more s)" "\<And>t m. wifi (stamp t m) = wifi m"
    using q unfolding quiet_devices_def by blast+
  have a: "sleep_clocks V p s = asleep stamp p s"
    unfolding sleep_clocks_form [OF q nb p63] using quiet by (simp add: raise_opt_zero)
  have d: "nds_tick_display (m_engines V) p (asleep stamp p s) = still stamp p s"
    unfolding still_def by (rule display_quiet [OF E]) (use c now p l in \<open>simp_all add: less_imp_le\<close>)
  have f: "g_mix_count (still stamp p s) = now div 1024" "g_rtc_processed_ticks (still stamp p s) = rtc_due now"
    "nds_next_system_event_time (still stamp p s) = nds_next_system_event_time s"
    "sched.more (still stamp p s) = stamp (push_bit 1 p) (sched.more s)"
    using c by (simp_all add: still_def nds_next_system_event_time_def) (simp_all add: asleep_def)
  have n64: "unat now < 2 ^ 64 - 1024" using now by simp
  have "nds_tick_spu V p (still stamp p s) = still stamp p s" by (rule spu_quiet [OF n64 l(4) f(1)])
  moreover have "wifi_run_events V p (still stamp p s) = still stamp p s" by (rule w) (use l(2) in \<open>simp add: wn f\<close>)
  moreover have "nds_tick_rtc p (still stamp p s) = still stamp p s"
    by (rule rtc_quiet) (simp add: f rtc_due_until [OF now less_imp_le [OF p(1)] l(3) r])
  moreover have "nds_run_system_events p (still stamp p s) = still stamp p s" by (rule system_events_quiet) (simp add: f l(1))
  ultimately show ?thesis unfolding advance_to_def round_devices_def a d by simp
qed


text \<open>A round of sleeping cores runs to its planned rendezvous, and nothing of the guest runs.\<close>

definition arm7_sleeps :: "'a sched_scheme \<Rightarrow> bool" where
  "arm7_sleeps s \<longleftrightarrow> s_started (g_slot s ARM7) \<and> \<not> s_halted (g_slot s ARM7) \<and> g_cpu_halted s ARM7 \<and>
     \<not> nds_halt_wake_pending ARM7 s \<and> \<not> dma_any_running ARM7 s \<and> \<not> g_brk_hit s \<and> \<not> g_powered_off s"

lemma raise_opt_wake:
  fixes s :: "'a sched_scheme"
  shows "c \<noteq> ARM7 \<Longrightarrow> nds_halt_wake_pending ARM7 (raise_opt c b s) = nds_halt_wake_pending ARM7 s"
    "g_cpu_halted (raise_opt c b s) = g_cpu_halted s" "dma_any_running d (raise_opt c b s) = dma_any_running d s"
    "g_brk_hit (raise_opt c b s) = g_brk_hit s" "g_powered_off (raise_opt c b s) = g_powered_off s"
  by (simp_all add: raise_opt_def nds_raise_irq_def irq_recompute_def runtime_clear_fast_limit_def nds_halt_wake_pending_def
      dma_any_running_def)

lemma raise_opt_irq:
  "g_ie (raise_opt c b s) = g_ie s" "c \<noteq> d \<Longrightarrow> g_if (raise_opt c b s) d = g_if s d" "g_ime (raise_opt c b s) = g_ime s"
  "g_dma (raise_opt c b s) = g_dma s"
  by (simp_all add: raise_opt_def nds_raise_irq_def irq_recompute_def runtime_clear_fast_limit_def)

lemma arm7_sleeps_tick: "c \<noteq> ARM7 \<Longrightarrow> arm7_sleeps (nds_tick_timers c y s) = arm7_sleeps s"
  unfolding tick_bank_to Let_def arm7_sleeps_def
  by (simp add: raise_opt_wake(2-) raise_opt_sched(4) raise_opt_irq nds_halt_wake_pending_def dma_any_running_def)

lemma arm7_sleeps_updates:
  "arm7_sleeps (sched.more_update f s) = arm7_sleeps s" "arm7_sleeps (put_slot ARM9 g s) = arm7_sleeps s"
  by (simp_all add: arm7_sleeps_def put_slot_def nds_halt_wake_pending_def dma_any_running_def)

lemma run_slice_asleep:
  assumes "\<not> s_halted (g_slot s c)" "\<not> dma_any_running c s" "g_cpu_halted s c" "\<not> nds_halt_wake_pending c s"
    and q: "cycles_of c s \<le> y" "unat y - unat (cycles_of c s) < 2 ^ 32"
  shows "run_slice V c (ucast (y - cycles_of c s)) s = Some (put_slot c (\<lambda>sl. sl\<lparr>s_cycles := y\<rparr>) s)"
proof -
  have u: "unat (y - cycles_of c s) < 2 ^ 32" using q by (simp add: unat_sub)
  have "ucast (ucast (y - cycles_of c s) :: u32) = y - cycles_of c s"
    by (rule word_unat_eq_iff [THEN iffD2]) (use u in \<open>simp add: unsigned_ucast_eq unsigned_take_bit_eq take_bit_nat_eq_self\<close>)
  then show ?thesis using assms(1-4) by (simp add: run_slice_def put_slot_def)
qed

lemma catch_up_asleep:
  assumes s: "arm7_sleeps s" and d: "unat y - unat (cycles_of ARM7 s) < 2 ^ 32"
  shows "arm7_catch_up V y s =
    Some (if cycles_of ARM7 s < y then nds_tick_timers ARM7 y (put_slot ARM7 (\<lambda>sl. sl\<lparr>s_cycles := y\<rparr>) s) else s)"
proof (cases "cycles_of ARM7 s < y")
  case False
  then show ?thesis by (subst arm7_catch_up.simps) simp
next
  case True
  let ?u = "nds_tick_timers ARM7 y (put_slot ARM7 (\<lambda>sl. sl\<lparr>s_cycles := y\<rparr>) s)"
  have le: "cycles_of ARM7 s \<le> y" using True by simp
  have "unat (y - cycles_of ARM7 s) < 2 ^ 32" using d le by (simp add: unat_sub)
  then have q: "\<not> y - cycles_of ARM7 s > 0xFFFFFFFF" by (simp add: word_less_nat_alt)
  have r: "run_slice V ARM7 (ucast (y - cycles_of ARM7 s)) s = Some (put_slot ARM7 (\<lambda>sl. sl\<lparr>s_cycles := y\<rparr>) s)"
    by (rule run_slice_asleep) (use s le d in \<open>simp_all add: arm7_sleeps_def\<close>)
  have u: "cycles_of ARM7 ?u = y" by (simp add: tick_bank_to Let_def raise_opt_sched)
  have stop: "arm7_catch_up V y ?u = Some ?u" by (subst arm7_catch_up.simps) (simp add: u)
  have c: "s_started (g_slot s ARM7) \<and> \<not> s_halted (g_slot s ARM7) \<and> \<not> g_brk_hit s \<and> cycles_of ARM7 s < y"
    using s True by (simp add: arm7_sleeps_def)
  have put: "cycles_of ARM7 (put_slot ARM7 (\<lambda>sl. sl\<lparr>s_cycles := y\<rparr>) s) = y" by simp
  have ne: "y \<noteq> cycles_of ARM7 s" using True by auto
  show ?thesis using c
    by (subst arm7_catch_up.simps) (simp only: simp_thms if_True if_not_P [OF q] Let_def r bind.bind_lunit put u if_not_P [OF ne] stop True)
qed

lemma round_asleep:
  assumes q: "quiet_devices V stamp busy wifi" and nb: "\<not> busy (sched.more s)" and s: "sleeping now s"
    and y: "now < y" "unat y < 2 ^ 50" "unat y \<le> unat now + 2 ^ 20"
  shows "round_to V y s = Some (y, advance_to V y s)"
proof -
  have gx: "gpu3d_run V t s = sched.more_update (stamp t) s" if "\<not> busy (sched.more s)" for t s
    using q that unfolding quiet_devices_def by blast
  have y63: "unat y < 2 ^ 63" using y(2) by simp
  define w where "w = push_bit 1 y"
  have w: "unat w = 2 * unat y" "drop_bit 1 w = y" unfolding w_def using push_twice [OF y63] by blast+
  have c9: "unat (cycles_of ARM9 s) div 2 = unat now"
  proof -
    have "cycles_of ARM9 s div 2 = now" using s by (simp add: sleeping_def drop_bit_eq_div)
    from arg_cong [OF this, of unat] show ?thesis by (simp add: unat_div_distrib)
  qed
  then have lt: "unat (cycles_of ARM9 s) < unat w" "unat w - unat (cycles_of ARM9 s) < 2 ^ 32"
    using y by (simp_all add: w(1) word_less_nat_alt)
  have i: "s_started (g_slot s ARM9)" "\<not> s_halted (g_slot s ARM9)" "\<not> dma_any_running ARM9 s" "g_cpu_halted s ARM9"
    "\<not> nds_halt_wake_pending ARM9 s" "\<not> g_gxfifo_stall s" "arm7_sleeps s" "now \<le> cycles_of ARM7 s"
    using s by (simp_all add: sleeping_def console_idle_def arm7_sleeps_def)
  let ?p = "put_slot ARM9 (\<lambda>sl. sl\<lparr>s_cycles := w\<rparr>) s"
  have a9: "arm9_phase V y s = Some ?p"
    unfolding arm9_phase_def Let_def w_def [symmetric]
    using i lt run_slice_asleep [OF i(2,3,4,5), of w] by (simp add: word_less_nat_alt word_le_nat_alt)
  let ?t = "nds_tick_timers ARM9 w ?p"
  let ?g = "gpu3d_run V w ?t"
  have t: "sched.more ?t = sched.more s" "g_slot ?t = g_slot ?p"
    by (simp_all add: tick_bank_to Let_def raise_opt_sched put_slot_def)
  then have g: "?g = sched.more_update (stamp w) ?t" using nb by (simp add: gx)
  have cyc: "cycles_of ARM9 ?p = w" "cycles_of ARM9 ?t = w" "cycles_of ARM9 ?g = w" "cycles_of ARM7 ?g = cycles_of ARM7 s" unfolding g by (simp_all add: t)
  have zz: "arm7_sleeps ?g" unfolding g arm7_sleeps_updates by (simp add: arm7_sleeps_tick arm7_sleeps_updates i(7))
  have "unat y - unat (cycles_of ARM7 ?g) < 2 ^ 32" using y(3) i(8) unfolding cyc by (simp add: word_le_nat_alt)
  note cu = catch_up_asleep [OF zz this, of V]
  have sc: "(if cycles_of ARM7 ?g < y then nds_tick_timers ARM7 y (put_slot ARM7 (\<lambda>sl. sl\<lparr>s_cycles := y\<rparr>) ?g) else ?g) =
      sleep_clocks V y s"
    unfolding sleep_clocks_def w_def [symmetric] Let_def ..
  have off: "\<not> g_powered_off (sleep_clocks V y s)"
    using zz unfolding sc [symmetric] arm7_sleeps_def
    by (simp add: tick_bank_to Let_def raise_opt_wake put_slot_def)
  have cu': "arm7_catch_up V y ?g = Some (sleep_clocks V y s)" by (rule trans [OF cu]) (simp only: sc)
  show ?thesis
    unfolding round_to_def a9 bind.bind_lunit Let_def cyc w(2) cu' option.map(2) if_not_P [OF off] advance_to_def ..
qed


text \<open>Sleeping through a rendezvous keeps every condition of sleep, and the next event.\<close>

lemma bank_to_accum: "l \<le> y \<Longrightarrow> \<forall>t. accum_ok l (m t) \<Longrightarrow> \<forall>t. accum_ok y (fst (bank_to l y m) t)"
proof -
  assume le: "l \<le> y" and ok: "\<forall>t. accum_ok l (m t)"
  have "accum_ok (if u \<in> set bank then l else y) (m u)" for u
    using ok le by (simp add: accum_ok_def) (meson order.trans)
  then show ?thesis using bank_loop_accum [OF le, of bank m 0] ok by (auto simp: bank_to_def bank_def)
qed

lemma sleeping_still:
  assumes s: "sleeping now s" and now: "unat now < 2 ^ 49 - 2048" and p: "now < p" "p < r" "p < spu_deadline now"
    and r: "unat r = rtc_deadline n" "\<forall>k<n. rtc_deadline k \<le> unat now" "unat r \<le> unat now + 1023"
  shows "sleeping p (still stamp p s)"
proof -
  have p63: "unat p < 2 ^ 63" using p(2) r(3) now by (simp add: word_less_nat_alt)
  have c: "g_rtc_processed_ticks s = rtc_due now" "g_mix_count s = now div 1024" and i: "console_idle s"
    and l: "g_timer_last s ARM9 \<le> now" "g_timer_last s ARM7 \<le> cycles_of ARM7 s" and ok: "\<And>c. \<forall>t. accum_ok (g_timer_last s c) (g_timer s c t)"
    and z: "\<not> g_gxfifo_stall s" "\<not> g_brk_hit s" "\<not> g_powered_off s"
    using s by (simp_all add: sleeping_def caught_up_def bank_ok_def)
  have n64: "unat now < 2 ^ 64 - 1024" using now by simp
  have "unat p div 1024 = unat now div 1024"
  proof -
    have "unat p < (unat now div 1024 + 1) * 1024" using p(3) by (simp add: word_less_nat_alt unat_spu_deadline [OF n64])
    moreover have "unat now div 1024 \<le> unat p div 1024" by (rule div_le_mono) (use p(1) in \<open>simp add: word_less_nat_alt\<close>)
    ultimately show ?thesis by (simp add: div_less_iff_less_mult [symmetric])
  qed
  then have "p div 1024 = now div 1024" by (simp add: word_unat_eq_iff unat_div_distrib)
  then have cu: "caught_up p (still stamp p s)"
    using c rtc_due_until [OF now less_imp_le [OF p(1)] p(2) r] by (simp add: caught_up_def still_def)
  have idle: "console_idle (still stamp p s)"
    using i by (simp add: console_idle_def still_def asleep_def sleep_slots_def Let_def nds_halt_wake_pending_def dma_any_running_def)
  have "\<forall>t. accum_ok (sleep_last p s c) (fst (sleep_banks p s c) t)" for c
  proof (cases "c = ARM9 \<or> cycles_of ARM7 s < p")
    case True
    then have "g_timer_last s c \<le> p" using l p(1) by (cases c) (auto intro: order.trans [OF _ less_imp_le])
    from bank_to_accum [OF this ok] show ?thesis using True by (simp add: sleep_banks_def sleep_last_def)
  next
    case False
    then show ?thesis using ok [of c] by (simp add: sleep_banks_def sleep_last_def)
  qed
  then have acc: "bank_ok (still stamp p s)" by (simp add: bank_ok_def still_def asleep_def)
  have cyc: "drop_bit 1 (cycles_of ARM9 (still stamp p s)) = p"
    using push_twice(2) [OF p63] by (simp only: still_def asleep_def sleep_slots_def Let_def) simp
  have rest: "p \<le> cycles_of ARM7 (still stamp p s)" "g_timer_last (still stamp p s) ARM9 \<le> p"
    "g_timer_last (still stamp p s) ARM7 \<le> cycles_of ARM7 (still stamp p s)"
    using l by (auto simp: still_def asleep_def sleep_slots_def sleep_last_def Let_def)
  show ?thesis unfolding sleeping_def using cu idle acc cyc rest z by (simp add: still_def asleep_def)
qed

lemma rtc_after_same:
  assumes now: "unat now < 2 ^ 49 - 4096" and p: "now \<le> p" "p < r" and r: "rtc_after now (now * 32768 div 33513982 + 1) = Some r"
  shows "rtc_after p (p * 32768 div 33513982 + 1) = Some r"
proof -
  have now': "unat now < 2 ^ 49 - 2048" using now by simp
  from rtc_after_exact [OF now'] r obtain n where n: "unat r = rtc_deadline n" "now < r" "\<forall>k<n. rtc_deadline k \<le> unat now"
    "unat r \<le> unat now + 1023" by auto
  have "unat p < 2 ^ 49 - 2048" using p(2) n(4) now by (simp add: word_less_nat_alt)
  from rtc_after_exact [OF this] obtain r' n' where r': "rtc_after p (p * 32768 div 33513982 + 1) = Some r'" "unat r' = rtc_deadline n'"
    "p < r'" "\<forall>k<n'. rtc_deadline k \<le> unat p" by blast
  have "\<not> n < n'" using r'(4) n(1) p(2) by (auto simp: word_less_nat_alt)
  moreover have "\<not> n' < n" using n(3) r'(2,3) p(1) by (auto simp: word_less_nat_alt word_le_nat_alt)
  ultimately have "n = n'" by simp
  then have "r = r'" using n(1) r'(2) by (simp add: word_unat_eq_iff)
  then show ?thesis using r'(1) by simp
qed

lemma spu_deadline_same: "unat now < 2 ^ 64 - 1024 \<Longrightarrow> now \<le> p \<Longrightarrow> p < spu_deadline now \<Longrightarrow> spu_deadline p = spu_deadline now"
proof -
  assume n: "unat now < 2 ^ 64 - 1024" and p: "now \<le> p" "p < spu_deadline now"
  have "unat p < (unat now div 1024 + 1) * 1024" using p(2) by (simp add: word_less_nat_alt unat_spu_deadline [OF n])
  moreover have "unat now div 1024 \<le> unat p div 1024" by (rule div_le_mono) (use p(1) in \<open>simp add: word_le_nat_alt\<close>)
  ultimately have "unat p div 1024 = unat now div 1024" by (simp add: div_less_iff_less_mult [symmetric])
  then have "p div 1024 = now div 1024" by (simp add: word_unat_eq_iff unat_div_distrib)
  then show ?thesis by (simp add: spu_deadline_def)
qed

lemma lcd_deadline_same:
  assumes n: "unat now < 2 ^ 63" and p: "now \<le> p" "p < lcd_deadline now"
  shows "lcd_deadline p = lcd_deadline now"
proof -
  have n': "unat now < 2 ^ 64 - 2130" using n by simp
  have a: "unat now \<le> unat p" using p(1) by (simp only: word_le_nat_alt)
  have b: "unat p < unat (lcd_deadline now)" using p(2) by (simp only: word_less_nat_alt)
  note gap = raster_gap [OF a b [unfolded unat_lcd_deadline [OF n']]]
  have p': "unat p < 2 ^ 64 - 2130" using b lcd_deadline_range [OF n'] n by simp
  have e: "(x mod 2130 < 1584) = ((x + 546) div 2130 = x div 2130)" for x :: nat
  proof -
    define q where "q = x div 2130"
    define r where "r = x mod 2130"
    have x: "x = q * 2130 + r" and r: "r < 2130" by (simp_all add: q_def r_def)
    have "(x + 546) div 2130 = q + (if r < 1584 then 0 else 1)" unfolding x raster_shift raster_hblank [OF r] ..
    then show ?thesis by (simp add: q_def [symmetric] r_def [symmetric])
  qed
  show ?thesis unfolding word_unat_eq_iff unat_lcd_deadline [OF n'] unat_lcd_deadline [OF p'] e gap ..
qed

lemma next_event_still:
  assumes q: "quiet_devices V stamp busy wifi" and now: "unat now < 2 ^ 49 - 4096"
    and ev: "next_scheduled_event_time V now s = Some ev" and p: "now \<le> p" "p < ev"
  shows "next_scheduled_event_time V p (still stamp p s) = Some ev"
proof -
  have now': "unat now < 2 ^ 49 - 2048" and n64: "unat now < 2 ^ 64 - 1024" "unat now < 2 ^ 63" using now by simp_all
  obtain r where r: "rtc_after now (now * 32768 div 33513982 + 1) = Some r" using rtc_after_exact [OF now'] by blast
  have e: "ev = min (nds_next_system_event_time s) (min (wifi_next_event V s) (min (synth_deadline (synth_us V) now)
      (min r (min (spu_deadline now) (lcd_deadline now)))))"
    using ev by (simp add: next_scheduled_event_time_def r)
  have l: "p < r" "p < spu_deadline now" "p < lcd_deadline now" using p(2) unfolding e by simp_all
  have v: "synth_us V = 0" "\<And>t. wifi_next_event V t = wifi (sched.more t)" "\<And>t m. wifi (stamp t m) = wifi m"
    using q unfolding quiet_devices_def by blast+
  have f: "nds_next_system_event_time (still stamp p s) = nds_next_system_event_time s"
    "sched.more (still stamp p s) = stamp (push_bit 1 p) (sched.more s)"
    by (simp_all add: still_def nds_next_system_event_time_def) (simp_all add: asleep_def)
  show ?thesis unfolding next_scheduled_event_time_def rtc_after_same [OF now p(1) l(1) r] e
    by (simp add: f v synth_deadline_def spu_deadline_same [OF n64(1) p(1) l(2)] lcd_deadline_same [OF n64(2) p(1) l(3)])
qed

text \<open>The scheduler without the fast-forward: every round is planned on the 64-cycle grid.\<close>

definition grid_round :: "'a sched_scheme machine \<Rightarrow> 'a sched_scheme console \<Rightarrow> 'a sched_scheme console option" where
  "grid_round V k =
    (let k = k\<lparr>g_round_active := True\<rparr>; s = con_machine k; now = g_sys_timestamp k in
     Option.bind (next_scheduled_event_time V now s) (\<lambda>ev.
       map_option (\<lambda>(rendezvous, s). k\<lparr>con_machine := s, g_sys_timestamp := rendezvous, g_round_active := False\<rparr>)
         (round_to V (plan_round False now ev (nds_next_timer_overflow_time s)) s)))"

fun grid_rounds :: "'a sched_scheme machine \<Rightarrow> nat \<Rightarrow> 'a sched_scheme console \<Rightarrow> 'a sched_scheme console option" where
  "grid_rounds V 0 k = Some k"
| "grid_rounds V (Suc n) k = Option.bind (grid_rounds V n k) (grid_round V)"

lemma plan_busy_any: "plan_round False now ev a = plan_round False now ev b"
  by (simp add: plan_round_def Let_def)

lemma sleep_banks_quiet:
  assumes s: "sleeping now s" and p: "now < p" "p < nds_next_timer_overflow_time s" "unat p < 2 ^ 63"
  shows "snd (sleep_banks p s c) = 0"
proof (cases "c = ARM9 \<or> cycles_of ARM7 s < p")
  case True
  have l: "g_timer_last s ARM9 \<le> now" "g_timer_last s ARM7 \<le> cycles_of ARM7 s" and ok: "\<forall>t. accum_ok (g_timer_last s c) (g_timer s c t)"
    using s by (simp_all add: sleeping_def bank_ok_def)
  have "g_timer_last s c \<le> p"
    using True l p(1) by (cases c) (auto intro: order.trans [OF _ less_imp_le])
  from bank_to_quiet [OF ok refl refl this p(2,3)] show ?thesis using True by (simp add: sleep_banks_def)
qed (simp add: sleep_banks_def)

text \<open>
  C1. The idle fast-forward is unobservable. When both cores sleep with nothing to wake them and no
  geometry work is pending, the one round that jumps ahead returns exactly the console that a number of
  rounds on the 64-cycle grid return: registers, clocks, timers, devices and interrupt requests.
\<close>

theorem idle_fast_forward_unobservable:
  assumes q: "quiet_devices V stamp busy wifi" and nb: "\<not> busy (sched.more (con_machine k))"
    and s: "sleeping (g_sys_timestamp k) (con_machine k)" and now: "unat (g_sys_timestamp k) < 2 ^ 49 - 4096"
    and future: "g_sys_timestamp k < nds_next_system_event_time (con_machine k)"
      "g_sys_timestamp k < wifi_next_event V (con_machine k)" "g_sys_timestamp k < nds_next_timer_overflow_time (con_machine k)"
  shows "\<exists>n k'. scheduler_run_round V k = Some k' \<and> grid_rounds V (Suc n) k = Some k'"
proof -
  let ?now = "g_sys_timestamp k" and ?s = "con_machine k"
  let ?tov = "nds_next_timer_overflow_time ?s"
  have now': "unat ?now < 2 ^ 49 - 2048" using now by simp
  have "synth_us V = 0" using q unfolding quiet_devices_def by blast
  with future obtain ev r m where ev: "next_scheduled_event_time V ?now ?s = Some ev" "?now < ev" "unat ev \<le> unat ?now + 1024"
    and r: "unat r = rtc_deadline m" "\<forall>k<m. rtc_deadline k \<le> unat ?now" "unat r \<le> unat ?now + 1023"
    and le: "ev \<le> r" "ev \<le> spu_deadline ?now" "ev \<le> lcd_deadline ?now"
    using next_event_found [OF now', of V ?s] by blast
  have lt: "unat ?now < unat ev" "unat ?now < unat ?tov" using ev(2) future(3) by (simp_all add: word_less_nat_alt)
  from idle_plan_on_grid [OF lt] obtain n where
    plan: "idle_plan (unat ?now) (unat ev) (unat ?tov) = (grid_next (unat ev) ^^ Suc n) (unat ?now)"
    and pts: "\<And>i. i \<le> n \<Longrightarrow> (grid_next (unat ev) ^^ i) (unat ?now) = unat ?now + 64 * i"
    and before: "\<And>i. i \<le> n \<Longrightarrow> unat ?now + 64 * i < min (unat ev) (unat ?tov)" by blast
  define pt where "pt i = (word_of_nat (unat ?now + 64 * i) :: u64)" for i
  have pt: "unat (pt i) = unat ?now + 64 * i" if "i \<le> n" for i
  proof -
    have w: "unat (word_of_nat x :: u64) = x" if "x < 2 ^ 64" for x using that by (simp add: unsigned_of_nat take_bit_nat_eq_self)
    show ?thesis unfolding pt_def by (rule w) (use before [OF that] unsigned_less [of ev, where 'a = nat] in simp)
  qed
  have pt0: "pt 0 = ?now" by (simp add: pt_def)
  have pos: "?now < pt i" if "i \<le> n" "0 < i" for i using pt [OF that(1)] that(2) by (simp add: word_less_nat_alt)
  have ptev: "pt i < ev" "pt i < ?tov" if "i \<le> n" for i
    using before [OF that] by (simp_all add: word_less_nat_alt pt [OF that])
  have pt63: "unat (pt i) < 2 ^ 50" if "i \<le> n" for i using ptev(1) [OF that] ev(3) now by (simp add: word_less_nat_alt)
  define st where "st i = (if i = 0 then ?s else still stamp (pt i) ?s)" for i :: nat
  have quiet: "\<forall>c. snd (sleep_banks (pt i) ?s c) = 0" if "i \<le> n" "0 < i" for i
    using sleep_banks_quiet [OF s pos [OF that] ptev(2) [OF that(1)]] pt63 [OF that(1)] by simp
  have sl: "sleeping (pt i) (st i)" if "i \<le> n" for i
  proof (cases "i = 0")
    case False
    then show ?thesis using sleeping_still [OF s now' pos [OF that] _ _ r, of stamp] ptev(1) [OF that] le
      by (simp add: st_def less_le_trans)
  qed (use s in \<open>simp add: st_def pt0\<close>)
  have nbs: "\<not> busy (sched.more (st i))" for i
    using nb q by (simp add: st_def still_def quiet_devices_def)
  have evs: "next_scheduled_event_time V (pt i) (st i) = Some ev" if "i \<le> n" for i
  proof (cases "i = 0")
    case False
    then show ?thesis using next_event_still [OF q now ev(1) less_imp_le [OF pos [OF that]] ptev(1) [OF that]] by (simp add: st_def)
  qed (use ev(1) in \<open>simp add: st_def pt0\<close>)
  have adv: "advance_to V y (st i) = advance_to V y ?s" if i: "i \<le> n" and y: "pt i < y" "unat y < 2 ^ 63" for i y
  proof (cases "i = 0")
    case False
    then show ?thesis
      using advance_again [OF q nb s now' pos [OF i] _ y quiet [OF i]] ptev(1) [OF i] le(3) by (simp add: st_def less_le_trans)
  qed (simp add: st_def)
  define nx where "nx i = plan_round False (pt i) ev 0" for i
  have nx: "unat (nx i) = grid_next (unat ev) (unat ?now + 64 * i)" if "i \<le> n" for i
    using plan_busy [of "pt i" ev 0] pt63 [OF that] by (simp add: nx_def pt [OF that])
  have step: "grid_round V (k\<lparr>con_machine := st i, g_sys_timestamp := pt i, g_round_active := a\<rparr>) =
      Some (k\<lparr>con_machine := advance_to V (nx i) ?s, g_sys_timestamp := nx i, g_round_active := False\<rparr>)" if i: "i \<le> n" for i a
  proof -
    have g: "pt i < nx i" "unat (nx i) \<le> unat (pt i) + 71"
      using ptev(1) [OF i] by (simp_all add: word_less_nat_alt nx [OF i] pt [OF i] grid_next_def)
    have b: "unat (nx i) < 2 ^ 50" using g(2) ptev(1) [OF i] ev(3) now by (simp add: word_less_nat_alt)
    have "round_to V (nx i) (st i) = Some (nx i, advance_to V (nx i) (st i))"
      by (rule round_asleep [OF q nbs sl [OF i] g(1) b]) (use g(2) in simp)
    moreover have "advance_to V (nx i) (st i) = advance_to V (nx i) ?s" by (rule adv [OF i g(1)]) (use b in simp)
    moreover have "plan_round False (pt i) ev x = nx i" for x unfolding nx_def by (rule plan_busy_any)
    ultimately show ?thesis by (simp add: grid_round_def Let_def evs [OF i])
  qed
  have rounds: "grid_rounds V i k = Some (k\<lparr>con_machine := st i, g_sys_timestamp := pt i, g_round_active := i = 0 \<and> g_round_active k\<rparr>)"
    if "i \<le> n" for i using that
  proof (induction i)
    case 0
    then show ?case by (simp add: st_def pt0)
  next
    case (Suc i)
    then have i: "i \<le> n" by simp
    have "unat (nx i) = unat (pt (Suc i))" using pts [OF Suc.prems] pts [OF i] nx [OF i] pt [OF Suc.prems] by simp
    then have e: "nx i = pt (Suc i)" by (simp only: word_unat_eq_iff)
    have "advance_to V (pt (Suc i)) ?s = st (Suc i)"
      using advance_quiet [OF q nb s now' ev(1) pos [OF Suc.prems] ptev(1) [OF Suc.prems] quiet [OF Suc.prems]] by (simp add: st_def)
    then show ?case using Suc.IH [OF i] step [OF i] by (simp add: e)
  qed
  define P where "P = plan_round True ?now ev ?tov"
  have "unat P = idle_plan (unat ?now) (unat ev) (unat ?tov)"
    unfolding P_def by (rule plan_idle) (use now ev(2,3) future(3) in simp_all)
  then have "unat P = unat (nx n)" using plan pts [of n] nx [of n] by simp
  then have P: "P = nx n" by (simp only: word_unat_eq_iff)
  have grid: "grid_rounds V (Suc n) k = Some (k\<lparr>con_machine := advance_to V P ?s, g_sys_timestamp := P, g_round_active := False\<rparr>)"
    using rounds [of n] step [of n] by (simp add: P)
  have PP: "?now < P" "unat P \<le> unat ev"
    using nx [of n] before [of n] unfolding P by (simp_all add: word_less_nat_alt grid_next_def)
  have "round_to V P ?s = Some (P, advance_to V P ?s)"
    by (rule round_asleep [OF q nb s PP(1)]) (use PP(2) ev(3) now in simp_all)
  then have "scheduler_run_round V k = Some (k\<lparr>con_machine := advance_to V P ?s, g_sys_timestamp := P, g_round_active := False\<rparr>)"
    using s by (simp add: scheduler_run_round_def Let_def ev(1) sleeping_def P_def [symmetric])
  with grid show ?thesis by blast
qed


section \<open>A concrete console\<close>

lemma quiet_machine_quiet: "quiet_devices quiet_machine (\<lambda>_ m. m) (\<lambda>_. False) (\<lambda>_. - 1)"
  by (simp add: quiet_devices_def quiet_machine_def still_engines_ok) (simp add: still_engines_def)

lemma sched_boot_deadlines:
  "nds_next_system_event_time sched_boot = - 1" "nds_next_timer_overflow_time sched_boot = - 1"
  by (simp_all add: nds_next_system_event_time_def nds_next_timer_overflow_time_def sched_boot_simps)

lemma zero_less_max: "(0 :: u64) < - 1" by (simp add: word_less_nat_alt unsigned_minus_1_eq_mask mask_eq_exp_minus_1)

lemma quiet_machine_fields: "synth_us quiet_machine = 0" "wifi_next_event quiet_machine s = - 1"
  by (simp_all add: quiet_machine_def)

lemma sched_boot_caught_up: "caught_up 0 sched_boot"
  by (simp add: caught_up_def rtc_due_def sched_boot_simps)

lemma sched_boot_sleeping: "sleeping 0 sched_boot"
  using sched_boot_caught_up
  by (simp add: sleeping_def console_idle_def nds_halt_wake_pending_def dma_any_running_def bank_ok_def accum_ok_def sched_boot_simps)

lemma idle_fast_forward_unobservable_witness:
  "\<exists>n k'. scheduler_run_round quiet_machine console_boot = Some k' \<and> grid_rounds quiet_machine (Suc n) console_boot = Some k'"
  by (rule idle_fast_forward_unobservable [OF quiet_machine_quiet])
    (simp_all add: console_boot_def sched_boot_sleeping sched_boot_deadlines quiet_machine_fields zero_less_max)


end
