(* ===== verification/Vram.thy ===== *)
theory Vram
  imports Prelude
begin

text \<open>
  Video memory (\<open>runner/src/vram.cpp\<close>): nine banks of physical memory, the control register that
  places each of them in one of twelve windows, the incremental window tables, the processors' and the
  renderers' views, the flattened texture copies (with the coherence calls of \<open>gpu3d.cpp\<close> that cache
  them), execute provenance, and the savestate section.  The scanline renderer's fences are parameters;
  \<open>io.cpp\<close>'s POWCNT1 is a field.  Shown: the tables always decode the control registers; a store is read
  back through any mapped window; the cached texture copies are never stale; a savestate round-trips.
\<close>

section \<open>State\<close>

text \<open>For every 16 KB (or larger) slot of a window, the set of banks behind it.\<close>

record vram_maps =
  g_lcdc :: u16
  g_abg :: "nat \<Rightarrow> u16"
  g_aobj :: "nat \<Rightarrow> u16"
  g_bbg :: "nat \<Rightarrow> u16"
  g_bobj :: "nat \<Rightarrow> u16"
  g_abg_ext :: "nat \<Rightarrow> u16"
  g_aobj_ext :: u16
  g_bbg_ext :: "nat \<Rightarrow> u16"
  g_bobj_ext :: u16
  g_texture :: "nat \<Rightarrow> u16"
  g_texpal :: "nat \<Rightarrow> u16"
  g_arm7 :: "nat \<Rightarrow> u16"

text \<open>A renderer's direct pointers are offsets into \<open>g_vram\<close>; \<open>None\<close> is a null pointer.\<close>

record renderer_view =
  rv_bg :: "nat \<Rightarrow> u32 option"
  rv_obj :: "nat \<Rightarrow> u32 option"

record vram = vram_maps +
  g_vram :: "nat \<Rightarrow> u8"
  g_vram_written :: "nat \<Rightarrow> bool"
  g_vram_generation :: "nat \<Rightarrow> u32"
  g_palette :: "nat \<Rightarrow> u8"
  g_oam :: "nat \<Rightarrow> u8"
  g_cnt :: "nat \<Rightarrow> u8"
  g_renderer_view :: "nat \<Rightarrow> renderer_view"
  g_texture_generation :: u64
  powercontrol9 :: u16

definition kBankOffset :: "nat \<Rightarrow> u32" where
  "kBankOffset bank = [0x00000, 0x20000, 0x40000, 0x60000, 0x80000, 0x90000, 0x94000, 0x98000, 0xA0000] ! bank"

definition kBankSize :: "nat \<Rightarrow> u32" where
  "kBankSize bank = [0x20000, 0x20000, 0x20000, 0x20000, 0x10000, 0x04000, 0x04000, 0x08000, 0x04000] ! bank"

definition kTotalVram :: u32 where "kTotalVram = 0xA4000"
definition kExecPageShift :: nat where "kExecPageShift = 12"

section \<open>Window tables\<close>

definition countr_zero :: "u16 \<Rightarrow> nat" where
  "countr_zero bm = length (takeWhile (\<lambda>i. \<not> bit bm i) [0..<32])"

definition single_bank :: "u16 \<Rightarrow> bool" where
  "single_bank bm \<longleftrightarrow> bm \<noteq> 0 \<and> bm AND (bm - 1) = 0"

definition bank_offset :: "nat \<Rightarrow> u32 \<Rightarrow> u32" where
  "bank_offset bank addr = kBankOffset bank + (addr AND (kBankSize bank - 1))"

definition direct_chunk :: "u16 \<Rightarrow> u32 \<Rightarrow> u32 option" where
  "direct_chunk bm virtual_base = (if single_bank bm then Some (bank_offset (countr_zero bm) virtual_base) else None)"

definition empty_view :: renderer_view where
  "empty_view = \<lparr>rv_bg = (\<lambda>_. None), rv_obj = (\<lambda>_. None)\<rparr>"

text \<open>The four loops over \<open>chunk\<close>.\<close>

definition chunks :: "nat \<Rightarrow> (nat \<Rightarrow> u16) \<Rightarrow> nat \<Rightarrow> u32 option" where
  "chunks n masks chunk = (if chunk < n then direct_chunk (masks chunk) (push_bit 14 (word_of_nat chunk)) else None)"

definition refresh_renderer_views :: "'a vram_scheme \<Rightarrow> 'a vram_scheme" where
  "refresh_renderer_views s = s\<lparr>g_renderer_view := (g_renderer_view s)(
     0 := \<lparr>rv_bg = chunks 32 (g_abg s), rv_obj = chunks 16 (g_aobj s)\<rparr>,
     1 := \<lparr>rv_bg = chunks 8 (g_bbg s), rv_obj = chunks 8 (g_bobj s)\<rparr>)\<rparr>"

definition bitset :: "bool \<Rightarrow> u16 \<Rightarrow> u16 \<Rightarrow> u16" where
  "bitset add b x = (if add then x OR b else x AND NOT b)"

definition range_map :: "nat \<Rightarrow> nat \<Rightarrow> nat \<Rightarrow> u16 \<Rightarrow> bool \<Rightarrow> (nat \<Rightarrow> u16) \<Rightarrow> nat \<Rightarrow> u16" where
  "range_map N base count b add m =
    fold (\<lambda>i m. if base + i < N then m(base + i := bitset add b (m (base + i))) else m) [0..<count] m"

definition bank_bit :: "nat \<Rightarrow> u16" where "bank_bit bank = push_bit bank 1"

definition lcdc_set :: "nat \<Rightarrow> bool \<Rightarrow> 'a vram_maps_scheme \<Rightarrow> 'a vram_maps_scheme" where
  "lcdc_set bank add s = s\<lparr>g_lcdc := bitset add (bank_bit bank) (g_lcdc s)\<rparr>"

definition map_ab :: "nat \<Rightarrow> u8 \<Rightarrow> bool \<Rightarrow> 'a vram_maps_scheme \<Rightarrow> 'a vram_maps_scheme" where
  "map_ab bank cnt add s =
    (let b = bank_bit bank; ofs = unat (drop_bit 3 cnt AND 3) in
     if cnt AND 0x80 = 0 then s
     else if cnt AND 3 = 0 then lcdc_set bank add s
     else if cnt AND 3 = 1 then s\<lparr>g_abg := range_map 32 (8 * ofs) 8 b add (g_abg s)\<rparr>
     else if cnt AND 3 = 2 then s\<lparr>g_aobj := range_map 16 (8 * (ofs mod 2)) 8 b add (g_aobj s)\<rparr>
     else s\<lparr>g_texture := (g_texture s)(ofs := bitset add b (g_texture s ofs))\<rparr>)"

definition map_cd :: "nat \<Rightarrow> u8 \<Rightarrow> bool \<Rightarrow> 'a vram_maps_scheme \<Rightarrow> 'a vram_maps_scheme" where
  "map_cd bank cnt add s =
    (let b = bank_bit bank; ofs = unat (drop_bit 3 cnt AND 7) in
     if cnt AND 0x80 = 0 then s
     else if cnt AND 7 = 0 then lcdc_set bank add s
     else if cnt AND 7 = 1 then s\<lparr>g_abg := range_map 32 (8 * ofs) 8 b add (g_abg s)\<rparr>
     else if cnt AND 7 = 2 then s\<lparr>g_arm7 := (g_arm7 s)(ofs mod 2 := bitset add b (g_arm7 s (ofs mod 2)))\<rparr>
     else if cnt AND 7 = 3 then s\<lparr>g_texture := (g_texture s)(ofs mod 4 := bitset add b (g_texture s (ofs mod 4)))\<rparr>
     else if cnt AND 7 = 4 then
       (if bank = 2 then s\<lparr>g_bbg := range_map 8 0 8 b add (g_bbg s)\<rparr>
        else s\<lparr>g_bobj := range_map 8 0 8 b add (g_bobj s)\<rparr>)
     else s)"

definition map_e :: "nat \<Rightarrow> u8 \<Rightarrow> bool \<Rightarrow> 'a vram_maps_scheme \<Rightarrow> 'a vram_maps_scheme" where
  "map_e bank cnt add s =
    (let b = bank_bit bank in
     if cnt AND 0x80 = 0 then s
     else if cnt AND 7 = 0 then lcdc_set bank add s
     else if cnt AND 7 = 1 then s\<lparr>g_abg := range_map 32 0 4 b add (g_abg s)\<rparr>
     else if cnt AND 7 = 2 then s\<lparr>g_aobj := range_map 16 0 4 b add (g_aobj s)\<rparr>
     else if cnt AND 7 = 3 then s\<lparr>g_texpal := range_map 8 0 4 b add (g_texpal s)\<rparr>
     else if cnt AND 7 = 4 then s\<lparr>g_abg_ext := range_map 4 0 4 b add (g_abg_ext s)\<rparr>
     else s)"

definition bitset_at :: "bool \<Rightarrow> u16 \<Rightarrow> nat list \<Rightarrow> (nat \<Rightarrow> u16) \<Rightarrow> nat \<Rightarrow> u16" where
  "bitset_at add b js m = fold (\<lambda>j m. m(j := bitset add b (m j))) js m"

definition map_fg :: "nat \<Rightarrow> u8 \<Rightarrow> bool \<Rightarrow> 'a vram_maps_scheme \<Rightarrow> 'a vram_maps_scheme" where
  "map_fg bank cnt add s =
    (let b = bank_bit bank; ofs = drop_bit 3 cnt AND 7; base = unat ((ofs AND 1) + push_bit 1 (ofs AND 2)) in
     if cnt AND 0x80 = 0 then s
     else if cnt AND 7 = 0 then lcdc_set bank add s
     else if cnt AND 7 = 1 then s\<lparr>g_abg := bitset_at add b [base, base + 2] (g_abg s)\<rparr>
     else if cnt AND 7 = 2 then s\<lparr>g_aobj := bitset_at add b [base, base + 2] (g_aobj s)\<rparr>
     else if cnt AND 7 = 3 then s\<lparr>g_texpal := bitset_at add b [base] (g_texpal s)\<rparr>
     else if cnt AND 7 = 4 then
       (let j = unat (push_bit 1 (ofs AND 1)) in s\<lparr>g_abg_ext := bitset_at add b [j, j + 1] (g_abg_ext s)\<rparr>)
     else if cnt AND 7 = 5 then s\<lparr>g_aobj_ext := bitset add b (g_aobj_ext s)\<rparr>
     else s)"

definition map_h :: "nat \<Rightarrow> u8 \<Rightarrow> bool \<Rightarrow> 'a vram_maps_scheme \<Rightarrow> 'a vram_maps_scheme" where
  "map_h bank cnt add s =
    (let b = bank_bit bank in
     if cnt AND 0x80 = 0 then s
     else if cnt AND 3 = 0 then lcdc_set bank add s
     else if cnt AND 3 = 1 then s\<lparr>g_bbg := bitset_at add b [0, 1, 4, 5] (g_bbg s)\<rparr>
     else if cnt AND 3 = 2 then s\<lparr>g_bbg_ext := range_map 4 0 4 b add (g_bbg_ext s)\<rparr>
     else s)"

definition map_i :: "nat \<Rightarrow> u8 \<Rightarrow> bool \<Rightarrow> 'a vram_maps_scheme \<Rightarrow> 'a vram_maps_scheme" where
  "map_i bank cnt add s =
    (let b = bank_bit bank in
     if cnt AND 0x80 = 0 then s
     else if cnt AND 3 = 0 then lcdc_set bank add s
     else if cnt AND 3 = 1 then s\<lparr>g_bbg := bitset_at add b [2, 3, 6, 7] (g_bbg s)\<rparr>
     else if cnt AND 3 = 2 then s\<lparr>g_bobj := range_map 8 0 8 b add (g_bobj s)\<rparr>
     else s\<lparr>g_bobj_ext := bitset add b (g_bobj_ext s)\<rparr>)"

definition sanitize :: "nat \<Rightarrow> u8 \<Rightarrow> u8" where
  "sanitize bank cnt =
    (if bank < 2 then cnt AND 0x9B else if bank < 4 then cnt AND 0x9F else if bank = 4 then cnt AND 0x87
     else if bank < 7 then cnt AND 0x9F else cnt AND 0x83)"

definition apply_map :: "nat \<Rightarrow> u8 \<Rightarrow> bool \<Rightarrow> 'a vram_maps_scheme \<Rightarrow> 'a vram_maps_scheme" where
  "apply_map bank cnt add s =
    (if bank < 2 then map_ab bank cnt add s else if bank < 4 then map_cd bank cnt add s
     else if bank = 4 then map_e bank cnt add s else if bank < 7 then map_fg bank cnt add s
     else if bank = 7 then map_h bank cnt add s else map_i bank cnt add s)"

section \<open>Bytes\<close>

text \<open>\<open>memcpy\<close> between an integer of \<open>width\<close> bytes and memory, on a little-endian host.\<close>

definition load :: "(nat \<Rightarrow> u8) \<Rightarrow> nat \<Rightarrow> nat \<Rightarrow> u32" where
  "load f p width = fold (\<lambda>i v. v OR push_bit (8 * i) (ucast (f (p + i)))) [0..<width] 0"

definition store :: "(nat \<Rightarrow> u8) \<Rightarrow> nat \<Rightarrow> u32 \<Rightarrow> nat \<Rightarrow> nat \<Rightarrow> u8" where
  "store f p v width = fold (\<lambda>i f. f(p + i := ucast (drop_bit (8 * i) v))) [0..<width] f"

definition fill_bytes :: "(nat \<Rightarrow> 'b) \<Rightarrow> nat \<Rightarrow> nat \<Rightarrow> 'b \<Rightarrow> nat \<Rightarrow> 'b" where
  "fill_bytes f p q v i = (if p \<le> i \<and> i < q then v else f i)"

definition copy_bytes :: "(nat \<Rightarrow> u8) \<Rightarrow> nat \<Rightarrow> (nat \<Rightarrow> u8) \<Rightarrow> nat \<Rightarrow> nat \<Rightarrow> nat \<Rightarrow> u8" where
  "copy_bytes dst d src p n i = (if d \<le> i \<and> i < d + n then src (p + (i - d)) else dst i)"

section \<open>Bank accesses\<close>

definition bank_read :: "nat \<Rightarrow> u32 \<Rightarrow> nat \<Rightarrow> 'a vram_scheme \<Rightarrow> u32" where
  "bank_read bank addr width s = (if bank \<ge> 9 then 0 else load (g_vram s) (unat (bank_offset bank addr)) width)"

text \<open>\<open>if (++g == 0u) g = 1u\<close> for every page an access touches.\<close>

definition next_generation :: "u32 \<Rightarrow> u32" where
  "next_generation g = (if g + 1 = 0 then 1 else g + 1)"

definition bump_pages :: "(nat \<Rightarrow> u32) \<Rightarrow> nat \<Rightarrow> nat \<Rightarrow> nat \<Rightarrow> u32" where
  "bump_pages gen first final = fold (\<lambda>page gen. gen(page := next_generation (gen page))) [first..<final + 1] gen"

definition bank_write :: "nat \<Rightarrow> u32 \<Rightarrow> u32 \<Rightarrow> nat \<Rightarrow> 'a vram_scheme \<Rightarrow> 'a vram_scheme" where
  "bank_write bank addr v width s =
    (if bank \<ge> 9 then s
     else let physical = unat (bank_offset bank addr);
              stop = min (unat kTotalVram) (physical + width)
       in s\<lparr>g_vram := store (g_vram s) physical v width,
            g_vram_written := fill_bytes (g_vram_written s) physical stop True,
            g_vram_generation := bump_pages (g_vram_generation s) (physical div 2 ^ kExecPageShift)
              ((stop - 1) div 2 ^ kExecPageShift)\<rparr>)"

definition mapped_read_all :: "u16 \<Rightarrow> u32 \<Rightarrow> nat \<Rightarrow> 'a vram_scheme \<Rightarrow> u32" where
  "mapped_read_all bm addr width s = fold (\<lambda>bank v. if bit bm bank then v OR bank_read bank addr width s else v) [0..<9] 0"

definition mapped_read :: "u16 \<Rightarrow> u32 \<Rightarrow> nat \<Rightarrow> 'a vram_scheme \<Rightarrow> u32" where
  "mapped_read bm addr width s =
    (if single_bank bm then bank_read (countr_zero bm) addr width s else mapped_read_all bm addr width s)"

definition mapped_write :: "u16 \<Rightarrow> u32 \<Rightarrow> u32 \<Rightarrow> nat \<Rightarrow> 'a vram_scheme \<Rightarrow> 'a vram_scheme" where
  "mapped_write bm addr v width s = fold (\<lambda>bank s. if bit bm bank then bank_write bank addr v width s else s) [0..<9] s"

definition lcdc_bank :: "u32 \<Rightarrow> (nat \<times> u32) option" where
  "lcdc_bank addr =
    (if addr \<ge> 0x06800000 \<and> addr < 0x06880000 then Some (unat (drop_bit 17 (addr - 0x06800000)), addr AND 0x1FFFF)
     else if addr \<ge> 0x06880000 \<and> addr < 0x06890000 then Some (4, addr AND 0xFFFF)
     else if addr \<ge> 0x06890000 \<and> addr < 0x06894000 then Some (5, addr AND 0x3FFF)
     else if addr \<ge> 0x06894000 \<and> addr < 0x06898000 then Some (6, addr AND 0x3FFF)
     else if addr \<ge> 0x06898000 \<and> addr < 0x068A0000 then Some (7, addr AND 0x7FFF)
     else if addr \<ge> 0x068A0000 \<and> addr < 0x068A4000 then Some (8, addr AND 0x3FFF)
     else None)"

definition physical_from_single_mask :: "u16 \<Rightarrow> u32 \<Rightarrow> u32 option" where
  "physical_from_single_mask bm addr =
    (if \<not> single_bank bm \<or> countr_zero bm \<ge> 9 then None
     else let physical = bank_offset (countr_zero bm) addr in if physical < kTotalVram then Some physical else None)"

definition slot14 :: "u32 \<Rightarrow> u32 \<Rightarrow> nat" where
  "slot14 addr m = unat (drop_bit 14 addr AND m)"

definition arm9_vram_read :: "u32 \<Rightarrow> nat \<Rightarrow> 'a vram_scheme \<Rightarrow> u32" where
  "arm9_vram_read addr width s =
    (if addr AND 0x00E00000 = 0x00000000 then mapped_read (g_abg s (slot14 addr 31)) addr width s
     else if addr AND 0x00E00000 = 0x00200000 then mapped_read (g_bbg s (slot14 addr 7)) addr width s
     else if addr AND 0x00E00000 = 0x00400000 then mapped_read (g_aobj s (slot14 addr 15)) addr width s
     else if addr AND 0x00E00000 = 0x00600000 then mapped_read (g_bobj s (slot14 addr 7)) addr width s
     else case lcdc_bank addr of None \<Rightarrow> 0
       | Some (bank, offset) \<Rightarrow> if bit (g_lcdc s) bank then bank_read bank offset width s else 0)"

definition arm9_vram_write :: "u32 \<Rightarrow> u32 \<Rightarrow> nat \<Rightarrow> 'a vram_scheme \<Rightarrow> 'a vram_scheme" where
  "arm9_vram_write addr v width s =
    (if addr AND 0x00E00000 = 0x00000000 then mapped_write (g_abg s (slot14 addr 31)) addr v width s
     else if addr AND 0x00E00000 = 0x00200000 then mapped_write (g_bbg s (slot14 addr 7)) addr v width s
     else if addr AND 0x00E00000 = 0x00400000 then mapped_write (g_aobj s (slot14 addr 15)) addr v width s
     else if addr AND 0x00E00000 = 0x00600000 then mapped_write (g_bobj s (slot14 addr 7)) addr v width s
     else case lcdc_bank addr of None \<Rightarrow> s
       | Some (bank, offset) \<Rightarrow> if bit (g_lcdc s) bank then bank_write bank offset v width s else s)"

section \<open>The renderer's fences\<close>

text \<open>
  \<open>gpu2d.h\<close>: whether scanline jobs are outstanding, whether captures are staged, and the drain that
  finishes both.
\<close>

datatype fence_cause = Fence_vram | Fence_vramcnt | Fence_palette | Fence_oam | Fence_frame | Fence_capture

record 's gpu2d =
  jobs_outstanding :: "'s \<Rightarrow> bool"
  staged_captures :: "'s \<Rightarrow> bool"
  drain :: "fence_cause \<Rightarrow> 's \<Rightarrow> 's"

definition nds_gpu2d_memory_fence :: "'s gpu2d \<Rightarrow> fence_cause \<Rightarrow> 's \<Rightarrow> 's" where
  "nds_gpu2d_memory_fence G cause s = (if jobs_outstanding G s then drain G cause s else s)"

definition nds_gpu2d_read_fence :: "'s gpu2d \<Rightarrow> 's \<Rightarrow> 's" where
  "nds_gpu2d_read_fence G s = (if staged_captures G s then drain G Fence_capture s else s)"

section \<open>Guest accesses\<close>

definition engine_on :: "u32 \<Rightarrow> 'a vram_scheme \<Rightarrow> bool" where
  "engine_on addr s \<longleftrightarrow> powercontrol9 s AND (if addr AND 0x400 \<noteq> 0 then 0x0200 else 0x0002) \<noteq> 0"

definition video_read_at :: "nds_cpu \<Rightarrow> u32 \<Rightarrow> nat \<Rightarrow> 'a vram_scheme \<Rightarrow> u32" where
  "video_read_at cpu addr width s =
    (if cpu = ARM7 then
       if addr AND 0xFF000000 \<noteq> 0x06000000 then 0
       else mapped_read (g_arm7 s (unat (drop_bit 17 addr AND 1))) addr width s
     else if addr AND 0xFF000000 = 0x05000000 then
       if engine_on addr s then load (g_palette s) (unat (addr AND 0x7FF)) width else 0
     else if addr AND 0xFF000000 = 0x06000000 then arm9_vram_read addr width s
     else if addr AND 0xFF000000 = 0x07000000 then
       if engine_on addr s then load (g_oam s) (unat (addr AND 0x7FF)) width else 0
     else 0)"

definition nds_video_read :: "'a vram_scheme gpu2d \<Rightarrow> nds_cpu \<Rightarrow> u32 \<Rightarrow> nat \<Rightarrow> 'a vram_scheme \<Rightarrow> u32 \<times> 'a vram_scheme" where
  "nds_video_read G cpu addr width s =
    (let s = nds_gpu2d_read_fence G s; addr = addr AND NOT (word_of_nat width - 1)
     in (video_read_at cpu addr width s, s))"

definition video_write_at :: "nds_cpu \<Rightarrow> u32 \<Rightarrow> u32 \<Rightarrow> nat \<Rightarrow> 'a vram_scheme \<Rightarrow> 'a vram_scheme" where
  "video_write_at cpu addr v width s =
    (if cpu = ARM7 then
       if addr AND 0xFF000000 = 0x06000000
       then mapped_write (g_arm7 s (unat (drop_bit 17 addr AND 1))) addr v width s else s
     else if width = 1 then s
     else if addr AND 0xFF000000 = 0x05000000 then
       if engine_on addr s then s\<lparr>g_palette := store (g_palette s) (unat (addr AND 0x7FF)) v width\<rparr> else s
     else if addr AND 0xFF000000 = 0x06000000 then arm9_vram_write addr v width s
     else if addr AND 0xFF000000 = 0x07000000 then
       if engine_on addr s then s\<lparr>g_oam := store (g_oam s) (unat (addr AND 0x7FF)) v width\<rparr> else s
     else s)"

definition nds_video_write :: "'a vram_scheme gpu2d \<Rightarrow> nds_cpu \<Rightarrow> u32 \<Rightarrow> u32 \<Rightarrow> nat \<Rightarrow> 'a vram_scheme \<Rightarrow> 'a vram_scheme" where
  "nds_video_write G cpu addr v width s =
    (let addr = addr AND NOT (word_of_nat width - 1);
         region = addr AND 0xFF000000;
         s = (if jobs_outstanding G s
              then drain G (if region = 0x05000000 then Fence_palette else if region = 0x07000000 then Fence_oam
                            else Fence_vram) s else s)
     in video_write_at cpu addr v width s)"

definition nds_video_address :: "u32 \<Rightarrow> bool" where
  "nds_video_address addr \<longleftrightarrow> addr \<ge> 0x05000000 \<and> addr < 0x08000000"

section \<open>Control registers\<close>

definition nds_vram_reset :: "'a vram_scheme \<Rightarrow> 'a vram_scheme" where
  "nds_vram_reset s = refresh_renderer_views (s\<lparr>g_vram := \<lambda>_. 0, g_vram_written := \<lambda>_. False, g_vram_generation := \<lambda>_. 0,
     g_palette := \<lambda>_. 0, g_oam := \<lambda>_. 0, g_cnt := \<lambda>_. 0, g_lcdc := 0, g_abg := \<lambda>_. 0, g_aobj := \<lambda>_. 0, g_bbg := \<lambda>_. 0,
     g_bobj := \<lambda>_. 0, g_abg_ext := \<lambda>_. 0, g_aobj_ext := 0, g_bbg_ext := \<lambda>_. 0, g_bobj_ext := 0, g_texture := \<lambda>_. 0,
     g_texpal := \<lambda>_. 0, g_arm7 := \<lambda>_. 0, g_texture_generation := g_texture_generation s + 1\<rparr>)"

definition nds_vram_map :: "'a vram_scheme gpu2d \<Rightarrow> nat \<Rightarrow> u8 \<Rightarrow> 'a vram_scheme \<Rightarrow> 'a vram_scheme" where
  "nds_vram_map G bank v s =
    (if bank \<ge> 9 then s
     else let next = sanitize bank v in
       if next = g_cnt s bank then s
       else let s = nds_gpu2d_memory_fence G Fence_vramcnt s;
                s = apply_map bank (g_cnt s bank) False s;
                s = s\<lparr>g_cnt := (g_cnt s)(bank := next)\<rparr>;
                s = apply_map bank next True s
            in refresh_renderer_views (s\<lparr>g_texture_generation := g_texture_generation s + 1\<rparr>))"

definition nds_vramcnt :: "nat \<Rightarrow> 'a vram_scheme \<Rightarrow> u8" where
  "nds_vramcnt bank s = (if bank < 9 then g_cnt s bank else 0)"

definition nds_vramstat :: "'a vram_scheme \<Rightarrow> u8" where
  "nds_vramstat s =
    ((if g_cnt s 2 AND 0x87 = 0x82 then 1 else 0) OR (if g_cnt s 3 AND 0x87 = 0x82 then 2 else 0))"

definition nds_vram_lcdc_mapped :: "nat \<Rightarrow> 'a vram_scheme \<Rightarrow> bool" where
  "nds_vram_lcdc_mapped bank s \<longleftrightarrow> bank < 9 \<and> bit (g_lcdc s) bank"

definition nds_vram_bank_data :: "nat \<Rightarrow> u32 option" where
  "nds_vram_bank_data bank = (if bank < 9 then Some (kBankOffset bank) else None)"

definition nds_vram_note_capture_write :: "'a vram_scheme \<Rightarrow> 'a vram_scheme" where
  "nds_vram_note_capture_write s = s\<lparr>g_texture_generation := g_texture_generation s + 1\<rparr>"

section \<open>Flattened texture copies\<close>

text \<open>
  One slot of \<open>copy_slot_space\<close>: cleared, copied from the one bank behind it, or combined word by word.
  The slot's base and the loop variable stay below \<open>2 ^ 32\<close>.
\<close>

definition copy_slot :: "'a vram_scheme \<Rightarrow> (nat \<Rightarrow> u16) \<Rightarrow> nat \<Rightarrow> nat \<Rightarrow> (nat \<Rightarrow> u8) \<Rightarrow> nat \<Rightarrow> u8" where
  "copy_slot s masks slot_size k dst =
    (let base = k * slot_size; bm = masks k in
     if bm = 0 then fill_bytes dst base (base + slot_size) 0
     else case direct_chunk bm (word_of_nat base) of
       Some p \<Rightarrow> copy_bytes dst base (g_vram s) (unat p) slot_size
     | None \<Rightarrow> fold (\<lambda>w dst. store dst (base + 4 * w) (mapped_read bm (word_of_nat (base + 4 * w)) 4 s) 4)
         [0..<slot_size div 4] dst)"

definition copy_slot_space :: "'a vram_scheme \<Rightarrow> (nat \<Rightarrow> u16) \<Rightarrow> nat \<Rightarrow> nat \<Rightarrow> (nat \<Rightarrow> u8) \<Rightarrow> nat \<Rightarrow> u8" where
  "copy_slot_space s masks slots slot_size dst = fold (copy_slot s masks slot_size) [0..<slots] dst"

definition nds_vram_copy_texture :: "'a vram_scheme \<Rightarrow> (nat \<Rightarrow> u8) \<Rightarrow> nat \<Rightarrow> u8" where
  "nds_vram_copy_texture s dst = copy_slot_space s (g_texture s) 4 0x20000 dst"

definition nds_vram_copy_texpal :: "'a vram_scheme \<Rightarrow> (nat \<Rightarrow> u8) \<Rightarrow> nat \<Rightarrow> u8" where
  "nds_vram_copy_texpal s dst = copy_slot_space s (g_texpal s) 8 0x4000 dst"

text \<open>
  The caches of \<open>gpu3d.cpp\<close>: the generation a flat copy was taken at and its bytes.  The refresh
  compares and copies in blocks of \<open>VRAMDirtyGranularity\<close> (512) bytes and reports the blocks that
  differed.
\<close>

record flat_cache =
  flat_gen :: u64
  flat_bytes :: "nat \<Rightarrow> u8"

definition VRAMDirtyGranularity :: nat where "VRAMDirtyGranularity = 512"

definition blocks_differ :: "(nat \<Rightarrow> u8) \<Rightarrow> (nat \<Rightarrow> u8) \<Rightarrow> nat \<Rightarrow> bool" where
  "blocks_differ f g b \<longleftrightarrow> (\<exists>i\<in>set [VRAMDirtyGranularity * b..<VRAMDirtyGranularity * (b + 1)]. f i \<noteq> g i)"

definition refresh_flat :: "(nat \<Rightarrow> u8) \<Rightarrow> nat \<Rightarrow> (nat \<Rightarrow> u8) \<Rightarrow> (nat \<Rightarrow> u8) \<times> nat list" where
  "refresh_flat fresh n flat =
    fold (\<lambda>b (flat, dirty).
      if blocks_differ fresh flat b
      then (copy_bytes flat (VRAMDirtyGranularity * b) fresh (VRAMDirtyGranularity * b) VRAMDirtyGranularity, dirty @ [b])
      else (flat, dirty)) [0..<n div VRAMDirtyGranularity] (flat, [])"

text \<open>Result: whether anything changed, the blocks marked dirty, and the cache afterwards.\<close>

definition MakeVRAMFlat_TextureCoherent :: "'a vram_scheme \<Rightarrow> flat_cache \<Rightarrow> bool \<times> nat list \<times> flat_cache" where
  "MakeVRAMFlat_TextureCoherent s c =
    (if g_texture_generation s = flat_gen c then (False, [], c)
     else let (flat, dirty) = refresh_flat (nds_vram_copy_texture s (\<lambda>_. 0)) (512 * 1024) (flat_bytes c)
       in (dirty \<noteq> [], dirty, \<lparr>flat_gen = g_texture_generation s, flat_bytes = flat\<rparr>))"

definition MakeVRAMFlat_TexPalCoherent :: "'a vram_scheme \<Rightarrow> flat_cache \<Rightarrow> bool \<times> nat list \<times> flat_cache" where
  "MakeVRAMFlat_TexPalCoherent s c =
    (if g_texture_generation s = flat_gen c then (False, [], c)
     else let (flat, dirty) = refresh_flat (nds_vram_copy_texpal s (\<lambda>_. 0)) (128 * 1024) (flat_bytes c)
       in (dirty \<noteq> [], dirty, \<lparr>flat_gen = g_texture_generation s, flat_bytes = flat\<rparr>))"

text \<open>The display capture's write of one line (\<open>apply_staged_capture\<close> of \<open>gpu2d.cpp\<close>), in halfwords.\<close>

definition capture_pixel :: "nat \<Rightarrow> u16 \<Rightarrow> 'a vram_scheme \<times> u32 \<Rightarrow> 'a vram_scheme \<times> u32" where
  "capture_pixel dstbank px = (\<lambda>(s, a).
     (s\<lparr>g_vram := store (g_vram s) (unat (kBankOffset dstbank) + 2 * unat a) (ucast px) 2\<rparr>, (a + 1) AND 0xFFFF))"

definition apply_staged_capture :: "nat \<Rightarrow> u32 \<Rightarrow> u16 list \<Rightarrow> 'a vram_scheme \<Rightarrow> 'a vram_scheme" where
  "apply_staged_capture dstbank dstaddr pixels s =
    (if pixels = [] then s
     else nds_vram_note_capture_write (fst (fold (capture_pixel dstbank) pixels (s, dstaddr))))"

section \<open>Execute provenance\<close>

definition window_mask :: "nds_cpu \<Rightarrow> u32 \<Rightarrow> 'a vram_scheme \<Rightarrow> u16 option" where
  "window_mask cpu addr s =
    (if cpu = ARM7 then Some (g_arm7 s (unat (drop_bit 17 addr AND 1)))
     else if addr AND 0x00E00000 = 0x00000000 then Some (g_abg s (slot14 addr 31))
     else if addr AND 0x00E00000 = 0x00200000 then Some (g_bbg s (slot14 addr 7))
     else if addr AND 0x00E00000 = 0x00400000 then Some (g_aobj s (slot14 addr 15))
     else if addr AND 0x00E00000 = 0x00600000 then Some (g_bobj s (slot14 addr 7))
     else None)"

definition exec_physical_offset :: "nds_cpu \<Rightarrow> u32 \<Rightarrow> 'a vram_scheme \<Rightarrow> u32 option" where
  "exec_physical_offset cpu addr s =
    (if addr AND 0xFF000000 \<noteq> 0x06000000 then None
     else case window_mask cpu addr s of
       Some bm \<Rightarrow> physical_from_single_mask bm addr
     | None \<Rightarrow> (case lcdc_bank addr of None \<Rightarrow> None
         | Some (bank, offset) \<Rightarrow>
             if \<not> bit (g_lcdc s) bank then None
             else if kBankOffset bank + offset < kTotalVram then Some (kBankOffset bank + offset) else None))"

definition nds_vram_exec_writable :: "nds_cpu \<Rightarrow> u32 \<Rightarrow> 'a vram_scheme \<Rightarrow> bool" where
  "nds_vram_exec_writable cpu addr s \<longleftrightarrow> exec_physical_offset cpu addr s \<noteq> None"

definition nds_vram_range_has_write_provenance :: "nds_cpu \<Rightarrow> u32 \<Rightarrow> nat \<Rightarrow> 'a vram_scheme \<Rightarrow> bool" where
  "nds_vram_range_has_write_provenance cpu addr n s \<longleftrightarrow> n \<noteq> 0 \<and>
    (\<forall>i\<in>set [0..<n]. case exec_physical_offset cpu (addr + word_of_nat i) s of None \<Rightarrow> False
       | Some p \<Rightarrow> g_vram_written s (unat p))"

definition nds_vram_exec_page_generation :: "nds_cpu \<Rightarrow> u32 \<Rightarrow> 'a vram_scheme \<Rightarrow> u32" where
  "nds_vram_exec_page_generation cpu addr s =
    (case exec_physical_offset cpu addr s of None \<Rightarrow> 0
     | Some p \<Rightarrow> g_vram_generation s (unat p div 2 ^ kExecPageShift))"

definition nds_vram_live_bytes_equal :: "nds_cpu \<Rightarrow> u32 \<Rightarrow> u8 list \<Rightarrow> 'a vram_scheme \<Rightarrow> bool" where
  "nds_vram_live_bytes_equal cpu addr expected s \<longleftrightarrow> expected \<noteq> [] \<and>
    (\<forall>i\<in>set [0..<length expected]. case exec_physical_offset cpu (addr + word_of_nat i) s of None \<Rightarrow> False
       | Some p \<Rightarrow> g_vram s (unat p) = expected ! i)"

section \<open>Renderer accesses\<close>

definition nds_vram_read_bg :: "bool \<Rightarrow> u32 \<Rightarrow> nat \<Rightarrow> 'a vram_scheme \<Rightarrow> u32" where
  "nds_vram_read_bg engine addr width s =
    (if engine then mapped_read (g_bbg s (slot14 addr 7)) addr width s else mapped_read (g_abg s (slot14 addr 31)) addr width s)"

definition nds_vram_read_obj :: "bool \<Rightarrow> u32 \<Rightarrow> nat \<Rightarrow> 'a vram_scheme \<Rightarrow> u32" where
  "nds_vram_read_obj engine addr width s =
    (if engine then mapped_read (g_bobj s (slot14 addr 7)) addr width s else mapped_read (g_aobj s (slot14 addr 15)) addr width s)"

definition nds_vram_read_bg_extpal :: "bool \<Rightarrow> u32 \<Rightarrow> nat \<Rightarrow> 'a vram_scheme \<Rightarrow> u32" where
  "nds_vram_read_bg_extpal engine addr width s =
    (let k = unat (drop_bit 13 addr AND 3) in
     if engine then mapped_read (g_bbg_ext s k) addr width s else mapped_read (g_abg_ext s k) addr width s)"

definition nds_vram_read_obj_extpal :: "bool \<Rightarrow> u32 \<Rightarrow> nat \<Rightarrow> 'a vram_scheme \<Rightarrow> u32" where
  "nds_vram_read_obj_extpal engine addr width s = mapped_read (if engine then g_bobj_ext s else g_aobj_ext s) addr width s"

definition nds_vram_renderer_palette :: "nat \<Rightarrow> 'a vram_scheme \<Rightarrow> u32 option" where
  "nds_vram_renderer_palette engine s =
    (let engine = engine mod 2 in
     if powercontrol9 s AND (if engine = 1 then 0x0200 else 0x0002) \<noteq> 0 then Some (word_of_nat engine * 0x400) else None)"

definition nds_vram_renderer_oam :: "nat \<Rightarrow> 'a vram_scheme \<Rightarrow> u32 option" where
  "nds_vram_renderer_oam engine s =
    (let engine = engine mod 2 in
     if powercontrol9 s AND (if engine = 1 then 0x0200 else 0x0002) \<noteq> 0 then Some (word_of_nat engine * 0x400) else None)"

definition nds_vram_renderer_view :: "nat \<Rightarrow> 'a vram_scheme \<Rightarrow> renderer_view" where
  "nds_vram_renderer_view engine s = g_renderer_view s (engine mod 2)"

section \<open>Savestate\<close>

record vram_save =
  vs_vram :: "u8 list"
  vs_written :: "u8 list"
  vs_exec_generation :: "u32 list"
  vs_palette :: "u8 list"
  vs_oam :: "u8 list"
  vs_vramcnt :: "nat \<Rightarrow> u8"
  vs_texture_generation :: u64

definition kExecPageCount :: nat where
  "kExecPageCount = (unat kTotalVram + 2 ^ kExecPageShift - 1) div 2 ^ kExecPageShift"

definition vram_savestate_export :: "'a vram_scheme gpu2d \<Rightarrow> 'a vram_scheme \<Rightarrow> vram_save \<times> 'a vram_scheme" where
  "vram_savestate_export G s =
    (let s = nds_gpu2d_read_fence G s in
     (\<lparr>vs_vram = map (g_vram s) [0..<unat kTotalVram],
       vs_written = map (\<lambda>i. if g_vram_written s i then 1 else 0) [0..<unat kTotalVram],
       vs_exec_generation = map (g_vram_generation s) [0..<kExecPageCount],
       vs_palette = map (g_palette s) [0..<0x800], vs_oam = map (g_oam s) [0..<0x800],
       vs_vramcnt = g_cnt s, vs_texture_generation = g_texture_generation s\<rparr>, s))"

definition vram_savestate_validate :: "vram_save \<Rightarrow> string + unit" where
  "vram_savestate_validate i =
    (if length (vs_vram i) \<noteq> unat kTotalVram \<or> length (vs_written i) \<noteq> unat kTotalVram \<or>
        length (vs_exec_generation i) \<noteq> kExecPageCount \<or> length (vs_palette i) \<noteq> 0x800 \<or> length (vs_oam i) \<noteq> 0x800
     then Inl ''savestate VRAM backing size mismatch''
     else if vs_texture_generation i = 0 then Inl ''savestate VRAM texture generation is invalid''
     else if \<exists>v\<in>set (vs_written i). v > 1 then Inl ''savestate VRAM provenance is invalid''
     else if \<exists>bank\<in>set [0..<9]. sanitize bank (vs_vramcnt i bank) \<noteq> vs_vramcnt i bank
       then Inl ''savestate VRAMCNT value is invalid''
     else Inr ())"

text \<open>\<open>std::copy\<close> from a vector onto an array.\<close>

definition copy_onto :: "'c list \<Rightarrow> (nat \<Rightarrow> 'b) \<Rightarrow> ('c \<Rightarrow> 'b) \<Rightarrow> nat \<Rightarrow> 'b" where
  "copy_onto xs f g i = (if i < length xs then g (xs ! i) else f i)"

definition vram_savestate_import :: "'a vram_scheme gpu2d \<Rightarrow> vram_save \<Rightarrow> 'a vram_scheme \<Rightarrow> (string + unit) \<times> 'a vram_scheme" where
  "vram_savestate_import G i s =
    (case vram_savestate_validate i of Inl e \<Rightarrow> (Inl e, s)
     | Inr _ \<Rightarrow>
       let s = drain G Fence_frame s;
           s = s\<lparr>g_vram := copy_onto (vs_vram i) (g_vram s) id,
             g_vram_written := copy_onto (vs_written i) (g_vram_written s) (\<lambda>v. v \<noteq> 0),
             g_vram_generation := copy_onto (vs_exec_generation i) (g_vram_generation s) id,
             g_palette := copy_onto (vs_palette i) (g_palette s) id, g_oam := copy_onto (vs_oam i) (g_oam s) id,
             g_cnt := \<lambda>_. 0, g_lcdc := 0, g_abg := \<lambda>_. 0, g_aobj := \<lambda>_. 0, g_bbg := \<lambda>_. 0, g_bobj := \<lambda>_. 0,
             g_abg_ext := \<lambda>_. 0, g_aobj_ext := 0, g_bbg_ext := \<lambda>_. 0, g_bobj_ext := 0, g_texture := \<lambda>_. 0,
             g_texpal := \<lambda>_. 0, g_arm7 := \<lambda>_. 0\<rparr>;
           s = fold (\<lambda>bank s. apply_map bank (vs_vramcnt i bank) True
                 (s\<lparr>g_cnt := (g_cnt s)(bank := vs_vramcnt i bank)\<rparr>)) [0..<9] s
       in (Inr (), refresh_renderer_views (s\<lparr>g_texture_generation := vs_texture_generation i\<rparr>)))"

definition nds_video_get_region :: "'a vram_scheme gpu2d \<Rightarrow> string \<Rightarrow> 'a vram_scheme \<Rightarrow> ((nat \<Rightarrow> u8) \<times> u32 \<times> u32) option \<times> 'a vram_scheme" where
  "nds_video_get_region G name s =
    (let s = nds_gpu2d_read_fence G s in
     (case filter (\<lambda>i. name = ''vram'' @ [''ABCDEFGHI'' ! i]) [0..<9] of
        i # _ \<Rightarrow> Some (g_vram s, kBankOffset i, kBankSize i)
      | [] \<Rightarrow> if name = ''palA'' then Some (g_palette s, 0, 0x400)
              else if name = ''palB'' then Some (g_palette s, 0x400, 0x400)
              else if name = ''oam'' then Some (g_oam s, 0, 0x800) else None, s))"

section \<open>One bank or several\<close>

lemma countr_zero_spec:
  assumes "bm \<noteq> 0"
  shows "bit bm (countr_zero bm)" and "j < countr_zero bm \<Longrightarrow> \<not> bit bm j" and "countr_zero bm < 16"
proof -
  let ?P = "\<lambda>i. \<not> bit bm i"
  obtain k where k: "bit bm k" using assms by (metis bit_eq_iff bit_0_eq bot_apply bot_bool_def)
  then have k16: "k < 16" using bit_imp_le_length [OF k] by simp
  have cz: "countr_zero bm \<le> k"
    unfolding countr_zero_def by (metis (no_types, lifting) k k16 add.commute add_0 diff_zero length_upt leI
      length_takeWhile_le less_le_trans less_numeral_extra(3) nth_upt set_takeWhileD nth_mem nth_map takeWhile_nth
      numeral_less_iff semiring_norm(76,78) trans_less_add1 linorder_le_less_linear)
  show lt: "countr_zero bm < 16" using cz k16 by simp
  have "\<not> ?P ([0..<32] ! length (takeWhile ?P [0..<32]))"
    by (rule nth_length_takeWhile) (use lt in \<open>simp add: countr_zero_def\<close>)
  then show "bit bm (countr_zero bm)" using lt by (simp add: countr_zero_def [symmetric])
  show "\<not> bit bm j" if "j < countr_zero bm"
    using that lt set_takeWhileD [of j ?P "[0..<32]"] nth_mem [of j "takeWhile ?P [0..<32]"] takeWhile_nth [of j ?P "[0..<32]"]
    by (simp add: countr_zero_def)
qed

lemma clear_lowest:
  fixes x :: u16
  assumes n: "bit x n" and low: "\<And>j. j < n \<Longrightarrow> \<not> bit x j" and j: "n < j"
  shows "bit (x - 1) j \<longleftrightarrow> bit x j"
proof -
  have n16: "n < 16" using bit_imp_le_length [OF n] by simp
  define k where "k = Suc n"
  define y where "y = push_bit k (drop_bit k x)"
  have "bit y i \<longleftrightarrow> k \<le> i \<and> bit x i" for i
    using bit_imp_le_length [of x i] by (auto simp: y_def bit_push_bit_iff bit_drop_bit_eq)
  then have yb: "bit y i \<longleftrightarrow> n < i \<and> bit x i" for i by (simp add: k_def Suc_le_eq)
  have "x = y OR 2 ^ n"
    proof (rule bit_eqI)
    fix i
    show "bit x i \<longleftrightarrow> bit (y OR 2 ^ n) i"
      using n low [of i] n16 by (cases "i < n"; cases "i = n") (auto simp: bit_or_iff yb bit_exp_iff)
  qed
  also have "\<dots> = y + 2 ^ n"
    by (rule disjunctive_add [symmetric]) (auto simp: yb bit_exp_iff)
  finally have "x - 1 = y + mask n" by (simp add: mask_eq_exp_minus_1)
  also have "\<dots> = y OR mask n" by (rule disjunctive_add) (auto simp: yb bit_mask_iff)
  finally show ?thesis using j by (simp add: bit_or_iff yb bit_mask_iff)
qed

lemma single_bank_bit:
  assumes "single_bank bm"
  shows "bit bm j \<longleftrightarrow> j = countr_zero bm"
proof -
  have nz: "bm \<noteq> 0" and z: "bm AND (bm - 1) = 0" using assms by (simp_all add: single_bank_def)
  note cz = countr_zero_spec [OF nz]
  consider "j < countr_zero bm" | "j = countr_zero bm" | "countr_zero bm < j" by linarith
  then show ?thesis
  proof cases
    case 3
    have "\<not> (bit bm j \<and> bit (bm - 1) j)" using z by (metis bit_and_iff bit_0_eq bot_apply bot_bool_def)
    then show ?thesis using clear_lowest [OF cz(1,2) 3] 3 by auto
  qed (use cz in auto)
qed

lemma mapped_read_eq: "mapped_read bm addr width s = mapped_read_all bm addr width s"
proof (cases "single_bank bm")
  case True
  define n where "n = countr_zero bm"
  have bits: "bit bm j \<longleftrightarrow> j = n" for j using single_bank_bit [OF True] by (simp add: n_def)
  have "n \<in> {0..8} \<or> n \<ge> 9" by auto
  then show ?thesis
    by (auto simp: mapped_read_def True mapped_read_all_def n_def [symmetric] upt_rec numeral_eq_Suc bits bank_read_def)
qed (simp add: mapped_read_def)


section \<open>Where a bank appears\<close>

text \<open>The slots of the twelve windows.\<close>

datatype slot = Lcdc | Abg nat | Aobj nat | Bbg nat | Bobj nat | Abg_ext nat | Aobj_ext | Bbg_ext nat | Bobj_ext
  | Texture nat | Texpal nat | Arm7_wram nat

fun banks_at :: "'a vram_maps_scheme \<Rightarrow> slot \<Rightarrow> u16" where
  "banks_at s Lcdc = g_lcdc s"
| "banks_at s (Abg j) = g_abg s j"
| "banks_at s (Aobj j) = g_aobj s j"
| "banks_at s (Bbg j) = g_bbg s j"
| "banks_at s (Bobj j) = g_bobj s j"
| "banks_at s (Abg_ext j) = g_abg_ext s j"
| "banks_at s Aobj_ext = g_aobj_ext s"
| "banks_at s (Bbg_ext j) = g_bbg_ext s j"
| "banks_at s Bobj_ext = g_bobj_ext s"
| "banks_at s (Texture j) = g_texture s j"
| "banks_at s (Texpal j) = g_texpal s j"
| "banks_at s (Arm7_wram j) = g_arm7 s j"

text \<open>
  The hardware's table: for a bank and its control register (bit 7 enables, bits 0 to 2 select the
  window, bits 3 to 5 the offset), the slots the bank answers in.
\<close>

definition targets :: "nat \<Rightarrow> u8 \<Rightarrow> slot list" where
  "targets bank cnt =
    (let m = unat cnt mod 8; o8 = unat cnt div 8 mod 8; o4 = o8 mod 4; b = o8 mod 2 + 4 * (o8 div 2 mod 2) in
     if unat cnt < 128 then []
     else if bank < 2 then
       [[Lcdc], map Abg [8 * o4..<8 * o4 + 8], map Aobj [8 * (o4 mod 2)..<8 * (o4 mod 2) + 8], [Texture o4]] ! (m mod 4)
     else if bank < 4 then
       [[Lcdc], map Abg (filter (\<lambda>j. j < 32) [8 * o8..<8 * o8 + 8]), [Arm7_wram (o8 mod 2)], [Texture o4],
        map (if bank = 2 then Bbg else Bobj) [0..<8], [], [], []] ! m
     else if bank = 4 then
       [[Lcdc], map Abg [0..<4], map Aobj [0..<4], map Texpal [0..<4], map Abg_ext [0..<4], [], [], []] ! m
     else if bank < 7 then
       [[Lcdc], [Abg b, Abg (b + 2)], [Aobj b, Aobj (b + 2)], [Texpal b],
        [Abg_ext (2 * (o8 mod 2)), Abg_ext (2 * (o8 mod 2) + 1)], [Aobj_ext], [], []] ! m
     else if bank = 7 then [[Lcdc], [Bbg 0, Bbg 1, Bbg 4, Bbg 5], map Bbg_ext [0..<4], []] ! (m mod 4)
     else [[Lcdc], [Bbg 2, Bbg 3, Bbg 6, Bbg 7], map Bobj [0..<8], [Bobj_ext]] ! (m mod 4))"

lemma range_map_apply:
  "range_map N base count b add m j = (if base \<le> j \<and> j < base + count \<and> j < N then bitset add b (m j) else m j)"
proof (induction count)
  case (Suc n)
  have "range_map N base (Suc n) b add m =
      (let m' = range_map N base n b add m in if base + n < N then m'(base + n := bitset add b (m' (base + n))) else m')"
    by (simp add: range_map_def Let_def)
  then show ?case using Suc by (auto simp: Let_def)
qed (auto simp: range_map_def)

lemma and_unat8:
  fixes x :: u8
  shows "unat (x AND 3) = unat x mod 4" and "unat (x AND 7) = unat x mod 8" and "unat (x AND 1) = unat x mod 2"
    and "x AND 0x80 = 0 \<longleftrightarrow> unat x < 128"
proof -
  have m: "unat (x AND mask k) = unat x mod 2 ^ k" for k
    by (simp only: take_bit_eq_mask [symmetric] unsigned_take_bit_eq) (simp add: take_bit_eq_mod)
  show "unat (x AND 3) = unat x mod 4" "unat (x AND 7) = unat x mod 8" "unat (x AND 1) = unat x mod 2"
    using m [of 2] m [of 3] m [of 1] by (simp_all add: mask_eq_exp_minus_1)
  have "bit x 7 \<longleftrightarrow> odd (unat x div 128)" 
  proof -
    have "bit x 7 \<longleftrightarrow> bit (unat x) 7" by (simp add: bit_unsigned_iff)
    then show ?thesis by (simp add: bit_iff_odd)
  qed
  also have "\<dots> \<longleftrightarrow> \<not> unat x < 128"
  proof -
    have "unat x < 2 ^ LENGTH(8)" by (rule unsigned_less)
    then have "unat x div 128 < 2" by (simp add: less_mult_imp_div_less)
    then have "unat x div 128 = 0 \<or> unat x div 128 = 1" by linarith
    then show ?thesis by (auto simp: div_eq_0_iff)
  qed
  finally have "bit x 7 \<longleftrightarrow> \<not> unat x < 128" .
  moreover have "x AND 0x80 = 0 \<longleftrightarrow> \<not> bit x 7" by (simp add: tsts)
  ultimately show "x AND 0x80 = 0 \<longleftrightarrow> unat x < 128" by simp
qed

lemma cnt_select:
  fixes cnt :: u8
  shows "k < 4 \<Longrightarrow> cnt AND 3 = word_of_nat k \<longleftrightarrow> unat cnt mod 4 = k"
    and "k < 8 \<Longrightarrow> cnt AND 7 = word_of_nat k \<longleftrightarrow> unat cnt mod 8 = k"
  by (simp_all add: word_unat_eq_iff and_unat8 unat_of_nat)


text \<open>The register's fields as numbers.\<close>

lemma cnt_fields:
  fixes cnt :: u8
  shows "unat (drop_bit 3 cnt AND 3) = unat cnt div 8 mod 8 mod 4" and "unat (drop_bit 3 cnt AND 7) = unat cnt div 8 mod 8"
    and "cnt AND 3 = 0 \<longleftrightarrow> unat cnt mod 8 mod 4 = 0" and "cnt AND 3 = 1 \<longleftrightarrow> unat cnt mod 8 mod 4 = 1"
    and "cnt AND 3 = 2 \<longleftrightarrow> unat cnt mod 8 mod 4 = 2"
    and "cnt AND 7 = 0 \<longleftrightarrow> unat cnt mod 8 = 0" and "cnt AND 7 = 1 \<longleftrightarrow> unat cnt mod 8 = 1" and "cnt AND 7 = 2 \<longleftrightarrow> unat cnt mod 8 = 2"
    and "cnt AND 7 = 3 \<longleftrightarrow> unat cnt mod 8 = 3" and "cnt AND 7 = 4 \<longleftrightarrow> unat cnt mod 8 = 4" and "cnt AND 7 = 5 \<longleftrightarrow> unat cnt mod 8 = 5"
  using cnt_select(1) [of 0 cnt] cnt_select(1) [of 1 cnt] cnt_select(1) [of 2 cnt] cnt_select(2) [of 0 cnt] cnt_select(2) [of 1 cnt]
    cnt_select(2) [of 2 cnt] cnt_select(2) [of 3 cnt] cnt_select(2) [of 4 cnt] cnt_select(2) [of 5 cnt]
  by (simp_all add: and_unat8 drop_bit_eq_div unat_div_distrib mod_mod_cancel)

lemma less8_cases: "(m :: nat) < 8 \<Longrightarrow> m = 0 \<or> m = 1 \<or> m = 2 \<or> m = 3 \<or> m = 4 \<or> m = 5 \<or> m = 6 \<or> m = 7"
  by linarith

lemma less4_cases: "(m :: nat) < 4 \<Longrightarrow> m = 0 \<or> m = 1 \<or> m = 2 \<or> m = 3"
  by linarith

lemma banks_at_update:
  shows "banks_at (s\<lparr>g_abg := f0\<rparr>) sl = (case sl of Abg j \<Rightarrow> f0 j | _ \<Rightarrow> banks_at s sl)"
    and "banks_at (s\<lparr>g_aobj := f1\<rparr>) sl = (case sl of Aobj j \<Rightarrow> f1 j | _ \<Rightarrow> banks_at s sl)"
    and "banks_at (s\<lparr>g_bbg := f2\<rparr>) sl = (case sl of Bbg j \<Rightarrow> f2 j | _ \<Rightarrow> banks_at s sl)"
    and "banks_at (s\<lparr>g_bobj := f3\<rparr>) sl = (case sl of Bobj j \<Rightarrow> f3 j | _ \<Rightarrow> banks_at s sl)"
    and "banks_at (s\<lparr>g_abg_ext := f4\<rparr>) sl = (case sl of Abg_ext j \<Rightarrow> f4 j | _ \<Rightarrow> banks_at s sl)"
    and "banks_at (s\<lparr>g_bbg_ext := f5\<rparr>) sl = (case sl of Bbg_ext j \<Rightarrow> f5 j | _ \<Rightarrow> banks_at s sl)"
    and "banks_at (s\<lparr>g_texture := f6\<rparr>) sl = (case sl of Texture j \<Rightarrow> f6 j | _ \<Rightarrow> banks_at s sl)"
    and "banks_at (s\<lparr>g_texpal := f7\<rparr>) sl = (case sl of Texpal j \<Rightarrow> f7 j | _ \<Rightarrow> banks_at s sl)"
    and "banks_at (s\<lparr>g_arm7 := f8\<rparr>) sl = (case sl of Arm7_wram j \<Rightarrow> f8 j | _ \<Rightarrow> banks_at s sl)"
    and "banks_at (s\<lparr>g_lcdc := f9\<rparr>) sl = (case sl of Lcdc \<Rightarrow> f9 | _ \<Rightarrow> banks_at s sl)"
    and "banks_at (s\<lparr>g_aobj_ext := f10\<rparr>) sl = (case sl of Aobj_ext \<Rightarrow> f10 | _ \<Rightarrow> banks_at s sl)"
    and "banks_at (s\<lparr>g_bobj_ext := f11\<rparr>) sl = (case sl of Bobj_ext \<Rightarrow> f11 | _ \<Rightarrow> banks_at s sl)"
  by (cases sl; simp)+

definition put_banks :: "nat \<Rightarrow> u8 \<Rightarrow> bool \<Rightarrow> 'a vram_maps_scheme \<Rightarrow> slot \<Rightarrow> u16" where
  "put_banks bank cnt add s sl =
    (if sl \<in> set (targets bank cnt) then bitset add (bank_bit bank) (banks_at s sl) else banks_at s sl)"

lemma targets_ab:
  assumes "bank < 2"
  shows "banks_at (map_ab bank cnt add s) sl = put_banks bank cnt add s sl"
proof -
  define m o8 where "m = unat cnt mod 8 mod 4" and "o8 = unat cnt div 8 mod 8"
  have "m < 4" by (simp add: m_def)
  from less4_cases [OF this] assms show ?thesis
    by (elim disjE; simp add: put_banks_def map_ab_def targets_def Let_def cnt_fields m_def [symmetric] o8_def [symmetric] and_unat8(4)
        lcdc_set_def range_map_apply banks_at_update image_iff split: slot.split; auto?)
qed

lemma targets_cd:
  assumes "bank = 2 \<or> bank = 3"
  shows "banks_at (map_cd bank cnt add s) sl = put_banks bank cnt add s sl"
proof -
  define m o8 where "m = unat cnt mod 8" and "o8 = unat cnt div 8 mod 8"
  have "m < 8" by (simp add: m_def)
  from less8_cases [OF this] assms show ?thesis
    by (elim disjE; simp add: put_banks_def map_cd_def targets_def Let_def cnt_fields m_def [symmetric] o8_def [symmetric] and_unat8(4)
        lcdc_set_def range_map_apply banks_at_update image_iff split: slot.split; auto?)
qed

lemma targets_e: "banks_at (map_e 4 cnt add s) sl = put_banks 4 cnt add s sl"
proof -
  define m where "m = unat cnt mod 8"
  have "m < 8" by (simp add: m_def)
  from less8_cases [OF this] show ?thesis
    by (elim disjE; simp add: put_banks_def map_e_def targets_def Let_def cnt_fields m_def [symmetric] and_unat8(4)
        lcdc_set_def range_map_apply banks_at_update image_iff split: slot.split; auto?)
qed

lemma targets_h: "banks_at (map_h 7 cnt add s) sl = put_banks 7 cnt add s sl"
proof -
  define m where "m = unat cnt mod 8 mod 4"
  have "m < 4" by (simp add: m_def)
  from less4_cases [OF this] show ?thesis
    by (elim disjE; simp add: put_banks_def map_h_def targets_def Let_def cnt_fields m_def [symmetric] and_unat8(4)
        lcdc_set_def range_map_apply bitset_at_def banks_at_update image_iff split: slot.split; auto?)
qed

lemma targets_i: "banks_at (map_i 8 cnt add s) sl = put_banks 8 cnt add s sl"
proof -
  define m where "m = unat cnt mod 8 mod 4"
  have "m < 4" by (simp add: m_def)
  from less4_cases [OF this] show ?thesis
    by (elim disjE; simp add: put_banks_def map_i_def targets_def Let_def cnt_fields m_def [symmetric] and_unat8(4)
        lcdc_set_def range_map_apply bitset_at_def banks_at_update image_iff split: slot.split; auto?)
qed

lemma fg_base:
  fixes ofs :: u8
  assumes "unat ofs = o8" "o8 < 8"
  shows "unat ((ofs AND 1) + push_bit 1 (ofs AND 2)) = o8 mod 2 + 4 * (o8 div 2 mod 2)" and "unat (push_bit 1 (ofs AND 1)) = 2 * (o8 mod 2)"
proof -
  have "ofs = word_of_nat o8" using assms(1) by (metis of_nat_unat ucast_id)
  then show "unat ((ofs AND 1) + push_bit 1 (ofs AND 2)) = o8 mod 2 + 4 * (o8 div 2 mod 2)" "unat (push_bit 1 (ofs AND 1)) = 2 * (o8 mod 2)"
    using less8_cases [OF assms(2)] by auto
qed

lemma targets_fg:
  assumes "bank = 5 \<or> bank = 6"
  shows "banks_at (map_fg bank cnt add s) sl = put_banks bank cnt add s sl"
proof -
  define m o8 b h where "m = unat cnt mod 8" and "o8 = unat cnt div 8 mod 8"
    and "b = o8 mod 2 + 4 * (o8 div 2 mod 2)" and "h = 2 * (o8 mod 2)"
  define ofs where "ofs = drop_bit 3 cnt AND 7"
  have "unat ofs = o8" "o8 < 8" by (simp_all add: ofs_def o8_def cnt_fields)
  note f = fg_base [OF this, folded b_def h_def]
  have t: "targets bank cnt = (if unat cnt < 128 then []
      else [[Lcdc], [Abg b, Abg (b + 2)], [Aobj b, Aobj (b + 2)], [Texpal b], [Abg_ext h, Abg_ext (h + 1)], [Aobj_ext], [], []] ! m)"
    using assms unfolding targets_def Let_def o8_def [symmetric] m_def [symmetric] b_def h_def by auto
  have "m < 8" by (simp add: m_def)
  from less8_cases [OF this] show ?thesis
    unfolding map_fg_def Let_def ofs_def [symmetric] f
    by (elim disjE; simp add: put_banks_def t cnt_fields(3-11) m_def [symmetric] and_unat8(4) lcdc_set_def bitset_at_def banks_at_update split: slot.split)
qed

lemma apply_map_banks:
  assumes "bank < 9"
  shows "banks_at (apply_map bank cnt add s) sl = put_banks bank cnt add s sl"
proof -
  have "bank < 2 \<or> bank = 2 \<or> bank = 3 \<or> bank = 4 \<or> bank = 5 \<or> bank = 6 \<or> bank = 7 \<or> bank = 8" using assms by linarith
  then show ?thesis
    by (auto simp: apply_map_def targets_ab targets_cd targets_e targets_fg targets_h targets_i)
qed

section \<open>Every operation keeps the tables\<close>

text \<open>The guest's and the machine's operations, a capture line and the savestate section among them.\<close>

datatype vram_op = Reset_vram | Map_bank nat u8 | Guest_read nds_cpu u32 nat | Guest_write nds_cpu u32 u32 nat
  | Capture_line nat u32 "u16 list" | Save_section | Load_section vram_save

fun vram_do :: "'a vram_scheme gpu2d \<Rightarrow> vram_op \<Rightarrow> 'a vram_scheme \<Rightarrow> 'a vram_scheme" where
  "vram_do G Reset_vram s = nds_vram_reset s"
| "vram_do G (Map_bank bank v) s = nds_vram_map G bank v s"
| "vram_do G (Guest_read cpu addr width) s = snd (nds_video_read G cpu addr width s)"
| "vram_do G (Guest_write cpu addr v width) s = nds_video_write G cpu addr v width s"
| "vram_do G (Capture_line bank addr px) s = apply_staged_capture bank addr px s"
| "vram_do G Save_section s = snd (vram_savestate_export G s)"
| "vram_do G (Load_section i) s = snd (vram_savestate_import G i s)"

definition vram_run :: "'a vram_scheme gpu2d \<Rightarrow> vram_op list \<Rightarrow> 'a vram_scheme \<Rightarrow> 'a vram_scheme" where
  "vram_run G ops s = fold (vram_do G) ops (nds_vram_reset s)"

text \<open>Draining the renderer writes captured lines into the banks; the mapping is the guest's alone.\<close>

definition same_mapping :: "'a vram_scheme \<Rightarrow> 'a vram_scheme \<Rightarrow> bool" where
  "same_mapping s t \<longleftrightarrow> vram_maps.truncate t = vram_maps.truncate s \<and> g_cnt t = g_cnt s \<and> g_renderer_view t = g_renderer_view s"

definition fences_keep :: "'a vram_scheme gpu2d \<Rightarrow> bool" where
  "fences_keep G \<longleftrightarrow> (\<forall>c s. same_mapping s (drain G c s))"

definition tables_ok :: "'a vram_scheme \<Rightarrow> bool" where
  "tables_ok s \<longleftrightarrow> (\<forall>sl b. bit (banks_at s sl) b \<longleftrightarrow> b < 9 \<and> sl \<in> set (targets b (g_cnt s b)))"

definition mapping_ok :: "'a vram_scheme \<Rightarrow> bool" where
  "mapping_ok s \<longleftrightarrow> tables_ok s \<and> (\<forall>b<9. sanitize b (g_cnt s b) = g_cnt s b) \<and> refresh_renderer_views s = s"

lemma same_mapping_refl [simp]: "same_mapping s s"
  by (simp add: same_mapping_def)

lemma same_mapping_trans: "same_mapping s t \<Longrightarrow> same_mapping t u \<Longrightarrow> same_mapping s u"
  by (simp add: same_mapping_def)

lemma banks_at_truncate: "banks_at (vram_maps.truncate s) sl = banks_at s sl"
  by (cases sl) (simp_all add: vram_maps.truncate_def)

lemma same_mapping_banks: "same_mapping s t \<Longrightarrow> banks_at t sl = banks_at s sl"
  by (metis banks_at_truncate same_mapping_def)

lemma refreshed_iff: "refresh_renderer_views s = s \<longleftrightarrow>
    (g_renderer_view s)(0 := \<lparr>rv_bg = chunks 32 (g_abg s), rv_obj = chunks 16 (g_aobj s)\<rparr>,
      1 := \<lparr>rv_bg = chunks 8 (g_bbg s), rv_obj = chunks 8 (g_bobj s)\<rparr>) = g_renderer_view s"
  unfolding refresh_renderer_views_def by (cases s) (simp add: eq_commute)

lemma same_mapping_ok:
  assumes "same_mapping s t" and ok: "mapping_ok s"
  shows "mapping_ok t"
proof -
  have b: "banks_at t sl = banks_at s sl" for sl using same_mapping_banks [OF assms(1)] .
  have "g_abg t = g_abg s" "g_aobj t = g_aobj s" "g_bbg t = g_bbg s" "g_bobj t = g_bobj s"
    using b [of "Abg j" for j] b [of "Aobj j" for j] b [of "Bbg j" for j] b [of "Bobj j" for j] by (simp_all add: fun_eq_iff)
  then show ?thesis using ok assms(1) by (simp add: mapping_ok_def tables_ok_def refreshed_iff b same_mapping_def)
qed

lemma bit_bitset: "j < 16 \<Longrightarrow> bit (bitset add (bank_bit b) x) j \<longleftrightarrow> (if j = b then add else bit x j)"
  by (auto simp: bitset_def bank_bit_def bit_simps)

lemma bit_bitset_iff: "b < 9 \<Longrightarrow> bit (bitset add (bank_bit b) x) j \<longleftrightarrow> (if j = b then add else bit x j)"
  using bit_bitset [of j add b x] bit_imp_le_length [of x j] bit_imp_le_length [of "bitset add (bank_bit b) x" j]
  by (cases "j < 16") auto

lemma banks_at_frame [simp]:
  "banks_at (s\<lparr>g_cnt := c\<rparr>) sl = banks_at s sl" "banks_at (s\<lparr>g_texture_generation := g\<rparr>) sl = banks_at s sl"
  "banks_at (s\<lparr>g_renderer_view := v\<rparr>) sl = banks_at s sl" "banks_at (refresh_renderer_views s) sl = banks_at s sl"
  by (cases sl; simp add: refresh_renderer_views_def)+

lemma refresh_keeps [simp]:
  "g_cnt (refresh_renderer_views s) = g_cnt s" "g_texture_generation (refresh_renderer_views s) = g_texture_generation s"
  "g_vram (refresh_renderer_views s) = g_vram s" "refresh_renderer_views (refresh_renderer_views s) = refresh_renderer_views s"
  by (simp_all add: refresh_renderer_views_def)

text \<open>What \<open>apply_map\<close> leaves alone.\<close>

definition beyond_maps :: "'a vram_scheme \<Rightarrow> _" where
  "beyond_maps s = (g_cnt s, g_renderer_view s, g_vram s, g_vram_written s, g_vram_generation s, g_palette s, g_oam s,
     g_texture_generation s, powercontrol9 s, vram.more s)"

lemma apply_map_frame: "beyond_maps (apply_map bank cnt add s) = beyond_maps s"
  by (simp add: beyond_maps_def apply_map_def map_ab_def map_cd_def map_e_def map_fg_def map_h_def map_i_def lcdc_set_def Let_def)

lemmas apply_map_keeps [simp] = apply_map_frame [unfolded beyond_maps_def prod.inject, THEN conjunct1]
  apply_map_frame [unfolded beyond_maps_def prod.inject, THEN conjunct2, THEN conjunct2, THEN conjunct1]
  apply_map_frame [unfolded beyond_maps_def prod.inject, THEN conjunct2, THEN conjunct2, THEN conjunct2, THEN conjunct2,
    THEN conjunct2, THEN conjunct2, THEN conjunct2, THEN conjunct1]

lemma sanitize_idem: "sanitize bank (sanitize bank v) = sanitize bank v"
  by (simp add: sanitize_def and.assoc)

lemma targets_off: "targets b 0 = []"
  by (simp add: targets_def)

lemma reset_mapping: "mapping_ok (nds_vram_reset s)"
proof -
  have "bit (banks_at (nds_vram_reset s) sl) b \<longleftrightarrow> False" for sl b
    by (cases sl) (simp_all add: nds_vram_reset_def refresh_renderer_views_def)
  then show ?thesis
    by (simp add: mapping_ok_def tables_ok_def nds_vram_reset_def targets_off sanitize_def)
qed

lemma remap_tables:
  assumes bank: "bank < 9" and ok: "tables_ok s"
  shows "tables_ok (apply_map bank v True (apply_map bank (g_cnt s bank) False s\<lparr>g_cnt := (g_cnt s)(bank := v)\<rparr>))"
  unfolding tables_ok_def
proof (intro allI)
  fix sl b
  have "bit (banks_at s sl) b \<longleftrightarrow> b < 9 \<and> sl \<in> set (targets b (g_cnt s b))" using ok by (simp add: tables_ok_def)
  then show "bit (banks_at (apply_map bank v True (apply_map bank (g_cnt s bank) False s\<lparr>g_cnt := (g_cnt s)(bank := v)\<rparr>)) sl) b
      \<longleftrightarrow> b < 9 \<and> sl \<in> set (targets b
        (g_cnt (apply_map bank v True (apply_map bank (g_cnt s bank) False s\<lparr>g_cnt := (g_cnt s)(bank := v)\<rparr>)) b))"
    using bank by (auto simp: apply_map_banks put_banks_def bit_bitset_iff)
qed

lemma map_mapping:
  assumes G: "fences_keep G" and ok: "mapping_ok s"
  shows "mapping_ok (nds_vram_map G bank v s)"
proof -
  define t where "t = nds_gpu2d_memory_fence G Fence_vramcnt s"
  have "same_mapping s t" using G by (auto simp: t_def nds_gpu2d_memory_fence_def fences_keep_def)
  then have c: "g_cnt t = g_cnt s" and t: "mapping_ok t" using same_mapping_ok [OF _ ok] by (auto simp: same_mapping_def)
  have "tables_ok (refresh_renderer_views (u\<lparr>g_texture_generation := g\<rparr>))" if "tables_ok u" for u g
    using that by (simp add: tables_ok_def)
  then show ?thesis
    using ok t remap_tables [of bank t "sanitize bank v"]
    by (auto simp: nds_vram_map_def Let_def t_def [symmetric] c [symmetric] mapping_ok_def sanitize_idem)
qed

lemma same_mapping_bytes [simp]:
  "same_mapping s (s\<lparr>g_vram := f, g_vram_written := w, g_vram_generation := g\<rparr>)" "same_mapping s (s\<lparr>g_vram := f\<rparr>)"
  "same_mapping s (s\<lparr>g_palette := f\<rparr>)" "same_mapping s (s\<lparr>g_oam := f\<rparr>)" "same_mapping s (s\<lparr>g_texture_generation := n\<rparr>)"
  by (simp_all add: same_mapping_def vram_maps.truncate_def)

lemma fold_keeps: "(\<And>x s. x \<in> set xs \<Longrightarrow> R s (f x s)) \<Longrightarrow> (\<And>s. R s s) \<Longrightarrow> (\<And>s t u. R s t \<Longrightarrow> R t u \<Longrightarrow> R s u)
    \<Longrightarrow> R s (fold f xs s)"
  by (induction xs arbitrary: s) (simp, metis fold_simps(2) list.set_intros)

lemma bank_write_mapping: "same_mapping s (bank_write bank addr v width s)"
  by (simp add: bank_write_def Let_def)

lemma mapped_write_mapping: "same_mapping s (mapped_write bm addr v width s)"
  unfolding mapped_write_def
  by (rule fold_keeps) (auto intro: bank_write_mapping same_mapping_trans)

lemma video_write_at_mapping: "same_mapping s (video_write_at cpu addr v width s)"
  by (auto simp: video_write_at_def arm9_vram_write_def mapped_write_mapping bank_write_mapping split: option.split)

lemma fence_mapping:
  assumes "fences_keep G"
  shows "same_mapping s (nds_gpu2d_read_fence G s)" and "same_mapping s (nds_gpu2d_memory_fence G c s)"
  using assms by (auto simp: nds_gpu2d_read_fence_def nds_gpu2d_memory_fence_def fences_keep_def)

lemma video_write_mapping: "fences_keep G \<Longrightarrow> same_mapping s (nds_video_write G cpu addr v width s)"
  unfolding nds_video_write_def Let_def
  by (rule same_mapping_trans [OF _ video_write_at_mapping]) (simp add: fences_keep_def)

lemma capture_mapping: "same_mapping s (apply_staged_capture bank addr px s)"
proof -
  have "(\<lambda>x y. same_mapping (fst x) (fst y)) (s, addr) (fold (capture_pixel bank) px (s, addr))"
    by (rule fold_keeps) (auto simp: capture_pixel_def intro: same_mapping_trans)
  then have "same_mapping s (fst (fold (capture_pixel bank) px (s, addr)))" by simp
  then show ?thesis
    by (auto simp: apply_staged_capture_def nds_vram_note_capture_write_def intro: same_mapping_trans)
qed

text \<open>Loading rebuilds the tables bank by bank.\<close>

definition rebuild_step :: "vram_save \<Rightarrow> nat \<Rightarrow> 'a vram_scheme \<Rightarrow> 'a vram_scheme" where
  "rebuild_step i bank s = apply_map bank (vs_vramcnt i bank) True (s\<lparr>g_cnt := (g_cnt s)(bank := vs_vramcnt i bank)\<rparr>)"

lemma rebuild_tables:
  assumes "n \<le> 9" and none: "\<And>sl b. \<not> bit (banks_at s sl) b"
  shows "bit (banks_at (fold (rebuild_step i) [0..<n] s) sl) b \<longleftrightarrow> b < n \<and> sl \<in> set (targets b (vs_vramcnt i b))"
  using assms(1)
proof (induction n)
  case (Suc n)
  then show ?case
    by (auto simp: rebuild_step_def apply_map_banks put_banks_def bit_bitset_iff less_Suc_eq)
qed (simp add: none)

lemma rebuild_cnt: "g_cnt (fold (rebuild_step i) [0..<n] s) b = (if b < n then vs_vramcnt i b else g_cnt s b)"
  by (induction n) (auto simp: rebuild_step_def less_Suc_eq)

lemma load_mapping:
  assumes G: "fences_keep G" and ok: "mapping_ok s"
  shows "mapping_ok (snd (vram_savestate_import G i s))"
proof (cases "vram_savestate_validate i")
  case (Inl e)
  then show ?thesis by (simp add: vram_savestate_import_def ok)
next
  case (Inr u)
  then have san: "\<forall>b<9. sanitize b (vs_vramcnt i b) = vs_vramcnt i b"
    by (auto simp: vram_savestate_validate_def split: if_splits)
  define t where "t = (drain G Fence_frame s)\<lparr>g_vram := copy_onto (vs_vram i) (g_vram (drain G Fence_frame s)) id,
             g_vram_written := copy_onto (vs_written i) (g_vram_written (drain G Fence_frame s)) (\<lambda>v. v \<noteq> 0),
             g_vram_generation := copy_onto (vs_exec_generation i) (g_vram_generation (drain G Fence_frame s)) id,
             g_palette := copy_onto (vs_palette i) (g_palette (drain G Fence_frame s)) id,
             g_oam := copy_onto (vs_oam i) (g_oam (drain G Fence_frame s)) id,
             g_cnt := \<lambda>_. 0, g_lcdc := 0, g_abg := \<lambda>_. 0, g_aobj := \<lambda>_. 0, g_bbg := \<lambda>_. 0, g_bobj := \<lambda>_. 0,
             g_abg_ext := \<lambda>_. 0, g_aobj_ext := 0, g_bbg_ext := \<lambda>_. 0, g_bobj_ext := 0, g_texture := \<lambda>_. 0,
             g_texpal := \<lambda>_. 0, g_arm7 := \<lambda>_. 0\<rparr>"
  have none: "\<not> bit (banks_at t sl) b" for sl b by (cases sl) (simp_all add: t_def)
  have z: "g_cnt t = (\<lambda>_. 0)" by (simp add: t_def)
  have e: "snd (vram_savestate_import G i s) =
      refresh_renderer_views (fold (rebuild_step i) [0..<9] t\<lparr>g_texture_generation := vs_texture_generation i\<rparr>)"
    by (simp add: vram_savestate_import_def Inr Let_def t_def [symmetric] rebuild_step_def [abs_def])
  show ?thesis
    unfolding e mapping_ok_def tables_ok_def using rebuild_tables [OF _ none, of 9 i] san
    by (simp add: rebuild_cnt)
qed

lemma vram_do_mapping:
  assumes "fences_keep G" and "mapping_ok s"
  shows "mapping_ok (vram_do G opr s)"
proof (cases opr)
  case (Guest_write cpu addr v width)
  then show ?thesis using same_mapping_ok [OF video_write_mapping [OF assms(1)] assms(2)] by simp
qed (use assms reset_mapping map_mapping load_mapping same_mapping_ok [OF fence_mapping(1) [OF assms(1)] assms(2)]
      same_mapping_ok [OF capture_mapping assms(2)]
    in \<open>auto simp: nds_video_read_def vram_savestate_export_def Let_def\<close>)

lemma vram_run_mapping: "fences_keep G \<Longrightarrow> mapping_ok (vram_run G ops s)"
proof -
  assume G: "fences_keep G"
  have "mapping_ok t \<Longrightarrow> mapping_ok (fold (vram_do G) ops t)" for t
    by (induction ops arbitrary: t) (simp_all add: vram_do_mapping [OF G])
  then show ?thesis by (simp add: vram_run_def reset_mapping)
qed

text \<open>
  C6. Video memory mapping.  After any sequence of resets, VRAMCNT writes, guest accesses, display
  captures, and savestate loads (rejected ones included), however the banks were moved before, a bank
  stands behind a slot of a window exactly when its control register says so by the hardware's table; the
  registers hold only writable bits, and the renderers' direct pointers are those of the tables.
\<close>

theorem vram_tables_follow_registers:
  assumes "fences_keep G"
  shows "(bit (banks_at (vram_run G ops s) sl) b \<longleftrightarrow> b < 9 \<and> sl \<in> set (targets b (g_cnt (vram_run G ops s) b)))
    \<and> (b < 9 \<longrightarrow> sanitize b (g_cnt (vram_run G ops s) b) = g_cnt (vram_run G ops s) b)
    \<and> refresh_renderer_views (vram_run G ops s) = vram_run G ops s"
  using vram_run_mapping [OF assms, of ops s] by (simp add: mapping_ok_def tables_ok_def)

section \<open>Bytes of an access\<close>

lemma bit_load: "w \<le> 4 \<Longrightarrow> bit (load f p w) n \<longleftrightarrow> n div 8 < w \<and> bit (f (p + n div 8)) (n mod 8)"
proof (induction w)
  case (Suc w)
  have e: "load f p (Suc w) = load f p w OR push_bit (8 * w) (ucast (f (p + w)))" by (simp add: load_def)
  have "bit (push_bit (8 * w) (ucast (f (p + w))) :: u32) n \<longleftrightarrow> n div 8 = w \<and> bit (f (p + n div 8)) (n mod 8)"
  proof (cases "n div 8 = w")
    case True
    then have "8 * w \<le> n" "n - 8 * w = n mod 8" "n < 32" using Suc.prems by (auto simp: modulo_nat_def)
    moreover have "n mod 8 < 32" by (rule less_trans [of _ 8]) simp_all
    ultimately show ?thesis using True by (simp add: bit_simps)
  next
    case False
    have "\<not> bit (f (p + w)) (n - 8 * w)" if "8 * w \<le> n"
      using that False bit_imp_le_length [of "f (p + w)" "n - 8 * w"] by auto
    then show ?thesis using False by (auto simp: bit_simps)
  qed
  then show ?case using Suc by (auto simp: e bit_or_iff)
qed (simp add: load_def)

lemma store_apply: "store f p v w q = (if p \<le> q \<and> q < p + w then ucast (drop_bit (8 * (q - p)) v) else f q)"
proof (induction w)
  case (Suc w)
  have "store f p v (Suc w) = (store f p v w)(p + w := ucast (drop_bit (8 * w) v))" by (simp add: store_def)
  then show ?case using Suc by auto
qed (auto simp: store_def)

lemma load_store_same: "w \<le> 4 \<Longrightarrow> load (store f p v w) p w = v AND mask (8 * w)"
proof (rule bit_eqI)
  fix n assume w: "w \<le> 4"
  have "8 * (n div 8) + n mod 8 = (n :: nat)" by simp
  then show "bit (load (store f p v w) p w) n \<longleftrightarrow> bit (v AND mask (8 * w)) n"
    using bit_imp_le_length [of v n]
    by (auto simp: bit_load [OF w] store_apply bit_simps bit_drop_bit_eq div_less_iff_less_mult)
qed

lemma load_cong: "(\<And>i. i < w \<Longrightarrow> f (p + i) = g (p + i)) \<Longrightarrow> w \<le> 4 \<Longrightarrow> load f p w = load g p w"
  by (rule bit_eqI) (auto simp: bit_load)

section \<open>Banks as intervals\<close>

definition bank_off :: "nat \<Rightarrow> nat" where "bank_off b = unat (kBankOffset b)"
definition bank_len :: "nat \<Rightarrow> nat" where "bank_len b = unat (kBankSize b)"

lemma less9_cases: "(b :: nat) < 9 \<Longrightarrow> b = 0 \<or> b = 1 \<or> b = 2 \<or> b = 3 \<or> b = 4 \<or> b = 5 \<or> b = 6 \<or> b = 7 \<or> b = 8"
  by linarith

lemma bank_len_power: "b < 9 \<Longrightarrow> bank_len b = 2 ^ [17, 17, 17, 17, 16, 14, 14, 15, 14] ! b
    \<and> kBankSize b - 1 = mask ([17, 17, 17, 17, 16, 14, 14, 15, 14] ! b)"
  by (drule less9_cases, elim disjE) (simp_all add: bank_len_def kBankSize_def mask_eq_exp_minus_1)

lemma banks_apart: "b < b' \<Longrightarrow> b' < 9 \<Longrightarrow> bank_off b + bank_len b \<le> bank_off b'"
proof -
  assume "b < b'" "b' < 9"
  then have "b < 9" by simp
  from less9_cases [OF this] less9_cases [OF \<open>b' < 9\<close>] \<open>b < b'\<close> show ?thesis
    by (elim disjE; simp add: bank_off_def bank_len_def kBankOffset_def kBankSize_def)
qed

lemma bank_in_vram: "b < 9 \<Longrightarrow> bank_off b + bank_len b \<le> 0xA4000"
  by (drule less9_cases, elim disjE) (simp_all add: bank_off_def bank_len_def kBankOffset_def kBankSize_def)

lemma bank_offset_nat:
  assumes "b < 9"
  shows "unat (bank_offset b a) = bank_off b + unat a mod bank_len b"
proof -
  have m: "unat (a AND (kBankSize b - 1)) = unat a mod bank_len b"
    using bank_len_power [OF assms] by (simp add: unat_and_mask)
  have "0 < bank_len b" using bank_len_power [OF assms] by simp
  then have "unat a mod bank_len b < bank_len b" by simp
  then have "bank_off b + unat a mod bank_len b < 2 ^ 32" using bank_in_vram [OF assms] by simp
  then show ?thesis by (simp add: bank_offset_def unat_word_ariths m bank_off_def)
qed

text \<open>An aligned access of one, two or four bytes lies inside its bank.\<close>

definition aligned :: "u32 \<Rightarrow> nat \<Rightarrow> bool" where
  "aligned a w \<longleftrightarrow> w \<in> {1, 2, 4} \<and> w dvd unat a"

lemma aligned_le: "aligned a w \<Longrightarrow> w \<le> 4"
  by (auto simp: aligned_def)

lemma access_in_bank:
  assumes b: "b < 9" and a: "aligned a w"
  shows "unat a mod bank_len b + w \<le> bank_len b"
proof -
  obtain k where k: "bank_len b = 2 ^ k" "14 \<le> k"
    using bank_len_power [OF b] less9_cases [OF b] by auto
  have "w dvd 2 ^ k"
    using a k(2) le_imp_power_dvd [of 2 k "2::nat"] le_imp_power_dvd [of 1 k "2::nat"] by (auto simp: aligned_def)
  then have "w dvd unat a mod 2 ^ k" using a by (auto simp: aligned_def dvd_mod)
  then obtain q where q: "unat a mod 2 ^ k = w * q" by blast
  obtain r where r: "2 ^ k = w * r" using \<open>w dvd 2 ^ k\<close> by blast
  have "unat a mod 2 ^ k < 2 ^ k" by simp
  then have "w * q < w * r" using q r by simp
  then have "Suc q \<le> r" by simp
  then have "w * Suc q \<le> w * r" by (rule mult_le_mono2)
  then show ?thesis using q r k(1) by simp
qed

lemma bank_write_read: "b < 9 \<Longrightarrow> aligned a w \<Longrightarrow> bank_read b a w (bank_write b a v w s) = v AND mask (8 * w)"
  by (simp add: bank_read_def bank_write_def Let_def load_store_same aligned_le)

lemma bank_write_outside:
  assumes "b < 9" "aligned a w" "q < bank_off b \<or> bank_off b + bank_len b \<le> q"
  shows "g_vram (bank_write b a v w s) q = g_vram s q"
  using access_in_bank [OF assms(1,2)] assms(1,3)
  by (auto simp: bank_write_def Let_def store_apply bank_offset_nat)

lemma bank_write_other:
  assumes b: "b < 9" and b': "b' < 9" and ne: "b \<noteq> b'" and a: "aligned a w"
  shows "bank_read b' a w (bank_write b a v w s) = bank_read b' a w s"
proof -
  have "g_vram (bank_write b a v w s) (unat (bank_offset b' a) + i) = g_vram s (unat (bank_offset b' a) + i)" if "i < w" for i
    using banks_apart [of b b'] banks_apart [of b' b] ne access_in_bank [OF b' a] that b b'
    by (intro bank_write_outside [OF b a]) (auto simp: bank_offset_nat neq_iff)
  then show ?thesis using b' by (auto simp: bank_read_def aligned_le [OF a] intro!: load_cong)
qed

lemma mapped_write_read:
  assumes a: "aligned a w" and b: "b < 9"
  shows "n \<le> 9 \<Longrightarrow> bank_read b a w (fold (\<lambda>bank s. if bit bm bank then bank_write bank a v w s else s) [0..<n] s)
    = (if b < n \<and> bit bm b then v AND mask (8 * w) else bank_read b a w s)"
proof (induction n)
  case (Suc n)
  then show ?case
    by (cases "b = n") (auto simp: bank_write_read [OF _ a] bank_write_other [OF _ b _ a])
qed simp

lemma bit_mapped_read_all: "bit (mapped_read_all bm a w s) n \<longleftrightarrow> (\<exists>b<9. bit bm b \<and> bit (bank_read b a w s) n)"
proof -
  have "bit (fold (\<lambda>bank v. if bit bm bank then v OR bank_read bank a w s else v) [0..<k] 0) n
      \<longleftrightarrow> (\<exists>b<k. bit bm b \<and> bit (bank_read b a w s) n)" for k
    by (induction k) (auto simp: bit_or_iff less_Suc_eq)
  then show ?thesis by (simp add: mapped_read_all_def)
qed

lemma mapped_store_load:
  assumes a: "aligned a w" and some: "\<exists>b<9. bit bm b"
  shows "mapped_read bm a w (mapped_write bm a v w s) = v AND mask (8 * w)"
  unfolding mapped_read_eq
  by (rule bit_eqI) (use some in \<open>auto simp: bit_mapped_read_all mapped_write_def mapped_write_read [OF a _ order_refl]\<close>)

section \<open>Stores are read back\<close>

text \<open>
  The synchronous renderer (the default, \<open>gpu2d.h\<close>): no job outstanding, no capture staged, and a
  drain with nothing to do.
\<close>

definition gpu2d_idle :: "'a vram_scheme gpu2d \<Rightarrow> bool" where
  "gpu2d_idle G \<longleftrightarrow> (\<forall>s. \<not> jobs_outstanding G s \<and> \<not> staged_captures G s) \<and> (\<forall>c s. drain G c s = s)"

lemma idle_fences_keep: "gpu2d_idle G \<Longrightarrow> fences_keep G"
  by (simp add: gpu2d_idle_def fences_keep_def)

text \<open>Where a store goes: to memory that is mapped and powered, and never a byte from the ARM9.\<close>

definition video_writable :: "nds_cpu \<Rightarrow> u32 \<Rightarrow> nat \<Rightarrow> 'a vram_scheme \<Rightarrow> bool" where
  "video_writable cpu addr width s \<longleftrightarrow>
    (if cpu = ARM7 then addr AND 0xFF000000 = 0x06000000 \<and> (\<exists>b<9. bit (g_arm7 s (unat (drop_bit 17 addr AND 1))) b)
     else width \<noteq> 1 \<and>
       (if addr AND 0xFF000000 = 0x06000000 then
          (case window_mask ARM9 addr s of Some bm \<Rightarrow> \<exists>b<9. bit bm b
           | None \<Rightarrow> (case lcdc_bank addr of None \<Rightarrow> False | Some (b, _) \<Rightarrow> bit (g_lcdc s) b))
        else (addr AND 0xFF000000 = 0x05000000 \<or> addr AND 0xFF000000 = 0x07000000) \<and> engine_on addr s))"

lemma bank_write_frame [simp]:
  "powercontrol9 (bank_write b a v w s) = powercontrol9 s" "g_palette (bank_write b a v w s) = g_palette s"
  "g_oam (bank_write b a v w s) = g_oam s" "g_texture_generation (bank_write b a v w s) = g_texture_generation s"
  by (simp_all add: bank_write_def Let_def)

lemma mapped_write_frame [simp]:
  "g_texture_generation (mapped_write bm a v w s) = g_texture_generation s"
proof -
  have "(\<lambda>s t. g_texture_generation t = g_texture_generation s) s (mapped_write bm a v w s)"
    unfolding mapped_write_def by (rule fold_keeps) auto
  then show ?thesis by simp
qed

lemma same_mapping_masks:
  assumes "same_mapping s t"
  shows "g_arm7 t = g_arm7 s" "g_abg t = g_abg s" "g_bbg t = g_bbg s" "g_aobj t = g_aobj s" "g_bobj t = g_bobj s" "g_lcdc t = g_lcdc s"
    "g_texture t = g_texture s" "g_texpal t = g_texpal s"
  using assms by (simp_all add: same_mapping_def vram_maps.truncate_def)

lemmas mapped_write_masks [simp] = same_mapping_masks [OF mapped_write_mapping]

lemma lcdc_bank_aligned:
  assumes "lcdc_bank addr = Some (b, off)" and a: "aligned addr w"
  shows "b < 9 \<and> aligned off w"
proof -
  have "unat (drop_bit 17 (addr - 0x06800000)) < 4" if "0x06800000 \<le> addr" "addr < 0x06880000"
  proof -
    have "addr - 0x06800000 < 0x80000" using that by unat_arith
    then have "unat (addr - 0x06800000) < 0x80000" by (simp add: word_less_nat_alt)
    then show ?thesis by (simp add: drop_bit_eq_div unat_div_distrib less_mult_imp_div_less)
  qed
  moreover have "aligned (addr AND mask k) w" if "2 \<le> k" for k
  proof -
    have "w dvd 2 ^ k" using a that le_imp_power_dvd [of 2 k "2::nat"] le_imp_power_dvd [of 1 k "2::nat"]
      by (auto simp: aligned_def)
    then show ?thesis using a by (auto simp: aligned_def unat_and_mask dvd_mod)
  qed
  from this [of 17] this [of 16] this [of 14] this [of 15]
  have "aligned (addr AND 0x1FFFF) w" "aligned (addr AND 0xFFFF) w" "aligned (addr AND 0x3FFF) w" "aligned (addr AND 0x7FFF) w"
    by (simp_all add: mask_eq_exp_minus_1)
  ultimately show ?thesis using assms(1) by (auto simp: lcdc_bank_def split: if_splits)
qed

lemma arm9_store_load:
  assumes a: "aligned addr w"
  shows "arm9_vram_read addr w (arm9_vram_write addr v w s) =
    (if (case window_mask ARM9 addr s of Some bm \<Rightarrow> \<exists>b<9. bit bm b
         | None \<Rightarrow> (case lcdc_bank addr of None \<Rightarrow> False | Some (b, _) \<Rightarrow> bit (g_lcdc s) b))
     then v AND mask (8 * w) else arm9_vram_read addr w s)"
proof -
  have none: "mapped_write bm addr v w s = s" if "\<not> (\<exists>b<9. bit bm b)" for bm
    unfolding mapped_write_def using that by (auto intro!: fold_invariant [where Q = "\<lambda>x. x < 9" and P = "\<lambda>t. t = s"])
  have lc: "(case lcdc_bank addr of None \<Rightarrow> 0
      | Some (bank, offset) \<Rightarrow> if bit (g_lcdc t) bank then bank_read bank offset w t else 0) =
    (if (case lcdc_bank addr of None \<Rightarrow> False | Some (b, _) \<Rightarrow> bit (g_lcdc s) b) then v AND mask (8 * w)
     else (case lcdc_bank addr of None \<Rightarrow> 0
      | Some (bank, offset) \<Rightarrow> if bit (g_lcdc s) bank then bank_read bank offset w s else 0))"
    if t: "t = (case lcdc_bank addr of None \<Rightarrow> s
       | Some (bank, offset) \<Rightarrow> if bit (g_lcdc s) bank then bank_write bank offset v w s else s)" for t
  proof (cases "lcdc_bank addr")
    case (Some p)
    then obtain b off where p: "lcdc_bank addr = Some (b, off)" by (cases p) auto
    then show ?thesis using lcdc_bank_aligned [OF p a] bank_write_read [of b off w v s]
        same_mapping_masks(6) [OF bank_write_mapping [of s b off v w]] by (auto simp: t)
  qed (simp add: t)
  have mr: "mapped_read bm addr w (mapped_write bm addr v w s) = (if \<exists>b<9. bit bm b then v AND mask (8 * w) else mapped_read bm addr w s)" for bm
    using mapped_store_load [OF a, of bm v s] none [of bm] by simp
  consider "addr AND 0x00E00000 = 0" | "addr AND 0x00E00000 = 0x00200000" | "addr AND 0x00E00000 = 0x00400000"
    | "addr AND 0x00E00000 = 0x00600000"
    | "addr AND 0x00E00000 \<noteq> 0" "addr AND 0x00E00000 \<noteq> 0x00200000" "addr AND 0x00E00000 \<noteq> 0x00400000"
      "addr AND 0x00E00000 \<noteq> 0x00600000" by blast
  then show ?thesis
  proof cases
    case 5
    then show ?thesis
      unfolding arm9_vram_read_def arm9_vram_write_def window_mask_def
      by (simp only: if_False nds_cpu.distinct option.case lc [OF refl])
  qed (auto simp: arm9_vram_read_def arm9_vram_write_def window_mask_def mr)
qed

lemma idle_read: "gpu2d_idle G \<Longrightarrow> nds_video_read G cpu addr width s =
    (video_read_at cpu (addr AND NOT (word_of_nat width - 1)) width s, s)"
  by (simp add: nds_video_read_def nds_gpu2d_read_fence_def gpu2d_idle_def Let_def)

lemma idle_write: "gpu2d_idle G \<Longrightarrow> nds_video_write G cpu addr v width s =
    video_write_at cpu (addr AND NOT (word_of_nat width - 1)) v width s"
  by (simp add: nds_video_write_def gpu2d_idle_def Let_def)

lemma align_down_aligned:
  assumes "w \<in> {1, 2, 4}"
  shows "aligned (addr AND NOT (word_of_nat w - 1)) w"
proof -
  have "2 ^ k dvd unat (addr AND NOT (mask k))" for k
  proof -
    have "take_bit k (addr AND NOT (mask k)) = 0" by (auto simp: bit_eq_iff bit_simps)
    then have "take_bit k (unat (addr AND NOT (mask k))) = 0" by (simp flip: unsigned_take_bit_eq)
    then show ?thesis by (simp add: take_bit_eq_0_iff)
  qed
  from this [of 0] this [of 1] this [of 2] show ?thesis
    using assms by (auto simp: aligned_def mask_eq_exp_minus_1)
qed

text \<open>
  C10. Video memory round trip.  A store of one, two or four bytes to mapped and powered video memory, by
  either processor and through any window, LCDC included, is read back from the same address, also where
  several banks overlap (each gets the value, a load combines them); any other store changes nothing
  there, bytes stored by the ARM9 among them.
\<close>

theorem video_store_read_back:
  assumes G: "gpu2d_idle G" and w: "width \<in> {1, 2, 4}"
  shows "fst (nds_video_read G cpu addr width (nds_video_write G cpu addr v width s)) =
    (if video_writable cpu (addr AND NOT (word_of_nat width - 1)) width s then v AND mask (8 * width)
     else fst (nds_video_read G cpu addr width s))"
proof -
  define a where "a = addr AND NOT (word_of_nat width - 1)"
  have al: "aligned a width" unfolding a_def by (rule align_down_aligned [OF w])
  have le: "width \<le> 4" using w by auto
  have none: "mapped_write bm a v width s = s" if "\<not> (\<exists>b<9. bit bm b)" for bm
    unfolding mapped_write_def using that by (auto intro!: fold_invariant [where Q = "\<lambda>x. x < 9" and P = "\<lambda>t. t = s"])
  have "video_read_at cpu a width (video_write_at cpu a v width s) =
    (if video_writable cpu a width s then v AND mask (8 * width) else video_read_at cpu a width s)"
  proof (cases cpu)
    case ARM7
    then show ?thesis using mapped_store_load [OF al, of "g_arm7 s (unat (drop_bit 17 a AND 1))" v s]
        none [of "g_arm7 s (unat (drop_bit 17 a AND 1))"]
      by (auto simp: video_read_at_def video_write_at_def video_writable_def)
  next
    case ARM9
    have ls: "load (store f p v width) p width = v AND mask (8 * width)" for f p by (rule load_store_same [OF le])
    show ?thesis
    proof (cases "a AND 0xFF000000 = 0x06000000")
      case True
      then show ?thesis using arm9_store_load [OF al, of v s]
        by (simp add: video_read_at_def video_write_at_def video_writable_def ARM9)
    next
      case False
      then show ?thesis
        by (auto simp: video_read_at_def video_write_at_def video_writable_def ARM9 ls engine_on_def)
    qed
  qed
  then show ?thesis by (simp add: idle_read [OF G] idle_write [OF G] a_def)
qed

section \<open>Flattened copies\<close>

text \<open>What a slot space shows at byte \<open>i\<close>: all banks behind its slot, combined.\<close>

definition view_byte :: "'a vram_scheme \<Rightarrow> u16 \<Rightarrow> nat \<Rightarrow> u8" where
  "view_byte s bm i = fold (\<lambda>b v. if bit bm b then v OR g_vram s (bank_off b + i mod bank_len b) else v) [0..<9] 0"

lemma bit_view_byte: "bit (view_byte s bm i) n \<longleftrightarrow> (\<exists>b<9. bit bm b \<and> bit (g_vram s (bank_off b + i mod bank_len b)) n)"
proof -
  have "bit (fold (\<lambda>b v. if bit bm b then v OR g_vram s (bank_off b + i mod bank_len b) else v) [0..<k] 0) n
      \<longleftrightarrow> (\<exists>b<k. bit bm b \<and> bit (g_vram s (bank_off b + i mod bank_len b)) n)" for k
    by (induction k) (auto simp: bit_or_iff less_Suc_eq)
  then show ?thesis by (simp add: view_byte_def)
qed

lemma mod_offset:
  fixes base i n l :: nat
  assumes "n dvd l" "n dvd base" "base \<le> i" "i < base + n"
  shows "i mod l = base mod l + (i - base)"
proof -
  obtain q where q: "l = n * q" using assms(1) by blast
  obtain p where p: "base = n * p" using assms(2) by blast
  show ?thesis
  proof (cases "l = 0")
    case False
    have "base mod l = n * (p mod q)" by (simp add: p q)
    moreover have "p mod q < q" using False q by simp
    then have "n * Suc (p mod q) \<le> n * q" by (intro mult_le_mono2) simp
    ultimately have "base mod l + (i - base) < l" using assms(3,4) q by simp
    moreover have "i mod l = (base mod l + (i - base)) mod l"
      using assms(3) mod_add_left_eq [of base l "i - base"] by simp
    ultimately show ?thesis by simp
  qed (use assms in simp)
qed

lemma store_words:
  "fold (\<lambda>w dst. store dst (base + 4 * w) (g w) 4) [0..<n] dst i =
    (if base \<le> i \<and> i < base + 4 * n then ucast (drop_bit (8 * ((i - base) mod 4)) (g ((i - base) div 4))) else dst i)"
proof (induction n)
  case (Suc n)
  have "(i - base) div 4 = n \<and> (i - base) mod 4 = i - (base + 4 * n)" if "base + 4 * n \<le> i" "i < base + 4 * Suc n"
  proof -
    have "(i - base) div 4 = n" using that by (intro div_nat_eqI) auto
    moreover have "(i - base) mod 4 = (i - base) - (i - base) div 4 * 4" by (rule modulo_nat_def)
    ultimately show ?thesis by simp
  qed
  then show ?case using Suc by (auto simp: store_apply)
qed auto

text \<open>Banks behind the slots of a space: whole multiples of the slot.\<close>

definition slots_fit :: "(nat \<Rightarrow> u16) \<Rightarrow> nat \<Rightarrow> bool" where
  "slots_fit masks sz \<longleftrightarrow> (\<forall>k b. bit (masks k) b \<longrightarrow> b < 9 \<and> sz dvd bank_len b)"

lemma mapped_read_byte:
  assumes fit: "\<And>b. bit bm b \<Longrightarrow> b < 9 \<and> 4 dvd bank_len b" and a: "unat a = j - j mod 4"
  shows "ucast (drop_bit (8 * (j mod 4)) (mapped_read bm a 4 s)) = view_byte s bm j"
proof (rule bit_eqI)
  fix n assume "possible_bit TYPE(8 word) n"
  then have n: "n < 8" by simp
  have "(8 * (j mod 4) + n) div 8 = j mod 4" "(8 * (j mod 4) + n) mod 8 = n" using n by simp_all
  moreover have off: "bank_off b + unat a mod bank_len b + j mod 4 = bank_off b + j mod bank_len b" if "bit bm b" for b
  proof -
    have "j mod 4 < 4" "j mod 4 \<le> j" by simp_all
    moreover have "4 dvd j - j mod 4" by (simp add: minus_mod_eq_mult_div)
    ultimately show ?thesis
      using mod_offset [of 4 "bank_len b" "j - j mod 4" j] fit [OF that] by (simp add: a)
  qed
  ultimately have byte: "bit (bank_read b a 4 s) (8 * (j mod 4) + n) \<longleftrightarrow> bit (g_vram s (bank_off b + j mod bank_len b)) n"
    if "bit bm b" for b
    using that fit [OF that] off [OF that] by (simp add: bank_read_def bit_load bank_offset_nat not_le add.assoc)
  show "bit (ucast (drop_bit (8 * (j mod 4)) (mapped_read bm a 4 s)) :: u8) n \<longleftrightarrow> bit (view_byte s bm j) n"
    using n byte by (auto simp: bit_ucast_iff bit_drop_bit_eq mapped_read_eq bit_mapped_read_all bit_view_byte add.commute [of n])
qed

lemma floor_from:
  fixes base i :: nat
  assumes "base \<le> i"
  shows "base + 4 * ((i - base) div 4) = i - (i - base) mod 4"
proof -
  obtain d where "i = base + d" using assms le_Suc_ex by blast
  then show ?thesis using minus_mod_eq_mult_div [of d 4] mod_less_eq_dividend [of d 4] by simp
qed

lemma copy_slot_apply:
  assumes fit: "slots_fit masks sz" and sz: "4 dvd sz" and top: "Suc k * sz \<le> 2 ^ 32"
  shows "copy_slot s masks sz k dst i = (if k * sz \<le> i \<and> i < Suc k * sz then view_byte s (masks k) i else dst i)"
proof -
  define base bm where "base = k * sz" and "bm = masks k"
  have end_: "Suc k * sz = base + sz" by (simp add: base_def)
  have f: "b < 9 \<and> sz dvd bank_len b" if "bit bm b" for b using fit that by (auto simp: slots_fit_def bm_def)
  have dv: "sz dvd base" by (simp add: base_def)
  have inside: "x < 2 ^ 32" if "x < base + sz" for x using that top end_ by simp
  consider "bm = 0" | "bm \<noteq> 0" "single_bank bm" | "bm \<noteq> 0" "\<not> single_bank bm" by blast
  then show ?thesis
  proof cases
    case 1
    moreover have "view_byte s 0 i = 0" by (rule bit_eqI) (simp add: bit_view_byte)
    ultimately show ?thesis by (simp add: copy_slot_def Let_def fill_bytes_def end_ flip: base_def bm_def)
  next
    case 2
    define b where "b = countr_zero bm"
    have bits: "bit bm j \<longleftrightarrow> j = b" for j using single_bank_bit [OF 2(2)] by (simp add: b_def)
    have b9: "b < 9" "sz dvd bank_len b" using f [of b] bits by simp_all
    have view: "view_byte s bm i = g_vram s (bank_off b + i mod bank_len b)"
      by (rule bit_eqI) (use b9 in \<open>auto simp: bit_view_byte bits\<close>)
    have "g_vram s (unat (bank_offset b (word_of_nat base)) + (i - base)) = view_byte s bm i" if "base \<le> i" "i < base + sz"
    proof -
      have "unat (word_of_nat base :: u32) = base" using inside [of base] that by (simp add: unat_of_nat)
      then show ?thesis using mod_offset [OF b9(2) dv that] by (simp add: view bank_offset_nat [OF b9(1)] add.assoc)
    qed
    then show ?thesis using 2
      by (simp add: copy_slot_def Let_def direct_chunk_def copy_bytes_def end_ flip: base_def bm_def b_def)
  next
    case 3
    have f4: "b < 9 \<and> 4 dvd bank_len b" if "bit bm b" for b using f [OF that] sz dvd_trans by blast
    have "ucast (drop_bit (8 * ((i - base) mod 4)) (mapped_read bm (word_of_nat (base + 4 * ((i - base) div 4))) 4 s)) = view_byte s bm i"
      if r: "base \<le> i" "i < base + sz"
    proof -
      have "4 dvd base" using dv sz dvd_trans by blast
      then obtain q where q: "base = 4 * q" by blast
      have "i = base + (i - base)" using r by simp
      then have m: "i mod 4 = (i - base) mod 4" by (metis mod_mult_self4 q)
      have e: "base + 4 * ((i - base) div 4) = i - i mod 4"
        by (simp only: floor_from [OF r(1)] m)
      have "i - i mod 4 < 2 ^ 32" by (rule le_less_trans [OF diff_le_self inside [OF r(2)]])
      then have "unat (word_of_nat (i - i mod 4) :: u32) = i - i mod 4" by (simp only: unat_of_nat) simp
      then show ?thesis unfolding e m [symmetric] using f4 by (intro mapped_read_byte) auto
    qed
    moreover have "4 * (sz div 4) = sz" using sz by simp
    ultimately show ?thesis using 3
      by (simp add: copy_slot_def Let_def direct_chunk_def store_words end_ flip: base_def bm_def)
  qed
qed

lemma copy_slot_space_apply:
  assumes fit: "slots_fit masks sz" and sz: "4 dvd sz" "0 < sz"
  shows "n * sz \<le> 2 ^ 32 \<Longrightarrow> copy_slot_space s masks n sz dst i = (if i < n * sz then view_byte s (masks (i div sz)) i else dst i)"
proof (induction n)
  case (Suc n)
  have "i div sz = n" if "n * sz \<le> i" "i < Suc n * sz" using that by (simp add: div_nat_eqI mult.commute)
  then show ?case using Suc copy_slot_apply [OF fit sz(1), of n s] by (auto simp: copy_slot_space_def)
qed (simp add: copy_slot_space_def)

section \<open>The cached texture copies\<close>

text \<open>A bank answers in one window at a time.\<close>

fun window_of :: "slot \<Rightarrow> nat" where
  "window_of Lcdc = 0" | "window_of (Abg _) = 1" | "window_of (Aobj _) = 2" | "window_of (Bbg _) = 3"
| "window_of (Bobj _) = 4" | "window_of (Abg_ext _) = 5" | "window_of Aobj_ext = 6" | "window_of (Bbg_ext _) = 7"
| "window_of Bobj_ext = 8" | "window_of (Texture _) = 9" | "window_of (Texpal _) = 10" | "window_of (Arm7_wram _) = 11"

definition window_sel :: "nat \<Rightarrow> nat \<Rightarrow> nat" where
  "window_sel b m = (if b < 2 then [0, 1, 2, 9] ! (m mod 4) else if b < 4 then [0, 1, 11, 9, if b = 2 then 3 else 4, 99, 99, 99] ! m
     else if b = 4 then [0, 1, 2, 10, 5, 99, 99, 99] ! m else if b < 7 then [0, 1, 2, 10, 5, 6, 99, 99] ! m
     else if b = 7 then [0, 3, 7, 99] ! (m mod 4) else [0, 3, 4, 8] ! (m mod 4))"

lemma target_window:
  assumes "sl \<in> set (targets b cnt)"
  shows "window_of sl = window_sel b (unat cnt mod 8)"
proof -
  define m where "m = unat cnt mod 8"
  have m: "m < 8" by (simp add: m_def)
  have m4: "m mod 4 < 4" by simp
  consider "b < 2" | "b = 2 \<or> b = 3" | "b = 4" | "b = 5 \<or> b = 6" | "b = 7" | "b > 7" by linarith
  then show ?thesis
  proof cases
    case 1
    from less4_cases [OF m4] 1 assms show ?thesis
      by (elim disjE; auto simp: targets_def Let_def window_sel_def m_def [symmetric] split: if_splits)
  next
    case 2
    from less8_cases [OF m] 2 assms show ?thesis
      by (elim disjE; auto simp: targets_def Let_def window_sel_def m_def [symmetric] split: if_splits)
  next
    case 3
    from less8_cases [OF m] 3 assms show ?thesis
      by (elim disjE; auto simp: targets_def Let_def window_sel_def m_def [symmetric] split: if_splits)
  next
    case 4
    from less8_cases [OF m] 4 assms show ?thesis
      by (elim disjE; auto simp: targets_def Let_def window_sel_def m_def [symmetric] split: if_splits)
  next
    case 5
    from less4_cases [OF m4] 5 assms show ?thesis
      by (elim disjE; auto simp: targets_def Let_def window_sel_def m_def [symmetric] split: if_splits)
  next
    case 6
    from less4_cases [OF m4] 6 assms show ?thesis
      by (elim disjE; auto simp: targets_def Let_def window_sel_def m_def [symmetric] split: if_splits)
  qed
qed

lemma texture_banks:
  assumes "tables_ok s"
  shows "slots_fit (g_texture s) 0x20000" and "slots_fit (g_texpal s) 0x4000"
proof -
  have t: "b < 9 \<and> window_sel b (unat (g_cnt s b) mod 8) = window_of sl" if "bit (banks_at s sl) b" for sl b
    using assms that target_window [of sl b "g_cnt s b"] by (auto simp: tables_ok_def)
  have tex: "b < 4" if "window_sel b m = 9" "m < 8" for b m
    using that less8_cases [OF that(2)] less4_cases [of "m mod 4"] by (auto simp: window_sel_def split: if_splits)
  have pal: "b = 4 \<or> b = 5 \<or> b = 6" if "window_sel b m = 10" "m < 8" for b m
    using that less8_cases [OF that(2)] less4_cases [of "m mod 4"] by (auto simp: window_sel_def split: if_splits)
  have "b < 9 \<and> 0x20000 dvd bank_len b" if "bit (g_texture s k) b" for b k
    using t [of "Texture k" b] tex [of b "unat (g_cnt s b) mod 8"] that less4_cases [of b]
    by (auto simp: bank_len_def kBankSize_def)
  then show "slots_fit (g_texture s) 0x20000" by (simp add: slots_fit_def)
  have "b < 9 \<and> 0x4000 dvd bank_len b" if "bit (g_texpal s k) b" for b k
    using t [of "Texpal k" b] pal [of b "unat (g_cnt s b) mod 8"] that
    by (auto simp: bank_len_def kBankSize_def)
  then show "slots_fit (g_texpal s) 0x4000" by (simp add: slots_fit_def)
qed

lemma flat_copies:
  assumes "tables_ok s"
  shows "nds_vram_copy_texture s dst i = (if i < 0x80000 then view_byte s (g_texture s (i div 0x20000)) i else dst i)"
    and "nds_vram_copy_texpal s dst i = (if i < 0x20000 then view_byte s (g_texpal s (i div 0x4000)) i else dst i)"
  using copy_slot_space_apply [OF texture_banks(1) [OF assms], of 4 s dst i]
    copy_slot_space_apply [OF texture_banks(2) [OF assms], of 8 s dst i]
  by (simp_all add: nds_vram_copy_texture_def nds_vram_copy_texpal_def)

text \<open>The bytes behind the texture and palette slots.\<close>

definition texture_views :: "'a vram_scheme \<Rightarrow> (nat \<Rightarrow> u16) \<times> (nat \<Rightarrow> u16) \<times> (nat \<Rightarrow> nat \<Rightarrow> u8)" where
  "texture_views s = (g_texture s, g_texpal s,
     \<lambda>b i. if \<exists>k. bit (g_texture s k) b \<or> bit (g_texpal s k) b then g_vram s (bank_off b + i mod bank_len b) else 0)"

lemma view_byte_cong:
  assumes "\<And>b. b < 9 \<Longrightarrow> bit bm b \<Longrightarrow> g_vram s (bank_off b + i mod bank_len b) = g_vram t (bank_off b + i mod bank_len b)"
  shows "view_byte s bm i = view_byte t bm i"
  by (rule bit_eqI) (use assms in \<open>auto simp: bit_view_byte\<close>)

lemma texture_views_copies:
  assumes "tables_ok s" "tables_ok t" "texture_views s = texture_views t"
  shows "nds_vram_copy_texture s dst = nds_vram_copy_texture t dst" and "nds_vram_copy_texpal s dst = nds_vram_copy_texpal t dst"
proof -
  have m: "g_texture s = g_texture t" "g_texpal s = g_texpal t" using assms(3) by (simp_all add: texture_views_def)
  have v: "g_vram s (bank_off b + i mod bank_len b) = g_vram t (bank_off b + i mod bank_len b)"
    if "bit (g_texture t k) b \<or> bit (g_texpal t k) b" for b i k
    using assms(3) that unfolding texture_views_def by (auto simp: fun_eq_iff m split: if_splits)
  show "nds_vram_copy_texture s dst = nds_vram_copy_texture t dst" "nds_vram_copy_texpal s dst = nds_vram_copy_texpal t dst"
    using v by (auto simp: fun_eq_iff flat_copies assms(1,2) m intro!: view_byte_cong)
qed

lemma bank_write_vram:
  assumes "b < 9" "aligned a w" "b' < 9" "b \<noteq> b'"
  shows "g_vram (bank_write b a v w s) (bank_off b' + i mod bank_len b') = g_vram s (bank_off b' + i mod bank_len b')"
proof (rule bank_write_outside [OF assms(1,2)])
  have "0 < bank_len b'" using bank_len_power [OF assms(3)] by simp
  then have "i mod bank_len b' < bank_len b'" by simp
  then show "bank_off b' + i mod bank_len b' < bank_off b \<or> bank_off b + bank_len b \<le> bank_off b' + i mod bank_len b'"
    using banks_apart [of b b'] banks_apart [of b' b] assms by (auto simp: neq_iff)
qed

lemma mapped_write_vram:
  fixes s :: "'a vram_scheme"
  assumes "aligned a w" "b' < 9" "\<not> bit bm b'"
  shows "g_vram (mapped_write bm a v w s) (bank_off b' + i mod bank_len b') = g_vram s (bank_off b' + i mod bank_len b')"
proof -
  let ?q = "bank_off b' + i mod bank_len b'"
  have step: "g_vram (if bit bm b then bank_write b a v w u else u) ?q = g_vram u ?q" if "b \<in> set [0..<9]" for b and u :: "'a vram_scheme"
    using that assms bank_write_vram [of b a w b' v u i] by (cases "b = b'") auto
  show ?thesis
    unfolding mapped_write_def
    by (rule fold_keeps [where R = "\<lambda>s t. g_vram t ?q = g_vram s ?q"]) (rule step, simp_all)
qed

lemma texture_bank_apart:
  assumes ok: "tables_ok s" and t: "bit (g_texture s k) b \<or> bit (g_texpal s k) b" and w: "window_of sl \<noteq> 9" "window_of sl \<noteq> 10"
  shows "b < 9 \<and> \<not> bit (banks_at s sl) b"
proof -
  have b: "bit (banks_at s sl') b \<longleftrightarrow> b < 9 \<and> sl' \<in> set (targets b (g_cnt s b))" for sl' using ok by (simp add: tables_ok_def)
  have "window_of sl' = window_of sl''" if "bit (banks_at s sl') b" "bit (banks_at s sl'') b" for sl' sl''
    using that b target_window by metis
  from this [of "Texture k" sl] this [of "Texpal k" sl] show ?thesis using t w b [of "Texture k"] b [of "Texpal k"] by auto
qed

text \<open>Writes to banks that are in no texture slot.\<close>

lemma views_kept:
  assumes "tables_ok s" and "same_mapping s t"
    and "\<And>b i k. bit (g_texture s k) b \<or> bit (g_texpal s k) b \<Longrightarrow>
      g_vram t (bank_off b + i mod bank_len b) = g_vram s (bank_off b + i mod bank_len b)"
  shows "texture_views t = texture_views s"
  using assms(3) by (auto simp: texture_views_def same_mapping_masks [OF assms(2)] fun_eq_iff)

lemma mapped_write_views:
  assumes "tables_ok s" "aligned a w" "window_of sl \<noteq> 9" "window_of sl \<noteq> 10"
  shows "texture_views (mapped_write (banks_at s sl) a v w s) = texture_views s"
  using texture_bank_apart [OF assms(1) _ assms(3,4)]
  by (intro views_kept [OF assms(1) mapped_write_mapping] mapped_write_vram [OF assms(2)]) blast+

lemma lcdc_write_views:
  assumes "tables_ok s" "aligned off w" "b < 9" "bit (g_lcdc s) b"
  shows "texture_views (bank_write b off v w s) = texture_views s"
  using texture_bank_apart [OF assms(1), of _ _ Lcdc] assms(4)
  by (intro views_kept [OF assms(1) bank_write_mapping] bank_write_vram [OF assms(3,2)]) auto

lemma guest_write_views:
  assumes ok: "tables_ok s" and a: "aligned a w"
  shows "texture_views (video_write_at cpu a v w s) = texture_views s"
    and "g_texture_generation (video_write_at cpu a v w s) = g_texture_generation s"
proof -
  have m: "texture_views (mapped_write (g_abg s j) a v w s) = texture_views s" "texture_views (mapped_write (g_bbg s j) a v w s) = texture_views s"
    "texture_views (mapped_write (g_aobj s j) a v w s) = texture_views s" "texture_views (mapped_write (g_bobj s j) a v w s) = texture_views s"
    "texture_views (mapped_write (g_arm7 s j) a v w s) = texture_views s" for j
    using mapped_write_views [OF ok a, of "Abg j" v] mapped_write_views [OF ok a, of "Bbg j" v] mapped_write_views [OF ok a, of "Aobj j" v]
      mapped_write_views [OF ok a, of "Bobj j" v] mapped_write_views [OF ok a, of "Arm7_wram j" v] by simp_all
  have l: "texture_views (bank_write b off v w s) = texture_views s" if "lcdc_bank a = Some (b, off)" "bit (g_lcdc s) b" for b off
    using lcdc_bank_aligned [OF that(1) a] lcdc_write_views [OF ok _ _ that(2)] by blast
  have p: "texture_views (s\<lparr>g_palette := f\<rparr>) = texture_views s" "texture_views (s\<lparr>g_oam := f\<rparr>) = texture_views s" for f
    by (simp_all add: texture_views_def cong: if_cong)
  show "texture_views (video_write_at cpu a v w s) = texture_views s"
    using m p l by (auto simp: video_write_at_def arm9_vram_write_def split: option.split)
  show "g_texture_generation (video_write_at cpu a v w s) = g_texture_generation s"
    by (simp add: video_write_at_def arm9_vram_write_def split: option.split)
qed

text \<open>Every operation but a load either counts a generation or leaves the texture slots as they are.\<close>

fun valid_op :: "vram_op \<Rightarrow> bool" where
  "valid_op (Guest_write cpu addr v width) = (width \<in> {1, 2, 4})"
| "valid_op (Load_section i) = False"
| "valid_op _ = True"

lemma capture_generation: "g_texture_generation (fst (fold (capture_pixel b) px (s, a))) = g_texture_generation s"
proof -
  have "(\<lambda>x y. g_texture_generation (fst y) = g_texture_generation (fst x)) (s, a) (fold (capture_pixel b) px (s, a))"
    by (rule fold_keeps) (auto simp: capture_pixel_def)
  then show ?thesis by simp
qed

lemma vram_do_views:
  assumes G: "gpu2d_idle G" and ok: "mapping_ok s" and v: "valid_op opr"
  shows "g_texture_generation (vram_do G opr s) = g_texture_generation s + 1
    \<or> g_texture_generation (vram_do G opr s) = g_texture_generation s \<and> texture_views (vram_do G opr s) = texture_views s"
proof (cases opr)
  case (Map_bank bank x)
  then show ?thesis using G by (auto simp: nds_vram_map_def Let_def nds_gpu2d_memory_fence_def gpu2d_idle_def)
next
  case (Guest_write cpu addr x width)
  then show ?thesis using guest_write_views [of s "addr AND NOT (word_of_nat width - 1)" width cpu x] ok v
    by (simp add: idle_write [OF G] mapping_ok_def align_down_aligned)
next
  case (Capture_line bank addr px)
  then show ?thesis by (auto simp: apply_staged_capture_def nds_vram_note_capture_write_def capture_generation)
qed (use G v in \<open>auto simp: nds_vram_reset_def idle_read vram_savestate_export_def Let_def nds_gpu2d_read_fence_def gpu2d_idle_def\<close>)

lemma vram_fold_views:
  assumes G: "gpu2d_idle G"
  shows "mapping_ok s \<Longrightarrow> \<forall>opr\<in>set ops. valid_op opr \<Longrightarrow>
    \<exists>k\<le>length ops. g_texture_generation (fold (vram_do G) ops s) = g_texture_generation s + word_of_nat k
      \<and> (k = 0 \<longrightarrow> texture_views (fold (vram_do G) ops s) = texture_views s)"
proof (induction ops arbitrary: s)
  case Nil
  then show ?case by simp
next
  case (Cons x ops)
  have ok: "mapping_ok (vram_do G x s)" using vram_do_mapping [OF idle_fences_keep [OF G] Cons.prems(1)] .
  obtain k where k: "k \<le> length ops"
    "g_texture_generation (fold (vram_do G) ops (vram_do G x s)) = g_texture_generation (vram_do G x s) + word_of_nat k"
    "k = 0 \<longrightarrow> texture_views (fold (vram_do G) ops (vram_do G x s)) = texture_views (vram_do G x s)"
    using Cons.IH [OF ok] Cons.prems(2) by auto
  have "valid_op x" using Cons.prems(2) by simp
  from vram_do_views [OF G Cons.prems(1) this] show ?case
  proof
    assume "g_texture_generation (vram_do G x s) = g_texture_generation s + 1"
    then show ?thesis using k by (intro exI [of _ "Suc k"]) simp
  next
    assume "g_texture_generation (vram_do G x s) = g_texture_generation s \<and> texture_views (vram_do G x s) = texture_views s"
    then show ?thesis using k by (intro exI [of _ k]) simp
  qed
qed

lemma refresh_flat_blocks:
  "fst (fold (\<lambda>b (flat, dirty).
      if blocks_differ fresh flat b
      then (copy_bytes flat (VRAMDirtyGranularity * b) fresh (VRAMDirtyGranularity * b) VRAMDirtyGranularity, dirty @ [b])
      else (flat, dirty)) [0..<n] (flat, d)) i = (if i < VRAMDirtyGranularity * n then fresh i else flat i)"
proof (induction n)
  case (Suc n)
  then show ?case
    by (auto simp: copy_bytes_def blocks_differ_def case_prod_unfold VRAMDirtyGranularity_def)
qed simp

lemma refresh_flat_exact: "512 dvd n \<Longrightarrow> fst (refresh_flat fresh n flat) i = (if i < n then fresh i else flat i)"
  by (simp add: refresh_flat_def refresh_flat_blocks VRAMDirtyGranularity_def)

definition texture_cache_ok :: "'a vram_scheme \<Rightarrow> flat_cache \<Rightarrow> bool" where
  "texture_cache_ok s c \<longleftrightarrow>
    (flat_gen c = g_texture_generation s \<longrightarrow> (\<forall>i<0x80000. flat_bytes c i = nds_vram_copy_texture s (\<lambda>_. 0) i))"

definition texpal_cache_ok :: "'a vram_scheme \<Rightarrow> flat_cache \<Rightarrow> bool" where
  "texpal_cache_ok s c \<longleftrightarrow>
    (flat_gen c = g_texture_generation s \<longrightarrow> (\<forall>i<0x20000. flat_bytes c i = nds_vram_copy_texpal s (\<lambda>_. 0) i))"

lemma texture_coherent_fresh:
  assumes "texture_cache_ok s c"
  shows "flat_gen (snd (snd (MakeVRAMFlat_TextureCoherent s c))) = g_texture_generation s"
    and "i < 0x80000 \<Longrightarrow> flat_bytes (snd (snd (MakeVRAMFlat_TextureCoherent s c))) i = nds_vram_copy_texture s (\<lambda>_. 0) i"
  using assms refresh_flat_exact [of "0x80000" "nds_vram_copy_texture s (\<lambda>_. 0)" "flat_bytes c" i]
  by (auto simp: MakeVRAMFlat_TextureCoherent_def texture_cache_ok_def Let_def case_prod_unfold)

lemma texpal_coherent_fresh:
  assumes "texpal_cache_ok s c"
  shows "flat_gen (snd (snd (MakeVRAMFlat_TexPalCoherent s c))) = g_texture_generation s"
    and "i < 0x20000 \<Longrightarrow> flat_bytes (snd (snd (MakeVRAMFlat_TexPalCoherent s c))) i = nds_vram_copy_texpal s (\<lambda>_. 0) i"
  using assms refresh_flat_exact [of "0x20000" "nds_vram_copy_texpal s (\<lambda>_. 0)" "flat_bytes c" i]
  by (auto simp: MakeVRAMFlat_TexPalCoherent_def texpal_cache_ok_def Let_def case_prod_unfold)

text \<open>Fewer than \<open>2 ^ 64\<close> operations cannot bring the generation round to the same number.\<close>

lemma same_generation_same_textures:
  assumes G: "gpu2d_idle G" and ok: "mapping_ok s" and ops: "\<forall>opr\<in>set ops. valid_op opr" "length ops < 2 ^ 64"
    and gen: "g_texture_generation (fold (vram_do G) ops s) = g_texture_generation s"
  shows "texture_views (fold (vram_do G) ops s) = texture_views s"
proof -
  obtain k where k: "k \<le> length ops" "g_texture_generation (fold (vram_do G) ops s) = g_texture_generation s + word_of_nat k"
    "k = 0 \<longrightarrow> texture_views (fold (vram_do G) ops s) = texture_views s"
    using vram_fold_views [OF G ok ops(1)] by blast
  have "(word_of_nat k :: u64) = 0" using k(2) gen by simp
  then have "k mod 2 ^ 64 = 0" using unat_of_nat [of k, where ?'a = 64] by simp
  then show ?thesis using k(1,3) ops(2) by simp
qed

text \<open>
  C3. Texture cache.  The renderer keeps flat copies of the texture and texture-palette slots and
  refreshes one only when the generation counter moved.  That is never too late: in any state reached by
  any operations, once a copy has been refreshed, and after any further operations except a savestate
  load (fewer than 2^64 of them: remaps, guest stores through every window, captures, resets), the next
  refresh leaves exactly the bytes of the slots as they are mapped then, the combination of all banks
  where several overlap.
\<close>

theorem texture_cache_never_stale:
  assumes G: "gpu2d_idle G" and ops: "\<forall>opr\<in>set later. valid_op opr" "length later < 2 ^ 64"
    and c: "texture_cache_ok (vram_run G ops s) c" and p: "texpal_cache_ok (vram_run G ops s) p"
  shows "let t = vram_run G ops s; u = fold (vram_do G) later t;
      c' = snd (snd (MakeVRAMFlat_TextureCoherent t c)); p' = snd (snd (MakeVRAMFlat_TexPalCoherent t p)) in
    (\<forall>i<0x80000. flat_bytes (snd (snd (MakeVRAMFlat_TextureCoherent u c'))) i = view_byte u (g_texture u (i div 0x20000)) i) \<and>
    (\<forall>i<0x20000. flat_bytes (snd (snd (MakeVRAMFlat_TexPalCoherent u p'))) i = view_byte u (g_texpal u (i div 0x4000)) i)"
proof -
  define t u where "t = vram_run G ops s" and "u = fold (vram_do G) later t"
  define c' p' where "c' = snd (snd (MakeVRAMFlat_TextureCoherent t c))" and "p' = snd (snd (MakeVRAMFlat_TexPalCoherent t p))"
  have t: "mapping_ok t" using vram_run_mapping [OF idle_fences_keep [OF G]] by (simp add: t_def)
  have "mapping_ok x \<Longrightarrow> mapping_ok (fold (vram_do G) xs x)" for xs x
    by (induction xs arbitrary: x) (simp_all add: vram_do_mapping [OF idle_fences_keep [OF G]])
  then have u: "mapping_ok u" using t by (simp add: u_def)
  note tc = texture_coherent_fresh [OF c [folded t_def], folded c'_def]
  note tp = texpal_coherent_fresh [OF p [folded t_def], folded p'_def]
  have same: "texture_views u = texture_views t" if "g_texture_generation u = g_texture_generation t"
    unfolding u_def by (rule same_generation_same_textures [OF G t ops that [unfolded u_def]])
  have "texture_cache_ok u c'" "texpal_cache_ok u p'"
    using tc tp texture_views_copies [of u t "\<lambda>_. 0"] same t u
    by (auto simp: texture_cache_ok_def texpal_cache_ok_def mapping_ok_def)
  then show ?thesis
    using texture_coherent_fresh(2) [of u c'] texpal_coherent_fresh(2) [of u p'] flat_copies [of u] u
    by (simp add: Let_def mapping_ok_def flip: t_def u_def c'_def p'_def)
qed

section \<open>The savestate section\<close>

lemma copy_onto_map: "copy_onto (map f [0..<n]) g h i = (if i < n then h (f i) else g i)"
  by (simp add: copy_onto_def)

lemma export_valid:
  assumes G: "gpu2d_idle G" and ok: "mapping_ok s" and g: "g_texture_generation s \<noteq> 0"
  shows "vram_savestate_validate (fst (vram_savestate_export G s)) = Inr ()"
proof -
  have "nds_gpu2d_read_fence G s = s" using G by (simp add: nds_gpu2d_read_fence_def gpu2d_idle_def)
  moreover have "\<forall>b<9. sanitize b (g_cnt s b) = g_cnt s b" using ok by (simp add: mapping_ok_def)
  ultimately show ?thesis using g
    by (auto simp: vram_savestate_validate_def vram_savestate_export_def Let_def simp del: upt_rec_numeral split: if_splits)
qed

lemma masks_by_slot:
  "(\<And>sl. banks_at s sl = banks_at t sl) \<Longrightarrow>
    g_abg s = g_abg t \<and> g_aobj s = g_aobj t \<and> g_bbg s = g_bbg t \<and> g_bobj s = g_bobj t"
  by (metis ext banks_at.simps(2-5))

lemma rebuild_frame: "g_vram (fold (rebuild_step i) xs s) = g_vram s \<and> g_vram_written (fold (rebuild_step i) xs s) = g_vram_written s
    \<and> g_vram_generation (fold (rebuild_step i) xs s) = g_vram_generation s \<and> g_palette (fold (rebuild_step i) xs s) = g_palette s
    \<and> g_oam (fold (rebuild_step i) xs s) = g_oam s"
proof (induction xs arbitrary: s)
  case (Cons b xs)
  have "g_vram (rebuild_step i b s) = g_vram s \<and> g_vram_written (rebuild_step i b s) = g_vram_written s
    \<and> g_vram_generation (rebuild_step i b s) = g_vram_generation s \<and> g_palette (rebuild_step i b s) = g_palette s
    \<and> g_oam (rebuild_step i b s) = g_oam s"
    using apply_map_frame [of b "vs_vramcnt i b" True "s\<lparr>g_cnt := (g_cnt s)(b := vs_vramcnt i b)\<rparr>"]
    by (simp add: rebuild_step_def beyond_maps_def)
  then show ?case using Cons by simp
qed simp

text \<open>
  Video memory savestate.  Loading what was saved, into a machine in any state, is accepted and
  restores every byte of the banks, their execute provenance and page generations, palette and OAM, the
  control registers, every window table, the generation counter, and both renderers' direct pointers;
  the counter of the saved machine must not have wrapped to zero, which validation rejects.
\<close>

lemma vram_savestate_restores:
  assumes G: "gpu2d_idle G" and gen: "g_texture_generation (vram_run G ops s) \<noteq> 0"
  shows "let t = vram_run G ops s; (r, u) = vram_savestate_import G (fst (vram_savestate_export G t)) w in
    r = Inr () \<and> (\<forall>sl. banks_at u sl = banks_at t sl) \<and> (\<forall>b<9. g_cnt u b = g_cnt t b)
    \<and> (\<forall>i<unat kTotalVram. g_vram u i = g_vram t i \<and> g_vram_written u i = g_vram_written t i)
    \<and> (\<forall>p<kExecPageCount. g_vram_generation u p = g_vram_generation t p)
    \<and> (\<forall>i<0x800. g_palette u i = g_palette t i \<and> g_oam u i = g_oam t i)
    \<and> g_texture_generation u = g_texture_generation t
    \<and> (\<forall>e. nds_vram_renderer_view e u = nds_vram_renderer_view e t)"
proof -
  define t where "t = vram_run G ops s"
  define i where "i = fst (vram_savestate_export G t)"
  have t: "mapping_ok t" using vram_run_mapping [OF idle_fences_keep [OF G]] by (simp add: t_def)
  have id: "drain G c x = x" "nds_gpu2d_read_fence G x = x" for c x
    using G by (simp_all add: nds_gpu2d_read_fence_def gpu2d_idle_def)
  have ex: "vs_vram i = map (g_vram t) [0..<unat kTotalVram]"
      "vs_written i = map (\<lambda>j. if g_vram_written t j then 1 else 0) [0..<unat kTotalVram]"
      "vs_exec_generation i = map (g_vram_generation t) [0..<kExecPageCount]"
      "vs_palette i = map (g_palette t) [0..<0x800]" "vs_oam i = map (g_oam t) [0..<0x800]"
      "vs_vramcnt i = g_cnt t" "vs_texture_generation i = g_texture_generation t"
    by (simp_all add: i_def vram_savestate_export_def Let_def id del: upt_rec_numeral)
  define z where "z = w\<lparr>g_vram := copy_onto (vs_vram i) (g_vram w) id,
             g_vram_written := copy_onto (vs_written i) (g_vram_written w) (\<lambda>v. v \<noteq> 0),
             g_vram_generation := copy_onto (vs_exec_generation i) (g_vram_generation w) id,
             g_palette := copy_onto (vs_palette i) (g_palette w) id,
             g_oam := copy_onto (vs_oam i) (g_oam w) id,
             g_cnt := \<lambda>_. 0, g_lcdc := 0, g_abg := \<lambda>_. 0, g_aobj := \<lambda>_. 0, g_bbg := \<lambda>_. 0, g_bobj := \<lambda>_. 0,
             g_abg_ext := \<lambda>_. 0, g_aobj_ext := 0, g_bbg_ext := \<lambda>_. 0, g_bobj_ext := 0, g_texture := \<lambda>_. 0,
             g_texpal := \<lambda>_. 0, g_arm7 := \<lambda>_. 0\<rparr>"
  have none: "\<not> bit (banks_at z sl) b" for sl b by (cases sl) (simp_all add: z_def)
  define y where "y = fold (rebuild_step i) [0..<9] z"
  define u where "u = refresh_renderer_views (y\<lparr>g_texture_generation := vs_texture_generation i\<rparr>)"
  have imp: "vram_savestate_import G i w = (Inr (), u)"
    using export_valid [OF G t gen [folded t_def], folded i_def]
    by (simp add: vram_savestate_import_def Let_def id u_def y_def z_def rebuild_step_def [abs_def] del: upt_rec_numeral)
  have banks: "banks_at u sl = banks_at t sl" for sl
    by (rule bit_eqI) (use t rebuild_tables [OF order_refl none, of i] in \<open>simp add: u_def y_def ex mapping_ok_def tables_ok_def\<close>)
  have cnt: "g_cnt u b = g_cnt t b" if "b < 9" for b using that rebuild_cnt [of i 9 z b] by (simp add: u_def y_def ex)
  have ru: "refresh_renderer_views u = u" by (simp add: u_def)
  have rt: "refresh_renderer_views t = t" using t by (simp add: mapping_ok_def)
  have "g_renderer_view u e = g_renderer_view t e" if "e = 0 \<or> e = 1" for e
    using fun_cong [OF ru [unfolded refreshed_iff], of e] fun_cong [OF rt [unfolded refreshed_iff], of e]
      masks_by_slot [of u t, OF banks] that by auto
  then have view: "nds_vram_renderer_view e u = nds_vram_renderer_view e t" for e
    unfolding nds_vram_renderer_view_def by (metis not_mod_2_eq_0_eq_1)
  have f: "g_vram u = g_vram z" "g_vram_written u = g_vram_written z" "g_vram_generation u = g_vram_generation z"
    "g_palette u = g_palette z" "g_oam u = g_oam z" "g_texture_generation u = g_texture_generation t"
    using rebuild_frame [of i "[0..<9]" z] by (simp_all add: u_def refresh_renderer_views_def ex flip: y_def)
  have zz: "g_vram z = copy_onto (vs_vram i) (g_vram w) id" "g_vram_written z = copy_onto (vs_written i) (g_vram_written w) (\<lambda>v. v \<noteq> 0)"
    "g_vram_generation z = copy_onto (vs_exec_generation i) (g_vram_generation w) id"
    "g_palette z = copy_onto (vs_palette i) (g_palette w) id" "g_oam z = copy_onto (vs_oam i) (g_oam w) id" by (simp_all add: z_def)
  show ?thesis
    by (simp add: Let_def imp banks cnt view f zz ex copy_onto_map flip: t_def i_def del: upt_rec_numeral)
qed

section \<open>Concrete runs\<close>

definition vram_boot :: vram where
  "vram_boot = \<lparr>g_lcdc = 0, g_abg = \<lambda>_. 0, g_aobj = \<lambda>_. 0, g_bbg = \<lambda>_. 0, g_bobj = \<lambda>_. 0, g_abg_ext = \<lambda>_. 0, g_aobj_ext = 0,
     g_bbg_ext = \<lambda>_. 0, g_bobj_ext = 0, g_texture = \<lambda>_. 0, g_texpal = \<lambda>_. 0, g_arm7 = \<lambda>_. 0, g_vram = \<lambda>_. 0,
     g_vram_written = \<lambda>_. False, g_vram_generation = \<lambda>_. 0, g_palette = \<lambda>_. 0, g_oam = \<lambda>_. 0, g_cnt = \<lambda>_. 0,
     g_renderer_view = \<lambda>_. empty_view, g_texture_generation = 1, powercontrol9 = 0\<rparr>"

definition inline_gpu2d :: "vram gpu2d" where
  "inline_gpu2d = \<lparr>jobs_outstanding = \<lambda>_. False, staged_captures = \<lambda>_. False, drain = \<lambda>_ s. s\<rparr>"

lemma inline_idle: "gpu2d_idle inline_gpu2d"
  by (simp add: gpu2d_idle_def inline_gpu2d_def)

lemma vram_tables_follow_registers_witness:
  "bit (banks_at (vram_run inline_gpu2d [Map_bank 0 0x83] vram_boot) (Texture 0)) 0 \<longleftrightarrow>
    Texture 0 \<in> set (targets 0 (g_cnt (vram_run inline_gpu2d [Map_bank 0 0x83] vram_boot) 0))"
  using vram_tables_follow_registers [OF idle_fences_keep [OF inline_idle], of "[Map_bank 0 0x83]" vram_boot "Texture 0" 0]
  by simp

lemma video_store_read_back_witness:
  "fst (nds_video_read inline_gpu2d ARM9 0x06800002 2
      (nds_video_write inline_gpu2d ARM9 0x06800002 0x12345 2 (vram_run inline_gpu2d [Map_bank 0 0x80] vram_boot))) = 0x2345"
proof -
  have "bit (g_lcdc (vram_run inline_gpu2d [Map_bank 0 0x80] vram_boot)) 0"
    by (simp add: vram_run_def nds_vram_reset_def refresh_renderer_views_def vram_boot_def nds_vram_map_def sanitize_def
        nds_gpu2d_memory_fence_def inline_gpu2d_def apply_map_def map_ab_def lcdc_set_def bitset_def bank_bit_def Let_def)
  then have "video_writable ARM9 (0x06800002 AND NOT (word_of_nat 2 - 1)) 2 (vram_run inline_gpu2d [Map_bank 0 0x80] vram_boot)"
    by (simp add: video_writable_def window_mask_def lcdc_bank_def)
  then show ?thesis
    using video_store_read_back [OF inline_idle, where width = 2 and cpu = ARM9 and addr = "0x06800002" and v = "0x12345"
      and s = "vram_run inline_gpu2d [Map_bank 0 0x80] vram_boot"]
    by (simp add: mask_eq_exp_minus_1)
qed

lemma texture_cache_never_stale_witness:
  "\<exists>c. flat_bytes (snd (snd (MakeVRAMFlat_TextureCoherent (fold (vram_do inline_gpu2d) [Map_bank 0 0x83] (vram_run inline_gpu2d [] vram_boot)) c))) 0
    = view_byte (fold (vram_do inline_gpu2d) [Map_bank 0 0x83] (vram_run inline_gpu2d [] vram_boot))
        (g_texture (fold (vram_do inline_gpu2d) [Map_bank 0 0x83] (vram_run inline_gpu2d [] vram_boot)) 0) 0"
proof -
  have g: "g_texture_generation (vram_run inline_gpu2d [] vram_boot) = 2" by (simp add: vram_run_def nds_vram_reset_def vram_boot_def)
  have "texture_cache_ok (vram_run inline_gpu2d [] vram_boot) \<lparr>flat_gen = 0, flat_bytes = \<lambda>_. 7\<rparr>"
    "texpal_cache_ok (vram_run inline_gpu2d [] vram_boot) \<lparr>flat_gen = 0, flat_bytes = \<lambda>_. 7\<rparr>"
    by (simp_all add: texture_cache_ok_def texpal_cache_ok_def g)
  from texture_cache_never_stale [OF inline_idle _ _ this, of "[Map_bank 0 0x83]"]
  show ?thesis
    by (intro exI [of _ "snd (snd (MakeVRAMFlat_TextureCoherent (vram_run inline_gpu2d [] vram_boot) \<lparr>flat_gen = 0, flat_bytes = \<lambda>_. 7\<rparr>))"])
      (simp add: Let_def)
qed

lemma vram_savestate_restores_witness:
  "fst (vram_savestate_import inline_gpu2d (fst (vram_savestate_export inline_gpu2d (vram_run inline_gpu2d [] vram_boot))) vram_boot) = Inr ()"
proof -
  have "g_texture_generation (vram_run inline_gpu2d [] vram_boot) \<noteq> 0" by (simp add: vram_run_def nds_vram_reset_def vram_boot_def)
  from vram_savestate_restores [OF inline_idle this, of vram_boot] show ?thesis by (simp add: Let_def case_prod_unfold del: upt_rec_numeral)
qed

end
