(* ===== verification/Bus.thy ===== *)
theory Bus
  imports Cp15 Vram
begin

text \<open>
  The memory bus (\<open>runner/src/bus.cpp\<close>) and the inline fast path generated code uses instead of it
  (\<open>recompiler/armv4t/runtime_arm.h\<close>): the backing stores with their execute provenance, the address
  decode, the slow accesses with video memory, the empty cartridge slot, Wi-Fi and I/O behind them, the
  published windows of the fast path, and the savestate section.  Wi-Fi and I/O registers, the overlay's
  write hook and the re-hash of the static-code guard are parameters; access rings, profiling and debug
  readers are left out.  The theorems are in BusFast.
\<close>

section \<open>State\<close>

datatype backing = Main_ram | Itcm | Dtcm | Shared_wram | Arm7_wram | Arm9_bios | Arm7_bios

text \<open>A pointer into a backing; the page pointer of \<open>win_gen\<close> counts pages.\<close>

record fast_win =
  win_data :: "(backing \<times> nat) option"
  win_written :: "(backing \<times> nat) option"
  win_gen :: "(backing \<times> nat) option"
  win_mask :: u32

text \<open>The timing class of an ARM9 code fetch (\<open>Arm9CodeTiming\<close>), and the last page classified.\<close>

datatype code_timing = Timing_itcm | Timing_cached | Timing_main_ram | Timing_other

record code_timing_cache =
  ct_page :: u32
  ct_generation :: u32
  ct_timing :: code_timing

text \<open>
  \<open>backed\<close> is whether \<open>bus_init\<close> has allocated the stores; \<open>exmemcnt\<close>, \<open>powercontrol7\<close>, \<open>wifiwaitcnt\<close> and
  \<open>g_wramcnt\<close> are registers of \<open>io.cpp\<close>.
\<close>

record bus = cp15 +
  backed :: bool
  ram :: "backing \<Rightarrow> nat \<Rightarrow> u8"
  ram_written :: "backing \<Rightarrow> nat \<Rightarrow> bool"
  ram_generation :: "backing \<Rightarrow> nat \<Rightarrow> u32"
  g_video :: vram
  g_wramcnt :: u8
  exmemcnt :: "nds_cpu \<Rightarrow> u16"
  powercontrol7 :: u16
  wifiwaitcnt :: u16
  g_runtime_deep_trace :: u32
  g_busf_main :: fast_win
  g_busf_wram_lo :: "nds_cpu \<Rightarrow> fast_win"
  g_busf_wram_hi :: "nds_cpu \<Rightarrow> fast_win"
  g_busf_itcm :: fast_win
  g_busf_dtcm :: fast_win
  g_busf_itcm_limit :: u32
  g_busf_dtcm_base :: u32
  g_busf_dtcm_limit :: u32
  g_memt_itcm_limit :: u32
  g_memt_dtcm_base :: u32
  g_memt_dtcm_size :: u32
  g_last_code_pc :: "nds_cpu \<Rightarrow> u32"
  g_last_data_addr :: "nds_cpu \<Rightarrow> u32"
  g_arm9_code_timing :: code_timing_cache
  g_arm9_region_code_timing :: code_timing
  g_arm9_region_code_timing_valid :: bool
  g_arm9_code_pub_gen :: u32
  g_arm9_code_class_shift :: u32
  g_arm9_itcm_code_limit :: u32

text \<open>The devices behind the bus.\<close>

record 's devices =
  dev_gpu2d :: "vram gpu2d"
  wifi_read :: "u32 \<Rightarrow> nat \<Rightarrow> bool \<Rightarrow> 's \<Rightarrow> u32 \<times> 's"
  wifi_write :: "u32 \<Rightarrow> u32 \<Rightarrow> nat \<Rightarrow> bool \<Rightarrow> 's \<Rightarrow> 's"
  io_read :: "u32 \<Rightarrow> nat \<Rightarrow> 's \<Rightarrow> u32 \<times> 's"
  io_write :: "u32 \<Rightarrow> u32 \<Rightarrow> nat \<Rightarrow> 's \<Rightarrow> 's"
  note_live_write :: "u32 \<Rightarrow> nat \<Rightarrow> u32 \<Rightarrow> u32 \<Rightarrow> 's \<Rightarrow> 's"
  identity_live :: "'s \<Rightarrow> nat \<Rightarrow> bool"

definition capacity :: "backing \<Rightarrow> nat" where
  "capacity b = (case b of Main_ram \<Rightarrow> 4 * 1024 * 1024 | Itcm \<Rightarrow> 32 * 1024 | Dtcm \<Rightarrow> 16 * 1024 | Shared_wram \<Rightarrow> 32 * 1024
     | Arm7_wram \<Rightarrow> 64 * 1024 | Arm9_bios \<Rightarrow> 4 * 1024 | Arm7_bios \<Rightarrow> 16 * 1024)"

definition size_of :: "backing \<Rightarrow> 'a bus_scheme \<Rightarrow> nat" where
  "size_of b s = (if backed s then capacity b else 0)"

text \<open>The stores with provenance arrays beside them (\<open>generation_for_ptr\<close>, \<open>written_for_ptr\<close>).\<close>

definition executable :: "backing \<Rightarrow> bool" where
  "executable b \<longleftrightarrow> b \<noteq> Arm9_bios \<and> b \<noteq> Arm7_bios"

definition kPage :: nat where "kPage = 4096"

section \<open>Address decode\<close>

definition or_else :: "'b option \<Rightarrow> 'b option \<Rightarrow> 'b option" where
  "or_else x y = (case x of None \<Rightarrow> y | Some _ \<Rightarrow> x)"

text \<open>\<open>if (o + len <= bytes.size()) return bytes.data() + o\<close>\<close>

definition fits :: "backing \<Rightarrow> u32 \<Rightarrow> u32 \<Rightarrow> 'a bus_scheme \<Rightarrow> (backing \<times> nat) option" where
  "fits b off len s = (if unat (off + len) \<le> size_of b s then Some (b, unat off) else None)"

definition resolve_tcm :: "u32 \<Rightarrow> u32 \<Rightarrow> 'a bus_scheme \<Rightarrow> (backing \<times> nat) option" where
  "resolve_tcm addr len s =
    (let cp = g_cp15 s in
     or_else
       (if itcm_enable cp \<and> itcm_size cp \<noteq> 0 \<and> addr < 0x02000000 \<and> addr < itcm_size cp
        then fits Itcm (addr AND (word_of_nat (size_of Itcm s) - 1)) len s else None)
       (if dtcm_enable cp \<and> dtcm_size cp \<noteq> 0 \<and> addr \<ge> dtcm_base cp \<and> addr - dtcm_base cp < dtcm_size cp
        then fits Dtcm (addr - dtcm_base cp) len s else None))"

definition resolve_shared :: "u32 \<Rightarrow> u32 \<Rightarrow> 'a bus_scheme \<Rightarrow> (backing \<times> nat) option" where
  "resolve_shared addr len s =
    (let mode = g_wramcnt s AND 3 in
     if g_nds_active s = ARM9 then
       if mode = 0 then fits Shared_wram (addr AND 0x7FFF) len s
       else if mode = 1 \<or> mode = 2 then fits Shared_wram ((if mode = 1 then 0x4000 else 0) + (addr AND 0x3FFF)) len s
       else None
     else if mode = 0 then fits Arm7_wram (addr AND 0xFFFF) len s
     else if mode = 1 \<or> mode = 2 then fits Shared_wram ((if mode = 1 then 0 else 0x4000) + (addr AND 0x3FFF)) len s
     else fits Shared_wram (addr AND 0x7FFF) len s)"

definition resolve :: "u32 \<Rightarrow> u32 \<Rightarrow> 'a bus_scheme \<Rightarrow> (backing \<times> nat) option" where
  "resolve addr len s =
    or_else (if g_nds_active s = ARM9 then resolve_tcm addr len s else None)
    (or_else (if addr \<ge> 0x02000000 \<and> addr < 0x03000000 then fits Main_ram (addr AND 0x003FFFFF) len s else None)
    (or_else (if addr \<ge> 0x03000000 \<and> addr < 0x03800000 then resolve_shared addr len s else None)
    (or_else (if addr \<ge> 0x03800000 \<and> addr < 0x04000000 then fits Arm7_wram (addr AND 0x0000FFFF) len s else None)
    (or_else (if g_nds_active s = ARM9 \<and> addr \<ge> 0xFFFF0000 then fits Arm9_bios (addr AND 0x00000FFF) len s else None)
      (if g_nds_active s \<noteq> ARM9 \<and> addr < 0x00004000 then fits Arm7_bios (addr AND 0x00003FFF) len s else None)))))"

section \<open>Windows of the fast path\<close>

definition null_win :: fast_win where
  "null_win = \<lparr>win_data = None, win_written = None, win_gen = None, win_mask = 0\<rparr>"

definition window :: "backing \<Rightarrow> nat \<Rightarrow> u32 \<Rightarrow> fast_win" where
  "window b base m = \<lparr>win_data = Some (b, base), win_written = Some (b, base), win_gen = Some (b, base div kPage), win_mask = m\<rparr>"

definition wram_windows :: "u8 \<Rightarrow> nds_cpu \<Rightarrow> fast_win" where
  "wram_windows mode cpu =
    (if mode = 0 then (if cpu = ARM9 then window Shared_wram 0 0x7FFF else window Arm7_wram 0 0x0000FFFF)
     else if mode = 1 then (if cpu = ARM9 then window Shared_wram 0x4000 0x3FFF else window Shared_wram 0 0x3FFF)
     else if mode = 2 then (if cpu = ARM9 then window Shared_wram 0 0x3FFF else window Shared_wram 0x4000 0x3FFF)
     else (if cpu = ARM9 then null_win else window Shared_wram 0 0x7FFF))"

definition bus_fast_refresh :: "'a bus_scheme \<Rightarrow> 'a bus_scheme" where
  "bus_fast_refresh s =
    (let cp = g_cp15 s;
         s = s\<lparr>g_memt_itcm_limit := (if itcm_enable cp then itcm_size cp else 0), g_memt_dtcm_base := dtcm_base cp,
           g_memt_dtcm_size := (if dtcm_enable cp then dtcm_size cp else 0)\<rparr>
     in if \<not> backed s then
       s\<lparr>g_busf_main := null_win, g_busf_wram_lo := \<lambda>_. null_win, g_busf_wram_hi := \<lambda>_. null_win, g_busf_itcm := null_win,
         g_busf_dtcm := null_win, g_busf_itcm_limit := 0, g_busf_dtcm_base := 0, g_busf_dtcm_limit := 0\<rparr>
     else
       s\<lparr>g_busf_main := window Main_ram 0 0x003FFFFF, g_busf_wram_hi := \<lambda>_. window Arm7_wram 0 0x0000FFFF,
         g_busf_wram_lo := wram_windows (g_wramcnt s AND 3), g_busf_itcm := window Itcm 0 0x00007FFF,
         g_busf_dtcm := window Dtcm 0 0x00003FFF,
         g_busf_itcm_limit := (if itcm_enable cp \<and> itcm_size cp \<noteq> 0 then min (itcm_size cp) 0x02000000 else 0),
         g_busf_dtcm_base := dtcm_base cp,
         g_busf_dtcm_limit := (if dtcm_enable cp \<and> dtcm_size cp \<noteq> 0 then min (dtcm_size cp) (word_of_nat (size_of Dtcm s)) else 0)\<rparr>)"

definition nds_busf_classify :: "u32 \<Rightarrow> 'a bus_scheme \<Rightarrow> (fast_win \<times> u32) option" where
  "nds_busf_classify addr s =
    or_else
      (if g_nds_active s = ARM9 then
         if addr < g_busf_itcm_limit s then Some (g_busf_itcm s, addr AND win_mask (g_busf_itcm s))
         else let d = addr - g_busf_dtcm_base s in if d < g_busf_dtcm_limit s then Some (g_busf_dtcm s, d) else None
       else None)
      (if addr - 0x02000000 < 0x01000000 then Some (g_busf_main s, addr AND win_mask (g_busf_main s))
       else if addr - 0x03000000 < 0x00800000 then
         let w = g_busf_wram_lo s (g_nds_active s) in Some (w, addr AND win_mask w)
       else if addr - 0x03800000 < 0x00800000 then
         let w = g_busf_wram_hi s (g_nds_active s) in Some (w, addr AND win_mask w)
       else None)"

section \<open>Execute provenance\<close>

definition page_generation_for_ptr :: "backing \<times> nat \<Rightarrow> 'a bus_scheme \<Rightarrow> u32" where
  "page_generation_for_ptr p s =
    (if executable (fst p) \<and> snd p div kPage < size_of (fst p) s div kPage then ram_generation s (fst p) (snd p div kPage) else 0)"

definition exec_page_generation_slow :: "u32 \<Rightarrow> 'a bus_scheme \<Rightarrow> u32" where
  "exec_page_generation_slow addr s =
    (case resolve addr 1 s of Some p \<Rightarrow> page_generation_for_ptr p s
     | None \<Rightarrow> nds_vram_exec_page_generation (g_nds_active s) addr (g_video s))"

definition bus_exec_page_generation :: "u32 \<Rightarrow> 'a bus_scheme \<Rightarrow> u32" where
  "bus_exec_page_generation addr s =
    (case nds_busf_classify addr s of
       Some (w, off) \<Rightarrow> (case (win_data w, win_gen w) of
           (Some _, Some (b, page)) \<Rightarrow> ram_generation s b (page + unat off div kPage)
         | _ \<Rightarrow> exec_page_generation_slow addr s)
     | None \<Rightarrow> exec_page_generation_slow addr s)"

definition note_code_write :: "'a bus_scheme devices \<Rightarrow> 'a bus_scheme \<Rightarrow> 'a bus_scheme" where
  "note_code_write V s = runtime_note_code_write (\<lambda>page. bus_exec_page_generation page s) (identity_live V s) s"

definition note_ram_write :: "'a bus_scheme devices \<Rightarrow> backing \<times> nat \<Rightarrow> nat \<Rightarrow> 'a bus_scheme \<Rightarrow> 'a bus_scheme" where
  "note_ram_write V p width s =
    (if \<not> executable (fst p) \<or> width = 0 then s
     else let (b, off) = p;
         gen = fold (\<lambda>page gen. if page < size_of b s div kPage then gen(page := next_generation (gen page)) else gen)
           [off div kPage..<(off + width - 1) div kPage + 1] (ram_generation s b);
         s = note_code_write V (s\<lparr>ram_generation := (ram_generation s)(b := gen)\<rparr>)
       in s\<lparr>ram_written := (ram_written s)(b := fill_bytes (ram_written s b) off (min (size_of b s) (off + width)) True)\<rparr>)"

definition nds_busf_note_write :: "'a bus_scheme devices \<Rightarrow> fast_win \<Rightarrow> nat \<Rightarrow> nat \<Rightarrow> 'a bus_scheme \<Rightarrow> 'a bus_scheme" where
  "nds_busf_note_write V w off width s =
    (case (win_gen w, win_written w) of
       (Some (gb, gp), Some (wb, wo)) \<Rightarrow>
         let gen = fold (\<lambda>page gen. gen(gp + page := next_generation (gen (gp + page))))
               [off div kPage..<(off + width - 1) div kPage + 1] (ram_generation s gb);
             s = note_code_write V (s\<lparr>ram_generation := (ram_generation s)(gb := gen)\<rparr>)
         in s\<lparr>ram_written := (ram_written s)(wb := fill_bytes (ram_written s wb) (wo + off) (wo + off + width) True)\<rparr>
     | _ \<Rightarrow> s)"

section \<open>The empty cartridge slot\<close>

definition gba_slot_selected :: "'a bus_scheme \<Rightarrow> bool" where
  "gba_slot_selected s \<longleftrightarrow> (g_nds_active s = ARM7) = (exmemcnt s ARM9 AND 0x0080 \<noteq> 0)"

definition gba_open_bus_rom16 :: "u32 \<Rightarrow> 'a bus_scheme \<Rightarrow> u16" where
  "gba_open_bus_rom16 addr s =
    (let ex = exmemcnt s (if exmemcnt s ARM9 AND 0x0080 \<noteq> 0 then ARM7 else ARM9) in
     ucast (drop_bit 1 addr AND 0xFFFF) OR ([0xFE08, 0x0000, 0x0000, 0xFFFF] ! unat (drop_bit 2 ex AND 3)))"

definition gba_slot_read :: "u32 \<Rightarrow> nat \<Rightarrow> 'a bus_scheme \<Rightarrow> u32 option" where
  "gba_slot_read addr width s =
    (if addr < 0x08000000 \<or> addr \<ge> 0x0B000000 then None
     else if \<not> gba_slot_selected s then Some 0
     else if addr < 0x0A000000 then
       (let lo = gba_open_bus_rom16 (addr AND NOT 1) s in
        if width = 1 then Some (ucast (drop_bit (8 * unat (addr AND 1)) lo AND 0xFF))
        else if width = 2 then Some (ucast lo)
        else Some (ucast lo OR push_bit 16 (ucast (gba_open_bus_rom16 ((addr AND NOT 3) + 2) s))))
     else Some (if width = 1 then 0xFF else if width = 2 then 0xFFFF else 0xFFFFFFFF))"

definition gba_slot_write :: "u32 \<Rightarrow> bool" where
  "gba_slot_write addr \<longleftrightarrow> addr \<ge> 0x08000000 \<and> addr < 0x0B000000"

definition nds_wifi_address :: "nds_cpu \<Rightarrow> u32 \<Rightarrow> bool" where
  "nds_wifi_address cpu addr \<longleftrightarrow> cpu = ARM7 \<and> addr \<ge> 0x04800000 \<and> addr < 0x04810000"

definition is_io :: "u32 \<Rightarrow> bool" where
  "is_io addr \<longleftrightarrow> addr \<ge> 0x04000000 \<and> addr < 0x05000000"

section \<open>Accesses\<close>

text \<open>The three widths; a value is the zero-extended access.\<close>

definition cast_width :: "nat \<Rightarrow> u32 \<Rightarrow> u32" where
  "cast_width width v = v AND mask (8 * width)"

definition with_video :: "(vram \<Rightarrow> vram) \<Rightarrow> 'a bus_scheme \<Rightarrow> 'a bus_scheme" where
  "with_video f s = s\<lparr>g_video := f (g_video s)\<rparr>"

definition device_read :: "'a bus_scheme devices \<Rightarrow> nat \<Rightarrow> u32 \<Rightarrow> 'a bus_scheme \<Rightarrow> u32 \<times> 'a bus_scheme" where
  "device_read V width addr s =
    (if nds_video_address addr then
       let (v, vr) = nds_video_read (dev_gpu2d V) (g_nds_active s) addr width (g_video s) in (v, s\<lparr>g_video := vr\<rparr>)
     else case gba_slot_read addr width s of Some v \<Rightarrow> (v, s)
     | None \<Rightarrow>
       if nds_wifi_address (g_nds_active s) addr then wifi_read V addr width (powercontrol7 s AND 2 \<noteq> 0) s
       else if is_io addr then io_read V addr width s
       else (0, s))"

definition bus_read_slow :: "'a bus_scheme devices \<Rightarrow> nat \<Rightarrow> u32 \<Rightarrow> 'a bus_scheme \<Rightarrow> u32 \<times> 'a bus_scheme" where
  "bus_read_slow V width addr s =
    (case resolve addr (word_of_nat width) s of
       Some (b, off) \<Rightarrow> (load (ram s b) off width, s)
     | None \<Rightarrow> (let (v, s) = device_read V width addr s in (cast_width width v, s)))"

definition live_window :: "nat \<Rightarrow> u32 \<Rightarrow> bool" where
  "live_window width addr \<longleftrightarrow>
    (if width = 1 then addr \<ge> 0x027E0000 else addr + word_of_nat width > 0x027E0000) \<and> addr < 0x027E0040"

text \<open>A store into a backing: the overlay's hook, the bytes, the provenance.\<close>

definition store_bytes :: "'a bus_scheme devices \<Rightarrow> nat \<Rightarrow> u32 \<Rightarrow> u32 \<Rightarrow> backing \<times> nat \<Rightarrow> 'a bus_scheme \<Rightarrow> 'a bus_scheme" where
  "store_bytes V width addr v p s =
    (let (b, off) = p;
         s = (if live_window width addr then note_live_write V addr width (load (ram s b) off width) v s else s)
     in s\<lparr>ram := (ram s)(b := store (ram s b) off v width)\<rparr>)"

definition device_write :: "'a bus_scheme devices \<Rightarrow> nat \<Rightarrow> u32 \<Rightarrow> u32 \<Rightarrow> 'a bus_scheme \<Rightarrow> 'a bus_scheme" where
  "device_write V width addr v s =
    (if nds_video_address addr
     then with_video (nds_video_write (dev_gpu2d V) (g_nds_active s) addr v width) s
     else if gba_slot_write addr then s
     else if nds_wifi_address (g_nds_active s) addr then wifi_write V addr v width (powercontrol7 s AND 2 \<noteq> 0) s
     else if is_io addr then io_write V addr v width s
     else s)"

definition bus_write_slow :: "'a bus_scheme devices \<Rightarrow> nat \<Rightarrow> u32 \<Rightarrow> u32 \<Rightarrow> 'a bus_scheme \<Rightarrow> 'a bus_scheme" where
  "bus_write_slow V width addr v s =
    (case resolve addr (word_of_nat width) s of
       Some p \<Rightarrow> note_ram_write V p width (store_bytes V width addr v p s)
     | None \<Rightarrow> device_write V width addr v s)"

text \<open>The inline accesses: a window that holds the whole access, or the slow path.\<close>

definition fast_pointer :: "nat \<Rightarrow> u32 \<Rightarrow> 'a bus_scheme \<Rightarrow> (fast_win \<times> u32 \<times> backing \<times> nat) option" where
  "fast_pointer width addr s =
    (if g_runtime_deep_trace s \<noteq> 0 then None
     else case nds_busf_classify addr s of None \<Rightarrow> None
     | Some (w, off) \<Rightarrow> (case win_data w of None \<Rightarrow> None
       | Some (b, base) \<Rightarrow>
           if width = 1 \<or> off + word_of_nat width \<le> win_mask w + 1 then Some (w, off, b, base + unat off) else None))"

definition bus_read :: "'a bus_scheme devices \<Rightarrow> nat \<Rightarrow> u32 \<Rightarrow> 'a bus_scheme \<Rightarrow> u32 \<times> 'a bus_scheme" where
  "bus_read V width addr s =
    (case fast_pointer width addr s of
       Some (w, off, b, p) \<Rightarrow> (load (ram s b) p width, s)
     | None \<Rightarrow> bus_read_slow V width addr s)"

definition bus_write :: "'a bus_scheme devices \<Rightarrow> nat \<Rightarrow> u32 \<Rightarrow> u32 \<Rightarrow> 'a bus_scheme \<Rightarrow> 'a bus_scheme" where
  "bus_write V width addr v s =
    (case fast_pointer width addr s of
       Some (w, off, p) \<Rightarrow> nds_busf_note_write V w (unat off) width (store_bytes V width addr v p s)
     | None \<Rightarrow> bus_write_slow V width addr v s)"

section \<open>Device masters\<close>

definition bus_device_read32 :: "'a bus_scheme devices \<Rightarrow> nds_cpu \<Rightarrow> u32 \<Rightarrow> 'a bus_scheme \<Rightarrow> u32 \<times> 'a bus_scheme" where
  "bus_device_read32 V cpu addr s =
    (let old = g_nds_active s; (v, s) = bus_read V 4 addr (s\<lparr>g_nds_active := cpu\<rparr>) in (v, s\<lparr>g_nds_active := old\<rparr>))"

definition bus_device_write32 :: "'a bus_scheme devices \<Rightarrow> nds_cpu \<Rightarrow> u32 \<Rightarrow> u32 \<Rightarrow> 'a bus_scheme \<Rightarrow> 'a bus_scheme" where
  "bus_device_write32 V cpu addr v s = (bus_write V 4 addr v (s\<lparr>g_nds_active := cpu\<rparr>))\<lparr>g_nds_active := g_nds_active s\<rparr>"

definition bus_device_write16 :: "'a bus_scheme devices \<Rightarrow> nds_cpu \<Rightarrow> u32 \<Rightarrow> u16 \<Rightarrow> 'a bus_scheme \<Rightarrow> 'a bus_scheme" where
  "bus_device_write16 V cpu addr v s = (bus_write V 2 addr (ucast v) (s\<lparr>g_nds_active := cpu\<rparr>))\<lparr>g_nds_active := g_nds_active s\<rparr>"

section \<open>Provenance queries\<close>

definition bus_addr_is_writable_ram :: "u32 \<Rightarrow> 'a bus_scheme \<Rightarrow> bool" where
  "bus_addr_is_writable_ram addr s \<longleftrightarrow>
    (case resolve addr 1 s of Some (b, _) \<Rightarrow> executable b | None \<Rightarrow> False)
    \<or> nds_vram_exec_writable (g_nds_active s) addr (g_video s)"

text \<open>The pieces a range is cut into: none crosses a page.\<close>

definition page_chunk :: "u32 \<Rightarrow> nat \<Rightarrow> nat" where
  "page_chunk at n = min n (kPage - unat (at AND 0xFFF))"

function range_provenance :: "u32 \<Rightarrow> nat \<Rightarrow> 'a bus_scheme \<Rightarrow> bool" where
  "range_provenance at n s =
    (if n = 0 then True
     else let chunk = page_chunk at n in
       case resolve at (word_of_nat chunk) s of
         None \<Rightarrow> nds_vram_range_has_write_provenance (g_nds_active s) at chunk (g_video s)
           \<and> range_provenance (at + word_of_nat chunk) (n - chunk) s
       | Some (b, off) \<Rightarrow> executable b \<and> off + chunk \<le> size_of b s \<and> (\<forall>i\<in>set [off..<off + chunk]. ram_written s b i)
           \<and> range_provenance (at + word_of_nat chunk) (n - chunk) s)"
  by pat_completeness auto

lemma page_chunk_pos: "0 < n \<Longrightarrow> 0 < page_chunk at n"
proof -
  have "unat (at AND 0xFFF) < 4096" by (rule le_less_trans [OF unat_and_le]) simp
  then show "0 < n \<Longrightarrow> 0 < page_chunk at n" by (simp add: page_chunk_def kPage_def)
qed

termination range_provenance
  by (relation "measure (\<lambda>(at, n, s). n)") (use page_chunk_pos in auto)

declare range_provenance.simps [simp del]

definition bus_range_has_write_provenance :: "u32 \<Rightarrow> nat \<Rightarrow> 'a bus_scheme \<Rightarrow> bool" where
  "bus_range_has_write_provenance addr n s \<longleftrightarrow> n \<noteq> 0 \<and> range_provenance addr n s"

definition bus_addr_has_write_provenance :: "u32 \<Rightarrow> 'a bus_scheme \<Rightarrow> bool" where
  "bus_addr_has_write_provenance addr s = bus_range_has_write_provenance addr 1 s"

function live_bytes :: "u32 \<Rightarrow> u8 list \<Rightarrow> 'a bus_scheme \<Rightarrow> bool" where
  "live_bytes at expected s =
    (if expected = [] then True
     else let chunk = page_chunk at (length expected) in
       (case resolve at (word_of_nat chunk) s of
          Some (b, off) \<Rightarrow> map (ram s b) [off..<off + chunk] = take chunk expected
        | None \<Rightarrow> nds_vram_live_bytes_equal (g_nds_active s) at (take chunk expected) (g_video s))
       \<and> live_bytes (at + word_of_nat chunk) (drop chunk expected) s)"
  by pat_completeness auto

termination live_bytes
  by (relation "measure (\<lambda>(at, xs, s). length xs)") (use page_chunk_pos in auto)

declare live_bytes.simps [simp del]

definition bus_live_bytes_equal :: "u32 \<Rightarrow> u8 list \<Rightarrow> 'a bus_scheme \<Rightarrow> bool" where
  "bus_live_bytes_equal addr expected s \<longleftrightarrow> expected \<noteq> [] \<and> live_bytes addr expected s"

record exec_provenance =
  pv_writable :: bool
  pv_written :: bool
  pv_generation :: u32

definition bus_debug_exec_provenance :: "nds_cpu \<Rightarrow> u32 \<Rightarrow> 'a bus_scheme \<Rightarrow> exec_provenance" where
  "bus_debug_exec_provenance cpu addr s =
    (let s = s\<lparr>g_nds_active := cpu\<rparr>; g = bus_exec_page_generation addr s
     in \<lparr>pv_writable = bus_addr_is_writable_ram addr s, pv_written = (g \<noteq> 0), pv_generation = g\<rparr>)"

section \<open>Allocation, images and savestate\<close>

definition reset_arm9_code_timing :: "'a bus_scheme \<Rightarrow> 'a bus_scheme" where
  "reset_arm9_code_timing s = s\<lparr>g_arm9_code_timing := \<lparr>ct_page = 0xFFFFFFFF, ct_generation = 0, ct_timing = Timing_other\<rparr>,
     g_arm9_region_code_timing := Timing_other, g_arm9_region_code_timing_valid := False, g_arm9_code_pub_gen := 0\<rparr>"

definition arm9_code_fast_invalidate :: "'a bus_scheme \<Rightarrow> 'a bus_scheme" where
  "arm9_code_fast_invalidate s = s\<lparr>g_arm9_code_pub_gen := 0\<rparr>"

definition bus_init :: "'a bus_scheme \<Rightarrow> 'a bus_scheme" where
  "bus_init s = bus_fast_refresh ((reset_arm9_code_timing (s\<lparr>g_last_code_pc := \<lambda>_. 0xFFFFFFFF, g_last_data_addr := \<lambda>_. 0xFFFFFFFF\<rparr>))
     \<lparr>backed := True, ram := \<lambda>_ _. 0, ram_generation := \<lambda>_ _. 0, ram_written := \<lambda>_ _. False\<rparr>)"

definition load_image :: "backing \<Rightarrow> u8 list \<Rightarrow> 'a bus_scheme \<Rightarrow> 'a bus_scheme" where
  "load_image b bytes s = (let n = min (length bytes) (size_of b s) in
     s\<lparr>ram := (ram s)(b := (\<lambda>i. if i < n then bytes ! i else ram s b i))\<rparr>)"

definition bus_load_arm9_bios :: "u8 list \<Rightarrow> 'a bus_scheme \<Rightarrow> 'a bus_scheme" where
  "bus_load_arm9_bios = load_image Arm9_bios"

definition bus_load_arm7_bios :: "u8 list \<Rightarrow> 'a bus_scheme \<Rightarrow> 'a bus_scheme" where
  "bus_load_arm7_bios = load_image Arm7_bios"

definition bus_patch_arm9_bios :: "nat \<Rightarrow> u8 list \<Rightarrow> 'a bus_scheme \<Rightarrow> 'a bus_scheme" where
  "bus_patch_arm9_bios off bytes s =
    (if off + length bytes > size_of Arm9_bios s then s
     else s\<lparr>ram := (ram s)(Arm9_bios := (\<lambda>i. if off \<le> i \<and> i < off + length bytes then bytes ! (i - off) else ram s Arm9_bios i))\<rparr>)"

record bus_save =
  bs_ram :: "backing \<Rightarrow> u8 list"
  bs_written :: "backing \<Rightarrow> u8 list"
  bs_generation :: "backing \<Rightarrow> u32 list"

definition backings :: "backing list" where
  "backings = [Main_ram, Itcm, Dtcm, Shared_wram, Arm7_wram, Arm9_bios, Arm7_bios]"

definition bus_savestate_export :: "'a bus_scheme \<Rightarrow> bus_save" where
  "bus_savestate_export s =
    \<lparr>bs_ram = (\<lambda>b. map (ram s b) [0..<size_of b s]),
     bs_written = (\<lambda>b. if executable b then map (\<lambda>i. if ram_written s b i then 1 else 0) [0..<size_of b s] else []),
     bs_generation = (\<lambda>b. if executable b then map (ram_generation s b) [0..<size_of b s div kPage] else [])\<rparr>"

definition bus_savestate_validate :: "bus_save \<Rightarrow> string + unit" where
  "bus_savestate_validate i =
    (if \<exists>b\<in>set backings. length (bs_ram i b) \<noteq> capacity b then Inl ''savestate memory backing size mismatch''
     else if \<exists>b\<in>set backings. executable b \<and> length (bs_written i b) \<noteq> capacity b
       then Inl ''savestate memory provenance size mismatch''
     else if \<exists>b\<in>set backings. executable b \<and> length (bs_generation i b) \<noteq> capacity b div kPage
       then Inl ''savestate memory generation size mismatch''
     else Inr ())"

definition import_bytes :: "'b list \<Rightarrow> ('b \<Rightarrow> 'c) \<Rightarrow> 'c \<Rightarrow> nat \<Rightarrow> 'c" where
  "import_bytes xs f z i = (if i < length xs then f (xs ! i) else z)"

definition bus_savestate_import :: "'a bus_scheme devices \<Rightarrow> bus_save \<Rightarrow> 'a bus_scheme \<Rightarrow> (string + unit) \<times> 'a bus_scheme" where
  "bus_savestate_import V i s =
    (case bus_savestate_validate i of Inl e \<Rightarrow> (Inl e, s)
     | Inr _ \<Rightarrow>
       let s = s\<lparr>backed := True, ram := (\<lambda>b. import_bytes (bs_ram i b) id 0),
             ram_written := (\<lambda>b. import_bytes (bs_written i b) (\<lambda>v. v \<noteq> 0) False),
             ram_generation := (\<lambda>b. import_bytes (bs_generation i b) id 0)\<rparr>
       in (Inr (), note_code_write V (bus_fast_refresh (reset_arm9_code_timing s))))"

section \<open>Who moves the windows\<close>

text \<open>\<open>nds_io_set_wramcnt\<close> and the write of register 0x04000247; CP15 with the refreshes of \<open>cp15.cpp\<close>.\<close>

definition nds_io_set_wramcnt :: "u8 \<Rightarrow> 'a bus_scheme \<Rightarrow> 'a bus_scheme" where
  "nds_io_set_wramcnt v s = bus_fast_refresh (s\<lparr>g_wramcnt := v\<rparr>)"

definition bus_cp15_reset :: "'a bus_scheme \<Rightarrow> 'a bus_scheme" where
  "bus_cp15_reset s = bus_fast_refresh (cp15_reset s)"

definition bus_coproc_write :: "u32 \<Rightarrow> u32 \<Rightarrow> u32 \<Rightarrow> u32 \<Rightarrow> u32 \<Rightarrow> u32 \<Rightarrow> 'a bus_scheme \<Rightarrow> 'a bus_scheme" where
  "bus_coproc_write cp_num op1 crn crm op2 v s =
    (let s = runtime_coproc_write cp_num op1 crn crm op2 v s in
     if cp_num = 15 \<and> (crn = 1 \<and> crm = 0 \<and> op2 = 0 \<or> crn = 9 \<and> crm = 1 \<and> (op2 = 0 \<or> op2 = 1))
     then bus_fast_refresh s else s)"

definition bus_cp15_import :: "cp15_save \<Rightarrow> 'a bus_scheme \<Rightarrow> 'a bus_scheme" where
  "bus_cp15_import i s = arm9_code_fast_invalidate (bus_fast_refresh (cp15_savestate_import i s))"

end
