(* ===== verification/BusFast.thy ===== *)
theory BusFast
  imports Bus
begin

text \<open>
  Correctness of the memory bus: the published windows of the inline fast path against the decode of
  \<open>bus.cpp\<close>. Windows stay what \<open>bus_fast_refresh\<close> computes through every operation (\<open>fresh\<close>); then an inline
  access has the pointer \<open>resolve\<close> finds, and marks the same pages and bytes. Stores read back, and a
  memory image restores every store.
\<close>

section \<open>Fresh windows\<close>

definition fast_ok :: "'a bus_scheme \<Rightarrow> bool" where
  "fast_ok s \<longleftrightarrow> bus_fast_refresh s = s"

text \<open>
  The DTCM span must not run past the end of the address space: \<open>resolve\<close> compares addresses, the
  window a wrapping difference.
\<close>

definition dtcm_fits :: "'a bus_scheme \<Rightarrow> bool" where
  "dtcm_fits s \<longleftrightarrow> (dtcm_enable (g_cp15 s) \<longrightarrow> unat (dtcm_base (g_cp15 s)) + min (unat (dtcm_size (g_cp15 s))) 16384 \<le> 2 ^ 32)"

lemma refresh_fields:
  assumes "fast_ok s" "backed s"
  shows "g_busf_main s = window Main_ram 0 0x003FFFFF" and "g_busf_wram_hi s = (\<lambda>_. window Arm7_wram 0 0x0000FFFF)"
    and "g_busf_wram_lo s = wram_windows (g_wramcnt s AND 3)" and "g_busf_itcm s = window Itcm 0 0x00007FFF"
    and "g_busf_dtcm s = window Dtcm 0 0x00003FFF"
    and "g_busf_itcm_limit s = (if itcm_enable (g_cp15 s) \<and> itcm_size (g_cp15 s) \<noteq> 0 then min (itcm_size (g_cp15 s)) 0x02000000 else 0)"
    and "g_busf_dtcm_base s = dtcm_base (g_cp15 s)"
    and "g_busf_dtcm_limit s = (if dtcm_enable (g_cp15 s) \<and> dtcm_size (g_cp15 s) \<noteq> 0 then min (dtcm_size (g_cp15 s)) 0x4000 else 0)"
proof -
  have r: "bus_fast_refresh s = s" using assms(1) by (simp add: fast_ok_def)
  have "g_busf_main (bus_fast_refresh s) = window Main_ram 0 0x003FFFFF"
    "g_busf_wram_hi (bus_fast_refresh s) = (\<lambda>_. window Arm7_wram 0 0x0000FFFF)"
    "g_busf_wram_lo (bus_fast_refresh s) = wram_windows (g_wramcnt s AND 3)"
    "g_busf_itcm (bus_fast_refresh s) = window Itcm 0 0x00007FFF" "g_busf_dtcm (bus_fast_refresh s) = window Dtcm 0 0x00003FFF"
    "g_busf_itcm_limit (bus_fast_refresh s) = (if itcm_enable (g_cp15 s) \<and> itcm_size (g_cp15 s) \<noteq> 0 then min (itcm_size (g_cp15 s)) 0x02000000 else 0)"
    "g_busf_dtcm_base (bus_fast_refresh s) = dtcm_base (g_cp15 s)"
    "g_busf_dtcm_limit (bus_fast_refresh s) = (if dtcm_enable (g_cp15 s) \<and> dtcm_size (g_cp15 s) \<noteq> 0 then min (dtcm_size (g_cp15 s)) 0x4000 else 0)"
    using assms(2) by (simp_all add: bus_fast_refresh_def Let_def size_of_def capacity_def)
  then show "g_busf_main s = window Main_ram 0 0x003FFFFF" "g_busf_wram_hi s = (\<lambda>_. window Arm7_wram 0 0x0000FFFF)"
    "g_busf_wram_lo s = wram_windows (g_wramcnt s AND 3)" "g_busf_itcm s = window Itcm 0 0x00007FFF"
    "g_busf_dtcm s = window Dtcm 0 0x00003FFF"
    "g_busf_itcm_limit s = (if itcm_enable (g_cp15 s) \<and> itcm_size (g_cp15 s) \<noteq> 0 then min (itcm_size (g_cp15 s)) 0x02000000 else 0)"
    "g_busf_dtcm_base s = dtcm_base (g_cp15 s)"
    "g_busf_dtcm_limit s = (if dtcm_enable (g_cp15 s) \<and> dtcm_size (g_cp15 s) \<noteq> 0 then min (dtcm_size (g_cp15 s)) 0x4000 else 0)"
    by (simp_all only: r)
qed

lemma and_mask_small:
  "unat (a AND 0x7FFF :: u32) < 0x8000" "unat (a AND 0x3FFF :: u32) < 0x4000" "unat (a AND 0xFFFF :: u32) < 0x10000"
  "unat (a AND 0x3FFFFF :: u32) < 0x400000" "unat (a AND 0xFFF :: u32) < 0x1000"
  by (rule unat_and_less; simp)+

lemma fits_iff:
  assumes "backed s" "unat off < 2 ^ 31" "unat len \<le> 2 ^ 31"
  shows "fits b off len s = (if unat off + unat len \<le> capacity b then Some (b, unat off) else None)"
proof -
  have "unat (off + len) = unat off + unat len" using assms(2,3) by (intro unat_add_lem [THEN iffD1]) simp
  then show ?thesis using assms(1) by (simp add: fits_def size_of_def)
qed

lemma capacities [simp]: "capacity Main_ram = 0x400000" "capacity Itcm = 0x8000" "capacity Dtcm = 0x4000" "capacity Shared_wram = 0x8000"
  "capacity Arm7_wram = 0x10000" "capacity Arm9_bios = 0x1000" "capacity Arm7_bios = 0x4000"
  by (simp_all add: capacity_def)

lemma difference_below:
  fixes addr a n :: u32
  assumes "unat a + unat n \<le> 2 ^ 32"
  shows "addr - a < n \<longleftrightarrow> a \<le> addr \<and> unat addr < unat a + unat n"
proof (cases "a \<le> addr")
  case True
  then have "unat (addr - a) = unat addr - unat a" by (rule unat_sub)
  moreover have "unat a \<le> unat addr" using True by (simp add: word_le_nat_alt)
  ultimately show ?thesis using True by (auto simp: word_less_nat_alt)
next
  case False
  then have "unat addr < unat a" by (simp add: word_le_nat_alt)
  then have "unat (addr - a) = 2 ^ 32 + unat addr - unat a"
    using False by (simp add: unat_sub_if')
  then show ?thesis using False assms by (auto simp: word_less_nat_alt)
qed

lemma in_block:
  fixes addr :: u32
  shows "addr - 0x02000000 < 0x01000000 \<longleftrightarrow> addr \<ge> 0x02000000 \<and> addr < 0x03000000"
    and "addr - 0x03000000 < 0x00800000 \<longleftrightarrow> addr \<ge> 0x03000000 \<and> addr < 0x03800000"
    and "addr - 0x03800000 < 0x00800000 \<longleftrightarrow> addr \<ge> 0x03800000 \<and> addr < 0x04000000"
  using difference_below [of "0x02000000" "0x01000000" addr] difference_below [of "0x03000000" "0x00800000" addr]
    difference_below [of "0x03800000" "0x00800000" addr]
  by (simp_all add: word_less_nat_alt)

text \<open>The window's pointer is the resolved one.\<close>

definition width_ok :: "nat \<Rightarrow> bool" where "width_ok w \<longleftrightarrow> w = 1 \<or> w = 2 \<or> w = 4"

lemma tcm_agrees:
  assumes ok: "fast_ok s" "backed s" and d: "dtcm_fits s" and w: "width_ok width"
    and off: "(if addr < g_busf_itcm_limit s then Some (window Itcm 0 0x7FFF, addr AND 0x7FFF)
      else let d = addr - g_busf_dtcm_base s in if d < g_busf_dtcm_limit s then Some (window Dtcm 0 0x3FFF, d) else None) = Some (win, off)"
    and fit: "width = 1 \<or> off + word_of_nat width \<le> win_mask win + 1"
  shows "\<exists>b. win = window b 0 (win_mask win) \<and> resolve_tcm addr (word_of_nat width) s = Some (b, unat off)
    \<and> executable b \<and> unat off + width \<le> capacity b"
proof -
  note f = refresh_fields(6-8) [OF ok]
  have wn: "unat (word_of_nat width :: u32) = width" "width \<le> 4" using w by (auto simp: width_ok_def)
  show ?thesis
  proof (cases "addr < g_busf_itcm_limit s")
    case True
    then have o: "win = window Itcm 0 0x7FFF" "off = addr AND 0x7FFF" using off by simp_all
    have lim: "itcm_enable (g_cp15 s)" "itcm_size (g_cp15 s) \<noteq> 0" "addr < 0x02000000" "addr < itcm_size (g_cp15 s)"
      using True by (auto simp: f split: if_splits)
    have small: "unat off < 0x8000" using and_mask_small(1) by (simp add: o)
    have "unat off + width \<le> 0x8000"
    proof -
      have "unat (off + word_of_nat width) = unat off + width" using small wn by (simp add: unat_word_ariths)
      then show ?thesis using fit small by (auto simp: o window_def word_le_nat_alt)
    qed
    moreover have "word_of_nat (size_of Itcm s) - 1 = (0x7FFF :: u32)" using ok(2) by (simp add: size_of_def)
    ultimately have "resolve_tcm addr (word_of_nat width) s = Some (Itcm, unat off)"
      using lim small wn by (simp add: resolve_tcm_def or_else_def Let_def fits_iff [OF ok(2)] o)
    then show ?thesis using \<open>unat off + width \<le> 0x8000\<close> by (intro exI [of _ Itcm]) (simp add: o window_def executable_def)
  next
    case False
    then have o: "win = window Dtcm 0 0x3FFF" "off = addr - dtcm_base (g_cp15 s)" "off < g_busf_dtcm_limit s"
      using off by (auto simp: Let_def f split: if_splits)
    have lim: "dtcm_enable (g_cp15 s)" "dtcm_size (g_cp15 s) \<noteq> 0" "off < dtcm_size (g_cp15 s)" "off < 0x4000"
      using o(3) by (auto simp: f split: if_splits)
    have small: "unat off < 0x4000" using lim(4) by (simp add: word_less_nat_alt)
    have base: "dtcm_base (g_cp15 s) \<le> addr"
    proof -
      have "unat (min (dtcm_size (g_cp15 s)) 0x4000) = min (unat (dtcm_size (g_cp15 s))) 16384" by (simp add: min_def word_le_nat_alt)
      then have "unat (dtcm_base (g_cp15 s)) + unat (min (dtcm_size (g_cp15 s)) 0x4000) \<le> 2 ^ 32"
        using d lim(1) by (simp add: dtcm_fits_def)
      from difference_below [OF this, of addr] show ?thesis using o(2) lim(3,4) by simp
    qed
    have fit': "unat off + width \<le> 0x4000"
    proof -
      have "unat (off + word_of_nat width) = unat off + width" using small wn by (simp add: unat_word_ariths)
      then show ?thesis using fit small by (auto simp: o(1) window_def word_le_nat_alt)
    qed
    have "\<not> (itcm_enable (g_cp15 s) \<and> itcm_size (g_cp15 s) \<noteq> 0 \<and> addr < 0x02000000 \<and> addr < itcm_size (g_cp15 s))"
      using False by (auto simp: f split: if_splits)
    then have "resolve_tcm addr (word_of_nat width) s = Some (Dtcm, unat off)"
      using lim small wn fit' base by (auto simp: resolve_tcm_def or_else_def Let_def fits_iff [OF ok(2)] o(2))
    then show ?thesis using fit' by (intro exI [of _ Dtcm]) (simp add: o(1) window_def executable_def)
  qed
qed

text \<open>Behind the TCM test both decoders look at the same 16 MB blocks.\<close>

definition map_window :: "u32 \<Rightarrow> 'a bus_scheme \<Rightarrow> (fast_win \<times> u32) option" where
  "map_window addr s =
    (if addr - 0x02000000 < 0x01000000 then Some (g_busf_main s, addr AND win_mask (g_busf_main s))
     else if addr - 0x03000000 < 0x00800000 then
       Some (g_busf_wram_lo s (g_nds_active s), addr AND win_mask (g_busf_wram_lo s (g_nds_active s)))
     else if addr - 0x03800000 < 0x00800000 then
       Some (g_busf_wram_hi s (g_nds_active s), addr AND win_mask (g_busf_wram_hi s (g_nds_active s)))
     else None)"

definition resolve_map :: "u32 \<Rightarrow> u32 \<Rightarrow> 'a bus_scheme \<Rightarrow> (backing \<times> nat) option" where
  "resolve_map addr len s =
    or_else (if addr \<ge> 0x02000000 \<and> addr < 0x03000000 then fits Main_ram (addr AND 0x003FFFFF) len s else None)
    (or_else (if addr \<ge> 0x03000000 \<and> addr < 0x03800000 then resolve_shared addr len s else None)
    (or_else (if addr \<ge> 0x03800000 \<and> addr < 0x04000000 then fits Arm7_wram (addr AND 0x0000FFFF) len s else None)
    (or_else (if g_nds_active s = ARM9 \<and> addr \<ge> 0xFFFF0000 then fits Arm9_bios (addr AND 0x00000FFF) len s else None)
      (if g_nds_active s \<noteq> ARM9 \<and> addr < 0x00004000 then fits Arm7_bios (addr AND 0x00003FFF) len s else None))))"

lemma resolve_split: "resolve addr len s = or_else (if g_nds_active s = ARM9 then resolve_tcm addr len s else None) (resolve_map addr len s)"
  by (simp add: resolve_def resolve_map_def)

lemma window_simps [simp]:
  "win_data (window b base m) = Some (b, base)" "win_written (window b base m) = Some (b, base)"
  "win_gen (window b base m) = Some (b, base div kPage)" "win_mask (window b base m) = m" "win_data null_win = None"
  by (simp_all add: window_def null_win_def)

lemma wram_window_cases:
  fixes m :: u8
  shows "m AND 3 = 0 \<or> m AND 3 = 1 \<or> m AND 3 = 2 \<or> m AND 3 = 3"
proof -
  have "unat (m AND 3) < 4" by (rule unat_and_less) simp
  then have "unat (m AND 3) = 0 \<or> unat (m AND 3) = 1 \<or> unat (m AND 3) = 2 \<or> unat (m AND 3) = 3" by linarith
  then show ?thesis by (simp add: word_unat_eq_iff)
qed

text \<open>A window with its page offset: within the backing, page aligned.\<close>

definition agrees :: "nat \<Rightarrow> fast_win \<Rightarrow> u32 \<Rightarrow> (backing \<times> nat) option \<Rightarrow> bool" where
  "agrees width win off p \<longleftrightarrow> (\<exists>b base. win = window b base (win_mask win) \<and> p = Some (b, base + unat off) \<and> executable b
     \<and> 4096 dvd base \<and> base + unat off + width \<le> capacity b)"

lemma fit_bound:
  fixes off m :: u32
  assumes "width = 1 \<or> off + word_of_nat width \<le> m + 1" and "width_ok width" "unat off \<le> unat m" "unat m < 2 ^ 31"
  shows "unat off + width \<le> unat m + 1"
proof -
  have wn: "unat (word_of_nat width :: u32) = width" "width \<le> 4" using assms(2) by (auto simp: width_ok_def)
  then have "unat (off + word_of_nat width) = unat off + width" "unat (m + 1) = unat m + 1"
    using assms(3,4) by (simp_all add: unat_word_ariths)
  then show ?thesis using assms(1,3) by (auto simp: word_le_nat_alt)
qed

lemma map_agrees:
  assumes ok: "fast_ok s" "backed s" and w: "width_ok width" and off: "map_window addr s = Some (win, off)"
    and data: "win_data win \<noteq> None" and fit: "width = 1 \<or> off + word_of_nat width \<le> win_mask win + 1"
  shows "agrees width win off (resolve_map addr (word_of_nat width) s)"
proof -
  note f = refresh_fields(1-3) [OF ok]
  have wn: "unat (word_of_nat width :: u32) = width" "width \<le> 4" using w by (auto simp: width_ok_def)
  have le: "unat (addr AND m) \<le> unat m" for m by (rule unat_and_le)
  note fi = fits_iff [OF ok(2)]
  consider (main) "addr \<ge> 0x02000000" "addr < 0x03000000" | (lo) "addr \<ge> 0x03000000" "addr < 0x03800000"
    | (hi) "addr \<ge> 0x03800000" "addr < 0x04000000"
    using off by (auto simp: map_window_def in_block split: if_splits)
  then show ?thesis
  proof cases
    case main
    then have o: "win = window Main_ram 0 0x3FFFFF" "off = addr AND 0x3FFFFF" using off by (simp_all add: map_window_def in_block f)
    have b: "unat off + width \<le> 0x400000"
      using fit_bound [OF fit w] le [of "0x3FFFFF"] by (simp add: o)
    then have "resolve_map addr (word_of_nat width) s = Some (Main_ram, unat off)"
      using main wn and_mask_small(4) [of addr] by (simp add: resolve_map_def or_else_def fi o(2))
    then show ?thesis using b by (auto simp: agrees_def o(1) executable_def intro!: exI [of _ Main_ram] exI [of _ 0])
  next
    case hi
    then have n: "\<not> addr < 0x03000000" "\<not> addr < 0x03800000" by (simp_all add: word_le_nat_alt word_less_nat_alt)
    then have o: "win = window Arm7_wram 0 0xFFFF" "off = addr AND 0xFFFF" using off hi by (simp_all add: map_window_def in_block f)
    have b: "unat off + width \<le> 0x10000"
      using fit_bound [OF fit w] le [of "0xFFFF"] by (simp add: o)
    then have "resolve_map addr (word_of_nat width) s = Some (Arm7_wram, unat off)"
      using hi n wn and_mask_small(3) [of addr] by (simp add: resolve_map_def or_else_def fi o(2))
    then show ?thesis using b by (auto simp: agrees_def o(1) executable_def intro!: exI [of _ Arm7_wram] exI [of _ 0])
  next
    case lo
    then have n: "\<not> addr < 0x03000000" by (simp add: word_le_nat_alt word_less_nat_alt)
    define mode where "mode = g_wramcnt s AND 3"
    have m: "mode = 0 \<or> mode = 1 \<or> mode = 2 \<or> mode = 3" unfolding mode_def by (rule wram_window_cases)
    have "map_window addr s = Some (wram_windows mode (g_nds_active s), addr AND win_mask (wram_windows mode (g_nds_active s)))"
      using lo n by (simp add: map_window_def in_block f flip: mode_def)
    then have wo: "Some (wram_windows mode (g_nds_active s), addr AND win_mask (wram_windows mode (g_nds_active s))) = Some (win, off)"
      using off by simp
    have o1: "win = wram_windows mode (g_nds_active s)" using wo by simp
    have o: "win = wram_windows mode (g_nds_active s)" "off = addr AND win_mask win" using wo by (simp_all add: o1)
    have b: "unat off + width \<le> unat (win_mask win) + 1" if "unat (win_mask win) < 2 ^ 31"
      using fit_bound [OF fit w _ that] le [of "win_mask win"] by (simp add: o(2))
    have r: "resolve_map addr (word_of_nat width) s = resolve_shared addr (word_of_nat width) s" if "resolve_shared addr (word_of_nat width) s \<noteq> None"
      using lo n that by (auto simp: resolve_map_def or_else_def split: option.split)
    have "agrees width win off (resolve_shared addr (word_of_nat width) s)"
    proof (cases "g_nds_active s")
      case ARM9
      from m show ?thesis
      proof (elim disjE)
        assume "mode = 0"
        then have "win = window Shared_wram 0 0x7FFF" by (simp add: o(1) wram_windows_def ARM9)
        then show ?thesis using b wn and_mask_small(1) [of addr] \<open>mode = 0\<close>
          by (auto simp: agrees_def executable_def resolve_shared_def Let_def ARM9 fi o(2) simp flip: mode_def
              intro!: exI [of _ Shared_wram] exI [of _ 0])
      next
        assume "mode = 1"
        moreover have "unat (0x4000 + (addr AND 0x3FFF)) = 0x4000 + unat (addr AND 0x3FFF)"
          using and_mask_small(2) [of addr] by (simp add: unat_word_ariths)
        moreover have "win = window Shared_wram 0x4000 0x3FFF" using calculation by (simp add: o(1) wram_windows_def ARM9)
        ultimately show ?thesis using b wn and_mask_small(2) [of addr]
          by (auto simp: agrees_def executable_def resolve_shared_def Let_def ARM9 fi o(2) simp flip: mode_def
              intro!: exI [of _ Shared_wram] exI [of _ "0x4000"])
      next
        assume "mode = 2"
        then have "win = window Shared_wram 0 0x3FFF" by (simp add: o(1) wram_windows_def ARM9)
        then show ?thesis using b wn and_mask_small(2) [of addr] \<open>mode = 2\<close>
          by (auto simp: agrees_def executable_def resolve_shared_def Let_def ARM9 fi o(2) simp flip: mode_def
              intro!: exI [of _ Shared_wram] exI [of _ 0])
      next
        assume "mode = 3"
        then show ?thesis using data by (simp add: o(1) wram_windows_def ARM9)
      qed
    next
      case ARM7
      from m show ?thesis
      proof (elim disjE)
        assume "mode = 0"
        then have "win = window Arm7_wram 0 0xFFFF" by (simp add: o(1) wram_windows_def ARM7)
        then show ?thesis using b wn and_mask_small(3) [of addr] \<open>mode = 0\<close>
          by (auto simp: agrees_def executable_def resolve_shared_def Let_def ARM7 fi o(2) simp flip: mode_def
              intro!: exI [of _ Arm7_wram] exI [of _ 0])
      next
        assume "mode = 1"
        then have "win = window Shared_wram 0 0x3FFF" by (simp add: o(1) wram_windows_def ARM7)
        then show ?thesis using b wn and_mask_small(2) [of addr] \<open>mode = 1\<close>
          by (auto simp: agrees_def executable_def resolve_shared_def Let_def ARM7 fi o(2) simp flip: mode_def
              intro!: exI [of _ Shared_wram] exI [of _ 0])
      next
        assume "mode = 2"
        moreover have "unat (0x4000 + (addr AND 0x3FFF)) = 0x4000 + unat (addr AND 0x3FFF)"
          using and_mask_small(2) [of addr] by (simp add: unat_word_ariths)
        moreover have "win = window Shared_wram 0x4000 0x3FFF" using calculation by (simp add: o(1) wram_windows_def ARM7)
        ultimately show ?thesis using b wn and_mask_small(2) [of addr]
          by (auto simp: agrees_def executable_def resolve_shared_def Let_def ARM7 fi o(2) simp flip: mode_def
              intro!: exI [of _ Shared_wram] exI [of _ "0x4000"])
      next
        assume "mode = 3"
        then have "win = window Shared_wram 0 0x7FFF" by (simp add: o(1) wram_windows_def ARM7)
        then show ?thesis using b wn and_mask_small(1) [of addr] \<open>mode = 3\<close>
          by (auto simp: agrees_def executable_def resolve_shared_def Let_def ARM7 fi o(2) simp flip: mode_def
              intro!: exI [of _ Shared_wram] exI [of _ 0])
      qed
    qed
    moreover from this have "resolve_shared addr (word_of_nat width) s \<noteq> None" by (auto simp: agrees_def)
    ultimately show ?thesis using r by simp
  qed
qed


text \<open>The TCM sizes a register write produces: at most 2 GB, from an aligned base.\<close>

definition tcm_sizes_ok :: "'a bus_scheme \<Rightarrow> bool" where
  "tcm_sizes_ok s \<longleftrightarrow> unat (dtcm_size (g_cp15 s)) \<le> 2 ^ 31 \<and> 4 dvd unat (dtcm_base (g_cp15 s))"

definition fresh :: "'a bus_scheme \<Rightarrow> bool" where
  "fresh s \<longleftrightarrow> fast_ok s \<and> backed s \<and> tcm_sizes_ok s"

lemma freshD: "fresh s \<Longrightarrow> fast_ok s" "fresh s \<Longrightarrow> backed s" "fresh s \<Longrightarrow> tcm_sizes_ok s"
  by (simp_all add: fresh_def)

lemma width_okD: "width_ok w \<Longrightarrow> unat (word_of_nat w :: u32) = w" "width_ok w \<Longrightarrow> w \<le> 4" "width_ok w \<Longrightarrow> 0 < w"
  by (auto simp: width_ok_def)

lemma resolve_tcm_none:
  assumes ok: "fresh s" and w: "width_ok width" and no: "\<not> addr < g_busf_itcm_limit s" "\<not> addr - g_busf_dtcm_base s < g_busf_dtcm_limit s"
  shows "resolve_tcm addr (word_of_nat width) s = None"
proof -
  note f = refresh_fields(6-8) [OF freshD(1,2), OF ok ok]
  let ?d = "addr - dtcm_base (g_cp15 s)"
  have i: "\<not> (itcm_enable (g_cp15 s) \<and> itcm_size (g_cp15 s) \<noteq> 0 \<and> addr < 0x02000000 \<and> addr < itcm_size (g_cp15 s))"
    using no(1) by (auto simp: f)
  have "fits Dtcm ?d (word_of_nat width) s = None"
    if c: "dtcm_enable (g_cp15 s)" "dtcm_size (g_cp15 s) \<noteq> 0" "?d < dtcm_size (g_cp15 s)"
  proof -
    have "\<not> ?d < min (dtcm_size (g_cp15 s)) 0x4000" using no(2) c by (simp add: f)
    then have big: "0x4000 \<le> unat ?d" using c(3) by (auto simp: word_le_nat_alt not_less)
    have "unat ?d < 2 ^ 31" using c(3) freshD(3) [OF ok] by (simp add: tcm_sizes_ok_def word_less_nat_alt)
    then show ?thesis using big width_okD [OF w] by (simp add: fits_iff [OF freshD(2) [OF ok]])
  qed
  then show ?thesis using i unfolding resolve_tcm_def Let_def or_else_def by (simp only: if_False option.case simp_thms split: if_split) blast
qed

lemma classify_parts: "nds_busf_classify addr s = or_else
    (if g_nds_active s = ARM9 then
       if addr < g_busf_itcm_limit s then Some (g_busf_itcm s, addr AND win_mask (g_busf_itcm s))
       else let d = addr - g_busf_dtcm_base s in if d < g_busf_dtcm_limit s then Some (g_busf_dtcm s, d) else None
     else None) (map_window addr s)"
  by (simp only: nds_busf_classify_def map_window_def Let_def)

lemma pointer_agrees:
  assumes ok: "fresh s" and d: "dtcm_fits s" and w: "width_ok width"
    and c: "nds_busf_classify addr s = Some (win, off)" "win_data win \<noteq> None"
    and fit: "width = 1 \<or> off + word_of_nat width \<le> win_mask win + 1"
  shows "agrees width win off (resolve addr (word_of_nat width) s)"
proof -
  have k: "fast_ok s" "backed s" using freshD ok by blast+
  note f = refresh_fields(4,5) [OF k(1,2)]
  let ?tcm = "if addr < g_busf_itcm_limit s then Some (window Itcm 0 0x7FFF, addr AND 0x7FFF)
      else let d = addr - g_busf_dtcm_base s in if d < g_busf_dtcm_limit s then Some (window Dtcm 0 0x3FFF, d) else None"
  have cl: "or_else (if g_nds_active s = ARM9 then ?tcm else None) (map_window addr s) = Some (win, off)"
    using c(1) by (simp only: classify_parts f window_simps)
  consider (tcm) "g_nds_active s = ARM9" "?tcm = Some (win, off)"
    | (map) "g_nds_active s = ARM9 \<Longrightarrow> ?tcm = None" "map_window addr s = Some (win, off)"
    using cl by (auto simp: or_else_def split: option.splits if_splits)
  then show ?thesis
  proof cases
    case tcm
    from tcm_agrees [OF k(1,2) d w tcm(2) fit] obtain b
      where b: "win = window b 0 (win_mask win)" "resolve_tcm addr (word_of_nat width) s = Some (b, unat off)"
        "executable b" "unat off + width \<le> capacity b" by blast
    then have "resolve addr (word_of_nat width) s = Some (b, unat off)" using tcm(1) by (simp add: resolve_split or_else_def)
    then show ?thesis using b unfolding agrees_def by (intro exI [of _ b] exI [of _ 0]) simp
  next
    case map
    have "resolve_tcm addr (word_of_nat width) s = None" if "g_nds_active s = ARM9"
      using resolve_tcm_none [OF ok w] map(1) [OF that] by (auto simp: Let_def split: if_splits)
    then have "resolve addr (word_of_nat width) s = resolve_map addr (word_of_nat width) s"
      by (simp add: resolve_split or_else_def)
    then show ?thesis using map_agrees [OF k(1,2) w map(2) c(2) fit] by simp
  qed
qed

lemma fast_pointerE:
  assumes ok: "fresh s" "dtcm_fits s" "width_ok width" and p: "fast_pointer width addr s = Some (win, off, q)"
  obtains b base where "win = window b base (win_mask win)" "q = (b, base + unat off)" "resolve addr (word_of_nat width) s = Some q"
    "executable b" "4096 dvd base" "base + unat off + width \<le> capacity b"
proof -
  obtain b' base' where c: "nds_busf_classify addr s = Some (win, off)" "win_data win = Some (b', base')" "q = (b', base' + unat off)"
    "width = 1 \<or> off + word_of_nat width \<le> win_mask win + 1"
    using p by (auto simp: fast_pointer_def split: if_splits option.splits)
  have "agrees width win off (resolve addr (word_of_nat width) s)"
    by (rule pointer_agrees [OF ok c(1) _ c(4)]) (simp add: c(2))
  then obtain b base where b: "win = window b base (win_mask win)" "resolve addr (word_of_nat width) s = Some (b, base + unat off)"
    "executable b" "4096 dvd base" "base + unat off + width \<le> capacity b" by (auto simp: agrees_def)
  have "win_data win = Some (b, base)" by (subst b(1)) simp
  then have "q = (b, base + unat off)" using c by simp
  with b that show ?thesis by simp
qed

section \<open>The fast path is the slow path\<close>

text \<open>What the overlay's hook may do: nothing the bus sees.\<close>

lemma note_code_write_backed [simp]: "backed (note_code_write V s) = backed s"
  and note_code_write_ram [simp]: "ram (note_code_write V s) = ram s"
  and note_code_write_written [simp]: "ram_written (note_code_write V s) = ram_written s"
  and note_code_write_generation [simp]: "ram_generation (note_code_write V s) = ram_generation s"
  by (simp_all add: note_code_write_def runtime_note_code_write_def request_yield_poll_def split: option.split prod.split bool.split)

lemma fold_shift: "fold (\<lambda>page gen. gen(gp + page := next_generation (gen (gp + page)))) [i..<j] g
    = fold (\<lambda>page gen. gen(page := next_generation (gen page))) [gp + i..<gp + j] g"
proof -
  have "[gp + i..<gp + j] = map (\<lambda>k. gp + k) [i..<j]" by (induction j) auto
  then show ?thesis by (simp only: fold_map o_def)
qed

lemma capacity_pages: "4096 dvd capacity b" by (cases b) simp_all

lemma note_write_agrees:
  assumes "backed s" "executable b" "4096 dvd base" "base + off + width \<le> capacity b" "0 < width"
  shows "nds_busf_note_write V (window b base m) off width s = note_ram_write V (b, base + off) width s"
proof -
  obtain g where g: "base = 4096 * g" using assms(3) by (auto elim: dvdE)
  define step where "step = (\<lambda>page gen. gen(page := next_generation (gen page)) :: nat \<Rightarrow> u32)"
  have e: "base + off + width - 1 = off + width - 1 + g * 4096" using assms(5) by (simp add: g)
  have pages: "g + off div 4096 = (base + off) div 4096" "g + ((off + width - 1) div 4096 + 1) = (base + off + width - 1) div 4096 + 1"
    by (simp add: g) (simp only: e div_mult_self1 [OF zero_neq_numeral [symmetric]])
  have below: "page < size_of b s div kPage" if "page \<in> set [(base + off) div kPage..<(base + off + width - 1) div kPage + 1]" for page
  proof -
    have "page \<le> (base + off + width - 1) div 4096" using that by (auto simp: kPage_def)
    moreover have "(base + off + width - 1) div 4096 < capacity b div 4096"
      using assms(4,5) capacity_pages [of b] by (auto elim!: dvdE simp: less_mult_imp_div_less)
    ultimately show ?thesis using assms(1) by (simp add: size_of_def kPage_def)
  qed
  have slow: "fold (\<lambda>page gen. if page < size_of b s div kPage then step page gen else gen)
      [(base + off) div kPage..<(base + off + width - 1) div kPage + 1] g0
    = fold step [(base + off) div kPage..<(base + off + width - 1) div kPage + 1] g0" for g0
    by (rule fold_cong) (use below in simp_all)
  have fast: "fold (\<lambda>page gen. gen(g + page := next_generation (gen (g + page)))) [off div kPage..<(off + width - 1) div kPage + 1] g0
    = fold step [(base + off) div kPage..<(base + off + width - 1) div kPage + 1] g0" for g0
    by (simp only: fold_shift pages kPage_def step_def)
  have m: "min (capacity b) (base + off + width) = base + off + width" using assms(4) by simp
  have w: "win_gen (window b base m) = Some (b, g)" "win_written (window b base m) = Some (b, base)" by (simp_all add: g kPage_def)
  have "nds_busf_note_write V (window b base m) off width s =
    (let s = note_code_write V (s\<lparr>ram_generation := (ram_generation s)(b := fold step [(base + off) div kPage..<(base + off + width - 1) div kPage + 1] (ram_generation s b))\<rparr>)
     in s\<lparr>ram_written := (ram_written s)(b := fill_bytes (ram_written s b) (base + off) (base + off + width) True)\<rparr>)"
    unfolding nds_busf_note_write_def w option.case prod.case Let_def fast ..
  moreover have "note_ram_write V (b, base + off) width s =
    (let s = note_code_write V (s\<lparr>ram_generation := (ram_generation s)(b := fold step [(base + off) div kPage..<(base + off + width - 1) div kPage + 1] (ram_generation s b))\<rparr>)
     in s\<lparr>ram_written := (ram_written s)(b := fill_bytes (ram_written s b) (base + off) (base + off + width) True)\<rparr>)"
  proof -
    have b: "size_of b (note_code_write V (s\<lparr>ram_generation := x\<rparr>)) = capacity b" for x using assms(1) by (simp add: size_of_def)
    show ?thesis unfolding note_ram_write_def fst_conv snd_conv prod.case Let_def
      using assms(2,5) by (simp only: slow [unfolded step_def] step_def b m if_False simp_thms) simp
  qed
  ultimately show ?thesis by simp
qed

lemma store_bytes_backed: "backed (note_live_write V addr width (load (ram s (fst p)) (snd p) width) v s) = backed s
    \<Longrightarrow> backed (store_bytes V width addr v p s) = backed s"
  by (cases p) (simp add: store_bytes_def Let_def)

lemma read_fast_slow:
  assumes "fresh s" "dtcm_fits s" "width_ok width"
  shows "bus_read V width addr s = bus_read_slow V width addr s"
proof (cases "fast_pointer width addr s")
  case None
  then show ?thesis by (simp add: bus_read_def)
next
  case (Some p)
  obtain win off q where p: "p = (win, off, q)" by (cases p)
  from Some [unfolded p] have "resolve addr (word_of_nat width) s = Some q" by (rule fast_pointerE [OF assms]) simp
  then show ?thesis using Some p by (cases q) (simp add: bus_read_def bus_read_slow_def)
qed

definition hook_idle :: "'a bus_scheme devices \<Rightarrow> bool" where
  "hook_idle V \<longleftrightarrow> (\<forall>addr width old v s. note_live_write V addr width old v s = s)"

lemma write_fast_slow:
  assumes "fresh s" "dtcm_fits s" "width_ok width" and h: "hook_idle V"
  shows "bus_write V width addr v s = bus_write_slow V width addr v s"
proof (cases "fast_pointer width addr s")
  case None
  then show ?thesis by (simp add: bus_write_def)
next
  case (Some p)
  obtain win off q where p: "p = (win, off, q)" by (cases p)
  from fast_pointerE [OF assms(1-3) Some [unfolded p]] obtain b base where b: "win = window b base (win_mask win)" "q = (b, base + unat off)"
    "resolve addr (word_of_nat width) s = Some q" "executable b" "4096 dvd base" "base + unat off + width \<le> capacity b" by metis
  have "backed (store_bytes V width addr v q s)"
    using store_bytes_backed [where V = V and p = q and s = s and width = width and addr = addr and v = v] h freshD(2) [OF assms(1)]
    by (simp add: hook_idle_def)
  from note_write_agrees [OF this b(4-6) width_okD(3) [OF assms(3)], of V "win_mask win"]
  have "nds_busf_note_write V win (unat off) width (store_bytes V width addr v q s) = note_ram_write V q width (store_bytes V width addr v q s)"
    by (simp only: b(1,2) [symmetric])
  then show ?thesis by (simp add: bus_write_def bus_write_slow_def b(3) Some p)
qed

lemma generation_fast_slow:
  assumes "fresh s" "dtcm_fits s"
  shows "bus_exec_page_generation addr s = exec_page_generation_slow addr s"
proof (cases "\<exists>win off. nds_busf_classify addr s = Some (win, off) \<and> win_data win \<noteq> None")
  case False
  then show ?thesis by (auto simp: bus_exec_page_generation_def split: option.split)
next
  case True
  then obtain win off where c: "nds_busf_classify addr s = Some (win, off)" "win_data win \<noteq> None" by blast
  have "agrees 1 win off (resolve addr (word_of_nat 1) s)"
    by (rule pointer_agrees [OF assms _ c]) (simp_all add: width_ok_def)
  then obtain b base where b: "win = window b base (win_mask win)" "resolve addr 1 s = Some (b, base + unat off)"
    "executable b" "4096 dvd base" "base + unat off + 1 \<le> capacity b" by (auto simp: agrees_def)
  obtain g where g: "base = 4096 * g" using b(4) by (auto elim: dvdE)
  have "(base + unat off) div 4096 < capacity b div 4096"
    using b(5) capacity_pages [of b] by (auto elim!: dvdE simp: less_mult_imp_div_less)
  then have "exec_page_generation_slow addr s = ram_generation s b ((base + unat off) div 4096)"
    using b freshD(2) [OF assms(1)] by (simp add: exec_page_generation_slow_def page_generation_for_ptr_def size_of_def kPage_def)
  moreover have w: "win_data win = Some (b, base)" "win_gen win = Some (b, g)" by (subst b(1), simp add: g kPage_def)+
  have "bus_exec_page_generation addr s = ram_generation s b (g + unat off div 4096)"
    by (simp add: bus_exec_page_generation_def c w kPage_def)
  ultimately show ?thesis by (simp add: g)
qed

section \<open>The windows stay fresh\<close>

lemma fast_ok_iff:
  assumes "backed s"
  shows "fast_ok s \<longleftrightarrow>
    g_memt_itcm_limit s = (if itcm_enable (g_cp15 s) then itcm_size (g_cp15 s) else 0) \<and> g_memt_dtcm_base s = dtcm_base (g_cp15 s) \<and>
    g_memt_dtcm_size s = (if dtcm_enable (g_cp15 s) then dtcm_size (g_cp15 s) else 0) \<and>
    g_busf_main s = window Main_ram 0 0x003FFFFF \<and> g_busf_wram_hi s = (\<lambda>_. window Arm7_wram 0 0x0000FFFF) \<and>
    g_busf_wram_lo s = wram_windows (g_wramcnt s AND 3) \<and> g_busf_itcm s = window Itcm 0 0x00007FFF \<and>
    g_busf_dtcm s = window Dtcm 0 0x00003FFF \<and>
    g_busf_itcm_limit s = (if itcm_enable (g_cp15 s) \<and> itcm_size (g_cp15 s) \<noteq> 0 then min (itcm_size (g_cp15 s)) 0x02000000 else 0) \<and>
    g_busf_dtcm_base s = dtcm_base (g_cp15 s) \<and>
    g_busf_dtcm_limit s = (if dtcm_enable (g_cp15 s) \<and> dtcm_size (g_cp15 s) \<noteq> 0 then min (dtcm_size (g_cp15 s)) 0x4000 else 0)"
  using assms unfolding fast_ok_def by (cases s) (auto simp: bus_fast_refresh_def Let_def size_of_def)

lemma bus_refresh_keeps [simp]:
  "backed (bus_fast_refresh s) = backed s" "g_cp15 (bus_fast_refresh s) = g_cp15 s" "g_wramcnt (bus_fast_refresh s) = g_wramcnt s"
  "ram (bus_fast_refresh s) = ram s" "ram_written (bus_fast_refresh s) = ram_written s" "ram_generation (bus_fast_refresh s) = ram_generation s"
  "g_video (bus_fast_refresh s) = g_video s" "g_nds_active (bus_fast_refresh s) = g_nds_active s"
  by (simp_all add: bus_fast_refresh_def Let_def)

lemma refresh_fresh:
  assumes "backed s" "tcm_sizes_ok s"
  shows "fresh (bus_fast_refresh s)"
proof -
  have "fast_ok (bus_fast_refresh s)"
    using assms(1) by (simp add: fast_ok_iff) (simp add: bus_fast_refresh_def Let_def size_of_def)
  then show ?thesis using assms by (simp add: fresh_def tcm_sizes_ok_def)
qed

text \<open>What the windows depend on, and the windows.\<close>

definition same_windows :: "'a bus_scheme \<Rightarrow> 'a bus_scheme \<Rightarrow> bool" where
  "same_windows s t \<longleftrightarrow> g_cp15 t = g_cp15 s \<and> backed t = backed s \<and> g_wramcnt t = g_wramcnt s \<and>
    g_memt_itcm_limit t = g_memt_itcm_limit s \<and> g_memt_dtcm_base t = g_memt_dtcm_base s \<and> g_memt_dtcm_size t = g_memt_dtcm_size s \<and>
    g_busf_main t = g_busf_main s \<and> g_busf_wram_hi t = g_busf_wram_hi s \<and> g_busf_wram_lo t = g_busf_wram_lo s \<and>
    g_busf_itcm t = g_busf_itcm s \<and> g_busf_dtcm t = g_busf_dtcm s \<and> g_busf_itcm_limit t = g_busf_itcm_limit s \<and>
    g_busf_dtcm_base t = g_busf_dtcm_base s \<and> g_busf_dtcm_limit t = g_busf_dtcm_limit s"

lemma same_windows_fresh:
  assumes w: "same_windows s t" and f: "fresh s"
  shows "fresh t"
proof -
  note e = w [unfolded same_windows_def]
  have b: "backed s" "backed t" using e freshD(2) [OF f] by simp_all
  have "fast_ok t" using freshD(1) [OF f] unfolding fast_ok_iff [OF b(1)] fast_ok_iff [OF b(2)] by (simp only: e)
  then show ?thesis using b freshD(3) [OF f] unfolding fresh_def tcm_sizes_ok_def by (simp only: e)
qed

lemma note_code_write_windows: "same_windows s (note_code_write V s)"
  by (simp add: note_code_write_def runtime_note_code_write_def request_yield_poll_def same_windows_def split: option.split prod.split bool.split)

lemma same_windows_trans: "same_windows s t \<Longrightarrow> same_windows t u \<Longrightarrow> same_windows s u"
  by (simp add: same_windows_def)

lemma note_ram_write_windows: "same_windows s (note_ram_write V p width s)"
proof -
  have "same_windows s (note_code_write V (s\<lparr>ram_generation := x\<rparr>))" for x
    by (rule same_windows_trans [OF _ note_code_write_windows]) (simp add: same_windows_def)
  then have "same_windows s ((note_code_write V (s\<lparr>ram_generation := x\<rparr>))\<lparr>ram_written := y\<rparr>)" for x y
    by (simp add: same_windows_def)
  moreover have "same_windows s s" by (simp add: same_windows_def)
  ultimately show ?thesis by (cases p) (simp only: note_ram_write_def Let_def prod.case if_split simp_thms)
qed

lemma store_bytes_windows: "hook_idle V \<Longrightarrow> same_windows s (store_bytes V width addr v p s)"
  by (cases p) (simp add: store_bytes_def Let_def hook_idle_def same_windows_def)

text \<open>The devices behind the bus: they may run anything that keeps the windows fresh.\<close>

definition devices_ok :: "'a bus_scheme devices \<Rightarrow> bool" where
  "devices_ok V \<longleftrightarrow> hook_idle V \<and> (\<forall>s addr v width on. fresh s \<longrightarrow>
     fresh (snd (wifi_read V addr width on s)) \<and> fresh (wifi_write V addr v width on s) \<and>
     fresh (snd (io_read V addr width s)) \<and> fresh (io_write V addr v width s))"

lemma read_slow_fresh:
  assumes V: "devices_ok V" and s: "fresh s"
  shows "fresh (snd (bus_read_slow V width addr s))"
proof -
  have "fresh (s\<lparr>g_video := vr\<rparr>)" for vr by (rule same_windows_fresh [OF _ s]) (simp add: same_windows_def)
  then have "fresh (snd (device_read V width addr s))"
    using V s by (auto simp: device_read_def devices_ok_def split: option.split prod.split)
  then show ?thesis using s by (auto simp: bus_read_slow_def split: option.split prod.split)
qed

lemma write_slow_fresh:
  assumes V: "devices_ok V" and s: "fresh s"
  shows "fresh (bus_write_slow V width addr v s)"
proof (cases "resolve addr (word_of_nat width) s")
  case (Some p)
  have "same_windows s (note_ram_write V p width (store_bytes V width addr v p s))"
    using V by (intro same_windows_trans [OF store_bytes_windows note_ram_write_windows]) (simp add: devices_ok_def)
  then show ?thesis using same_windows_fresh [OF _ s] by (simp add: bus_write_slow_def Some)
next
  case None
  have "fresh (s\<lparr>g_video := vr\<rparr>)" for vr by (rule same_windows_fresh [OF _ s]) (simp add: same_windows_def)
  then show ?thesis using V s by (auto simp: bus_write_slow_def None device_write_def devices_ok_def with_video_def)
qed

lemma nds_busf_note_write_windows: "same_windows s (nds_busf_note_write V w off width s)"
proof -
  have "same_windows s (note_code_write V (s\<lparr>ram_generation := x\<rparr>))" for x
    by (rule same_windows_trans [OF _ note_code_write_windows]) (simp add: same_windows_def)
  then show ?thesis by (simp add: nds_busf_note_write_def Let_def same_windows_def split: option.split prod.split)
qed

lemma read_fresh: "devices_ok V \<Longrightarrow> fresh s \<Longrightarrow> fresh (snd (bus_read V width addr s))"
  using read_slow_fresh by (auto simp: bus_read_def split: option.split prod.split)

lemma write_fresh:
  assumes V: "devices_ok V" and s: "fresh s"
  shows "fresh (bus_write V width addr v s)"
proof (cases "fast_pointer width addr s")
  case None
  then show ?thesis using write_slow_fresh [OF V s] by (simp add: bus_write_def)
next
  case (Some p)
  obtain win off q where p: "p = (win, off, q)" by (cases p)
  have "same_windows s (nds_busf_note_write V win (unat off) width (store_bytes V width addr v q s))"
    using V by (intro same_windows_trans [OF store_bytes_windows nds_busf_note_write_windows]) (simp add: devices_ok_def)
  then show ?thesis using same_windows_fresh [OF _ s] by (simp add: bus_write_def Some p)
qed

section \<open>Coprocessor writes and images\<close>

lemma tcm_bytes_le: "unat (tcm_bytes reg) \<le> 2 ^ 31"
proof -
  have "unat (tcm_bytes reg) = 2 ^ (9 + unat (drop_bit 1 reg AND 0x1F)) mod 2 ^ 32"
    unfolding tcm_bytes_def unsigned_push_bit_eq by (simp add: take_bit_eq_mod push_bit_eq_mult power_add)
  moreover have "(2::nat) ^ k mod 2 ^ 32 \<le> 2 ^ 31" for k
  proof (cases "k \<le> 31")
    case True
    then have "(2::nat) ^ k \<le> 2 ^ 31" by (intro power_increasing) simp_all
    then show ?thesis by (rule le_trans [rotated]) (rule mod_less_eq_dividend)
  next
    case False
    then have "(2::nat) ^ 32 dvd 2 ^ k" by (intro le_imp_power_dvd) simp
    then have "(2::nat) ^ k mod 2 ^ 32 = 0" by (simp only: dvd_eq_mod_eq_0)
    then show ?thesis by simp
  qed
  ultimately show ?thesis by simp
qed

lemma class_sync_windows: "same_windows s (cp15_class_sync s)"
  by (simp add: cp15_class_sync_def cp15_rebuild_class_bitmaps_def same_windows_def Let_def split: prod.split)

text \<open>What the other operations of \<open>cp15.cpp\<close> leave of the bus: everything but \<open>g_cp15\<close>.\<close>

definition keeps_bus :: "'a bus_scheme \<Rightarrow> 'a bus_scheme \<Rightarrow> bool" where
  "keeps_bus s t \<longleftrightarrow> same_windows s (t\<lparr>g_cp15 := g_cp15 s\<rparr>)"

lemma keeps_bus_backed: "keeps_bus s t \<Longrightarrow> backed t = backed s"
  by (simp add: keeps_bus_def same_windows_def)

lemma keeps_bus_trans: "keeps_bus s t \<Longrightarrow> keeps_bus t u \<Longrightarrow> keeps_bus s u"
  by (simp add: keeps_bus_def same_windows_def)

lemma same_keeps: "same_windows s t \<Longrightarrow> keeps_bus s t"
  by (simp add: keeps_bus_def same_windows_def)

lemma bus_switch_keeps: "keeps_bus s (coproc_switch crn crm op2 v s)"
  by (simp add: coproc_switch_def apply_control_def set_mpu_region_def keeps_bus_def same_windows_def)

lemma switch_cp15: "\<not> (crn = 1 \<and> crm = 0 \<and> op2 = 0 \<or> crn = 9 \<and> crm = 1 \<and> (op2 = 0 \<or> op2 = 1)) \<Longrightarrow>
    g_cp15 (coproc_switch crn crm op2 v s) = g_cp15 s"
proof -
  assume no: "\<not> (crn = 1 \<and> crm = 0 \<and> op2 = 0 \<or> crn = 9 \<and> crm = 1 \<and> (op2 = 0 \<or> op2 = 1))"
  have c: "crn = 1 \<Longrightarrow> (crm = 0 \<and> op2 = 0) = False" "crn = 9 \<Longrightarrow> (crm = 1 \<and> op2 = 0) = False"
    "crn = 9 \<Longrightarrow> (crm = 1 \<and> op2 = 1) = False" using no by blast+
  consider "crn = 1" | "crn = 9" | "crn \<noteq> 1" "crn \<noteq> 9" by blast
  then show ?thesis
    by cases (use c in \<open>simp_all add: coproc_switch_def set_mpu_region_def\<close>, (use c in blast)+)
qed

lemma base_aligned: "4 dvd unat (v AND 0xFFFFF000 :: u32)"
proof -
  have "(v AND 0xFFFFF000) AND 3 = 0" by (simp add: and.assoc)
  then have "unat ((v AND 0xFFFFF000) AND mask 2) = 0" by (simp add: mask_eq_exp_minus_1)
  then show ?thesis by (simp add: unat_and_mask take_bit_eq_mod dvd_eq_mod_eq_0)
qed

lemma switch_sizes: "tcm_sizes_ok s \<Longrightarrow> tcm_sizes_ok (coproc_switch crn crm op2 v s)"
  using tcm_bytes_le base_aligned by (simp add: coproc_switch_def apply_control_def set_mpu_region_def tcm_sizes_ok_def)

lemma sync_cp15:
  fixes s :: "'a bus_scheme"
  shows "g_cp15 (cp15_class_sync s) = g_cp15 s"
  using class_sync_windows [of s] by (simp add: same_windows_def)

lemma coproc_keeps:
  "keeps_bus s (runtime_coproc_write cp_num op1 crn crm op2 v s)"
  "tcm_sizes_ok s \<Longrightarrow> tcm_sizes_ok (runtime_coproc_write cp_num op1 crn crm op2 v s)"
  "\<not> (cp_num = 15 \<and> (crn = 1 \<and> crm = 0 \<and> op2 = 0 \<or> crn = 9 \<and> crm = 1 \<and> (op2 = 0 \<or> op2 = 1))) \<Longrightarrow>
    g_cp15 (runtime_coproc_write cp_num op1 crn crm op2 v s) = g_cp15 s"
proof -
  define t where "t = (if crn = 1 \<or> crn = 2 \<or> crn = 6 \<or> crn = 9
    then s\<lparr>g_cp15_timing_generation := bump_generation (g_cp15_timing_generation s)\<rparr> else s)"
  have t: "same_windows s t" "g_cp15 t = g_cp15 s" by (simp_all add: t_def same_windows_def)
  have h: "same_windows s (nds_cpu_enter_halt ARM9 s)"
    by (simp add: nds_cpu_enter_halt_def request_yield_poll_def same_windows_def)
  have sw: "keeps_bus s (coproc_switch crn crm op2 v t)" by (rule keeps_bus_trans [OF same_keeps [OF t(1)] bus_switch_keeps])
  have r: "runtime_coproc_write cp_num op1 crn crm op2 v s =
    (if cp_num \<noteq> 15 then s
     else if crn = 7 \<and> (crm = 0 \<and> op2 = 4 \<or> crm = 8 \<and> op2 = 2) then nds_cpu_enter_halt ARM9 s
     else if crn = 1 \<or> crn = 2 \<or> crn = 6 then cp15_class_sync (coproc_switch crn crm op2 v t) else coproc_switch crn crm op2 v t)"
    by (simp only: runtime_coproc_write_def Let_def t_def)
  show "keeps_bus s (runtime_coproc_write cp_num op1 crn crm op2 v s)"
    using sw keeps_bus_trans [OF sw same_keeps [OF class_sync_windows]] same_keeps [OF h]
    by (simp add: r) (simp add: keeps_bus_def same_windows_def)
  have hc: "g_cp15 (nds_cpu_enter_halt ARM9 s) = g_cp15 s" using h by (simp add: same_windows_def)
  show "tcm_sizes_ok (runtime_coproc_write cp_num op1 crn crm op2 v s)" if "tcm_sizes_ok s"
  proof -
    have "tcm_sizes_ok t" using that t(2) by (simp add: tcm_sizes_ok_def)
    from switch_sizes [OF this] show ?thesis using that hc by (simp add: r tcm_sizes_ok_def sync_cp15)
  qed
  show "g_cp15 (runtime_coproc_write cp_num op1 crn crm op2 v s) = g_cp15 s"
    if "\<not> (cp_num = 15 \<and> (crn = 1 \<and> crm = 0 \<and> op2 = 0 \<or> crn = 9 \<and> crm = 1 \<and> (op2 = 0 \<or> op2 = 1)))"
  proof (cases "cp_num = 15")
    case True
    with that have "\<not> (crn = 1 \<and> crm = 0 \<and> op2 = 0 \<or> crn = 9 \<and> crm = 1 \<and> (op2 = 0 \<or> op2 = 1))" by simp
    from switch_cp15 [OF this, of v t] have c: "g_cp15 (coproc_switch crn crm op2 v t) = g_cp15 s" by (simp only: t(2))
    show ?thesis unfolding r by (simp only: if_distrib [of g_cp15] hc sync_cp15 c if_cancel)
  qed (simp add: r)
qed

lemma coproc_write_fresh:
  assumes s: "fresh s"
  shows "fresh (bus_coproc_write cp_num op1 crn crm op2 v s)"
proof (cases "cp_num = 15 \<and> (crn = 1 \<and> crm = 0 \<and> op2 = 0 \<or> crn = 9 \<and> crm = 1 \<and> (op2 = 0 \<or> op2 = 1))")
  case True
  have "fresh (bus_fast_refresh (runtime_coproc_write cp_num op1 crn crm op2 v s))"
    by (rule refresh_fresh) (use s coproc_keeps(1,2) keeps_bus_backed freshD in blast)+
  then show ?thesis using True by (simp only: bus_coproc_write_def Let_def if_True simp_thms)
next
  case False
  have "same_windows s (runtime_coproc_write cp_num op1 crn crm op2 v s)"
    using coproc_keeps(1) [where s = s] coproc_keeps(3) [OF False, where s = s] by (simp add: keeps_bus_def same_windows_def)
  then show ?thesis using same_windows_fresh s False by (auto simp: bus_coproc_write_def Let_def)
qed

lemma loaded_keeps: "keeps_bus s (cp15_loaded i s)"
proof -
  have "keeps_bus s (fold (\<lambda>k s. set_mpu_region k (sv_region i k)
     (s\<lparr>g_mpu_region := (g_mpu_region s)(k := sv_region i k), g_cache_cfg := (g_cache_cfg s)(k := sv_cache_cfg i k),
        g_access_perm := (g_access_perm s)(k := sv_access_perm i k)\<rparr>)) ks t)" if "keeps_bus s t" for ks t
    using that by (induction ks arbitrary: t) (simp_all add: set_mpu_region_def keeps_bus_def same_windows_def)
  then show ?thesis unfolding cp15_loaded_def by (rule meta_spec) (simp add: keeps_bus_def same_windows_def)
qed

definition image_sizes_ok :: "cp15_save \<Rightarrow> bool" where
  "image_sizes_ok i \<longleftrightarrow> unat (dtcm_size (sv_visible i)) \<le> 2 ^ 31 \<and> 4 dvd unat (dtcm_base (sv_visible i))"

lemma cp15_import_fresh:
  assumes s: "fresh s" and i: "image_sizes_ok i"
  shows "fresh (bus_cp15_import i s)"
proof -
  let ?t = "cp15_loaded i s\<lparr>g_class_inputs := None\<rparr>"
  have t: "backed ?t = backed s" "g_cp15 ?t = sv_visible i" using keeps_bus_backed [OF loaded_keeps] by (simp_all add: loaded(4))
  have u: "backed (cp15_class_sync ?t) = backed s" "g_cp15 (cp15_class_sync ?t) = sv_visible i"
    using class_sync_windows [of ?t] t by (simp_all add: same_windows_def)
  have "fresh (bus_fast_refresh (cp15_class_sync ?t))"
    by (rule refresh_fresh) (use u i freshD(2) [OF s] in \<open>simp_all add: tcm_sizes_ok_def image_sizes_ok_def\<close>)
  then show ?thesis unfolding bus_cp15_import_def import_eq
    by (rule same_windows_fresh [rotated]) (simp add: arm9_code_fast_invalidate_def same_windows_def)
qed

lemma cp15_reset_fresh:
  assumes s: "fresh s"
  shows "fresh (bus_cp15_reset s)"
proof -
  define t where "t = s\<lparr>g_cp15 := \<lparr>cp_control = push_bit 13 1, high_vectors = True, itcm_enable = False, dtcm_enable = False,
       itcm_size = 0, dtcm_base = 0, dtcm_size = 0\<rparr>,
     g_cp15_timing_generation := bump_generation (g_cp15_timing_generation s), g_class_inputs := None\<rparr>"
  have "fresh (bus_fast_refresh (cp15_class_sync t))"
    using class_sync_windows [of t] freshD(2) [OF s] by (intro refresh_fresh) (simp_all add: same_windows_def tcm_sizes_ok_def t_def)
  then show ?thesis by (simp only: bus_cp15_reset_def cp15_reset_def t_def)
qed

section \<open>Runs\<close>

inductive bus_step :: "'a bus_scheme devices \<Rightarrow> 'a bus_scheme \<Rightarrow> 'a bus_scheme \<Rightarrow> bool" for V where
  read: "bus_step V s (snd (bus_read V width addr s))"
| store: "bus_step V s (bus_write V width addr v s)"
| slow_read: "bus_step V s (snd (bus_read_slow V width addr s))"
| slow_store: "bus_step V s (bus_write_slow V width addr v s)"
| device_read: "bus_step V s (snd (bus_device_read32 V cpu addr s))"
| device_write32: "bus_step V s (bus_device_write32 V cpu addr v s)"
| device_write16: "bus_step V s (bus_device_write16 V cpu addr h s)"
| wramcnt: "bus_step V s (nds_io_set_wramcnt b s)"
| cp15_reset: "bus_step V s (bus_cp15_reset s)"
| mcr: "bus_step V s (bus_coproc_write cp_num op1 crn crm op2 v s)"
| cp15_load: "image_sizes_ok i \<Longrightarrow> bus_step V s (bus_cp15_import i s)"
| init: "bus_step V s (bus_init s)"
| images: "bus_step V s (load_image b bytes s)"
| patch: "bus_step V s (bus_patch_arm9_bios off bytes s)"
| load: "bus_step V s (snd (bus_savestate_import V img s))"
| elsewhere: "same_windows s t \<Longrightarrow> bus_step V s t"

inductive bus_reachable :: "'a bus_scheme devices \<Rightarrow> 'a bus_scheme \<Rightarrow> bool" for V where
  start: "tcm_sizes_ok s \<Longrightarrow> bus_reachable V (bus_init s)"
| step: "bus_reachable V s \<Longrightarrow> bus_step V s t \<Longrightarrow> bus_reachable V t"

lemma init_fresh: "tcm_sizes_ok s \<Longrightarrow> fresh (bus_init s)"
  unfolding bus_init_def by (rule refresh_fresh) (simp_all add: reset_arm9_code_timing_def tcm_sizes_ok_def)

lemma import_fresh:
  assumes "fresh s"
  shows "fresh (snd (bus_savestate_import V i s))"
proof (cases "bus_savestate_validate i")
  case (Inl e)
  then show ?thesis using assms by (simp add: bus_savestate_import_def)
next
  case (Inr u)
  define t where "t = s\<lparr>backed := True, ram := (\<lambda>b. import_bytes (bs_ram i b) id 0),
    ram_written := (\<lambda>b. import_bytes (bs_written i b) (\<lambda>v. v \<noteq> 0) False),
    ram_generation := (\<lambda>b. import_bytes (bs_generation i b) id 0)\<rparr>"
  have "fresh (bus_fast_refresh (reset_arm9_code_timing t))"
    by (rule refresh_fresh) (use freshD(3) [OF assms] in \<open>simp_all add: reset_arm9_code_timing_def tcm_sizes_ok_def t_def\<close>)
  then have "fresh (note_code_write V (bus_fast_refresh (reset_arm9_code_timing t)))"
    by (rule same_windows_fresh [OF note_code_write_windows])
  then show ?thesis by (simp only: bus_savestate_import_def Inr sum.case Let_def t_def snd_conv)
qed

lemma active_windows: "same_windows s (s\<lparr>g_nds_active := c\<rparr>)"
  by (simp add: same_windows_def)

lemma step_fresh:
  assumes V: "devices_ok V" and s: "fresh s" and st: "bus_step V s t"
  shows "fresh t"
  using st
proof cases
  case (device_read cpu addr)
  have "fresh (snd (bus_read V 4 addr (s\<lparr>g_nds_active := cpu\<rparr>)))"
    by (rule read_fresh [OF V same_windows_fresh [OF active_windows s]])
  then show ?thesis using device_read same_windows_fresh [OF active_windows]
    by (auto simp: bus_device_read32_def Let_def split: prod.split)
next
  case (device_write32 cpu addr v)
  show ?thesis unfolding device_write32 bus_device_write32_def
    by (rule same_windows_fresh [OF active_windows write_fresh [OF V same_windows_fresh [OF active_windows s]]])
next
  case (device_write16 cpu addr h)
  show ?thesis unfolding device_write16 bus_device_write16_def
    by (rule same_windows_fresh [OF active_windows write_fresh [OF V same_windows_fresh [OF active_windows s]]])
next
  case (wramcnt b)
  show ?thesis unfolding wramcnt nds_io_set_wramcnt_def
    by (rule refresh_fresh) (use freshD(2) [OF s] freshD(3) [OF s] in \<open>simp_all add: tcm_sizes_ok_def\<close>)
next
  case (images b bytes)
  show ?thesis unfolding images by (rule same_windows_fresh [OF _ s]) (simp add: load_image_def Let_def same_windows_def)
next
  case (patch off bytes)
  show ?thesis unfolding patch by (rule same_windows_fresh [OF _ s]) (simp add: bus_patch_arm9_bios_def same_windows_def)
next
  case elsewhere
  then show ?thesis using same_windows_fresh s by blast
next
  case (read width addr)
  show ?thesis unfolding read by (rule read_fresh [OF V s])
next
  case (store width addr v)
  show ?thesis unfolding store by (rule write_fresh [OF V s])
next
  case (slow_read width addr)
  show ?thesis unfolding slow_read by (rule read_slow_fresh [OF V s])
next
  case (slow_store width addr v)
  show ?thesis unfolding slow_store by (rule write_slow_fresh [OF V s])
next
  case cp15_reset
  show ?thesis unfolding cp15_reset by (rule cp15_reset_fresh [OF s])
next
  case (mcr cp_num op1 crn crm op2 v)
  show ?thesis unfolding mcr by (rule coproc_write_fresh [OF s])
next
  case init
  show ?thesis unfolding init by (rule init_fresh [OF freshD(3) [OF s]])
next
  case (load img)
  show ?thesis unfolding load by (rule import_fresh [OF s])
next
  case (cp15_load i)
  show ?thesis unfolding cp15_load(1) by (rule cp15_import_fresh [OF s cp15_load(2)])
qed

lemma bus_reachable_fresh: "bus_reachable V s \<Longrightarrow> devices_ok V \<Longrightarrow> fresh s"
  by (induction rule: bus_reachable.induct) (auto intro: init_fresh step_fresh)

text \<open>
  C2. The inline fast path is unobservable. In every state the emulator reaches, by accesses of either
  CPU and of device masters, WRAM control writes, coprocessor writes, CP15 and memory images, and devices
  that keep the windows published, an inline read, an inline store and an inline page generation are the
  out-of-line ones: same value and same state, with bytes, execute provenance and page generations. The
  condition is that the data TCM does not run past the end of the address space.
\<close>

theorem fast_bus_unobservable:
  assumes "bus_reachable V s" and "devices_ok V" and "dtcm_fits s" and "width_ok width"
  shows "bus_read V width addr s = bus_read_slow V width addr s
    \<and> bus_write V width addr v s = bus_write_slow V width addr v s
    \<and> bus_exec_page_generation addr s = exec_page_generation_slow addr s"
proof -
  have f: "fresh s" by (rule bus_reachable_fresh [OF assms(1,2)])
  have h: "hook_idle V" using assms(2) by (simp add: devices_ok_def)
  show ?thesis
    using read_fast_slow [OF f assms(3,4)] write_fast_slow [OF f assms(3,4) h] generation_fast_slow [OF f assms(3)] by blast
qed

section \<open>A concrete bus\<close>

definition bus_boot :: bus where
  "bus_boot = cp15.extend cp15_boot (bus.fields False (\<lambda>_ _. 0) (\<lambda>_ _. False) (\<lambda>_ _. 0) vram_boot 0 (\<lambda>_. 0) 0 0 0
     null_win (\<lambda>_. null_win) (\<lambda>_. null_win) null_win null_win 0 0 0 0 0 0 (\<lambda>_. 0) (\<lambda>_. 0)
     \<lparr>ct_page = 0xFFFFFFFF, ct_generation = 0, ct_timing = Timing_other\<rparr> Timing_other False 0 31 0)"

definition quiet_devices :: "bus devices" where
  "quiet_devices = \<lparr>dev_gpu2d = inline_gpu2d, wifi_read = (\<lambda>_ _ _ s. (0, s)), wifi_write = (\<lambda>_ _ _ _ s. s),
     io_read = (\<lambda>_ _ s. (0, s)), io_write = (\<lambda>addr v width s. if addr = 0x04000247 then nds_io_set_wramcnt (ucast v) s else s),
     note_live_write = (\<lambda>_ _ _ _ s. s), identity_live = (\<lambda>_ _. True)\<rparr>"

lemma set_wramcnt_fresh: "fresh s \<Longrightarrow> fresh (nds_io_set_wramcnt b s)"
  using freshD(2) [of s] freshD(3) [of s] unfolding nds_io_set_wramcnt_def
  by (intro refresh_fresh) (simp_all add: tcm_sizes_ok_def)

lemma quiet_ok: "devices_ok quiet_devices"
  by (simp add: devices_ok_def quiet_devices_def hook_idle_def set_wramcnt_fresh)

lemma boot_cp15: "g_cp15 bus_boot = g_cp15 cp15_boot" "g_cp15 (bus_init bus_boot) = g_cp15 cp15_boot"
  by (simp_all add: bus_boot_def cp15.defs bus.defs rt.defs bus_init_def reset_arm9_code_timing_def)

lemma boot_bus_reachable: "bus_reachable V (bus_init bus_boot)"
  by (rule start) (simp add: tcm_sizes_ok_def boot_cp15 cp15_boot_def rt.defs cp15.defs)

definition bus_running :: bus where
  "bus_running = nds_io_set_wramcnt 1 (bus_init bus_boot)"

lemma running_reachable: "bus_reachable quiet_devices bus_running"
  unfolding bus_running_def by (rule bus_reachable.step [OF boot_bus_reachable wramcnt])

lemma running_fits: "dtcm_fits bus_running"
  by (simp add: dtcm_fits_def bus_running_def nds_io_set_wramcnt_def boot_cp15 cp15_boot_def rt.defs cp15.defs)

lemma fast_bus_unobservable_witness:
  "bus_read quiet_devices 4 0x03001234 bus_running = bus_read_slow quiet_devices 4 0x03001234 bus_running
    \<and> bus_write quiet_devices 4 0x03001234 0xCAFE bus_running = bus_write_slow quiet_devices 4 0x03001234 0xCAFE bus_running
    \<and> bus_exec_page_generation 0x03001234 bus_running = exec_page_generation_slow 0x03001234 bus_running"
  by (rule fast_bus_unobservable [OF running_reachable quiet_ok running_fits]) (simp add: width_ok_def)

text \<open>
  The condition on the data TCM is needed. A guest may place it at the last page of the address space with
  16 KB: the window's wrapping difference then accepts address 0, where \<open>resolve\<close> finds nothing.
\<close>

definition bus_wrapped :: bus where
  "bus_wrapped = bus_coproc_write 15 0 9 1 0 0xFFFFF00A (bus_coproc_write 15 0 1 0 0 0x00010000 (bus_init bus_boot))"

lemma wrapped_reachable: "bus_reachable V bus_wrapped"
  unfolding bus_wrapped_def by (rule bus_reachable.step [OF bus_reachable.step [OF boot_bus_reachable mcr] mcr])

lemma control_cp15: "g_cp15 (bus_coproc_write 15 0 1 0 0 v s) = g_cp15 (apply_control v s)"
  by (simp add: bus_coproc_write_def runtime_coproc_write_def coproc_switch_def sync_cp15 apply_control_def)

lemma dtcm_cp15: "g_cp15 (bus_coproc_write 15 0 9 1 0 v s) = (g_cp15 s)\<lparr>dtcm_base := v AND 0xFFFFF000, dtcm_size := tcm_bytes v\<rparr>"
  by (simp add: bus_coproc_write_def runtime_coproc_write_def coproc_switch_def)

lemma wrapped_cp15: "dtcm_enable (g_cp15 bus_wrapped)" "dtcm_base (g_cp15 bus_wrapped) = 0xFFFFF000"
  "dtcm_size (g_cp15 bus_wrapped) = 0x4000" "\<not> itcm_enable (g_cp15 bus_wrapped)"
  by (simp_all add: bus_wrapped_def dtcm_cp15 control_cp15 apply_control_def tcm_bytes_def)

lemma dtcm_window_wraps:
  "resolve 0 1 (bus_wrapped\<lparr>g_nds_active := ARM9\<rparr>) = None"
  "nds_busf_classify 0 (bus_wrapped\<lparr>g_nds_active := ARM9\<rparr>) = Some (window Dtcm 0 0x3FFF, 0x1000)"
proof -
  let ?s = "bus_wrapped\<lparr>g_nds_active := ARM9\<rparr>"
  have fr: "fresh bus_wrapped" by (rule bus_reachable_fresh [OF wrapped_reachable quiet_ok])
  have fs: "fresh ?s" by (rule same_windows_fresh [OF active_windows fr])
  have f: "g_busf_itcm_limit ?s = 0" "g_busf_dtcm_base ?s = 0xFFFFF000" "g_busf_dtcm_limit ?s = 0x4000" "g_busf_dtcm ?s = window Dtcm 0 0x3FFF"
    using refresh_fields(5-8) [OF freshD(1) [OF fs] freshD(2) [OF fs]] wrapped_cp15 by simp_all
  show "resolve 0 1 ?s = None" by (simp add: resolve_def resolve_tcm_def wrapped_cp15 or_else_def Let_def)
  show "nds_busf_classify 0 ?s = Some (window Dtcm 0 0x3FFF, 0x1000)"
    using f by (simp add: nds_busf_classify_def or_else_def Let_def)
qed


section \<open>Stores read back\<close>

lemma dvd_room:
  fixes a c w :: nat
  assumes "w dvd a" "w dvd c" "a < c"
  shows "a + w \<le> c"
proof -
  obtain i k where "a = w * i" "c = w * k" using assms(1,2) by (auto elim!: dvdE)
  moreover from this have "Suc i \<le> k" using assms(3) by simp
  then have "w * Suc i \<le> w * k" by (rule mult_le_mono2)
  ultimately show ?thesis by simp
qed

lemma fits_aligned:
  assumes "backed s" "unat off < 2 ^ 31" and w: "width_ok width" "width dvd unat off"
  shows "fits b off (word_of_nat width) s = fits b off 1 s"
proof -
  have dc: "width dvd capacity b" using w(1) by (cases b) (auto simp: width_ok_def)
  have "unat off + width \<le> capacity b \<longleftrightarrow> unat off + 1 \<le> capacity b"
  proof
    show "unat off + 1 \<le> capacity b \<Longrightarrow> unat off + width \<le> capacity b"
      by (rule dvd_room [OF w(2) dc]) simp
    show "unat off + width \<le> capacity b \<Longrightarrow> unat off + 1 \<le> capacity b" using width_okD(3) [OF w(1)] by simp
  qed
  then show ?thesis using fits_iff [OF assms(1,2)] width_okD [OF w(1)] by simp
qed

lemma dvd_mask: "width_ok w \<Longrightarrow> w dvd unat a \<Longrightarrow> 2 \<le> n \<Longrightarrow> w dvd unat (a AND mask n :: u32)"
proof -
  assume w: "width_ok w" "w dvd unat a" "2 \<le> n"
  have "w dvd 2 ^ n" using w(1,3) dvd_power_le [of 2 2 2 n] by (auto simp: width_ok_def intro: dvd_trans [of 4])
  then show ?thesis using w(2) by (simp add: unat_and_mask take_bit_eq_mod dvd_mod)
qed

lemma dvd_masks:
  assumes "width_ok w" "w dvd unat a"
  shows "w dvd unat (a AND 0x7FFF :: u32)" "w dvd unat (a AND 0x3FFF :: u32)" "w dvd unat (a AND 0xFFFF :: u32)"
    "w dvd unat (a AND 0x3FFFFF :: u32)" "w dvd unat (a AND 0xFFF :: u32)" "w dvd unat (0x4000 + (a AND 0x3FFF) :: u32)"
proof -
  note m = dvd_mask [OF assms]
  show "w dvd unat (a AND 0x7FFF)" "w dvd unat (a AND 0x3FFF)" "w dvd unat (a AND 0xFFFF)"
    "w dvd unat (a AND 0x3FFFFF)" "w dvd unat (a AND 0xFFF)"
    using m [of 15] m [of 14] m [of 16] m [of 22] m [of 12] by (simp_all add: mask_eq_exp_minus_1)
  have "unat (0x4000 + (a AND 0x3FFF) :: u32) = 0x4000 + unat (a AND 0x3FFF)"
    using and_mask_small(2) [of a] by (simp add: unat_word_ariths)
  moreover have "w dvd 0x4000" using assms(1) by (auto simp: width_ok_def)
  ultimately show "w dvd unat (0x4000 + (a AND 0x3FFF) :: u32)"
    using m [of 14] by (simp add: mask_eq_exp_minus_1)
qed

lemma resolve_tcm_aligned:
  assumes s: "fresh s" and w: "width_ok width" "width dvd unat addr"
  shows "resolve_tcm addr (word_of_nat width) s = resolve_tcm addr 1 s"
proof -
  note fa = fits_aligned [OF freshD(2) [OF s] _ w(1)]
  have i: "fits Itcm (addr AND (word_of_nat (size_of Itcm s) - 1)) (word_of_nat width) s = fits Itcm (addr AND (word_of_nat (size_of Itcm s) - 1)) 1 s"
    using fa [of "addr AND 0x7FFF"] and_mask_small(1) [of addr] dvd_masks(1) [OF w] freshD(2) [OF s] by (simp add: size_of_def)
  have "fits Dtcm (addr - dtcm_base (g_cp15 s)) (word_of_nat width) s = fits Dtcm (addr - dtcm_base (g_cp15 s)) 1 s"
    if c: "dtcm_base (g_cp15 s) \<le> addr" "addr - dtcm_base (g_cp15 s) < dtcm_size (g_cp15 s)"
  proof (rule fa)
    show "unat (addr - dtcm_base (g_cp15 s)) < 2 ^ 31"
      using c(2) freshD(3) [OF s] by (simp add: tcm_sizes_ok_def word_less_nat_alt)
    have "width dvd unat (dtcm_base (g_cp15 s))"
      using w(1) freshD(3) [OF s] by (auto simp: tcm_sizes_ok_def width_ok_def intro: dvd_trans [of _ 4])
    then show "width dvd unat (addr - dtcm_base (g_cp15 s))" using w(2) c(1) by (simp add: unat_sub)
  qed
  then show ?thesis unfolding resolve_tcm_def Let_def i by (simp only: cong: if_cong)
qed

lemma resolve_aligned:
  assumes s: "fresh s" and w: "width_ok width" "width dvd unat addr"
  shows "resolve addr (word_of_nat width) s = resolve addr 1 s"
proof -
  note fa = fits_aligned [OF freshD(2) [OF s] _ w(1)]
  have m: "fits b (addr AND 0x7FFF) (word_of_nat width) s = fits b (addr AND 0x7FFF) 1 s"
    "fits b (addr AND 0x3FFF) (word_of_nat width) s = fits b (addr AND 0x3FFF) 1 s"
    "fits b (addr AND 0xFFFF) (word_of_nat width) s = fits b (addr AND 0xFFFF) 1 s"
    "fits b (addr AND 0x3FFFFF) (word_of_nat width) s = fits b (addr AND 0x3FFFFF) 1 s"
    "fits b (addr AND 0xFFF) (word_of_nat width) s = fits b (addr AND 0xFFF) 1 s"
    "fits b (0x4000 + (addr AND 0x3FFF)) (word_of_nat width) s = fits b (0x4000 + (addr AND 0x3FFF)) 1 s" for b
    using and_mask_small [of addr] dvd_masks [OF w] by (intro fa; simp add: unat_word_ariths)+
  have z: "fits b ((if c then 0x4000 else 0) + (addr AND 0x3FFF)) (word_of_nat width) s = fits b ((if c then 0x4000 else 0) + (addr AND 0x3FFF)) 1 s"
    "fits b ((if c then 0 else 0x4000) + (addr AND 0x3FFF)) (word_of_nat width) s = fits b ((if c then 0 else 0x4000) + (addr AND 0x3FFF)) 1 s" for b c
    using m(2,6) by (cases c; simp)+
  have "resolve_shared addr (word_of_nat width) s = resolve_shared addr 1 s"
    unfolding resolve_shared_def Let_def by (simp only: m z)
  then show ?thesis unfolding resolve_split resolve_map_def by (simp only: m resolve_tcm_aligned [OF s w])
qed

text \<open>The decode reads registers only.\<close>

definition same_decode :: "'a bus_scheme \<Rightarrow> 'a bus_scheme \<Rightarrow> bool" where
  "same_decode s t \<longleftrightarrow> same_windows s t \<and> g_nds_active t = g_nds_active s"

lemma resolve_cong:
  assumes "same_decode s t"
  shows "resolve addr len t = resolve addr len s"
proof -
  from assms have e: "g_cp15 t = g_cp15 s" "backed t = backed s" "g_wramcnt t = g_wramcnt s" "g_nds_active t = g_nds_active s"
    by (simp_all add: same_decode_def same_windows_def)
  show ?thesis by (simp only: resolve_def resolve_tcm_def resolve_shared_def fits_def size_of_def e)
qed

lemma note_code_write_active [simp]: "g_nds_active (note_code_write V s) = g_nds_active s"
  by (simp add: note_code_write_def runtime_note_code_write_def request_yield_poll_def split: option.split prod.split bool.split)

lemma note_ram_write_decode: "same_decode s (note_ram_write V p width s)"
proof -
  have "g_nds_active (note_ram_write V p width s) = g_nds_active s" by (cases p) (simp add: note_ram_write_def Let_def)
  then show ?thesis unfolding same_decode_def using note_ram_write_windows by blast
qed

lemma store_bytes_decode:
  assumes "hook_idle V"
  shows "same_decode s (store_bytes V width addr v p s)"
proof -
  have "g_nds_active (store_bytes V width addr v p s) = g_nds_active s"
    using assms by (cases p) (simp add: store_bytes_def Let_def hook_idle_def)
  then show ?thesis unfolding same_decode_def using store_bytes_windows [OF assms] by blast
qed

lemma same_decode_trans: "same_decode s t \<Longrightarrow> same_decode t u \<Longrightarrow> same_decode s u"
  by (auto simp: same_decode_def intro: same_windows_trans)

lemma next_generation_new: "next_generation g \<noteq> g" "next_generation g \<noteq> 0"
  by (auto simp: next_generation_def)

lemma fold_pages:
  "fold (\<lambda>page gen. if page < n then gen(page := next_generation (gen page)) else gen) [i..<j] g k
    = (if i \<le> k \<and> k < j \<and> k < n then next_generation (g k) else g k)"
  by (induction j) (auto simp: less_Suc_eq)

lemma note_ram_write_effect:
  assumes "backed s" "executable b" "p + width \<le> capacity b" "0 < width"
  shows "ram (note_ram_write V (b, p) width s) = ram s"
    and "ram_written (note_ram_write V (b, p) width s) b p"
    and "ram_generation (note_ram_write V (b, p) width s) b (p div kPage) = next_generation (ram_generation s b (p div kPage))"
proof -
  have "p div 4096 < capacity b div 4096"
    using assms(3,4) capacity_pages [of b] by (auto elim!: dvdE simp: less_mult_imp_div_less)
  moreover have "p div 4096 \<le> (p + width - 1) div 4096" using assms(4) by (intro div_le_mono) simp
  ultimately show "ram (note_ram_write V (b, p) width s) = ram s" "ram_written (note_ram_write V (b, p) width s) b p"
    "ram_generation (note_ram_write V (b, p) width s) b (p div kPage) = next_generation (ram_generation s b (p div kPage))"
    using assms by (simp_all add: note_ram_write_def Let_def size_of_def kPage_def fold_pages fill_bytes_def)
qed

lemma resolve_fits:
  assumes "fresh s" "width_ok width" "resolve addr (word_of_nat width) s = Some (b, p)"
  shows "p + width \<le> capacity b"
proof -
  have "p + width \<le> capacity b" if f: "fits b' off (word_of_nat width) s = Some (b, p)" "unat off < 2 ^ 31" for b' off
    using f fits_iff [OF freshD(2) [OF assms(1)] f(2)] width_okD [OF assms(2)] by (auto split: if_splits)
  note ft = this
  have small: "unat (addr AND 0x7FFF) < 2 ^ 31" "unat (addr AND 0x3FFF) < 2 ^ 31" "unat (addr AND 0xFFFF) < 2 ^ 31"
    "unat (addr AND 0x3FFFFF) < 2 ^ 31" "unat (addr AND 0xFFF) < 2 ^ 31" "unat (0x4000 + (addr AND 0x3FFF) :: u32) < 2 ^ 31"
    using and_mask_small [of addr] by (simp_all add: unat_word_ariths)
  have tcm: "p + width \<le> capacity b" if t: "resolve_tcm addr (word_of_nat width) s = Some (b, p)"
  proof -
    have "word_of_nat (size_of Itcm s) - 1 = (0x7FFF :: u32)" using freshD(2) [OF assms(1)] by (simp add: size_of_def)
    moreover have "unat (addr - dtcm_base (g_cp15 s)) < 2 ^ 31" if "addr - dtcm_base (g_cp15 s) < dtcm_size (g_cp15 s)"
      using that freshD(3) [OF assms(1)] by (simp add: tcm_sizes_ok_def word_less_nat_alt)
    ultimately show ?thesis using t ft small(1) unfolding resolve_tcm_def or_else_def Let_def
      by (auto split: if_splits option.splits)
  qed
  have sh: "p + width \<le> capacity b" if t: "resolve_shared addr (word_of_nat width) s = Some (b, p)"
    using t ft small(1,2,3,6) unfolding resolve_shared_def Let_def by (auto split: if_splits)
  show ?thesis using assms(3) ft small sh tcm unfolding resolve_split resolve_map_def or_else_def
    by (auto split: if_splits option.splits)
qed

text \<open>
  C5. A store to memory reads back. In every reachable state, an aligned store to an address that decodes to
  guest memory (not a BIOS image) is followed by a read of the stored value; the page the address executes
  from has a new nonzero generation, so code compiled from it is invalid, and the byte has write
  provenance.
\<close>

theorem ram_store_read_back:
  assumes "bus_reachable V s" and "devices_ok V" and "dtcm_fits s" and "width_ok width" and "width dvd unat addr"
    and "resolve addr (word_of_nat width) s = Some (b, p)" and "executable b"
  shows "bus_read V width addr (bus_write V width addr v s) = (cast_width width v, bus_write V width addr v s)
    \<and> bus_exec_page_generation addr (bus_write V width addr v s) \<notin> {0, bus_exec_page_generation addr s}
    \<and> bus_addr_has_write_provenance addr (bus_write V width addr v s)"
proof -
  have f: "fresh s" by (rule bus_reachable_fresh [OF assms(1,2)])
  have h: "hook_idle V" using assms(2) by (simp add: devices_ok_def)
  define t where "t = bus_write V width addr v s"
  define u where "u = store_bytes V width addr v (b, p) s"
  have tu: "t = note_ram_write V (b, p) width u"
    unfolding t_def u_def using write_fast_slow [OF f assms(3,4) h, of addr v] assms(6) by (simp add: bus_write_slow_def)
  have su: "same_decode s u" unfolding u_def by (rule store_bytes_decode [OF h])
  have st: "same_decode s t" unfolding tu by (rule same_decode_trans [OF su note_ram_write_decode])
  have ft: "fresh t" using same_windows_fresh [OF _ f] st by (simp add: same_decode_def)
  have dt: "dtcm_fits t" using assms(3) st by (simp add: dtcm_fits_def same_decode_def same_windows_def)
  have b1: "resolve addr 1 s = Some (b, p)" using resolve_aligned [OF f assms(4,5)] assms(6) by simp
  have rt: "resolve addr (word_of_nat width) t = Some (b, p)" "resolve addr 1 t = Some (b, p)"
    using resolve_cong [OF st] assms(6) b1 by simp_all
  have cap: "p + width \<le> capacity b" by (rule resolve_fits [OF f assms(4,6)])
  have bu: "backed u" using su freshD(2) [OF f] by (simp add: same_decode_def same_windows_def)
  note e = note_ram_write_effect [OF bu assms(7) cap width_okD(3) [OF assms(4)], of V, folded tu]
  have u: "ram u b = store (ram s b) p v width" "ram_generation u = ram_generation s"
    using h by (simp_all add: u_def store_bytes_def Let_def hook_idle_def)
  have "bus_read V width addr t = (cast_width width v, t)"
    using read_fast_slow [OF ft dt assms(4), of V addr] rt(1) e(1) u(1) load_store_same [OF width_okD(2) [OF assms(4)]]
    by (simp add: bus_read_slow_def cast_width_def)
  moreover have page: "p div kPage < capacity b div kPage"
    using cap width_okD(3) [OF assms(4)] capacity_pages [of b] by (auto elim!: dvdE simp: less_mult_imp_div_less kPage_def)
  have "exec_page_generation_slow addr t = next_generation (exec_page_generation_slow addr s)"
    using rt(2) b1 e(3) u(2) page freshD(2) [OF ft] freshD(2) [OF f] assms(7)
    by (simp add: exec_page_generation_slow_def page_generation_for_ptr_def size_of_def)
  then have "bus_exec_page_generation addr t \<notin> {0, bus_exec_page_generation addr s}"
    using generation_fast_slow [OF ft dt, of addr] generation_fast_slow [OF f assms(3), of addr] next_generation_new by simp
  moreover have "bus_addr_has_write_provenance addr t"
  proof -
    have c: "page_chunk addr 1 = 1" using page_chunk_pos [of 1 addr] by (simp add: page_chunk_def)
    have "p + 1 \<le> size_of b t" using cap width_okD(3) [OF assms(4)] freshD(2) [OF ft] by (simp add: size_of_def)
    then have "range_provenance addr (Suc 0) t" using rt(2) e(2) assms(7) c
      by (subst range_provenance.simps) (simp add: range_provenance.simps [of _ 0])
    then show ?thesis by (simp add: bus_addr_has_write_provenance_def bus_range_has_write_provenance_def)
  qed
  ultimately show ?thesis unfolding t_def by blast
qed

text \<open>
  C31. A memory image restores. Importing the image a machine exports succeeds in any state and restores
  every byte of every backing store, the written map and the page generations of the executable ones, and
  publishes windows that agree with the decode, so inline accesses see the restored memory.
\<close>

theorem bus_savestate_restores:
  assumes "backed s" and "tcm_sizes_ok t"
  shows "\<exists>u. bus_savestate_import V (bus_savestate_export s) t = (Inr (), u) \<and> fresh u
    \<and> (\<forall>b. \<forall>i < capacity b. ram u b i = ram s b i)
    \<and> (\<forall>b. executable b \<longrightarrow> (\<forall>i < capacity b. ram_written u b i = ram_written s b i)
        \<and> (\<forall>i < capacity b div kPage. ram_generation u b i = ram_generation s b i))"
proof -
  let ?i = "bus_savestate_export s"
  have v: "bus_savestate_validate ?i = Inr ()"
    using assms(1) by (simp add: bus_savestate_validate_def bus_savestate_export_def size_of_def)
  define r where "r = t\<lparr>backed := True, ram := (\<lambda>b. import_bytes (bs_ram ?i b) id 0),
    ram_written := (\<lambda>b. import_bytes (bs_written ?i b) (\<lambda>v. v \<noteq> 0) False),
    ram_generation := (\<lambda>b. import_bytes (bs_generation ?i b) id 0)\<rparr>"
  define q where "q = bus_fast_refresh (reset_arm9_code_timing r)"
  have im: "bus_savestate_import V ?i t = (Inr (), note_code_write V q)"
    by (simp only: bus_savestate_import_def v sum.case Let_def q_def r_def)
  have "fresh q" unfolding q_def
    by (rule refresh_fresh) (use assms(2) in \<open>simp_all add: reset_arm9_code_timing_def tcm_sizes_ok_def r_def\<close>)
  then have fr: "fresh (note_code_write V q)" by (rule same_windows_fresh [OF note_code_write_windows])
  have c: "ram q = ram r" "ram_written q = ram_written r" "ram_generation q = ram_generation r"
    by (simp_all add: q_def reset_arm9_code_timing_def)
  have r: "i < capacity b \<Longrightarrow> ram r b i = ram s b i" "executable b \<Longrightarrow> i < capacity b \<Longrightarrow> ram_written r b i = ram_written s b i"
    "executable b \<Longrightarrow> i < capacity b div kPage \<Longrightarrow> ram_generation r b i = ram_generation s b i" for b i
    using assms(1) by (simp_all add: r_def import_bytes_def bus_savestate_export_def size_of_def)
  show ?thesis by (intro exI [of _ "note_code_write V q"]) (simp add: im fr c r)
qed

lemma running_stored: "bus_reachable quiet_devices (bus_write quiet_devices 4 0x02000010 0x12345678 bus_running)"
  by (rule bus_reachable.step [OF running_reachable bus_step.store])

lemma running_backed: "backed bus_running" "g_cp15 bus_running = g_cp15 cp15_boot"
  by (simp_all add: bus_running_def nds_io_set_wramcnt_def bus_init_def reset_arm9_code_timing_def boot_cp15(1))

lemma ram_store_read_back_witness:
  "bus_read quiet_devices 4 0x02000010 (bus_write quiet_devices 4 0x02000010 0x12345678 bus_running)
    = (0x12345678, bus_write quiet_devices 4 0x02000010 0x12345678 bus_running)
  \<and> bus_exec_page_generation 0x02000010 (bus_write quiet_devices 4 0x02000010 0x12345678 bus_running)
      \<notin> {0, bus_exec_page_generation 0x02000010 bus_running}
  \<and> bus_addr_has_write_provenance 0x02000010 (bus_write quiet_devices 4 0x02000010 0x12345678 bus_running)"
proof -
  have t: "resolve_tcm 0x02000010 (word_of_nat 4) bus_running = None"
    by (simp add: resolve_tcm_def or_else_def Let_def running_backed cp15_boot_def rt.defs cp15.defs)
  have "resolve 0x02000010 (word_of_nat 4) bus_running = Some (Main_ram, 0x10)"
    unfolding resolve_split t resolve_map_def or_else_def fits_def size_of_def by (simp add: running_backed)
  from ram_store_read_back [OF running_reachable quiet_ok running_fits _ _ this, of "0x12345678"]
  show ?thesis by (simp add: width_ok_def executable_def cast_width_def mask_eq_exp_minus_1)
qed

lemma bus_savestate_restores_witness:
  "\<exists>u. bus_savestate_import quiet_devices (bus_savestate_export bus_running) bus_boot = (Inr (), u) \<and> fresh u
    \<and> (\<forall>b. \<forall>i < capacity b. ram u b i = ram bus_running b i)
    \<and> (\<forall>b. executable b \<longrightarrow> (\<forall>i < capacity b. ram_written u b i = ram_written bus_running b i)
        \<and> (\<forall>i < capacity b div kPage. ram_generation u b i = ram_generation bus_running b i))"
  by (rule bus_savestate_restores [OF running_backed(1)]) (simp add: tcm_sizes_ok_def boot_cp15 cp15_boot_def rt.defs cp15.defs)

end
