(* ===== verification/MemTiming.thy ===== *)
theory MemTiming
  imports BusFast
begin

text \<open>
  Memory timing (\<open>runner/src/bus.cpp\<close>, with the inline halves of \<open>recompiler/armv4t/runtime_arm.h\<close>): what a
  data access, an instruction fetch and a pipeline refill cost on each CPU. Every cost has two spellings,
  an out-of-line one and an inline one over published words; they are shown equal, and the remembered
  code class is shown to be the present one. The timing profile build is not modelled.
\<close>

section \<open>ARM7 regions\<close>

record region_timing =
  n16 :: u32
  s16 :: u32
  bus_width :: u32

definition wait_states :: "u16 \<Rightarrow> u32" where
  "wait_states i = [10, 8, 6, 18] ! unat (i AND 3)"

definition region :: "u32 \<Rightarrow> u32 \<Rightarrow> u32 \<Rightarrow> region_timing" where
  "region n s w = \<lparr>n16 = n, s16 = s, bus_width = w\<rparr>"

definition arm7_region :: "u32 \<Rightarrow> 'a bus_scheme \<Rightarrow> region_timing" where
  "arm7_region addr s =
    (if addr \<ge> 0x02000000 \<and> addr < 0x03000000 then region 8 1 16
     else if addr \<ge> 0x06000000 \<and> addr < 0x07000000 then region 1 1 16
     else if addr \<ge> 0x04800000 \<and> addr < 0x04810000 then
       (if powercontrol7 s AND 2 = 0 then region 1 1 32
        else let wait = wifiwaitcnt s in
          if addr < 0x04808000 then region (wait_states wait) (if wait AND 4 \<noteq> 0 then 4 else 6) 16
          else region (wait_states (drop_bit 3 wait)) (if wait AND 0x20 \<noteq> 0 then 4 else 10) 16)
     else if addr \<ge> 0x08000000 \<and> addr < 0x0A000000 then
       (let ex = exmemcnt s ARM7 in
        if ex AND 0x80 = 0 then region 1 1 32
        else region (wait_states (drop_bit 2 ex)) (if ex AND 0x10 \<noteq> 0 then 4 else 6) 16)
     else if addr \<ge> 0x0A000000 \<and> addr < 0x0B000000 then
       (let ex = exmemcnt s ARM7 in
        if ex AND 0x80 = 0 then region 1 1 32 else region (wait_states ex) (wait_states ex) 8)
     else region 1 1 32)"

definition arm7_n32 :: "region_timing \<Rightarrow> u32" where
  "arm7_n32 r = (if bus_width r = 32 then n16 r else if bus_width r = 16 then n16 r + s16 r else n16 r + 3 * s16 r)"

definition arm7_s32 :: "region_timing \<Rightarrow> u32" where
  "arm7_s32 r = (if bus_width r = 32 then s16 r else if bus_width r = 16 then 2 * s16 r else 4 * s16 r)"

section \<open>Data accesses\<close>

definition arm9_gba_slot_cycles :: "u32 \<Rightarrow> nat \<Rightarrow> bool \<Rightarrow> 'a bus_scheme \<Rightarrow> u32" where
  "arm9_gba_slot_cycles addr width sequential s =
    (let ex = exmemcnt s ARM9 in
     if ex AND 0x80 \<noteq> 0 then (if sequential \<and> width \<ge> 4 then 2 else 8)
     else if addr < 0x0A000000 then
       (let n = wait_states (drop_bit 2 ex); s16 = if ex AND 0x10 \<noteq> 0 then 4 else 6 in
        if sequential \<and> width \<ge> 4 then push_bit 1 (2 * s16)
        else push_bit 1 ((if width \<ge> 4 then n + s16 else n) + 3))
     else let n = wait_states ex in
       if sequential \<and> width \<ge> 4 then push_bit 1 n else push_bit 1 (n + 3))"

text \<open>The uncached rest of the ARM9 map, the same lines in all three spellings.\<close>

definition arm9_uncached :: "bool \<Rightarrow> bool \<Rightarrow> nat \<Rightarrow> bool \<Rightarrow> u32" where
  "arm9_uncached main_ram pal_vram width sequential =
    (if sequential then (if main_ram \<or> pal_vram then 4 else 2)
     else if width \<ge> 4 then (if main_ram then 18 else if pal_vram then 10 else 8)
     else (if main_ram then 16 else 8))"

definition in_itcm :: "u32 \<Rightarrow> 'a cp15_scheme \<Rightarrow> bool" where
  "in_itcm addr s \<longleftrightarrow> itcm_enable (g_cp15 s) \<and> addr < itcm_size (g_cp15 s)"

definition in_dtcm :: "u32 \<Rightarrow> 'a cp15_scheme \<Rightarrow> bool" where
  "in_dtcm addr s \<longleftrightarrow> dtcm_enable (g_cp15 s) \<and> addr \<ge> dtcm_base (g_cp15 s) \<and> addr - dtcm_base (g_cp15 s) < dtcm_size (g_cp15 s)"

definition arm7_data :: "u32 \<Rightarrow> nat \<Rightarrow> bool \<Rightarrow> 'a bus_scheme \<Rightarrow> u32" where
  "arm7_data addr width sequential s =
    (let r = arm7_region addr s in if width \<ge> 4 then (if sequential then arm7_s32 r else arm7_n32 r) else n16 r)"

definition note_data :: "u32 \<Rightarrow> 'a bus_scheme \<Rightarrow> 'a bus_scheme" where
  "note_data addr s = s\<lparr>g_last_data_addr := (g_last_data_addr s)(g_nds_active s := addr)\<rparr>"

definition runtime_mem_cycles_slow :: "u32 \<Rightarrow> nat \<Rightarrow> bool \<Rightarrow> 'a bus_scheme \<Rightarrow> u32 \<times> 'a bus_scheme" where
  "runtime_mem_cycles_slow addr width sequential s =
    (let s = note_data addr s in
     (if g_nds_active s \<noteq> ARM9 then arm7_data addr width sequential s
      else if in_itcm addr s then 1
      else if in_dtcm addr s then 1
      else if cp15_data_cacheable addr s then (if sequential then 1 else 3)
      else if addr \<ge> 0x08000000 \<and> addr < 0x0B000000 then arm9_gba_slot_cycles addr width sequential s
      else arm9_uncached (addr \<ge> 0x02000000 \<and> addr < 0x03000000) (addr \<ge> 0x05000000 \<and> addr < 0x07000000) width sequential, s))"

definition runtime_mem_cycles_reference :: "u32 \<Rightarrow> nat \<Rightarrow> bool \<Rightarrow> 'a bus_scheme \<Rightarrow> u32" where
  "runtime_mem_cycles_reference addr width sequential s =
    (if g_nds_active s \<noteq> ARM9 then arm7_data addr width sequential s
     else if in_itcm addr s then 1
     else if in_dtcm addr s then 1
     else if cp15_data_cacheable_reference addr s then (if sequential then 1 else 3)
     else if addr \<ge> 0x08000000 \<and> addr < 0x0B000000 then arm9_gba_slot_cycles addr width sequential s
     else arm9_uncached (addr \<ge> 0x02000000 \<and> addr < 0x03000000) (addr \<ge> 0x05000000 \<and> addr < 0x07000000) width sequential)"

definition runtime_mem_cycles :: "u32 \<Rightarrow> nat \<Rightarrow> bool \<Rightarrow> 'a bus_scheme \<Rightarrow> u32 \<times> 'a bus_scheme" where
  "runtime_mem_cycles addr width sequential s =
    (if g_nds_active s = ARM9 then
       (let s = note_data addr s in
        if addr < g_memt_itcm_limit s then (1, s)
        else if g_memt_dtcm_size s \<noteq> 0 \<and> addr \<ge> g_memt_dtcm_base s \<and> addr - g_memt_dtcm_base s < g_memt_dtcm_size s then (1, s)
        else if \<not> g_cp15_class_ready s then runtime_mem_cycles_slow addr width sequential s
        else if class_page_bit (g_cp15_dcache_page s) addr then (if sequential then 1 else 3, s)
        else if addr - 0x08000000 < 0x03000000 then runtime_mem_cycles_slow addr width sequential s
        else (arm9_uncached (addr - 0x02000000 < 0x01000000) (addr - 0x05000000 < 0x02000000) width sequential, s))
     else
       (let s = note_data addr s in
        if addr - 0x02000000 < 0x01000000 then (if width \<ge> 4 then (if sequential then 2 else 9) else 8, s)
        else if addr - 0x06000000 < 0x01000000 then (if width \<ge> 4 then 2 else 1, s)
        else if addr - 0x04800000 < 0x00010000 \<or> addr - 0x08000000 < 0x03000000
          then runtime_mem_cycles_slow addr width sequential s
        else (1, s)))"

section \<open>Instruction fetches\<close>

definition timing_index :: "code_timing \<Rightarrow> nat" where
  "timing_index t = (case t of Timing_itcm \<Rightarrow> 0 | Timing_cached \<Rightarrow> 1 | Timing_main_ram \<Rightarrow> 2 | Timing_other \<Rightarrow> 3)"

definition arm9_code_fast_publish :: "'a bus_scheme \<Rightarrow> 'a bus_scheme" where
  "arm9_code_fast_publish s =
    (let s = s\<lparr>g_arm9_itcm_code_limit := (if itcm_enable (g_cp15 s) then itcm_size (g_cp15 s) else 0)\<rparr> in
     if \<not> g_arm9_region_code_timing_valid s then s\<lparr>g_arm9_code_pub_gen := 0\<rparr>
     else s\<lparr>g_arm9_code_class_shift := 8 * word_of_nat (timing_index (g_arm9_region_code_timing s)),
       g_arm9_code_pub_gen := g_cp15_timing_generation s\<rparr>)"

definition page_class :: "u32 \<Rightarrow> bool \<Rightarrow> code_timing" where
  "page_class page cacheable =
    (if cacheable then Timing_cached else if page \<ge> 0x02000000 \<and> page < 0x03000000 then Timing_main_ram else Timing_other)"

definition arm9_code_timing :: "u32 \<Rightarrow> 'a bus_scheme \<Rightarrow> code_timing \<times> 'a bus_scheme" where
  "arm9_code_timing addr s =
    (let page = addr AND NOT 0xFFF; c = g_arm9_code_timing s in
     if ct_page c = page \<and> ct_generation c = g_cp15_timing_generation s then (ct_timing c, s)
     else let t = page_class page (cp15_code_cacheable page s) in
       (t, s\<lparr>g_arm9_code_timing := \<lparr>ct_page = page, ct_generation = g_cp15_timing_generation s, ct_timing = t\<rparr>\<rparr>))"

definition arm9_current_code_timing :: "u32 \<Rightarrow> 'a bus_scheme \<Rightarrow> code_timing \<times> 'a bus_scheme" where
  "arm9_current_code_timing addr s =
    (if in_itcm addr s then (Timing_itcm, s)
     else if \<not> g_arm9_region_code_timing_valid s then
       (let (t, s) = arm9_code_timing addr s
        in (t, s\<lparr>g_arm9_region_code_timing := t, g_arm9_region_code_timing_valid := True\<rparr>))
     else (g_arm9_region_code_timing s, s))"

definition arm9_latch_code_timing :: "u32 \<Rightarrow> 'a bus_scheme \<Rightarrow> code_timing \<times> 'a bus_scheme" where
  "arm9_latch_code_timing addr s =
    (let (t, s) = arm9_code_timing addr s;
         s = arm9_code_fast_publish (s\<lparr>g_arm9_region_code_timing := t, g_arm9_region_code_timing_valid := True\<rparr>)
     in if in_itcm addr s then (Timing_itcm, s) else (g_arm9_region_code_timing s, s))"

definition note_code :: "u32 \<Rightarrow> 'a bus_scheme \<Rightarrow> 'a bus_scheme" where
  "note_code pc s = s\<lparr>g_last_code_pc := (g_last_code_pc s)(g_nds_active s := pc)\<rparr>"

definition runtime_code_cycles :: "u32 \<Rightarrow> 'a bus_scheme \<Rightarrow> u32 \<times> 'a bus_scheme" where
  "runtime_code_cycles pc s =
    (let thumb = cpsr_t (g_cpu s); s = note_code pc s in
     if g_nds_active s \<noteq> ARM9 then
       (let r = arm7_region pc s; s32 = s16 r + s16 r in
        (if bus_width r = 32 then 0 else if thumb then 0 else if s32 > 1 then s32 - 1 else 0, s))
     else if thumb \<and> pc AND 2 \<noteq> 0 then (0, s)
     else let (timing, s) = arm9_current_code_timing pc s; s = arm9_code_fast_publish s in
       (if timing = Timing_itcm then 1
        else if timing = Timing_cached then (if (pc + (if thumb then 4 else 8)) AND 0x1F \<noteq> 0 then 1 else 3)
        else if timing = Timing_main_ram then 18 else 8, s))"

definition NDS_ARM9_CODE_K :: "u32 \<Rightarrow> bool \<Rightarrow> u32" where
  "NDS_ARM9_CODE_K pc thumb =
    (if thumb \<and> pc AND 2 \<noteq> 0 then 0
     else 0x08120001 OR (if (pc + (if thumb then 4 else 8)) AND 0x1F \<noteq> 0 then 0x0100 else 0x0300))"

definition nds_code_numc :: "u32 \<Rightarrow> u32 \<Rightarrow> 'a bus_scheme \<Rightarrow> u32 \<times> 'a bus_scheme" where
  "nds_code_numc pc k s =
    (if g_nds_active s \<noteq> ARM9 then runtime_code_cycles pc s
     else if g_arm9_code_pub_gen s \<noteq> g_cp15_timing_generation s then runtime_code_cycles pc s
     else let s = note_code pc s in
       if k = 0 then (0, s)
       else if pc < g_arm9_itcm_code_limit s then (1, s)
       else (drop_bit (unat (g_arm9_code_class_shift s)) k AND 0xFF, s))"

section \<open>Refills and the per-instruction sum\<close>

definition arm7_refill_cycles :: "u32 \<Rightarrow> 'a bus_scheme \<Rightarrow> u32" where
  "arm7_refill_cycles target s =
    (let r = arm7_region (target AND NOT 1) s in
     if target AND 1 \<noteq> 0 then n16 r + s16 r else arm7_n32 r + arm7_s32 r)"

definition arm9_refill_cycles :: "u32 \<Rightarrow> 'a bus_scheme \<Rightarrow> u32 \<times> 'a bus_scheme" where
  "arm9_refill_cycles target s =
    (let thumb = target AND 1 \<noteq> 0; addr = target AND NOT 1; words = (if thumb \<and> addr AND 2 = 0 then 1 else 2);
         (timing, s) = arm9_latch_code_timing addr s
     in (if timing = Timing_itcm then words
         else if timing = Timing_cached then
           3 + (if words = 2 then (if (addr + (if thumb then 2 else 4)) AND 0x1F \<noteq> 0 then 1 else 3) else 0)
         else words * (if timing = Timing_main_ram then 18 else 8), s))"

definition overlap :: "u32 \<Rightarrow> u32 \<Rightarrow> u32 \<Rightarrow> u32" where
  "overlap k c d = (let v = (if c + d > k then c + d - k else 0) in max v (max c d))"

definition arm7_cycle_combine :: "u32 \<Rightarrow> u32 \<Rightarrow> bool \<Rightarrow> bool \<Rightarrow> 'a bus_scheme \<Rightarrow> u32" where
  "arm7_cycle_combine flat_cycles numD is_load has_internal s =
    (let pc = g_last_code_pc s ARM7; data_addr = g_last_data_addr s ARM7; code = arm7_region pc s; thumb = cpsr_t (g_cpu s);
         seqC = (if thumb then s16 code else arm7_s32 code); numC = (if thumb then n16 code else arm7_n32 code);
         code_main = pc \<ge> 0x02000000 \<and> pc < 0x03000000; data_main = data_addr \<ge> 0x02000000 \<and> data_addr < 0x03000000
     in if flat_cycles = 0 \<and> numD = 0 then 0
        else if numD = 0 then (if \<not> has_internal then flat_cycles + seqC - 1 else flat_cycles + numC - 1)
        else if data_main then
          (if code_main then numC + numD else overlap 3 (if is_load then numC + 1 else numC) numD)
        else if code_main then overlap 3 numC (if is_load then numD + 1 else numD)
        else numC + numD + (if is_load then 1 else 0))"


section \<open>Data timing\<close>

text \<open>\<open>bus_fast_refresh\<close> mirrors the TCM registers.\<close>

definition mirrors_ok :: "'a bus_scheme \<Rightarrow> bool" where
  "mirrors_ok s \<longleftrightarrow> g_memt_itcm_limit s = (if itcm_enable (g_cp15 s) then itcm_size (g_cp15 s) else 0) \<and>
    g_memt_dtcm_base s = dtcm_base (g_cp15 s) \<and> g_memt_dtcm_size s = (if dtcm_enable (g_cp15 s) then dtcm_size (g_cp15 s) else 0)"

lemma blocks:
  fixes addr :: u32
  shows "addr - 0x02000000 < 0x01000000 \<longleftrightarrow> addr \<ge> 0x02000000 \<and> addr < 0x03000000"
    "addr - 0x05000000 < 0x02000000 \<longleftrightarrow> addr \<ge> 0x05000000 \<and> addr < 0x07000000"
    "addr - 0x06000000 < 0x01000000 \<longleftrightarrow> addr \<ge> 0x06000000 \<and> addr < 0x07000000"
    "addr - 0x04800000 < 0x00010000 \<longleftrightarrow> addr \<ge> 0x04800000 \<and> addr < 0x04810000"
    "addr - 0x08000000 < 0x03000000 \<longleftrightarrow> addr \<ge> 0x08000000 \<and> addr < 0x0B000000"
  using difference_below [of "0x02000000" "0x01000000" addr] difference_below [of "0x05000000" "0x02000000" addr]
    difference_below [of "0x06000000" "0x01000000" addr] difference_below [of "0x04800000" "0x00010000" addr]
    difference_below [of "0x08000000" "0x03000000" addr]
  by (simp_all add: word_less_nat_alt)

lemma note_data_fields [simp]:
  "g_nds_active (note_data a s) = g_nds_active s" "g_cp15 (note_data a s) = g_cp15 s"
  "g_memt_itcm_limit (note_data a s) = g_memt_itcm_limit s" "g_memt_dtcm_base (note_data a s) = g_memt_dtcm_base s"
  "g_memt_dtcm_size (note_data a s) = g_memt_dtcm_size s" "g_cp15_class_ready (note_data a s) = g_cp15_class_ready s"
  "g_cp15_dcache_page (note_data a s) = g_cp15_dcache_page s"
  "arm7_data b w q (note_data a s) = arm7_data b w q s" "in_itcm b (note_data a s) = in_itcm b s" "in_dtcm b (note_data a s) = in_dtcm b s"
  "arm9_gba_slot_cycles b w q (note_data a s) = arm9_gba_slot_cycles b w q s"
  "note_data a (note_data b s) = note_data a s"
  by (simp_all add: note_data_def arm7_data_def arm7_region_def in_itcm_def in_dtcm_def arm9_gba_slot_cycles_def Let_def)

lemma same_walk: "same_cp15 s t \<Longrightarrow> region_walk t bits addr k = region_walk s bits addr k"
  by (induction k) (simp_all add: same_cp15_def mpu_region_contains_def)

lemma same_cacheable:
  assumes "same_cp15 s t"
  shows "cp15_data_cacheable addr t = cp15_data_cacheable addr s" "cp15_code_cacheable addr t = cp15_code_cacheable addr s"
    "cp15_data_cacheable_reference addr t = cp15_data_cacheable_reference addr s"
    "cp15_code_cacheable_reference addr t = cp15_code_cacheable_reference addr s"
proof -
  have e: "g_cp15 t = g_cp15 s" "g_cache_cfg t = g_cache_cfg s" "g_cp15_class_ready t = g_cp15_class_ready s"
    "g_cp15_dcache_page t = g_cp15_dcache_page s" "g_cp15_icache_page t = g_cp15_icache_page s"
    using assms by (simp_all add: same_cp15_def)
  show "cp15_data_cacheable addr t = cp15_data_cacheable addr s" "cp15_code_cacheable addr t = cp15_code_cacheable addr s"
    "cp15_data_cacheable_reference addr t = cp15_data_cacheable_reference addr s"
    "cp15_code_cacheable_reference addr t = cp15_code_cacheable_reference addr s"
    by (simp_all only: cp15_data_cacheable_def cp15_code_cacheable_def cp15_data_cacheable_reference_def
        cp15_code_cacheable_reference_def same_walk [OF assms] e)
qed

lemma note_data_cacheable [simp]: "cp15_data_cacheable b (note_data a s) = cp15_data_cacheable b s"
proof -
  have "same_cp15 s (note_data a s)" by (simp add: same_cp15_def note_data_def)
  then show ?thesis by (rule same_cacheable)
qed

lemma in_itcm_mirror: "mirrors_ok s \<Longrightarrow> addr < g_memt_itcm_limit s \<longleftrightarrow> in_itcm addr s"
  by (simp add: mirrors_ok_def in_itcm_def)

lemma in_dtcm_mirror: "mirrors_ok s \<Longrightarrow>
    g_memt_dtcm_size s \<noteq> 0 \<and> addr \<ge> g_memt_dtcm_base s \<and> addr - g_memt_dtcm_base s < g_memt_dtcm_size s \<longleftrightarrow> in_dtcm addr s"
  by (auto simp: mirrors_ok_def in_dtcm_def)

lemma slot_halves:
  "\<not> (addr \<ge> 0x08000000 \<and> addr < 0x0B000000) \<Longrightarrow>
    \<not> (addr \<ge> 0x08000000 \<and> addr < 0x0A000000) \<and> \<not> (addr \<ge> 0x0A000000 \<and> addr < (0x0B000000 :: u32))"
  by (auto simp: word_le_nat_alt word_less_nat_alt)

lemma arm7_blocks:
  "addr \<ge> 0x02000000 \<and> addr < 0x03000000 \<Longrightarrow> arm7_region addr s = region 8 1 16"
  "\<not> (addr \<ge> 0x02000000 \<and> addr < 0x03000000) \<Longrightarrow> addr \<ge> 0x06000000 \<and> addr < 0x07000000 \<Longrightarrow> arm7_region addr s = region 1 1 16"
  "\<not> (addr \<ge> 0x02000000 \<and> addr < 0x03000000) \<Longrightarrow> \<not> (addr \<ge> 0x06000000 \<and> addr < 0x07000000) \<Longrightarrow>
    \<not> (addr \<ge> 0x04800000 \<and> addr < 0x04810000) \<Longrightarrow> \<not> (addr \<ge> 0x08000000 \<and> addr < 0x0B000000) \<Longrightarrow> arm7_region addr s = region 1 1 32"
  using slot_halves [of addr] by (simp_all only: arm7_region_def if_True if_False simp_thms)

lemma inline_data_exact:
  assumes m: "mirrors_ok s" and i: "cp15_inv s"
  shows "runtime_mem_cycles addr width sequential s = runtime_mem_cycles_slow addr width sequential s"
    and "runtime_mem_cycles_slow addr width sequential s = (runtime_mem_cycles_reference addr width sequential s, note_data addr s)"
proof -
  have c: "cp15_data_cacheable addr s = cp15_data_cacheable_reference addr s"
    using i by (simp add: cp15_inv_def coherent_def cp15_data_cacheable_def)
  show "runtime_mem_cycles_slow addr width sequential s = (runtime_mem_cycles_reference addr width sequential s, note_data addr s)"
    by (simp only: runtime_mem_cycles_slow_def runtime_mem_cycles_reference_def Let_def note_data_fields note_data_cacheable c)
  have rd: "g_cp15_class_ready s \<Longrightarrow> class_page_bit (g_cp15_dcache_page s) addr = cp15_data_cacheable addr s"
    by (simp add: cp15_data_cacheable_def)
  show "runtime_mem_cycles addr width sequential s = runtime_mem_cycles_slow addr width sequential s"
  proof (cases "g_nds_active s = ARM9")
    case True
    have slow: "runtime_mem_cycles_slow addr width sequential (note_data addr s) = runtime_mem_cycles_slow addr width sequential s"
      by (simp only: runtime_mem_cycles_slow_def Let_def note_data_fields note_data_cacheable)
    show ?thesis
      by (cases "in_itcm addr s"; cases "in_dtcm addr s"; cases "g_cp15_class_ready s"; cases "cp15_data_cacheable addr s";
          cases "addr \<ge> 0x08000000 \<and> addr < 0x0B000000")
        (simp_all only: runtime_mem_cycles_def runtime_mem_cycles_slow_def Let_def True note_data_fields note_data_cacheable slow blocks
          in_itcm_mirror [OF m] in_dtcm_mirror [OF m] rd if_True if_False simp_thms)
  next
    case False
    show ?thesis
      by (cases "addr \<ge> 0x02000000 \<and> addr < 0x03000000"; cases "addr \<ge> 0x06000000 \<and> addr < 0x07000000";
          cases "addr \<ge> 0x04800000 \<and> addr < 0x04810000"; cases "addr \<ge> 0x08000000 \<and> addr < 0x0B000000")
        (simp_all only: runtime_mem_cycles_def runtime_mem_cycles_slow_def Let_def False note_data_fields blocks arm7_data_def
          arm7_blocks if_True if_False simp_thms, simp_all add: region_def arm7_n32_def arm7_s32_def)
  qed
qed

section \<open>The published code class\<close>

definition itcm_limit :: "'a cp15_scheme \<Rightarrow> u32" where
  "itcm_limit s = (if itcm_enable (g_cp15 s) then itcm_size (g_cp15 s) else 0)"

lemma in_itcm_limit: "in_itcm addr s \<longleftrightarrow> addr < itcm_limit s"
  by (simp add: in_itcm_def itcm_limit_def)

text \<open>The class of a page by the walk over the protection regions.\<close>

definition class_at :: "u32 \<Rightarrow> 'a cp15_scheme \<Rightarrow> code_timing" where
  "class_at addr s = (let page = addr AND NOT 0xFFF in page_class page (cp15_code_cacheable_reference page s))"

definition published_ok :: "'a bus_scheme \<Rightarrow> bool" where
  "published_ok s \<longleftrightarrow> g_arm9_code_pub_gen s = g_cp15_timing_generation s \<longrightarrow>
    g_arm9_region_code_timing_valid s \<and> g_arm9_code_class_shift s = 8 * word_of_nat (timing_index (g_arm9_region_code_timing s)) \<and>
    g_arm9_itcm_code_limit s = itcm_limit s"

definition cached_ok :: "'a bus_scheme \<Rightarrow> bool" where
  "cached_ok s \<longleftrightarrow> (let c = g_arm9_code_timing s; g = g_cp15_timing_generation s in
    ct_page c = 0xFFFFFFFF \<or> ct_page c = ct_page c AND NOT 0xFFF \<and> ct_generation c \<le> g \<and>
      (ct_generation c = g \<longrightarrow> ct_timing c = class_at (ct_page c) s))"

definition timing_ok :: "'a bus_scheme \<Rightarrow> bool" where
  "timing_ok s \<longleftrightarrow> cp15_inv s \<and> mirrors_ok s \<and> published_ok s \<and> cached_ok s \<and>
    g_arm9_code_pub_gen s \<le> g_cp15_timing_generation s \<and> g_arm9_region_code_timing s \<noteq> Timing_itcm"

lemma timing_okD:
  assumes "timing_ok s"
  shows "cp15_inv s" "mirrors_ok s" "published_ok s" "cached_ok s" "g_arm9_code_pub_gen s \<le> g_cp15_timing_generation s"
    "g_arm9_region_code_timing s \<noteq> Timing_itcm" "g_cp15_timing_generation s \<noteq> 0"
  using assms by (simp_all add: timing_ok_def cp15_inv_def)

lemma page_class_not_itcm [simp]: "page_class page b \<noteq> Timing_itcm" "class_at addr s \<noteq> Timing_itcm"
  by (simp_all add: page_class_def class_at_def Let_def)

lemma page_of_page [simp]: "(addr AND NOT 0xFFF) AND NOT 0xFFF = (addr AND NOT 0xFFF :: u32)"
  by (simp add: and.assoc)

lemma page_not_sentinel: "addr AND NOT 0xFFF \<noteq> (0xFFFFFFFF :: u32)"
proof
  assume "addr AND NOT 0xFFF = (0xFFFFFFFF :: u32)"
  then have "bit (addr AND NOT 0xFFF) 0 = bit (0xFFFFFFFF :: u32) 0" by simp
  then show False by (simp add: bit_simps)
qed

text \<open>What the fetch state depends on of CP15.\<close>

definition same_classes :: "'a bus_scheme \<Rightarrow> 'a bus_scheme \<Rightarrow> bool" where
  "same_classes s t \<longleftrightarrow> g_arm9_code_timing t = g_arm9_code_timing s \<and> g_arm9_region_code_timing t = g_arm9_region_code_timing s \<and>
    g_arm9_region_code_timing_valid t = g_arm9_region_code_timing_valid s \<and> g_arm9_code_pub_gen t = g_arm9_code_pub_gen s \<and>
    g_arm9_code_class_shift t = g_arm9_code_class_shift s \<and> g_arm9_itcm_code_limit t = g_arm9_itcm_code_limit s"

definition same_mirrors :: "'a bus_scheme \<Rightarrow> 'a bus_scheme \<Rightarrow> bool" where
  "same_mirrors s t \<longleftrightarrow> g_memt_itcm_limit t = g_memt_itcm_limit s \<and> g_memt_dtcm_base t = g_memt_dtcm_base s \<and>
    g_memt_dtcm_size t = g_memt_dtcm_size s"

lemma same_classes_trans: "same_classes s t \<Longrightarrow> same_classes t u \<Longrightarrow> same_classes s u"
  by (simp add: same_classes_def)

lemma same_class_at: "same_cp15 s t \<Longrightarrow> class_at addr t = class_at addr s"
  by (simp add: class_at_def Let_def same_cacheable)

lemma same_timing_ok:
  assumes c: "same_cp15 s t" and k: "same_classes s t" and m: "same_mirrors s t" and s: "timing_ok s"
  shows "timing_ok t"
proof -
  note ok = timing_okD [OF s]
  have e: "g_cp15 t = g_cp15 s" "g_cp15_timing_generation t = g_cp15_timing_generation s" using c by (simp_all add: same_cp15_def)
  have "cp15_inv t" by (rule same_cp15_inv [OF c ok(1)])
  moreover have "mirrors_ok t" using ok(2) m e by (simp add: mirrors_ok_def same_mirrors_def)
  moreover have "published_ok t" using ok(3) k e by (simp add: published_ok_def same_classes_def itcm_limit_def)
  moreover have "cached_ok t" using ok(4) k e same_class_at [OF c] by (simp add: cached_ok_def same_classes_def Let_def)
  ultimately show ?thesis using ok(5,6) k e by (simp add: timing_ok_def same_classes_def)
qed

lemma code_cacheable_exact: "cp15_inv s \<Longrightarrow> cp15_code_cacheable addr s = cp15_code_cacheable_reference addr s"
  by (simp add: cp15_inv_def coherent_def cp15_code_cacheable_def)

lemma code_timing_exact:
  assumes s: "timing_ok s"
  shows "fst (arm9_code_timing addr s) = class_at addr s"
    and "timing_ok (snd (arm9_code_timing addr s))"
    and "same_cp15 s (snd (arm9_code_timing addr s))"
proof -
  note ok = timing_okD [OF s]
  let ?page = "addr AND NOT 0xFFF" and ?c = "g_arm9_code_timing s"
  have cl: "class_at ?page s = class_at addr s" by (simp add: class_at_def)
  have r: "page_class ?page (cp15_code_cacheable ?page s) = class_at addr s"
    by (simp add: class_at_def Let_def code_cacheable_exact [OF ok(1)])
  have hit: "ct_timing ?c = class_at addr s" if "ct_page ?c = ?page" "ct_generation ?c = g_cp15_timing_generation s"
    using ok(4) that page_not_sentinel [of addr] cl by (simp add: cached_ok_def Let_def)
  show "fst (arm9_code_timing addr s) = class_at addr s" using hit r by (simp add: arm9_code_timing_def Let_def)
  define t where "t = s\<lparr>g_arm9_code_timing := \<lparr>ct_page = ?page, ct_generation = g_cp15_timing_generation s, ct_timing = class_at addr s\<rparr>\<rparr>"
  have tc: "same_cp15 s t" by (simp add: same_cp15_def t_def)
  have "timing_ok t"
  proof -
    have "cp15_inv t" by (rule same_cp15_inv [OF tc ok(1)])
    moreover have "cached_ok t" using same_class_at [OF tc, of ?page] cl by (simp add: cached_ok_def Let_def t_def)
    ultimately show ?thesis using ok by (simp add: timing_ok_def t_def mirrors_ok_def published_ok_def itcm_limit_def)
  qed
  moreover have "snd (arm9_code_timing addr s) = s \<or> snd (arm9_code_timing addr s) = t"
    unfolding arm9_code_timing_def Let_def r t_def by (simp only: snd_conv if_distrib [of snd] split: if_split) simp
  moreover have "same_cp15 s s" by (simp add: same_cp15_def)
  ultimately show "timing_ok (snd (arm9_code_timing addr s))" "same_cp15 s (snd (arm9_code_timing addr s))"
    using s tc by auto
qed

lemma latch_ok:
  assumes s: "timing_ok s" and t: "t \<noteq> Timing_itcm"
  shows "timing_ok (arm9_code_fast_publish (s\<lparr>g_arm9_region_code_timing := t, g_arm9_region_code_timing_valid := True\<rparr>))"
proof -
  note ok = timing_okD [OF s]
  define u where "u = arm9_code_fast_publish (s\<lparr>g_arm9_region_code_timing := t, g_arm9_region_code_timing_valid := True\<rparr>)"
  have c: "same_cp15 s u" by (simp add: same_cp15_def u_def arm9_code_fast_publish_def Let_def)
  have "cp15_inv u" by (rule same_cp15_inv [OF c ok(1)])
  moreover have "cached_ok u" using ok(4) same_class_at [OF c] by (simp add: cached_ok_def Let_def u_def arm9_code_fast_publish_def)
  ultimately show ?thesis unfolding u_def [symmetric] using ok t
    by (simp add: timing_ok_def mirrors_ok_def published_ok_def itcm_limit_def u_def arm9_code_fast_publish_def Let_def)
qed

lemma publish_class_ok:
  assumes s: "timing_ok s"
  shows "timing_ok (arm9_code_fast_publish s)"
proof (cases "g_arm9_region_code_timing_valid s")
  case True
  then have "s = s\<lparr>g_arm9_region_code_timing := g_arm9_region_code_timing s, g_arm9_region_code_timing_valid := True\<rparr>" by simp
  with latch_ok [OF s timing_okD(6) [OF s]] show ?thesis by simp
next
  case False
  note ok = timing_okD [OF s]
  define u where "u = arm9_code_fast_publish s"
  have c: "same_cp15 s u" by (simp add: same_cp15_def u_def arm9_code_fast_publish_def Let_def)
  have "cp15_inv u" by (rule same_cp15_inv [OF c ok(1)])
  moreover have "cached_ok u" using ok(4) same_class_at [OF c] by (simp add: cached_ok_def Let_def u_def arm9_code_fast_publish_def)
  ultimately show ?thesis unfolding u_def [symmetric] using ok False
    by (simp add: timing_ok_def mirrors_ok_def published_ok_def itcm_limit_def u_def arm9_code_fast_publish_def Let_def)
qed

section \<open>Fetches\<close>

lemma note_code_fields [simp]:
  "g_nds_active (note_code pc s) = g_nds_active s" "g_cp15 (note_code pc s) = g_cp15 s" "in_itcm a (note_code pc s) = in_itcm a s"
  "g_arm9_region_code_timing_valid (note_code pc s) = g_arm9_region_code_timing_valid s"
  "g_arm9_region_code_timing (note_code pc s) = g_arm9_region_code_timing s"
  "g_arm9_code_class_shift (note_code pc s) = g_arm9_code_class_shift s" "g_arm9_itcm_code_limit (note_code pc s) = g_arm9_itcm_code_limit s"
  "g_arm9_code_pub_gen (note_code pc s) = g_arm9_code_pub_gen s" "g_cp15_timing_generation (note_code pc s) = g_cp15_timing_generation s"
  by (simp_all add: note_code_def in_itcm_def)

lemma note_code_ok: "timing_ok s \<Longrightarrow> timing_ok (note_code pc s)"
  by (erule same_timing_ok [rotated 3]) (simp_all add: same_cp15_def same_classes_def same_mirrors_def note_code_def)

lemma publish_again:
  assumes "g_arm9_region_code_timing_valid s" "g_arm9_code_class_shift s = 8 * word_of_nat (timing_index (g_arm9_region_code_timing s))"
    "g_arm9_itcm_code_limit s = itcm_limit s" "g_arm9_code_pub_gen s = g_cp15_timing_generation s"
  shows "arm9_code_fast_publish s = s"
proof -
  have "arm9_code_fast_publish s = s\<lparr>g_arm9_itcm_code_limit := g_arm9_itcm_code_limit s, g_arm9_code_class_shift := g_arm9_code_class_shift s,
      g_arm9_code_pub_gen := g_arm9_code_pub_gen s\<rparr>"
    using assms by (simp add: arm9_code_fast_publish_def Let_def itcm_limit_def)
  then show ?thesis by simp
qed

text \<open>The packed constant holds the cost of each class in its byte.\<close>

lemma code_bytes:
  fixes x :: u32
  assumes "x = 0x0100 \<or> x = 0x0300"
  shows "drop_bit 8 (0x08120001 OR x) AND 0xFF = (if x = 0x0100 then 1 else 3)" "drop_bit 16 (0x08120001 OR x) AND 0xFF = 18"
    "drop_bit 24 (0x08120001 OR x) AND 0xFF = 8" "0x08120001 OR x \<noteq> 0"
  using assms by (elim disjE; simp)+

lemma class_shift: "unat (8 * word_of_nat (timing_index t) :: u32) = 8 * timing_index t"
  by (cases t) (simp_all add: timing_index_def)

lemma inline_fetch_exact:
  assumes s: "timing_ok s"
  shows "nds_code_numc pc (NDS_ARM9_CODE_K pc (cpsr_t (g_cpu s))) s = runtime_code_cycles pc s"
proof (cases "g_nds_active s = ARM9 \<and> g_arm9_code_pub_gen s = g_cp15_timing_generation s")
  case False
  then show ?thesis by (auto simp: nds_code_numc_def)
next
  case True
  define thumb where "thumb = cpsr_t (g_cpu s)"
  define x where "x = (if (pc + (if thumb then 4 else 8)) AND 0x1F \<noteq> 0 then 0x0100 else 0x0300 :: u32)"
  have x: "x = 0x0100 \<or> x = 0x0300" by (simp add: x_def)
  have p: "g_arm9_region_code_timing_valid s" "g_arm9_code_class_shift s = 8 * word_of_nat (timing_index (g_arm9_region_code_timing s))"
    "g_arm9_itcm_code_limit s = itcm_limit s"
    using timing_okD(3) [OF s] True by (simp_all add: published_ok_def)
  have again: "arm9_code_fast_publish (note_code pc s) = note_code pc s"
    by (rule publish_again) (use p True in \<open>simp_all add: itcm_limit_def\<close>)
  show ?thesis
  proof (cases "thumb \<and> pc AND 2 \<noteq> 0")
    case odd: True
    then show ?thesis using True by (simp add: nds_code_numc_def NDS_ARM9_CODE_K_def runtime_code_cycles_def Let_def flip: thumb_def)
  next
    case False
    have k: "NDS_ARM9_CODE_K pc thumb = 0x08120001 OR x" using False by (simp only: NDS_ARM9_CODE_K_def x_def if_False)
    have inl: "nds_code_numc pc (0x08120001 OR x) s = (if in_itcm pc s then 1
        else drop_bit (8 * timing_index (g_arm9_region_code_timing s)) (0x08120001 OR x) AND 0xFF, note_code pc s)"
      using True code_bytes(4) [OF x] by (simp add: nds_code_numc_def Let_def p(2,3) class_shift in_itcm_limit)
    have out: "runtime_code_cycles pc s = (if in_itcm pc s then 1
        else case g_arm9_region_code_timing s of Timing_itcm \<Rightarrow> 1 | Timing_cached \<Rightarrow> (if x = 0x0100 then 1 else 3)
          | Timing_main_ram \<Rightarrow> 18 | Timing_other \<Rightarrow> 8, note_code pc s)"
      using True False p(1) unfolding runtime_code_cycles_def Let_def thumb_def [symmetric]
      by (simp add: arm9_current_code_timing_def again x_def split: code_timing.split)
    show ?thesis unfolding thumb_def [symmetric] k inl out using timing_okD(6) [OF s] code_bytes [OF x]
      by (cases "g_arm9_region_code_timing s") (simp_all add: timing_index_def)
  qed
qed

lemma current_ok:
  assumes s: "timing_ok s"
  shows "timing_ok (snd (arm9_current_code_timing addr s))"
proof (cases "in_itcm addr s \<or> g_arm9_region_code_timing_valid s")
  case True
  then show ?thesis using s by (auto simp: arm9_current_code_timing_def)
next
  case False
  obtain t u where tu: "arm9_code_timing addr s = (t, u)" by (cases "arm9_code_timing addr s")
  have u: "timing_ok u" "t \<noteq> Timing_itcm" "same_cp15 s u" using code_timing_exact [OF s, of addr] by (simp_all add: tu)
  note ok = timing_okD [OF u(1)]
  define w where "w = u\<lparr>g_arm9_region_code_timing := t, g_arm9_region_code_timing_valid := True\<rparr>"
  have pub: "g_arm9_code_pub_gen u \<noteq> g_cp15_timing_generation u"
  proof -
    have "\<not> g_arm9_region_code_timing_valid u" using False tu
      by (auto simp: arm9_code_timing_def Let_def split: if_splits)
    then show ?thesis using ok(3) by (auto simp: published_ok_def)
  qed
  have c: "same_cp15 u w" by (simp add: same_cp15_def w_def)
  have "cp15_inv w" by (rule same_cp15_inv [OF c ok(1)])
  moreover have "cached_ok w" using ok(4) same_class_at [OF c] by (simp add: cached_ok_def Let_def w_def)
  ultimately have "timing_ok w" using ok u(2) pub by (simp add: timing_ok_def mirrors_ok_def published_ok_def w_def)
  then show ?thesis using False tu by (simp add: arm9_current_code_timing_def w_def)
qed

lemma fetch_ok:
  assumes s: "timing_ok s"
  shows "timing_ok (snd (runtime_code_cycles pc s))"
proof -
  have n: "timing_ok (note_code pc s)" by (rule note_code_ok [OF s])
  obtain t u where tu: "arm9_current_code_timing pc (note_code pc s) = (t, u)" by (cases "arm9_current_code_timing pc (note_code pc s)")
  have "timing_ok u" using current_ok [OF n, of pc] by (simp add: tu)
  then have "timing_ok (arm9_code_fast_publish u)" by (rule publish_class_ok)
  then show ?thesis using n unfolding runtime_code_cycles_def Let_def tu prod.case by simp
qed

lemma inline_fetch_ok: "timing_ok s \<Longrightarrow> timing_ok (snd (nds_code_numc pc k s))"
  using fetch_ok [of s pc] note_code_ok [of s pc] by (simp add: nds_code_numc_def Let_def)

lemma refill_latches:
  assumes s: "timing_ok s"
  shows "timing_ok (snd (arm9_refill_cycles target s))"
    and "g_arm9_region_code_timing (snd (arm9_refill_cycles target s)) = class_at (target AND NOT 1) s"
    and "g_arm9_code_pub_gen (snd (arm9_refill_cycles target s)) = g_cp15_timing_generation s"
proof -
  define addr where "addr = target AND NOT 1"
  obtain t u where tu: "arm9_code_timing addr s = (t, u)" by (cases "arm9_code_timing addr s")
  have u: "timing_ok u" "t = class_at addr s" "same_cp15 s u" using code_timing_exact [OF s, of addr] by (simp_all add: tu)
  define w where "w = arm9_code_fast_publish (u\<lparr>g_arm9_region_code_timing := t, g_arm9_region_code_timing_valid := True\<rparr>)"
  have r: "snd (arm9_refill_cycles target s) = w"
    unfolding arm9_refill_cycles_def Let_def addr_def [symmetric] arm9_latch_code_timing_def tu prod.case w_def [symmetric]
    by (simp add: case_prod_beta)
  have "timing_ok w" unfolding w_def by (rule latch_ok [OF u(1)]) (simp add: u(2))
  then show "timing_ok (snd (arm9_refill_cycles target s))" by (simp only: r)
  show "g_arm9_region_code_timing (snd (arm9_refill_cycles target s)) = class_at (target AND NOT 1) s"
    unfolding r u(2) [symmetric] addr_def [symmetric] by (simp add: w_def arm9_code_fast_publish_def Let_def)
  show "g_arm9_code_pub_gen (snd (arm9_refill_cycles target s)) = g_cp15_timing_generation s"
    unfolding r using u(3) by (simp add: w_def arm9_code_fast_publish_def Let_def same_cp15_def)
qed

text \<open>The overlap of fetch and data, as long as the sum does not wrap.\<close>

lemma overlap_exact:
  assumes "unat c + unat d < 2 ^ 32"
  shows "unat (overlap k c d) = max (unat c + unat d - unat k) (max (unat c) (unat d))"
proof -
  have s: "unat (c + d) = unat c + unat d" using assms by (simp add: unat_word_ariths)
  have m: "unat (max x y) = max (unat x) (unat y)" for x y :: u32 by (simp add: max_def word_le_nat_alt)
  have "unat (if c + d > k then c + d - k else 0) = unat c + unat d - unat k"
    using unat_sub [of k "c + d"] s by (simp add: word_less_nat_alt word_le_nat_alt)
  then show ?thesis by (simp only: overlap_def Let_def m)
qed

section \<open>Runs\<close>

lemma refresh_timing: "same_cp15 s (bus_fast_refresh s)" "same_classes s (bus_fast_refresh s)" "mirrors_ok (bus_fast_refresh s)"
  by (simp_all add: bus_fast_refresh_def Let_def same_cp15_def same_classes_def mirrors_ok_def)

lemma refresh_ok: "timing_ok s \<Longrightarrow> timing_ok (bus_fast_refresh s)"
proof -
  assume s: "timing_ok s"
  have "mirrors_ok s" by (rule timing_okD(2) [OF s])
  then have "same_mirrors s (bus_fast_refresh s)" by (simp add: mirrors_ok_def same_mirrors_def bus_fast_refresh_def Let_def)
  from same_timing_ok [OF refresh_timing(1,2) this s] show ?thesis .
qed

lemma class_sync_more: "cp15.more (cp15_class_sync s) = cp15.more s"
  by (simp add: cp15_class_sync_def cp15_rebuild_class_bitmaps_def Let_def split: prod.split)

lemma coproc_more: "cp15.more (runtime_coproc_write cp_num op1 crn crm op2 v s) = cp15.more s"
proof -
  have "cp15.more (coproc_switch crn crm op2 v t) = cp15.more t" for t :: "'a cp15_scheme"
    by (simp add: coproc_switch_def apply_control_def set_mpu_region_def)
  then show ?thesis
    by (simp add: runtime_coproc_write_def Let_def class_sync_more nds_cpu_enter_halt_def request_yield_poll_def)
qed

lemma loaded_more: "cp15.more (cp15_loaded i s) = cp15.more s"
proof -
  have "cp15.more (fold (\<lambda>k s. set_mpu_region k (sv_region i k)
     (s\<lparr>g_mpu_region := (g_mpu_region s)(k := sv_region i k), g_cache_cfg := (g_cache_cfg s)(k := sv_cache_cfg i k),
        g_access_perm := (g_access_perm s)(k := sv_access_perm i k)\<rparr>)) ks t) = cp15.more t" for ks and t :: "'a cp15_scheme"
    by (induction ks arbitrary: t) (simp_all add: set_mpu_region_def)
  then show ?thesis by (simp add: cp15_loaded_def)
qed

lemma more_classes: "cp15.more t = cp15.more s \<Longrightarrow> same_classes s t \<and> same_mirrors s (t :: 'a bus_scheme)"
  by (cases s; cases t) (simp add: same_classes_def same_mirrors_def)

text \<open>A bump of the timing generation outdates what was published and remembered.\<close>

lemma bump_ok:
  assumes s: "timing_ok s" and k: "same_classes s t" and g: "g_cp15_timing_generation s \<noteq> - 1"
    and t: "g_cp15_timing_generation t = bump_generation (g_cp15_timing_generation s)" "cp15_inv t" "mirrors_ok t"
  shows "timing_ok t"
proof -
  note ok = timing_okD [OF s]
  have "g_cp15_timing_generation s + 1 \<noteq> 0" using g by (metis add.right_neutral add_diff_cancel_right' diff_0)
  then have b: "g_cp15_timing_generation t = g_cp15_timing_generation s + 1" by (simp add: t(1) bump_generation_def)
  have lt: "g_cp15_timing_generation s < g_cp15_timing_generation t"
    unfolding b word_less_nat_alt using unatSuc [of "g_cp15_timing_generation s"] \<open>g_cp15_timing_generation s + 1 \<noteq> 0\<close>
    by (simp add: add.commute)
  have "g_arm9_code_pub_gen t < g_cp15_timing_generation t" using ok(5) lt k by (simp add: same_classes_def)
  moreover have "cached_ok t" using ok(4) lt k by (auto simp: cached_ok_def Let_def same_classes_def)
  ultimately show ?thesis using t(2,3) ok(6) k by (auto simp: timing_ok_def published_ok_def same_classes_def)
qed

lemma class_at_cong:
  assumes "g_cp15 t = g_cp15 s" "g_cache_cfg t 1 = g_cache_cfg s 1" "g_mpu_region_base t = g_mpu_region_base s"
    "g_mpu_region_end t = g_mpu_region_end s"
  shows "class_at addr t = class_at addr s"
proof -
  have c: "mpu_region_contains k a t = mpu_region_contains k a s" for k a using assms by (simp add: mpu_region_contains_def)
  have w: "region_walk t bits a k = region_walk s bits a k" for bits a k by (induction k) (simp_all add: c)
  show ?thesis by (simp only: class_at_def cp15_code_cacheable_reference_def assms w)
qed

lemma other_registers:
  assumes "\<not> (crn = 1 \<or> crn = 2 \<or> crn = 6 \<or> crn = 9)"
  shows "class_at addr (coproc_switch crn crm op2 v s) = class_at addr s"
    "g_cp15_timing_generation (coproc_switch crn crm op2 v s) = g_cp15_timing_generation s" "g_cp15 (coproc_switch crn crm op2 v s) = g_cp15 s"
  using assms by (auto intro!: class_at_cong simp: coproc_switch_def)

lemma coproc_timing:
  assumes s: "timing_ok s" and g: "g_cp15_timing_generation s \<noteq> - 1"
  shows "timing_ok (bus_coproc_write cp_num op1 crn crm op2 v s)"
proof -
  define t where "t = runtime_coproc_write cp_num op1 crn crm op2 v s"
  note ok = timing_okD [OF s]
  have inv: "cp15_inv t" unfolding t_def by (rule write_inv [OF ok(1)])
  have k: "same_classes s t" "same_mirrors s t" using more_classes [OF coproc_more [of cp_num op1 crn crm op2 v s]] by (simp_all add: t_def)
  show ?thesis
  proof (cases "cp_num = 15 \<and> (crn = 1 \<or> crn = 2 \<or> crn = 6 \<or> crn = 9)")
    case True
    have c: "crn = 7 \<longleftrightarrow> False" using True by auto
    have gen: "g_cp15_timing_generation t = bump_generation (g_cp15_timing_generation s)"
    proof -
      have "g_cp15_timing_generation (coproc_switch crn crm op2 v u) = g_cp15_timing_generation u" for u :: "'a bus_scheme"
        by (simp add: coproc_switch_def apply_control_def set_mpu_region_def)
      moreover have "g_cp15_timing_generation (cp15_class_sync u) = g_cp15_timing_generation u" for u :: "'a bus_scheme"
        by (simp add: cp15_class_sync_def cp15_rebuild_class_bitmaps_def Let_def split: prod.split)
      ultimately show ?thesis using True c by (simp add: t_def runtime_coproc_write_def Let_def)
    qed
    have b: "timing_ok u" if "same_classes t u" "same_cp15 t u" "mirrors_ok u" for u
    proof (rule bump_ok [OF s _ g])
      show "same_classes s u" using k(1) that(1) by (simp add: same_classes_def)
      show "g_cp15_timing_generation u = bump_generation (g_cp15_timing_generation s)" using that(2) gen by (simp add: same_cp15_def)
      show "cp15_inv u" by (rule same_cp15_inv [OF that(2) inv])
    qed (rule that(3))
    show ?thesis
    proof (cases "crn = 1 \<and> crm = 0 \<and> op2 = 0 \<or> crn = 9 \<and> crm = 1 \<and> (op2 = 0 \<or> op2 = 1)")
      case re: True
      then have "bus_coproc_write cp_num op1 crn crm op2 v s = bus_fast_refresh t" using True by (simp add: bus_coproc_write_def Let_def t_def)
      then show ?thesis using b [OF refresh_timing(2,1,3)] by simp
    next
      case no: False
      then have e: "bus_coproc_write cp_num op1 crn crm op2 v s = t" by (simp only: bus_coproc_write_def Let_def t_def if_False simp_thms)
      have "g_cp15 t = g_cp15 s" unfolding t_def by (rule coproc_keeps(3)) (use no in blast)
      then have "mirrors_ok t" using ok(2) k(2) by (simp add: mirrors_ok_def same_mirrors_def)
      then show ?thesis unfolding e by (intro b) (simp_all add: same_classes_def same_cp15_def)
    qed
  next
    case False
    then have e: "bus_coproc_write cp_num op1 crn crm op2 v s = t" by (auto simp: bus_coproc_write_def Let_def t_def)
    have h: "same_cp15 s (nds_cpu_enter_halt ARM9 s)" by (rule halt_same)
    have halted: "class_at a (nds_cpu_enter_halt ARM9 s) = class_at a s" for a by (rule same_class_at [OF h])
    have f: "class_at a t = class_at a s" "g_cp15_timing_generation t = g_cp15_timing_generation s" "g_cp15 t = g_cp15 s" for a
      using False other_registers [of crn] h halted by (auto simp: t_def runtime_coproc_write_def Let_def same_cp15_def)
    have "mirrors_ok t" using ok(2) k(2) f(3) by (simp add: mirrors_ok_def same_mirrors_def)
    moreover have "published_ok t" using ok(3) k(1) f(2,3) by (simp add: published_ok_def same_classes_def itcm_limit_def)
    moreover have "cached_ok t" using ok(4) k(1) f(1,2) by (simp add: cached_ok_def Let_def same_classes_def)
    ultimately show ?thesis unfolding e using inv ok(5,6) k(1) f(2) by (simp add: timing_ok_def same_classes_def)
  qed
qed

lemma reset_timing:
  assumes s: "timing_ok s" and g: "g_cp15_timing_generation s \<noteq> - 1"
  shows "timing_ok (bus_cp15_reset s)"
proof -
  have k: "same_classes s (cp15_reset s)"
  proof -
    have "cp15.more (cp15_reset s) = cp15.more s" by (simp add: cp15_reset_def class_sync_more)
    then show ?thesis using more_classes by blast
  qed
  have gen: "g_cp15_timing_generation (cp15_reset s) = bump_generation (g_cp15_timing_generation s)"
    by (simp add: cp15_reset_def cp15_class_sync_def cp15_rebuild_class_bitmaps_def Let_def split: prod.split)
  show ?thesis unfolding bus_cp15_reset_def
  proof (rule bump_ok [OF s _ g])
    show "same_classes s (bus_fast_refresh (cp15_reset s))" by (rule same_classes_trans [OF k refresh_timing(2)])
    show "g_cp15_timing_generation (bus_fast_refresh (cp15_reset s)) = bump_generation (g_cp15_timing_generation s)"
      using refresh_timing(1) [of "cp15_reset s"] gen by (simp add: same_cp15_def)
    show "cp15_inv (bus_fast_refresh (cp15_reset s))"
      by (rule same_cp15_inv [OF refresh_timing(1) reset_inv [OF timing_okD(1) [OF s]]])
  qed (rule refresh_timing(3))
qed

text \<open>Nothing remembered and nothing published.\<close>

lemma forgotten_ok:
  assumes "cp15_inv s" "mirrors_ok s" "ct_page (g_arm9_code_timing s) = 0xFFFFFFFF" "g_arm9_code_pub_gen s = 0"
    "g_arm9_region_code_timing s = Timing_other"
  shows "timing_ok s"
  using assms by (simp add: timing_ok_def published_ok_def cached_ok_def Let_def cp15_inv_def)

lemma init_timing: "cp15_inv s \<Longrightarrow> timing_ok (bus_init s)"
proof -
  assume i: "cp15_inv s"
  define t where "t = (reset_arm9_code_timing (s\<lparr>g_last_code_pc := \<lambda>_. 0xFFFFFFFF, g_last_data_addr := \<lambda>_. 0xFFFFFFFF\<rparr>))
     \<lparr>backed := True, ram := \<lambda>_ _. 0, ram_generation := \<lambda>_ _. 0, ram_written := \<lambda>_ _. False\<rparr>"
  have "same_cp15 s t" by (simp add: same_cp15_def t_def reset_arm9_code_timing_def)
  from same_cp15_inv [OF refresh_timing(1) same_cp15_inv [OF this i]] have "cp15_inv (bus_fast_refresh t)" .
  moreover have "ct_page (g_arm9_code_timing (bus_fast_refresh t)) = 0xFFFFFFFF" "g_arm9_code_pub_gen (bus_fast_refresh t) = 0"
    "g_arm9_region_code_timing (bus_fast_refresh t) = Timing_other"
    using refresh_timing(2) [of t] by (simp_all add: same_classes_def t_def reset_arm9_code_timing_def)
  ultimately have "timing_ok (bus_fast_refresh t)" by (intro forgotten_ok refresh_timing(3))
  then show ?thesis by (simp only: bus_init_def t_def)
qed

lemma note_code_write_timing: "same_cp15 s (note_code_write V s)" "same_classes s (note_code_write V s)"
  by (simp_all add: note_code_write_def runtime_note_code_write_def request_yield_poll_def same_cp15_def same_classes_def
      split: option.split prod.split bool.split)

lemma machine_load_timing:
  assumes v: "bus_savestate_validate img = Inr ()"
  shows "timing_ok (bus_cp15_import i (snd (bus_savestate_import V img s)))"
proof -
  define u where "u = snd (bus_savestate_import V img s)"
  define r where "r = s\<lparr>backed := True, ram := (\<lambda>b. import_bytes (bs_ram img b) id 0),
    ram_written := (\<lambda>b. import_bytes (bs_written img b) (\<lambda>v. v \<noteq> 0) False),
    ram_generation := (\<lambda>b. import_bytes (bs_generation img b) id 0)\<rparr>"
  define w where "w = bus_fast_refresh (cp15_savestate_import i u)"
  have ur: "u = note_code_write V (bus_fast_refresh (reset_arm9_code_timing r))"
    by (simp only: u_def bus_savestate_import_def v sum.case Let_def r_def snd_conv)
  have k1: "same_classes (reset_arm9_code_timing r) u"
    unfolding ur by (rule same_classes_trans [OF refresh_timing(2) note_code_write_timing(2)])
  have "cp15.more (cp15_savestate_import i u) = cp15.more u"
    by (simp add: import_eq class_sync_more) (simp add: loaded_more)
  then have k2: "same_classes u (cp15_savestate_import i u)" using more_classes by blast
  have k3: "same_classes (cp15_savestate_import i u) w" unfolding w_def by (rule refresh_timing(2))
  have cl: "same_classes (reset_arm9_code_timing r) w" by (rule same_classes_trans [OF same_classes_trans [OF k1 k2] k3])
  have "timing_ok w"
  proof (rule forgotten_ok)
    show "cp15_inv w" unfolding w_def by (rule same_cp15_inv [OF refresh_timing(1) import_inv])
    show "mirrors_ok w" unfolding w_def by (rule refresh_timing(3))
  qed (use cl in \<open>simp_all add: same_classes_def reset_arm9_code_timing_def\<close>)
  moreover have "arm9_code_fast_invalidate w = w" using cl by (simp add: same_classes_def reset_arm9_code_timing_def arm9_code_fast_invalidate_def)
  ultimately show ?thesis by (simp only: bus_cp15_import_def u_def [symmetric] w_def [symmetric])
qed

text \<open>
  Every operation that touches the timing state, from the start of the program on. A machine image is
  loaded memory first. The timing generation counts CP15 writes; it does not wrap.
\<close>

inductive timing_step :: "'a bus_scheme devices \<Rightarrow> 'a bus_scheme \<Rightarrow> 'a bus_scheme \<Rightarrow> bool" for V where
  data: "timing_step V s (snd (runtime_mem_cycles addr width sequential s))"
| fetch: "timing_step V s (snd (runtime_code_cycles pc s))"
| inline_fetch: "timing_step V s (snd (nds_code_numc pc k s))"
| refill: "timing_step V s (snd (arm9_refill_cycles target s))"
| reset: "g_cp15_timing_generation s \<noteq> - 1 \<Longrightarrow> timing_step V s (bus_cp15_reset s)"
| mcr: "g_cp15_timing_generation s \<noteq> - 1 \<Longrightarrow> timing_step V s (bus_coproc_write cp_num op1 crn crm op2 v s)"
| machine_load: "bus_savestate_validate img = Inr () \<Longrightarrow> timing_step V s (bus_cp15_import i (snd (bus_savestate_import V img s)))"
| init: "timing_step V s (bus_init s)"
| refresh: "timing_step V s (bus_fast_refresh s)"
| elsewhere: "same_cp15 s t \<Longrightarrow> same_classes s t \<Longrightarrow> same_mirrors s t \<Longrightarrow> timing_step V s t"

inductive timing_reachable :: "'a bus_scheme devices \<Rightarrow> 'a bus_scheme \<Rightarrow> bool" for V where
  start: "cp15_initial s \<Longrightarrow> timing_reachable V (bus_init s)"
| step: "timing_reachable V s \<Longrightarrow> timing_step V s t \<Longrightarrow> timing_reachable V t"

lemma note_data_ok: "timing_ok s \<Longrightarrow> timing_ok (note_data addr s)"
  by (erule same_timing_ok [rotated 3]) (simp_all add: same_cp15_def same_classes_def same_mirrors_def note_data_def)

lemma timing_step_ok:
  assumes s: "timing_ok s" and st: "timing_step V s t"
  shows "timing_ok t"
  using st
proof cases
  case (data addr width sequential)
  then show ?thesis using inline_data_exact [OF timing_okD(2) [OF s] timing_okD(1) [OF s]] note_data_ok [OF s] by simp
next
  case (fetch pc) then show ?thesis using fetch_ok [OF s] by simp
next
  case (inline_fetch pc k) then show ?thesis using inline_fetch_ok [OF s] by simp
next
  case (refill target) then show ?thesis using refill_latches(1) [OF s] by simp
next
  case reset then show ?thesis using reset_timing [OF s] by simp
next
  case (mcr cp_num op1 crn crm op2 v) then show ?thesis using coproc_timing [OF s] by simp
next
  case (machine_load img i) then show ?thesis using machine_load_timing by simp
next
  case init then show ?thesis using init_timing [OF timing_okD(1) [OF s]] by simp
next
  case refresh then show ?thesis using refresh_ok [OF s] by simp
next
  case elsewhere then show ?thesis using same_timing_ok s by blast
qed

lemma timing_reachable_ok: "timing_reachable V s \<Longrightarrow> timing_ok s"
  by (induction rule: timing_reachable.induct)
    (auto intro: init_timing timing_step_ok reachable_inv [OF cp15_reachable.initial])

text \<open>
  C9. One timing model in two spellings. In every state the emulator reaches, the inline data-access cost is
  the out-of-line one and the cost by the walk over the protection regions, for every address, width and
  kind on both CPUs; the inline fetch cost, selected from the packed constant of an instruction, is the
  out-of-line one with the same final state; and a taken branch latches the class of the target's page
  under the present protection setup, never a remembered stale one. Reached states have
  seen fewer than 2^32 - 1 CP15 writes, so the generation that dates a remembered class has not wrapped.
\<close>

theorem inline_timing_exact:
  assumes "timing_reachable V s"
  shows "runtime_mem_cycles addr width sequential s = runtime_mem_cycles_slow addr width sequential s
    \<and> fst (runtime_mem_cycles_slow addr width sequential s) = runtime_mem_cycles_reference addr width sequential s
    \<and> nds_code_numc pc (NDS_ARM9_CODE_K pc (cpsr_t (g_cpu s))) s = runtime_code_cycles pc s
    \<and> g_arm9_region_code_timing (snd (arm9_refill_cycles target s)) = class_at (target AND NOT 1) s"
proof -
  have ok: "timing_ok s" by (rule timing_reachable_ok [OF assms])
  note d = inline_data_exact [OF timing_okD(2) [OF ok] timing_okD(1) [OF ok]]
  show ?thesis by (intro conjI d(1) inline_fetch_exact [OF ok] refill_latches(2) [OF ok]) (simp add: d(2))
qed

lemma inline_timing_exact_witness:
  "runtime_mem_cycles 0x02000100 4 False (bus_init bus_boot) = runtime_mem_cycles_slow 0x02000100 4 False (bus_init bus_boot)
    \<and> fst (runtime_mem_cycles_slow 0x02000100 4 False (bus_init bus_boot)) = runtime_mem_cycles_reference 0x02000100 4 False (bus_init bus_boot)
    \<and> nds_code_numc 0x02000000 (NDS_ARM9_CODE_K 0x02000000 (cpsr_t (g_cpu (bus_init bus_boot)))) (bus_init bus_boot)
        = runtime_code_cycles 0x02000000 (bus_init bus_boot)
    \<and> g_arm9_region_code_timing (snd (arm9_refill_cycles 0x02000000 (bus_init bus_boot))) = class_at (0x02000000 AND NOT 1) (bus_init bus_boot)"
proof -
  have "cp15_initial bus_boot" by (simp add: cp15_initial_def bus_boot_def cp15_boot_def bus.defs cp15.defs rt.defs)
  from inline_timing_exact [OF timing_reachable.start [OF this, of quiet_devices]] show ?thesis .
qed

end
