(* ===== verification/NetRing.thy ===== *)
theory NetRing
  imports Prelude
begin

text \<open>
  The network event ring (\<open>runner/src/net/net_ring.cpp\<close>): a circular array of trace entries
  addressed by absolute ordinals, with a smaller circular pool of host names beside it.  The
  execution counters a push reads are the argument \<open>clk\<close>.  Shown: from a reset of a ring with any
  stale contents, the ring refines the list of all events pushed since; a query by ordinal, the
  filtered most-recent copy and a host-name query answer from that list, and never from an evicted
  or stale slot.
\<close>

section \<open>State\<close>

record net_clock =
  scheduler_system_timestamp :: u64
  scheduler_cycles9 :: u64
  scheduler_cycles7 :: u64
  insn_count9 :: u64
  insn_count7 :: u64
  pc9 :: u32
  pc7 :: u32

record net_entry =
  e_count :: u64
  e_sys :: u64
  e_cyc9 :: u64
  e_cyc7 :: u64
  e_insn9 :: u64
  e_insn7 :: u64
  e_arm9_pc :: u32
  e_arm7_pc :: u32
  e_kind :: u8
  e_direction :: u8
  e_wifi_reg :: u16
  e_wifi_value :: u32
  e_src_mac :: "u8 list"
  e_dst_mac :: "u8 list"
  e_src_ipv4 :: u32
  e_dst_ipv4 :: u32
  e_src_port :: u16
  e_dst_port :: u16
  e_payload_len :: u16
  e_has_hostname :: bool
  e_hostname_ref :: u16
  e_aux :: u32

text \<open>What a caller of \<open>net_ring_push\<close> passes; \<open>None\<close> is a null MAC pointer.\<close>

record net_event =
  v_kind :: u8
  v_direction :: u8
  v_wifi_reg :: u16
  v_wifi_value :: u32
  v_src_mac :: "u8 list option"
  v_dst_mac :: "u8 list option"
  v_src_ipv4 :: u32
  v_dst_ipv4 :: u32
  v_src_port :: u16
  v_dst_port :: u16
  v_payload_len :: u16
  v_aux :: u32

record net_ring =
  g_net_trace :: "nat \<Rightarrow> net_entry"
  g_net_hostname_pool :: "nat \<Rightarrow> u64 \<times> string"
  g_net_trace_w :: u32
  g_net_trace_retained :: u32
  g_net_trace_seq :: u64
  g_net_hostname_w :: u16
  g_net_kind_counters :: "nat \<Rightarrow> u64"
  g_net_last_event_sys :: u64

section \<open>Event kinds\<close>

definition kNetEventKindNames :: "string list" where
  "kNetEventKindNames = [''wifi_reg_read'', ''wifi_reg_write'', ''wifi_irq'', ''wifi_tx_begin'',
    ''wifi_tx_frame'', ''wifi_rx_frame'', ''wifi_association'', ''wifi_state_change'', ''ethernet_tx'',
    ''ethernet_rx'', ''arp'', ''dhcp'', ''dns_query'', ''dns_response'', ''tcp_open'', ''tcp_close'',
    ''tcp_reset'', ''tcp_packet'', ''udp_packet'', ''backend_drop'', ''backend_error'', ''tls_record'']"

text \<open>\<open>std::tolower\<close> in the C locale.\<close>

definition tolower :: "char \<Rightarrow> char" where
  "tolower c = (let n = of_char c :: nat in if 65 \<le> n \<and> n \<le> 90 then char_of (n + 32) else c)"

fun iequals :: "string \<Rightarrow> string \<Rightarrow> bool" where
  "iequals (a # as) (b # bs) = (if tolower a \<noteq> tolower b then False else iequals as bs)"
| "iequals as bs = (as = [] \<and> bs = [])"

definition nds_net_event_kind_name :: "u8 \<Rightarrow> string" where
  "nds_net_event_kind_name kind = (if kind < 22 then kNetEventKindNames ! unat kind else ''unknown'')"

text \<open>The \<open>for\<close> loop from index \<open>i\<close> over the remaining names.\<close>

fun parse_kind_from :: "string \<Rightarrow> u8 \<Rightarrow> string list \<Rightarrow> u8 option" where
  "parse_kind_from name i [] = None"
| "parse_kind_from name i (n # ns) = (if iequals name n then Some i else parse_kind_from name (i + 1) ns)"

definition nds_net_event_kind_parse :: "string \<Rightarrow> u8 option" where
  "nds_net_event_kind_parse name =
    (if iequals name ''all'' then Some 22 else parse_kind_from name 0 kNetEventKindNames)"

section \<open>Writing\<close>

definition entry_of :: "net_clock \<Rightarrow> u64 \<Rightarrow> net_event \<Rightarrow> net_entry" where
  "entry_of clk n v = \<lparr>e_count = n, e_sys = scheduler_system_timestamp clk, e_cyc9 = scheduler_cycles9 clk,
    e_cyc7 = scheduler_cycles7 clk, e_insn9 = insn_count9 clk, e_insn7 = insn_count7 clk,
    e_arm9_pc = pc9 clk, e_arm7_pc = pc7 clk, e_kind = v_kind v, e_direction = v_direction v,
    e_wifi_reg = v_wifi_reg v, e_wifi_value = v_wifi_value v,
    e_src_mac = (case v_src_mac v of None \<Rightarrow> replicate 6 0 | Some m \<Rightarrow> take 6 m),
    e_dst_mac = (case v_dst_mac v of None \<Rightarrow> replicate 6 0 | Some m \<Rightarrow> take 6 m),
    e_src_ipv4 = v_src_ipv4 v, e_dst_ipv4 = v_dst_ipv4 v, e_src_port = v_src_port v, e_dst_port = v_dst_port v,
    e_payload_len = v_payload_len v, e_has_hostname = False, e_hostname_ref = 0, e_aux = v_aux v\<rparr>"

definition net_ring_push :: "net_clock \<Rightarrow> net_event \<Rightarrow> net_ring \<Rightarrow> u64 \<times> net_ring" where
  "net_ring_push clk v r =
    (let slot = g_net_trace_w r; n = g_net_trace_seq r + 1; e = entry_of clk n v in
     (n, r\<lparr>g_net_trace := (g_net_trace r)(unat slot := e), g_net_trace_seq := n,
           g_net_kind_counters := (if v_kind v < 22
             then (g_net_kind_counters r)(unat (v_kind v) := g_net_kind_counters r (unat (v_kind v)) + 1)
             else g_net_kind_counters r),
           g_net_last_event_sys := e_sys e,
           g_net_trace_w := (slot + 1) mod 262144,
           g_net_trace_retained := (if g_net_trace_retained r < 262144 then g_net_trace_retained r + 1
                                    else g_net_trace_retained r)\<rparr>))"

definition ring_index :: "u64 \<Rightarrow> nat" where
  "ring_index count = unat ((count - 1) mod 262144)"

definition net_ring_set_hostname :: "u64 \<Rightarrow> string \<Rightarrow> net_ring \<Rightarrow> net_ring" where
  "net_ring_set_hostname count hostname r =
    (if count = 0 then r
     else let idx = ring_index count; e = g_net_trace r idx in
       if e_count e \<noteq> count then r
       else let ref = g_net_hostname_w r in
         r\<lparr>g_net_hostname_pool := (g_net_hostname_pool r)(unat ref := (count, take 253 hostname)),
           g_net_hostname_w := (ref + 1) mod 4096,
           g_net_trace := (g_net_trace r)(idx := e\<lparr>e_has_hostname := True, e_hostname_ref := ref\<rparr>)\<rparr>)"

definition net_ring_reset :: "net_ring \<Rightarrow> net_ring" where
  "net_ring_reset r = r\<lparr>g_net_trace_w := 0, g_net_trace_retained := 0, g_net_trace_seq := 0,
    g_net_hostname_w := 0, g_net_kind_counters := (\<lambda>k. if k < 22 then 0 else g_net_kind_counters r k),
    g_net_last_event_sys := 0\<rparr>"

section \<open>Queries\<close>

definition net_ring_latest :: "net_ring \<Rightarrow> u64" where
  "net_ring_latest r = g_net_trace_seq r"

definition net_ring_get :: "u64 \<Rightarrow> net_ring \<Rightarrow> net_entry option" where
  "net_ring_get count r =
    (if count = 0 \<or> count > g_net_trace_seq r then None
     else let e = g_net_trace r (ring_index count) in if e_count e \<noteq> count then None else Some e)"

definition net_ring_get_hostname :: "u64 \<Rightarrow> nat \<Rightarrow> net_ring \<Rightarrow> string option" where
  "net_ring_get_hostname count buf_size r =
    (if buf_size = 0 \<or> count = 0 \<or> count > g_net_trace_seq r then None
     else let e = g_net_trace r (ring_index count) in
       if e_count e \<noteq> count \<or> \<not> e_has_hostname e then None
       else if e_hostname_ref e \<ge> 4096 then None
       else let slot = g_net_hostname_pool r (unat (e_hostname_ref e)) in
         if fst slot \<noteq> count then None else Some (take (buf_size - 1) (snd slot)))"

text \<open>The backward scan: \<open>n\<close> slots left, \<open>i\<close> the distance walked, \<open>m\<close> entries still wanted.\<close>

fun scan_back :: "net_ring \<Rightarrow> u8 \<Rightarrow> nat \<Rightarrow> u32 \<Rightarrow> nat \<Rightarrow> net_entry list" where
  "scan_back r filt 0 i m = []"
| "scan_back r filt (Suc n) i m =
    (if m = 0 then []
     else let e = g_net_trace r (unat ((g_net_trace_w r + 262144 - 1 - i) mod 262144)) in
       if filt = 22 \<or> e_kind e = filt then e # scan_back r filt n (i + 1) (m - 1)
       else scan_back r filt n (i + 1) m)"

definition swap :: "nat \<Rightarrow> nat \<Rightarrow> 'x list \<Rightarrow> 'x list" where
  "swap i j xs = xs[i := xs ! j, j := xs ! i]"

definition reverse_in_place :: "'x list \<Rightarrow> 'x list" where
  "reverse_in_place out = (let b = length out in fold (\<lambda>a. swap a (b - 1 - a)) [0..<b div 2] out)"

definition net_ring_copy_recent :: "u32 \<Rightarrow> u8 \<Rightarrow> net_ring \<Rightarrow> net_entry list" where
  "net_ring_copy_recent max_entries filt r =
    (if max_entries = 0 then []
     else reverse_in_place (scan_back r filt (unat (g_net_trace_retained r)) 0 (unat max_entries)))"

record net_ring_state =
  produced :: u64
  oldest :: u64
  capacity :: u32

definition net_ring_debug_state :: "net_ring \<Rightarrow> net_ring_state" where
  "net_ring_debug_state r = \<lparr>produced = g_net_trace_seq r,
    oldest = (if g_net_trace_retained r \<noteq> 0
      then e_count (g_net_trace r (unat ((g_net_trace_w r + 262144 - g_net_trace_retained r) mod 262144)))
      else g_net_trace_seq r + 1),
    capacity = 262144\<rparr>"

section \<open>The ring refines the list of events since the reset\<close>

text \<open>Position of the last host name attached to event \<open>k\<close> in the log of attachments.\<close>

definition last_attach :: "(nat \<times> string) list \<Rightarrow> nat \<Rightarrow> nat option" where
  "last_attach ns k = fold (\<lambda>(j, (c, _)) acc. if c = k then Some j else acc) (enumerate 0 ns) None"

lemma last_attach_simps [simp]:
  "last_attach [] k = None"
  "last_attach (ns @ [x]) k = (if fst x = k then Some (length ns) else last_attach ns k)"
  by (simp_all add: last_attach_def enumerate_append_eq case_prod_beta)

lemma last_attach_SomeD: "last_attach ns k = Some j \<Longrightarrow> j < length ns \<and> fst (ns ! j) = k"
  by (induction ns rule: rev_induct) (auto split: if_splits simp: nth_append)

lemma last_attach_last: "last_attach ns k = Some j \<Longrightarrow> i < length ns \<Longrightarrow> fst (ns ! i) = k \<Longrightarrow> i \<le> j"
  by (induction ns rule: rev_induct) (auto split: if_splits simp: nth_append less_Suc_eq)

lemma last_attach_None: "last_attach ns k = None \<longleftrightarrow> k \<notin> fst ` set ns"
  by (induction ns rule: rev_induct) auto

text \<open>Event \<open>k\<close> (counted from 1) as the ring must answer it.\<close>

definition spec_entry :: "(net_clock \<times> net_event) list \<Rightarrow> (nat \<times> string) list \<Rightarrow> nat \<Rightarrow> net_entry" where
  "spec_entry h ns k =
    (let e = entry_of (fst (h ! (k - 1))) (of_nat k) (snd (h ! (k - 1))) in
     case last_attach ns k of None \<Rightarrow> e
     | Some j \<Rightarrow> e\<lparr>e_has_hostname := True, e_hostname_ref := of_nat (j mod 4096)\<rparr>)"

lemma entry_of_simps [simp]:
  "e_count (entry_of clk n v) = n" "e_kind (entry_of clk n v) = v_kind v"
  "e_has_hostname (entry_of clk n v) = False"
  by (simp_all add: entry_of_def)

lemma spec_entry_simps [simp]:
  "e_count (spec_entry h ns k) = of_nat k" "e_kind (spec_entry h ns k) = v_kind (snd (h ! (k - 1)))"
  "e_has_hostname (spec_entry h ns k) \<longleftrightarrow> last_attach ns k \<noteq> None"
  by (simp_all add: spec_entry_def Let_def split: option.split)

definition in_window :: "(net_clock \<times> net_event) list \<Rightarrow> nat \<Rightarrow> bool" where
  "in_window h k \<longleftrightarrow> 1 \<le> k \<and> k \<le> length h \<and> length h < k + 262144"

definition ring_ref :: "(net_clock \<times> net_event) list \<Rightarrow> (nat \<times> string) list \<Rightarrow> net_ring \<Rightarrow> bool" where
  "ring_ref h ns r \<longleftrightarrow> length h < 2 ^ 64 \<and> unat (g_net_trace_seq r) = length h
    \<and> unat (g_net_trace_w r) = length h mod 262144 \<and> unat (g_net_trace_retained r) = min (length h) 262144
    \<and> (\<forall>k. in_window h k \<longrightarrow> g_net_trace r ((k - 1) mod 262144) = spec_entry h ns k)
    \<and> unat (g_net_hostname_w r) = length ns mod 4096
    \<and> (\<forall>j < length ns. length ns \<le> j + 4096 \<longrightarrow>
         g_net_hostname_pool r (j mod 4096) = (of_nat (fst (ns ! j)), snd (ns ! j)))
    \<and> (\<forall>x \<in> set ns. 1 \<le> fst x \<and> fst x \<le> length h)
    \<and> (\<forall>k < 22. g_net_kind_counters r k = of_nat (length [e \<leftarrow> h. unat (v_kind (snd e)) = k]))"

text \<open>Any sequence of pushes and attachments to an ordinal a push returned, after a reset.\<close>

inductive ring_run :: "(net_clock \<times> net_event) list \<Rightarrow> (nat \<times> string) list \<Rightarrow> net_ring \<Rightarrow> bool" where
  ring_start: "ring_run [] [] (net_ring_reset r)"
| ring_push: "ring_run h ns r \<Longrightarrow> length h + 1 < 2 ^ 64 \<Longrightarrow> ring_run (h @ [(clk, v)]) ns (snd (net_ring_push clk v r))"
| ring_name: "ring_run h ns r \<Longrightarrow> 1 \<le> k \<Longrightarrow> k \<le> length h \<Longrightarrow>
    ring_run h (if length h < k + 262144 then ns @ [(k, take 253 name)] else ns)
      (net_ring_set_hostname (of_nat k) name r)"

lemma mod_window_neq:
  fixes a b :: nat assumes "a < b" "b < a + n" shows "a mod n \<noteq> b mod n"
proof
  assume "a mod n = b mod n"
  then have "n dvd b - a" using assms(1) by (metis less_imp_le_nat mod_eq_dvd_iff_nat)
  then show False using assms by (auto dest: dvd_imp_le)
qed

lemma ring_index_nat: "1 \<le> k \<Longrightarrow> k < 2 ^ 64 \<Longrightarrow> ring_index (of_nat k) = (k - 1) mod 262144"
  by (simp add: ring_index_def unat_mod unat_sub_if' unat_of_nat word_le_nat_alt)

lemma of_nat64_inj: "a < 2 ^ 64 \<Longrightarrow> b < 2 ^ 64 \<Longrightarrow> (of_nat a :: u64) = of_nat b \<longleftrightarrow> a = b"
  using of_nat_inverse [of a "of_nat b :: u64"] of_nat_inverse [of b "of_nat b :: u64"] by auto

lemma ring_ref_reset: "ring_ref [] [] (net_ring_reset r)"
  by (simp add: ring_ref_def net_ring_reset_def in_window_def)

lemma spec_entry_push:
  "k \<le> length h \<Longrightarrow> 1 \<le> k \<Longrightarrow> spec_entry (h @ [x]) ns k = spec_entry h ns k"
  by (simp add: spec_entry_def nth_append)

lemma spec_entry_new:
  "\<forall>x \<in> set ns. fst x \<le> length h \<Longrightarrow> spec_entry (h @ [(clk, v)]) ns (Suc (length h)) = entry_of clk (of_nat (Suc (length h))) v"
proof -
  assume "\<forall>x \<in> set ns. fst x \<le> length h"
  then have "last_attach ns (Suc (length h)) = None" by (auto simp: last_attach_None)
  then show ?thesis by (simp add: spec_entry_def)
qed

lemma ring_ref_push:
  assumes r: "ring_ref h ns r" and l: "length h + 1 < 2 ^ 64"
  shows "ring_ref (h @ [(clk, v)]) ns (snd (net_ring_push clk v r))"
proof -
  let ?r = "snd (net_ring_push clk v r)"
  note a = r [unfolded ring_ref_def]
  have seq: "unat (g_net_trace_seq r + 1) = length h + 1" using a l by (simp add: unat_word_ariths)
  then have seqw: "g_net_trace_seq r + 1 = of_nat (length h + 1)"
    using l by (simp only: word_unat_eq_iff unat_of_nat) simp
  have w: "unat ((g_net_trace_w r + 1) mod 262144) = (length h + 1) mod 262144"
    using a by (simp add: unat_mod unat_word_ariths mod_Suc_eq)
  have ret: "unat (if g_net_trace_retained r < 262144 then g_net_trace_retained r + 1 else g_net_trace_retained r)
      = min (length h + 1) 262144"
    using a by (auto simp: word_less_nat_alt unat_word_ariths)
  have win: "g_net_trace ?r ((k - 1) mod 262144) = spec_entry (h @ [(clk, v)]) ns k"
    if k: "in_window (h @ [(clk, v)]) k" for k
  proof (cases "k = length h + 1")
    case True
    then show ?thesis
      using a seqw spec_entry_new [of ns h clk v] by (simp add: net_ring_push_def Let_def add.commute)
  next
    case False
    have "(k - 1) mod 262144 \<noteq> length h mod 262144"
      using False k by (intro mod_window_neq) (auto simp: in_window_def)
    moreover have "in_window h k" using False k by (auto simp: in_window_def)
    ultimately show ?thesis
      using a spec_entry_push [of k h] by (simp add: net_ring_push_def Let_def in_window_def)
  qed
  have cnt: "g_net_kind_counters ?r k = of_nat (length [e \<leftarrow> h @ [(clk, v)]. unat (v_kind (snd e)) = k])" if "k < 22" for k
    using a that by (auto simp: net_ring_push_def Let_def word_less_nat_alt)
  have "g_net_trace_seq ?r = g_net_trace_seq r + 1" "g_net_trace_w ?r = (g_net_trace_w r + 1) mod 262144"
    "g_net_trace_retained ?r = (if g_net_trace_retained r < 262144 then g_net_trace_retained r + 1 else g_net_trace_retained r)"
    "g_net_hostname_w ?r = g_net_hostname_w r" "g_net_hostname_pool ?r = g_net_hostname_pool r"
    by (simp_all add: net_ring_push_def Let_def)
  with seq w ret win cnt a l show ?thesis
    unfolding ring_ref_def by (auto simp del: unat_add_lem)
qed

lemma stale_ordinal:
  assumes r: "ring_ref h ns r" and k: "1 \<le> k" "k \<le> length h" "\<not> in_window h k"
  shows "e_count (g_net_trace r ((k - 1) mod 262144)) \<noteq> of_nat k"
proof -
  note a = r [unfolded ring_ref_def]
  let ?m = "(length h - k) div 262144" and ?j = "k + 262144 * ((length h - k) div 262144)"
  have d: "length h - k = 262144 * ?m + (length h - k) mod 262144" by simp
  have m: "(length h - k) mod 262144 < 262144" "1 \<le> ?m"
    using k by (simp_all add: in_window_def div_greater_zero_iff Suc_le_eq)
  have w: "in_window h ?j" unfolding in_window_def using d m k by linarith
  have "?j - 1 = (k - 1) + 262144 * ?m" using k by simp
  then have j: "(?j - 1) mod 262144 = (k - 1) mod 262144" by (simp only: mod_mult_self2)
  have "g_net_trace r ((?j - 1) mod 262144) = spec_entry h ns ?j" using a w by blast
  then have "e_count (g_net_trace r ((k - 1) mod 262144)) = of_nat ?j" unfolding j by (simp only: spec_entry_simps)
  moreover have "?j \<noteq> k" "?j < 2 ^ 64" "k < 2 ^ 64" using m w a k by (auto simp: in_window_def)
  ultimately show ?thesis using of_nat64_inj [of ?j k] by metis
qed

lemma ring_ref_name:
  assumes r: "ring_ref h ns r" and k: "1 \<le> k" "k \<le> length h"
  shows "ring_ref h (if length h < k + 262144 then ns @ [(k, take 253 name)] else ns)
    (net_ring_set_hostname (of_nat k) name r)"
proof -
  note a = r [unfolded ring_ref_def]
  have k64: "k < 2 ^ 64" using a k by auto
  have nz: "(of_nat k :: u64) \<noteq> 0" using of_nat64_inj [OF k64, of 0] k by simp
  have idx: "ring_index (of_nat k) = (k - 1) mod 262144" using ring_index_nat [of k] k k64 by simp
  show ?thesis
  proof (cases "length h < k + 262144")
    case True
    then have e: "g_net_trace r ((k - 1) mod 262144) = spec_entry h ns k" using a k by (auto simp: in_window_def)
    let ?r = "net_ring_set_hostname (of_nat k) name r"
    have rr: "?r = r\<lparr>g_net_hostname_pool := (g_net_hostname_pool r)(unat (g_net_hostname_w r) := (of_nat k, take 253 name)),
        g_net_hostname_w := (g_net_hostname_w r + 1) mod 4096,
        g_net_trace := (g_net_trace r)((k - 1) mod 262144 :=
          spec_entry h ns k\<lparr>e_has_hostname := True, e_hostname_ref := g_net_hostname_w r\<rparr>)\<rparr>"
      using nz by (simp add: net_ring_set_hostname_def Let_def idx e [simplified])
    have hw: "unat ((g_net_hostname_w r + 1) mod 4096) = Suc (length ns) mod 4096"
      using a by (simp add: unat_mod unat_word_ariths mod_Suc_eq)
    have ref: "g_net_hostname_w r = of_nat (length ns mod 4096)"
      using a by (simp add: word_unat_eq_iff unat_of_nat)
    have tr: "g_net_trace ?r ((j - 1) mod 262144) = spec_entry h (ns @ [(k, take 253 name)]) j" if j: "in_window h j" for j
    proof (cases "j = k")
      case True
      then show ?thesis by (simp add: rr spec_entry_def Let_def ref split: option.split)
    next
      case False
      have "(j - 1) mod 262144 \<noteq> (k - 1) mod 262144"
        using False j k True mod_window_neq [of "j - 1" "k - 1" 262144] mod_window_neq [of "k - 1" "j - 1" 262144]
        by (fastforce simp: in_window_def dest: nat_neq_iff [THEN iffD1])
      then show ?thesis using a j False by (simp add: rr spec_entry_def)
    qed
    have pool: "g_net_hostname_pool ?r (j mod 4096) =
        (of_nat (fst ((ns @ [(k, take 253 name)]) ! j)), snd ((ns @ [(k, take 253 name)]) ! j))"
      if j: "j < length ns + 1" "length ns + 1 \<le> j + 4096" for j
    proof (cases "j = length ns")
      case True
      then show ?thesis using a by (simp add: rr)
    next
      case False
      then have "j mod 4096 \<noteq> length ns mod 4096" using j by (intro mod_window_neq) auto
      then show ?thesis using a j False by (simp add: rr nth_append)
    qed
    show ?thesis
      using a k tr pool hw True unfolding ring_ref_def by (auto simp: rr)
  next
    case False
    have "e_count (g_net_trace r (ring_index (of_nat k))) \<noteq> of_nat k"
      unfolding idx by (rule stale_ordinal [OF r k]) (simp add: in_window_def False)
    then show ?thesis using False r nz by (simp add: net_ring_set_hostname_def Let_def)
  qed
qed

theorem ring_run_ref: "ring_run h ns r \<Longrightarrow> ring_ref h ns r"
  by (induction rule: ring_run.induct) (use ring_ref_reset ring_ref_push ring_ref_name in blast)+

section \<open>Queries answer from the list\<close>

lemma get_answers:
  assumes r: "ring_ref h ns r" and k: "k < 2 ^ 64"
  shows "net_ring_get (of_nat k) r = (if in_window h k then Some (spec_entry h ns k) else None)"
proof -
  note a = r [unfolded ring_ref_def]
  have seq: "of_nat k > g_net_trace_seq r \<longleftrightarrow> k > length h"
    using a k by (simp add: word_less_nat_alt unat_of_nat)
  have nz: "(of_nat k :: u64) = 0 \<longleftrightarrow> k = 0" using of_nat64_inj [OF k, of 0] by simp
  show ?thesis
  proof (cases "1 \<le> k \<and> k \<le> length h")
    case True
    then have "ring_index (of_nat k) = (k - 1) mod 262144" using k ring_index_nat by blast
    then show ?thesis
      using True a seq nz stale_ordinal [OF r, of k] by (simp add: net_ring_get_def Let_def)
  qed (use seq nz in \<open>auto simp: net_ring_get_def in_window_def\<close>)
qed

lemma get_hostname_get:
  "net_ring_get_hostname count n r = (if n = 0 then None else case net_ring_get count r of None \<Rightarrow> None
    | Some e \<Rightarrow> if e_has_hostname e \<and> e_hostname_ref e < 4096 \<and> fst (g_net_hostname_pool r (unat (e_hostname_ref e))) = count
        then Some (take (n - 1) (snd (g_net_hostname_pool r (unat (e_hostname_ref e))))) else None)"
  by (auto simp: net_ring_get_hostname_def net_ring_get_def Let_def not_le)

lemma spec_entry_ref: "last_attach ns k = Some j \<Longrightarrow> e_hostname_ref (spec_entry h ns k) = of_nat (j mod 4096)"
  by (simp add: spec_entry_def)

lemma hostname_answers:
  assumes r: "ring_ref h ns r" and k: "k < 2 ^ 64" and n: "0 < n"
  shows "net_ring_get_hostname (of_nat k) n r =
    (if \<not> in_window h k then None else case last_attach ns k of None \<Rightarrow> None
     | Some j \<Rightarrow> if length ns \<le> j + 4096 then Some (take (n - 1) (snd (ns ! j))) else None)"
proof (cases "in_window h k")
  case True
  note a = r [unfolded ring_ref_def]
  show ?thesis
  proof (cases "last_attach ns k")
    case (Some j)
    note j = last_attach_SomeD [OF Some]
    have ref: "e_hostname_ref (spec_entry h ns k) < 4096" "unat (e_hostname_ref (spec_entry h ns k)) = j mod 4096"
      by (simp_all add: spec_entry_ref [OF Some] word_less_nat_alt unat_of_nat)
    show ?thesis
    proof (cases "length ns \<le> j + 4096")
      case True
      then have "g_net_hostname_pool r (j mod 4096) = (of_nat (fst (ns ! j)), snd (ns ! j))" using a j by blast
      then show ?thesis
        using \<open>in_window h k\<close> Some True j n ref by (simp add: get_hostname_get get_answers [OF r k])
    next
      case False
      let ?m = "(length ns - 1 - j) div 4096" and ?i = "j + 4096 * ((length ns - 1 - j) div 4096)"
      have d: "length ns - 1 - j = 4096 * ?m + (length ns - 1 - j) mod 4096" by simp
      have m: "(length ns - 1 - j) mod 4096 < 4096" "1 \<le> ?m"
        using False j by (simp_all add: div_greater_zero_iff Suc_le_eq)
      have i: "?i < length ns" "length ns \<le> ?i + 4096" using d m j by linarith+
      then have p: "g_net_hostname_pool r (j mod 4096) = (of_nat (fst (ns ! ?i)), snd (ns ! ?i))"
        using a mod_mult_self2 [of j 4096 ?m] by metis
      have "fst (ns ! ?i) \<noteq> k" using last_attach_last [OF Some i(1)] m by auto
      moreover have "fst (ns ! ?i) < 2 ^ 64" using a i(1) nth_mem [OF i(1)] by fastforce
      ultimately have "fst (g_net_hostname_pool r (j mod 4096)) \<noteq> of_nat k" using of_nat64_inj k p by simp
      then show ?thesis
        using \<open>in_window h k\<close> Some False n ref by (simp add: get_hostname_get get_answers [OF r k])
    qed
  qed (use True n in \<open>simp add: get_hostname_get get_answers [OF r k]\<close>)
qed (simp add: get_hostname_get get_answers [OF r k])

lemma length_swap [simp]: "length (swap i j xs) = length xs"
  by (simp add: swap_def)

lemma reverse_prefix:
  assumes "m \<le> length xs div 2"
  shows "length (fold (\<lambda>a. swap a (length xs - 1 - a)) [0..<m] xs) = length xs \<and>
    (\<forall>i < length xs. fold (\<lambda>a. swap a (length xs - 1 - a)) [0..<m] xs ! i =
      (if i < m \<or> length xs - m \<le> i then xs ! (length xs - 1 - i) else xs ! i))"
  using assms
proof (induction m)
  case (Suc m)
  then have b: "m < length xs" "length xs - 1 - m < length xs" "m \<noteq> length xs - 1 - m" by auto
  show ?case
    using Suc b by (auto simp: swap_def nth_list_update Suc_diff_Suc intro!: arg_cong [where f = "nth xs"])
qed simp

lemma reverse_in_place_rev [simp]: "reverse_in_place xs = rev xs"
proof (rule nth_equalityI)
  note p = reverse_prefix [OF order_refl, of xs]
  show "length (reverse_in_place xs) = length (rev xs)" using p by (simp add: reverse_in_place_def Let_def)
  fix i assume "i < length (reverse_in_place xs)"
  then have i: "i < length xs" using p by (simp add: reverse_in_place_def Let_def)
  have "xs ! (length xs - 1 - i) = xs ! i" if "\<not> i < length xs div 2" "\<not> length xs - length xs div 2 \<le> i"
  proof -
    have "length xs - 1 - i = i" using that by linarith
    then show ?thesis by simp
  qed
  then show "reverse_in_place xs ! i = rev xs ! i"
    using p i by (auto simp: reverse_in_place_def Let_def rev_nth)
qed

text \<open>The retained ordinals, oldest first.\<close>

definition window :: "(net_clock \<times> net_event) list \<Rightarrow> nat list" where
  "window h = [length h - min (length h) 262144 + 1..<length h + 1]"

lemma scan_slot:
  assumes "unat w = n mod 262144" "i < n" "i < 262144"
  shows "unat ((w + 262144 - 1 - of_nat i :: u32) mod 262144) = (n - i - 1) mod 262144"
proof -
  have w: "unat w < 262144" using assms by simp
  have i: "unat (of_nat i :: u32) = i" using assms(3) by (simp add: unat_of_nat)
  have eq: "w + 262144 - 1 - of_nat i = w + (262143 - of_nat i)" by simp
  have "unat (262143 - of_nat i :: u32) = 262143 - i"
    using assms(3) i by (subst unat_sub) (simp_all add: word_le_nat_alt)
  moreover have "unat (w + (262143 - of_nat i)) = unat w + (262143 - i)"
    using w calculation by (simp add: unat_word_ariths)
  ultimately have "unat (w + 262144 - 1 - of_nat i) = n mod 262144 + (262143 - i)" using assms(1) by (simp only: eq)
  moreover have "(n mod 262144 + (262143 - i)) mod 262144 = (n + (262143 - i)) mod 262144" by (rule mod_add_left_eq)
  moreover have "n + (262143 - i) = n - i - 1 + 262144" using assms by simp
  ultimately show ?thesis by (simp add: unat_mod del: add_diff_assoc2)
qed

lemma upt_rev_Suc: "a < b \<Longrightarrow> rev [a..<b] = (b - 1) # rev [a..<b - 1]"
  by (cases b) simp_all

lemma scan_window:
  assumes r: "ring_ref h ns r"
  shows "i + n = min (length h) 262144 \<Longrightarrow> scan_back r filt n (of_nat i) m =
    take m [e \<leftarrow> map (spec_entry h ns) (rev [length h - (i + n) + 1..<length h - i + 1]). filt = 22 \<or> e_kind e = filt]"
proof (induction n arbitrary: i m)
  case (Suc n)
  note a = r [unfolded ring_ref_def]
  have i: "i < length h" "i < 262144" using Suc.prems by auto
  have w: "in_window h (length h - i)" using i by (auto simp: in_window_def)
  have slot: "unat ((g_net_trace_w r + 262144 - 1 - of_nat i) mod 262144) = (length h - i - 1) mod 262144"
    using scan_slot i a by blast
  have e: "g_net_trace r ((length h - i - 1) mod 262144) = spec_entry h ns (length h - i)" using a w by blast
  have up: "rev [length h - (i + Suc n) + 1..<length h - i + 1] =
      (length h - i) # rev [length h - (Suc i + n) + 1..<length h - Suc i + 1]"
    using i Suc.prems by (subst upt_rev_Suc) (auto simp: Suc_diff_Suc)
  have nxt: "(of_nat i + 1 :: u32) = of_nat (Suc i)" by simp
  have IH: "scan_back r filt n (of_nat (Suc i)) m' = take m' [e \<leftarrow> map (spec_entry h ns)
      (rev [length h - (Suc i + n) + 1..<length h - Suc i + 1]). filt = 22 \<or> e_kind e = filt]" for m'
    using Suc.prems by (intro Suc.IH) simp
  show ?case
    unfolding scan_back.simps slot e Let_def nxt IH up
    by (cases m) (simp_all del: upt_Suc of_nat_Suc)
qed simp

section \<open>Properties\<close>

text \<open>
  C39. Ordinal queries of the event ring. After a reset of a ring with any stale contents and any
  pushes and host-name attachments, the event of ordinal \<open>k\<close> is returned exactly when it is one
  of the last 262144 pushed, with the fields it was pushed with; a host name is returned exactly
  when the last name attached to that very event is among the last 4096 attachments.
\<close>

theorem ring_queries_exact:
  assumes "ring_run h ns r" and "k < 2 ^ 64" and "0 < n"
  shows "net_ring_latest r = of_nat (length h)
    \<and> net_ring_get (of_nat k) r = (if in_window h k then Some (spec_entry h ns k) else None)
    \<and> net_ring_get_hostname (of_nat k) n r =
      (if \<not> in_window h k then None else case last_attach ns k of None \<Rightarrow> None
       | Some j \<Rightarrow> if length ns \<le> j + 4096 then Some (take (n - 1) (snd (ns ! j))) else None)"
proof -
  have r: "ring_ref h ns r" using assms(1) by (rule ring_run_ref)
  have "unat (g_net_trace_seq r) = length h" "length h < 2 ^ 64" using r by (simp_all add: ring_ref_def)
  then have "g_net_trace_seq r = of_nat (length h)" by (simp only: word_unat_eq_iff unat_of_nat) simp
  then show ?thesis
    unfolding net_ring_latest_def using get_answers [OF r assms(2)] hostname_answers [OF r assms(2,3)] by blast
qed

text \<open>
  Most-recent queries of the event ring. The copy of at most \<open>n\<close> entries of one kind (or of
  all kinds) returns the last \<open>n\<close> matching entries of the whole retained window, oldest first, and
  the debug state reports the window's first ordinal.
\<close>

lemma ring_recent_exact:
  assumes "ring_run h ns r"
  shows "net_ring_copy_recent n filt r =
      (let hits = [e \<leftarrow> map (spec_entry h ns) (window h). filt = 22 \<or> e_kind e = filt]
       in drop (length hits - unat n) hits)
    \<and> oldest (net_ring_debug_state r) = of_nat (length h - min (length h) 262144 + 1)"
proof -
  have r: "ring_ref h ns r" using assms by (rule ring_run_ref)
  note a = r [unfolded ring_ref_def]
  let ?hits = "[e \<leftarrow> map (spec_entry h ns) (window h). filt = 22 \<or> e_kind e = filt]"
  have ret: "unat (g_net_trace_retained r) = min (length h) 262144" using a by blast
  have "scan_back r filt (unat (g_net_trace_retained r)) 0 m = take m (rev ?hits)" for m
    using scan_window [OF r, of 0 "min (length h) 262144" filt m] ret
    by (simp add: window_def rev_map rev_filter del: upt_Suc)
  then have c: "net_ring_copy_recent n filt r = drop (length ?hits - unat n) ?hits"
    by (simp add: net_ring_copy_recent_def take_rev)
  have "oldest (net_ring_debug_state r) = of_nat (length h - min (length h) 262144 + 1)"
  proof (cases "h = []")
    case True
    then have "g_net_trace_retained r = 0" "g_net_trace_seq r = 0" using a by (simp_all add: unat_eq_0)
    then show ?thesis by (simp add: net_ring_debug_state_def True)
  next
    case False
    let ?n = "min (length h) 262144"
    have n: "1 \<le> ?n" "?n \<le> length h" "?n \<le> 262144" using False by (cases h; simp)+
    have rw: "g_net_trace_retained r = of_nat (?n - 1) + 1"
      using ret n by (simp add: word_unat_eq_iff unat_of_nat unat_word_ariths)
    have nz: "g_net_trace_retained r \<noteq> 0" using ret n by auto
    have "unat ((g_net_trace_w r + 262144 - 1 - of_nat (?n - 1) :: u32) mod 262144) = (length h - (?n - 1) - 1) mod 262144"
      by (rule scan_slot) (use a n in auto)
    moreover have "length h - (?n - 1) - 1 = length h - ?n + 1 - 1" using n by simp
    ultimately have slot: "unat ((g_net_trace_w r + 262144 - g_net_trace_retained r) mod 262144) = (length h - ?n + 1 - 1) mod 262144"
      unfolding rw by (simp add: algebra_simps)
    have "in_window h (length h - ?n + 1)" using n by (auto simp: in_window_def)
    then have "e_count (g_net_trace r ((length h - ?n + 1 - 1) mod 262144)) = of_nat (length h - ?n + 1)"
      using a spec_entry_simps(1) by metis
    then show ?thesis using nz by (simp only: net_ring_debug_state_def slot net_ring_state.simps if_False not_False_eq_True if_True)
  qed
  with c show ?thesis by (simp add: Let_def)
qed

text \<open>A ring that has wrapped nothing yet: two events, the second named.\<close>

definition demo_clock :: net_clock where
  "demo_clock = \<lparr>scheduler_system_timestamp = 7, scheduler_cycles9 = 0, scheduler_cycles7 = 0, insn_count9 = 0,
    insn_count7 = 0, pc9 = 0, pc7 = 0\<rparr>"

definition demo_event :: "u8 \<Rightarrow> net_event" where
  "demo_event k = \<lparr>v_kind = k, v_direction = 0, v_wifi_reg = 0, v_wifi_value = 5, v_src_mac = None, v_dst_mac = None,
    v_src_ipv4 = 0, v_dst_ipv4 = 0, v_src_port = 1, v_dst_port = 53, v_payload_len = 9, v_aux = 1\<rparr>"

definition demo_ring :: net_ring where
  "demo_ring = \<lparr>g_net_trace = (\<lambda>_. entry_of demo_clock 2 (demo_event 3)), g_net_hostname_pool = (\<lambda>_. (1, ''stale'')),
    g_net_trace_w = 9, g_net_trace_retained = 9, g_net_trace_seq = 9, g_net_hostname_w = 3,
    g_net_kind_counters = (\<lambda>_. 1), g_net_last_event_sys = 0\<rparr>"

lemma demo_run:
  "ring_run [(demo_clock, demo_event 18), (demo_clock, demo_event 12)] [(2, ''nas.example'')]
    (net_ring_set_hostname 2 ''nas.example'' (snd (net_ring_push demo_clock (demo_event 12)
      (snd (net_ring_push demo_clock (demo_event 18) (net_ring_reset demo_ring))))))"
proof -
  note p1 = ring_push [OF ring_start [of demo_ring], of demo_clock "demo_event 18"]
  note p2 = ring_push [OF p1, of demo_clock "demo_event 12"]
  show ?thesis using ring_name [OF p2, of 2 "''nas.example''"] by simp
qed

lemma ring_queries_exact_witness:
  "net_ring_get_hostname 2 254 (net_ring_set_hostname 2 ''nas.example'' (snd (net_ring_push demo_clock (demo_event 12)
      (snd (net_ring_push demo_clock (demo_event 18) (net_ring_reset demo_ring)))))) = Some ''nas.example''"
  using ring_queries_exact [OF demo_run, of 2 254] by (simp add: in_window_def last_attach_def)

lemma ring_recent_exact_witness:
  "map e_count (net_ring_copy_recent 5 22 (net_ring_set_hostname 2 ''nas.example'' (snd (net_ring_push demo_clock
      (demo_event 12) (snd (net_ring_push demo_clock (demo_event 18) (net_ring_reset demo_ring))))))) = [1, 2]"
  using ring_recent_exact [OF demo_run, of 5 22] by (simp add: window_def)

lemma iequals_iff: "iequals a b \<longleftrightarrow> map tolower a = map tolower b"
  by (induction a b rule: iequals.induct) auto

lemma all_names_parse:
  "list_all (\<lambda>i. nds_net_event_kind_parse (kNetEventKindNames ! i) = Some (of_nat i)) [0..<22]"
  by code_simp

text \<open>
  Event kind names round-trip: every kind's printed name parses back to the kind, in whatever
  letter case it is typed, and an out-of-range kind prints a name that parses to nothing.
\<close>

lemma kind_name_roundtrip:
  "(kind < 22 \<and> map tolower typed = map tolower (nds_net_event_kind_name kind) \<longrightarrow> nds_net_event_kind_parse typed = Some kind)
    \<and> (22 \<le> kind \<longrightarrow> nds_net_event_kind_parse (nds_net_event_kind_name kind) = None)"
proof -
  have "nds_net_event_kind_parse (nds_net_event_kind_name kind) = Some kind" if "kind < 22" for kind
  proof -
    have "unat kind < 22" using that by (simp add: word_less_nat_alt)
    then show ?thesis using all_names_parse that by (simp add: list_all_iff nds_net_event_kind_name_def)
  qed
  moreover have "nds_net_event_kind_parse ''unknown'' = None" by code_simp
  moreover have "nds_net_event_kind_parse a = nds_net_event_kind_parse b" if "map tolower a = map tolower b" for a b
  proof -
    have "parse_kind_from a i ns = parse_kind_from b i ns" for i ns
      by (induction ns arbitrary: i) (use that in \<open>simp_all add: iequals_iff\<close>)
    then show ?thesis using that by (simp add: nds_net_event_kind_parse_def iequals_iff)
  qed
  ultimately show ?thesis by (metis nds_net_event_kind_name_def not_le)
qed

lemma kind_name_roundtrip_witness: "nds_net_event_kind_parse ''TCP_Open'' = Some 14"
proof -
  have "map tolower ''TCP_Open'' = map tolower (nds_net_event_kind_name 14)" by code_simp
  then show ?thesis using kind_name_roundtrip [of 14 "''TCP_Open''"] by simp
qed

end
