(* ===== verification/NetSanitize.thy ===== *)
theory NetSanitize
  imports Prelude
begin

text \<open>
  The capture sanitizer (\<open>runner/src/net/net_sanitize.cpp\<close>): it rewrites the one learned console
  MAC address and DHCP host names in a captured Ethernet frame, in place, and the replay path's
  inverse.  A frame is the list of its bytes; every read and write goes through a bounds check
  whose failure is \<open>None\<close>, so that \<open>Some\<close> states that the code stays inside its buffer.  Buffer
  offsets (\<open>size_t\<close>) are natural numbers.  Shown: no access leaves the buffer; the frame that comes
  out has exactly the identity-bearing fields substituted; the identity is gone from every
  recognised field; replay restores it; the recomputed UDP checksum verifies.
\<close>

section \<open>Byte access\<close>

definition get8 :: "u8 list \<Rightarrow> nat \<Rightarrow> u8 option" where
  "get8 f i = (if i < length f then Some (f ! i) else None)"

definition get16 :: "u8 list \<Rightarrow> nat \<Rightarrow> u16 option" where
  "get16 f i = do { a \<leftarrow> get8 f i; b \<leftarrow> get8 f (i + 1); Some (push_bit 8 (ucast a) OR ucast b) }"

definition get32 :: "u8 list \<Rightarrow> nat \<Rightarrow> u32 option" where
  "get32 f i = do { a \<leftarrow> get8 f i; b \<leftarrow> get8 f (i + 1); c \<leftarrow> get8 f (i + 2); d \<leftarrow> get8 f (i + 3);
     Some (push_bit 24 (ucast a) OR push_bit 16 (ucast b) OR push_bit 8 (ucast c) OR ucast d) }"

text \<open>\<open>memcmp\<close>'s operand and \<open>memcpy\<close> into the frame.\<close>

definition slice :: "u8 list \<Rightarrow> nat \<Rightarrow> nat \<Rightarrow> u8 list" where
  "slice f i n = take n (drop i f)"

definition patch :: "u8 list \<Rightarrow> nat \<Rightarrow> u8 list \<Rightarrow> u8 list" where
  "patch f i bs = take i f @ bs @ drop (i + length bs) f"

definition getn :: "u8 list \<Rightarrow> nat \<Rightarrow> nat \<Rightarrow> u8 list option" where
  "getn f i n = (if i + n \<le> length f then Some (slice f i n) else None)"

definition putn :: "u8 list \<Rightarrow> nat \<Rightarrow> u8 list \<Rightarrow> u8 list option" where
  "putn f i bs = (if i + length bs \<le> length f then Some (patch f i bs) else None)"

definition wr16 :: "u8 list \<Rightarrow> nat \<Rightarrow> u16 \<Rightarrow> u8 list option" where
  "wr16 f i v = putn f i [ucast (drop_bit 8 v), ucast v]"

section \<open>Hashing and the sanitizer state\<close>

definition Fnv1a64 :: "u8 list \<Rightarrow> u64" where
  "Fnv1a64 data = foldl (\<lambda>h b. (h XOR ucast b) * 0x100000001b3) 0xcbf29ce484222325 data"

record san_state =
  has_identity :: bool
  identity_mac :: "u8 list"
  mac_cache :: "u64 \<rightharpoonup> u8 list"
  hostname_cache :: "u8 list \<rightharpoonup> u8 list"

definition san_fresh :: san_state where
  "san_fresh = \<lparr>has_identity = False, identity_mac = replicate 6 0, mac_cache = (\<lambda>_. None), hostname_cache = (\<lambda>_. None)\<rparr>"

definition PackMac :: "u8 list \<Rightarrow> u64" where
  "PackMac mac = foldl (\<lambda>v b. push_bit 8 v OR ucast b) 0 (take 6 mac)"

definition LearnIdentityFromTxSource :: "u8 list \<Rightarrow> san_state \<Rightarrow> san_state" where
  "LearnIdentityFromTxSource eth_src st =
    (if has_identity st then st else st\<lparr>identity_mac := eth_src, has_identity := True\<rparr>)"

text \<open>The synthetic address of a MAC: the hash bytes after a locally administered first octet.\<close>

definition synthetic_mac :: "u8 list \<Rightarrow> u8 list" where
  "synthetic_mac mac = (let h = Fnv1a64 mac in 0x02 # map (\<lambda>i. ucast (drop_bit (8 * i) h AND 0xFF)) [0..<5])"

definition MapMac :: "u8 list \<Rightarrow> san_state \<Rightarrow> u8 list \<times> san_state" where
  "MapMac mac st =
    (let key = PackMac mac in
     case mac_cache st key of Some out \<Rightarrow> (out, st)
     | None \<Rightarrow> let out = synthetic_mac mac in (out, st\<lparr>mac_cache := (mac_cache st)(key \<mapsto> out)\<rparr>))"

text \<open>\<open>snprintf "%08x"\<close>\<close>

definition hex_digit :: "u32 \<Rightarrow> u8" where
  "hex_digit n = (if n < 10 then ucast n + 48 else ucast n + 87)"

definition hex8 :: "u32 \<Rightarrow> u8 list" where
  "hex8 v = map (\<lambda>i. hex_digit (drop_bit (4 * (7 - i)) v AND 0xF)) [0..<8]"

definition ndsguest :: "u8 list" where
  "ndsguest = [110, 100, 115, 103, 117, 101, 115, 116, 45]"

definition pseudo_host :: "u8 list \<Rightarrow> u8 list" where
  "pseudo_host data =
    (let buf = ndsguest @ hex8 (ucast (Fnv1a64 data AND 0xFFFFFFFF))
     in map (\<lambda>i. buf ! (i mod length buf)) [0..<length data])"

definition MapHostname :: "u8 list \<Rightarrow> san_state \<Rightarrow> u8 list \<times> san_state" where
  "MapHostname data st =
    (case hostname_cache st data of Some out \<Rightarrow> (out, st)
     | None \<Rightarrow> let out = pseudo_host data in (out, st\<lparr>hostname_cache := (hostname_cache st)(data \<mapsto> out)\<rparr>))"

section \<open>UDP checksum\<close>

fun csum_words :: "nat \<Rightarrow> u8 list \<Rightarrow> u32 \<Rightarrow> u32" where
  "csum_words i (a # b # r) acc =
    csum_words (i + 2) r (if i = 6 then acc else acc + (push_bit 8 (ucast a) OR ucast b))"
| "csum_words i [a] acc = acc + push_bit 8 (ucast a)"
| "csum_words i [] acc = acc"

lemma fold16_decreases:
  "drop_bit 16 (s :: u32) \<noteq> 0 \<Longrightarrow> unat ((s AND 0xFFFF) + drop_bit 16 s) < unat s"
  "unat ((s AND 0xFFFF) + drop_bit 16 s) = unat s mod 65536 + unat s div 65536"
proof -
  have m: "(0xFFFF :: u32) = mask 16" by (simp add: mask_eq_exp_minus_1)
  have lo: "unat (s AND 0xFFFF) = unat s mod 65536" by (simp only: m unat_and_mask) simp
  have hi: "unat (drop_bit 16 s) = unat s div 65536" unfolding unat_drop_bit_eq by (simp add: drop_bit_eq_div)
  have "unat s < 4294967296" by (rule order_less_le_trans [OF unsigned_less]) simp
  then have b: "unat s div 65536 < 65536" "unat s mod 65536 < 65536" by simp_all
  then show e: "unat ((s AND 0xFFFF) + drop_bit 16 s) = unat s mod 65536 + unat s div 65536"
    by (simp add: unat_word_ariths lo hi)
  assume "drop_bit 16 s \<noteq> 0"
  then have "unat s div 65536 \<noteq> 0" using hi by (metis unat_eq_0)
  moreover have "unat s = 65536 * (unat s div 65536) + unat s mod 65536" by simp
  ultimately show "unat ((s AND 0xFFFF) + drop_bit 16 s) < unat s" unfolding e by linarith
qed

function fold16 :: "u32 \<Rightarrow> u32" where
  "fold16 acc = (if drop_bit 16 acc \<noteq> 0 then fold16 ((acc AND 0xFFFF) + drop_bit 16 acc) else acc)"
  by auto
termination
  by (relation "measure unat") (simp, rule in_measure [THEN iffD2], erule fold16_decreases)

declare fold16.simps [simp del]

definition ComputeUdpChecksum :: "u32 \<Rightarrow> u32 \<Rightarrow> u8 list \<Rightarrow> u16" where
  "ComputeUdpChecksum src dst udp =
    (let acc = (drop_bit 16 src AND 0xFFFF) + (src AND 0xFFFF) + (drop_bit 16 dst AND 0xFFFF) + (dst AND 0xFFFF)
               + 17 + of_nat (length udp);
         acc = fold16 (csum_words 0 udp acc);
         result = ucast (NOT acc AND 0xFFFF) in
     if result = 0 then 0xFFFF else result)"

section \<open>The two walks over a frame\<close>

text \<open>
  The part both functions share: from the EtherType to the UDP header.  \<open>Some None\<close> is an early
  return, \<open>Some (Some (src, dst, udp_off, udp_len))\<close> a DHCP datagram.
\<close>

definition dhcp_gate :: "u8 list \<Rightarrow> (u32 \<times> u32 \<times> nat \<times> nat) option option" where
  "dhcp_gate f = do {
     ethertype \<leftarrow> get16 f 12;
     if ethertype \<noteq> 0x0800 \<or> length f < 14 + 20 then Some None else do {
     b0 \<leftarrow> get8 f 14;
     let ihl = unat (b0 AND 0x0F) * 4;
     if drop_bit 4 b0 \<noteq> 4 \<or> ihl < 20 \<or> 14 + ihl > length f then Some None else do {
     proto \<leftarrow> get8 f 23;
     if proto \<noteq> 17 then Some None else do {
     src \<leftarrow> get32 f 26; dst \<leftarrow> get32 f 30;
     let udp_off = 14 + ihl;
     if udp_off + 8 > length f then Some None else do {
     sp \<leftarrow> get16 f udp_off; dp \<leftarrow> get16 f (udp_off + 2);
     if \<not> (sp = 67 \<or> sp = 68 \<or> dp = 67 \<or> dp = 68) then Some None else do {
     declared \<leftarrow> get16 f (udp_off + 4);
     let udp_len = min (unat declared) (length f - udp_off);
     if udp_len < 8 then Some None else Some (Some (src, dst, udp_off, udp_len)) }}}}}}"

text \<open>The magic cookie of the options.\<close>

definition has_cookie :: "u8 list \<Rightarrow> nat \<Rightarrow> nat \<Rightarrow> bool option" where
  "has_cookie f cookie e = (if cookie + 4 \<le> e then do {
     a \<leftarrow> get8 f cookie; b \<leftarrow> get8 f (cookie + 1); c \<leftarrow> get8 f (cookie + 2); d \<leftarrow> get8 f (cookie + 3);
     Some (a = 0x63 \<and> b = 0x82 \<and> c = 0x53 \<and> d = 0x63) } else Some False)"

text \<open>The checksum repair after a payload change; a zero checksum means none.\<close>

definition fix_checksum :: "u32 \<Rightarrow> u32 \<Rightarrow> nat \<Rightarrow> nat \<Rightarrow> u8 list \<Rightarrow> u8 list option" where
  "fix_checksum src dst udp_off udp_len f = do {
     orig \<leftarrow> get16 f (udp_off + 6);
     if orig \<noteq> 0 then do { udp \<leftarrow> getn f udp_off udp_len; wr16 f (udp_off + 6) (ComputeUdpChecksum src dst udp) }
     else Some f }"

text \<open>\<open>rewrite_if_identity\<close>; the flag says whether anything changed.\<close>

definition rewrite_if_identity :: "bool \<Rightarrow> u8 list \<Rightarrow> u8 list \<Rightarrow> nat \<Rightarrow> u8 list \<times> bool \<Rightarrow> (u8 list \<times> bool) option" where
  "rewrite_if_identity have_identity ident synth off x =
    (if \<not> have_identity then Some x
     else do { cur \<leftarrow> getn (fst x) off 6;
       if cur \<noteq> ident then Some x
       else if cur \<noteq> synth then do { f \<leftarrow> putn (fst x) off synth; Some (f, True) }
       else Some x })"

type_synonym walk = "u8 list \<times> san_state \<times> bool"

definition san_option :: "bool \<Rightarrow> u8 list \<Rightarrow> u8 list \<Rightarrow> u8 \<Rightarrow> nat \<Rightarrow> nat \<Rightarrow> walk \<Rightarrow> walk option" where
  "san_option have_identity ident synth code n v x = (case x of (f, st, payload_changed) \<Rightarrow> do {
     client_id \<leftarrow> (if have_identity \<and> code = 61 \<and> n = 7
       then do { b \<leftarrow> get8 f v; if b = 1 then do { m \<leftarrow> getn f (v + 1) 6; Some (m = ident) } else Some False }
       else Some False);
     if client_id then do {
       m \<leftarrow> getn f (v + 1) 6;
       if m \<noteq> synth then do { f \<leftarrow> putn f (v + 1) synth; Some (f, st, True) } else Some (f, st, payload_changed) }
     else if code = 12 \<and> n > 0 then do {
       val \<leftarrow> getn f v n;
       let (repl, st) = MapHostname val st;
       if val \<noteq> repl then do { f \<leftarrow> putn f v repl; Some (f, st, True) } else Some (f, st, payload_changed) }
     else Some (f, st, payload_changed) })"

text \<open>The option loop from \<open>p\<close> to \<open>e\<close>, over any per-option body.\<close>

function option_loop :: "(u8 \<Rightarrow> nat \<Rightarrow> nat \<Rightarrow> 'x \<Rightarrow> 'x option) \<Rightarrow> ('x \<Rightarrow> u8 list) \<Rightarrow> nat \<Rightarrow> nat \<Rightarrow> 'x \<Rightarrow> 'x option" where
  "option_loop body frm e p x =
    (if p < e then do {
       code \<leftarrow> get8 (frm x) p;
       if code = 0xFF then Some x
       else if code = 0 then option_loop body frm e (p + 1) x
       else if p + 1 \<ge> e then Some x
       else do {
         opt_len \<leftarrow> get8 (frm x) (p + 1);
         if p + 2 + unat opt_len > e then Some x
         else do {
           x \<leftarrow> body code (unat opt_len) (p + 2) x;
           option_loop body frm e (p + 2 + unat opt_len) x } } }
     else Some x)"
  by auto
termination by (relation "measure (\<lambda>(body, frm, e, p, x). e - p)") auto

declare option_loop.simps [simp del]

definition san_chaddr :: "bool \<Rightarrow> u8 list \<Rightarrow> u8 list \<Rightarrow> nat \<Rightarrow> nat \<Rightarrow> u8 list \<Rightarrow> (u8 list \<times> bool) option" where
  "san_chaddr have_identity ident synth bootp_off bootp_len f =
    (if bootp_len \<ge> 34 \<and> have_identity then do {
       htype \<leftarrow> get8 f (bootp_off + 1); hlen \<leftarrow> get8 f (bootp_off + 2);
       if htype = 1 \<and> hlen = 6 then do {
         c \<leftarrow> getn f (bootp_off + 28) 6;
         if c = ident \<and> c \<noteq> synth then do { f \<leftarrow> putn f (bootp_off + 28) synth; Some (f, True) }
         else Some (f, False) }
       else Some (f, False) }
     else Some (f, False))"

definition san_frame :: "bool \<Rightarrow> u8 list \<Rightarrow> u8 list \<Rightarrow> u8 list \<Rightarrow> san_state \<Rightarrow> (bool \<times> u8 list \<times> san_state) option" where
  "san_frame have_identity ident synth f st = do {
     x \<leftarrow> rewrite_if_identity have_identity ident synth 0 (f, False);
     x \<leftarrow> rewrite_if_identity have_identity ident synth 6 x;
     ethertype \<leftarrow> get16 (fst x) 12;
     if ethertype = 0x0806 then
       (if length f \<ge> 14 + 28 then do {
          x \<leftarrow> rewrite_if_identity have_identity ident synth 22 x;
          x \<leftarrow> rewrite_if_identity have_identity ident synth 32 x;
          Some (snd x, fst x, st) }
        else Some (snd x, fst x, st))
     else do {
     gate \<leftarrow> dhcp_gate (fst x);
     case gate of None \<Rightarrow> Some (snd x, fst x, st)
     | Some (src_ipv4, dst_ipv4, udp_off, udp_len) \<Rightarrow> do {
       let bootp_off = udp_off + 8;
       let bootp_len = udp_len - 8;
       y \<leftarrow> san_chaddr have_identity ident synth bootp_off bootp_len (fst x);
       let cookie = bootp_off + 236;
       let bootp_end = min (bootp_off + bootp_len) (length f);
       magic \<leftarrow> has_cookie (fst y) cookie bootp_end;
       z \<leftarrow> (if magic
          then option_loop (san_option have_identity ident synth) fst bootp_end (cookie + 4) (fst y, st, snd y)
          else Some (fst y, st, snd y));
       if snd (snd z) then do { f' \<leftarrow> fix_checksum src_ipv4 dst_ipv4 udp_off udp_len (fst z); Some (True, f', fst (snd z)) }
       else Some (snd x, fst z, fst (snd z)) } } }"

definition net_sanitize_ethernet_frame :: "u8 list \<Rightarrow> u8 \<Rightarrow> san_state \<Rightarrow> (bool \<times> u8 list \<times> san_state) option" where
  "net_sanitize_ethernet_frame f direction st =
    (if length f < 14 then Some (False, f, st) else do {
     st \<leftarrow> (if direction = 0 \<and> \<not> has_identity st
            then do { src \<leftarrow> getn f 6 6; Some (LearnIdentityFromTxSource src st) } else Some st);
     let (synth, st) = (if has_identity st then MapMac (identity_mac st) st else (replicate 6 0, st));
     san_frame (has_identity st) (identity_mac st) synth f st })"

definition restore_mac :: "u8 list \<Rightarrow> u8 list \<Rightarrow> nat \<Rightarrow> u8 list \<Rightarrow> u8 list option" where
  "restore_mac synth real off f = do { cur \<leftarrow> getn f off 6; if cur = synth then putn f off real else Some f }"

definition restore_option :: "u8 list \<Rightarrow> u8 list \<Rightarrow> u8 \<Rightarrow> nat \<Rightarrow> nat \<Rightarrow> u8 list \<times> bool \<Rightarrow> (u8 list \<times> bool) option" where
  "restore_option synth real code n v x =
    (if code = 61 \<and> n = 7 then do {
       b \<leftarrow> get8 (fst x) v;
       if b = 1 then do {
         m \<leftarrow> getn (fst x) (v + 1) 6;
         if m = synth then do { f \<leftarrow> putn (fst x) (v + 1) real; Some (f, True) } else Some x }
       else Some x }
     else Some x)"

definition restore_chaddr :: "u8 list \<Rightarrow> u8 list \<Rightarrow> nat \<Rightarrow> nat \<Rightarrow> u8 list \<Rightarrow> (u8 list \<times> bool) option" where
  "restore_chaddr synth real bootp_off bootp_len f =
    (if bootp_len \<ge> 34 then do {
       htype \<leftarrow> get8 f (bootp_off + 1); hlen \<leftarrow> get8 f (bootp_off + 2);
       if htype = 1 \<and> hlen = 6 then do {
         c \<leftarrow> getn f (bootp_off + 28) 6;
         if c = synth then do { f \<leftarrow> putn f (bootp_off + 28) real; Some (f, True) } else Some (f, False) }
       else Some (f, False) }
     else Some (f, False))"

definition net_desanitize_ethernet_frame_for_replay :: "u8 list \<Rightarrow> u8 list \<Rightarrow> u8 list \<Rightarrow> u8 list option" where
  "net_desanitize_ethernet_frame_for_replay f synth real =
    (if length f < 14 then Some f else do {
     f \<leftarrow> restore_mac synth real 0 f;
     f \<leftarrow> restore_mac synth real 6 f;
     ethertype \<leftarrow> get16 f 12;
     if ethertype = 0x0806 then
       (if length f \<ge> 14 + 28 then do { f \<leftarrow> restore_mac synth real 22 f; restore_mac synth real 32 f } else Some f)
     else do {
     gate \<leftarrow> dhcp_gate f;
     case gate of None \<Rightarrow> Some f
     | Some (src_ipv4, dst_ipv4, udp_off, udp_len) \<Rightarrow> do {
       let bootp_off = udp_off + 8;
       let bootp_len = udp_len - 8;
       y \<leftarrow> restore_chaddr synth real bootp_off bootp_len f;
       let cookie = bootp_off + 236;
       let bootp_end = min (bootp_off + bootp_len) (length f);
       magic \<leftarrow> has_cookie (fst y) cookie bootp_end;
       y \<leftarrow> (if magic then option_loop (restore_option synth real) fst bootp_end (cookie + 4) y else Some y);
       if snd y then fix_checksum src_ipv4 dst_ipv4 udp_off udp_len (fst y) else Some (fst y) } } })"

section \<open>Slices and patches\<close>

lemma length_slice [simp]: "i + n \<le> length f \<Longrightarrow> length (slice f i n) = n"
  by (simp add: slice_def)

lemma nth_slice: "i + n \<le> length f \<Longrightarrow> j < n \<Longrightarrow> slice f i n ! j = f ! (i + j)"
  by (simp add: slice_def)

lemma length_patch [simp]: "i + length bs \<le> length f \<Longrightarrow> length (patch f i bs) = length f"
  by (simp add: patch_def)

lemma nth_patch: "i + length bs \<le> length f \<Longrightarrow> j < length f \<Longrightarrow>
    patch f i bs ! j = (if i \<le> j \<and> j < i + length bs then bs ! (j - i) else f ! j)"
  by (auto simp: patch_def nth_append)

lemma slice_eqI: "length f = length g \<Longrightarrow> i + n \<le> length f \<Longrightarrow> (\<And>j. i \<le> j \<Longrightarrow> j < i + n \<Longrightarrow> f ! j = g ! j) \<Longrightarrow> slice f i n = slice g i n"
  by (rule nth_equalityI) (auto simp: nth_slice)

lemma slice_patch_same: "i + length bs \<le> length f \<Longrightarrow> slice (patch f i bs) i (length bs) = bs"
  by (simp add: slice_def patch_def)

lemma slice_patch_other: "i + length bs \<le> length f \<Longrightarrow> j + n \<le> i \<or> i + length bs \<le> j \<Longrightarrow> j + n \<le> length f \<Longrightarrow>
    slice (patch f i bs) j n = slice f j n"
  by (intro slice_eqI) (auto simp: nth_patch)

lemma patch_slice: "i + n \<le> length f \<Longrightarrow> patch f i (slice f i n) = f"
  by (rule nth_equalityI) (auto simp: nth_patch nth_slice)

lemma get8_Some: "i < length f \<Longrightarrow> get8 f i = Some (f ! i)"
  by (simp add: get8_def)

lemma get16_Some: "i + 1 < length f \<Longrightarrow> get16 f i = Some (push_bit 8 (ucast (f ! i)) OR ucast (f ! (i + 1)))"
  by (simp add: get16_def get8_def)

lemma get32_Some: "i + 3 < length f \<Longrightarrow> \<exists>v. get32 f i = Some v"
  by (simp add: get32_def get8_def)

lemma getn_Some: "i + n \<le> length f \<Longrightarrow> getn f i n = Some (slice f i n)"
  by (simp add: getn_def)

lemma putn_Some: "i + length bs \<le> length f \<Longrightarrow> putn f i bs = Some (patch f i bs)"
  by (simp add: putn_def)

section \<open>The identity-bearing fields of a frame\<close>

datatype field_kind = MacField | HostField

type_synonym field = "nat \<times> nat \<times> field_kind"

definition option_field :: "u8 list \<Rightarrow> u8 \<Rightarrow> nat \<Rightarrow> nat \<Rightarrow> field list" where
  "option_field f code n v =
    (if code = 61 \<and> n = 7 \<and> f ! v = 1 then [(v + 1, 6, MacField)]
     else if code = 12 \<and> n > 0 then [(v, n, HostField)] else [])"

function opt_fields :: "u8 list \<Rightarrow> nat \<Rightarrow> nat \<Rightarrow> field list" where
  "opt_fields f e p =
    (if p < e then
       if f ! p = 0xFF then []
       else if f ! p = 0 then opt_fields f e (p + 1)
       else if p + 1 \<ge> e then []
       else if p + 2 + unat (f ! (p + 1)) > e then []
       else option_field f (f ! p) (unat (f ! (p + 1))) (p + 2) @ opt_fields f e (p + 2 + unat (f ! (p + 1)))
     else [])"
  by auto
termination by (relation "measure (\<lambda>(f, e, p). e - p)") auto

declare opt_fields.simps [simp del]

definition bootp_fields :: "u8 list \<Rightarrow> nat \<Rightarrow> nat \<Rightarrow> field list" where
  "bootp_fields f udp_off udp_len =
    (let b = udp_off + 8; e = udp_off + udp_len in
     (if udp_len \<ge> 42 \<and> f ! (b + 1) = 1 \<and> f ! (b + 2) = 6 then [(b + 28, 6, MacField)] else [])
     @ (if the (has_cookie f (b + 236) e) then opt_fields f e (b + 240) else []))"

definition fields :: "u8 list \<Rightarrow> field list" where
  "fields f = [(0, 6, MacField), (6, 6, MacField)] @
    (if the (get16 f 12) = 0x0806 then (if length f \<ge> 42 then [(22, 6, MacField), (32, 6, MacField)] else [])
     else case the (dhcp_gate f) of None \<Rightarrow> [] | Some (_, _, udp_off, udp_len) \<Rightarrow> bootp_fields f udp_off udp_len)"

text \<open>The substitution of every field.\<close>

definition apply_field :: "(field_kind \<Rightarrow> u8 list \<Rightarrow> u8 list) \<Rightarrow> field \<Rightarrow> u8 list \<Rightarrow> u8 list" where
  "apply_field \<phi> x f = (case x of (off, n, k) \<Rightarrow> patch f off (\<phi> k (slice f off n)))"

definition same_length :: "(field_kind \<Rightarrow> u8 list \<Rightarrow> u8 list) \<Rightarrow> bool" where
  "same_length \<phi> \<longleftrightarrow> (\<forall>x. length (\<phi> HostField x) = length x) \<and> (\<forall>x. length x = 6 \<longrightarrow> length (\<phi> MacField x) = 6)"

text \<open>Fields in ascending order, disjoint, from \<open>lo\<close> up to \<open>hi\<close>; MAC fields have six bytes.\<close>

fun chain :: "nat \<Rightarrow> field list \<Rightarrow> nat \<Rightarrow> bool" where
  "chain lo [] hi = (lo \<le> hi)"
| "chain lo ((off, n, k) # fs) hi = (lo \<le> off \<and> (k = MacField \<longrightarrow> n = 6) \<and> chain (off + n) fs hi)"

lemma chain_le: "chain lo fs hi \<Longrightarrow> lo \<le> hi"
  by (induction lo fs hi rule: chain.induct) auto

lemma chain_mem: "chain lo fs hi \<Longrightarrow> (off, n, k) \<in> set fs \<Longrightarrow> lo \<le> off \<and> off + n \<le> hi \<and> (k = MacField \<longrightarrow> n = 6)"
proof (induction lo fs hi rule: chain.induct)
  case (2 lo o' n' k' fs hi)
  then show ?case by (cases "(off, n, k) = (o', n', k')") (auto dest: chain_le)
qed simp

lemma chain_append: "chain lo xs mid \<Longrightarrow> chain mid ys hi \<Longrightarrow> chain lo (xs @ ys) hi"
proof (induction lo xs mid rule: chain.induct)
  case (1 lo mid)
  then show ?case by (cases ys) auto
qed auto

lemma chain_mono: "chain lo fs hi \<Longrightarrow> lo' \<le> lo \<Longrightarrow> hi \<le> hi' \<Longrightarrow> chain lo' fs hi'"
  by (induction lo fs hi arbitrary: lo' rule: chain.induct) auto

definition touched :: "field list \<Rightarrow> nat \<Rightarrow> bool" where
  "touched fs i \<longleftrightarrow> (\<exists>(off, n, k) \<in> set fs. off \<le> i \<and> i < off + n)"

definition hit :: "(field_kind \<Rightarrow> u8 list \<Rightarrow> bool) \<Rightarrow> field list \<Rightarrow> u8 list \<Rightarrow> bool" where
  "hit test fs f \<longleftrightarrow> (\<exists>(off, n, k) \<in> set fs. test k (slice f off n))"

abbreviation dirty :: "(field_kind \<Rightarrow> u8 list \<Rightarrow> u8 list) \<Rightarrow> field list \<Rightarrow> u8 list \<Rightarrow> bool" where
  "dirty \<phi> \<equiv> hit (\<lambda>k x. \<phi> k x \<noteq> x)"

lemma field_length:
  "same_length \<phi> \<Longrightarrow> k = MacField \<longrightarrow> n = 6 \<Longrightarrow> off + n \<le> length f \<Longrightarrow> length (\<phi> k (slice f off n)) = n"
  by (cases k) (auto simp: same_length_def)

lemma apply_fields:
  assumes "same_length \<phi>"
  shows "chain lo fs (length f) \<Longrightarrow> g = fold (apply_field \<phi>) fs f \<Longrightarrow>
    length g = length f \<and> (\<forall>(off, n, k) \<in> set fs. slice g off n = \<phi> k (slice f off n))
    \<and> (\<forall>i < length f. \<not> touched fs i \<longrightarrow> g ! i = f ! i)"
proof (induction lo fs "length f" arbitrary: f rule: chain.induct)
  case (2 lo off n k fs)
  let ?h = "apply_field \<phi> (off, n, k) f"
  have on: "off + n \<le> length f" "k = MacField \<longrightarrow> n = 6" using "2.prems" chain_le by auto
  note fl = field_length [OF assms on(2,1)]
  have h: "length ?h = length f" "slice ?h off n = \<phi> k (slice f off n)"
    using on fl slice_patch_same [of off "\<phi> k (slice f off n)" f] by (simp_all add: apply_field_def)
  have out: "?h ! i = f ! i" if "i < length f" "i < off \<or> off + n \<le> i" for i
    using that on fl by (auto simp: apply_field_def nth_patch)
  have c: "chain (off + n) fs (length ?h)" using "2.prems" h by simp
  have g: "g = fold (apply_field \<phi>) fs ?h" using "2.prems" by simp
  note IH = "2.hyps" [OF h(1) [symmetric] c g]
  have later: "slice ?h o' n' = slice f o' n'" if "(o', n', k') \<in> set fs" for o' n' k'
  proof -
    have "off + n \<le> o'" "o' + n' \<le> length f" using chain_mem [OF c that] h by auto
    then show ?thesis using out h by (intro slice_eqI) auto
  qed
  have head: "\<not> touched fs i" if "i < off + n" for i
    using chain_mem [OF c] that by (fastforce simp: touched_def)
  have "slice g off n = slice ?h off n"
    using IH h on head by (intro slice_eqI) auto
  then show ?case
    using IH h later out by (auto simp: touched_def split: prod.splits)
qed (auto simp: touched_def)

lemma chain_untouched: "chain lo fs hi \<Longrightarrow> i < lo \<or> hi \<le> i \<Longrightarrow> \<not> touched fs i"
  using chain_mem [of lo fs hi] unfolding touched_def by fastforce

lemma hit_cong:
  "length f = length g \<Longrightarrow> chain lo fs (length f) \<Longrightarrow> (\<And>i. lo \<le> i \<Longrightarrow> i < length f \<Longrightarrow> g ! i = f ! i) \<Longrightarrow> hit t fs g \<longleftrightarrow> hit t fs f"
proof -
  assume a: "length f = length g" "chain lo fs (length f)" "\<And>i. lo \<le> i \<Longrightarrow> i < length f \<Longrightarrow> g ! i = f ! i"
  have "slice g off n = slice f off n" if "(off, n, k) \<in> set fs" for off n k
    using chain_mem [OF a(2) that] a by (intro slice_eqI) auto
  then show ?thesis unfolding hit_def by (intro bex_cong) auto
qed

lemma dirty_iff:
  assumes "same_length \<phi>" "chain lo fs (length f)"
  shows "dirty \<phi> fs f \<longleftrightarrow> fold (apply_field \<phi>) fs f \<noteq> f"
proof
  assume "dirty \<phi> fs f"
  then show "fold (apply_field \<phi>) fs f \<noteq> f"
    using apply_fields [OF assms refl] by (fastforce simp: hit_def)
next
  assume "fold (apply_field \<phi>) fs f \<noteq> f"
  moreover have "\<not> dirty \<phi> fs f \<Longrightarrow> fold (apply_field \<phi>) fs f = f"
    using assms(2)
  proof (induction lo fs "length f" rule: chain.induct)
    case (2 lo off n k fs)
    then have "apply_field \<phi> (off, n, k) f = f"
      using chain_le by (fastforce simp: hit_def apply_field_def intro: patch_slice)
    with 2 show ?case by (simp add: hit_def)
  qed simp
  ultimately show "dirty \<phi> fs f" by blast
qed

section \<open>The walks are field substitutions\<close>

definition san_ok :: "san_state \<Rightarrow> bool" where
  "san_ok st \<longleftrightarrow> length (identity_mac st) = 6
    \<and> (\<forall>m out. length m = 6 \<and> mac_cache st (PackMac m) = Some out \<longrightarrow> out = synthetic_mac m)
    \<and> (\<forall>d out. hostname_cache st d = Some out \<longrightarrow> out = pseudo_host d)"

lemma length_synthetic [simp]: "length (synthetic_mac m) = 6"
  by (simp add: synthetic_mac_def Let_def)

lemma length_pseudo_host [simp]: "length (pseudo_host d) = length d"
  by (simp add: pseudo_host_def Let_def)

lemma six: "length (m :: 'x list) = 6 \<Longrightarrow> \<exists>a b c d e g. m = [a, b, c, d, e, g]"
  by (auto simp: numeral_eq_Suc length_Suc_conv)

lemma no_bit8: "8 \<le> n \<Longrightarrow> \<not> bit (x :: u8) n"
  using bit_imp_le_length [of x n] by auto

lemma PackMac_bytes:
  fixes m :: "u8 list" assumes "length m = 6" "i < 6"
  shows "ucast (drop_bit (8 * (5 - i)) (PackMac m)) = m ! i"
proof -
  obtain a b c d e g where m: "m = [a, b, c, d, e, g]" using six [OF assms(1)] by blast
  have "i \<in> {0, 1, 2, 3, 4, 5}" using assms(2) by auto
  then show ?thesis
    unfolding m PackMac_def
    by (auto intro!: bit_word_eqI simp: bit_simps no_bit8)
qed

lemma PackMac_inj: "length m = 6 \<Longrightarrow> length m' = 6 \<Longrightarrow> PackMac m = PackMac m' \<Longrightarrow> m = m'"
  by (rule nth_equalityI) (simp, metis PackMac_bytes)

lemma MapMac_pure:
  assumes "san_ok st" "length m = 6"
  shows "\<exists>st'. MapMac m st = (synthetic_mac m, st') \<and> san_ok st' \<and> identity_mac st' = identity_mac st
    \<and> has_identity st' = has_identity st"
  using assms PackMac_inj [OF _ assms(2)]
  by (cases "mac_cache st (PackMac m)") (auto simp: MapMac_def Let_def san_ok_def)

lemma MapHostname_pure:
  assumes "san_ok st"
  shows "\<exists>st'. MapHostname d st = (pseudo_host d, st') \<and> san_ok st' \<and> identity_mac st' = identity_mac st
    \<and> has_identity st' = has_identity st"
  using assms by (cases "hostname_cache st d") (auto simp: MapHostname_def Let_def san_ok_def)

text \<open>What the sanitizer puts into a field, and what the replay path does.\<close>

definition san_subst :: "bool \<Rightarrow> u8 list \<Rightarrow> field_kind \<Rightarrow> u8 list \<Rightarrow> u8 list" where
  "san_subst have_identity ident k x = (case k of
     MacField \<Rightarrow> if have_identity \<and> x = ident then synthetic_mac ident else x
   | HostField \<Rightarrow> pseudo_host x)"

definition restore_subst :: "u8 list \<Rightarrow> u8 list \<Rightarrow> field_kind \<Rightarrow> u8 list \<Rightarrow> u8 list" where
  "restore_subst synth real k x = (case k of MacField \<Rightarrow> if x = synth then real else x | HostField \<Rightarrow> x)"

lemma same_length_san: "same_length (san_subst h i)"
  by (auto simp: same_length_def san_subst_def)

lemma same_length_restore: "length r = 6 \<Longrightarrow> same_length (restore_subst s r)"
  by (auto simp: same_length_def restore_subst_def)

lemma rewrite_step:
  assumes "off + 6 \<le> length f" "h \<longrightarrow> s = synthetic_mac i"
  shows "rewrite_if_identity h i s off (f, c) =
    Some (apply_field (san_subst h i) (off, 6, MacField) f, c \<or> dirty (san_subst h i) [(off, 6, MacField)] f)"
  using assms
  by (auto simp: rewrite_if_identity_def getn_Some putn_Some apply_field_def hit_def san_subst_def patch_slice)

lemma restore_step:
  assumes "off + 6 \<le> length f" "length r = 6"
  shows "restore_mac s r off f = Some (apply_field (restore_subst s r) (off, 6, MacField) f)"
  using assms by (auto simp: restore_mac_def getn_Some putn_Some apply_field_def restore_subst_def patch_slice)

text \<open>One option body substitutes the fields of that option.\<close>

lemma san_option_step:
  assumes "v + n \<le> length f" "san_ok st" "h \<longrightarrow> s = synthetic_mac i"
  shows "\<exists>st'. san_option h i s code n v (f, st, c) =
      Some (fold (apply_field (san_subst h i)) (option_field f code n v) f, st',
            c \<or> dirty (san_subst h i) (option_field f code n v) f)
    \<and> san_ok st' \<and> identity_mac st' = identity_mac st \<and> has_identity st' = has_identity st"
proof (cases "code = 12 \<and> 0 < n")
  case True
  obtain st' where st': "MapHostname (slice f v n) st = (pseudo_host (slice f v n), st')" "san_ok st'"
    "identity_mac st' = identity_mac st" "has_identity st' = has_identity st"
    using MapHostname_pure [OF assms(2)] by blast
  have code: "code \<noteq> 61" using True by auto
  have "length (pseudo_host (slice f v n)) = n" using assms(1) by simp
  then show ?thesis
    using True assms st' code
    by (auto simp: san_option_def option_field_def getn_Some putn_Some hit_def apply_field_def san_subst_def patch_slice)
next
  case False
  then show ?thesis
    using assms
    by (auto simp: san_option_def option_field_def getn_Some putn_Some get8_Some hit_def apply_field_def
        san_subst_def patch_slice)
qed

lemma restore_option_step:
  assumes "v + n \<le> length f" "length r = 6"
  shows "restore_option s r code n v (f, c) =
    Some (fold (apply_field (restore_subst s r)) (option_field f code n v) f,
          c \<or> hit (\<lambda>k x. k = MacField \<and> x = s) (option_field f code n v) f)"
  using assms
  by (auto simp: restore_option_def hit_def option_field_def getn_Some putn_Some get8_Some apply_field_def restore_subst_def
      patch_slice)

lemma option_field_chain: "v + n \<le> hi \<Longrightarrow> chain v (option_field f code n v) (v + n)"
  by (auto simp: option_field_def)

lemma opt_fields_chain: "p \<le> e \<Longrightarrow> chain p (opt_fields f e p) e"
proof (induction f e p rule: opt_fields.induct)
  case (1 f e p)
  let ?n = "unat (f ! (p + 1))"
  consider "\<not> p < e" | "p < e" "f ! p = 0xFF" | "p < e" "f ! p \<noteq> 0xFF" "f ! p = 0"
    | "p < e" "f ! p \<noteq> 0xFF" "f ! p \<noteq> 0" "\<not> p + 1 < e \<or> p + 2 + ?n > e"
    | "p < e" "f ! p \<noteq> 0xFF" "f ! p \<noteq> 0" "p + 1 < e" "p + 2 + ?n \<le> e" by linarith
  then show ?case
  proof cases
    case 3
    then show ?thesis using 1 by (subst opt_fields.simps) (auto intro: chain_mono)
  next
    case 5
    have "chain (p + 2) (option_field f (f ! p) ?n (p + 2)) (p + 2 + ?n)" by (rule option_field_chain [OF order_refl])
    then have "chain p (option_field f (f ! p) ?n (p + 2)) (p + 2 + ?n)" by (rule chain_mono) simp_all
    moreover have "chain (p + 2 + ?n) (opt_fields f e (p + 2 + ?n)) e" using 5 by (intro "1.IH"(2)) auto
    ultimately show ?thesis using 5 by (subst opt_fields.simps) (simp add: chain_append)
  qed (use 1 in \<open>subst opt_fields.simps; auto\<close>)+
qed

text \<open>The parse from \<open>p\<close> on reads no byte below \<open>p\<close>.\<close>

lemma opt_fields_cong:
  "e \<le> length f \<Longrightarrow> length f = length g \<Longrightarrow> (\<And>i. p \<le> i \<Longrightarrow> i < e \<Longrightarrow> g ! i = f ! i) \<Longrightarrow> opt_fields g e p = opt_fields f e p"
proof (induction f e p rule: opt_fields.induct)
  case (1 f e p)
  show ?case
  proof (cases "p < e")
    case True
    then have p: "g ! p = f ! p" using 1 by simp
    show ?thesis
    proof (cases "p + 1 < e \<and> f ! p \<noteq> 0xFF \<and> f ! p \<noteq> 0 \<and> p + 2 + unat (f ! (p + 1)) \<le> e")
      case c: True
      have q: "g ! (p + 1) = f ! (p + 1)" using 1 c by simp
      have "option_field g (f ! p) (unat (f ! (p + 1))) (p + 2) = option_field f (f ! p) (unat (f ! (p + 1))) (p + 2)"
        using "1.prems" c by (auto simp: option_field_def)
      moreover have "opt_fields g e (p + 2 + unat (f ! (p + 1))) = opt_fields f e (p + 2 + unat (f ! (p + 1)))"
        using c True "1.prems" by (intro "1.IH"(2)) auto
      ultimately show ?thesis using c True p q by (subst (1 2) opt_fields.simps) simp
    next
      case False
      have "opt_fields g e (p + 1) = opt_fields f e (p + 1)" if "f ! p = 0"
        using True that "1.prems" by (intro "1.IH"(1)) auto
      moreover have "p + 1 < e \<Longrightarrow> g ! (p + 1) = f ! (p + 1)" using 1 by simp
      ultimately show ?thesis using True False p by (subst (1 2) opt_fields.simps) auto
    qed
  qed (subst (1 2) opt_fields.simps, simp)
qed

lemma hit_append [simp]: "hit t (xs @ ys) f \<longleftrightarrow> hit t xs f \<or> hit t ys f"
  by (auto simp: hit_def)

lemma hit_Nil [simp]: "\<not> hit t [] f"
  by (simp add: hit_def)

lemma option_loop_fields:
  assumes step: "\<And>x code n v. Q x \<Longrightarrow> v + n \<le> length (frm x) \<Longrightarrow> \<exists>x'. body code n v x = Some x' \<and> Q x'
      \<and> frm x' = fold (apply_field \<phi>) (option_field (frm x) code n v) (frm x)
      \<and> (flag x' \<longleftrightarrow> flag x \<or> hit t (option_field (frm x) code n v) (frm x))"
    and \<phi>: "same_length \<phi>"
  shows "e \<le> length (frm x) \<Longrightarrow> p \<le> e \<Longrightarrow> Q x \<Longrightarrow> \<exists>x'. option_loop body frm e p x = Some x' \<and> Q x'
      \<and> frm x' = fold (apply_field \<phi>) (opt_fields (frm x) e p) (frm x)
      \<and> (flag x' \<longleftrightarrow> flag x \<or> hit t (opt_fields (frm x) e p) (frm x))"
proof (induction "e - p" arbitrary: p x rule: less_induct)
  case less
  let ?f = "frm x"
  let ?n = "unat (?f ! (p + 1))"
  have f: "get8 ?f p = Some (?f ! p)" if "p < e" using that less.prems by (simp add: get8_Some)
  have f1: "get8 ?f (p + 1) = Some (?f ! (p + 1))" if "p + 1 < e" using that less.prems by (simp add: get8_Some)
  consider "\<not> p < e" | "p < e" "?f ! p = 0xFF" | "p < e" "?f ! p \<noteq> 0xFF" "?f ! p = 0"
    | "p < e" "?f ! p \<noteq> 0xFF" "?f ! p \<noteq> 0" "\<not> p + 1 < e"
    | "p < e" "?f ! p \<noteq> 0xFF" "?f ! p \<noteq> 0" "p + 1 < e" "p + 2 + ?n > e"
    | "p < e" "?f ! p \<noteq> 0xFF" "?f ! p \<noteq> 0" "p + 1 < e" "p + 2 + ?n \<le> e" by linarith
  then show ?case
  proof cases
    case 3
    have "\<exists>x'. option_loop body frm e (p + 1) x = Some x' \<and> Q x'
        \<and> frm x' = fold (apply_field \<phi>) (opt_fields ?f e (p + 1)) ?f \<and> (flag x' \<longleftrightarrow> flag x \<or> hit t (opt_fields ?f e (p + 1)) ?f)"
      using 3 less.prems by (intro less.hyps) auto
    moreover have "option_loop body frm e p x = option_loop body frm e (p + 1) x" using 3 by (subst option_loop.simps) (simp add: f)
    moreover have "opt_fields ?f e p = opt_fields ?f e (p + 1)" using 3 by (subst opt_fields.simps) simp
    ultimately show ?thesis by simp
  next
    case 6
    let ?fs = "option_field ?f (?f ! p) ?n (p + 2)"
    obtain y where y: "body (?f ! p) ?n (p + 2) x = Some y" "Q y" "frm y = fold (apply_field \<phi>) ?fs ?f"
      "flag y \<longleftrightarrow> flag x \<or> hit t ?fs ?f"
      using step [OF less.prems(3), of "p + 2" ?n "?f ! p"] less.prems(1) 6(5) by (meson le_trans)
    have ch: "chain (p + 2) ?fs (p + 2 + ?n)" by (rule option_field_chain [OF order_refl])
    have ch': "chain (p + 2) ?fs (length ?f)" using chain_mono [OF ch] 6 less.prems by simp
    note af = apply_fields [OF \<phi> ch' y(3)]
    have same: "frm y ! i = ?f ! i" if "p + 2 + ?n \<le> i" "i < length ?f" for i
      using af that chain_untouched [OF ch, of i] by blast
    have of': "opt_fields (frm y) e (p + 2 + ?n) = opt_fields ?f e (p + 2 + ?n)"
      using af same less.prems by (intro opt_fields_cong) auto
    have hit: "hit t (opt_fields ?f e (p + 2 + ?n)) (frm y) \<longleftrightarrow> hit t (opt_fields ?f e (p + 2 + ?n)) ?f"
      using af same less.prems 6
      by (intro hit_cong [where lo = "p + 2 + ?n"]) (auto intro: chain_mono [OF opt_fields_chain])
    obtain z where z: "option_loop body frm e (p + 2 + ?n) y = Some z" "Q z"
      "frm z = fold (apply_field \<phi>) (opt_fields ?f e (p + 2 + ?n)) (frm y)"
      "flag z \<longleftrightarrow> flag y \<or> hit t (opt_fields ?f e (p + 2 + ?n)) ?f"
    proof -
      have d: "e - (p + 2 + ?n) < e - p" using 6 by simp
      have l: "e \<le> length (frm y)" using af less.prems(1) by simp
      show ?thesis using less.hyps [OF d l 6(5) y(2)] that unfolding of' hit by blast
    qed
    have l: "option_loop body frm e p x = Some z"
      using 6 by (subst option_loop.simps) (simp add: f f1 [simplified] y(1) [simplified] z(1) [simplified])
    have o: "opt_fields ?f e p = ?fs @ opt_fields ?f e (p + 2 + ?n)"
      using 6 by (subst opt_fields.simps) simp
    show ?thesis
      unfolding l o using y z by simp
  next
    case 1
    then have "option_loop body frm e p x = Some x" "opt_fields ?f e p = []"
      by (subst option_loop.simps opt_fields.simps; simp)+
    then show ?thesis using less.prems(3) by simp
  next
    case 2
    then have "option_loop body frm e p x = Some x" "opt_fields ?f e p = []"
      by (subst option_loop.simps opt_fields.simps; simp add: f)+
    then show ?thesis using less.prems(3) by simp
  next
    case 4
    then have "option_loop body frm e p x = Some x" "opt_fields ?f e p = []"
      by (subst option_loop.simps opt_fields.simps; simp add: f)+
    then show ?thesis using less.prems(3) by simp
  next
    case 5
    then have "option_loop body frm e p x = Some x" "opt_fields ?f e p = []"
      by (subst option_loop.simps opt_fields.simps; simp add: f f1 [simplified])+
    then show ?thesis using less.prems(3) by simp
  qed
qed

section \<open>Layout of the recognised fields\<close>

text \<open>The gate reads nothing but the headers, so it sees the same in frames that agree there.\<close>

lemma gate_total: "14 \<le> length f \<Longrightarrow> \<exists>g. dhcp_gate f = Some g"
  unfolding dhcp_gate_def by (auto simp: get16_def get32_def get8_def Let_def)

lemma gate_bounds:
  assumes "dhcp_gate f = Some (Some (src, dst, udp_off, udp_len))"
  shows "34 \<le> udp_off \<and> 8 \<le> udp_len \<and> udp_off + udp_len \<le> length f \<and> udp_len < 65536"
proof -
  have b: "unat (x :: u16) < 65536" for x by (rule order_less_le_trans [OF unsigned_less]) simp
  have b': "\<not> unat (x :: u16) \<le> n \<Longrightarrow> n < 65536" for x n using b [of x] by simp
  show ?thesis
    using assms unfolding dhcp_gate_def
    by (auto simp: get16_def get32_def get8_def Let_def min_def split: if_splits intro: b dest: b')
qed

definition gate_reads :: "u8 list \<Rightarrow> nat set" where
  "gate_reads f = (let u = 14 + unat (f ! 14 AND 0x0F) * 4 in {12, 13, 14, 23} \<union> {26..33} \<union> {u..<u + 6})"

lemma gate_cong:
  assumes "length f = length g" "\<And>i. i < length f \<Longrightarrow> i \<in> gate_reads f \<Longrightarrow> g ! i = f ! i"
  shows "dhcp_gate g = dhcp_gate f"
proof -
  have 12: "get16 g 12 = get16 f 12" using assms by (simp add: get16_def get8_def gate_reads_def Let_def)
  show ?thesis
  proof (cases "34 \<le> length f")
    case False
    then show ?thesis using assms(1) unfolding dhcp_gate_def 12 by simp
  next
    case True
    let ?u = "14 + unat (f ! 14 AND 0x0F) * 4"
    have 14: "g ! 14 = f ! 14" "get8 g 14 = Some (f ! 14)" "get8 f 14 = Some (f ! 14)" "get8 g 23 = get8 f 23"
      using assms True by (simp_all add: get8_def gate_reads_def Let_def)
    have 32: "get32 g 26 = get32 f 26" "get32 g 30 = get32 f 30"
      using assms True by (simp_all add: get32_def get8_def gate_reads_def Let_def)
    have "get8 g i = get8 f i" if "?u \<le> i" "i < ?u + 6" for i
      using assms that by (simp add: get8_def gate_reads_def Let_def)
    then have u: "get16 g ?u = get16 f ?u" "get16 g (?u + 2) = get16 f (?u + 2)" "get16 g (?u + 4) = get16 f (?u + 4)"
      by (simp_all add: get16_def)
    show ?thesis
      unfolding dhcp_gate_def Let_def 12 32 14 assms(1) [symmetric] Option.bind.simps u ..
  qed
qed

lemma cookie_total: "e \<le> length f \<Longrightarrow> \<exists>b. has_cookie f c e = Some b"
  by (auto simp: has_cookie_def get8_def)

lemma cookie_cong:
  "e \<le> length f \<Longrightarrow> length f = length g \<Longrightarrow> (\<And>i. c \<le> i \<Longrightarrow> i < c + 4 \<Longrightarrow> i < e \<Longrightarrow> g ! i = f ! i) \<Longrightarrow>
    has_cookie g c e = has_cookie f c e"
  by (simp add: has_cookie_def get8_def)

text \<open>The fields of a frame lie in order: both Ethernet addresses, then those of the payload.\<close>

lemma bootp_fields_alt:
  "bootp_fields f u l = (if l \<ge> 42 \<and> f ! (u + 9) = 1 \<and> f ! (u + 10) = 6 then [(u + 36, 6, MacField)] else [])
    @ (if the (has_cookie f (u + 244) (u + l)) then opt_fields f (u + l) (u + 248) else [])"
  by (simp add: bootp_fields_def Let_def ac_simps)

lemma bootp_chain:
  assumes "34 \<le> u" "8 \<le> l"
  shows "chain (u + 8) (bootp_fields f u l) (u + l)"
proof -
  let ?a = "if l \<ge> 42 \<and> f ! (u + 9) = 1 \<and> f ! (u + 10) = 6 then [(u + 36, 6, MacField)] else []"
  have a: "chain (u + 8) ?a (if l \<ge> 42 then u + 42 else u + 8)" by auto
  show ?thesis
  proof (cases "the (has_cookie f (u + 244) (u + l))")
    case True
    show ?thesis
    proof (cases "u + 248 \<le> u + l")
      case le: True
      then have "chain (u + 248) (opt_fields f (u + l) (u + 248)) (u + l)" by (intro opt_fields_chain) simp
      then have "chain (if l \<ge> 42 then u + 42 else u + 8) (opt_fields f (u + l) (u + 248)) (u + l)"
        by (rule chain_mono) simp_all
      then show ?thesis using True chain_append [OF a] unfolding bootp_fields_alt by (simp only: if_True)
    next
      case False
      have "opt_fields f (u + l) (u + 248) = []" using False by (subst opt_fields.simps) simp
      then show ?thesis using True a assms by (auto simp: bootp_fields_alt)
    qed
  qed (use a assms in \<open>auto simp: bootp_fields_alt\<close>)
qed

lemma fields_chain:
  assumes "14 \<le> length f"
  shows "\<exists>tail. fields f = [(0, 6, MacField), (6, 6, MacField)] @ tail \<and> chain 12 tail (length f)
    \<and> (\<forall>src dst u l. the (get16 f 12) \<noteq> 0x0806 \<and> dhcp_gate f = Some (Some (src, dst, u, l)) \<longrightarrow>
        chain (u + 8) tail (u + l) \<and> tail = bootp_fields f u l)"
proof (cases "the (get16 f 12) = 0x0806")
  case False
  obtain g where g: "dhcp_gate f = Some g" using gate_total [OF assms] by blast
  show ?thesis
  proof (cases g)
    case (Some q)
    obtain src dst u l where q: "q = (src, dst, u, l)" by (cases q)
    have b: "34 \<le> u" "8 \<le> l" "u + l \<le> length f" using gate_bounds g Some q by blast+
    have "chain (u + 8) (bootp_fields f u l) (u + l)" by (rule bootp_chain [OF b(1,2)])
    moreover have "chain 12 (bootp_fields f u l) (length f)" by (rule chain_mono [OF calculation]) (use b in auto)
    ultimately show ?thesis using False g Some q by (auto simp: fields_def)
  qed (use False g assms in \<open>auto simp: fields_def\<close>)
qed (use assms in \<open>auto simp: fields_def\<close>)

lemma fields_chain0: "14 \<le> length f \<Longrightarrow> chain 0 (fields f) (length f)"
  using fields_chain by (fastforce intro: chain_mono)

text \<open>Rewriting fields, and then the checksum of a DHCP frame, leaves the fields where they were.\<close>

lemma opt_fields_stable:
  "e \<le> length f \<Longrightarrow> length f = length g \<Longrightarrow>
    (\<And>i. p \<le> i \<Longrightarrow> i < e \<Longrightarrow> \<not> touched (opt_fields f e p) i \<Longrightarrow> g ! i = f ! i) \<Longrightarrow> opt_fields g e p = opt_fields f e p"
proof (induction f e p rule: opt_fields.induct)
  case (1 f e p)
  show ?case
  proof (cases "p < e")
    case True
    let ?n = "unat (f ! (p + 1))"
    show ?thesis
    proof (cases "p + 1 < e \<and> f ! p \<noteq> 0xFF \<and> f ! p \<noteq> 0 \<and> p + 2 + ?n \<le> e")
      case c: True
      let ?fs = "option_field f (f ! p) ?n (p + 2)"
      have o: "opt_fields f e p = ?fs @ opt_fields f e (p + 2 + ?n)" using c True by (subst opt_fields.simps) simp
      have ch: "chain (p + 2) ?fs (p + 2 + ?n)" "chain (p + 2 + ?n) (opt_fields f e (p + 2 + ?n)) e"
        by (rule option_field_chain [OF order_refl], rule opt_fields_chain) (use c in simp)
      have t: "touched (opt_fields f e p) i \<longleftrightarrow> touched ?fs i \<or> touched (opt_fields f e (p + 2 + ?n)) i" for i
        unfolding o by (auto simp: touched_def)
      have p: "g ! p = f ! p" "g ! (p + 1) = f ! (p + 1)"
        using "1.prems"(3) [of p] "1.prems"(3) [of "p + 1"] t c True
          chain_untouched [OF ch(1)] chain_untouched [OF ch(2)] by auto
      have "g ! (p + 2) = f ! (p + 2)" if h: "f ! p = 61" "?n = 7"
      proof -
        have "\<not> touched ?fs (p + 2)" using h by (simp add: touched_def option_field_def)
        then have "\<not> touched (opt_fields f e p) (p + 2)" using t h chain_untouched [OF ch(2), of "p + 2"] by simp
        then show ?thesis using "1.prems"(3) [of "p + 2"] c h by simp
      qed
      then have "option_field g (f ! p) ?n (p + 2) = ?fs" by (auto simp: option_field_def)
      moreover have "opt_fields g e (p + 2 + ?n) = opt_fields f e (p + 2 + ?n)"
      proof (rule "1.IH"(2))
        fix i assume "p + 2 + ?n \<le> i" "i < e" "\<not> touched (opt_fields f e (p + 2 + ?n)) i"
        then show "g ! i = f ! i" using "1.prems"(3) [of i] t chain_untouched [OF ch(1)] by auto
      qed (use c True "1.prems" in auto)
      ultimately show ?thesis using c True p by (subst (1 2) opt_fields.simps) simp
    next
      case False
      then have nil: "f ! p \<noteq> 0 \<Longrightarrow> opt_fields f e p = []" using True by (subst opt_fields.simps) auto
      have "chain (p + 1) (opt_fields f e (p + 1)) e" using True by (intro opt_fields_chain) simp
      then have p: "g ! p = f ! p"
      proof (cases "f ! p = 0")
        case True
        then have "opt_fields f e p = opt_fields f e (p + 1)" using \<open>p < e\<close> by (subst opt_fields.simps) simp
        then show ?thesis using "1.prems"(3) [of p] \<open>p < e\<close> chain_untouched [OF \<open>chain (p + 1) _ e\<close>, of p] by simp
      qed (use "1.prems"(3) [of p] True nil in \<open>auto simp: touched_def\<close>)
      show ?thesis
      proof (cases "f ! p = 0")
        case z: True
        have "opt_fields g e (p + 1) = opt_fields f e (p + 1)"
        proof (rule "1.IH"(1))
          fix i assume "p + 1 \<le> i" "i < e" "\<not> touched (opt_fields f e (p + 1)) i"
          moreover have "opt_fields f e p = opt_fields f e (p + 1)" using z True by (subst opt_fields.simps) simp
          ultimately show "g ! i = f ! i" using "1.prems"(3) [of i] by simp
        qed (use True z "1.prems" in auto)
        then show ?thesis using True z p by (subst (1 2) opt_fields.simps) simp
      next
        case nz: False
        have "p + 1 < e \<Longrightarrow> g ! (p + 1) = f ! (p + 1)" using "1.prems"(3) [of "p + 1"] nil nz by (simp add: touched_def)
        then show ?thesis using True False nz p by (subst (1 2) opt_fields.simps) auto
      qed
    qed
  qed (subst (1 2) opt_fields.simps, simp)
qed

lemma touched_Cons [simp]: "touched ((off, n, k) # fs) i \<longleftrightarrow> off \<le> i \<and> i < off + n \<or> touched fs i"
  by (auto simp: touched_def)

lemma touched_Nil [simp]: "\<not> touched [] i"
  by (simp add: touched_def)

lemma touched_append [simp]: "touched (xs @ ys) i \<longleftrightarrow> touched xs i \<or> touched ys i"
  by (auto simp: touched_def)

text \<open>The two checksum bytes of a DHCP datagram.\<close>

definition checksum_bytes :: "u8 list \<Rightarrow> nat set" where
  "checksum_bytes f = (if the (get16 f 12) = 0x0806 then {} else
     case the (dhcp_gate f) of None \<Rightarrow> {} | Some (_, _, udp_off, _) \<Rightarrow> {udp_off + 6, udp_off + 7})"

lemma fields_stable:
  assumes l: "14 \<le> length f" and len: "length g = length f"
    and same: "\<And>i. i < length f \<Longrightarrow> \<not> touched (fields f) i \<Longrightarrow> i \<notin> checksum_bytes f \<Longrightarrow> g ! i = f ! i"
  shows "fields g = fields f \<and> checksum_bytes g = checksum_bytes f"
proof -
  obtain tail where t: "fields f = [(0, 6, MacField), (6, 6, MacField)] @ tail" "chain 12 tail (length f)"
    "\<And>src dst u l. the (get16 f 12) \<noteq> 0x0806 \<Longrightarrow> dhcp_gate f = Some (Some (src, dst, u, l)) \<Longrightarrow>
        chain (u + 8) tail (u + l) \<and> tail = bootp_fields f u l"
    using fields_chain [OF l] by blast
  show ?thesis
  proof (cases "the (get16 f 12) = 0x0806")
    case True
    then have cb: "checksum_bytes f = {}" by (simp add: checksum_bytes_def)
    have "g ! 12 = f ! 12" "g ! 13 = f ! 13" using same l True by (auto simp: cb fields_def)
    then have "get16 g 12 = get16 f 12" using l len by (simp add: get16_def get8_def)
    then show ?thesis using True len by (simp add: fields_def checksum_bytes_def)
  next
    case arp: False
    obtain q where q: "dhcp_gate f = Some q" using gate_total [OF l] by blast
    show ?thesis
    proof (cases q)
      case None
      have cb: "checksum_bytes f = {}" using arp q None by (simp add: checksum_bytes_def)
      have fs: "fields f = [(0, 6, MacField), (6, 6, MacField)]" using arp q None by (simp add: fields_def)
      have from12: "g ! i = f ! i" if "12 \<le> i" "i < length f" for i using same that by (simp add: cb fs)
      have "gate_reads f \<subseteq> {12..}" by (auto simp: gate_reads_def Let_def)
      then have "dhcp_gate g = dhcp_gate f" by (intro gate_cong) (use from12 len in auto)
      moreover have "get16 g 12 = get16 f 12" using l len from12 by (simp add: get16_def get8_def)
      ultimately show ?thesis using arp q None by (simp add: fields_def checksum_bytes_def)
    next
      case (Some d)
      obtain src dst u n where d: "d = (src, dst, u, n)" by (cases d)
      have gt: "dhcp_gate f = Some (Some (src, dst, u, n))" using q Some d by simp
      have b: "34 \<le> u" "8 \<le> n" "u + n \<le> length f" using gate_bounds [OF gt] by blast+
      have cb: "checksum_bytes f = {u + 6, u + 7}" using arp gt by (simp add: checksum_bytes_def)
      have tl: "chain (u + 8) tail (u + n)" "tail = bootp_fields f u n" using t(3) [OF arp gt] by blast+
      have hdr: "g ! i = f ! i" if "12 \<le> i" "i < u + 6" for i
        using same [of i] that b chain_untouched [OF tl(1), of i] unfolding t(1) cb by simp
      have u: "u = 14 + unat (f ! 14 AND 0x0F) * 4"
        using gt unfolding dhcp_gate_def by (auto simp: get16_def get32_def get8_def Let_def split: if_splits)
      have "dhcp_gate g = dhcp_gate f"
        by (rule gate_cong) (use hdr b len in \<open>auto simp: gate_reads_def Let_def u [symmetric]\<close>)
      moreover have "get16 g 12 = get16 f 12" using l len hdr b by (simp add: get16_def get8_def)
      moreover have "bootp_fields g u n = bootp_fields f u n"
      proof -
        let ?a = "if n \<ge> 42 \<and> f ! (u + 9) = 1 \<and> f ! (u + 10) = 6 then [(u + 36, 6, MacField)] else []"
        have low: "g ! i = f ! i" if "u + 8 \<le> i" "i < u + 248" "i < u + n" "i < u + 36 \<or> u + 42 \<le> i" for i
        proof -
          have "\<not> touched tail i"
          proof -
            have "u + n \<le> u + 248 \<Longrightarrow> opt_fields f (u + n) (u + 248) = []" by (subst opt_fields.simps) simp
            moreover have "u + 248 \<le> u + n \<Longrightarrow> \<not> touched (opt_fields f (u + n) (u + 248)) i"
              using chain_untouched [OF opt_fields_chain [of "u + 248" "u + n" f], of i] that by simp
            moreover have "\<not> touched ?a i" using that by auto
            ultimately show ?thesis unfolding tl(2) bootp_fields_alt by (cases "u + n \<le> u + 248") auto
          qed
          then show ?thesis using same [of i] that b unfolding t(1) cb by simp
        qed
        have ck: "has_cookie g (u + 244) (u + n) = has_cookie f (u + 244) (u + n)"
          using low b len by (intro cookie_cong) auto
        have h: "n \<ge> 42 \<Longrightarrow> g ! (u + 9) = f ! (u + 9) \<and> g ! (u + 10) = f ! (u + 10)" using low by simp
        have o: "opt_fields g (u + n) (u + 248) = opt_fields f (u + n) (u + 248)" if c: "the (has_cookie f (u + 244) (u + n))"
        proof (rule opt_fields_stable)
          fix i assume i: "u + 248 \<le> i" "i < u + n" "\<not> touched (opt_fields f (u + n) (u + 248)) i"
          then have "\<not> touched tail i" unfolding tl(2) bootp_fields_alt using c by simp
          then show "g ! i = f ! i" using same [of i] i b unfolding t(1) cb by simp
        qed (use b len in simp_all)
        show ?thesis unfolding bootp_fields_alt ck using h o by auto
      qed
      ultimately show ?thesis using arp gt by (simp add: fields_def checksum_bytes_def)
    qed
  qed
qed

section \<open>The functions\<close>

lemma join16_split:
  fixes a b :: u8
  shows "a = ucast (drop_bit 8 (push_bit 8 (ucast a) OR ucast b :: u16))" "b = ucast (push_bit 8 (ucast a) OR ucast b :: u16)"
  by (auto intro!: bit_word_eqI simp: bit_simps no_bit8)

lemma split16_join:
  "push_bit 8 (ucast (ucast (drop_bit 8 v) :: u8)) OR ucast (ucast v :: u8) = (v :: u16)"
  by (rule bit_word_eqI) (auto simp: bit_simps not_less)

lemma fix_checksum_spec:
  assumes "8 \<le> l" "u + l \<le> length f"
  shows "fix_checksum src dst u l f = Some (if f ! (u + 6) = 0 \<and> f ! (u + 7) = 0 then f else patch f (u + 6)
        [ucast (drop_bit 8 (ComputeUdpChecksum src dst (slice f u l))), ucast (ComputeUdpChecksum src dst (slice f u l))])"
proof -
  have o: "get16 f (u + 6) = Some (push_bit 8 (ucast (f ! (u + 6))) OR ucast (f ! (u + 7)))"
    using assms get16_Some [of "u + 6" f] by (simp add: ac_simps)
  have z: "(push_bit 8 (ucast a) OR ucast b :: u16) = 0 \<longleftrightarrow> a = 0 \<and> b = 0" for a b :: u8
  proof
    assume "(push_bit 8 (ucast a) OR ucast b :: u16) = 0"
    then have "a = ucast (drop_bit 8 (0 :: u16))" "b = ucast (0 :: u16)" using join16_split [where a = a and b = b] by metis+
    then show "a = 0 \<and> b = 0" by simp
  qed simp
  show ?thesis
    using assms by (auto simp: fix_checksum_def o z getn_Some wr16_def putn_Some)
qed

text \<open>Both walks over a DHCP payload, as the substitution of its fields.\<close>

definition chaddr_field :: "u8 list \<Rightarrow> nat \<Rightarrow> nat \<Rightarrow> field list" where
  "chaddr_field f b bl = (if bl \<ge> 34 \<and> f ! (b + 1) = 1 \<and> f ! (b + 2) = 6 then [(b + 28, 6, MacField)] else [])"

lemma bootp_split:
  "8 \<le> l \<Longrightarrow> bootp_fields f u l = chaddr_field f (u + 8) (l - 8)
    @ (if the (has_cookie f (u + 8 + 236) (u + l)) then opt_fields f (u + l) (u + 8 + 240) else [])"
  by (auto simp: bootp_fields_def chaddr_field_def Let_def)

lemma san_chaddr_step:
  assumes "b + bl \<le> length f" "h \<longrightarrow> s = synthetic_mac i"
  shows "san_chaddr h i s b bl f = Some (fold (apply_field (san_subst h i)) (chaddr_field f b bl) f,
    dirty (san_subst h i) (chaddr_field f b bl) f)"
  using assms
  by (auto simp: san_chaddr_def chaddr_field_def get8_Some getn_Some putn_Some hit_def apply_field_def san_subst_def
      patch_slice)

lemma restore_chaddr_step:
  assumes "b + bl \<le> length f" "length r = 6"
  shows "restore_chaddr s r b bl f = Some (fold (apply_field (restore_subst s r)) (chaddr_field f b bl) f,
    hit (\<lambda>k x. k = MacField \<and> x = s) (chaddr_field f b bl) f)"
  using assms
  by (auto simp: restore_chaddr_def chaddr_field_def get8_Some getn_Some putn_Some hit_def apply_field_def
      restore_subst_def patch_slice)

lemma payload_walk:
  fixes f :: "u8 list"
  assumes b: "34 \<le> u" "8 \<le> l" "u + l \<le> length f" and \<phi>: "same_length \<phi>"
    and step: "\<And>x code n v. Q x \<Longrightarrow> v + n \<le> length (frm x) \<Longrightarrow> \<exists>x'. body code n v x = Some x' \<and> Q x'
      \<and> frm x' = fold (apply_field \<phi>) (option_field (frm x) code n v) (frm x)
      \<and> (flag x' \<longleftrightarrow> flag x \<or> hit t (option_field (frm x) code n v) (frm x))"
    and x: "Q x" "frm x = fold (apply_field \<phi>) (chaddr_field f (u + 8) (l - 8)) f"
      "flag x \<longleftrightarrow> hit t (chaddr_field f (u + 8) (l - 8)) f"
  shows "\<exists>m x'. has_cookie (frm x) (u + 8 + 236) (min (u + 8 + (l - 8)) (length f)) = Some m
    \<and> (if m then option_loop body frm (min (u + 8 + (l - 8)) (length f)) (u + 8 + 236 + 4) x else Some x) = Some x'
    \<and> Q x' \<and> frm x' = fold (apply_field \<phi>) (bootp_fields f u l) f \<and> (flag x' \<longleftrightarrow> hit t (bootp_fields f u l) f)"
proof -
  let ?ch = "chaddr_field f (u + 8) (l - 8)"
  have e: "min (u + 8 + (l - 8)) (length f) = u + l" using b by simp
  have c: "chain (u + 8) ?ch (if 42 \<le> l then u + 42 else u + 8)" by (auto simp: chaddr_field_def)
  then have c': "chain (u + 8) ?ch (length f)" using chain_mono [OF c] b by (auto split: if_splits)
  note a = apply_fields [OF \<phi> c' x(2)]
  have s: "frm x ! i = f ! i" if "u + 42 \<le> i" "i < length f" for i
    using a that chain_untouched [OF c, of i] by (auto split: if_splits)
  have ck: "has_cookie (frm x) (u + 8 + 236) (u + l) = has_cookie f (u + 8 + 236) (u + l)"
    using a s b by (intro cookie_cong) auto
  obtain m where m: "has_cookie f (u + 8 + 236) (u + l) = Some m" using cookie_total b by blast
  show ?thesis
  proof (cases m)
    case False
    have "bootp_fields f u l = ?ch" unfolding bootp_split [OF b(2)] m using False by simp
    then show ?thesis unfolding e ck m using False x by (intro exI [of _ m] exI [of _ x]) simp
  next
    case True
    then have "u + 8 + 236 + 4 \<le> u + l" using m by (auto simp: has_cookie_def split: if_splits)
    then have p: "u + 8 + 240 \<le> u + l" by simp
    have of': "opt_fields (frm x) (u + l) (u + 8 + 240) = opt_fields f (u + l) (u + 8 + 240)"
      using a s b by (intro opt_fields_cong) auto
    have ht: "hit t (opt_fields f (u + l) (u + 8 + 240)) (frm x) \<longleftrightarrow> hit t (opt_fields f (u + l) (u + 8 + 240)) f"
      using a s b p by (intro hit_cong [where lo = "u + 8 + 240"]) (auto intro: chain_mono [OF opt_fields_chain])
    have el: "u + l \<le> length (frm x)" using a b by simp
    obtain x' where x': "option_loop body frm (u + l) (u + 8 + 240) x = Some x'" "Q x'"
      "frm x' = fold (apply_field \<phi>) (opt_fields f (u + l) (u + 8 + 240)) (frm x)"
      "flag x' \<longleftrightarrow> flag x \<or> hit t (opt_fields f (u + l) (u + 8 + 240)) f"
      using option_loop_fields [where Q = Q and frm = frm and flag = flag and t = t and body = body, OF step \<phi> el p x(1)]
      unfolding of' ht by blast
    have bf: "bootp_fields f u l = ?ch @ opt_fields f (u + l) (u + 8 + 240)"
      unfolding bootp_split [OF b(2)] m using True by simp
    have q: "u + 8 + 236 + 4 = u + 8 + 240" by simp
    show ?thesis unfolding e ck m bf q using True x' x by (intro exI [of _ m] exI [of _ x']) simp
  qed
qed

text \<open>What the sanitizer knows once it has looked at the frame.\<close>

definition learned :: "u8 list \<Rightarrow> u8 \<Rightarrow> san_state \<Rightarrow> bool \<times> u8 list" where
  "learned f direction st =
    (if length f < 14 then (has_identity st, identity_mac st)
     else if direction = 0 \<and> \<not> has_identity st then (True, slice f 6 6) else (has_identity st, identity_mac st))"

definition sanitized_body :: "u8 list \<Rightarrow> u8 \<Rightarrow> san_state \<Rightarrow> u8 list" where
  "sanitized_body f direction st =
    (case learned f direction st of (h, i) \<Rightarrow> fold (apply_field (san_subst h i)) (fields f) f)"

text \<open>The outcome of a walk: the substituted frame, its checksum renewed if the payload changed.\<close>

definition with_checksum :: "u8 list \<Rightarrow> bool \<Rightarrow> u8 list \<Rightarrow> u8 list" where
  "with_checksum f changed body =
    (if the (get16 f 12) = 0x0806 then body
     else case the (dhcp_gate f) of None \<Rightarrow> body
     | Some (src, dst, u, n) \<Rightarrow>
         if changed \<and> \<not> (body ! (u + 6) = 0 \<and> body ! (u + 7) = 0)
         then patch body (u + 6) [ucast (drop_bit 8 (ComputeUdpChecksum src dst (slice body u n))),
                                  ucast (ComputeUdpChecksum src dst (slice body u n))]
         else body)"

lemma eth_fields:
  assumes \<phi>: "same_length \<phi>" and l: "14 \<le> length f"
  defines "f2 \<equiv> fold (apply_field \<phi>) [(0, 6, MacField), (6, 6, MacField)] f"
  shows "length f2 = length f" "\<And>j. 12 \<le> j \<Longrightarrow> j < length f \<Longrightarrow> f2 ! j = f ! j"
    "get16 f2 12 = get16 f 12" "dhcp_gate f2 = dhcp_gate f"
    "\<And>u n. 34 \<le> u \<Longrightarrow> 8 \<le> n \<Longrightarrow> u + n \<le> length f \<Longrightarrow> bootp_fields f2 u n = bootp_fields f u n"
    "\<And>t tail. chain 12 tail (length f) \<Longrightarrow> hit t tail f2 \<longleftrightarrow> hit t tail f"
proof -
  have c: "chain 0 [(0, 6, MacField), (6, 6, MacField)] (length f)" using l by simp
  note a = apply_fields [OF \<phi> c refl, folded f2_def]
  show len: "length f2 = length f" using a by blast
  show same: "\<And>j. 12 \<le> j \<Longrightarrow> j < length f \<Longrightarrow> f2 ! j = f ! j" using a by simp
  show "get16 f2 12 = get16 f 12" using same l len by (simp add: get16_def get8_def)
  have "gate_reads f \<subseteq> {12..}" by (auto simp: gate_reads_def Let_def)
  then show "dhcp_gate f2 = dhcp_gate f" by (intro gate_cong) (use same len in auto)
  show "bootp_fields f2 u n = bootp_fields f u n" if b: "34 \<le> u" "8 \<le> n" "u + n \<le> length f" for u n
  proof -
    have "has_cookie f2 (u + 244) (u + n) = has_cookie f (u + 244) (u + n)" using b len same by (intro cookie_cong) auto
    moreover have "opt_fields f2 (u + n) (u + 248) = opt_fields f (u + n) (u + 248)"
      using b len same by (intro opt_fields_cong) auto
    moreover have "n \<ge> 42 \<Longrightarrow> f2 ! (u + 9) = f ! (u + 9) \<and> f2 ! (u + 10) = f ! (u + 10)" using b same by simp
    ultimately show ?thesis unfolding bootp_fields_alt by auto
  qed
  show "hit t tail f2 \<longleftrightarrow> hit t tail f" if "chain 12 tail (length f)" for t tail
    using that len same by (intro hit_cong [where lo = 12]) auto
qed

lemma san_frame_spec:
  assumes st: "san_ok st" "has_identity st = h" "identity_mac st = i" and s: "h \<longrightarrow> s = synthetic_mac i"
    and l: "14 \<le> length f"
  defines "\<phi> \<equiv> san_subst h i"
  shows "\<exists>st'. san_frame h i s f st = Some (dirty \<phi> (fields f) f,
      with_checksum f (dirty \<phi> (drop 2 (fields f)) f) (fold (apply_field \<phi>) (fields f) f), st')
    \<and> san_ok st' \<and> has_identity st' = h \<and> identity_mac st' = i"
proof -
  have \<phi>: "same_length \<phi>" unfolding \<phi>_def by (rule same_length_san)
  let ?eth = "[(0, 6, MacField), (6, 6, MacField)]"
  let ?f1 = "apply_field \<phi> (0, 6, MacField) f" and ?f2 = "fold (apply_field \<phi>) ?eth f"
  note e = eth_fields [OF \<phi> l]
  have c1: "chain 0 [(0, 6, MacField)] (length f)" using l by simp
  have a1: "length ?f1 = length f" "\<And>j. 6 \<le> j \<Longrightarrow> j < length f \<Longrightarrow> ?f1 ! j = f ! j"
    using apply_fields [OF \<phi> c1, of ?f1] by simp_all
  have d2: "dirty \<phi> [(6, 6, MacField)] ?f1 \<longleftrightarrow> dirty \<phi> [(6, 6, MacField)] f"
    using l a1 by (intro hit_cong [where lo = 6]) auto
  have rw: "rewrite_if_identity h i s 0 (f, False) = Some (?f1, dirty \<phi> [(0, 6, MacField)] f)"
    "rewrite_if_identity h i s 6 (?f1, dirty \<phi> [(0, 6, MacField)] f) = Some (?f2, dirty \<phi> ?eth f)"
    using rewrite_step [of 0 f h s i False] rewrite_step [of 6 ?f1 h s i] s l a1 d2
    by (simp_all add: \<phi>_def hit_def)
  obtain et where et: "get16 f 12 = Some et" using l by (simp add: get16_Some)
  obtain tail where t: "fields f = ?eth @ tail" "chain 12 tail (length f)"
    "\<And>src dst u n. the (get16 f 12) \<noteq> 0x0806 \<Longrightarrow> dhcp_gate f = Some (Some (src, dst, u, n)) \<Longrightarrow>
        chain (u + 8) tail (u + n) \<and> tail = bootp_fields f u n"
    using fields_chain [OF l] by blast
  have all: "dirty \<phi> (fields f) f \<longleftrightarrow> dirty \<phi> ?eth f \<or> dirty \<phi> tail f" "drop 2 (fields f) = tail"
    "fold (apply_field \<phi>) (fields f) f = fold (apply_field \<phi>) tail ?f2"
    unfolding t(1) hit_append by simp_all
  show ?thesis
  proof (cases "et = 0x0806")
    case True
    show ?thesis
    proof (cases "42 \<le> length f")
      case long: True
      have tl: "tail = [(22, 6, MacField), (32, 6, MacField)]" using t(1) True long et by (simp add: fields_def)
      let ?f3 = "apply_field \<phi> (22, 6, MacField) ?f2"
      have c3: "chain 0 [(22, 6, MacField)] (length ?f2)" using long e(1) by simp
      have a3: "length ?f3 = length ?f2" "\<And>j. 28 \<le> j \<Longrightarrow> j < length f \<Longrightarrow> ?f3 ! j = ?f2 ! j"
        using apply_fields [OF \<phi> c3, of ?f3] e(1) by simp_all
      have d3: "dirty \<phi> [(32, 6, MacField)] ?f3 \<longleftrightarrow> dirty \<phi> [(32, 6, MacField)] ?f2"
        using long e(1) a3 by (intro hit_cong [where lo = 28]) auto
      have "rewrite_if_identity h i s 22 (?f2, dirty \<phi> ?eth f) = Some (?f3, dirty \<phi> ?eth f \<or> dirty \<phi> [(22, 6, MacField)] ?f2)"
        "rewrite_if_identity h i s 32 (?f3, c) = Some (apply_field \<phi> (32, 6, MacField) ?f3, c \<or> dirty \<phi> [(32, 6, MacField)] ?f2)" for c
        using rewrite_step [of 22 ?f2 h s i] rewrite_step [of 32 ?f3 h s i] s long e(1) a3 d3 by (simp_all add: \<phi>_def)
      moreover have "dirty \<phi> [(22, 6, MacField)] ?f2 \<or> dirty \<phi> [(32, 6, MacField)] ?f2 \<longleftrightarrow> dirty \<phi> tail f"
        using e(6) [OF t(2), of "\<lambda>k x. \<phi> k x \<noteq> x"] by (simp add: tl hit_def)
      ultimately show ?thesis
        using st True et long e(3) unfolding all san_frame_def rw with_checksum_def by (simp add: rw tl)
    next
      case False
      then have "tail = []" using t(1) True et by (simp add: fields_def)
      then show ?thesis using st True et False e(3) rw unfolding all san_frame_def with_checksum_def by simp
    qed
  next
    case False
    obtain q where q: "dhcp_gate f = Some q" using gate_total [OF l] by blast
    show ?thesis
    proof (cases q)
      case None
      then have "tail = []" using t(1) False et q by (simp add: fields_def)
      then show ?thesis using st False et None q e(3,4) rw unfolding all san_frame_def with_checksum_def by simp
    next
      case (Some d)
      obtain src dst u n where d: "d = (src, dst, u, n)" by (cases d)
      have gt: "dhcp_gate f = Some (Some (src, dst, u, n))" using q Some d by simp
      have b: "34 \<le> u" "8 \<le> n" "u + n \<le> length f" using gate_bounds [OF gt] by blast+
      have tl: "chain (u + 8) tail (u + n)" "tail = bootp_fields f u n" using t(3) gt et False by auto
      let ?ch = "fold (apply_field \<phi>) (chaddr_field ?f2 (u + 8) (n - 8)) ?f2"
      let ?cd = "dirty \<phi> (chaddr_field ?f2 (u + 8) (n - 8)) ?f2"
      have ch: "san_chaddr h i s (u + 8) (n - 8) ?f2 = Some (?ch, ?cd)"
        using san_chaddr_step [OF _ s, of "u + 8" "n - 8" ?f2] b e(1) by (simp add: \<phi>_def)
      let ?Q = "\<lambda>x :: walk. san_ok (fst (snd x)) \<and> has_identity (fst (snd x)) = h \<and> identity_mac (fst (snd x)) = i"
      have stp: "\<exists>x'. san_option h i s code m v x = Some x' \<and> ?Q x'
          \<and> fst x' = fold (apply_field \<phi>) (option_field (fst x) code m v) (fst x)
          \<and> (snd (snd x') \<longleftrightarrow> snd (snd x) \<or> dirty \<phi> (option_field (fst x) code m v) (fst x))"
        if Q: "?Q x" and v: "v + m \<le> length (fst x)" for x code m v
      proof -
        obtain g st0 c where x: "x = (g, st0, c)" by (cases x)
        show ?thesis using san_option_step [of v m g st0 h s i code c] Q v s unfolding x \<phi>_def by auto
      qed
      have ub: "u + n \<le> length ?f2" using b e(1) by simp
      have et2: "get16 ?f2 12 = Some et" using e(3) et by (rule trans)
      have gt2: "dhcp_gate ?f2 = Some (Some (src, dst, u, n))" using e(4) gt by (rule trans)
      obtain m x' where w: "has_cookie ?ch (u + 8 + 236) (min (u + 8 + (n - 8)) (length ?f2)) = Some m"
        "(if m then option_loop (san_option h i s) fst (min (u + 8 + (n - 8)) (length ?f2)) (u + 8 + 236 + 4) (?ch, st, ?cd)
          else Some (?ch, st, ?cd)) = Some x'" "?Q x'" "fst x' = fold (apply_field \<phi>) (bootp_fields ?f2 u n) ?f2"
        "snd (snd x') \<longleftrightarrow> dirty \<phi> (bootp_fields ?f2 u n) ?f2"
        using payload_walk [OF b(1,2) ub \<phi>, of ?Q fst "san_option h i s" "\<lambda>x. snd (snd x)" "\<lambda>k x. \<phi> k x \<noteq> x" "(?ch, st, ?cd)"]
          stp st by auto
      have bf: "bootp_fields ?f2 u n = tail" using e(5) [OF b] tl by simp
      have fx: "fst x' = fold (apply_field \<phi>) (fields f) f" using w(4) bf all by simp
      have pd: "snd (snd x') \<longleftrightarrow> dirty \<phi> tail f" using w(5) bf e(6) [OF t(2)] by simp
      have lx: "length (fst x') = length f"
        using apply_fields [OF \<phi> fields_chain0 [OF l] fx] by blast
      define g where g2: "g = (if fst x' ! (u + 6) = 0 \<and> fst x' ! (u + 7) = 0 then fst x' else patch (fst x') (u + 6)
          [ucast (drop_bit 8 (ComputeUdpChecksum src dst (slice (fst x') u n))), ucast (ComputeUdpChecksum src dst (slice (fst x') u n))])"
      have g: "fix_checksum src dst u n (fst x') = Some g"
        using fix_checksum_spec [of n u "fst x'" src dst] b lx g2 by simp
      have "san_frame h i s f st = (if snd (snd x') then Some (True, g, fst (snd x')) else Some (dirty \<phi> ?eth f, fst x', fst (snd x')))"
        unfolding san_frame_def rw Option.bind.simps Let_def fst_conv snd_conv et2 if_not_P [OF False] gt2 option.case
          prod.case ch w(1) [unfolded e(1)] w(2) [unfolded e(1)] g ..
      then show ?thesis
        unfolding all(2) with_checksum_def gt fx [symmetric] using et False w(3) g2 pd all(1) by auto
    qed
  qed
qed

lemma sanitize_walk:
  assumes st: "san_ok st" and l: "14 \<le> length f"
  shows "\<exists>st'. net_sanitize_ethernet_frame f direction st = Some (sanitized_body f direction st \<noteq> f,
      with_checksum f (dirty (case_prod san_subst (learned f direction st)) (drop 2 (fields f)) f)
        (sanitized_body f direction st), st')
    \<and> san_ok st' \<and> has_identity st' = fst (learned f direction st) \<and> identity_mac st' = snd (learned f direction st)"
proof -
  obtain h i where hi: "learned f direction st = (h, i)" by (cases "learned f direction st")
  let ?st1 = "if direction = 0 \<and> \<not> has_identity st then LearnIdentityFromTxSource (slice f 6 6) st else st"
  have st1: "san_ok ?st1" "has_identity ?st1 = h" "identity_mac ?st1 = i" "length i = 6"
    using st hi l by (auto simp: LearnIdentityFromTxSource_def san_ok_def learned_def split: if_splits)
  obtain s st2 where s: "(if h then MapMac i ?st1 else (replicate 6 0, ?st1)) = (s, st2)" "san_ok st2"
    "has_identity st2 = h" "identity_mac st2 = i" "h \<longrightarrow> s = synthetic_mac i"
    using MapMac_pure [OF st1(1) st1(4)] st1 by (cases h) auto
  have "net_sanitize_ethernet_frame f direction st = (case (if h then MapMac i ?st1 else (replicate 6 0, ?st1)) of
      (synth, st') \<Rightarrow> san_frame (has_identity st') (identity_mac st') synth f st')"
    using l st1 by (auto simp: net_sanitize_ethernet_frame_def Let_def getn_Some)
  then have "net_sanitize_ethernet_frame f direction st = san_frame h i s f st2" unfolding s(1) using s(3,4) by simp
  then show ?thesis
    using san_frame_spec [OF s(2,3,4) s(5) l] dirty_iff [OF same_length_san fields_chain0 [OF l], of h i]
    unfolding sanitized_body_def hi by simp
qed

lemma restore_walk:
  fixes f s r :: "u8 list"
  assumes r: "length r = 6" and l: "14 \<le> length f"
  defines "\<phi> \<equiv> restore_subst s r"
  shows "net_desanitize_ethernet_frame_for_replay f s r =
    Some (with_checksum f (hit (\<lambda>k x. k = MacField \<and> x = s) (drop 2 (fields f)) f) (fold (apply_field \<phi>) (fields f) f))"
proof -
  have \<phi>: "same_length \<phi>" unfolding \<phi>_def using r by (rule same_length_restore)
  let ?eth = "[(0, 6, MacField), (6, 6, MacField)]" and ?t = "\<lambda>k x. k = MacField \<and> x = s"
  let ?f1 = "apply_field \<phi> (0, 6, MacField) f" and ?f2 = "fold (apply_field \<phi>) ?eth f"
  note e = eth_fields [OF \<phi> l]
  have c1: "chain 0 [(0, 6, MacField)] (length f)" using l by simp
  have a1: "length ?f1 = length f" using apply_fields [OF \<phi> c1, of ?f1] by simp
  have rw: "restore_mac s r 0 f = Some ?f1" "restore_mac s r 6 ?f1 = Some ?f2"
    using restore_step [of 0 f r s] restore_step [of 6 ?f1 r s] r l a1 by (simp_all add: \<phi>_def)
  obtain et where et: "get16 f 12 = Some et" using l by (simp add: get16_Some)
  obtain tail where t: "fields f = ?eth @ tail" "chain 12 tail (length f)"
    "\<And>src dst u n. the (get16 f 12) \<noteq> 0x0806 \<Longrightarrow> dhcp_gate f = Some (Some (src, dst, u, n)) \<Longrightarrow>
        chain (u + 8) tail (u + n) \<and> tail = bootp_fields f u n"
    using fields_chain [OF l] by blast
  have all: "drop 2 (fields f) = tail" "fold (apply_field \<phi>) (fields f) f = fold (apply_field \<phi>) tail ?f2"
    unfolding t(1) by simp_all
  have nl: "\<not> length f < 14" using l by simp
  show ?thesis
  proof (cases "et = 0x0806")
    case True
    show ?thesis
    proof (cases "42 \<le> length f")
      case long: True
      have tl: "tail = [(22, 6, MacField), (32, 6, MacField)]" using t(1) True long et by (simp add: fields_def)
      let ?f3 = "apply_field \<phi> (22, 6, MacField) ?f2"
      have c3: "chain 0 [(22, 6, MacField)] (length ?f2)" using long e(1) by simp
      have a3: "length ?f3 = length ?f2" using apply_fields [OF \<phi> c3, of ?f3] by simp
      have "restore_mac s r 22 ?f2 = Some ?f3" "restore_mac s r 32 ?f3 = Some (apply_field \<phi> (32, 6, MacField) ?f3)"
        using restore_step [of 22 ?f2 r s] restore_step [of 32 ?f3 r s] r long e(1) a3 by (simp_all add: \<phi>_def)
      then show ?thesis
        using True et long e(1,3) nl rw unfolding all net_desanitize_ethernet_frame_for_replay_def with_checksum_def
        by (simp add: tl)
    next
      case False
      then have "tail = []" using t(1) True et by (simp add: fields_def)
      then show ?thesis
        using True et False e(1,3) nl rw unfolding all net_desanitize_ethernet_frame_for_replay_def with_checksum_def by simp
    qed
  next
    case False
    obtain q where q: "dhcp_gate f = Some q" using gate_total [OF l] by blast
    show ?thesis
    proof (cases q)
      case None
      then have "tail = []" using t(1) False et q by (simp add: fields_def)
      then show ?thesis
        using False et None q e(3,4) nl rw unfolding all net_desanitize_ethernet_frame_for_replay_def with_checksum_def by simp
    next
      case (Some d)
      obtain src dst u n where d: "d = (src, dst, u, n)" by (cases d)
      have gt: "dhcp_gate f = Some (Some (src, dst, u, n))" using q Some d by simp
      have b: "34 \<le> u" "8 \<le> n" "u + n \<le> length f" using gate_bounds [OF gt] by blast+
      have tl: "chain (u + 8) tail (u + n)" "tail = bootp_fields f u n" using t(3) gt et False by auto
      let ?ch = "fold (apply_field \<phi>) (chaddr_field ?f2 (u + 8) (n - 8)) ?f2"
      let ?cd = "hit ?t (chaddr_field ?f2 (u + 8) (n - 8)) ?f2"
      have ch: "restore_chaddr s r (u + 8) (n - 8) ?f2 = Some (?ch, ?cd)"
        using restore_chaddr_step [of "u + 8" "n - 8" ?f2 r s] r b e(1) by (simp add: \<phi>_def)
      have stp: "\<exists>x'. restore_option s r code m v x = Some x' \<and> True
          \<and> fst x' = fold (apply_field \<phi>) (option_field (fst x) code m v) (fst x)
          \<and> (snd x' \<longleftrightarrow> snd x \<or> hit ?t (option_field (fst x) code m v) (fst x))"
        if v: "v + m \<le> length (fst x)" for x code m v
        using restore_option_step [of v m "fst x" r s code "snd x"] v r unfolding \<phi>_def by simp
      have ub: "u + n \<le> length ?f2" using b e(1) by simp
      have et2: "get16 ?f2 12 = Some et" using e(3) et by (rule trans)
      have gt2: "dhcp_gate ?f2 = Some (Some (src, dst, u, n))" using e(4) gt by (rule trans)
      obtain m x' where w: "has_cookie ?ch (u + 8 + 236) (min (u + 8 + (n - 8)) (length ?f2)) = Some m"
        "(if m then option_loop (restore_option s r) fst (min (u + 8 + (n - 8)) (length ?f2)) (u + 8 + 236 + 4) (?ch, ?cd)
          else Some (?ch, ?cd)) = Some x'" "fst x' = fold (apply_field \<phi>) (bootp_fields ?f2 u n) ?f2"
        "snd x' \<longleftrightarrow> hit ?t (bootp_fields ?f2 u n) ?f2"
        using payload_walk [OF b(1,2) ub \<phi>, of "\<lambda>_. True" fst "restore_option s r" snd ?t "(?ch, ?cd)"] stp by auto
      have bf: "bootp_fields ?f2 u n = tail" using e(5) [OF b] tl by simp
      have fx: "fst x' = fold (apply_field \<phi>) (fields f) f" using w(3) bf all by simp
      have pd: "snd x' \<longleftrightarrow> hit ?t tail f" using w(4) bf e(6) [OF t(2)] by simp
      have lx: "length (fst x') = length f"
        using apply_fields [OF \<phi> fields_chain0 [OF l] fx] by blast
      define g where g2: "g = (if fst x' ! (u + 6) = 0 \<and> fst x' ! (u + 7) = 0 then fst x' else patch (fst x') (u + 6)
          [ucast (drop_bit 8 (ComputeUdpChecksum src dst (slice (fst x') u n))), ucast (ComputeUdpChecksum src dst (slice (fst x') u n))])"
      have g: "fix_checksum src dst u n (fst x') = Some g"
        using fix_checksum_spec [of n u "fst x'" src dst] b lx g2 by simp
      have "net_desanitize_ethernet_frame_for_replay f s r = (if snd x' then Some g else Some (fst x'))"
        unfolding net_desanitize_ethernet_frame_for_replay_def if_not_P [OF nl] rw Option.bind.simps Let_def fst_conv snd_conv
          et2 if_not_P [OF False] gt2 option.case prod.case ch e(1) w(1) [unfolded e(1)] w(2) [unfolded e(1)] g ..
      then show ?thesis
        unfolding all(1) with_checksum_def gt fx [symmetric] using et False g2 pd by auto
    qed
  qed
qed

lemma with_checksum_bytes:
  assumes "14 \<le> length f" "length body = length f"
  shows "length (with_checksum f c body) = length f"
    "\<And>i. i < length f \<Longrightarrow> i \<notin> checksum_bytes f \<Longrightarrow> with_checksum f c body ! i = body ! i"
proof -
  obtain q where q: "dhcp_gate f = Some q" using gate_total [OF assms(1)] by blast
  show "length (with_checksum f c body) = length f"
    using q gate_bounds [of f] assms(2) by (cases q) (auto simp: with_checksum_def split: prod.splits)
  show "with_checksum f c body ! i = body ! i" if "i < length f" "i \<notin> checksum_bytes f" for i
  proof (cases q)
    case (Some d)
    then show ?thesis
      using q gate_bounds [of f] assms(2) that
      by (cases d) (auto simp: with_checksum_def checksum_bytes_def nth_patch less_Suc_eq split: if_splits)
  qed (use q in \<open>simp add: with_checksum_def\<close>)
qed

lemma checksum_untouched:
  assumes "14 \<le> length f" "i \<in> checksum_bytes f"
  shows "\<not> touched (fields f) i"
proof -
  obtain tail where t: "fields f = [(0, 6, MacField), (6, 6, MacField)] @ tail"
    "\<And>src dst u l. the (get16 f 12) \<noteq> 0x0806 \<Longrightarrow> dhcp_gate f = Some (Some (src, dst, u, l)) \<Longrightarrow>
        chain (u + 8) tail (u + l) \<and> tail = bootp_fields f u l"
    using fields_chain [OF assms(1)] by blast
  obtain q where q: "dhcp_gate f = Some q" using gate_total [OF assms(1)] by blast
  obtain src dst u n where d: "the (get16 f 12) \<noteq> 0x0806" "dhcp_gate f = Some (Some (src, dst, u, n))" "i = u + 6 \<or> i = u + 7"
    using assms(2) q by (cases q) (auto simp: checksum_bytes_def split: if_splits)
  then have "\<not> touched tail i" using t(2) [OF d(1,2)] chain_untouched [of "u + 8" tail "u + n" i] by auto
  moreover have "12 \<le> i" using gate_bounds [OF d(2)] d(3) by auto
  ultimately show ?thesis unfolding t(1) by simp
qed

text \<open>Substituting the fields and renewing the checksum: what is where afterwards.\<close>

lemma outcome:
  assumes \<phi>: "same_length \<phi>" and l: "14 \<le> length f"
    and g: "g = with_checksum f c (fold (apply_field \<phi>) (fields f) f)"
  shows "length g = length f" "fields g = fields f" "checksum_bytes g = checksum_bytes f"
    "\<And>off n k. (off, n, k) \<in> set (fields f) \<Longrightarrow> slice g off n = \<phi> k (slice f off n)"
    "\<And>i. i < length f \<Longrightarrow> \<not> touched (fields f) i \<Longrightarrow> i \<notin> checksum_bytes f \<Longrightarrow> g ! i = f ! i"
proof -
  let ?b = "fold (apply_field \<phi>) (fields f) f"
  note a = apply_fields [OF \<phi> fields_chain0 [OF l] refl]
  have lb: "length ?b = length f" using a by blast
  note w = with_checksum_bytes [OF l lb, where c = c, folded g]
  show len: "length g = length f" by (rule w(1))
  show out: "\<And>i. i < length f \<Longrightarrow> \<not> touched (fields f) i \<Longrightarrow> i \<notin> checksum_bytes f \<Longrightarrow> g ! i = f ! i"
    using w(2) a by simp
  show "fields g = fields f" "checksum_bytes g = checksum_bytes f"
    using fields_stable [OF l len out] by blast+
  show "slice g off n = \<phi> k (slice f off n)" if m: "(off, n, k) \<in> set (fields f)" for off n k
  proof -
    have b: "off + n \<le> length f" using chain_mem [OF fields_chain0 [OF l] m] by blast
    have "slice g off n = slice ?b off n"
    proof (rule slice_eqI)
      fix j assume j: "off \<le> j" "j < off + n"
      then have "touched (fields f) j" using m by (auto simp: touched_def)
      then have "j \<notin> checksum_bytes f" using checksum_untouched [OF l] by blast
      then show "g ! j = ?b ! j" using w(2) j b by simp
    qed (use len lb b in simp_all)
    then show ?thesis using a m by auto
  qed
qed

section \<open>Properties\<close>

text \<open>
  C40. The sanitizer substitutes exactly the identity-bearing fields. For every frame, direction and
  consistent state it returns without leaving the frame, keeps the length and the layout, puts the
  synthetic address wherever a recognised MAC field holds the console's own address, leaves every
  other address alone, replaces every DHCP host name, changes no other byte but the UDP checksum,
  and reports a change exactly when a field changed.
\<close>

theorem sanitize_exact:
  assumes "san_ok st"
  shows "\<exists>ch g st'. net_sanitize_ethernet_frame f direction st = Some (ch, g, st') \<and> san_ok st' \<and> length g = length f
    \<and> (has_identity st', identity_mac st') = learned f direction st
    \<and> (if length f < 14 then \<not> ch \<and> g = f else
        (let \<phi> = san_subst (has_identity st') (identity_mac st') in
         fields g = fields f \<and> (\<forall>(off, n, k) \<in> set (fields f). slice g off n = \<phi> k (slice f off n))
         \<and> (\<forall>i < length f. \<not> touched (fields f) i \<and> i \<notin> checksum_bytes f \<longrightarrow> g ! i = f ! i)
         \<and> (ch \<longleftrightarrow> (\<exists>(off, n, k) \<in> set (fields f). \<phi> k (slice f off n) \<noteq> slice f off n))))"
proof (cases "length f < 14")
  case True
  then show ?thesis using assms by (intro exI [of _ False] exI [of _ f] exI [of _ st]) (simp add: net_sanitize_ethernet_frame_def learned_def)
next
  case False
  then have l: "14 \<le> length f" by simp
  obtain h i where hi: "learned f direction st = (h, i)" by (cases "learned f direction st")
  let ?\<phi> = "san_subst h i"
  obtain st' where st': "net_sanitize_ethernet_frame f direction st = Some (sanitized_body f direction st \<noteq> f,
      with_checksum f (dirty ?\<phi> (drop 2 (fields f)) f) (sanitized_body f direction st), st')"
    "san_ok st'" "has_identity st' = h" "identity_mac st' = i"
    using sanitize_walk [OF assms l, of direction] unfolding hi by auto
  have b: "sanitized_body f direction st = fold (apply_field ?\<phi>) (fields f) f" by (simp add: sanitized_body_def hi)
  let ?g = "with_checksum f (dirty ?\<phi> (drop 2 (fields f)) f) (sanitized_body f direction st)"
  have g: "?g = with_checksum f (dirty ?\<phi> (drop 2 (fields f)) f) (fold (apply_field ?\<phi>) (fields f) f)" by (simp only: b)
  note o = outcome [OF same_length_san l g]
  have ch: "sanitized_body f direction st \<noteq> f \<longleftrightarrow> (\<exists>(off, n, k) \<in> set (fields f). ?\<phi> k (slice f off n) \<noteq> slice f off n)"
    using dirty_iff [OF same_length_san fields_chain0 [OF l], of h i] unfolding b hit_def by simp
  show ?thesis
    using st' o ch False hi by (auto simp: Let_def)
qed

text \<open>
  The console's address does not survive sanitizing. Once the identity is known, and unless it
  equals its own synthetic address, no recognised MAC field of the frame that comes out holds it.
\<close>

lemma identity_removed:
  assumes "san_ok st" and "14 \<le> length f" and "net_sanitize_ethernet_frame f direction st = Some (ch, g, st')"
    and "has_identity st'" and "synthetic_mac (identity_mac st') \<noteq> identity_mac st'"
  shows "\<forall>(off, n, k) \<in> set (fields g). k = MacField \<longrightarrow> slice g off n \<noteq> identity_mac st'"
proof -
  obtain h i where hi: "learned f direction st = (h, i)" by (cases "learned f direction st")
  have b: "sanitized_body f direction st = fold (apply_field (san_subst h i)) (fields f) f" by (simp add: sanitized_body_def hi)
  have g: "g = with_checksum f (dirty (san_subst h i) (drop 2 (fields f)) f) (fold (apply_field (san_subst h i)) (fields f) f)"
    and st': "has_identity st' = h" "identity_mac st' = i"
    using sanitize_walk [OF assms(1,2), of direction] assms(3) unfolding hi b by auto
  note o = outcome [OF same_length_san assms(2) g]
  show ?thesis
    unfolding o(2) using o(4) assms(4,5) st' by (auto simp: san_subst_def split: if_splits)
qed

text \<open>
  Replay undoes the address substitution. Desanitizing a sanitized frame, with the synthetic
  address of the learned identity and that identity, never leaves the frame, and unless the original
  already held the synthetic address it restores every MAC field and leaves every byte outside host
  names and the UDP checksum as it was captured.
\<close>

lemma replay_restores:
  assumes "san_ok st" and "14 \<le> length f" and "net_sanitize_ethernet_frame f direction st = Some (ch, g, st')"
    and "has_identity st'"
    and fresh: "\<forall>(off, n, k) \<in> set (fields f). k = MacField \<longrightarrow> slice f off n \<noteq> synthetic_mac (identity_mac st')"
  shows "\<exists>r. net_desanitize_ethernet_frame_for_replay g (synthetic_mac (identity_mac st')) (identity_mac st') = Some r
    \<and> length r = length f
    \<and> (\<forall>(off, n, k) \<in> set (fields f). k = MacField \<longrightarrow> slice r off n = slice f off n)
    \<and> (\<forall>i < length f. \<not> touched (fields f) i \<and> i \<notin> checksum_bytes f \<longrightarrow> r ! i = f ! i)"
proof -
  obtain h i where hi: "learned f direction st = (h, i)" by (cases "learned f direction st")
  have b: "sanitized_body f direction st = fold (apply_field (san_subst h i)) (fields f) f" by (simp add: sanitized_body_def hi)
  have g: "g = with_checksum f (dirty (san_subst h i) (drop 2 (fields f)) f) (fold (apply_field (san_subst h i)) (fields f) f)"
    and st': "has_identity st' = h" "identity_mac st' = i" "san_ok st'"
    using sanitize_walk [OF assms(1,2), of direction] assms(3) unfolding hi b by auto
  note o = outcome [OF same_length_san assms(2) g]
  have i6: "length i = 6" using st' by (simp add: san_ok_def)
  have lg: "14 \<le> length g" using o(1) assms(2) by simp
  let ?s = "synthetic_mac i"
  let ?r = "with_checksum g (hit (\<lambda>k x. k = MacField \<and> x = ?s) (drop 2 (fields g)) g) (fold (apply_field (restore_subst ?s i)) (fields g) g)"
  have r: "net_desanitize_ethernet_frame_for_replay g ?s i = Some ?r" by (rule restore_walk [OF i6 lg])
  note p = outcome [OF same_length_restore [OF i6, of ?s] lg refl]
  have "slice ?r off n = slice f off n" if m: "(off, n, MacField) \<in> set (fields f)" for off n
  proof -
    have "slice ?r off n = restore_subst ?s i MacField (san_subst h i MacField (slice f off n))"
      using p(4) [of off n MacField] o(4) [OF m] m unfolding o(2) by simp
    then show ?thesis using fresh m assms(4) st' by (auto simp: restore_subst_def san_subst_def)
  qed
  moreover have "?r ! j = f ! j" if "j < length f" "\<not> touched (fields f) j" "j \<notin> checksum_bytes f" for j
    using p(5) [of j] o(5) [OF that] that unfolding o(1,2,3) by simp
  ultimately show ?thesis using r p(1) o(1) st' by (intro exI [of _ ?r]) auto
qed

text \<open>A broadcast frame sent by a console.\<close>

definition demo_console :: "u8 list" where
  "demo_console = [0x00, 0x09, 0xBF, 0x01, 0x02, 0x03]"

definition demo_frame :: "u8 list" where
  "demo_frame = [0xFF, 0xFF, 0xFF, 0xFF, 0xFF, 0xFF] @ demo_console @ [0x08, 0x06]"

lemma demo_facts:
  "san_ok san_fresh" "14 \<le> length demo_frame" "learned demo_frame 0 san_fresh = (True, demo_console)"
  "slice demo_frame 0 6 \<noteq> synthetic_mac demo_console" "demo_console \<noteq> synthetic_mac demo_console"
  "slice demo_frame 6 6 = demo_console" "fields demo_frame = [(0, 6, MacField), (6, 6, MacField)]"
proof -
  show "san_ok san_fresh" by (simp add: san_ok_def san_fresh_def)
  show "slice demo_frame 0 6 \<noteq> synthetic_mac demo_console" "demo_console \<noteq> synthetic_mac demo_console"
    by code_simp+
  show "14 \<le> length demo_frame" "slice demo_frame 6 6 = demo_console" by code_simp+
  then show "learned demo_frame 0 san_fresh = (True, demo_console)" by (simp add: learned_def san_fresh_def)
  have "the (get16 demo_frame 12) = 0x0806" "\<not> 42 \<le> length demo_frame" by code_simp+
  then show "fields demo_frame = [(0, 6, MacField), (6, 6, MacField)]" by (simp add: fields_def)
qed

lemma demo_sanitize:
  "\<exists>ch g st'. net_sanitize_ethernet_frame demo_frame 0 san_fresh = Some (ch, g, st')
    \<and> has_identity st' \<and> identity_mac st' = demo_console \<and> set (fields g) = {(0, 6, MacField), (6, 6, MacField)}"
proof -
  obtain st' where st': "net_sanitize_ethernet_frame demo_frame 0 san_fresh = Some (sanitized_body demo_frame 0 san_fresh \<noteq> demo_frame,
      with_checksum demo_frame (dirty (case_prod san_subst (learned demo_frame 0 san_fresh)) (drop 2 (fields demo_frame)) demo_frame)
        (sanitized_body demo_frame 0 san_fresh), st')" "has_identity st'" "identity_mac st' = demo_console"
    using sanitize_walk [OF demo_facts(1,2), of 0] demo_facts(3) by auto
  have "fields (with_checksum demo_frame c (fold (apply_field (san_subst True demo_console)) (fields demo_frame) demo_frame)) = fields demo_frame" for c
    by (rule outcome(2) [OF same_length_san demo_facts(2) refl])
  then show ?thesis using st' demo_facts(3,7) by (auto simp: sanitized_body_def)
qed

lemma sanitize_exact_witness:
  "\<exists>ch g st'. net_sanitize_ethernet_frame demo_frame 0 san_fresh = Some (ch, g, st') \<and> slice g 6 6 = synthetic_mac demo_console
    \<and> slice g 0 6 = [0xFF, 0xFF, 0xFF, 0xFF, 0xFF, 0xFF]"
proof -
  have b: "slice demo_frame 0 6 = [0xFF, 0xFF, 0xFF, 0xFF, 0xFF, 0xFF]" by code_simp
  have n: "[0xFF, 0xFF, 0xFF, 0xFF, 0xFF, 0xFF] \<noteq> demo_console" by code_simp
  show ?thesis
    using sanitize_exact [OF demo_facts(1), of demo_frame 0] demo_facts(2,3,6,7) b n
    by (fastforce simp: Let_def san_subst_def)
qed

lemma identity_removed_witness:
  "\<exists>ch g st'. net_sanitize_ethernet_frame demo_frame 0 san_fresh = Some (ch, g, st') \<and> slice g 6 6 \<noteq> demo_console"
proof -
  obtain ch g st' where r: "net_sanitize_ethernet_frame demo_frame 0 san_fresh = Some (ch, g, st')" "has_identity st'"
    "identity_mac st' = demo_console" "set (fields g) = {(0, 6, MacField), (6, 6, MacField)}"
    using demo_sanitize by blast
  have "slice g 6 6 \<noteq> demo_console"
    using identity_removed [OF demo_facts(1,2) r(1,2)] demo_facts(5) r(3,4) by auto
  then show ?thesis using r(1) by blast
qed

lemma replay_restores_witness:
  "\<exists>ch g st' r. net_sanitize_ethernet_frame demo_frame 0 san_fresh = Some (ch, g, st')
    \<and> net_desanitize_ethernet_frame_for_replay g (synthetic_mac demo_console) demo_console = Some r \<and> slice r 6 6 = demo_console"
proof -
  obtain ch g st' where r: "net_sanitize_ethernet_frame demo_frame 0 san_fresh = Some (ch, g, st')" "has_identity st'"
    "identity_mac st' = demo_console" using demo_sanitize by blast
  have "\<forall>(off, n, k) \<in> set (fields demo_frame). k = MacField \<longrightarrow> slice demo_frame off n \<noteq> synthetic_mac (identity_mac st')"
    using demo_facts(4,5,6) r(3) by (simp add: demo_facts(7))
  from replay_restores [OF demo_facts(1,2) r(1,2) this] show ?thesis
    using r demo_facts(6) by (auto simp: demo_facts(7))
qed

section \<open>The recomputed checksum\<close>

text \<open>The receiver's sum of RFC 768: big-endian words, an odd last byte padded.\<close>

fun rfc_words :: "u8 list \<Rightarrow> nat" where
  "rfc_words (a # b # r) = 256 * unat a + unat b + rfc_words r"
| "rfc_words [a] = 256 * unat a"
| "rfc_words [] = 0"

definition pseudo_header :: "u32 \<Rightarrow> u32 \<Rightarrow> nat \<Rightarrow> nat" where
  "pseudo_header src dst n = unat src div 65536 + unat src mod 65536 + unat dst div 65536 + unat dst mod 65536 + 17 + n"

definition udp_checksum_ok :: "u32 \<Rightarrow> u32 \<Rightarrow> u8 list \<Rightarrow> bool" where
  "udp_checksum_ok src dst udp \<longleftrightarrow> (pseudo_header src dst (length udp) + rfc_words udp) mod 65535 = 0"

lemma compl16_unat: "unat (- 1 - x :: u16) = 65535 - unat x"
proof -
  have "x \<le> - 1" by simp
  then have "unat (- 1 - x) = unat (- 1 :: u16) - unat x" by (rule unat_sub)
  moreover have "unat (- 1 :: u16) = 65535" by (simp add: unsigned_minus_1_eq_mask mask_eq_exp_minus_1)
  ultimately show ?thesis by simp
qed

lemma byte_lt: "unat (a :: u8) < 256"
  by (rule order_less_le_trans [OF unsigned_less]) simp

lemma unat_ucast8 [simp]: "8 \<le> LENGTH('x) \<Longrightarrow> unat (ucast (a :: u8) :: 'x::len word) = unat a"
proof -
  assume "8 \<le> LENGTH('x)"
  then have "(2 :: nat) ^ 8 \<le> 2 ^ LENGTH('x)" by (rule power_increasing) simp
  then have "unat a < 2 ^ LENGTH('x)" using byte_lt [of a] by simp
  then show ?thesis by (simp add: unsigned_ucast_eq take_bit_nat_eq_self)
qed

lemma join16_unat: "unat (push_bit 8 (ucast (a :: u8)) OR ucast (b :: u8) :: u32) = 256 * unat a + unat b"
  "unat (push_bit 8 (ucast a) OR ucast b :: u16) = 256 * unat a + unat b"
  "unat (push_bit 8 (ucast a) :: u32) = 256 * unat a"
proof -
  have d: "(push_bit 8 (ucast a) OR ucast b :: 'x::len word) = push_bit 8 (ucast a) + ucast b" for a b :: u8
    by (rule disjunctive_add [symmetric]) (auto simp: bit_simps no_bit8)
  have p: "unat (push_bit 8 (ucast a) :: u32) = 256 * unat a" "unat (push_bit 8 (ucast a) :: u16) = 256 * unat a" for a :: u8
    using byte_lt [of a] by (simp_all add: push_bit_eq_mult unat_word_ariths)
  show "unat (push_bit 8 (ucast (a :: u8)) OR ucast (b :: u8) :: u32) = 256 * unat a + unat b"
    "unat (push_bit 8 (ucast a) OR ucast b :: u16) = 256 * unat a + unat b"
    "unat (push_bit 8 (ucast a) :: u32) = 256 * unat a"
    unfolding d using byte_lt [of a] byte_lt [of b] by (simp_all add: unat_word_ariths p)
qed

text \<open>The sum of the code skips the word at offset 6 and never overflows on a datagram's length.\<close>

fun code_words :: "nat \<Rightarrow> u8 list \<Rightarrow> nat" where
  "code_words i (a # b # r) = (if i = 6 then 0 else 256 * unat a + unat b) + code_words (i + 2) r"
| "code_words i [a] = 256 * unat a"
| "code_words i [] = 0"

lemma code_words_bound: "code_words i udp \<le> 65535 * ((length udp + 1) div 2)"
proof (induction i udp rule: code_words.induct)
  case (1 i a b r)
  have "(length (a # b # r) + 1) div 2 = (length r + 1) div 2 + 1" by simp
  moreover have "(if i = 6 then 0 else 256 * unat a + unat b) \<le> 65535" using byte_lt [of a] byte_lt [of b] by simp
  ultimately show ?case using 1 unfolding code_words.simps by linarith
next
  case (2 i a)
  then show ?case using byte_lt [of a] by simp
qed simp

lemma csum_words_unat: "unat acc + code_words i udp < 2 ^ 32 \<Longrightarrow> unat (csum_words i udp acc) = unat acc + code_words i udp"
proof (induction i udp acc rule: csum_words.induct)
  case (1 i a b r acc)
  let ?acc = "if i = 6 then acc else acc + (push_bit 8 (ucast a) OR ucast b)"
  have "unat acc + (if i = 6 then 0 else 256 * unat a + unat b) < 2 ^ 32" using "1.prems" by simp
  then have acc: "unat ?acc = unat acc + (if i = 6 then 0 else 256 * unat a + unat b)"
    by (auto simp: unat_word_ariths join16_unat)
  then have "unat ?acc + code_words (i + 2) r < 2 ^ 32" using "1.prems" by simp
  from "1.IH" [OF this] show ?case unfolding acc by simp
next
  case (2 i a acc)
  then show ?case by (simp add: unat_word_ariths join16_unat)
qed simp

lemma code_words_late: "6 < i \<Longrightarrow> code_words i udp = rfc_words udp"
  by (induction i udp rule: code_words.induct) auto

lemma fold16_spec: "unat (fold16 s) < 65536 \<and> unat (fold16 s) mod 65535 = unat s mod 65535"
proof (induction s rule: fold16.induct)
  case (1 s)
  show ?case
  proof (cases "drop_bit 16 s = 0")
    case True
    have "unat (drop_bit 16 s) = unat s div 65536" unfolding unat_drop_bit_eq by (simp add: drop_bit_eq_div)
    then have "unat s < 65536" using True by (simp add: div_eq_0_iff)
    then show ?thesis using True by (simp add: fold16.simps [of s])
  next
    case False
    let ?s = "(s AND 0xFFFF) + drop_bit 16 s"
    have "unat s = 65536 * (unat s div 65536) + unat s mod 65536" by simp
    then have "unat s = unat ?s + 65535 * (unat s div 65536)" unfolding fold16_decreases(2) by linarith
    then have "unat ?s mod 65535 = unat s mod 65535" by (metis mod_mult_self2)
    then show ?thesis using 1 [OF False] False by (simp add: fold16.simps [of s])
  qed
qed

lemma unat_sum: "unat (x :: u32) = a \<Longrightarrow> unat y = b \<Longrightarrow> a + b < 4294967296 \<Longrightarrow> unat (x + y) = a + b"
  by (simp add: unat_word_ariths)

lemma header_sum:
  assumes "unat (x :: u32) = a" "unat y = b" "unat z = c" "unat w = d" "unat l = n"
    and "a < 65536" "b < 65536" "c < 65536" "d < 65536" "n < 65536"
  shows "unat (x + y + z + w + 17 + l) = a + b + c + d + 17 + n \<and> a + b + c + d + 17 + n < 400000"
proof -
  have 17: "unat (17 :: u32) = 17" by simp
  show ?thesis using assms by (auto intro!: unat_sum 17)
qed

lemma mod_shift: "(r + c) mod m = 0 \<Longrightarrow> r mod m = x mod m \<Longrightarrow> (x + c) mod m = (0 :: nat)"
  using mod_add_cong [of r m x c c] by simp

lemma complement_unat:
  fixes r :: u32
  assumes "unat r < 65536"
  shows "unat (ucast (NOT r AND 0xFFFF) :: u16) = 65535 - unat r"
proof -
  have m: "(0xFFFF :: u32) = mask 16" by (simp add: mask_eq_exp_minus_1)
  have "(ucast (NOT r AND 0xFFFF) :: u16) = NOT (ucast r)" unfolding m by (rule bit_word_eqI) (simp add: bit_simps)
  then have "(ucast (NOT r AND 0xFFFF) :: u16) = - 1 - ucast r" by (simp add: not_eq_complement)
  moreover have "unat (ucast r :: u16) = unat r" using assms by (simp add: unsigned_ucast_eq take_bit_nat_eq_self)
  ultimately show ?thesis by (simp only: compl16_unat)
qed

lemma checksum_unat:
  assumes "length udp < 65536"
  shows "(pseudo_header src dst (length udp) + code_words 0 udp + unat (ComputeUdpChecksum src dst udp)) mod 65535 = 0"
    "ComputeUdpChecksum src dst udp \<noteq> 0"
proof -
  let ?acc = "(drop_bit 16 src AND 0xFFFF) + (src AND 0xFFFF) + (drop_bit 16 dst AND 0xFFFF) + (dst AND 0xFFFF)
               + 17 + of_nat (length udp) :: u32"
  have m: "(0xFFFF :: u32) = mask 16" by (simp add: mask_eq_exp_minus_1)
  have lo: "unat (x AND 0xFFFF) = unat x mod 65536" for x :: u32 by (simp only: m unat_and_mask) simp
  have hi: "unat (drop_bit 16 x) = unat x div 65536" for x :: u32 unfolding unat_drop_bit_eq by (simp add: drop_bit_eq_div)
  have lt: "unat x < 4294967296" for x :: u32 by (rule order_less_le_trans [OF unsigned_less]) simp
  have hm: "unat x div 65536 < 65536" "unat x mod 65536 < 65536" for x :: u32 using lt [of x] by simp_all
  have n: "unat (of_nat (length udp) :: u32) = length udp" using assms by (simp add: unat_of_nat)
  have hl: "unat (drop_bit 16 x AND 0xFFFF) = unat x div 65536" for x :: u32
    unfolding lo hi by (rule mod_less [OF hm(1)])
  have "unat ?acc = pseudo_header src dst (length udp) \<and> pseudo_header src dst (length udp) < 400000"
    unfolding pseudo_header_def by (rule header_sum [OF hl lo hl lo n hm(1) hm(2) hm(1) hm(2) assms])
  then have acc: "unat ?acc = pseudo_header src dst (length udp)" and ph: "pseudo_header src dst (length udp) < 400000"
    by blast+
  have "(length udp + 1) div 2 \<le> 32768" using assms by linarith
  then have cw: "code_words 0 udp \<le> 2147450880" using code_words_bound [of 0 udp] by linarith
  let ?r = "fold16 (csum_words 0 udp ?acc)"
  have "unat (csum_words 0 udp ?acc) = pseudo_header src dst (length udp) + code_words 0 udp"
    using csum_words_unat [of ?acc 0 udp] ph cw unfolding acc by simp
  then have r: "unat ?r < 65536" "unat ?r mod 65535 = (pseudo_header src dst (length udp) + code_words 0 udp) mod 65535"
    using fold16_spec [of "csum_words 0 udp ?acc"] by simp_all
  let ?c = "ucast (NOT ?r AND 0xFFFF) :: u16"
  have c: "unat ?c = 65535 - unat ?r" by (rule complement_unat [OF r(1)])
  have result: "ComputeUdpChecksum src dst udp = (if ?c = 0 then 0xFFFF else ?c)" by (simp only: ComputeUdpChecksum_def Let_def)
  then show "ComputeUdpChecksum src dst udp \<noteq> 0" by simp
  have "(unat ?r + unat (ComputeUdpChecksum src dst udp)) mod 65535 = 0"
  proof (cases "?c = 0")
    case True
    then have "65535 - unat ?r = 0" using c by simp
    then have "unat ?r = 65535" using r(1) by linarith
    then show ?thesis using True by (simp add: result)
  next
    case False
    then have "unat ?r + unat (ComputeUdpChecksum src dst udp) = 65535" using c r(1) by (simp add: result)
    then show ?thesis by simp
  qed
  then show "(pseudo_header src dst (length udp) + code_words 0 udp + unat (ComputeUdpChecksum src dst udp)) mod 65535 = 0"
    by (rule mod_shift [OF _ r(2)])
qed

lemma eight: "8 \<le> length (m :: 'x list) \<Longrightarrow> \<exists>a b c d e g h i r. m = a # b # c # d # e # g # h # i # r"
  by (auto simp: numeral_eq_Suc Suc_le_length_iff)

text \<open>
  A renewed checksum verifies. Storing the recomputed checksum in any UDP datagram makes the
  receiver's ones'-complement sum over pseudo header and datagram come out right, whatever was in
  the field before, and never stores the value that means no checksum.
\<close>

lemma checksum_verifies:
  fixes udp :: "u8 list" and src dst :: u32
  assumes "8 \<le> length udp" and "length udp < 65536"
  defines "c \<equiv> ComputeUdpChecksum src dst udp"
  shows "udp_checksum_ok src dst (patch udp 6 [ucast (drop_bit 8 c), ucast c]) \<and> c \<noteq> 0"
proof -
  obtain a0 a1 a2 a3 a4 a5 x y r where u: "udp = a0 # a1 # a2 # a3 # a4 # a5 # x # y # r" using eight [OF assms(1)] by blast
  have p: "patch udp 6 [ucast (drop_bit 8 c), ucast c] = a0 # a1 # a2 # a3 # a4 # a5 # ucast (drop_bit 8 c) # ucast c # r"
    by (simp add: u patch_def)
  have "256 * unat (ucast (drop_bit 8 c) :: u8) + unat (ucast c :: u8) = unat c"
    using join16_unat(2) [of "ucast (drop_bit 8 c)" "ucast c"] split16_join [of c] by simp
  then have "rfc_words (patch udp 6 [ucast (drop_bit 8 c), ucast c]) = code_words 0 udp + unat c"
    unfolding p by (simp add: u code_words_late)
  moreover have "length (patch udp 6 [ucast (drop_bit 8 c), ucast c]) = length udp" using assms(1) by simp
  ultimately show ?thesis
    using checksum_unat [OF assms(2), of src dst] by (simp add: udp_checksum_ok_def c_def add.assoc)
qed

lemma checksum_verifies_witness:
  "udp_checksum_ok 0x0A000001 0x0A000002 (patch [0, 68, 0, 67, 0, 9, 0xBE, 0xEF, 7] 6
    [ucast (drop_bit 8 (ComputeUdpChecksum 0x0A000001 0x0A000002 [0, 68, 0, 67, 0, 9, 0xBE, 0xEF, 7])),
     ucast (ComputeUdpChecksum 0x0A000001 0x0A000002 [0, 68, 0, 67, 0, 9, 0xBE, 0xEF, 7])])"
  using checksum_verifies [of "[0, 68, 0, 67, 0, 9, 0xBE, 0xEF, 7]" "0x0A000001" "0x0A000002"] by simp

end
