(* ===== verification/NetClassify.thy ===== *)
theory NetClassify
  imports NetRing NetSanitize
begin

text \<open>
  The passive frame classifier (\<open>runner/src/net/net_classify.cpp\<close>): it decodes captured Ethernet
  frames far enough to push labelled events into the network ring.  Reads are bounds-checked as in
  the sanitizer; the operator diagnostics on stderr are omitted.  Shown: no frame, however
  malformed, makes it read outside the buffer or loop; it pushes at most two events per frame; a
  well-formed domain name decodes to its dotted form; TCP events carry the right kind.
\<close>

section \<open>Domain names\<close>

text \<open>
  \<open>out\<close> holds the bytes written so far (\<open>out_pos\<close> of them), \<open>e\<close> is \<open>real_end\<close> once set.  The result
  \<open>Some None\<close> is the function's \<open>false\<close>.
\<close>

definition put_out :: "nat \<Rightarrow> u8 \<Rightarrow> u8 list \<Rightarrow> u8 list" where
  "put_out out_size c out = (if length out + 1 < out_size then out @ [c] else out)"

definition put_dot :: "nat \<Rightarrow> u8 list \<Rightarrow> u8 list" where
  "put_dot out_size out = (if out \<noteq> [] \<and> length out + 1 < out_size then out @ [46] else out)"

function dns_labels :: "u8 list \<Rightarrow> nat \<Rightarrow> nat \<Rightarrow> nat \<Rightarrow> nat \<Rightarrow> nat option \<Rightarrow> u8 list \<Rightarrow> (u8 list \<times> nat) option option" where
  "dns_labels f base out_size pos jumps e out =
    (if pos \<ge> length f then Some None
     else do {
       label_len \<leftarrow> get8 f pos;
       if label_len = 0 then Some (Some (out, case e of Some x \<Rightarrow> x | None \<Rightarrow> pos + 1))
       else if label_len AND 0xC0 = 0xC0 then
         (if pos + 1 \<ge> length f then Some None
          else if jumps + 1 > 20 then Some None
          else do {
            lo \<leftarrow> get8 f (pos + 1);
            dns_labels f base out_size (base + 256 * unat (label_len AND 0x3F) + unat lo) (jumps + 1)
              (case e of Some x \<Rightarrow> Some x | None \<Rightarrow> Some (pos + 2)) out })
       else if pos + 1 + unat label_len > length f then Some None
       else do {
         label \<leftarrow> getn f (pos + 1) (unat label_len);
         dns_labels f base out_size (pos + 1 + unat label_len) jumps e (fold (put_out out_size) label (put_dot out_size out)) } })"
  by auto
termination
  by (relation "measures [\<lambda>(f, base, out_size, pos, jumps, e, out). 20 - jumps,
    \<lambda>(f, base, out_size, pos, jumps, e, out). length f - pos]") auto

declare dns_labels.simps [simp del]

definition dns_read_name :: "u8 list \<Rightarrow> nat \<Rightarrow> nat \<Rightarrow> nat \<Rightarrow> (u8 list \<times> nat) option option" where
  "dns_read_name f msg_base pos out_size = dns_labels f msg_base out_size pos 0 None []"

section \<open>Classifiers\<close>

text \<open>The addresses and ports a classifier passes on to the ring.\<close>

record flow =
  fl_direction :: u8
  fl_src_mac :: "u8 list"
  fl_dst_mac :: "u8 list"
  fl_src_ipv4 :: u32
  fl_dst_ipv4 :: u32
  fl_src_port :: u16
  fl_dst_port :: u16

definition flow_event :: "flow \<Rightarrow> u8 \<Rightarrow> u32 \<Rightarrow> u16 \<Rightarrow> u32 \<Rightarrow> net_event" where
  "flow_event w kind value len aux = \<lparr>v_kind = kind, v_direction = fl_direction w, v_wifi_reg = 0, v_wifi_value = value,
    v_src_mac = Some (fl_src_mac w), v_dst_mac = Some (fl_dst_mac w), v_src_ipv4 = fl_src_ipv4 w,
    v_dst_ipv4 = fl_dst_ipv4 w, v_src_port = fl_src_port w, v_dst_port = fl_dst_port w, v_payload_len = len, v_aux = aux\<rparr>"

text \<open>The DHCP options the classifier looks at; all but the message type only feed the diagnostics.\<close>

record dhcp_info =
  msg_type :: u8
  router_ip :: "u32 option"
  dns_ip :: "u32 option"
  server_id :: u32

definition dhcp_option :: "u8 list \<Rightarrow> u8 \<Rightarrow> nat \<Rightarrow> nat \<Rightarrow> dhcp_info \<Rightarrow> dhcp_info option" where
  "dhcp_option f code n v d =
    (if code = 53 \<and> n \<ge> 1 then do { b \<leftarrow> get8 f v; Some (d\<lparr>msg_type := b\<rparr>) }
     else if code = 3 \<and> n \<ge> 4 then do { x \<leftarrow> get32 f v; Some (d\<lparr>router_ip := Some x\<rparr>) }
     else if code = 6 \<and> n \<ge> 4 then do { x \<leftarrow> get32 f v; Some (d\<lparr>dns_ip := Some x\<rparr>) }
     else if code = 54 \<and> n \<ge> 4 then do { x \<leftarrow> get32 f v; Some (d\<lparr>server_id := x\<rparr>) }
     else Some d)"

definition classify_dhcp :: "net_clock \<Rightarrow> u8 list \<Rightarrow> flow \<Rightarrow> nat \<Rightarrow> nat \<Rightarrow> net_ring \<Rightarrow> net_ring option" where
  "classify_dhcp clk f w udp_payload udp_payload_len r = do {
     yiaddr \<leftarrow> (if udp_payload + 20 \<le> length f then get32 f (udp_payload + 16) else Some 0);
     let cookie = udp_payload + 236;
     magic \<leftarrow> has_cookie f cookie (length f);
     d \<leftarrow> (if magic then option_loop (dhcp_option f) (\<lambda>_. f) (length f) (cookie + 4)
             \<lparr>msg_type = 0, router_ip = None, dns_ip = None, server_id = 0\<rparr>
           else Some \<lparr>msg_type = 0, router_ip = None, dns_ip = None, server_id = 0\<rparr>);
     Some (snd (net_ring_push clk (flow_event w 11 yiaddr (of_nat udp_payload_len) (ucast (msg_type d))) r)) }"

text \<open>Skipping the questions after the first, and the search for an A record.\<close>

fun skip_questions :: "u8 list \<Rightarrow> nat \<Rightarrow> nat \<Rightarrow> nat \<Rightarrow> nat option" where
  "skip_questions f base 0 pos = Some pos"
| "skip_questions f base (Suc n) pos = do {
     res \<leftarrow> dns_read_name f base pos 0;
     case res of None \<Rightarrow> Some pos | Some (_, e) \<Rightarrow> skip_questions f base n (e + 4) }"

fun find_answer :: "u8 list \<Rightarrow> nat \<Rightarrow> nat \<Rightarrow> nat \<Rightarrow> u32 option option" where
  "find_answer f base 0 pos = Some None"
| "find_answer f base (Suc n) pos = do {
     res \<leftarrow> dns_read_name f base pos 256;
     case res of None \<Rightarrow> Some None
     | Some (_, e) \<Rightarrow>
         if e + 10 > length f then Some None else do {
         rtype \<leftarrow> get16 f e; rclass \<leftarrow> get16 f (e + 2); rdlength \<leftarrow> get16 f (e + 8);
         let rdata = e + 10;
         if rdata + unat rdlength > length f then Some None
         else if rtype = 1 \<and> rclass = 1 \<and> rdlength = 4 then do { ip \<leftarrow> get32 f rdata; Some (Some ip) }
         else find_answer f base n (rdata + unat rdlength) } }"

definition as_string :: "u8 list \<Rightarrow> string" where
  "as_string bs = map (\<lambda>b. char_of (unat b)) (takeWhile (\<lambda>b. b \<noteq> 0) bs)"

text \<open>The ring takes a C string: it ends at the first zero byte.\<close>

definition push_named :: "net_clock \<Rightarrow> net_event \<Rightarrow> u8 list \<Rightarrow> net_ring \<Rightarrow> net_ring" where
  "push_named clk v qname r =
    (let (count, r) = net_ring_push clk v r in
     if as_string qname \<noteq> [] then net_ring_set_hostname count (as_string qname) r else r)"

definition classify_dns :: "net_clock \<Rightarrow> u8 list \<Rightarrow> flow \<Rightarrow> nat \<Rightarrow> nat \<Rightarrow> net_ring \<Rightarrow> net_ring option" where
  "classify_dns clk f w udp_payload udp_payload_len r =
    (if udp_payload + 12 > length f then Some r else do {
     txn_id \<leftarrow> get16 f udp_payload; flags \<leftarrow> get16 f (udp_payload + 2);
     qdcount \<leftarrow> get16 f (udp_payload + 4); ancount \<leftarrow> get16 f (udp_payload + 6);
     if qdcount < 1 then Some r else do {
     res \<leftarrow> dns_read_name f udp_payload (udp_payload + 12) 256;
     case res of None \<Rightarrow> Some r
     | Some (qname, after_name) \<Rightarrow>
         if after_name + 4 > length f then Some r else do {
         qtype \<leftarrow> get16 f after_name;
         if flags AND 0x8000 = 0 then
           Some (push_named clk (flow_event w 12 (ucast txn_id) (of_nat udp_payload_len) (ucast qtype)) qname r)
         else do {
           pos \<leftarrow> skip_questions f udp_payload (unat qdcount - 1) (after_name + 4);
           answer \<leftarrow> find_answer f udp_payload (unat ancount) pos;
           let w' = (case answer of Some ip \<Rightarrow> w\<lparr>fl_dst_ipv4 := ip\<rparr> | None \<Rightarrow> w);
           Some (push_named clk (flow_event w' 13 (ucast txn_id) (of_nat udp_payload_len)
             (ucast (flags AND 0x000F) OR push_bit 8 (ucast ancount))) qname r) } } } })"

definition classify_tls_record :: "net_clock \<Rightarrow> u8 list \<Rightarrow> flow \<Rightarrow> nat \<Rightarrow> nat \<Rightarrow> net_ring \<Rightarrow> net_ring option" where
  "classify_tls_record clk f w payload_off payload_len r =
    (if payload_len < 5 \<or> payload_off + 5 > length f then Some r else do {
     content_type \<leftarrow> get8 f payload_off; version_major \<leftarrow> get8 f (payload_off + 1);
     version_minor \<leftarrow> get8 f (payload_off + 2); record_len \<leftarrow> get16 f (payload_off + 3);
     if content_type \<notin> {20, 21, 22, 23} \<or> version_major \<noteq> 3 then Some r
     else if record_len = 0 \<or> record_len > 18432 then Some r
     else do {
       handshake_type \<leftarrow> (if content_type = 22 \<and> payload_len \<ge> 6 \<and> payload_off + 6 \<le> length f
         then get8 f (payload_off + 5) else Some 0xFF);
       let aux = push_bit 16 (ucast content_type) OR push_bit 8 (ucast handshake_type) OR ucast version_minor;
       Some (snd (net_ring_push clk (flow_event w 21 0 record_len aux) r)) } })"

definition tcp_kind :: "u8 \<Rightarrow> u8" where
  "tcp_kind flags = (if flags AND 0x04 \<noteq> 0 then 16 else if flags AND 0x02 \<noteq> 0 then 14
    else if flags AND 0x01 \<noteq> 0 then 15 else 17)"

definition classify_tcp :: "net_clock \<Rightarrow> u8 list \<Rightarrow> flow \<Rightarrow> nat \<Rightarrow> nat \<Rightarrow> net_ring \<Rightarrow> net_ring option" where
  "classify_tcp clk f w tcp_offset ip_payload_len r =
    (if tcp_offset + 20 > length f then Some r else do {
     src_port \<leftarrow> get16 f tcp_offset; dst_port \<leftarrow> get16 f (tcp_offset + 2);
     word \<leftarrow> get8 f (tcp_offset + 12);
     let data_offset = unat (drop_bit 4 word) * 4;
     if data_offset < 20 \<or> tcp_offset + data_offset > length f then Some r else do {
     flags \<leftarrow> get8 f (tcp_offset + 13);
     let payload_len = (if ip_payload_len > data_offset then ip_payload_len - data_offset else 0);
     let w = w\<lparr>fl_src_port := src_port, fl_dst_port := dst_port\<rparr>;
     let r = snd (net_ring_push clk (flow_event w (tcp_kind flags) 0 (of_nat payload_len) (ucast flags)) r);
     if payload_len > 0 then classify_tls_record clk f w (tcp_offset + data_offset) payload_len r else Some r } })"

definition classify_udp :: "net_clock \<Rightarrow> u8 list \<Rightarrow> flow \<Rightarrow> nat \<Rightarrow> nat \<Rightarrow> net_ring \<Rightarrow> net_ring option" where
  "classify_udp clk f w off ip_payload_len r =
    (if off + 8 > length f then Some r else do {
     sp \<leftarrow> get16 f off; dp \<leftarrow> get16 f (off + 2); udp_len \<leftarrow> get16 f (off + 4);
     let declared = (if udp_len > 8 then unat udp_len - 8 else 0);
     let available = (if ip_payload_len > 8 then ip_payload_len - 8 else 0);
     let n = (if declared < available then declared else available);
     let w = w\<lparr>fl_src_port := sp, fl_dst_port := dp\<rparr>;
     if sp = 67 \<or> sp = 68 \<or> dp = 67 \<or> dp = 68 then classify_dhcp clk f w (off + 8) n r
     else if sp = 53 \<or> dp = 53 then classify_dns clk f w (off + 8) n r
     else Some (snd (net_ring_push clk (flow_event w 18 0 (of_nat n) 0) r)) })"

definition net_classify_ethernet_frame :: "net_clock \<Rightarrow> u8 list \<Rightarrow> u8 \<Rightarrow> net_ring \<Rightarrow> net_ring option" where
  "net_classify_ethernet_frame clk f direction r =
    (if length f < 14 then Some r else do {
     dst_mac \<leftarrow> getn f 0 6; src_mac \<leftarrow> getn f 6 6; ethertype \<leftarrow> get16 f 12;
     if ethertype = 0x0806 then
       (if length f < 14 + 28 then Some r else do {
        opcode \<leftarrow> get16 f 20; sender_mac \<leftarrow> getn f 22 6; sender_ip \<leftarrow> get32 f 28;
        target_mac \<leftarrow> getn f 32 6; target_ip \<leftarrow> get32 f 38;
        let w = \<lparr>fl_direction = direction, fl_src_mac = sender_mac, fl_dst_mac = target_mac, fl_src_ipv4 = sender_ip,
          fl_dst_ipv4 = target_ip, fl_src_port = 0, fl_dst_port = 0\<rparr>;
        Some (snd (net_ring_push clk (flow_event w 10 0 (of_nat (length f - 14)) (ucast opcode)) r)) })
     else if ethertype \<noteq> 0x0800 then Some r
     else if length f < 14 + 20 then Some r
     else do {
       b0 \<leftarrow> get8 f 14;
       let ihl = unat (b0 AND 0x0F) * 4;
       if drop_bit 4 b0 \<noteq> 4 \<or> ihl < 20 \<or> 14 + ihl > length f then Some r else do {
       protocol \<leftarrow> get8 f 23; src_ipv4 \<leftarrow> get32 f 26; dst_ipv4 \<leftarrow> get32 f 30; total \<leftarrow> get16 f 16;
       let off = 14 + ihl;
       let declared = (if unat total > ihl then unat total - ihl else 0);
       let available = (if length f > off then length f - off else 0);
       let n = (if declared < available then declared else available);
       let w = \<lparr>fl_direction = direction, fl_src_mac = src_mac, fl_dst_mac = dst_mac, fl_src_ipv4 = src_ipv4,
         fl_dst_ipv4 = dst_ipv4, fl_src_port = 0, fl_dst_port = 0\<rparr>;
       if protocol = 17 then classify_udp clk f w off n r
       else if protocol = 6 then classify_tcp clk f w off n r
       else Some r } } })"

section \<open>Every read is inside the frame\<close>

definition fits :: "nat \<Rightarrow> u8 list \<Rightarrow> bool" where
  "fits out_size out \<longleftrightarrow> out = [] \<or> length out < out_size"

lemma fits_put: "fits n out \<Longrightarrow> fits n (put_out n c out)" "fits n out \<Longrightarrow> fits n (put_dot n out)"
  by (auto simp: fits_def put_out_def put_dot_def)

lemma fits_fold: "fits n out \<Longrightarrow> fits n (fold (put_out n) label out)"
  by (induction label arbitrary: out) (auto intro: fits_put)

lemma dns_labels_safe:
  "(\<And>x. e = Some x \<Longrightarrow> x \<le> length f) \<Longrightarrow> fits n out \<Longrightarrow>
    \<exists>res. dns_labels f base n pos jumps e out = Some res
      \<and> (\<forall>q en. res = Some (q, en) \<longrightarrow> en \<le> length f \<and> fits n q)"
proof (induction f base n pos jumps e out rule: dns_labels.induct)
  case (1 f base n pos jumps e out)
  let ?l = "f ! pos"
  show ?case
  proof (cases "pos < length f")
    case False
    then show ?thesis by (subst dns_labels.simps) simp
  next
    case True
    then have g: "get8 f pos = Some ?l" by (rule get8_Some)
    consider "?l = 0" | "?l \<noteq> 0" "?l AND 0xC0 = 0xC0" | "?l \<noteq> 0" "?l AND 0xC0 \<noteq> 0xC0" by blast
    then show ?thesis
    proof cases
      case l: 1
      then show ?thesis using True g 1 by (subst dns_labels.simps) (cases e; simp)
    next
      case l: 2
      show ?thesis
      proof (cases "pos + 1 < length f \<and> jumps + 1 \<le> 20")
        case j: True
        then have lo: "get8 f (pos + 1) = Some (f ! (pos + 1))" by (intro get8_Some) simp
        have "\<exists>res. dns_labels f base n (base + 256 * unat (?l AND 0x3F) + unat (f ! (pos + 1))) (jumps + 1)
            (case e of Some x \<Rightarrow> Some x | None \<Rightarrow> Some (pos + 2)) out = Some res
          \<and> (\<forall>q en. res = Some (q, en) \<longrightarrow> en \<le> length f \<and> fits n q)"
          using True l j g lo "1.prems" by (intro "1.IH"(1)) (auto split: option.splits)
        then show ?thesis using True g l j lo [simplified] by (subst dns_labels.simps) simp
      next
        case False
        then show ?thesis using True g l by (subst dns_labels.simps) auto
      qed
    next
      case l: 3
      show ?thesis
      proof (cases "pos + 1 + unat ?l \<le> length f")
        case j: True
        then have lab: "getn f (pos + 1) (unat ?l) = Some (slice f (pos + 1) (unat ?l))" by (rule getn_Some)
        have "\<exists>res. dns_labels f base n (pos + 1 + unat ?l) jumps e (fold (put_out n) (slice f (pos + 1) (unat ?l)) (put_dot n out)) = Some res
          \<and> (\<forall>q en. res = Some (q, en) \<longrightarrow> en \<le> length f \<and> fits n q)"
          using True l j g lab "1.prems" by (intro "1.IH"(2)) (auto intro: fits_fold fits_put)
        then show ?thesis using True g l j lab [simplified] by (subst dns_labels.simps) simp
      next
        case False
        then show ?thesis using True g l by (subst dns_labels.simps) simp
      qed
    qed
  qed
qed

lemma dns_read_name_safe:
  "\<exists>res. dns_read_name f base pos n = Some res \<and> (\<forall>q en. res = Some (q, en) \<longrightarrow> en \<le> length f \<and> fits n q)"
  unfolding dns_read_name_def by (rule dns_labels_safe) (simp_all add: fits_def)

lemma skip_safe: "\<exists>p. skip_questions f base k pos = Some p"
proof (induction k arbitrary: pos)
  case (Suc k)
  obtain res where "dns_read_name f base pos 0 = Some res" using dns_read_name_safe by blast
  then show ?case using Suc by (cases res) auto
qed simp

lemma get_total: "i + 2 \<le> length f \<Longrightarrow> \<exists>v. get16 f i = Some v" "i + 4 \<le> length f \<Longrightarrow> \<exists>v. get32 f i = Some v"
  by (simp_all add: get16_def get32_def get8_def)

lemma find_safe: "\<exists>a. find_answer f base k pos = Some a"
proof (induction k arbitrary: pos)
  case (Suc k)
  obtain res where res: "dns_read_name f base pos 256 = Some res" using dns_read_name_safe by blast
  show ?case
  proof (cases res)
    case (Some qe)
    obtain q e where qe: "qe = (q, e)" by (cases qe)
    show ?thesis
    proof (cases "e + 10 \<le> length f")
      case True
      obtain a b c where abc: "get16 f e = Some a" "get16 f (e + 2) = Some b" "get16 f (e + 8) = Some c"
        using get_total(1) [of e f] get_total(1) [of "e + 2" f] get_total(1) [of "e + 8" f] True by auto
      have ip: "\<exists>v. get32 f (e + 10) = Some v" if "e + 10 + unat c \<le> length f" "c = 4"
        using that by (intro get_total) simp
      show ?thesis
        using res Some qe True abc Suc [of "e + 10 + unat c"] ip
        by (cases "e + 10 + unat c \<le> length f"; cases "a = 1 \<and> b = 1 \<and> c = 4") (auto simp: Let_def)
    qed (use res Some qe in simp)
  qed (use res in simp)
qed simp

lemma dhcp_option_safe: "v + n \<le> length f \<Longrightarrow> \<exists>d'. dhcp_option f code n v d = Some d'"
  using get_total(2) [of v f] by (auto simp: dhcp_option_def get8_def)

lemma dhcp_loop_safe:
  "p \<le> length f \<Longrightarrow> \<exists>d'. option_loop (dhcp_option f) (\<lambda>_. f) (length f) p d = Some d'"
proof (induction "length f - p" arbitrary: p d rule: less_induct)
  case less
  let ?n = "unat (f ! (p + 1))"
  show ?case
  proof (cases "p < length f \<and> f ! p \<noteq> 0xFF \<and> f ! p \<noteq> 0 \<and> p + 1 < length f \<and> p + 2 + ?n \<le> length f")
    case True
    obtain d' where d': "dhcp_option f (f ! p) ?n (p + 2) d = Some d'" using dhcp_option_safe True by blast
    have "length f - (p + 2 + ?n) < length f - p" using True by linarith
    then have "\<exists>d''. option_loop (dhcp_option f) (\<lambda>_. f) (length f) (p + 2 + ?n) d' = Some d''"
      using less.hyps True by blast
    then show ?thesis
      using True d' [simplified] by (subst option_loop.simps) (simp add: get8_Some)
  next
    case False
    have "\<exists>d'. option_loop (dhcp_option f) (\<lambda>_. f) (length f) (p + 1) d = Some d'" if "p < length f"
      using that by (intro less.hyps) auto
    then show ?thesis using False less.prems by (subst option_loop.simps) (auto simp: get8_def)
  qed
qed

text \<open>At most \<open>k\<close> events were pushed.\<close>

definition pushes :: "nat \<Rightarrow> net_ring \<Rightarrow> net_ring option \<Rightarrow> bool" where
  "pushes k r res \<longleftrightarrow> (\<exists>r' n. res = Some r' \<and> n \<le> k \<and> g_net_trace_seq r' = g_net_trace_seq r + of_nat n)"

lemma pushes_none [simp]: "pushes k r (Some r)"
  unfolding pushes_def by (rule exI [of _ r], rule exI [of _ 0]) simp

lemma push_seq [simp]: "g_net_trace_seq (snd (net_ring_push clk v r)) = g_net_trace_seq r + 1"
  by (simp add: net_ring_push_def Let_def)

lemma pushes_one: "1 \<le> k \<Longrightarrow> pushes k r (Some (snd (net_ring_push clk v r)))"
proof -
  assume k: "1 \<le> k"
  have "g_net_trace_seq (snd (net_ring_push clk v r)) = g_net_trace_seq r + of_nat 1" by simp
  then show ?thesis using k unfolding pushes_def by blast
qed

lemma set_hostname_seq [simp]: "g_net_trace_seq (net_ring_set_hostname c s r) = g_net_trace_seq r"
  by (simp add: net_ring_set_hostname_def Let_def)

lemma pushes_named: "1 \<le> k \<Longrightarrow> pushes k r (Some (push_named clk v q r))"
proof -
  assume k: "1 \<le> k"
  have "g_net_trace_seq (push_named clk v q r) = g_net_trace_seq r + of_nat 1"
    by (simp add: push_named_def case_prod_beta)
  then show ?thesis using k unfolding pushes_def by blast
qed

lemma dhcp_pushes: "pushes 2 r (classify_dhcp clk f w p n r)"
proof -
  obtain y where y: "(if p + 20 \<le> length f then get32 f (p + 16) else Some 0) = Some y"
    using get_total(2) [of "p + 16" f] by (cases "p + 20 \<le> length f") auto
  obtain m where m: "has_cookie f (p + 236) (length f) = Some m" using cookie_total by blast
  have "p + 236 + 4 \<le> length f" if "m" using m that by (auto simp: has_cookie_def split: if_splits)
  then obtain d where d: "(if m then option_loop (dhcp_option f) (\<lambda>_. f) (length f) (p + 236 + 4)
             \<lparr>msg_type = 0, router_ip = None, dns_ip = None, server_id = 0\<rparr>
           else Some \<lparr>msg_type = 0, router_ip = None, dns_ip = None, server_id = 0\<rparr>) = Some d"
    using dhcp_loop_safe [of "p + 236 + 4" f "\<lparr>msg_type = 0, router_ip = None, dns_ip = None, server_id = 0\<rparr>"]
    by (cases m) auto
  show ?thesis
    unfolding classify_dhcp_def Let_def y m d Option.bind.simps by (rule pushes_one) simp
qed

lemma dns_pushes: "pushes 2 r (classify_dns clk f w p n r)"
proof (cases "p + 12 \<le> length f")
  case True
  obtain a b c d where abcd: "get16 f p = Some a" "get16 f (p + 2) = Some b" "get16 f (p + 4) = Some c" "get16 f (p + 6) = Some d"
    using get_total(1) [of p f] get_total(1) [of "p + 2" f] get_total(1) [of "p + 4" f] get_total(1) [of "p + 6" f] True by auto
  obtain res where res: "dns_read_name f p (p + 12) 256 = Some res" using dns_read_name_safe by blast
  have t: "\<not> length f < p + 12" using True by simp
  show ?thesis
  proof (cases res)
    case None
    show ?thesis
      unfolding classify_dns_def abcd res None Option.bind.simps option.case Let_def by simp
  next
    case (Some qe)
    obtain q e where qe: "qe = (q, e)" by (cases qe)
    show ?thesis
    proof (cases "e + 4 \<le> length f")
      case e: True
      obtain ty where ty: "get16 f e = Some ty" using get_total(1) [of e f] e by auto
      obtain pos where pos: "skip_questions f p (unat c - 1) (e + 4) = Some pos" using skip_safe by blast
      obtain ans where ans: "find_answer f p (unat d) pos = Some ans" using find_safe by blast
      show ?thesis
        unfolding classify_dns_def abcd res Some qe ty Option.bind.simps option.case prod.case pos ans Let_def
        using t e by (auto intro: pushes_named)
    next
      case False
      then show ?thesis
        unfolding classify_dns_def abcd res Some qe Option.bind.simps option.case prod.case Let_def by simp
    qed
  qed
qed (simp add: classify_dns_def)

lemma tls_pushes: "pushes 1 r (classify_tls_record clk f w p n r)"
proof (cases "n < 5 \<or> p + 5 > length f")
  case False
  obtain a b c d where abcd: "get8 f p = Some a" "get8 f (p + 1) = Some b" "get8 f (p + 2) = Some c" "get16 f (p + 3) = Some d"
    using get_total(1) [of "p + 3" f] get8_Some [of p f] get8_Some [of "p + 1" f] get8_Some [of "p + 2" f] False by auto
  obtain h where h: "(if a = 22 \<and> n \<ge> 6 \<and> p + 6 \<le> length f then get8 f (p + 5) else Some 0xFF) = Some h"
    using get8_Some [of "p + 5" f] by (cases "a = 22 \<and> n \<ge> 6 \<and> p + 6 \<le> length f") auto
  show ?thesis
    unfolding classify_tls_record_def abcd Option.bind.simps h Let_def using False by (auto intro: pushes_one)
qed (simp add: classify_tls_record_def)

lemma tcp_pushes: "pushes 2 r (classify_tcp clk f w p n r)"
proof (cases "p + 20 \<le> length f")
  case True
  obtain a b c d where abcd: "get16 f p = Some a" "get16 f (p + 2) = Some b" "get8 f (p + 12) = Some c" "get8 f (p + 13) = Some d"
    using get_total(1) [of p f] get_total(1) [of "p + 2" f] get8_Some [of "p + 12" f] get8_Some [of "p + 13" f] True by auto
  let ?r = "\<lambda>w m. snd (net_ring_push clk (flow_event w (tcp_kind d) 0 (of_nat m) (ucast d)) r)"
  have two: "pushes 2 r (classify_tls_record clk f w' q m (?r w' m'))" for w' q m m'
    using tls_pushes [of "?r w' m'" clk f w' q m] unfolding pushes_def
    by (auto simp: add.assoc) (metis (no_types, lifting) One_nat_def Suc_leI Suc_le_mono add.commute le_SucI numeral_2_eq_2 of_nat_Suc)
  show ?thesis
    unfolding classify_tcp_def abcd Option.bind.simps Let_def using True two by (auto intro: pushes_one)
qed (simp add: classify_tcp_def)

lemma udp_pushes: "pushes 2 r (classify_udp clk f w p n r)"
proof (cases "p + 8 \<le> length f")
  case True
  obtain a b c where abc: "get16 f p = Some a" "get16 f (p + 2) = Some b" "get16 f (p + 4) = Some c"
    using get_total(1) [of p f] get_total(1) [of "p + 2" f] get_total(1) [of "p + 4" f] True by auto
  show ?thesis
    unfolding classify_udp_def abc Option.bind.simps Let_def using True
    by (simp add: pushes_one dhcp_pushes dns_pushes)
qed (simp add: classify_udp_def)

section \<open>Properties\<close>

text \<open>
  C38. The classifier is safe on every input. Whatever bytes a frame holds (truncated headers, wrong
  lengths, looping compression pointers), classification ends, never reads outside the frame, and
  adds at most two events to the ring.
\<close>

theorem classify_safe:
  "\<exists>r' n. net_classify_ethernet_frame clk f direction r = Some r' \<and> n \<le> 2
    \<and> g_net_trace_seq r' = g_net_trace_seq r + of_nat n"
proof -
  have "pushes 2 r (net_classify_ethernet_frame clk f direction r)"
  proof (cases "length f < 14")
    case False
    obtain e where e: "getn f 0 6 = Some (slice f 0 6)" "getn f 6 6 = Some (slice f 6 6)" "get16 f 12 = Some e"
      using get_total(1) [of 12 f] False by (auto simp: getn_Some)
    show ?thesis
    proof (cases "e = 0x0806")
      case True
      show ?thesis
      proof (cases "length f < 42")
        case l: False
        obtain a b c where "get16 f 20 = Some a" "getn f 22 6 = Some (slice f 22 6)" "get32 f 28 = Some b"
          "getn f 32 6 = Some (slice f 32 6)" "get32 f 38 = Some c"
          using get_total(1) [of 20 f] get_total(2) [of 28 f] get_total(2) [of 38 f] l by (auto simp: getn_Some)
        then show ?thesis using False l True by (simp add: net_classify_ethernet_frame_def e pushes_one)
      qed (use False True in \<open>simp add: net_classify_ethernet_frame_def e\<close>)
    next
      case ne: False
      show ?thesis
      proof (cases "e = 0x0800 \<and> 34 \<le> length f")
        case True
        obtain a b c d p where h: "get8 f 14 = Some a" "get8 f 23 = Some p" "get32 f 26 = Some b" "get32 f 30 = Some c" "get16 f 16 = Some d"
          using get_total(2) [of 26 f] get_total(2) [of 30 f] get_total(1) [of 16 f] True by (auto simp: get8_Some)
        show ?thesis
          unfolding net_classify_ethernet_frame_def e h Option.bind.simps Let_def using False True
          by (simp add: udp_pushes tcp_pushes)
      qed (use False ne in \<open>auto simp: net_classify_ethernet_frame_def e\<close>)
    qed
  qed (simp add: net_classify_ethernet_frame_def)
  then show ?thesis by (auto simp: pushes_def)
qed

text \<open>The wire form of a domain name, and its dotted form.\<close>

definition encode_name :: "u8 list list \<Rightarrow> u8 list" where
  "encode_name labels = concat (map (\<lambda>l. of_nat (length l) # l) labels) @ [0]"

fun dotted :: "u8 list list \<Rightarrow> u8 list" where
  "dotted [] = []"
| "dotted [l] = l"
| "dotted (l # ls) = l @ [46] @ dotted ls"

definition label_ok :: "u8 list \<Rightarrow> bool" where
  "label_ok l \<longleftrightarrow> 1 \<le> length l \<and> length l \<le> 63"

lemma fold_put: "length out + length l < n \<Longrightarrow> fold (put_out n) l out = out @ l"
  by (induction l arbitrary: out) (simp_all add: put_out_def)

lemma label_byte:
  assumes "label_ok l"
  shows "(of_nat (length l) :: u8) \<noteq> 0" "(of_nat (length l) :: u8) AND 0xC0 \<noteq> 0xC0" "unat (of_nat (length l) :: u8) = length l"
proof -
  let ?b = "of_nat (length l) :: u8"
  show u: "unat ?b = length l" using assms by (simp add: label_ok_def unat_of_nat)
  show "?b \<noteq> 0" using u assms by (auto simp: label_ok_def)
  have "\<not> bit (unat ?b) 7" using assms unfolding u by (simp add: label_ok_def bit_iff_odd)
  then have "\<not> bit ?b 7" by (simp add: bit_unsigned_iff)
  moreover have "bit (0xC0 :: u8) 7" by (simp add: bit_iff_odd)
  ultimately show "?b AND 0xC0 \<noteq> 0xC0" by (metis bit_and_iff)
qed

lemma labels_decode:
  assumes "\<forall>l \<in> set ls. label_ok l" and "f = pre @ encode_name ls @ post" and "pos = length pre"
    and "length (if out = [] then dotted ls else if ls = [] then out else out @ [46] @ dotted ls) < n"
  shows "dns_labels f base n pos j None out =
    Some (Some ((if out = [] then dotted ls else if ls = [] then out else out @ [46] @ dotted ls), pos + length (encode_name ls)))"
  using assms
proof (induction ls arbitrary: pre pos out)
  case Nil
  then show ?case by (subst dns_labels.simps) (simp add: encode_name_def get8_def nth_append)
next
  case (Cons l ls)
  note lb = label_byte [of l]
  have ok: "label_ok l" "\<forall>l \<in> set ls. label_ok l" using Cons.prems(1) by simp_all
  have enc: "encode_name (l # ls) = of_nat (length l) # l @ encode_name ls" by (simp add: encode_name_def)
  have pos: "pos < length f" "f ! pos = of_nat (length l)" "pos + 1 + length l \<le> length f"
    using Cons.prems(2,3) by (simp_all add: enc nth_append)
  have sl: "slice f (pos + 1) (length l) = l" using Cons.prems(2,3) by (simp add: enc slice_def)
  let ?out = "(if out = [] then l else out @ [46] @ l)"
  have nonempty: "l \<noteq> []" using ok by (auto simp: label_ok_def)
  have len: "length ?out < n" and len': "out \<noteq> [] \<Longrightarrow> length out + 1 < n"
    using Cons.prems(4) nonempty by (cases ls; auto)+
  have put: "fold (put_out n) l (put_dot n out) = ?out"
  proof (cases "out = []")
    case True
    then show ?thesis using len by (simp add: put_dot_def fold_put)
  next
    case False
    then show ?thesis using len len' by (simp add: put_dot_def fold_put)
  qed
  have tot: "(if out = [] then dotted (l # ls) else if l # ls = [] then out else out @ [46] @ dotted (l # ls))
      = (if ls = [] then ?out else ?out @ [46] @ dotted ls)"
    by (cases ls) auto
  have IH: "dns_labels f base n (pos + 1 + length l) j None ?out =
      Some (Some ((if ls = [] then ?out else ?out @ [46] @ dotted ls), pos + 1 + length l + length (encode_name ls)))"
    using Cons.IH [OF ok(2), of "pre @ (of_nat (length l) # l)" "pos + 1 + length l" ?out] Cons.prems(2,3,4) nonempty
    unfolding tot by (simp add: enc split: if_splits)
  have "dns_labels f base n pos j None out = dns_labels f base n (pos + 1 + length l) j None ?out"
    using pos lb [OF ok(1)] sl put
    by (subst dns_labels.simps) (simp add: get8_Some getn_Some [simplified])
  then show ?case unfolding tot IH by (simp add: enc)
qed

text \<open>
  Domain names round-trip. Wherever an uncompressed name of ordinary labels stands in a frame,
  it decodes to the labels joined by dots, and parsing resumes right behind it.
\<close>

lemma dns_name_roundtrip:
  assumes "\<forall>l \<in> set ls. label_ok l" and "length (dotted ls) < out_size"
  shows "dns_read_name (pre @ encode_name ls @ post) base (length pre) out_size =
    Some (Some (dotted ls, length pre + length (encode_name ls)))"
  unfolding dns_read_name_def using labels_decode [OF assms(1) refl refl, of "[]" out_size] assms(2) by simp

lemma dns_name_roundtrip_witness:
  "dns_read_name ([9, 9] @ encode_name [[110, 97, 115], [110, 101, 116]] @ [0, 1]) 0 2 256 =
    Some (Some ([110, 97, 115, 46, 110, 101, 116], 11))"
  using dns_name_roundtrip [of "[[110, 97, 115], [110, 101, 116]]" 256 "[9, 9]" "[0, 1]" 0]
  by (simp add: label_ok_def encode_name_def eval_nat_numeral)

text \<open>
  TCP segments are labelled by their flags. A segment with a complete header pushes, as its
  first event, a reset if RST is set, else an open if SYN is set, else a close if FIN is set, else a
  data packet, with the ports of the header and the flags; a segment without payload pushes no more.
\<close>

lemma tcp_event_kind:
  assumes "tcp + 20 \<le> length f" and "get8 f (tcp + 12) = Some w" and "20 \<le> unat (drop_bit 4 w) * 4"
    and "tcp + unat (drop_bit 4 w) * 4 \<le> length f" and "get8 f (tcp + 13) = Some flags"
    and "get16 f tcp = Some sp" and "get16 f (tcp + 2) = Some dp" and "ip_len \<le> unat (drop_bit 4 w) * 4"
  shows "\<exists>v. classify_tcp clk f fl tcp ip_len r = Some (snd (net_ring_push clk v r))
    \<and> v_kind v = (if bit flags 2 then 16 else if bit flags 1 then 14 else if bit flags 0 then 15 else 17)
    \<and> v_src_port v = sp \<and> v_dst_port v = dp \<and> v_aux v = ucast flags \<and> v_payload_len v = 0"
proof -
  let ?w = "fl\<lparr>fl_src_port := sp, fl_dst_port := dp\<rparr>"
  have "classify_tcp clk f fl tcp ip_len r = Some (snd (net_ring_push clk (flow_event ?w (tcp_kind flags) 0 0 (ucast flags)) r))"
    unfolding classify_tcp_def assms(2,5,6,7) Option.bind.simps Let_def using assms(1,3,4,8) by simp
  then show ?thesis by (auto simp: flow_event_def tcp_kind_def tsts)
qed

lemma tcp_event_kind_witness:
  "\<exists>v. classify_tcp demo_clock (replicate 12 0 @ [0x50, 0x12, 0, 0, 0, 0, 0, 0])
      \<lparr>fl_direction = 0, fl_src_mac = [], fl_dst_mac = [], fl_src_ipv4 = 0, fl_dst_ipv4 = 0, fl_src_port = 0, fl_dst_port = 0\<rparr>
      0 20 demo_ring = Some (snd (net_ring_push demo_clock v demo_ring)) \<and> v_kind v = 14"
proof -
  let ?f = "replicate 12 0 @ [0x50, 0x12, 0, 0, 0, 0, 0, 0] :: u8 list"
  have h: "get8 ?f (0 + 12) = Some 0x50" "get8 ?f (0 + 13) = Some 0x12" "get16 ?f 0 = Some 0" "get16 ?f (0 + 2) = Some 0"
    "unat (drop_bit 4 (0x50 :: u8)) = 5" "\<not> bit (0x12 :: u8) 2" "bit (0x12 :: u8) 1"
    by code_simp+
  have "\<exists>v. classify_tcp demo_clock ?f fl 0 20 r = Some (snd (net_ring_push demo_clock v r)) \<and> v_kind v = 14" for fl r
    using tcp_event_kind [OF _ h(1) _ _ h(2) h(3) h(4), of 20 demo_clock fl r] h(5,6,7) by auto
  then show ?thesis by blast
qed

end
