(* ===== verification/Spec2Isabelle.thy ===== *)
theory Spec2Isabelle
  imports CartBackup CpuAlu CpuBanks Runtime IpcChannel Dma Cp15 Timers MathUnit Key1 GameCard Rtc SpiBus Display Scheduler Rendezvous Vram BusFast MemTiming NetRing NetSanitize NetClassify
begin

text \<open>
  ndsrecomp: a Nintendo DS emulator that runs statically recompiled code. A recompiler (\<open>recompiler/\<close>)
  turns the two processors' binaries into C++; a runner (\<open>runner/src/\<close>) supplies what that code calls:
  execution helpers, memory, devices and the scheduler that interleaves the ARM9 and the ARM7. This
  development models the runner's emulated machine and proves the properties below about it.

  \<^bold>\<open>Conventions.\<close> \<open>uintN_t\<close> is \<open>N word\<close>, so \<open>+\<close>, \<open>-\<close> and \<open>*\<close> wrap as in C++; a signed value is \<open>sint\<close>
  of a word or an \<open>int\<close> with its range stated. A static variable is a record field with its name in
  the source; the records extend each other (\<open>rt\<close>, \<open>ipc\<close>, \<open>io_regs\<close>, \<open>math\<close>, \<open>card\<close>, \<open>timers\<close>, \<open>rtc\<close>,
  \<open>spi\<close>, \<open>display\<close>, \<open>sched\<close>; \<open>cp15\<close> and \<open>bus\<close> extend \<open>rt\<close>) and every operation is polymorphic in the
  extension, so a lemma about a component holds in the whole machine. An access that could leave an
  array is an \<open>option\<close>, and \<open>None\<close> is the out-of-range access; an error message is the left side of a
  sum. Host files, third-party cores and guest code are arguments of the operations that call them.

  \<^bold>\<open>Parts, in the order they use each other.\<close>
  \<^item> Prelude: word types, the two processors, shared lemmas and theorem collections.
  \<^item> CpuAlu, CpuBanks (\<open>runtime_arm.cpp\<close>, \<open>runtime_arm.h\<close>): condition codes, shifter, flags, multiplier
    timing; banked registers, exception entry and return, the call-return stack. The word-level flag and
    shifter code is compared with integer arithmetic, the banked file with one register file per mode.
  \<^item> Runtime (\<open>runtime_arm.cpp\<close>, interrupt controller of \<open>io.cpp\<close>): the per-instruction tick with its
    published fast limit, the deadline behind it, interrupt delivery, the static-code guard. Skipping the
    slow check below the limit changes nothing, and a raised interrupt is taken at the next tick.
  \<^item> IpcChannel (\<open>io.cpp\<close>): the two word queues between the processors, as an instance of the locale of
    bounded channels, and IPCSYNC. Dma: the eight channels, their timing tables and the transfer loop.
    Timers: catch-up ticking and the predicted next overflow. MathUnit: divider and square root.
    Key1, GameCard: the card's block cipher and its command protocol. Rtc: the clock chip against a
    civil calendar. SpiBus, on CartBackup (\<open>cart_backup.cpp\<close>) and the locales of SpiTransfer: power
    manager, firmware flash, touch screen, and the AUXSPI port in front of the backup chip. Display: the
    scan position, VCOUNT override and the events of a line against the raster.
  \<^item> Scheduler, Rendezvous (\<open>scheduler.cpp\<close>): context switches of the shared registers, slices, rounds,
    the savestate of the two cores; the next deadline of every device and the fast-forward of two
    sleeping cores, compared with the rounds on the 64-cycle grid it replaces.
  \<^item> Cp15 (\<open>cp15.cpp\<close>): protection regions, TCM registers and the cacheability bitmaps derived from them.
    Vram (\<open>vram.cpp\<close>, texture caches of \<open>gpu3d.cpp\<close>, capture of \<open>gpu2d.cpp\<close>): bank mapping tables, accesses
    through them, flattened texture copies. Bus, BusFast (\<open>bus.cpp\<close>, inline accesses of \<open>runtime_arm.h\<close>):
    the address decode with its stores and execute provenance, and the published windows generated
    code uses instead. MemTiming (both files): the cost of data accesses, fetches and refills, out of line
    and inline, and the remembered and published class of the code being fetched.
  \<^item> NetRing, NetSanitize, NetClassify (\<open>runner/src/net/\<close>): the trace ring with attachments, the rewriting
    of the learned identity in captured frames, and the frame classifier.

  \<^bold>\<open>Contracts.\<close> \<open>bounded_channel\<close> (IpcChannel) is interpreted on the IPC queues; \<open>spi_device\<close> and \<open>burst_port\<close>
  (SpiTransfer) on the backup chip of each kind. Refinements are stated against independent
  specifications: day counts for the clock, event lists for the ring, field parsers for the sanitizer,
  integer division and roots, the region walk for the bitmaps, \<open>resolve\<close> for the bus windows.

  \<^bold>\<open>Bounds and termination.\<close> Most loops are structural or carry a measure. The DMA loop of a slice takes its
  quantum as fuel and every unit costs at least one cycle, so the quantum suffices. The guard of
  20,000,000 dispatches in a slice is the source's own. \<open>rtc_after\<close>, \<open>arm7_catch_up\<close> and \<open>run_rounds\<close> are partial
  functions; that they return is proved where a property needs it. Rendezvous times are exact below
  2^49 system cycles, where the clock's 64-bit product overflows; from there on the source's search does not
  end, and the model returns \<open>None\<close>. Timer predictions hold while system time is below 2^63. Texture generations
  are compared as 64-bit counters that do not wrap, code page generations as 32-bit counters that skip 0;
  the CP15 timing generation is taken before it wraps.
  The bus windows agree with the decode when the data TCM does not run past the end of the address
  space; \<open>dtcm_window_wraps\<close> shows the condition is needed.

  \<^bold>\<open>Not modelled.\<close> The decoder, the code generator and the interpreter are a submodule whose directory is
  empty, so guest code is a parameter. Left out as host code: the desktop frontend, the loading of live
  overlays, boot and file handling, the savestate file format, sockets and capture files, debug server
  and profiling (their counters and trace rings are dropped from the operations that fill them). Left out as
  adapters to third-party cores: the 3D engine, Wi-Fi. The pixel work of the 2D engines and the sound
  mixer are not modelled; what they ask of scheduler and video memory is.
\<close>

end
